(* ===== verification/Prelude.thy ===== *)
theory Prelude
  imports Main "HOL-Library.Word" "HOL-Library.Monad_Syntax" "HOL-Library.Multiset"
    "HOL-Library.Signed_Division"
begin

unbundle bit_operations_syntax

text \<open>
  Shared vocabulary of the development.

  \<^item> Go's fixed-width integers are words (\<open>u8\<close> .. \<open>u64\<close>); Go's \<open>x << n\<close> and \<open>x >> n\<close> on
    unsigned operands are \<^term>\<open>push_bit n x\<close> and \<^term>\<open>drop_bit n x\<close> (both give 0 once \<open>n\<close>
    reaches the width, as in Go).
  \<^item> Go's \<open>int\<close> used as an index, a count or a size is a \<^typ>\<open>nat\<close>, or an \<^typ>\<open>int\<close>
    where it goes below zero.
  \<^item> A slice is a list; reading or writing outside of it is a run-time panic, modelled by
    \<^const>\<open>None\<close> of \<open>slice_get\<close> and \<open>slice_set\<close>.
\<close>

named_theorems word_norm
  \<open>rewrite rules that bring shift and mask expressions into one normal form\<close>
named_theorems slice_simps
  \<open>facts about slice reads and writes inside their bounds\<close>

type_synonym u8 = "8 word"
type_synonym u16 = "16 word"
type_synonym u32 = "32 word"
type_synonym u64 = "64 word"

text \<open>The error values the code distinguishes: \<open>io.EOF\<close>, and any other by its message.\<close>

datatype go_error = EOF | Err string

subsection \<open>Slices\<close>

definition slice_get :: "'a list \<Rightarrow> nat \<Rightarrow> 'a option" where
  "slice_get xs i = (if i < length xs then Some (xs ! i) else None)"

definition slice_set :: "'a list \<Rightarrow> nat \<Rightarrow> 'a \<Rightarrow> 'a list option" where
  "slice_set xs i x = (if i < length xs then Some (xs[i := x]) else None)"

text \<open>An index computed as an \<open>int\<close>: a negative one is a panic.\<close>

definition int_index :: "int \<Rightarrow> nat option" where
  "int_index k = (if k < 0 then None else Some (nat k))"

text \<open>\<open>copy(xs[off:], ys)\<close>, or the same number of single writes one after the other.\<close>

definition write_block :: "'a list \<Rightarrow> nat \<Rightarrow> 'a list \<Rightarrow> 'a list" where
  "write_block xs off ys = take off xs @ ys @ drop (off + length ys) xs"

lemma slice_get_Some_iff [simp]: "slice_get xs i = Some x \<longleftrightarrow> i < length xs \<and> xs ! i = x"
  by (auto simp: slice_get_def)

lemma slice_get_None_iff [simp]: "slice_get xs i = None \<longleftrightarrow> length xs \<le> i"
  by (auto simp: slice_get_def)

lemma slice_get_in [slice_simps]: "i < length xs \<Longrightarrow> slice_get xs i = Some (xs ! i)"
  by simp

lemma slice_set_Some_iff [simp]:
  "slice_set xs i x = Some ys \<longleftrightarrow> i < length xs \<and> ys = xs[i := x]"
  by (auto simp: slice_set_def)

lemma slice_set_None_iff [simp]: "slice_set xs i x = None \<longleftrightarrow> length xs \<le> i"
  by (auto simp: slice_set_def)

lemma slice_set_in [slice_simps]: "i < length xs \<Longrightarrow> slice_set xs i x = Some (xs[i := x])"
  by simp

lemma int_index_nonneg: "0 \<le> k \<Longrightarrow> int_index k = Some (nat k)"
  by (simp add: int_index_def)

lemma int_index_int [simp]: "int_index (int n) = Some n"
  by (simp add: int_index_def)

lemma length_write_block [simp]:
  "off + length ys \<le> length xs \<Longrightarrow> length (write_block xs off ys) = length xs"
  by (simp add: write_block_def)

lemma write_block_Nil [simp]: "write_block xs off [] = xs"
  by (simp add: write_block_def)

lemma write_block_append:
  assumes "off + length ys + length zs \<le> length xs"
  shows "write_block (write_block xs off ys) (off + length ys) zs = write_block xs off (ys @ zs)"
  using assms by (simp add: write_block_def ac_simps)

lemma write_block_Cons:
  assumes "off < length xs"
  shows "write_block (xs[off := y]) (Suc off) ys = write_block xs off (y # ys)"
proof -
  have "take (Suc off) (xs[off := y]) = take off xs @ [y]"
    using assms by (simp add: take_Suc_conv_app_nth)
  then show ?thesis
    using assms by (simp add: write_block_def)
qed

lemma nth_write_block:
  assumes "off + length ys \<le> length xs" and "i < length xs"
  shows "write_block xs off ys ! i =
    (if off \<le> i \<and> i < off + length ys then ys ! (i - off) else xs ! i)"
  using assms by (auto simp: write_block_def nth_append)

lemma list_eq_map_nth: "length xs = n \<Longrightarrow> (\<And>i. i < n \<Longrightarrow> xs ! i = f i) \<Longrightarrow> xs = map f [0..<n]"
  by (intro nth_equalityI) auto

text \<open>\<open>bs[a:b]\<close>, and \<open>copy(bs[a:b], xs)\<close>\<close>

definition sub_slice :: "'a list \<Rightarrow> int \<Rightarrow> int \<Rightarrow> 'a list option" where
  "sub_slice bs a b =
     (if 0 \<le> a \<and> a \<le> b \<and> b \<le> int (length bs) then Some (take (nat (b - a)) (drop (nat a) bs)) else None)"

definition copy_into :: "'a list \<Rightarrow> int \<Rightarrow> int \<Rightarrow> 'a list \<Rightarrow> 'a list option" where
  "copy_into bs a b xs = do {
     old \<leftarrow> sub_slice bs a b;
     Some (write_block bs (nat a) (take (length old) xs))
   }"

lemma sub_slice_nat:
  "a + n \<le> length bs \<Longrightarrow> sub_slice bs (int a) (int (a + n)) = Some (take n (drop a bs))"
  by (simp add: sub_slice_def nat_diff_distrib)

lemma copy_into_nat:
  assumes "a + length xs \<le> length bs"
  shows "copy_into bs (int a) (int (a + length xs)) xs = Some (write_block bs a xs)"
  using assms by (simp add: copy_into_def sub_slice_nat del: of_nat_add)

subsection \<open>Words\<close>

text \<open>\<open>(1 << n) - 1\<close>, the mask with the \<open>n\<close> low bits set.\<close>

lemma push_bit_minus_one_eq_mask [word_norm]: "push_bit n (1 :: 'a::len word) - 1 = mask n"
  by (simp add: mask_eq_exp_minus_1 push_bit_eq_mult)

lemma and_mask_take_bit: "(x :: 'a::len word) AND mask n = take_bit n x"
  by (simp add: take_bit_eq_mask)

lemma bit_word_eqI_upto:
  fixes v w :: "'a::len word"
  assumes "\<And>j. j < LENGTH('a) \<Longrightarrow> bit v j \<longleftrightarrow> bit w j"
  shows "v = w"
  using assms by (rule bit_word_eqI)

lemma unat_less_exp_iff_take_bit:
  fixes v :: "'a::len word"
  assumes "n \<le> LENGTH('a)"
  shows "unat v < 2 ^ n \<longleftrightarrow> take_bit n v = v"
proof -
  have "unat (take_bit n v) = unat v mod 2 ^ n"
    by (simp only: unsigned_take_bit_eq assms) (simp add: take_bit_eq_mod)
  moreover have "unat v < 2 ^ n \<longleftrightarrow> unat v mod 2 ^ n = unat v"
    by (metis mod_less mod_less_divisor zero_less_numeral zero_less_power)
  ultimately show ?thesis
    by (metis unsigned_word_eqI)
qed

lemma bit_high_zero:
  fixes v :: "'a::len word"
  assumes "unat v < 2 ^ n" and "n \<le> j"
  shows "\<not> bit v j"
proof (cases "j < LENGTH('a)")
  case True
  then have "take_bit n v = v"
    using assms unat_less_exp_iff_take_bit [of n v] by simp
  then show ?thesis
    using assms(2) by (metis bit_take_bit_iff not_le)
next
  case False
  then show ?thesis by (simp add: bit_word_iff_drop_bit_and not_less)
qed

lemma map_upt_append: "a \<le> b \<Longrightarrow> b \<le> c \<Longrightarrow> map f [a..<b] @ map f [b..<c] = map f [a..<c]"
  by (metis le_Suc_ex map_append upt_add_eq_append)

lemma write_block_map_append:
  assumes "off \<le> m" and "m \<le> n" and "n \<le> length xs"
  shows "write_block (write_block xs off (map f [off..<m])) m (map f [m..<n]) = write_block xs off (map f [off..<n])"
  using assms write_block_append [of off "map f [off..<m]" "map f [m..<n]" xs] map_upt_append [of off m n f]
  by simp

lemma bit_u8_less: "bit (w :: u8) j \<Longrightarrow> j < 8"
  using bit_imp_le_length [of w j] by simp

lemma bit_u64_less: "bit (w :: u64) j \<Longrightarrow> j < 64"
  using bit_imp_le_length [of w j] by simp

lemma bit_u8_ucast: "bit (ucast (w :: u8) :: u64) j \<longleftrightarrow> bit w j"
  by (auto simp: bit_ucast_iff dest: bit_u8_less)

lemma bit_u64_to_u8: "bit (ucast (w :: u64) :: u8) j \<longleftrightarrow> j < 8 \<and> bit w j"
  by (simp add: bit_ucast_iff)

lemma nth_write_block_outside:
  assumes "off + length ys \<le> length xs" and "i < off \<or> off + length ys \<le> i"
  shows "write_block xs off ys ! i = xs ! i"
  using assms by (auto simp: write_block_def nth_append)


lemma align_up:
  assumes "0 < (n :: nat)"
  shows "n dvd a + (if a mod n \<noteq> 0 then n - a mod n else 0)"
proof (cases "a mod n = 0")
  case True
  then show ?thesis
    by (simp add: mod_eq_0_iff_dvd)
next
  case False
  define k r where "k = n * (a div n)" and "r = a mod n"
  have "a = k + r" "r < n"
    using assms by (simp_all add: k_def r_def)
  then have "a + (n - r) = k + n"
    by simp
  moreover have "n dvd k + n"
    by (simp add: k_def)
  ultimately show ?thesis
    using False by (simp add: r_def)
qed


lemma dvd_align_up: "(0 :: nat) < l \<Longrightarrow> i mod l \<noteq> 0 \<Longrightarrow> l dvd i + (l - i mod l)"
  using align_up [of l i] by simp


lemma sdiv_nat: "int a sdiv int b = int (a div b)"
  by (simp add: signed_divide_int_def zdiv_int sgn_if)


lemma write_block_take_drop:
  assumes "bi + k + j \<le> length buffer" and "index + k + j \<le> length xs"
  shows "write_block (write_block buffer bi (take k (drop index xs))) (bi + k) (take j (drop (index + k) xs)) =
    write_block buffer bi (take (k + j) (drop index xs))"
proof -
  have "take k (drop index xs) @ take j (drop (index + k) xs) = take (k + j) (drop index xs)"
    unfolding take_add drop_drop by (simp only: add.commute)
  then show ?thesis
    using write_block_append [of bi "take k (drop index xs)" "take j (drop (index + k) xs)" buffer] assms
    by simp
qed


text \<open>A computation that is evaluated, and its result.\<close>

definition returns :: "'a option \<Rightarrow> ('a \<Rightarrow> bool) \<Rightarrow> bool" where
  "returns x P \<longleftrightarrow> (case x of None \<Rightarrow> False | Some y \<Rightarrow> P y)"

lemma returnsD: "returns x P \<Longrightarrow> \<exists>y. x = Some y \<and> P y"
  by (cases x) (simp_all add: returns_def)

end
