(* ===== verification/Bit_Stream.thy ===== *)
theory Bit_Stream
  imports Prelude
begin

text \<open>
  The abstract contract of the packed integer formats: a slice of blocks (64-bit or 8-bit) is
  one stream of bits, each block giving its bits from the most significant one down, and the
  \<open>i\<close>-th value of width \<open>bpv\<close> is the number written by the bits
  \<open>i * bpv, ..., (i + 1) * bpv - 1\<close>, most significant first.
  Every encoder, decoder and reader of the package is proved against \<open>packed_value\<close>.
\<close>

definition stream_bit :: "'a::len word list \<Rightarrow> nat \<Rightarrow> bool" where
  "stream_bit ws k \<longleftrightarrow> bit (ws ! (k div LENGTH('a))) (LENGTH('a) - 1 - k mod LENGTH('a))"

definition packed_value :: "nat \<Rightarrow> 'a::len word list \<Rightarrow> nat \<Rightarrow> u64" where
  "packed_value bpv ws i =
     horner_sum of_bool 2 (map (\<lambda>j. stream_bit ws (i * bpv + (bpv - 1 - j))) [0..<bpv])"

text \<open>The bits the values of \<open>vs\<close> put on the stream.\<close>

definition values_bit :: "nat \<Rightarrow> u64 list \<Rightarrow> nat \<Rightarrow> bool" where
  "values_bit bpv vs k \<longleftrightarrow> bit (vs ! (k div bpv)) (bpv - 1 - k mod bpv)"

lemma bit_packed_value [bit_simps]:
  assumes "bpv \<le> 64"
  shows "bit (packed_value bpv ws i) j \<longleftrightarrow> j < bpv \<and> stream_bit ws (i * bpv + (bpv - 1 - j))"
  using assms by (auto simp: packed_value_def bit_horner_sum_bit_word_iff)

lemma packed_value_eqI:
  assumes "bpv \<le> 64"
    and "\<And>j. j < 64 \<Longrightarrow> bit v j \<longleftrightarrow> j < bpv \<and> stream_bit ws (i * bpv + (bpv - 1 - j))"
  shows "packed_value bpv ws i = v"
  using assms by (intro bit_word_eqI) (simp add: bit_packed_value)

lemma packed_value_less: "bpv \<le> 64 \<Longrightarrow> take_bit bpv (packed_value bpv ws i) = packed_value bpv ws i"
  by (intro bit_word_eqI) (auto simp: bit_packed_value bit_take_bit_iff)

lemma stream_bit_in_block:
  fixes ws :: "'a::len word list"
  assumes "q * LENGTH('a) \<le> k" and "k < (q + 1) * LENGTH('a)"
  shows "stream_bit ws k = bit (ws ! q) (LENGTH('a) - 1 - (k - q * LENGTH('a)))"
proof -
  have q: "k div LENGTH('a) = q"
    using assms by (metis Suc_eq_plus1 div_nat_eqI mult.commute)
  then have "k mod LENGTH('a) = k - q * LENGTH('a)"
    by (metis minus_mult_div_eq_mod mult.commute)
  with q show ?thesis
    by (simp add: stream_bit_def)
qed

text \<open>The same fact for the two block widths the code has, with the bit addressed from below.\<close>

lemma stream_bit64:
  fixes ws :: "u64 list"
  assumes "k + j = 64 * q + 63" and "j < 64"
  shows "stream_bit ws k = bit (ws ! q) j"
proof -
  have "LENGTH(64) - 1 - (k - q * LENGTH(64)) = j"
    using assms by simp
  then show ?thesis
    using assms stream_bit_in_block [of q k ws] by simp
qed

lemma stream_bit8:
  fixes ws :: "u8 list"
  assumes "k + j = 8 * q + 7" and "j < 8"
  shows "stream_bit ws k = bit (ws ! q) j"
proof -
  have "LENGTH(8) - 1 - (k - q * LENGTH(8)) = j"
    using assms by simp
  then show ?thesis
    using assms stream_bit_in_block [of q k ws] by simp
qed

lemma values_bit_value:
  assumes "j < bpv"
  shows "values_bit bpv vs (i * bpv + (bpv - 1 - j)) = bit (vs ! i) j"
proof -
  have "bpv - 1 - j < bpv"
    using assms by simp
  then have "(i * bpv + (bpv - 1 - j)) div bpv = i" "(i * bpv + (bpv - 1 - j)) mod bpv = bpv - 1 - j"
    by simp_all
  then show ?thesis
    using assms by (simp add: values_bit_def)
qed

text \<open>A stream that carries the bits of \<open>vs\<close> decodes to \<open>vs\<close> truncated to \<open>bpv\<close> bits.\<close>

lemma packed_value_of_values:
  assumes "bpv \<le> 64"
    and "\<And>k. i * bpv \<le> k \<Longrightarrow> k < (i + 1) * bpv \<Longrightarrow> stream_bit ws k = values_bit bpv vs k"
  shows "packed_value bpv ws i = take_bit bpv (vs ! i)"
proof (rule packed_value_eqI [OF assms(1)])
  fix j :: nat
  assume "j < 64"
  show "bit (take_bit bpv (vs ! i)) j \<longleftrightarrow> j < bpv \<and> stream_bit ws (i * bpv + (bpv - 1 - j))"
  proof (cases "j < bpv")
    case True
    have "stream_bit ws (i * bpv + (bpv - 1 - j)) = values_bit bpv vs (i * bpv + (bpv - 1 - j))"
      by (rule assms(2)) (use True in auto)
    also have "\<dots> = bit (vs ! i) j"
      using True by (rule values_bit_value)
    finally have "stream_bit ws (i * bpv + (bpv - 1 - j)) = bit (vs ! i) j" .
    with True show ?thesis
      by (simp add: bit_take_bit_iff)
  qed (simp add: bit_take_bit_iff)
qed

text \<open>The value depends only on the blocks its bits lie in.\<close>

lemma packed_value_cong:
  fixes ws ws' :: "'a::len word list"
  assumes "bpv \<le> 64"
    and "\<And>q. i * bpv < (q + 1) * LENGTH('a) \<Longrightarrow> q * LENGTH('a) < (i + 1) * bpv \<Longrightarrow> ws ! q = ws' ! q"
  shows "packed_value bpv ws i = packed_value bpv ws' i"
proof (rule packed_value_eqI [OF assms(1)])
  fix j :: nat
  assume "j < 64"
  let ?k = "i * bpv + (bpv - 1 - j)" and ?q = "(i * bpv + (bpv - 1 - j)) div LENGTH('a)"
  have "stream_bit ws ?k = stream_bit ws' ?k" if "j < bpv"
  proof -
    have 1: "?q * LENGTH('a) \<le> ?k"
      by (rule div_times_less_eq_dividend)
    have 2: "?k < (?q + 1) * LENGTH('a)"
      using dividend_less_div_times [of "LENGTH('a)" ?k] by simp
    have "i * bpv < (?q + 1) * LENGTH('a)"
      using 2 by linarith
    moreover have "?q * LENGTH('a) < (i + 1) * bpv"
      by (rule le_less_trans [OF 1]) (use that in simp)
    ultimately have "ws ! ?q = ws' ! ?q"
      by (rule assms(2))
    then show ?thesis
      by (simp add: stream_bit_def)
  qed
  then show "bit (packed_value bpv ws' i) j \<longleftrightarrow> j < bpv \<and> stream_bit ws ?k"
    using assms(1) by (auto simp: bit_packed_value)
qed

subsection \<open>The blocks of a stream of values\<close>

definition stream_block :: "nat \<Rightarrow> u64 list \<Rightarrow> nat \<Rightarrow> 'a::len word" where
  "stream_block bpv vs q =
     horner_sum of_bool 2 (map (\<lambda>j. values_bit bpv vs (q * LENGTH('a) + (LENGTH('a) - 1 - j))) [0..<LENGTH('a)])"

definition partial_block :: "nat \<Rightarrow> u64 list \<Rightarrow> nat \<Rightarrow> nat \<Rightarrow> 'a::len word" where
  "partial_block bpv vs q bl = push_bit bl (drop_bit bl (stream_block bpv vs q))"

lemma bit_stream_block:
  "bit (stream_block bpv vs q :: 'a::len word) j \<longleftrightarrow>
     j < LENGTH('a) \<and> values_bit bpv vs (q * LENGTH('a) + (LENGTH('a) - 1 - j))"
  by (auto simp: stream_block_def bit_horner_sum_bit_word_iff)

lemma bit_partial_block:
  "bit (partial_block bpv vs q bl :: 'a::len word) j \<longleftrightarrow>
     bl \<le> j \<and> j < LENGTH('a) \<and> values_bit bpv vs (q * LENGTH('a) + (LENGTH('a) - 1 - j))"
  by (auto simp: partial_block_def bit_push_bit_iff bit_drop_bit_eq bit_stream_block)

lemma stream_bit_of_blocks:
  fixes ws :: "'a::len word list"
  assumes "\<And>q. q < m \<Longrightarrow> ws ! q = stream_block bpv vs q" and "k < m * LENGTH('a)"
  shows "stream_bit ws k = values_bit bpv vs k"
proof -
  let ?q = "k div LENGTH('a)" and ?r = "k mod LENGTH('a)"
  have "?q < m"
    using assms(2) by (simp add: less_mult_imp_div_less)
  moreover have "?r < LENGTH('a)"
    by simp
  then have "LENGTH('a) - 1 - (LENGTH('a) - 1 - ?r) = ?r"
    by linarith
  ultimately show ?thesis
    by (simp add: stream_bit_def assms(1) bit_stream_block)
qed

lemma values_bit_at:
  assumes "k + j + 1 = (i + 1) * bpv" and "j < bpv"
  shows "values_bit bpv vs k = bit (vs ! i) j"
proof -
  have "k = i * bpv + (bpv - 1 - j)"
    using assms by simp
  then show ?thesis
    using assms(2) by (simp only: values_bit_value)
qed

definition fits_width :: "nat \<Rightarrow> u64 list \<Rightarrow> bool" where
  "fits_width bpv vs \<longleftrightarrow> (\<forall>v \<in> set vs. take_bit bpv v = v)"

lemma fits_width_nth: "fits_width bpv vs \<Longrightarrow> i < length vs \<Longrightarrow> take_bit bpv (vs ! i) = vs ! i"
  by (simp add: fits_width_def)

lemma fits_width_drop: "fits_width bpv vs \<Longrightarrow> fits_width bpv (drop n vs)"
  by (auto simp: fits_width_def dest: in_set_dropD)

end
