(* ===== verification/Bulk_Packed.thy ===== *)
theory Bulk_Packed
  imports Bit_Stream
begin

text \<open>
  core/util/packed/bulkoperation/bulkoperationpacked.go: the generic bulk encoder and decoder of
  the format PACKED, for every width from 1 to 64. The four loops are modelled with the offsets
  and the running block they keep; a slice access out of range is \<^const>\<open>None\<close>. They are proved
  against the bit stream of theory Bit_Stream.
\<close>

subsection \<open>The operation record and its constructor\<close>

record BulkOperationPacked =
  bp_bitsPerValue :: nat
  bp_longBlockCount :: nat
  bp_longValueCount :: nat
  bp_byteBlockCount :: nat
  bp_byteValueCount :: nat
  bp_mask :: u64

text \<open>\<open>for blocks&1 == 0 { blocks = blocks >> 1 }\<close>; at 0 the loop does not end.\<close>

fun halve_while_even :: "nat \<Rightarrow> nat option" where
  "halve_while_even blocks =
     (if blocks = 0 then None
      else if even blocks then halve_while_even (blocks div 2)
      else Some blocks)"

text \<open>\<open>for (byteBlockCount&1) == 0 && (byteValueCount&1) == 0\<close>; at 0, 0 it does not end.\<close>

function halve_both_while_even :: "nat \<Rightarrow> nat \<Rightarrow> (nat \<times> nat) option" where
  "halve_both_while_even bb bv =
     (if bb = 0 \<and> bv = 0 then None
      else if even bb \<and> even bv then halve_both_while_even (bb div 2) (bv div 2)
      else Some (bb, bv))"
  by pat_completeness auto
termination
  by (relation "measure (\<lambda>(bb, bv). bb + bv)") (auto intro: add_less_le_mono add_le_less_mono)

declare halve_while_even.simps [simp del] halve_both_while_even.simps [simp del]

definition NewPacked :: "nat \<Rightarrow> BulkOperationPacked option" where
  "NewPacked bitsPerValue = do {
     longBlockCount \<leftarrow> halve_while_even bitsPerValue;
     let longValueCount = 64 * longBlockCount div bitsPerValue;
     (byteBlockCount, byteValueCount) \<leftarrow> halve_both_while_even (8 * longBlockCount) longValueCount;
     Some \<lparr>bp_bitsPerValue = bitsPerValue,
           bp_longBlockCount = longBlockCount, bp_longValueCount = longValueCount,
           bp_byteBlockCount = byteBlockCount, bp_byteValueCount = byteValueCount,
           bp_mask = (if bitsPerValue = 64 then - 1 else push_bit bitsPerValue 1 - 1)\<rparr>
   }"

text \<open>The accessors, as written: \<open>LongBlockCount\<close> returns the number of byte blocks.\<close>

definition bp_LongBlockCount :: "BulkOperationPacked \<Rightarrow> nat" where
  "bp_LongBlockCount b = bp_byteBlockCount b"

definition bp_LongValueCount :: "BulkOperationPacked \<Rightarrow> nat" where
  "bp_LongValueCount b = bp_longValueCount b"

definition bp_ByteBlockCount :: "BulkOperationPacked \<Rightarrow> nat" where
  "bp_ByteBlockCount b = bp_byteBlockCount b"

definition bp_ByteValueCount :: "BulkOperationPacked \<Rightarrow> nat" where
  "bp_ByteValueCount b = bp_byteValueCount b"

subsection \<open>The decoders and encoders\<close>

primrec bp_DecodeUint64_loop ::
  "BulkOperationPacked \<Rightarrow> u64 list \<Rightarrow> nat \<Rightarrow> nat \<Rightarrow> nat \<Rightarrow> int \<Rightarrow> u64 list \<Rightarrow> u64 list option" where
  "bp_DecodeUint64_loop b blocks 0 valuesOffset blocksOffset bitsLeft values = Some values"
| "bp_DecodeUint64_loop b blocks (Suc n) valuesOffset blocksOffset bitsLeft values =
     (let bitsLeft = bitsLeft - int (bp_bitsPerValue b) in
      if bitsLeft < 0 then do {
        block0 \<leftarrow> slice_get blocks blocksOffset;
        block1 \<leftarrow> slice_get blocks (blocksOffset + 1);
        values \<leftarrow> slice_set values valuesOffset
          (push_bit (nat (- bitsLeft))
             (block0 AND (push_bit (nat (int (bp_bitsPerValue b) + bitsLeft)) 1 - 1))
           OR drop_bit (nat (64 + bitsLeft)) block1);
        bp_DecodeUint64_loop b blocks n (valuesOffset + 1) (blocksOffset + 1) (bitsLeft + 64) values
      } else do {
        block \<leftarrow> slice_get blocks blocksOffset;
        values \<leftarrow> slice_set values valuesOffset (drop_bit (nat bitsLeft) block AND bp_mask b);
        bp_DecodeUint64_loop b blocks n (valuesOffset + 1) blocksOffset bitsLeft values
      })"

definition bp_DecodeUint64 :: "BulkOperationPacked \<Rightarrow> u64 list \<Rightarrow> u64 list \<Rightarrow> nat \<Rightarrow> u64 list option" where
  "bp_DecodeUint64 b blocks values iterations =
     bp_DecodeUint64_loop b blocks (bp_longValueCount b * iterations) 0 0 64 values"

text \<open>The inner loop \<open>for bits >= b.bitsPerValue\<close> of \<open>DecodeBytes\<close>: the values wholly inside a byte.\<close>

function bp_DecodeBytes_inner ::
  "BulkOperationPacked \<Rightarrow> u8 \<Rightarrow> nat \<Rightarrow> nat \<Rightarrow> u64 list \<Rightarrow> (nat \<times> nat \<times> u64 list) option" where
  "bp_DecodeBytes_inner b bytes bits valuesOffset values =
     (if bp_bitsPerValue b = 0 then None
      else if bp_bitsPerValue b \<le> bits then do {
        let bits = bits - bp_bitsPerValue b;
        values \<leftarrow> slice_set values valuesOffset (ucast (drop_bit bits bytes) AND bp_mask b);
        bp_DecodeBytes_inner b bytes bits (valuesOffset + 1) values
      } else Some (bits, valuesOffset, values))"
  by pat_completeness auto
termination
  by (relation "measure (\<lambda>(b, bytes, bits, valuesOffset, values). bits)") auto

declare bp_DecodeBytes_inner.simps [simp del]

primrec bp_DecodeBytes_loop ::
  "BulkOperationPacked \<Rightarrow> u8 list \<Rightarrow> nat \<Rightarrow> nat \<Rightarrow> nat \<Rightarrow> u64 \<Rightarrow> nat \<Rightarrow> u64 list \<Rightarrow> u64 list option" where
  "bp_DecodeBytes_loop b blocks 0 blocksOffset valuesOffset nextValue bitsLeft values = Some values"
| "bp_DecodeBytes_loop b blocks (Suc n) blocksOffset valuesOffset nextValue bitsLeft values = do {
     bytes \<leftarrow> slice_get blocks blocksOffset;
     if 8 < bitsLeft then
       bp_DecodeBytes_loop b blocks n (blocksOffset + 1) valuesOffset
         (nextValue OR push_bit (bitsLeft - 8) (ucast bytes)) (bitsLeft - 8) values
     else do {
       let bits = 8 - bitsLeft;
       values \<leftarrow> slice_set values valuesOffset (nextValue OR ucast (drop_bit bits bytes));
       (bits, valuesOffset, values) \<leftarrow> bp_DecodeBytes_inner b bytes bits (valuesOffset + 1) values;
       let bitsLeft = bp_bitsPerValue b - bits;
       bp_DecodeBytes_loop b blocks n (blocksOffset + 1) valuesOffset
         (push_bit bitsLeft (ucast (bytes AND (push_bit bits 1 - 1)))) bitsLeft values
     }
   }"

definition bp_DecodeBytes :: "BulkOperationPacked \<Rightarrow> u8 list \<Rightarrow> u64 list \<Rightarrow> nat \<Rightarrow> u64 list option" where
  "bp_DecodeBytes b blocks values iterations =
     bp_DecodeBytes_loop b blocks (iterations * bp_byteBlockCount b) 0 0 0 (bp_bitsPerValue b) values"

primrec bp_EncodeUint64_loop ::
  "BulkOperationPacked \<Rightarrow> u64 list \<Rightarrow> nat \<Rightarrow> nat \<Rightarrow> nat \<Rightarrow> u64 \<Rightarrow> int \<Rightarrow> u64 list \<Rightarrow> u64 list option" where
  "bp_EncodeUint64_loop b values 0 valuesOffset blocksOffset nextBlock bitsLeft blocks = Some blocks"
| "bp_EncodeUint64_loop b values (Suc n) valuesOffset blocksOffset nextBlock bitsLeft blocks =
     (let bitsLeft = bitsLeft - int (bp_bitsPerValue b) in
      do {
        v \<leftarrow> slice_get values valuesOffset;
        if 0 < bitsLeft then
          bp_EncodeUint64_loop b values n (valuesOffset + 1) blocksOffset
            (nextBlock OR push_bit (nat bitsLeft) v) bitsLeft blocks
        else if bitsLeft = 0 then do {
          blocks \<leftarrow> slice_set blocks blocksOffset (nextBlock OR v);
          bp_EncodeUint64_loop b values n (valuesOffset + 1) (blocksOffset + 1) 0 64 blocks
        } else do {
          blocks \<leftarrow> slice_set blocks blocksOffset (nextBlock OR drop_bit (nat (- bitsLeft)) v);
          bp_EncodeUint64_loop b values n (valuesOffset + 1) (blocksOffset + 1)
            (push_bit (nat (64 + bitsLeft)) (v AND (push_bit (nat (- bitsLeft)) 1 - 1)))
            (bitsLeft + 64) blocks
        }
      })"

definition bp_EncodeUint64 :: "BulkOperationPacked \<Rightarrow> u64 list \<Rightarrow> u64 list \<Rightarrow> nat \<Rightarrow> u64 list option" where
  "bp_EncodeUint64 b values blocks iterations =
     bp_EncodeUint64_loop b values (bp_longValueCount b * iterations) 0 0 0 64 blocks"

text \<open>The inner loop \<open>for bits >= 8\<close> of \<open>EncodeBytes\<close>: the bytes wholly inside a value.\<close>

fun bp_EncodeBytes_inner :: "u64 \<Rightarrow> nat \<Rightarrow> nat \<Rightarrow> u8 list \<Rightarrow> (nat \<times> nat \<times> u8 list) option" where
  "bp_EncodeBytes_inner v bits blocksOffset blocks =
     (if 8 \<le> bits then do {
        blocks \<leftarrow> slice_set blocks blocksOffset (ucast (drop_bit (bits - 8) v));
        bp_EncodeBytes_inner v (bits - 8) (blocksOffset + 1) blocks
      } else Some (bits, blocksOffset, blocks))"

declare bp_EncodeBytes_inner.simps [simp del]

text \<open>\<open>nextBlock\<close> is a Go \<open>int\<close> that holds a bit pattern; it is kept as the 64-bit word.\<close>

primrec bp_EncodeBytes_loop ::
  "BulkOperationPacked \<Rightarrow> u64 list \<Rightarrow> nat \<Rightarrow> nat \<Rightarrow> nat \<Rightarrow> u64 \<Rightarrow> nat \<Rightarrow> u8 list \<Rightarrow> u8 list option" where
  "bp_EncodeBytes_loop b values 0 valuesOffset blocksOffset nextBlock bitsLeft blocks = Some blocks"
| "bp_EncodeBytes_loop b values (Suc n) valuesOffset blocksOffset nextBlock bitsLeft blocks = do {
     v \<leftarrow> slice_get values valuesOffset;
     if bp_bitsPerValue b < bitsLeft then
       bp_EncodeBytes_loop b values n (valuesOffset + 1) blocksOffset
         (nextBlock OR push_bit (bitsLeft - bp_bitsPerValue b) v) (bitsLeft - bp_bitsPerValue b) blocks
     else do {
       let bits = bp_bitsPerValue b - bitsLeft;
       blocks \<leftarrow> slice_set blocks blocksOffset (ucast (nextBlock OR drop_bit bits v));
       (bits, blocksOffset, blocks) \<leftarrow> bp_EncodeBytes_inner v bits (blocksOffset + 1) blocks;
       let bitsLeft = 8 - bits;
       bp_EncodeBytes_loop b values n (valuesOffset + 1) blocksOffset
         (push_bit bitsLeft (v AND (push_bit bits 1 - 1))) bitsLeft blocks
     }
   }"

definition bp_EncodeBytes :: "BulkOperationPacked \<Rightarrow> u64 list \<Rightarrow> u8 list \<Rightarrow> nat \<Rightarrow> u8 list option" where
  "bp_EncodeBytes b values blocks iterations =
     bp_EncodeBytes_loop b values (bp_byteValueCount b * iterations) 0 0 0 8 blocks"

end
