(* ===== verification/Bulk_Packed_Correct.thy ===== *)
theory Bulk_Packed_Correct
  imports Bulk_Packed
begin

text \<open>
  Correctness of the generic bulk operations: each of the four loops is equal, panics included,
  to writing the values (or the blocks) of the bit stream of theory Bit_Stream. The loop
  invariants are \<open>partial_value\<close> (the high part of the value under construction) and
  \<open>partial_block\<close> (the high part of the block under construction).
\<close>

definition bp_wf :: "BulkOperationPacked \<Rightarrow> bool" where
  "bp_wf b \<longleftrightarrow> 1 \<le> bp_bitsPerValue b \<and> bp_bitsPerValue b \<le> 64 \<and>
     bp_longValueCount b * bp_bitsPerValue b = 64 * bp_longBlockCount b \<and>
     bp_byteValueCount b * bp_bitsPerValue b = 8 * bp_byteBlockCount b \<and>
     0 < bp_longBlockCount b \<and> 0 < bp_byteBlockCount b \<and>
     bp_mask b = mask (bp_bitsPerValue b)"

lemma bp_wfD:
  assumes "bp_wf b"
  shows "1 \<le> bp_bitsPerValue b" "bp_bitsPerValue b \<le> 64" "bp_mask b = mask (bp_bitsPerValue b)"
    "bp_longValueCount b * bp_bitsPerValue b = 64 * bp_longBlockCount b"
    "bp_byteValueCount b * bp_bitsPerValue b = 8 * bp_byteBlockCount b"
  using assms by (simp_all add: bp_wf_def)

lemma packed_value_within_block:
  fixes blocks :: "u64 list"
  assumes "bpv \<le> 64" and "i * bpv + bpv + s = 64 * (q + 1)" and "s + bpv \<le> 64"
  shows "drop_bit s (blocks ! q) AND mask bpv = packed_value bpv blocks i"
proof (rule packed_value_eqI [OF assms(1), symmetric])
  fix j :: nat
  assume j: "j < 64"
  show "bit (drop_bit s (blocks ! q) AND mask bpv) j \<longleftrightarrow>
    j < bpv \<and> stream_bit blocks (i * bpv + (bpv - 1 - j))"
  proof (cases "j < bpv")
    case True
    have "stream_bit blocks (i * bpv + (bpv - 1 - j)) = bit (blocks ! q) (s + j)"
      by (rule stream_bit64) (use True assms(2,3) in \<open>simp_all add: algebra_simps\<close>)
    with True j show ?thesis
      by (simp add: bit_and_iff bit_drop_bit_eq bit_mask_iff)
  qed (simp add: bit_and_iff bit_mask_iff)
qed

lemma packed_value_across_blocks:
  fixes blocks :: "u64 list"
  assumes "bpv \<le> 64" and "i * bpv + r = 64 * (q + 1)" and "r + t = bpv" and "t + u = 64"
  shows "push_bit t (blocks ! q AND mask r) OR drop_bit u (blocks ! (q + 1)) = packed_value bpv blocks i"
    (is "?v = _")
proof (rule packed_value_eqI [OF assms(1), symmetric])
  fix j :: nat
  assume j: "j < 64"
  have v: "bit ?v j \<longleftrightarrow> t \<le> j \<and> j < t + r \<and> bit (blocks ! q) (j - t) \<or> bit (blocks ! (q + 1)) (u + j)"
    using j by (auto simp: bit_or_iff bit_push_bit_iff bit_and_iff bit_mask_iff bit_drop_bit_eq dest: bit_u64_less)
  show "bit ?v j \<longleftrightarrow> j < bpv \<and> stream_bit blocks (i * bpv + (bpv - 1 - j))"
  proof (cases "j < t")
    case True
    have "stream_bit blocks (i * bpv + (bpv - 1 - j)) = bit (blocks ! (q + 1)) (u + j)"
      by (rule stream_bit64) (use True assms in \<open>simp_all add: algebra_simps\<close>)
    then show ?thesis
      unfolding v using True assms(3) by simp
  next
    case ge: False
    then have "\<not> bit (blocks ! (q + 1)) (u + j)"
      using assms(4) bit_u64_less [of "blocks ! (q + 1)" "u + j"] by linarith
    moreover have "stream_bit blocks (i * bpv + (bpv - 1 - j)) = bit (blocks ! q) (j - t)" if "j < bpv"
      by (rule stream_bit64) (use that ge assms in \<open>simp_all add: algebra_simps\<close>)
    ultimately show ?thesis
      unfolding v using ge assms(3) by auto
  qed
qed

lemma bp_DecodeUint64_loop_eq:
  assumes wf: "bp_wf b"
    and "vo * bp_bitsPerValue b + nat bl = 64 * (bo + 1)" and "0 \<le> bl" and "bl \<le> 64"
    and "vo * bp_bitsPerValue b \<le> 64 * length blocks" and "vo \<le> length vs"
  shows "bp_DecodeUint64_loop b blocks n vo bo bl vs =
    (if n = 0 \<or> (vo + n \<le> length vs \<and> (vo + n) * bp_bitsPerValue b \<le> 64 * length blocks)
     then Some (write_block vs vo (map (packed_value (bp_bitsPerValue b) blocks) [vo..<vo + n]))
     else None)"
  using assms(2-)
proof (induction n arbitrary: vo bo bl vs)
  case 0
  then show ?case by simp
next
  case (Suc n)
  define bpv where "bpv = bp_bitsPerValue b"
  define p where "p = vo * bpv"
  obtain k where k: "bl = int k"
    using Suc.prems(2) by (metis nonneg_int_cases)
  have bpv: "1 \<le> bpv" "bpv \<le> 64" and mask: "bp_mask b = mask bpv"
    using bp_wfD [OF wf] by (simp_all add: bpv_def)
  have inv: "p + k = 64 * (bo + 1)" "k \<le> 64" "p \<le> 64 * length blocks"
    using Suc.prems by (simp_all add: p_def bpv_def k)
  have p': "(vo + 1) * bpv = p + bpv"
    by (simp add: p_def)
  define bo' where "bo' = (if k < bpv then bo + 1 else bo)"
  define k' where "k' = (if k < bpv then k + 64 - bpv else k - bpv)"
  have step: "bp_DecodeUint64_loop b blocks (Suc n) vo bo bl vs =
     (if vo < length vs \<and> p + bpv \<le> 64 * length blocks
      then bp_DecodeUint64_loop b blocks n (vo + 1) bo' (int k') (vs[vo := packed_value bpv blocks vo])
      else None)"
  proof (cases "k < bpv")
    case False
    have "drop_bit (k - bpv) (blocks ! bo) AND bp_mask b = packed_value bpv blocks vo"
      unfolding mask using False inv bpv by (intro packed_value_within_block) (simp_all add: p_def)
    moreover have "bo < length blocks \<longleftrightarrow> p + bpv \<le> 64 * length blocks"
      using False inv bpv by auto
    moreover have "nat (int k - int bpv) = k - bpv" "int (k - bpv) = int k - int bpv"
      using False by simp_all
    ultimately show ?thesis
      using False by (auto simp: k k'_def bo'_def Let_def bpv_def [symmetric] slice_get_def slice_set_def)
  next
    case True
    have "push_bit (bpv - k) (blocks ! bo AND mask k) OR drop_bit (64 + k - bpv) (blocks ! (bo + 1))
        = packed_value bpv blocks vo"
      using True inv bpv by (intro packed_value_across_blocks) (simp_all add: p_def)
    moreover have "bo + 1 < length blocks \<longleftrightarrow> p + bpv \<le> 64 * length blocks"
      using True inv bpv by auto
    moreover have "nat (- (int k - int bpv)) = bpv - k" "nat (64 + (int k - int bpv)) = 64 + k - bpv"
      "nat (int bpv + (int k - int bpv)) = k" "int k - int bpv + 64 = int (k + 64 - bpv)"
      using True bpv by simp_all
    ultimately show ?thesis
      using True by (auto simp: k k'_def bo'_def Let_def bpv_def [symmetric] slice_get_def slice_set_def
          mask_eq_exp_minus_1)
  qed
  show ?case
  proof (cases "vo < length vs \<and> p + bpv \<le> 64 * length blocks")
    case True
    have "write_block (vs[vo := packed_value bpv blocks vo]) (vo + 1)
         (map (packed_value bpv blocks) [vo + 1..<vo + 1 + n])
       = write_block vs vo (map (packed_value bpv blocks) [vo..<vo + Suc n])"
      using True by (simp add: write_block_Cons upt_conv_Cons del: upt_Suc)
    moreover have "p + bpv + k' = 64 * (bo' + 1)" "k' \<le> 64"
      using inv bpv by (auto simp: k'_def bo'_def)
    ultimately show ?thesis
      unfolding step using True Suc.IH [of "vo + 1" "int k'" bo' "vs[vo := packed_value bpv blocks vo]"] p'
      by (simp add: bpv_def [symmetric])
  next
    case False
    then show ?thesis
      unfolding step by (auto simp: bpv_def [symmetric] p_def algebra_simps)
  qed
qed

text \<open>The value with its \<open>bl\<close> low bits not yet read.\<close>

definition partial_value :: "nat \<Rightarrow> u8 list \<Rightarrow> nat \<Rightarrow> nat \<Rightarrow> u64" where
  "partial_value bpv ws i bl = push_bit bl (drop_bit bl (packed_value bpv ws i))"

lemma bit_partial_value:
  assumes "bpv \<le> 64"
  shows "bit (partial_value bpv ws i bl) j \<longleftrightarrow> bl \<le> j \<and> j < bpv \<and> stream_bit ws (i * bpv + (bpv - 1 - j))"
proof -
  have "bit (partial_value bpv ws i bl) j \<longleftrightarrow> bl \<le> j \<and> j < 64 \<and> bit (packed_value bpv ws i) j"
    by (auto simp: partial_value_def bit_push_bit_iff bit_drop_bit_eq)
  then show ?thesis
    using assms by (auto simp: bit_packed_value)
qed

text \<open>The stream bits a byte contributes: \<open>d\<close> is the distance of its last bit to the end of the value.\<close>

lemma stream_bit_byte:
  assumes "i * bpv + bpv = 8 * (q + 1) + d" and "d \<le> j" and "j < d + 8" and "j < bpv"
  shows "stream_bit (ws :: u8 list) (i * bpv + (bpv - 1 - j)) = bit (ws ! q) (j - d)"
  by (rule stream_bit8) (use assms in simp_all)

lemma partial_value_full: "bpv \<le> 64 \<Longrightarrow> partial_value bpv ws i bpv = 0"
  by (rule bit_word_eqI) (simp add: bit_partial_value)

lemma partial_value_buffer:
  assumes "bpv \<le> 64" and "i * bpv + bpv = 8 * q + bl" and "8 < bl" and "bl \<le> bpv"
  shows "partial_value bpv ws i bl OR push_bit (bl - 8) (ucast (ws ! q)) = partial_value bpv ws i (bl - 8)"
proof (rule bit_word_eqI)
  fix j :: nat
  assume "j < LENGTH(64)"
  then have j: "j < 64" by simp
  have "stream_bit ws (i * bpv + (bpv - 1 - j)) = bit (ws ! q) (j - (bl - 8))" if "bl - 8 \<le> j" "j < bl"
    by (rule stream_bit_byte) (use that assms in simp_all)
  moreover have "j - (bl - 8) < 8" if "bit (ws ! q) (j - (bl - 8))"
    using that by (rule bit_u8_less)
  ultimately show "bit (partial_value bpv ws i bl OR push_bit (bl - 8) (ucast (ws ! q))) j
      = bit (partial_value bpv ws i (bl - 8)) j"
    using assms j by (cases "j < bl") (auto simp: bit_or_iff bit_push_bit_iff bit_u8_ucast bit_partial_value)
qed

lemma partial_value_flush:
  assumes "bpv \<le> 64" and "i * bpv + bpv = 8 * q + bl" and "bl \<le> 8" and "bl \<le> bpv"
  shows "partial_value bpv ws i bl OR ucast (drop_bit (8 - bl) (ws ! q)) = packed_value bpv ws i"
proof (rule bit_word_eqI)
  fix j :: nat
  assume "j < LENGTH(64)"
  then have j: "j < 64" by simp
  have "stream_bit ws (i * bpv + (bpv - 1 - j)) = bit (ws ! q) (8 - bl + j)" if "j < bl"
    by (rule stream_bit8) (use that assms in simp_all)
  moreover have "8 - bl + j < 8" if "bit (ws ! q) (8 - bl + j)"
    using that by (rule bit_u8_less)
  ultimately show "bit (partial_value bpv ws i bl OR ucast (drop_bit (8 - bl) (ws ! q))) j
      = bit (packed_value bpv ws i) j"
    using assms j by (cases "j < bl")
      (auto simp: bit_or_iff bit_drop_bit_eq bit_u8_ucast bit_partial_value bit_packed_value)
qed

lemma packed_value_in_byte:
  fixes ws :: "u8 list"
  assumes "bpv \<le> 64" and "i * bpv + bits = 8 * (q + 1)" and "bits \<le> 8" and "bpv \<le> bits"
  shows "ucast (drop_bit (bits - bpv) (ws ! q)) AND mask bpv = packed_value bpv ws i"
proof (rule packed_value_eqI [OF assms(1), symmetric])
  fix j :: nat
  assume j: "j < 64"
  have "stream_bit ws (i * bpv + (bpv - 1 - j)) = bit (ws ! q) (bits - bpv + j)" if "j < bpv"
    by (rule stream_bit8) (use that assms in simp_all)
  then show "bit (ucast (drop_bit (bits - bpv) (ws ! q)) AND mask bpv :: u64) j \<longleftrightarrow>
      j < bpv \<and> stream_bit ws (i * bpv + (bpv - 1 - j))"
    using j by (auto simp: bit_and_iff bit_mask_iff bit_drop_bit_eq bit_u8_ucast)
qed

lemma partial_value_rest:
  assumes "bpv \<le> 64" and "i * bpv + bits = 8 * (q + 1)" and "bits \<le> 8" and "bits < bpv"
  shows "push_bit (bpv - bits) (ucast ((ws ! q) AND mask bits)) = partial_value bpv ws i (bpv - bits)"
proof (rule bit_word_eqI)
  fix j :: nat
  assume "j < LENGTH(64)"
  then have j: "j < 64" by simp
  have "stream_bit ws (i * bpv + (bpv - 1 - j)) = bit (ws ! q) (j - (bpv - bits))" if "bpv - bits \<le> j" "j < bpv"
    by (rule stream_bit8) (use that assms in simp_all)
  then show "bit (push_bit (bpv - bits) (ucast ((ws ! q) AND mask bits)) :: u64) j
      = bit (partial_value bpv ws i (bpv - bits)) j"
    using assms j by (auto simp: bit_push_bit_iff bit_u8_ucast bit_and_iff bit_mask_iff bit_partial_value)
qed

lemma bp_DecodeBytes_inner_eq:
  assumes wf: "bp_wf b"
    and "vo * bp_bitsPerValue b + bits = 8 * (bo + 1)" and "bits \<le> 8" and "vo \<le> length vs"
  shows "bp_DecodeBytes_inner b (blocks ! bo) bits vo vs =
    (if vo + bits div bp_bitsPerValue b \<le> length vs
     then Some (bits mod bp_bitsPerValue b, vo + bits div bp_bitsPerValue b,
       write_block vs vo (map (packed_value (bp_bitsPerValue b) blocks) [vo..<vo + bits div bp_bitsPerValue b]))
     else None)"
  using assms(2-)
proof (induction bits arbitrary: vo vs rule: less_induct)
  case (less bits)
  define bpv where "bpv = bp_bitsPerValue b"
  have bpv: "1 \<le> bpv" "bpv \<le> 64" and mask: "bp_mask b = mask bpv"
    using bp_wfD [OF wf] by (simp_all add: bpv_def)
  show ?case
  proof (cases "bpv \<le> bits")
    case False
    then show ?thesis
      using bpv less.prems by (subst bp_DecodeBytes_inner.simps) (simp add: bpv_def [symmetric])
  next
    case True
    define k where "k = (bits - bpv) div bpv"
    have k: "bits div bpv = k + 1" "bits mod bpv = (bits - bpv) mod bpv"
      using True bpv by (simp_all add: k_def le_div_geq le_mod_geq)
    have v: "ucast (drop_bit (bits - bpv) (blocks ! bo)) AND bp_mask b = packed_value bpv blocks vo"
      unfolding mask using True less.prems bpv by (intro packed_value_in_byte) (simp_all add: bpv_def)
    show ?thesis
    proof (cases "vo < length vs")
      case True
      have pos: "(vo + 1) * bpv + (bits - bpv) = 8 * (bo + 1)"
        using less.prems(1) \<open>bpv \<le> bits\<close> by (simp add: bpv_def)
      have "bp_DecodeBytes_inner b (blocks ! bo) bits vo vs =
        bp_DecodeBytes_inner b (blocks ! bo) (bits - bpv) (vo + 1) (vs[vo := packed_value bpv blocks vo])"
        using True \<open>bpv \<le> bits\<close> bpv v
        by (subst bp_DecodeBytes_inner.simps) (simp add: bpv_def [symmetric] slice_simps)
      also have "\<dots> = (if vo + 1 + k \<le> length vs then Some ((bits - bpv) mod bpv, vo + 1 + k,
          write_block (vs[vo := packed_value bpv blocks vo]) (vo + 1)
            (map (packed_value bpv blocks) [vo + 1..<vo + 1 + k])) else None)"
        using less.IH [of "bits - bpv" "vo + 1" "vs[vo := packed_value bpv blocks vo]"] pos bpv True
          less.prems \<open>bpv \<le> bits\<close>
        by (simp add: bpv_def [symmetric] k_def)
      finally show ?thesis
        using True k by (simp add: bpv_def [symmetric] write_block_Cons upt_conv_Cons del: upt_Suc)
    next
      case False
      then show ?thesis
        using \<open>bpv \<le> bits\<close> bpv k by (subst bp_DecodeBytes_inner.simps)
          (simp add: bpv_def [symmetric] slice_set_def)
    qed
  qed
qed

text \<open>One byte of \<open>DecodeBytes\<close>, both branches at once.\<close>

lemma bp_DecodeBytes_step:
  assumes wf: "bp_wf b" and bpv_def: "bpv = bp_bitsPerValue b"
    and inv: "vo * bpv + bpv = 8 * bo + bl" "1 \<le> bl" "bl \<le> bpv" "vo \<le> length vs"
    and vo': "vo' = 8 * (bo + 1) div bpv"
  shows "bp_DecodeBytes_loop b blocks (Suc n) bo vo (partial_value bpv blocks vo bl) bl vs =
    (if bo < length blocks \<and> vo' \<le> length vs
     then bp_DecodeBytes_loop b blocks n (bo + 1) vo'
       (partial_value bpv blocks vo' ((vo' + 1) * bpv - 8 * (bo + 1))) ((vo' + 1) * bpv - 8 * (bo + 1))
       (write_block vs vo (map (packed_value bpv blocks) [vo..<vo']))
     else None)"
proof (cases "bo < length blocks")
  case False
  then show ?thesis by (simp add: slice_get_def)
next
  case bo: True
  have bpv: "1 \<le> bpv" "bpv \<le> 64" and mask: "bp_mask b = mask bpv"
    using bp_wfD [OF wf] by (simp_all add: bpv_def)
  have byte: "slice_get blocks bo = Some (blocks ! bo)"
    using bo by simp
  show ?thesis
  proof (cases "8 < bl")
    case True
    have eq: "8 * (bo + 1) = vo * bpv + (bpv - (bl - 8))"
      using inv True by simp
    have vo'_eq: "vo' = vo"
      unfolding vo' by (rule div_nat_eqI) (use eq inv True bpv in \<open>simp_all add: mult.commute\<close>)
    have "(vo' + 1) * bpv - 8 * (bo + 1) = bl - 8"
      using eq inv True vo'_eq by simp
    then show ?thesis
      using True inv bpv bo vo'_eq partial_value_buffer [OF bpv(2), of vo bo bl blocks]
      by (simp add: slice_get_def)
  next
    case False
    define bits where "bits = 8 - bl"
    have pos: "(vo + 1) * bpv + bits = 8 * (bo + 1)" "bits \<le> 8"
      using inv False by (simp_all add: bits_def)
    have vo'_eq: "vo' = vo + 1 + bits div bpv" and rest: "bits mod bpv < bpv"
      using bpv div_mult_self3 [of bpv "vo + 1" bits] unfolding vo' pos(1) [symmetric] by simp_all
    have "vo' * bpv + bits mod bpv = (vo + 1) * bpv + (bits div bpv * bpv + bits mod bpv)"
      unfolding vo'_eq by (simp add: add_mult_distrib)
    then have pos': "vo' * bpv + bits mod bpv = 8 * (bo + 1)"
      using pos(1) by simp
    have bl': "(vo' + 1) * bpv - 8 * (bo + 1) = bpv - bits mod bpv"
      unfolding pos' [symmetric] by simp
    have flush: "partial_value bpv blocks vo bl OR ucast (drop_bit (8 - bl) (blocks ! bo)) = packed_value bpv blocks vo"
      using inv False bpv by (intro partial_value_flush) simp_all
    have rest_eq: "push_bit (bpv - bits mod bpv) (ucast ((blocks ! bo) AND mask (bits mod bpv)))
        = partial_value bpv blocks vo' (bpv - bits mod bpv)"
      using pos' rest bpv pos(2) by (intro partial_value_rest) (auto intro: order_trans [OF mod_less_eq_dividend])
    have inner: "bp_DecodeBytes_inner b (blocks ! bo) bits (vo + 1) (vs[vo := packed_value bpv blocks vo]) =
      (if vo' \<le> length vs
       then Some (bits mod bpv, vo', write_block vs vo (map (packed_value bpv blocks) [vo..<vo']))
       else None)" if "vo < length vs"
      using bp_DecodeBytes_inner_eq [OF wf, of "vo + 1" bits bo "vs[vo := packed_value bpv blocks vo]" blocks] that pos
      by (simp add: bpv_def [symmetric] vo'_eq write_block_Cons upt_conv_Cons del: upt_Suc)
    show ?thesis
    proof (cases "vo < length vs")
      case True
      then show ?thesis
        using False flush inner rest_eq byte bl' bo
        by (simp add: bits_def [symmetric] bpv_def [symmetric] slice_simps mask_eq_exp_minus_1 Let_def)
    next
      case False
      then show ?thesis
        using \<open>\<not> 8 < bl\<close> vo'_eq byte bo by (simp add: slice_set_def)
    qed
  qed
qed

lemma bp_DecodeBytes_loop_eq:
  assumes wf: "bp_wf b" and bpv_def: "bpv = bp_bitsPerValue b"
    and "vo = 8 * bo div bpv" and "bl = (vo + 1) * bpv - 8 * bo" and "vo \<le> length vs"
  shows "bp_DecodeBytes_loop b blocks n bo vo (partial_value bpv blocks vo bl) bl vs =
    (if n = 0 \<or> (bo + n \<le> length blocks \<and> 8 * (bo + n) div bpv \<le> length vs)
     then Some (write_block vs vo (map (packed_value bpv blocks) [vo..<8 * (bo + n) div bpv]))
     else None)"
  using assms(3-)
proof (induction n arbitrary: bo vo bl vs)
  case 0
  then show ?case by simp
next
  case (Suc n)
  define vo' where "vo' = 8 * (bo + 1) div bpv"
  define vn where "vn = 8 * (bo + Suc n) div bpv"
  have bpv: "1 \<le> bpv" "bpv \<le> 64"
    using bp_wfD [OF wf] by (simp_all add: bpv_def)
  have split: "8 * bo = vo * bpv + 8 * bo mod bpv" "8 * bo mod bpv < bpv"
    using bpv unfolding Suc.prems(1) by simp_all
  have inv: "vo * bpv + bpv = 8 * bo + bl" "1 \<le> bl" "bl \<le> bpv"
    using split unfolding Suc.prems(2) by simp_all
  have mono: "vo \<le> vo'" "vo' \<le> vn"
    unfolding Suc.prems(1) vo'_def vn_def by (simp_all add: div_le_mono)
  show ?case
  proof (cases "bo < length blocks \<and> vo' \<le> length vs")
    case True
    define vs' where "vs' = write_block vs vo (map (packed_value bpv blocks) [vo..<vo'])"
    have "bp_DecodeBytes_loop b blocks (Suc n) bo vo (partial_value bpv blocks vo bl) bl vs =
      bp_DecodeBytes_loop b blocks n (bo + 1) vo'
        (partial_value bpv blocks vo' ((vo' + 1) * bpv - 8 * (bo + 1))) ((vo' + 1) * bpv - 8 * (bo + 1)) vs'"
      unfolding vs'_def
      by (rule trans [OF bp_DecodeBytes_step [OF wf bpv_def inv Suc.prems(3) vo'_def] if_P [OF True]])
    also have "\<dots> = (if n = 0 \<or> (bo + 1 + n \<le> length blocks \<and> 8 * (bo + 1 + n) div bpv \<le> length vs')
       then Some (write_block vs' vo' (map (packed_value bpv blocks) [vo'..<8 * (bo + 1 + n) div bpv])) else None)"
      by (rule Suc.IH [OF vo'_def refl]) (use True mono in \<open>simp add: vs'_def\<close>)
    also have "\<dots> = (if n = 0 \<or> (bo + 1 + n \<le> length blocks \<and> vn \<le> length vs)
       then Some (write_block vs' vo' (map (packed_value bpv blocks) [vo'..<vn])) else None)"
      using True mono by (simp add: vs'_def vn_def)
    also have "\<dots> = (if bo + 1 + n \<le> length blocks \<and> vn \<le> length vs
       then Some (write_block vs vo (map (packed_value bpv blocks) [vo..<vn])) else None)"
      using True mono by (auto simp: vs'_def write_block_map_append vn_def vo'_def)
    finally show ?thesis
      unfolding vn_def by (simp del: bp_DecodeBytes_loop.simps upt_Suc)
  next
    case False
    then show ?thesis
      using mono bp_DecodeBytes_step [OF wf bpv_def inv Suc.prems(3) vo'_def, of blocks n]
      by (auto simp: vn_def simp del: bp_DecodeBytes_loop.simps)
  qed
qed

text \<open>A value lies on the stream where its blocks expect it: \<open>d\<close> places its low end in a block.\<close>

lemma partial_block_full: "partial_block bpv vs q LENGTH('a) = (0 :: 'a::len word)"
  by (rule bit_word_eqI) (simp add: bit_partial_block)

lemma partial_block64_full: "partial_block bpv vs q 64 = (0 :: u64)"
  using partial_block_full [where ?'a = 64] by simp

lemma encode64_buffer:
  assumes v: "take_bit bpv (vs ! i) = vs ! i"
    and pos: "i * bpv + bl = 64 * (q + 1)" and "bpv < bl" "bl \<le> 64"
  shows "partial_block bpv vs q bl OR push_bit (bl - bpv) (vs ! i) = (partial_block bpv vs q (bl - bpv) :: u64)"
proof (rule bit_word_eqI)
  fix j :: nat
  assume "j < LENGTH(64)"
  then have j: "j < 64" by simp
  have "values_bit bpv vs (q * 64 + (63 - j)) = bit (vs ! i) (j - (bl - bpv))" if "bl - bpv \<le> j" "j < bl"
    by (rule values_bit_at) (use that j assms in \<open>simp_all add: algebra_simps\<close>)
  moreover have "j - (bl - bpv) < bpv" if "bit (vs ! i) (j - (bl - bpv))"
    using that v by (metis bit_take_bit_iff)
  ultimately show "bit (partial_block bpv vs q bl OR push_bit (bl - bpv) (vs ! i)) j
    = bit (partial_block bpv vs q (bl - bpv) :: u64) j"
    using assms j by (cases "j < bl") (auto simp: bit_or_iff bit_push_bit_iff bit_partial_block)
qed

lemma encode64_flush:
  assumes v: "take_bit bpv (vs ! i) = vs ! i"
    and pos: "i * bpv + bl = 64 * (q + 1)" and "bl \<le> bpv" "bl \<le> 64"
  shows "partial_block bpv vs q bl OR drop_bit (bpv - bl) (vs ! i) = (stream_block bpv vs q :: u64)"
proof (rule bit_word_eqI)
  fix j :: nat
  assume "j < LENGTH(64)"
  then have j: "j < 64" by simp
  have "values_bit bpv vs (q * 64 + (63 - j)) = bit (vs ! i) (bpv - bl + j)" if "j < bl"
    by (rule values_bit_at) (use that j assms in \<open>simp_all add: algebra_simps\<close>)
  moreover have "bpv - bl + j < bpv" if "bit (vs ! i) (bpv - bl + j)"
    using that v by (metis bit_take_bit_iff)
  ultimately show "bit (partial_block bpv vs q bl OR drop_bit (bpv - bl) (vs ! i)) j = bit (stream_block bpv vs q :: u64) j"
    using assms j by (cases "j < bl") (auto simp: bit_or_iff bit_drop_bit_eq bit_partial_block bit_stream_block)
qed

lemma encode64_rest:
  assumes pos: "i * bpv + bl = 64 * (q + 1)" and "bl < bpv" "bpv \<le> 64"
  shows "push_bit (64 + bl - bpv) (vs ! i AND mask (bpv - bl)) = (partial_block bpv vs (q + 1) (64 + bl - bpv) :: u64)"
proof (rule bit_word_eqI)
  fix j :: nat
  assume "j < LENGTH(64)"
  then have j: "j < 64" by simp
  have "values_bit bpv vs ((q + 1) * 64 + (63 - j)) = bit (vs ! i) (j - (64 + bl - bpv))" if "64 + bl - bpv \<le> j"
    by (rule values_bit_at) (use that j assms in \<open>simp_all add: algebra_simps\<close>)
  then show "bit (push_bit (64 + bl - bpv) (vs ! i AND mask (bpv - bl))) j
    = bit (partial_block bpv vs (q + 1) (64 + bl - bpv) :: u64) j"
    using assms j by (auto simp: bit_push_bit_iff bit_and_iff bit_mask_iff bit_partial_block)
qed

lemma encode8_buffer:
  assumes v: "take_bit bpv (vs ! i) = vs ! i"
    and pos: "i * bpv + bl = 8 * (q + 1)" and "bpv < bl" "bl \<le> 8"
  shows "ucast (partial_block bpv vs q bl :: u8) OR push_bit (bl - bpv) (vs ! i)
    = (ucast (partial_block bpv vs q (bl - bpv) :: u8) :: u64)"
proof (rule bit_word_eqI)
  fix j :: nat
  assume "j < LENGTH(64)"
  then have j: "j < 64" by simp
  have "values_bit bpv vs (q * 8 + (7 - j)) = bit (vs ! i) (j - (bl - bpv))" if "bl - bpv \<le> j" "j < bl"
    by (rule values_bit_at) (use that assms in \<open>simp_all add: algebra_simps\<close>)
  moreover have "j - (bl - bpv) < bpv" if "bit (vs ! i) (j - (bl - bpv))"
    using that v by (metis bit_take_bit_iff)
  ultimately show "bit (ucast (partial_block bpv vs q bl :: u8) OR push_bit (bl - bpv) (vs ! i)) j
    = bit (ucast (partial_block bpv vs q (bl - bpv) :: u8) :: u64) j"
    using assms j
    by (cases "j < bl") (auto simp: bit_or_iff bit_push_bit_iff bit_u8_ucast bit_partial_block)
qed

lemma encode8_flush:
  assumes v: "take_bit bpv (vs ! i) = vs ! i"
    and pos: "i * bpv + bl = 8 * (q + 1)" and "bl \<le> bpv" "bl \<le> 8"
  shows "ucast (ucast (partial_block bpv vs q bl :: u8) OR drop_bit (bpv - bl) (vs ! i)) = (stream_block bpv vs q :: u8)"
proof (rule bit_word_eqI)
  fix j :: nat
  assume "j < LENGTH(8)"
  then have j: "j < 8" by simp
  have "values_bit bpv vs (q * 8 + (7 - j)) = bit (vs ! i) (bpv - bl + j)" if "j < bl"
    by (rule values_bit_at) (use that j assms in \<open>simp_all add: algebra_simps\<close>)
  moreover have "bpv - bl + j < bpv" if "bit (vs ! i) (bpv - bl + j)"
    using that v by (metis bit_take_bit_iff)
  ultimately show "bit (ucast (ucast (partial_block bpv vs q bl :: u8) OR drop_bit (bpv - bl) (vs ! i)) :: u8) j
    = bit (stream_block bpv vs q :: u8) j"
    using assms j
    by (cases "j < bl") (auto simp: bit_u64_to_u8 bit_or_iff bit_drop_bit_eq bit_u8_ucast bit_partial_block bit_stream_block)
qed

lemma encode8_whole:
  assumes pos: "(i + 1) * bpv = 8 * q + bits" and "8 \<le> bits" "bits \<le> bpv"
  shows "ucast (drop_bit (bits - 8) (vs ! i)) = (stream_block bpv vs q :: u8)"
proof (rule bit_word_eqI)
  fix j :: nat
  assume "j < LENGTH(8)"
  then have j: "j < 8" by simp
  have "values_bit bpv vs (q * 8 + (7 - j)) = bit (vs ! i) (bits - 8 + j)"
    by (rule values_bit_at) (use j assms in \<open>simp_all add: algebra_simps\<close>)
  then show "bit (ucast (drop_bit (bits - 8) (vs ! i)) :: u8) j = bit (stream_block bpv vs q :: u8) j"
    using j by (simp add: bit_u64_to_u8 bit_drop_bit_eq bit_stream_block)
qed

lemma encode8_rest:
  assumes pos: "(i + 1) * bpv = 8 * q + bits" and "bits < 8" "bits \<le> bpv"
  shows "push_bit (8 - bits) (vs ! i AND mask bits) = (ucast (partial_block bpv vs q (8 - bits) :: u8) :: u64)"
proof (rule bit_word_eqI)
  fix j :: nat
  assume "j < LENGTH(64)"
  then have j: "j < 64" by simp
  have "values_bit bpv vs (q * 8 + (7 - j)) = bit (vs ! i) (j - (8 - bits))" if "8 - bits \<le> j" "j < 8"
    by (rule values_bit_at) (use that assms in \<open>simp_all add: algebra_simps\<close>)
  then show "bit (push_bit (8 - bits) (vs ! i AND mask bits)) j
    = bit (ucast (partial_block bpv vs q (8 - bits) :: u8) :: u64) j"
    using assms j by (auto simp: bit_push_bit_iff bit_and_iff bit_mask_iff bit_u8_ucast bit_partial_block)
qed

lemma bp_EncodeUint64_step:
  assumes wf: "bp_wf b" and bpv_def: "bpv = bp_bitsPerValue b" and fits: "fits_width bpv vs"
    and inv: "vo * bpv + bl = 64 * (bo + 1)" "1 \<le> bl" "bl \<le> 64" "bo \<le> length blocks"
    and bo': "bo' = (vo + 1) * bpv div 64"
  shows "bp_EncodeUint64_loop b vs (Suc n) vo bo (partial_block bpv vs bo bl) (int bl) blocks =
    (if vo < length vs \<and> bo' \<le> length blocks
     then bp_EncodeUint64_loop b vs n (vo + 1) bo'
       (partial_block bpv vs bo' (64 * (bo' + 1) - (vo + 1) * bpv)) (int (64 * (bo' + 1) - (vo + 1) * bpv))
       (write_block blocks bo (map (stream_block bpv vs) [bo..<bo']))
     else None)"
proof (cases "vo < length vs")
  case False
  then show ?thesis by (simp add: slice_get_def)
next
  case vo: True
  have bpv: "1 \<le> bpv" "bpv \<le> 64"
    using bp_wfD [OF wf] by (simp_all add: bpv_def)
  note v = fits_width_nth [OF fits vo]
  have get: "slice_get vs vo = Some (vs ! vo)"
    using vo by simp
  consider (buffer) "bpv < bl" | (exact) "bpv = bl" | (cross) "bl < bpv"
    by linarith
  then show ?thesis
  proof cases
    case buffer
    have pos: "(vo + 1) * bpv + (bl - bpv) = 64 * (bo + 1)"
      using inv buffer by simp
    have bo'_eq: "bo' = bo"
      unfolding bo' by (rule div_nat_eqI) (use pos buffer inv in \<open>simp_all add: mult.commute\<close>)
    have "64 * (bo' + 1) - (vo + 1) * bpv = bl - bpv"
      using pos bo'_eq by simp
    moreover have "int bl - int bpv = int (bl - bpv)" "nat (int (bl - bpv)) = bl - bpv" "0 < bl - bpv"
      using buffer by simp_all
    ultimately show ?thesis
      using buffer bo'_eq vo inv encode64_buffer [OF v inv(1) buffer inv(3)]
      by (simp add: get Let_def bpv_def [symmetric])
  next
    case exact
    have pos: "(vo + 1) * bpv = 64 * (bo + 1)"
      using inv exact by simp
    have bo'_eq: "bo' = bo + 1"
      unfolding bo' pos by simp
    have left: "64 * (bo' + 1) - (vo + 1) * bpv = 64"
      unfolding pos bo'_eq by simp
    have "partial_block bpv vs bo bl OR vs ! vo = stream_block bpv vs bo"
      using encode64_flush [OF v inv(1) _ inv(3)] exact by simp
    then show ?thesis
      unfolding left using exact vo
      by (auto simp: get Let_def bpv_def [symmetric] bo'_eq slice_set_def partial_block64_full write_block_Cons [of _ _ _ "[]", simplified])
  next
    case cross
    have pos: "(vo + 1) * bpv = 64 * (bo + 1) + (bpv - bl)"
      using inv cross by simp
    have bo'_eq: "bo' = bo + 1"
      unfolding bo' pos using bpv inv cross by (intro div_nat_eqI) simp_all
    have left: "64 * (bo' + 1) - (vo + 1) * bpv = 64 + bl - bpv"
      unfolding pos bo'_eq using cross bpv by simp
    have "partial_block bpv vs bo bl OR drop_bit (bpv - bl) (vs ! vo) = stream_block bpv vs bo"
      using encode64_flush [OF v inv(1) _ inv(3)] cross by simp
    moreover have "push_bit (64 + bl - bpv) (vs ! vo AND mask (bpv - bl)) = partial_block bpv vs (bo + 1) (64 + bl - bpv)"
      using inv cross bpv by (intro encode64_rest) simp_all
    moreover have "nat (- (int bl - int bpv)) = bpv - bl" "nat (64 + (int bl - int bpv)) = 64 + bl - bpv"
      "int bl - int bpv + 64 = int (64 + bl - bpv)" "\<not> 0 < int bl - int bpv" "int bl - int bpv \<noteq> 0"
      using cross bpv by simp_all
    ultimately show ?thesis
      unfolding left using vo
      by (auto simp: get Let_def bpv_def [symmetric] bo'_eq slice_set_def mask_eq_exp_minus_1 write_block_Cons [of _ _ _ "[]", simplified])
  qed
qed

lemma bp_EncodeUint64_loop_eq:
  assumes wf: "bp_wf b" and bpv_def: "bpv = bp_bitsPerValue b" and fits: "fits_width bpv vs"
    and "bo = vo * bpv div 64" and "bl = 64 * (bo + 1) - vo * bpv" and "bo \<le> length blocks"
  shows "bp_EncodeUint64_loop b vs n vo bo (partial_block bpv vs bo bl) (int bl) blocks =
    (if n = 0 \<or> (vo + n \<le> length vs \<and> (vo + n) * bpv div 64 \<le> length blocks)
     then Some (write_block blocks bo (map (stream_block bpv vs) [bo..<(vo + n) * bpv div 64]))
     else None)"
  using assms(4-)
proof (induction n arbitrary: vo bo bl blocks)
  case 0
  then show ?case by simp
next
  case (Suc n)
  define bo' where "bo' = (vo + 1) * bpv div 64"
  define bn where "bn = (vo + Suc n) * bpv div 64"
  have split: "vo * bpv = bo * 64 + vo * bpv mod 64" "vo * bpv mod 64 < 64"
    unfolding Suc.prems(1) by simp_all
  have inv: "vo * bpv + bl = 64 * (bo + 1)" "1 \<le> bl" "bl \<le> 64"
    using split unfolding Suc.prems(2) by simp_all
  have mono: "bo \<le> bo'" "bo' \<le> bn"
    unfolding Suc.prems(1) bo'_def bn_def by (intro div_le_mono mult_le_mono1; simp)+
  note step = bp_EncodeUint64_step [OF wf bpv_def fits inv Suc.prems(3) bo'_def, of n]
  show ?case
  proof (cases "vo < length vs \<and> bo' \<le> length blocks")
    case True
    define blocks' where "blocks' = write_block blocks bo (map (stream_block bpv vs) [bo..<bo'])"
    have "bp_EncodeUint64_loop b vs (Suc n) vo bo (partial_block bpv vs bo bl) (int bl) blocks =
      bp_EncodeUint64_loop b vs n (vo + 1) bo'
        (partial_block bpv vs bo' (64 * (bo' + 1) - (vo + 1) * bpv)) (int (64 * (bo' + 1) - (vo + 1) * bpv)) blocks'"
      unfolding blocks'_def by (rule trans [OF step if_P [OF True]])
    also have "\<dots> = (if n = 0 \<or> (vo + 1 + n \<le> length vs \<and> (vo + 1 + n) * bpv div 64 \<le> length blocks')
       then Some (write_block blocks' bo' (map (stream_block bpv vs) [bo'..<(vo + 1 + n) * bpv div 64])) else None)"
      by (rule Suc.IH [OF bo'_def refl]) (use True mono in \<open>simp add: blocks'_def\<close>)
    also have "\<dots> = (if n = 0 \<or> (vo + 1 + n \<le> length vs \<and> bn \<le> length blocks)
       then Some (write_block blocks' bo' (map (stream_block bpv vs) [bo'..<bn])) else None)"
      using True mono by (simp add: blocks'_def bn_def)
    also have "\<dots> = (if vo + 1 + n \<le> length vs \<and> bn \<le> length blocks
       then Some (write_block blocks bo (map (stream_block bpv vs) [bo..<bn])) else None)"
      using True mono by (auto simp: blocks'_def write_block_map_append bn_def bo'_def)
    finally show ?thesis
      unfolding bn_def by (simp del: bp_EncodeUint64_loop.simps upt_Suc)
  next
    case False
    then show ?thesis
      using mono step by (auto simp: bn_def simp del: bp_EncodeUint64_loop.simps)
  qed
qed

lemma bp_EncodeBytes_inner_eq:
  assumes "(i + 1) * bpv = 8 * bo + bits" and "bits \<le> bpv" and "bo \<le> length blocks"
  shows "bp_EncodeBytes_inner (vs ! i) bits bo blocks =
    (if bo + bits div 8 \<le> length blocks
     then Some (bits mod 8, bo + bits div 8, write_block blocks bo (map (stream_block bpv vs) [bo..<bo + bits div 8]))
     else None)"
  using assms
proof (induction bits arbitrary: bo blocks rule: less_induct)
  case (less bits)
  show ?case
  proof (cases "8 \<le> bits")
    case False
    then show ?thesis
      using less.prems by (subst bp_EncodeBytes_inner.simps) simp
  next
    case True
    define k where "k = (bits - 8) div 8"
    have k: "bits div 8 = k + 1" "bits mod 8 = (bits - 8) mod 8"
      using True by (simp_all add: k_def le_div_geq le_mod_geq)
    have v: "ucast (drop_bit (bits - 8) (vs ! i)) = (stream_block bpv vs bo :: u8)"
      using less.prems True by (intro encode8_whole)
    show ?thesis
    proof (cases "bo < length blocks")
      case True
      have pos: "(i + 1) * bpv = 8 * (bo + 1) + (bits - 8)"
        using less.prems(1) \<open>8 \<le> bits\<close> by simp
      have "bp_EncodeBytes_inner (vs ! i) bits bo blocks =
        bp_EncodeBytes_inner (vs ! i) (bits - 8) (bo + 1) (blocks[bo := stream_block bpv vs bo])"
        using True \<open>8 \<le> bits\<close> v by (subst bp_EncodeBytes_inner.simps) (simp add: slice_simps)
      also have "\<dots> = (if bo + 1 + k \<le> length blocks then Some ((bits - 8) mod 8, bo + 1 + k,
          write_block (blocks[bo := stream_block bpv vs bo]) (bo + 1)
            (map (stream_block bpv vs) [bo + 1..<bo + 1 + k])) else None)"
        using less.IH [of "bits - 8" "bo + 1" "blocks[bo := stream_block bpv vs bo]"] pos True
          less.prems \<open>8 \<le> bits\<close> by (simp add: k_def)
      finally show ?thesis
        using True k by (simp add: write_block_Cons upt_conv_Cons del: upt_Suc)
    next
      case False
      then show ?thesis
        using \<open>8 \<le> bits\<close> k by (subst bp_EncodeBytes_inner.simps) (simp add: slice_set_def)
    qed
  qed
qed

lemma partial_block8_full: "partial_block bpv vs q 8 = (0 :: u8)"
  using partial_block_full [where ?'a = 8] by simp

lemma bp_EncodeBytes_step:
  assumes wf: "bp_wf b" and bpv_def: "bpv = bp_bitsPerValue b" and fits: "fits_width bpv vs"
    and inv: "vo * bpv + bl = 8 * (bo + 1)" "1 \<le> bl" "bl \<le> 8" "bo \<le> length blocks"
    and bo': "bo' = (vo + 1) * bpv div 8"
  shows "bp_EncodeBytes_loop b vs (Suc n) vo bo (ucast (partial_block bpv vs bo bl :: u8)) bl blocks =
    (if vo < length vs \<and> bo' \<le> length blocks
     then bp_EncodeBytes_loop b vs n (vo + 1) bo'
       (ucast (partial_block bpv vs bo' (8 * (bo' + 1) - (vo + 1) * bpv) :: u8)) (8 * (bo' + 1) - (vo + 1) * bpv)
       (write_block blocks bo (map (stream_block bpv vs) [bo..<bo']))
     else None)"
proof (cases "vo < length vs")
  case False
  then show ?thesis by (simp add: slice_get_def)
next
  case vo: True
  have bpv: "1 \<le> bpv" "bpv \<le> 64"
    using bp_wfD [OF wf] by (simp_all add: bpv_def)
  note v = fits_width_nth [OF fits vo]
  have get: "slice_get vs vo = Some (vs ! vo)"
    using vo by simp
  show ?thesis
  proof (cases "bpv < bl")
    case True
    have pos: "(vo + 1) * bpv + (bl - bpv) = 8 * (bo + 1)"
      using inv True by simp
    have bo'_eq: "bo' = bo"
      unfolding bo' by (rule div_nat_eqI) (use pos True inv in \<open>simp_all add: mult.commute\<close>)
    have "8 * (bo' + 1) - (vo + 1) * bpv = bl - bpv"
      using pos bo'_eq by simp
    then show ?thesis
      using True bo'_eq vo inv encode8_buffer [OF v inv(1) True inv(3)]
      by (simp add: get bpv_def [symmetric])
  next
    case False
    define bits where "bits = bpv - bl"
    have pos: "(vo + 1) * bpv = 8 * (bo + 1) + bits" "bits \<le> bpv"
      using inv False by (simp_all add: bits_def)
    have bo'_eq: "bo' = bo + 1 + bits div 8"
      unfolding bo' pos(1) by simp
    have pos': "(vo + 1) * bpv = 8 * bo' + bits mod 8"
      unfolding pos(1) bo'_eq by simp
    have left: "8 * (bo' + 1) - (vo + 1) * bpv = 8 - bits mod 8"
      unfolding pos' by simp
    have flush: "ucast (ucast (partial_block bpv vs bo bl :: u8) OR drop_bit bits (vs ! vo)) = (stream_block bpv vs bo :: u8)"
      unfolding bits_def using encode8_flush [OF v inv(1) _ inv(3)] False by simp
    have "bits mod 8 \<le> bpv"
      using pos(2) mod_less_eq_dividend order_trans by blast
    then have rest: "push_bit (8 - bits mod 8) (vs ! vo AND mask (bits mod 8))
        = (ucast (partial_block bpv vs bo' (8 - bits mod 8) :: u8) :: u64)"
      using pos' by (intro encode8_rest) simp_all
    have inner: "bp_EncodeBytes_inner (vs ! vo) bits (bo + 1) (blocks[bo := stream_block bpv vs bo]) =
      (if bo' \<le> length blocks
       then Some (bits mod 8, bo', write_block blocks bo (map (stream_block bpv vs) [bo..<bo']))
       else None)" if "bo < length blocks"
      using bp_EncodeBytes_inner_eq [of vo bpv "bo + 1" bits "blocks[bo := stream_block bpv vs bo]" vs] that pos
      by (simp add: bo'_eq write_block_Cons upt_conv_Cons del: upt_Suc)
    show ?thesis
    proof (cases "bo < length blocks")
      case True
      then show ?thesis
        unfolding left using False flush inner rest vo
        by (simp add: get bits_def [symmetric] bpv_def [symmetric] slice_simps mask_eq_exp_minus_1 Let_def)
    next
      case no: False
      then show ?thesis
        using False bo'_eq vo by (simp add: get bpv_def [symmetric] slice_set_def)
    qed
  qed
qed

lemma bp_EncodeBytes_loop_eq:
  assumes wf: "bp_wf b" and bpv_def: "bpv = bp_bitsPerValue b" and fits: "fits_width bpv vs"
    and "bo = vo * bpv div 8" and "bl = 8 * (bo + 1) - vo * bpv" and "bo \<le> length blocks"
  shows "bp_EncodeBytes_loop b vs n vo bo (ucast (partial_block bpv vs bo bl :: u8)) bl blocks =
    (if n = 0 \<or> (vo + n \<le> length vs \<and> (vo + n) * bpv div 8 \<le> length blocks)
     then Some (write_block blocks bo (map (stream_block bpv vs) [bo..<(vo + n) * bpv div 8]))
     else None)"
  using assms(4-)
proof (induction n arbitrary: vo bo bl blocks)
  case 0
  then show ?case by simp
next
  case (Suc n)
  define bo' where "bo' = (vo + 1) * bpv div 8"
  define bn where "bn = (vo + Suc n) * bpv div 8"
  have split: "vo * bpv = bo * 8 + vo * bpv mod 8" "vo * bpv mod 8 < 8"
    unfolding Suc.prems(1) by simp_all
  have inv: "vo * bpv + bl = 8 * (bo + 1)" "1 \<le> bl" "bl \<le> 8"
    using split unfolding Suc.prems(2) by simp_all
  have mono: "bo \<le> bo'" "bo' \<le> bn"
    unfolding Suc.prems(1) bo'_def bn_def by (intro div_le_mono mult_le_mono1; simp)+
  note step = bp_EncodeBytes_step [OF wf bpv_def fits inv Suc.prems(3) bo'_def, of n]
  show ?case
  proof (cases "vo < length vs \<and> bo' \<le> length blocks")
    case True
    define blocks' where "blocks' = write_block blocks bo (map (stream_block bpv vs) [bo..<bo'])"
    have "bp_EncodeBytes_loop b vs (Suc n) vo bo (ucast (partial_block bpv vs bo bl :: u8)) bl blocks =
      bp_EncodeBytes_loop b vs n (vo + 1) bo'
        (ucast (partial_block bpv vs bo' (8 * (bo' + 1) - (vo + 1) * bpv) :: u8)) (8 * (bo' + 1) - (vo + 1) * bpv) blocks'"
      unfolding blocks'_def by (rule trans [OF step if_P [OF True]])
    also have "\<dots> = (if n = 0 \<or> (vo + 1 + n \<le> length vs \<and> (vo + 1 + n) * bpv div 8 \<le> length blocks')
       then Some (write_block blocks' bo' (map (stream_block bpv vs) [bo'..<(vo + 1 + n) * bpv div 8])) else None)"
      by (rule Suc.IH [OF bo'_def refl]) (use True mono in \<open>simp add: blocks'_def\<close>)
    also have "\<dots> = (if n = 0 \<or> (vo + 1 + n \<le> length vs \<and> bn \<le> length blocks)
       then Some (write_block blocks' bo' (map (stream_block bpv vs) [bo'..<bn])) else None)"
      using True mono by (simp add: blocks'_def bn_def)
    also have "\<dots> = (if vo + 1 + n \<le> length vs \<and> bn \<le> length blocks
       then Some (write_block blocks bo (map (stream_block bpv vs) [bo..<bn])) else None)"
      using True mono by (auto simp: blocks'_def write_block_map_append bn_def bo'_def)
    finally show ?thesis
      unfolding bn_def by (simp del: bp_EncodeBytes_loop.simps upt_Suc)
  next
    case False
    then show ?thesis
      using mono step by (auto simp: bn_def simp del: bp_EncodeBytes_loop.simps)
  qed
qed

subsection \<open>The constructor\<close>

lemma halve_while_even_odd_part:
  "0 < n \<Longrightarrow> \<exists>m k. halve_while_even n = Some m \<and> n = m * 2 ^ k \<and> odd m"
proof (induction n rule: halve_while_even.induct)
  case (1 n)
  show ?case
  proof (cases "even n")
    case True
    then have "0 < n div 2"
      using "1.prems" by auto
    then obtain m k where "halve_while_even (n div 2) = Some m" "n div 2 = m * 2 ^ k" "odd m"
      using "1.IH" "1.prems" True by auto
    moreover have "n = n div 2 * 2"
      using True by simp
    ultimately show ?thesis
      using "1.prems" True by (intro exI [of _ m] exI [of _ "Suc k"]) (subst halve_while_even.simps, simp)
  next
    case False
    then show ?thesis
      using "1.prems" by (intro exI [of _ n] exI [of _ 0]) (subst halve_while_even.simps, simp)
  qed
qed

lemma halve_both_while_even_ratio:
  "0 < a \<Longrightarrow> \<exists>a' b' k. halve_both_while_even a b = Some (a', b') \<and> a = a' * 2 ^ k \<and> b = b' * 2 ^ k"
proof (induction a b rule: halve_both_while_even.induct)
  case (1 a b)
  show ?case
  proof (cases "even a \<and> even b")
    case True
    then have "0 < a div 2"
      using "1.prems" by auto
    then obtain a' b' k where "halve_both_while_even (a div 2) (b div 2) = Some (a', b')"
      "a div 2 = a' * 2 ^ k" "b div 2 = b' * 2 ^ k"
      using "1.IH" "1.prems" True by auto
    moreover have "a = a div 2 * 2" "b = b div 2 * 2"
      using True by simp_all
    moreover have "halve_both_while_even a b = halve_both_while_even (a div 2) (b div 2)"
      using "1.prems" True by (subst halve_both_while_even.simps) simp
    ultimately have "halve_both_while_even a b = Some (a', b')" "a = a' * 2 ^ Suc k" "b = b' * 2 ^ Suc k"
      by simp_all
    then show ?thesis by blast
  next
    case False
    then have "halve_both_while_even a b = Some (a, b)"
      using "1.prems" by (subst halve_both_while_even.simps) auto
    moreover have "a = a * 2 ^ 0" "b = b * 2 ^ 0"
      by simp_all
    ultimately show ?thesis by blast
  qed
qed

lemma NewPacked_wf:
  assumes "1 \<le> bpv" and "bpv \<le> 64"
  shows "\<exists>b. NewPacked bpv = Some b \<and> bp_wf b \<and> bp_bitsPerValue b = bpv"
proof -
  obtain m k where m: "halve_while_even bpv = Some m" "bpv = m * 2 ^ k" "odd m"
    using halve_while_even_odd_part [of bpv] assms by auto
  have "1 \<le> m"
    using m(3) by (simp add: odd_pos Suc_leI)
  then have "(2::nat) ^ k \<le> bpv"
    using m(2) by simp
  then have "(2::nat) ^ k \<le> 2 ^ 6"
    using assms(2) by simp
  then have k: "k \<le> 6"
    by (rule power_le_imp_le_exp [rotated]) simp
  define lvc where "lvc = 64 * m div bpv"
  have "(64::nat) = 2 ^ (6 - k) * 2 ^ k"
    using k by (simp flip: power_add)
  then have "64 * m = 2 ^ (6 - k) * bpv"
    unfolding m(2) by (metis mult.assoc mult.commute)
  then have lvc: "lvc * bpv = 64 * m"
    using assms by (simp add: lvc_def)
  obtain bb bv j where h: "halve_both_while_even (8 * m) lvc = Some (bb, bv)" "8 * m = bb * 2 ^ j" "lvc = bv * 2 ^ j"
    using halve_both_while_even_ratio [of "8 * m" lvc] \<open>1 \<le> m\<close> by auto
  have "bv * bpv * 2 ^ j = 8 * bb * 2 ^ j"
    using lvc h(2,3) by (simp add: algebra_simps)
  then have "bv * bpv = 8 * bb"
    by simp
  moreover have "0 < bb"
    using h(2) \<open>1 \<le> m\<close> by (cases bb) auto
  moreover have "(- 1 :: u64) = mask 64"
    by (simp add: mask_eq_exp_minus_1)
  ultimately show ?thesis
    using assms lvc \<open>1 \<le> m\<close>
    by (simp add: NewPacked_def m(1) h(1) lvc_def [symmetric] bp_wf_def mask_eq_exp_minus_1)
qed

subsection \<open>The loops of the generic operation, from their first iteration\<close>

lemma bp_DecodeUint64_eq:
  assumes "bp_wf b"
  shows "bp_DecodeUint64 b blocks vs n =
    (if n * bp_longValueCount b \<le> length vs \<and> n * bp_longBlockCount b \<le> length blocks
     then Some (write_block vs 0 (map (packed_value (bp_bitsPerValue b) blocks) [0..<n * bp_longValueCount b]))
     else None)"
proof -
  have eq: "n * bp_longValueCount b * bp_bitsPerValue b = 64 * (n * bp_longBlockCount b)"
    using bp_wfD(4) [OF assms] by (simp add: algebra_simps)
  have "n * bp_longValueCount b * bp_bitsPerValue b \<le> 64 * length blocks \<longleftrightarrow> n * bp_longBlockCount b \<le> length blocks"
    unfolding eq by simp
  then show ?thesis
    using bp_DecodeUint64_loop_eq [OF assms, of 0 64 0 blocks vs "n * bp_longValueCount b"]
    by (auto simp: bp_DecodeUint64_def mult.commute [of _ n])
qed

lemma bp_DecodeBytes_eq:
  assumes "bp_wf b"
  shows "bp_DecodeBytes b blocks vs n =
    (if n * bp_byteValueCount b \<le> length vs \<and> n * bp_byteBlockCount b \<le> length blocks
     then Some (write_block vs 0 (map (packed_value (bp_bitsPerValue b) blocks) [0..<n * bp_byteValueCount b]))
     else None)"
proof -
  note w = bp_wfD [OF assms]
  have eq: "8 * (n * bp_byteBlockCount b) = n * bp_byteValueCount b * bp_bitsPerValue b"
    using w(5) by (simp add: algebra_simps)
  have "8 * (n * bp_byteBlockCount b) div bp_bitsPerValue b = n * bp_byteValueCount b"
    unfolding eq using w(1) by simp
  then show ?thesis
    using bp_DecodeBytes_loop_eq [OF assms refl, of 0 0 "bp_bitsPerValue b" vs blocks "n * bp_byteBlockCount b"]
      partial_value_full [OF w(2), of blocks 0]
    by (auto simp: bp_DecodeBytes_def)
qed

lemma bp_EncodeUint64_eq:
  assumes "bp_wf b" and "fits_width (bp_bitsPerValue b) vs"
  shows "bp_EncodeUint64 b vs blocks n =
    (if n * bp_longValueCount b \<le> length vs \<and> n * bp_longBlockCount b \<le> length blocks
     then Some (write_block blocks 0 (map (stream_block (bp_bitsPerValue b) vs) [0..<n * bp_longBlockCount b]))
     else None)"
proof -
  have eq: "n * bp_longValueCount b * bp_bitsPerValue b = 64 * (n * bp_longBlockCount b)"
    using bp_wfD(4) [OF assms(1)] by (simp add: algebra_simps)
  have "n * bp_longValueCount b * bp_bitsPerValue b div 64 = n * bp_longBlockCount b"
    unfolding eq by simp
  then show ?thesis
    using bp_EncodeUint64_loop_eq [OF assms(1) refl assms(2), of 0 0 64 blocks "n * bp_longValueCount b"]
    by (auto simp: bp_EncodeUint64_def partial_block64_full mult.commute [of _ n])
qed

lemma bp_EncodeBytes_eq:
  assumes "bp_wf b" and "fits_width (bp_bitsPerValue b) vs"
  shows "bp_EncodeBytes b vs blocks n =
    (if n * bp_byteValueCount b \<le> length vs \<and> n * bp_byteBlockCount b \<le> length blocks
     then Some (write_block blocks 0 (map (stream_block (bp_bitsPerValue b) vs) [0..<n * bp_byteBlockCount b]))
     else None)"
proof -
  have eq: "n * bp_byteValueCount b * bp_bitsPerValue b = 8 * (n * bp_byteBlockCount b)"
    using bp_wfD(5) [OF assms(1)] by (simp add: algebra_simps)
  have "n * bp_byteValueCount b * bp_bitsPerValue b div 8 = n * bp_byteBlockCount b"
    unfolding eq by simp
  then show ?thesis
    using bp_EncodeBytes_loop_eq [OF assms(1) refl assms(2), of 0 0 8 blocks "n * bp_byteValueCount b"]
    by (auto simp: bp_EncodeBytes_def partial_block8_full mult.commute [of _ n])
qed

end
