(* ===== verification/Bulk_Unrolled.thy ===== *)
theory Bulk_Unrolled
  imports Bulk_Packed_Correct
begin

text \<open>
  The frame of the specialised decoders of the widths 1 to 24 (bulkoperationpacked1.go to
  bulkoperationpacked24.go): the loop they share, the contract \<open>decodes_block\<close> of the
  straight-line code of one iteration, and the rules that evaluate that code: \<open>value64_at\<close> and
  \<open>value8_at\<close> give the shift-and-mask expression of each value from its position.
\<close>

subsection \<open>One iteration and the loop around it\<close>

definition slice_write :: "'a list \<Rightarrow> nat \<Rightarrow> 'a list \<Rightarrow> 'a list option" where
  "slice_write xs off ys = (if off + length ys \<le> length xs then Some (write_block xs off ys) else None)"

text \<open>\<open>uint64(blocks[i])\<close> for a byte slice.\<close>

definition slice_get_u64 :: "u8 list \<Rightarrow> nat \<Rightarrow> u64 option" where
  "slice_get_u64 xs i = map_option ucast (slice_get xs i)"

text \<open>
  \<open>for i := 0; i < iterations; i++\<close> with the two offsets; \<open>body\<close> is the straight-line code of one
  iteration, as a function from the blocks at \<open>blocksOffset\<close> on to the values it stores, and \<open>k\<close>
  is the number of blocks it consumes.
\<close>

primrec unrolled_loop ::
  "nat \<Rightarrow> ('b list \<Rightarrow> u64 list option) \<Rightarrow> 'b list \<Rightarrow> nat \<Rightarrow> nat \<Rightarrow> nat \<Rightarrow> u64 list \<Rightarrow> u64 list option" where
  "unrolled_loop k body blocks 0 blocksOffset valuesOffset values = Some values"
| "unrolled_loop k body blocks (Suc n) blocksOffset valuesOffset values = do {
     vs \<leftarrow> body (drop blocksOffset blocks);
     values \<leftarrow> slice_write values valuesOffset vs;
     unrolled_loop k body blocks n (blocksOffset + k) (valuesOffset + length vs) values
   }"

lemma stream_bit_drop:
  fixes ws :: "'a::len word list"
  assumes "bo \<le> length ws"
  shows "stream_bit (drop bo ws) k = stream_bit ws (bo * LENGTH('a) + k)"
  using assms by (simp add: stream_bit_def)

lemma packed_value_drop:
  fixes ws :: "'a::len word list"
  assumes "bpv \<le> 64" and "bo \<le> length ws" and "bo * LENGTH('a) = vo * bpv"
  shows "packed_value bpv (drop bo ws) m = packed_value bpv ws (vo + m)"
  by (rule packed_value_eqI [OF assms(1)])
    (use assms in \<open>simp add: bit_packed_value stream_bit_drop algebra_simps\<close>)

lemma map_packed_value_drop:
  fixes ws :: "'a::len word list"
  assumes "bpv \<le> 64" and "bo \<le> length ws" and "bo * LENGTH('a) = vo * bpv"
  shows "map (packed_value bpv (drop bo ws)) [0..<m] = map (packed_value bpv ws) [vo..<vo + m]"
  by (rule nth_equalityI) (use packed_value_drop [OF assms] in simp_all)

definition decodes_block :: "nat \<Rightarrow> nat \<Rightarrow> nat \<Rightarrow> ('a::len word list \<Rightarrow> u64 list option) \<Rightarrow> bool" where
  "decodes_block bpv k m body \<longleftrightarrow> bpv \<le> 64 \<and> m * bpv = k * LENGTH('a) \<and>
     (\<forall>ws. body ws = (if k \<le> length ws then Some (map (packed_value bpv ws) [0..<m]) else None))"

lemma unrolled_loop_eq:
  fixes blocks :: "'a::len word list"
  assumes dec: "decodes_block bpv k m body" and k: "0 < k"
    and "bo * LENGTH('a) = vo * bpv" and "bo \<le> length blocks" and "vo \<le> length vs"
  shows "unrolled_loop k body blocks n bo vo vs =
    (if bo + n * k \<le> length blocks \<and> vo + n * m \<le> length vs
     then Some (write_block vs vo (map (packed_value bpv blocks) [vo..<vo + n * m])) else None)"
  using assms(3-)
proof (induction n arbitrary: bo vo vs)
  case 0
  then show ?case by simp
next
  case (Suc n)
  have bpv: "bpv \<le> 64" and mk: "m * bpv = k * LENGTH('a)"
    using dec by (simp_all add: decodes_block_def)
  let ?w = "write_block vs vo (map (packed_value bpv blocks) [vo..<vo + m])"
  have body: "body (drop bo blocks) = (if bo + k \<le> length blocks
      then Some (map (packed_value bpv blocks) [vo..<vo + m]) else None)"
    using dec Suc.prems map_packed_value_drop [OF bpv Suc.prems(2,1)]
    by (auto simp: decodes_block_def le_diff_conv2 add.commute)
  show ?case
  proof (cases "bo + k \<le> length blocks \<and> vo + m \<le> length vs")
    case True
    have pos: "(bo + k) * LENGTH('a) = (vo + m) * bpv"
      using Suc.prems(1) mk by (simp add: algebra_simps)
    have "unrolled_loop k body blocks (Suc n) bo vo vs = unrolled_loop k body blocks n (bo + k) (vo + m) ?w"
      using True body by (simp add: slice_write_def)
    also have "\<dots> = (if bo + k + n * k \<le> length blocks \<and> vo + m + n * m \<le> length vs
     then Some (write_block ?w (vo + m) (map (packed_value bpv blocks) [vo + m..<vo + m + n * m])) else None)"
      using Suc.IH [OF pos, of ?w] True by simp
    also have "\<dots> = (if bo + Suc n * k \<le> length blocks \<and> vo + Suc n * m \<le> length vs
     then Some (write_block vs vo (map (packed_value bpv blocks) [vo..<vo + Suc n * m])) else None)"
      using write_block_map_append [of vo "vo + m" "vo + m + n * m" vs "packed_value bpv blocks"]
      by (auto simp: add.assoc)
    finally show ?thesis .
  next
    case False
    then show ?thesis
      using body by (auto simp: slice_write_def)
  qed
qed

subsection \<open>The expression of a value, by its position\<close>

definition value64_at :: "nat \<Rightarrow> u64 list \<Rightarrow> nat \<Rightarrow> u64" where
  "value64_at bpv ws i =
     (let q = i * bpv div 64; e = 64 - i * bpv mod 64 in
      if e = 64 then drop_bit (64 - bpv) (ws ! q)
      else if bpv \<le> e then drop_bit (e - bpv) (ws ! q) AND (2 ^ bpv - 1)
      else push_bit (bpv - e) (ws ! q AND (2 ^ e - 1)) OR drop_bit (64 + e - bpv) (ws ! Suc q))"

lemma drop_bit_top_mask:
  assumes "n \<le> LENGTH('a::len)"
  shows "drop_bit (LENGTH('a) - n) (w :: 'a word) AND mask n = drop_bit (LENGTH('a) - n) w"
  using assms bit_imp_le_length [of w]
  by (intro bit_word_eqI) (fastforce simp: bit_and_iff bit_mask_iff bit_drop_bit_eq)

lemma packed_value_value64_at:
  assumes "1 \<le> bpv" and "bpv < 64"
  shows "packed_value bpv ws i = value64_at bpv ws i"
proof -
  define q e where "q = i * bpv div 64" and "e = 64 - i * bpv mod 64"
  have "i * bpv mod 64 < 64" by simp
  then have pos: "i * bpv + e = 64 * (q + 1)" "1 \<le> e" "e \<le> 64"
    unfolding q_def e_def by (simp_all add: minus_mod_eq_mult_div [symmetric] algebra_simps)
  have within: "drop_bit (e - bpv) (ws ! q) AND mask bpv = packed_value bpv ws i" if "bpv \<le> e"
    using that pos assms by (intro packed_value_within_block) simp_all
  have across: "push_bit (bpv - e) (ws ! q AND mask e) OR drop_bit (64 + e - bpv) (ws ! (q + 1)) = packed_value bpv ws i"
    if "e < bpv"
    using that pos assms by (intro packed_value_across_blocks) simp_all
  have top: "drop_bit (64 - bpv) (ws ! q) AND mask bpv = drop_bit (64 - bpv) (ws ! q)"
    using drop_bit_top_mask [where ?'a = 64, of bpv "ws ! q"] assms by simp
  show ?thesis
    using within across top assms
    by (auto simp: value64_at_def Let_def q_def [symmetric] e_def [symmetric] mask_eq_exp_minus_1 not_le)
qed

primrec bytes_tail :: "nat \<Rightarrow> u8 list \<Rightarrow> nat \<Rightarrow> nat \<Rightarrow> u64" where
  "bytes_tail 0 ws q r = drop_bit (8 - r) (ucast (ws ! q))"
| "bytes_tail (Suc n) ws q r = push_bit (r - 8) (ucast (ws ! q)) OR bytes_tail n ws (Suc q) (r - 8)"

definition value8_at :: "nat \<Rightarrow> u8 list \<Rightarrow> nat \<Rightarrow> u64" where
  "value8_at bpv ws i =
     (let q = i * bpv div 8; e = 8 - i * bpv mod 8 in
      if bpv \<le> e then
        if e = 8 then drop_bit (e - bpv) (ucast (ws ! q)) else drop_bit (e - bpv) (ucast (ws ! q)) AND (2 ^ bpv - 1)
      else (if e = 8 then push_bit (bpv - e) (ucast (ws ! q)) else push_bit (bpv - e) (ucast (ws ! q) AND (2 ^ e - 1)))
        OR bytes_tail ((bpv - e - 1) div 8) ws (Suc q) (bpv - e))"

lemma bit_bytes_tail:
  assumes "i * bpv + bpv = 8 * q + r" and "8 * n < r" and "r \<le> 8 * n + 8" and "r \<le> bpv" and "bpv \<le> 64"
  shows "bit (bytes_tail n ws q r) j \<longleftrightarrow> j < r \<and> stream_bit ws (i * bpv + (bpv - 1 - j))"
  using assms(1-4)
proof (induction n arbitrary: q r)
  case 0
  have "stream_bit ws (i * bpv + (bpv - 1 - j)) = bit (ws ! q) (8 - r + j)" if "j < r"
    by (rule stream_bit8) (use that 0 in simp_all)
  moreover have "8 - r + j < 8" if "bit (ws ! q) (8 - r + j)"
    using that by (rule bit_u8_less)
  ultimately show ?case
    using 0 by (auto simp: bit_drop_bit_eq bit_u8_ucast)
next
  case (Suc n)
  have r: "8 * n < r - 8" "r - 8 \<le> 8 * n + 8" "i * bpv + bpv = 8 * Suc q + (r - 8)" "r - 8 \<le> bpv"
    using Suc.prems by simp_all
  have tail: "bit (bytes_tail n ws (Suc q) (r - 8)) j \<longleftrightarrow> j < r - 8 \<and> stream_bit ws (i * bpv + (bpv - 1 - j))"
    using Suc.IH [OF r(3,1,2,4)] .
  have "stream_bit ws (i * bpv + (bpv - 1 - j)) = bit (ws ! q) (j - (r - 8))" if "r - 8 \<le> j" "j < r"
    by (rule stream_bit_byte) (use that Suc.prems in simp_all)
  moreover have "j - (r - 8) < 8" if "bit (ws ! q) (j - (r - 8))"
    using that by (rule bit_u8_less)
  ultimately show ?case
    using Suc.prems assms(5)
    by (cases "j < r - 8") (auto simp: bit_or_iff bit_push_bit_iff bit_u8_ucast tail)
qed


lemma bit_byte_part:
  assumes "i * bpv + e = 8 * (q + 1)" and "e \<le> 8" and "e \<le> bpv" and "bpv \<le> 64" and "j < 64"
  shows "bit (push_bit (bpv - e) (ucast (ws ! q :: u8) AND mask e) :: u64) j \<longleftrightarrow>
    bpv - e \<le> j \<and> j < bpv \<and> stream_bit ws (i * bpv + (bpv - 1 - j))"
proof -
  have "stream_bit ws (i * bpv + (bpv - 1 - j)) = bit (ws ! q) (j - (bpv - e))" if "bpv - e \<le> j" "j < bpv"
    by (rule stream_bit8) (use that assms in simp_all)
  then show ?thesis
    using assms(3-5) by (auto simp: bit_push_bit_iff bit_and_iff bit_mask_iff bit_u8_ucast)
qed

lemma ucast_u8_mask: "(ucast (w :: u8) :: u64) AND mask 8 = ucast w"
  by (rule bit_word_eqI) (auto simp: bit_and_iff bit_mask_iff bit_u8_ucast dest: bit_u8_less)

lemma ucast_drop_u8: "(ucast (drop_bit n (w :: u8)) :: u64) = drop_bit n (ucast w)"
  by (rule bit_word_eqI) (simp add: bit_drop_bit_eq bit_u8_ucast)

lemma packed_value_value8_at:
  assumes "1 \<le> bpv" and "bpv \<le> 64"
  shows "packed_value bpv ws i = value8_at bpv ws i"
proof -
  define q e where "q = i * bpv div 8" and "e = 8 - i * bpv mod 8"
  have "i * bpv mod 8 < 8" by simp
  then have pos: "i * bpv + e = 8 * (q + 1)" "1 \<le> e" "e \<le> 8"
    unfolding q_def e_def by (simp_all add: minus_mod_eq_mult_div [symmetric] algebra_simps)
  have top: "drop_bit (8 - bpv) (ucast (ws ! q)) AND mask bpv = drop_bit (8 - bpv) (ucast (ws ! q) :: u64)" if "bpv \<le> 8"
    using that bit_u8_less [of "ws ! q"] by (intro bit_word_eqI)
      (fastforce simp: bit_and_iff bit_mask_iff bit_drop_bit_eq bit_u8_ucast)
  have within: "drop_bit (e - bpv) (ucast (ws ! q)) AND mask bpv = packed_value bpv ws i" if "bpv \<le> e"
    using that pos assms packed_value_in_byte [of bpv i e q ws] by (simp add: ucast_drop_u8)
  have across: "push_bit (bpv - e) (ucast (ws ! q) AND mask e) OR bytes_tail ((bpv - e - 1) div 8) ws (Suc q) (bpv - e)
      = packed_value bpv ws i" if "e < bpv"
  proof (rule bit_word_eqI)
    fix j :: nat
    assume "j < LENGTH(64)"
    then have j: "j < 64" by simp
    have b1: "i * bpv + bpv = 8 * Suc q + (bpv - e)" "bpv - e \<le> bpv"
      using pos that by simp_all
    have b2: "8 * ((bpv - e - 1) div 8) < bpv - e" "bpv - e \<le> 8 * ((bpv - e - 1) div 8) + 8"
      using that by presburger+
    have tail: "bit (bytes_tail ((bpv - e - 1) div 8) ws (Suc q) (bpv - e)) j \<longleftrightarrow>
        j < bpv - e \<and> stream_bit ws (i * bpv + (bpv - 1 - j))"
      using b1 b2 by (intro bit_bytes_tail assms)
    have head: "bit (push_bit (bpv - e) (ucast (ws ! q) AND mask e) :: u64) j \<longleftrightarrow>
       bpv - e \<le> j \<and> j < bpv \<and> stream_bit ws (i * bpv + (bpv - 1 - j))"
      by (rule bit_byte_part) (use pos that assms j in simp_all)
    show "bit (push_bit (bpv - e) (ucast (ws ! q) AND mask e) OR bytes_tail ((bpv - e - 1) div 8) ws (Suc q) (bpv - e)) j
       = bit (packed_value bpv ws i) j"
      unfolding bit_or_iff head tail using assms by (auto simp: bit_packed_value)
  qed
  have whole: "push_bit (bpv - e) (ucast (ws ! q)) OR bytes_tail ((bpv - e - 1) div 8) ws (Suc q) (bpv - e)
      = packed_value bpv ws i" if "e < bpv" "e = 8"
    using across [OF that(1)] unfolding that(2) ucast_u8_mask .
  show ?thesis
    using within across top whole
    by (auto simp: value8_at_def Let_def q_def [symmetric] e_def [symmetric] mask_eq_exp_minus_1 not_le)
qed


subsection \<open>Evaluating the straight-line code\<close>

text \<open>The values of \<open>shift\<close> in \<open>for shift := from; shift >= 0; shift -= step\<close>.\<close>

definition shifts_down :: "nat \<Rightarrow> nat \<Rightarrow> nat list" where
  "shifts_down from step = map (\<lambda>k. from - k * step) [0..<from div step + 1]"

lemma decodes_blockI:
  assumes "bpv \<le> 64" and "m * bpv = k * LENGTH('a)" and "0 < k"
    and "\<And>ws. k \<le> length ws \<Longrightarrow> ws \<noteq> [] \<Longrightarrow> body ws = Some (map (packed_value bpv ws) [0..<m])"
    and "\<And>ws. length ws < k \<Longrightarrow> body ws = None"
  shows "decodes_block bpv k m (body :: 'a::len word list \<Rightarrow> u64 list option)"
proof -
  have "ws \<noteq> []" if "k \<le> length ws" for ws :: "'a word list"
    using that assms(3) by auto
  then show ?thesis
    using assms by (auto simp: decodes_block_def)
qed

lemma upt_0_numeral: "[0..<numeral n] = 0 # [1..<numeral n]"
  by (simp add: upt_conv_Cons)

lemma upt_1_numeral: "[Suc 0..<numeral n] = (if 1 < (numeral n :: nat) then 1 # [2..<numeral n] else [])"
  by (simp add: upt_conv_Cons numeral_2_eq_2)

lemma bytes_tail_numeral:
  "bytes_tail (numeral n) ws q r = push_bit (r - 8) (ucast (ws ! q)) OR bytes_tail (pred_numeral n) ws (Suc q) (r - 8)"
  by (simp add: numeral_eq_Suc)

lemma slice_get_u64_in: "i < length xs \<Longrightarrow> slice_get_u64 xs i = Some (ucast (xs ! i))"
  by (simp add: slice_get_u64_def slice_simps)

lemma slice_get_u64_out: "length xs \<le> i \<Longrightarrow> slice_get_u64 xs i = None"
  by (simp add: slice_get_u64_def slice_get_def)

lemma slice_get_out: "length xs \<le> i \<Longrightarrow> slice_get xs i = None"
  by simp

lemma packed_value_value64_masked:
  fixes ws :: "u64 list"
  assumes "1 \<le> bpv" and "bpv < 64" and "bpv \<le> 64 - i * bpv mod 64"
  shows "packed_value bpv ws i = drop_bit (64 - i * bpv mod 64 - bpv) (ws ! (i * bpv div 64)) AND (2 ^ bpv - 1)"
proof -
  have "i * bpv mod 64 < 64" by simp
  then have "i * bpv + (64 - i * bpv mod 64) = 64 * (i * bpv div 64 + 1)"
    by (simp add: minus_mod_eq_mult_div [symmetric] algebra_simps)
  then show ?thesis
    using assms packed_value_within_block [of bpv i "64 - i * bpv mod 64 - bpv" "i * bpv div 64" ws]
    by (simp add: mask_eq_exp_minus_1)
qed

lemma packed_value_value8_masked:
  fixes ws :: "u8 list"
  assumes "1 \<le> bpv" and "bpv \<le> 64" and "bpv \<le> 8 - i * bpv mod 8"
  shows "packed_value bpv ws i = drop_bit (8 - i * bpv mod 8 - bpv) (ucast (ws ! (i * bpv div 8))) AND (2 ^ bpv - 1)"
proof -
  have "i * bpv mod 8 < 8" by simp
  then have "i * bpv + (8 - i * bpv mod 8) = 8 * (i * bpv div 8 + 1)"
    by (simp add: minus_mod_eq_mult_div [symmetric] algebra_simps)
  then show ?thesis
    using assms packed_value_in_byte [of bpv i "8 - i * bpv mod 8" "i * bpv div 8" ws]
    by (simp add: mask_eq_exp_minus_1 ucast_drop_u8)
qed

lemmas upt_numerals = upt_rec_numeral upt_0_numeral upt_1_numeral numeral_2_eq_2 [symmetric]
lemmas unroll64 = slice_get_in slice_get_out packed_value_value64_at value64_at_def upt_numerals
lemmas unroll64_masked = slice_get_in slice_get_out packed_value_value64_masked upt_numerals shifts_down_def
lemmas unroll8 = slice_get_u64_in slice_get_u64_out packed_value_value8_at value8_at_def bytes_tail_numeral upt_numerals
lemmas unroll8_masked = slice_get_u64_in slice_get_u64_out packed_value_value8_masked upt_numerals


subsection \<open>Agreement with the generic operation\<close>

lemma unrolled_eq_stream:
  fixes blocks :: "'a::len word list"
  assumes "decodes_block bpv k m body" and "0 < k"
  shows "unrolled_loop k body blocks n 0 0 vs =
    (if n * m \<le> length vs \<and> n * k \<le> length blocks
     then Some (write_block vs 0 (map (packed_value bpv blocks) [0..<n * m])) else None)"
  using unrolled_loop_eq [OF assms, of 0 0 blocks vs n] by auto

lemma unrolled_eq_DecodeUint64:
  assumes "decodes_block bpv k m body" and "0 < k" and "NewPacked bpv = Some b"
    and "1 \<le> bpv" and "bp_longBlockCount b = k" and "bp_longValueCount b = m"
  shows "unrolled_loop k body blocks n 0 0 vs = bp_DecodeUint64 b blocks vs n"
  using NewPacked_wf [of bpv] assms
  by (auto simp: decodes_block_def unrolled_eq_stream [OF assms(1,2)] bp_DecodeUint64_eq)

lemma unrolled_eq_DecodeBytes:
  assumes "decodes_block bpv k m body" and "0 < k" and "NewPacked bpv = Some b"
    and "1 \<le> bpv" and "bp_byteBlockCount b = k" and "bp_byteValueCount b = m"
  shows "unrolled_loop k body blocks n 0 0 vs = bp_DecodeBytes b blocks vs n"
  using NewPacked_wf [of bpv] assms
  by (auto simp: decodes_block_def unrolled_eq_stream [OF assms(1,2)] bp_DecodeBytes_eq)

lemmas NewPacked_eval = NewPacked_def halve_while_even.simps halve_both_while_even.simps

end
