(* ===== verification/Bulk_Unrolled_Long.thy ===== *)
theory Bulk_Unrolled_Long
  imports Bulk_Unrolled
begin

text \<open>
  The method DecodeUint64 of Packed1, ..., Packed24: the decoders over 64-bit blocks, expression by
  expression. Each \<open>_body\<close> is one iteration of the source's loop: the reads at
  \<open>blocksOffset\<close>, \<open>blocksOffset + 1\<close>, ... under the source's names and the values in the order
  they are stored. Each is shown to decode the bit stream of theory Bit_Stream.
\<close>

subsection \<open>bulkoperationpacked1.go\<close>

definition Packed1_DecodeUint64_body :: "u64 list \<Rightarrow> u64 list option" where
  "Packed1_DecodeUint64_body blocks = do {
     block \<leftarrow> slice_get blocks 0;
     Some (map (\<lambda>shift. drop_bit shift block AND 1) (shifts_down 63 1))
   }"

definition Packed1_DecodeUint64 :: "u64 list \<Rightarrow> u64 list \<Rightarrow> nat \<Rightarrow> u64 list option" where
  "Packed1_DecodeUint64 blocks values iterations =
     unrolled_loop 1 Packed1_DecodeUint64_body blocks iterations 0 0 values"

lemma Packed1_DecodeUint64_body: "decodes_block 1 1 64 Packed1_DecodeUint64_body"
  by (rule decodes_blockI) (simp_all add: Packed1_DecodeUint64_body_def unroll64_masked)

lemma Packed1_DecodeUint64_eq: "NewPacked 1 = Some b \<Longrightarrow> Packed1_DecodeUint64 blocks values iterations = bp_DecodeUint64 b blocks values iterations"
  unfolding Packed1_DecodeUint64_def
  by (rule unrolled_eq_DecodeUint64 [OF Packed1_DecodeUint64_body]) (auto simp: NewPacked_eval)

subsection \<open>bulkoperationpacked2.go\<close>

definition Packed2_DecodeUint64_body :: "u64 list \<Rightarrow> u64 list option" where
  "Packed2_DecodeUint64_body blocks = do {
     block \<leftarrow> slice_get blocks 0;
     Some (map (\<lambda>shift. drop_bit shift block AND 3) (shifts_down 62 2))
   }"

definition Packed2_DecodeUint64 :: "u64 list \<Rightarrow> u64 list \<Rightarrow> nat \<Rightarrow> u64 list option" where
  "Packed2_DecodeUint64 blocks values iterations =
     unrolled_loop 1 Packed2_DecodeUint64_body blocks iterations 0 0 values"

lemma Packed2_DecodeUint64_body: "decodes_block 2 1 32 Packed2_DecodeUint64_body"
  by (rule decodes_blockI) (simp_all add: Packed2_DecodeUint64_body_def unroll64_masked)

lemma Packed2_DecodeUint64_eq: "NewPacked 2 = Some b \<Longrightarrow> Packed2_DecodeUint64 blocks values iterations = bp_DecodeUint64 b blocks values iterations"
  unfolding Packed2_DecodeUint64_def
  by (rule unrolled_eq_DecodeUint64 [OF Packed2_DecodeUint64_body]) (auto simp: NewPacked_eval)

subsection \<open>bulkoperationpacked3.go\<close>

definition Packed3_DecodeUint64_body :: "u64 list \<Rightarrow> u64 list option" where
  "Packed3_DecodeUint64_body blocks = do {
     block0 \<leftarrow> slice_get blocks 0; block1 \<leftarrow> slice_get blocks 1;
     block2 \<leftarrow> slice_get blocks 2;
     Some [
       drop_bit 61 block0, drop_bit 58 block0 AND 7, drop_bit 55 block0 AND 7,
       drop_bit 52 block0 AND 7, drop_bit 49 block0 AND 7, drop_bit 46 block0 AND 7,
       drop_bit 43 block0 AND 7, drop_bit 40 block0 AND 7, drop_bit 37 block0 AND 7,
       drop_bit 34 block0 AND 7, drop_bit 31 block0 AND 7, drop_bit 28 block0 AND 7,
       drop_bit 25 block0 AND 7, drop_bit 22 block0 AND 7, drop_bit 19 block0 AND 7,
       drop_bit 16 block0 AND 7, drop_bit 13 block0 AND 7, drop_bit 10 block0 AND 7,
       drop_bit 7 block0 AND 7, drop_bit 4 block0 AND 7, drop_bit 1 block0 AND 7,
       push_bit 2 (block0 AND 1) OR drop_bit 62 block1, drop_bit 59 block1 AND 7,
       drop_bit 56 block1 AND 7, drop_bit 53 block1 AND 7, drop_bit 50 block1 AND 7,
       drop_bit 47 block1 AND 7, drop_bit 44 block1 AND 7, drop_bit 41 block1 AND 7,
       drop_bit 38 block1 AND 7, drop_bit 35 block1 AND 7, drop_bit 32 block1 AND 7,
       drop_bit 29 block1 AND 7, drop_bit 26 block1 AND 7, drop_bit 23 block1 AND 7,
       drop_bit 20 block1 AND 7, drop_bit 17 block1 AND 7, drop_bit 14 block1 AND 7,
       drop_bit 11 block1 AND 7, drop_bit 8 block1 AND 7, drop_bit 5 block1 AND 7,
       drop_bit 2 block1 AND 7, push_bit 1 (block1 AND 3) OR drop_bit 63 block2,
       drop_bit 60 block2 AND 7, drop_bit 57 block2 AND 7, drop_bit 54 block2 AND 7,
       drop_bit 51 block2 AND 7, drop_bit 48 block2 AND 7, drop_bit 45 block2 AND 7,
       drop_bit 42 block2 AND 7, drop_bit 39 block2 AND 7, drop_bit 36 block2 AND 7,
       drop_bit 33 block2 AND 7, drop_bit 30 block2 AND 7, drop_bit 27 block2 AND 7,
       drop_bit 24 block2 AND 7, drop_bit 21 block2 AND 7, drop_bit 18 block2 AND 7,
       drop_bit 15 block2 AND 7, drop_bit 12 block2 AND 7, drop_bit 9 block2 AND 7,
       drop_bit 6 block2 AND 7, drop_bit 3 block2 AND 7, block2 AND 7]
   }"

definition Packed3_DecodeUint64 :: "u64 list \<Rightarrow> u64 list \<Rightarrow> nat \<Rightarrow> u64 list option" where
  "Packed3_DecodeUint64 blocks values iterations =
     unrolled_loop 3 Packed3_DecodeUint64_body blocks iterations 0 0 values"

lemma Packed3_DecodeUint64_body: "decodes_block 3 3 64 Packed3_DecodeUint64_body"
  by (rule decodes_blockI) (simp_all add: Packed3_DecodeUint64_body_def unroll64)

lemma Packed3_DecodeUint64_eq: "NewPacked 3 = Some b \<Longrightarrow> Packed3_DecodeUint64 blocks values iterations = bp_DecodeUint64 b blocks values iterations"
  unfolding Packed3_DecodeUint64_def
  by (rule unrolled_eq_DecodeUint64 [OF Packed3_DecodeUint64_body]) (auto simp: NewPacked_eval)

subsection \<open>bulkoperationpacked4.go\<close>

definition Packed4_DecodeUint64_body :: "u64 list \<Rightarrow> u64 list option" where
  "Packed4_DecodeUint64_body blocks = do {
     block \<leftarrow> slice_get blocks 0;
     Some (map (\<lambda>shift. drop_bit shift block AND 15) (shifts_down 60 4))
   }"

definition Packed4_DecodeUint64 :: "u64 list \<Rightarrow> u64 list \<Rightarrow> nat \<Rightarrow> u64 list option" where
  "Packed4_DecodeUint64 blocks values iterations =
     unrolled_loop 1 Packed4_DecodeUint64_body blocks iterations 0 0 values"

lemma Packed4_DecodeUint64_body: "decodes_block 4 1 16 Packed4_DecodeUint64_body"
  by (rule decodes_blockI) (simp_all add: Packed4_DecodeUint64_body_def unroll64_masked)

lemma Packed4_DecodeUint64_eq: "NewPacked 4 = Some b \<Longrightarrow> Packed4_DecodeUint64 blocks values iterations = bp_DecodeUint64 b blocks values iterations"
  unfolding Packed4_DecodeUint64_def
  by (rule unrolled_eq_DecodeUint64 [OF Packed4_DecodeUint64_body]) (auto simp: NewPacked_eval)

subsection \<open>bulkoperationpacked5.go\<close>

definition Packed5_DecodeUint64_body :: "u64 list \<Rightarrow> u64 list option" where
  "Packed5_DecodeUint64_body blocks = do {
     block0 \<leftarrow> slice_get blocks 0; block1 \<leftarrow> slice_get blocks 1;
     block2 \<leftarrow> slice_get blocks 2; block3 \<leftarrow> slice_get blocks 3;
     block4 \<leftarrow> slice_get blocks 4;
     Some [
       drop_bit 59 block0, drop_bit 54 block0 AND 31, drop_bit 49 block0 AND 31,
       drop_bit 44 block0 AND 31, drop_bit 39 block0 AND 31, drop_bit 34 block0 AND 31,
       drop_bit 29 block0 AND 31, drop_bit 24 block0 AND 31, drop_bit 19 block0 AND 31,
       drop_bit 14 block0 AND 31, drop_bit 9 block0 AND 31, drop_bit 4 block0 AND 31,
       push_bit 1 (block0 AND 15) OR drop_bit 63 block1, drop_bit 58 block1 AND 31,
       drop_bit 53 block1 AND 31, drop_bit 48 block1 AND 31, drop_bit 43 block1 AND 31,
       drop_bit 38 block1 AND 31, drop_bit 33 block1 AND 31, drop_bit 28 block1 AND 31,
       drop_bit 23 block1 AND 31, drop_bit 18 block1 AND 31, drop_bit 13 block1 AND 31,
       drop_bit 8 block1 AND 31, drop_bit 3 block1 AND 31,
       push_bit 2 (block1 AND 7) OR drop_bit 62 block2, drop_bit 57 block2 AND 31,
       drop_bit 52 block2 AND 31, drop_bit 47 block2 AND 31, drop_bit 42 block2 AND 31,
       drop_bit 37 block2 AND 31, drop_bit 32 block2 AND 31, drop_bit 27 block2 AND 31,
       drop_bit 22 block2 AND 31, drop_bit 17 block2 AND 31, drop_bit 12 block2 AND 31,
       drop_bit 7 block2 AND 31, drop_bit 2 block2 AND 31,
       push_bit 3 (block2 AND 3) OR drop_bit 61 block3, drop_bit 56 block3 AND 31,
       drop_bit 51 block3 AND 31, drop_bit 46 block3 AND 31, drop_bit 41 block3 AND 31,
       drop_bit 36 block3 AND 31, drop_bit 31 block3 AND 31, drop_bit 26 block3 AND 31,
       drop_bit 21 block3 AND 31, drop_bit 16 block3 AND 31, drop_bit 11 block3 AND 31,
       drop_bit 6 block3 AND 31, drop_bit 1 block3 AND 31,
       push_bit 4 (block3 AND 1) OR drop_bit 60 block4, drop_bit 55 block4 AND 31,
       drop_bit 50 block4 AND 31, drop_bit 45 block4 AND 31, drop_bit 40 block4 AND 31,
       drop_bit 35 block4 AND 31, drop_bit 30 block4 AND 31, drop_bit 25 block4 AND 31,
       drop_bit 20 block4 AND 31, drop_bit 15 block4 AND 31, drop_bit 10 block4 AND 31,
       drop_bit 5 block4 AND 31, block4 AND 31]
   }"

definition Packed5_DecodeUint64 :: "u64 list \<Rightarrow> u64 list \<Rightarrow> nat \<Rightarrow> u64 list option" where
  "Packed5_DecodeUint64 blocks values iterations =
     unrolled_loop 5 Packed5_DecodeUint64_body blocks iterations 0 0 values"

lemma Packed5_DecodeUint64_body: "decodes_block 5 5 64 Packed5_DecodeUint64_body"
  by (rule decodes_blockI) (simp_all add: Packed5_DecodeUint64_body_def unroll64)

lemma Packed5_DecodeUint64_eq: "NewPacked 5 = Some b \<Longrightarrow> Packed5_DecodeUint64 blocks values iterations = bp_DecodeUint64 b blocks values iterations"
  unfolding Packed5_DecodeUint64_def
  by (rule unrolled_eq_DecodeUint64 [OF Packed5_DecodeUint64_body]) (auto simp: NewPacked_eval)

subsection \<open>bulkoperationpacked6.go\<close>

definition Packed6_DecodeUint64_body :: "u64 list \<Rightarrow> u64 list option" where
  "Packed6_DecodeUint64_body blocks = do {
     block0 \<leftarrow> slice_get blocks 0; block1 \<leftarrow> slice_get blocks 1;
     block2 \<leftarrow> slice_get blocks 2;
     Some [
       drop_bit 58 block0, drop_bit 52 block0 AND 63, drop_bit 46 block0 AND 63,
       drop_bit 40 block0 AND 63, drop_bit 34 block0 AND 63, drop_bit 28 block0 AND 63,
       drop_bit 22 block0 AND 63, drop_bit 16 block0 AND 63, drop_bit 10 block0 AND 63,
       drop_bit 4 block0 AND 63, push_bit 2 (block0 AND 15) OR drop_bit 62 block1,
       drop_bit 56 block1 AND 63, drop_bit 50 block1 AND 63, drop_bit 44 block1 AND 63,
       drop_bit 38 block1 AND 63, drop_bit 32 block1 AND 63, drop_bit 26 block1 AND 63,
       drop_bit 20 block1 AND 63, drop_bit 14 block1 AND 63, drop_bit 8 block1 AND 63,
       drop_bit 2 block1 AND 63, push_bit 4 (block1 AND 3) OR drop_bit 60 block2,
       drop_bit 54 block2 AND 63, drop_bit 48 block2 AND 63, drop_bit 42 block2 AND 63,
       drop_bit 36 block2 AND 63, drop_bit 30 block2 AND 63, drop_bit 24 block2 AND 63,
       drop_bit 18 block2 AND 63, drop_bit 12 block2 AND 63, drop_bit 6 block2 AND 63,
       block2 AND 63]
   }"

definition Packed6_DecodeUint64 :: "u64 list \<Rightarrow> u64 list \<Rightarrow> nat \<Rightarrow> u64 list option" where
  "Packed6_DecodeUint64 blocks values iterations =
     unrolled_loop 3 Packed6_DecodeUint64_body blocks iterations 0 0 values"

lemma Packed6_DecodeUint64_body: "decodes_block 6 3 32 Packed6_DecodeUint64_body"
  by (rule decodes_blockI) (simp_all add: Packed6_DecodeUint64_body_def unroll64)

lemma Packed6_DecodeUint64_eq: "NewPacked 6 = Some b \<Longrightarrow> Packed6_DecodeUint64 blocks values iterations = bp_DecodeUint64 b blocks values iterations"
  unfolding Packed6_DecodeUint64_def
  by (rule unrolled_eq_DecodeUint64 [OF Packed6_DecodeUint64_body]) (auto simp: NewPacked_eval)

subsection \<open>bulkoperationpacked7.go\<close>

definition Packed7_DecodeUint64_body :: "u64 list \<Rightarrow> u64 list option" where
  "Packed7_DecodeUint64_body blocks = do {
     block0 \<leftarrow> slice_get blocks 0; block1 \<leftarrow> slice_get blocks 1;
     block2 \<leftarrow> slice_get blocks 2; block3 \<leftarrow> slice_get blocks 3;
     block4 \<leftarrow> slice_get blocks 4; block5 \<leftarrow> slice_get blocks 5;
     block6 \<leftarrow> slice_get blocks 6;
     Some [
       drop_bit 57 block0, drop_bit 50 block0 AND 127, drop_bit 43 block0 AND 127,
       drop_bit 36 block0 AND 127, drop_bit 29 block0 AND 127, drop_bit 22 block0 AND 127,
       drop_bit 15 block0 AND 127, drop_bit 8 block0 AND 127, drop_bit 1 block0 AND 127,
       push_bit 6 (block0 AND 1) OR drop_bit 58 block1, drop_bit 51 block1 AND 127,
       drop_bit 44 block1 AND 127, drop_bit 37 block1 AND 127, drop_bit 30 block1 AND 127,
       drop_bit 23 block1 AND 127, drop_bit 16 block1 AND 127, drop_bit 9 block1 AND 127,
       drop_bit 2 block1 AND 127, push_bit 5 (block1 AND 3) OR drop_bit 59 block2,
       drop_bit 52 block2 AND 127, drop_bit 45 block2 AND 127, drop_bit 38 block2 AND 127,
       drop_bit 31 block2 AND 127, drop_bit 24 block2 AND 127, drop_bit 17 block2 AND 127,
       drop_bit 10 block2 AND 127, drop_bit 3 block2 AND 127,
       push_bit 4 (block2 AND 7) OR drop_bit 60 block3, drop_bit 53 block3 AND 127,
       drop_bit 46 block3 AND 127, drop_bit 39 block3 AND 127, drop_bit 32 block3 AND 127,
       drop_bit 25 block3 AND 127, drop_bit 18 block3 AND 127, drop_bit 11 block3 AND 127,
       drop_bit 4 block3 AND 127, push_bit 3 (block3 AND 15) OR drop_bit 61 block4,
       drop_bit 54 block4 AND 127, drop_bit 47 block4 AND 127, drop_bit 40 block4 AND 127,
       drop_bit 33 block4 AND 127, drop_bit 26 block4 AND 127, drop_bit 19 block4 AND 127,
       drop_bit 12 block4 AND 127, drop_bit 5 block4 AND 127,
       push_bit 2 (block4 AND 31) OR drop_bit 62 block5, drop_bit 55 block5 AND 127,
       drop_bit 48 block5 AND 127, drop_bit 41 block5 AND 127, drop_bit 34 block5 AND 127,
       drop_bit 27 block5 AND 127, drop_bit 20 block5 AND 127, drop_bit 13 block5 AND 127,
       drop_bit 6 block5 AND 127, push_bit 1 (block5 AND 63) OR drop_bit 63 block6,
       drop_bit 56 block6 AND 127, drop_bit 49 block6 AND 127, drop_bit 42 block6 AND 127,
       drop_bit 35 block6 AND 127, drop_bit 28 block6 AND 127, drop_bit 21 block6 AND 127,
       drop_bit 14 block6 AND 127, drop_bit 7 block6 AND 127, block6 AND 127]
   }"

definition Packed7_DecodeUint64 :: "u64 list \<Rightarrow> u64 list \<Rightarrow> nat \<Rightarrow> u64 list option" where
  "Packed7_DecodeUint64 blocks values iterations =
     unrolled_loop 7 Packed7_DecodeUint64_body blocks iterations 0 0 values"

lemma Packed7_DecodeUint64_body: "decodes_block 7 7 64 Packed7_DecodeUint64_body"
  by (rule decodes_blockI) (simp_all add: Packed7_DecodeUint64_body_def unroll64)

lemma Packed7_DecodeUint64_eq: "NewPacked 7 = Some b \<Longrightarrow> Packed7_DecodeUint64 blocks values iterations = bp_DecodeUint64 b blocks values iterations"
  unfolding Packed7_DecodeUint64_def
  by (rule unrolled_eq_DecodeUint64 [OF Packed7_DecodeUint64_body]) (auto simp: NewPacked_eval)

subsection \<open>bulkoperationpacked8.go\<close>

definition Packed8_DecodeUint64_body :: "u64 list \<Rightarrow> u64 list option" where
  "Packed8_DecodeUint64_body blocks = do {
     block \<leftarrow> slice_get blocks 0;
     Some (map (\<lambda>shift. drop_bit shift block AND 255) (shifts_down 56 8))
   }"

definition Packed8_DecodeUint64 :: "u64 list \<Rightarrow> u64 list \<Rightarrow> nat \<Rightarrow> u64 list option" where
  "Packed8_DecodeUint64 blocks values iterations =
     unrolled_loop 1 Packed8_DecodeUint64_body blocks iterations 0 0 values"

lemma Packed8_DecodeUint64_body: "decodes_block 8 1 8 Packed8_DecodeUint64_body"
  by (rule decodes_blockI) (simp_all add: Packed8_DecodeUint64_body_def unroll64_masked)

lemma Packed8_DecodeUint64_eq: "NewPacked 8 = Some b \<Longrightarrow> Packed8_DecodeUint64 blocks values iterations = bp_DecodeUint64 b blocks values iterations"
  unfolding Packed8_DecodeUint64_def
  by (rule unrolled_eq_DecodeUint64 [OF Packed8_DecodeUint64_body]) (auto simp: NewPacked_eval)

subsection \<open>bulkoperationpacked9.go\<close>

definition Packed9_DecodeUint64_body :: "u64 list \<Rightarrow> u64 list option" where
  "Packed9_DecodeUint64_body blocks = do {
     block0 \<leftarrow> slice_get blocks 0; block1 \<leftarrow> slice_get blocks 1;
     block2 \<leftarrow> slice_get blocks 2; block3 \<leftarrow> slice_get blocks 3;
     block4 \<leftarrow> slice_get blocks 4; block5 \<leftarrow> slice_get blocks 5;
     block6 \<leftarrow> slice_get blocks 6; block7 \<leftarrow> slice_get blocks 7;
     block8 \<leftarrow> slice_get blocks 8;
     Some [
       drop_bit 55 block0, drop_bit 46 block0 AND 511, drop_bit 37 block0 AND 511,
       drop_bit 28 block0 AND 511, drop_bit 19 block0 AND 511, drop_bit 10 block0 AND 511,
       drop_bit 1 block0 AND 511, push_bit 8 (block0 AND 1) OR drop_bit 56 block1,
       drop_bit 47 block1 AND 511, drop_bit 38 block1 AND 511, drop_bit 29 block1 AND 511,
       drop_bit 20 block1 AND 511, drop_bit 11 block1 AND 511, drop_bit 2 block1 AND 511,
       push_bit 7 (block1 AND 3) OR drop_bit 57 block2, drop_bit 48 block2 AND 511,
       drop_bit 39 block2 AND 511, drop_bit 30 block2 AND 511, drop_bit 21 block2 AND 511,
       drop_bit 12 block2 AND 511, drop_bit 3 block2 AND 511,
       push_bit 6 (block2 AND 7) OR drop_bit 58 block3, drop_bit 49 block3 AND 511,
       drop_bit 40 block3 AND 511, drop_bit 31 block3 AND 511, drop_bit 22 block3 AND 511,
       drop_bit 13 block3 AND 511, drop_bit 4 block3 AND 511,
       push_bit 5 (block3 AND 15) OR drop_bit 59 block4, drop_bit 50 block4 AND 511,
       drop_bit 41 block4 AND 511, drop_bit 32 block4 AND 511, drop_bit 23 block4 AND 511,
       drop_bit 14 block4 AND 511, drop_bit 5 block4 AND 511,
       push_bit 4 (block4 AND 31) OR drop_bit 60 block5, drop_bit 51 block5 AND 511,
       drop_bit 42 block5 AND 511, drop_bit 33 block5 AND 511, drop_bit 24 block5 AND 511,
       drop_bit 15 block5 AND 511, drop_bit 6 block5 AND 511,
       push_bit 3 (block5 AND 63) OR drop_bit 61 block6, drop_bit 52 block6 AND 511,
       drop_bit 43 block6 AND 511, drop_bit 34 block6 AND 511, drop_bit 25 block6 AND 511,
       drop_bit 16 block6 AND 511, drop_bit 7 block6 AND 511,
       push_bit 2 (block6 AND 127) OR drop_bit 62 block7, drop_bit 53 block7 AND 511,
       drop_bit 44 block7 AND 511, drop_bit 35 block7 AND 511, drop_bit 26 block7 AND 511,
       drop_bit 17 block7 AND 511, drop_bit 8 block7 AND 511,
       push_bit 1 (block7 AND 255) OR drop_bit 63 block8, drop_bit 54 block8 AND 511,
       drop_bit 45 block8 AND 511, drop_bit 36 block8 AND 511, drop_bit 27 block8 AND 511,
       drop_bit 18 block8 AND 511, drop_bit 9 block8 AND 511, block8 AND 511]
   }"

definition Packed9_DecodeUint64 :: "u64 list \<Rightarrow> u64 list \<Rightarrow> nat \<Rightarrow> u64 list option" where
  "Packed9_DecodeUint64 blocks values iterations =
     unrolled_loop 9 Packed9_DecodeUint64_body blocks iterations 0 0 values"

lemma Packed9_DecodeUint64_body: "decodes_block 9 9 64 Packed9_DecodeUint64_body"
  by (rule decodes_blockI) (simp_all add: Packed9_DecodeUint64_body_def unroll64)

lemma Packed9_DecodeUint64_eq: "NewPacked 9 = Some b \<Longrightarrow> Packed9_DecodeUint64 blocks values iterations = bp_DecodeUint64 b blocks values iterations"
  unfolding Packed9_DecodeUint64_def
  by (rule unrolled_eq_DecodeUint64 [OF Packed9_DecodeUint64_body]) (auto simp: NewPacked_eval)

subsection \<open>bulkoperationpacked10.go\<close>

definition Packed10_DecodeUint64_body :: "u64 list \<Rightarrow> u64 list option" where
  "Packed10_DecodeUint64_body blocks = do {
     block0 \<leftarrow> slice_get blocks 0; block1 \<leftarrow> slice_get blocks 1;
     block2 \<leftarrow> slice_get blocks 2; block3 \<leftarrow> slice_get blocks 3;
     block4 \<leftarrow> slice_get blocks 4;
     Some [
       drop_bit 54 block0, drop_bit 44 block0 AND 1023, drop_bit 34 block0 AND 1023,
       drop_bit 24 block0 AND 1023, drop_bit 14 block0 AND 1023, drop_bit 4 block0 AND 1023,
       push_bit 6 (block0 AND 15) OR drop_bit 58 block1, drop_bit 48 block1 AND 1023,
       drop_bit 38 block1 AND 1023, drop_bit 28 block1 AND 1023, drop_bit 18 block1 AND 1023,
       drop_bit 8 block1 AND 1023, push_bit 2 (block1 AND 255) OR drop_bit 62 block2,
       drop_bit 52 block2 AND 1023, drop_bit 42 block2 AND 1023, drop_bit 32 block2 AND 1023,
       drop_bit 22 block2 AND 1023, drop_bit 12 block2 AND 1023, drop_bit 2 block2 AND 1023,
       push_bit 8 (block2 AND 3) OR drop_bit 56 block3, drop_bit 46 block3 AND 1023,
       drop_bit 36 block3 AND 1023, drop_bit 26 block3 AND 1023, drop_bit 16 block3 AND 1023,
       drop_bit 6 block3 AND 1023, push_bit 4 (block3 AND 63) OR drop_bit 60 block4,
       drop_bit 50 block4 AND 1023, drop_bit 40 block4 AND 1023, drop_bit 30 block4 AND 1023,
       drop_bit 20 block4 AND 1023, drop_bit 10 block4 AND 1023, block4 AND 1023]
   }"

definition Packed10_DecodeUint64 :: "u64 list \<Rightarrow> u64 list \<Rightarrow> nat \<Rightarrow> u64 list option" where
  "Packed10_DecodeUint64 blocks values iterations =
     unrolled_loop 5 Packed10_DecodeUint64_body blocks iterations 0 0 values"

lemma Packed10_DecodeUint64_body: "decodes_block 10 5 32 Packed10_DecodeUint64_body"
  by (rule decodes_blockI) (simp_all add: Packed10_DecodeUint64_body_def unroll64)

lemma Packed10_DecodeUint64_eq: "NewPacked 10 = Some b \<Longrightarrow> Packed10_DecodeUint64 blocks values iterations = bp_DecodeUint64 b blocks values iterations"
  unfolding Packed10_DecodeUint64_def
  by (rule unrolled_eq_DecodeUint64 [OF Packed10_DecodeUint64_body]) (auto simp: NewPacked_eval)

subsection \<open>bulkoperationpacked11.go\<close>

definition Packed11_DecodeUint64_body :: "u64 list \<Rightarrow> u64 list option" where
  "Packed11_DecodeUint64_body blocks = do {
     block0 \<leftarrow> slice_get blocks 0; block1 \<leftarrow> slice_get blocks 1;
     block2 \<leftarrow> slice_get blocks 2; block3 \<leftarrow> slice_get blocks 3;
     block4 \<leftarrow> slice_get blocks 4; block5 \<leftarrow> slice_get blocks 5;
     block6 \<leftarrow> slice_get blocks 6; block7 \<leftarrow> slice_get blocks 7;
     block8 \<leftarrow> slice_get blocks 8; block9 \<leftarrow> slice_get blocks 9;
     block10 \<leftarrow> slice_get blocks 10;
     Some [
       drop_bit 53 block0, drop_bit 42 block0 AND 2047, drop_bit 31 block0 AND 2047,
       drop_bit 20 block0 AND 2047, drop_bit 9 block0 AND 2047,
       push_bit 2 (block0 AND 511) OR drop_bit 62 block1, drop_bit 51 block1 AND 2047,
       drop_bit 40 block1 AND 2047, drop_bit 29 block1 AND 2047, drop_bit 18 block1 AND 2047,
       drop_bit 7 block1 AND 2047, push_bit 4 (block1 AND 127) OR drop_bit 60 block2,
       drop_bit 49 block2 AND 2047, drop_bit 38 block2 AND 2047, drop_bit 27 block2 AND 2047,
       drop_bit 16 block2 AND 2047, drop_bit 5 block2 AND 2047,
       push_bit 6 (block2 AND 31) OR drop_bit 58 block3, drop_bit 47 block3 AND 2047,
       drop_bit 36 block3 AND 2047, drop_bit 25 block3 AND 2047, drop_bit 14 block3 AND 2047,
       drop_bit 3 block3 AND 2047, push_bit 8 (block3 AND 7) OR drop_bit 56 block4,
       drop_bit 45 block4 AND 2047, drop_bit 34 block4 AND 2047, drop_bit 23 block4 AND 2047,
       drop_bit 12 block4 AND 2047, drop_bit 1 block4 AND 2047,
       push_bit 10 (block4 AND 1) OR drop_bit 54 block5, drop_bit 43 block5 AND 2047,
       drop_bit 32 block5 AND 2047, drop_bit 21 block5 AND 2047, drop_bit 10 block5 AND 2047,
       push_bit 1 (block5 AND 1023) OR drop_bit 63 block6, drop_bit 52 block6 AND 2047,
       drop_bit 41 block6 AND 2047, drop_bit 30 block6 AND 2047, drop_bit 19 block6 AND 2047,
       drop_bit 8 block6 AND 2047, push_bit 3 (block6 AND 255) OR drop_bit 61 block7,
       drop_bit 50 block7 AND 2047, drop_bit 39 block7 AND 2047, drop_bit 28 block7 AND 2047,
       drop_bit 17 block7 AND 2047, drop_bit 6 block7 AND 2047,
       push_bit 5 (block7 AND 63) OR drop_bit 59 block8, drop_bit 48 block8 AND 2047,
       drop_bit 37 block8 AND 2047, drop_bit 26 block8 AND 2047, drop_bit 15 block8 AND 2047,
       drop_bit 4 block8 AND 2047, push_bit 7 (block8 AND 15) OR drop_bit 57 block9,
       drop_bit 46 block9 AND 2047, drop_bit 35 block9 AND 2047, drop_bit 24 block9 AND 2047,
       drop_bit 13 block9 AND 2047, drop_bit 2 block9 AND 2047,
       push_bit 9 (block9 AND 3) OR drop_bit 55 block10, drop_bit 44 block10 AND 2047,
       drop_bit 33 block10 AND 2047, drop_bit 22 block10 AND 2047, drop_bit 11 block10 AND 2047,
       block10 AND 2047]
   }"

definition Packed11_DecodeUint64 :: "u64 list \<Rightarrow> u64 list \<Rightarrow> nat \<Rightarrow> u64 list option" where
  "Packed11_DecodeUint64 blocks values iterations =
     unrolled_loop 11 Packed11_DecodeUint64_body blocks iterations 0 0 values"

lemma Packed11_DecodeUint64_body: "decodes_block 11 11 64 Packed11_DecodeUint64_body"
  by (rule decodes_blockI) (simp_all add: Packed11_DecodeUint64_body_def unroll64)

lemma Packed11_DecodeUint64_eq: "NewPacked 11 = Some b \<Longrightarrow> Packed11_DecodeUint64 blocks values iterations = bp_DecodeUint64 b blocks values iterations"
  unfolding Packed11_DecodeUint64_def
  by (rule unrolled_eq_DecodeUint64 [OF Packed11_DecodeUint64_body]) (auto simp: NewPacked_eval)

subsection \<open>bulkoperationpacked12.go\<close>

definition Packed12_DecodeUint64_body :: "u64 list \<Rightarrow> u64 list option" where
  "Packed12_DecodeUint64_body blocks = do {
     block0 \<leftarrow> slice_get blocks 0; block1 \<leftarrow> slice_get blocks 1;
     block2 \<leftarrow> slice_get blocks 2;
     Some [
       drop_bit 52 block0, drop_bit 40 block0 AND 4095, drop_bit 28 block0 AND 4095,
       drop_bit 16 block0 AND 4095, drop_bit 4 block0 AND 4095,
       push_bit 8 (block0 AND 15) OR drop_bit 56 block1, drop_bit 44 block1 AND 4095,
       drop_bit 32 block1 AND 4095, drop_bit 20 block1 AND 4095, drop_bit 8 block1 AND 4095,
       push_bit 4 (block1 AND 255) OR drop_bit 60 block2, drop_bit 48 block2 AND 4095,
       drop_bit 36 block2 AND 4095, drop_bit 24 block2 AND 4095, drop_bit 12 block2 AND 4095,
       block2 AND 4095]
   }"

definition Packed12_DecodeUint64 :: "u64 list \<Rightarrow> u64 list \<Rightarrow> nat \<Rightarrow> u64 list option" where
  "Packed12_DecodeUint64 blocks values iterations =
     unrolled_loop 3 Packed12_DecodeUint64_body blocks iterations 0 0 values"

lemma Packed12_DecodeUint64_body: "decodes_block 12 3 16 Packed12_DecodeUint64_body"
  by (rule decodes_blockI) (simp_all add: Packed12_DecodeUint64_body_def unroll64)

lemma Packed12_DecodeUint64_eq: "NewPacked 12 = Some b \<Longrightarrow> Packed12_DecodeUint64 blocks values iterations = bp_DecodeUint64 b blocks values iterations"
  unfolding Packed12_DecodeUint64_def
  by (rule unrolled_eq_DecodeUint64 [OF Packed12_DecodeUint64_body]) (auto simp: NewPacked_eval)

subsection \<open>bulkoperationpacked13.go\<close>

definition Packed13_DecodeUint64_body :: "u64 list \<Rightarrow> u64 list option" where
  "Packed13_DecodeUint64_body blocks = do {
     block0 \<leftarrow> slice_get blocks 0; block1 \<leftarrow> slice_get blocks 1;
     block2 \<leftarrow> slice_get blocks 2; block3 \<leftarrow> slice_get blocks 3;
     block4 \<leftarrow> slice_get blocks 4; block5 \<leftarrow> slice_get blocks 5;
     block6 \<leftarrow> slice_get blocks 6; block7 \<leftarrow> slice_get blocks 7;
     block8 \<leftarrow> slice_get blocks 8; block9 \<leftarrow> slice_get blocks 9;
     block10 \<leftarrow> slice_get blocks 10; block11 \<leftarrow> slice_get blocks 11;
     block12 \<leftarrow> slice_get blocks 12;
     Some [
       drop_bit 51 block0, drop_bit 38 block0 AND 8191, drop_bit 25 block0 AND 8191,
       drop_bit 12 block0 AND 8191, push_bit 1 (block0 AND 4095) OR drop_bit 63 block1,
       drop_bit 50 block1 AND 8191, drop_bit 37 block1 AND 8191, drop_bit 24 block1 AND 8191,
       drop_bit 11 block1 AND 8191, push_bit 2 (block1 AND 2047) OR drop_bit 62 block2,
       drop_bit 49 block2 AND 8191, drop_bit 36 block2 AND 8191, drop_bit 23 block2 AND 8191,
       drop_bit 10 block2 AND 8191, push_bit 3 (block2 AND 1023) OR drop_bit 61 block3,
       drop_bit 48 block3 AND 8191, drop_bit 35 block3 AND 8191, drop_bit 22 block3 AND 8191,
       drop_bit 9 block3 AND 8191, push_bit 4 (block3 AND 511) OR drop_bit 60 block4,
       drop_bit 47 block4 AND 8191, drop_bit 34 block4 AND 8191, drop_bit 21 block4 AND 8191,
       drop_bit 8 block4 AND 8191, push_bit 5 (block4 AND 255) OR drop_bit 59 block5,
       drop_bit 46 block5 AND 8191, drop_bit 33 block5 AND 8191, drop_bit 20 block5 AND 8191,
       drop_bit 7 block5 AND 8191, push_bit 6 (block5 AND 127) OR drop_bit 58 block6,
       drop_bit 45 block6 AND 8191, drop_bit 32 block6 AND 8191, drop_bit 19 block6 AND 8191,
       drop_bit 6 block6 AND 8191, push_bit 7 (block6 AND 63) OR drop_bit 57 block7,
       drop_bit 44 block7 AND 8191, drop_bit 31 block7 AND 8191, drop_bit 18 block7 AND 8191,
       drop_bit 5 block7 AND 8191, push_bit 8 (block7 AND 31) OR drop_bit 56 block8,
       drop_bit 43 block8 AND 8191, drop_bit 30 block8 AND 8191, drop_bit 17 block8 AND 8191,
       drop_bit 4 block8 AND 8191, push_bit 9 (block8 AND 15) OR drop_bit 55 block9,
       drop_bit 42 block9 AND 8191, drop_bit 29 block9 AND 8191, drop_bit 16 block9 AND 8191,
       drop_bit 3 block9 AND 8191, push_bit 10 (block9 AND 7) OR drop_bit 54 block10,
       drop_bit 41 block10 AND 8191, drop_bit 28 block10 AND 8191, drop_bit 15 block10 AND 8191,
       drop_bit 2 block10 AND 8191, push_bit 11 (block10 AND 3) OR drop_bit 53 block11,
       drop_bit 40 block11 AND 8191, drop_bit 27 block11 AND 8191, drop_bit 14 block11 AND 8191,
       drop_bit 1 block11 AND 8191, push_bit 12 (block11 AND 1) OR drop_bit 52 block12,
       drop_bit 39 block12 AND 8191, drop_bit 26 block12 AND 8191, drop_bit 13 block12 AND 8191,
       block12 AND 8191]
   }"

definition Packed13_DecodeUint64 :: "u64 list \<Rightarrow> u64 list \<Rightarrow> nat \<Rightarrow> u64 list option" where
  "Packed13_DecodeUint64 blocks values iterations =
     unrolled_loop 13 Packed13_DecodeUint64_body blocks iterations 0 0 values"

lemma Packed13_DecodeUint64_body: "decodes_block 13 13 64 Packed13_DecodeUint64_body"
  by (rule decodes_blockI) (simp_all add: Packed13_DecodeUint64_body_def unroll64)

lemma Packed13_DecodeUint64_eq: "NewPacked 13 = Some b \<Longrightarrow> Packed13_DecodeUint64 blocks values iterations = bp_DecodeUint64 b blocks values iterations"
  unfolding Packed13_DecodeUint64_def
  by (rule unrolled_eq_DecodeUint64 [OF Packed13_DecodeUint64_body]) (auto simp: NewPacked_eval)

subsection \<open>bulkoperationpacked14.go\<close>

definition Packed14_DecodeUint64_body :: "u64 list \<Rightarrow> u64 list option" where
  "Packed14_DecodeUint64_body blocks = do {
     block0 \<leftarrow> slice_get blocks 0; block1 \<leftarrow> slice_get blocks 1;
     block2 \<leftarrow> slice_get blocks 2; block3 \<leftarrow> slice_get blocks 3;
     block4 \<leftarrow> slice_get blocks 4; block5 \<leftarrow> slice_get blocks 5;
     block6 \<leftarrow> slice_get blocks 6;
     Some [
       drop_bit 50 block0, drop_bit 36 block0 AND 16383, drop_bit 22 block0 AND 16383,
       drop_bit 8 block0 AND 16383, push_bit 6 (block0 AND 255) OR drop_bit 58 block1,
       drop_bit 44 block1 AND 16383, drop_bit 30 block1 AND 16383, drop_bit 16 block1 AND 16383,
       drop_bit 2 block1 AND 16383, push_bit 12 (block1 AND 3) OR drop_bit 52 block2,
       drop_bit 38 block2 AND 16383, drop_bit 24 block2 AND 16383, drop_bit 10 block2 AND 16383,
       push_bit 4 (block2 AND 1023) OR drop_bit 60 block3, drop_bit 46 block3 AND 16383,
       drop_bit 32 block3 AND 16383, drop_bit 18 block3 AND 16383, drop_bit 4 block3 AND 16383,
       push_bit 10 (block3 AND 15) OR drop_bit 54 block4, drop_bit 40 block4 AND 16383,
       drop_bit 26 block4 AND 16383, drop_bit 12 block4 AND 16383,
       push_bit 2 (block4 AND 4095) OR drop_bit 62 block5, drop_bit 48 block5 AND 16383,
       drop_bit 34 block5 AND 16383, drop_bit 20 block5 AND 16383, drop_bit 6 block5 AND 16383,
       push_bit 8 (block5 AND 63) OR drop_bit 56 block6, drop_bit 42 block6 AND 16383,
       drop_bit 28 block6 AND 16383, drop_bit 14 block6 AND 16383, block6 AND 16383]
   }"

definition Packed14_DecodeUint64 :: "u64 list \<Rightarrow> u64 list \<Rightarrow> nat \<Rightarrow> u64 list option" where
  "Packed14_DecodeUint64 blocks values iterations =
     unrolled_loop 7 Packed14_DecodeUint64_body blocks iterations 0 0 values"

lemma Packed14_DecodeUint64_body: "decodes_block 14 7 32 Packed14_DecodeUint64_body"
  by (rule decodes_blockI) (simp_all add: Packed14_DecodeUint64_body_def unroll64)

lemma Packed14_DecodeUint64_eq: "NewPacked 14 = Some b \<Longrightarrow> Packed14_DecodeUint64 blocks values iterations = bp_DecodeUint64 b blocks values iterations"
  unfolding Packed14_DecodeUint64_def
  by (rule unrolled_eq_DecodeUint64 [OF Packed14_DecodeUint64_body]) (auto simp: NewPacked_eval)

subsection \<open>bulkoperationpacked15.go\<close>

definition Packed15_DecodeUint64_body :: "u64 list \<Rightarrow> u64 list option" where
  "Packed15_DecodeUint64_body blocks = do {
     block0 \<leftarrow> slice_get blocks 0; block1 \<leftarrow> slice_get blocks 1;
     block2 \<leftarrow> slice_get blocks 2; block3 \<leftarrow> slice_get blocks 3;
     block4 \<leftarrow> slice_get blocks 4; block5 \<leftarrow> slice_get blocks 5;
     block6 \<leftarrow> slice_get blocks 6; block7 \<leftarrow> slice_get blocks 7;
     block8 \<leftarrow> slice_get blocks 8; block9 \<leftarrow> slice_get blocks 9;
     block10 \<leftarrow> slice_get blocks 10; block11 \<leftarrow> slice_get blocks 11;
     block12 \<leftarrow> slice_get blocks 12; block13 \<leftarrow> slice_get blocks 13;
     block14 \<leftarrow> slice_get blocks 14;
     Some [
       drop_bit 49 block0, drop_bit 34 block0 AND 32767, drop_bit 19 block0 AND 32767,
       drop_bit 4 block0 AND 32767, push_bit 11 (block0 AND 15) OR drop_bit 53 block1,
       drop_bit 38 block1 AND 32767, drop_bit 23 block1 AND 32767, drop_bit 8 block1 AND 32767,
       push_bit 7 (block1 AND 255) OR drop_bit 57 block2, drop_bit 42 block2 AND 32767,
       drop_bit 27 block2 AND 32767, drop_bit 12 block2 AND 32767,
       push_bit 3 (block2 AND 4095) OR drop_bit 61 block3, drop_bit 46 block3 AND 32767,
       drop_bit 31 block3 AND 32767, drop_bit 16 block3 AND 32767, drop_bit 1 block3 AND 32767,
       push_bit 14 (block3 AND 1) OR drop_bit 50 block4, drop_bit 35 block4 AND 32767,
       drop_bit 20 block4 AND 32767, drop_bit 5 block4 AND 32767,
       push_bit 10 (block4 AND 31) OR drop_bit 54 block5, drop_bit 39 block5 AND 32767,
       drop_bit 24 block5 AND 32767, drop_bit 9 block5 AND 32767,
       push_bit 6 (block5 AND 511) OR drop_bit 58 block6, drop_bit 43 block6 AND 32767,
       drop_bit 28 block6 AND 32767, drop_bit 13 block6 AND 32767,
       push_bit 2 (block6 AND 8191) OR drop_bit 62 block7, drop_bit 47 block7 AND 32767,
       drop_bit 32 block7 AND 32767, drop_bit 17 block7 AND 32767, drop_bit 2 block7 AND 32767,
       push_bit 13 (block7 AND 3) OR drop_bit 51 block8, drop_bit 36 block8 AND 32767,
       drop_bit 21 block8 AND 32767, drop_bit 6 block8 AND 32767,
       push_bit 9 (block8 AND 63) OR drop_bit 55 block9, drop_bit 40 block9 AND 32767,
       drop_bit 25 block9 AND 32767, drop_bit 10 block9 AND 32767,
       push_bit 5 (block9 AND 1023) OR drop_bit 59 block10, drop_bit 44 block10 AND 32767,
       drop_bit 29 block10 AND 32767, drop_bit 14 block10 AND 32767,
       push_bit 1 (block10 AND 16383) OR drop_bit 63 block11, drop_bit 48 block11 AND 32767,
       drop_bit 33 block11 AND 32767, drop_bit 18 block11 AND 32767, drop_bit 3 block11 AND 32767,
       push_bit 12 (block11 AND 7) OR drop_bit 52 block12, drop_bit 37 block12 AND 32767,
       drop_bit 22 block12 AND 32767, drop_bit 7 block12 AND 32767,
       push_bit 8 (block12 AND 127) OR drop_bit 56 block13, drop_bit 41 block13 AND 32767,
       drop_bit 26 block13 AND 32767, drop_bit 11 block13 AND 32767,
       push_bit 4 (block13 AND 2047) OR drop_bit 60 block14, drop_bit 45 block14 AND 32767,
       drop_bit 30 block14 AND 32767, drop_bit 15 block14 AND 32767, block14 AND 32767]
   }"

definition Packed15_DecodeUint64 :: "u64 list \<Rightarrow> u64 list \<Rightarrow> nat \<Rightarrow> u64 list option" where
  "Packed15_DecodeUint64 blocks values iterations =
     unrolled_loop 15 Packed15_DecodeUint64_body blocks iterations 0 0 values"

lemma Packed15_DecodeUint64_body: "decodes_block 15 15 64 Packed15_DecodeUint64_body"
  by (rule decodes_blockI) (simp_all add: Packed15_DecodeUint64_body_def unroll64)

lemma Packed15_DecodeUint64_eq: "NewPacked 15 = Some b \<Longrightarrow> Packed15_DecodeUint64 blocks values iterations = bp_DecodeUint64 b blocks values iterations"
  unfolding Packed15_DecodeUint64_def
  by (rule unrolled_eq_DecodeUint64 [OF Packed15_DecodeUint64_body]) (auto simp: NewPacked_eval)

subsection \<open>bulkoperationpacked16.go\<close>

definition Packed16_DecodeUint64_body :: "u64 list \<Rightarrow> u64 list option" where
  "Packed16_DecodeUint64_body blocks = do {
     block \<leftarrow> slice_get blocks 0;
     Some (map (\<lambda>shift. drop_bit shift block AND 65535) (shifts_down 48 16))
   }"

definition Packed16_DecodeUint64 :: "u64 list \<Rightarrow> u64 list \<Rightarrow> nat \<Rightarrow> u64 list option" where
  "Packed16_DecodeUint64 blocks values iterations =
     unrolled_loop 1 Packed16_DecodeUint64_body blocks iterations 0 0 values"

lemma Packed16_DecodeUint64_body: "decodes_block 16 1 4 Packed16_DecodeUint64_body"
  by (rule decodes_blockI) (simp_all add: Packed16_DecodeUint64_body_def unroll64_masked)

lemma Packed16_DecodeUint64_eq: "NewPacked 16 = Some b \<Longrightarrow> Packed16_DecodeUint64 blocks values iterations = bp_DecodeUint64 b blocks values iterations"
  unfolding Packed16_DecodeUint64_def
  by (rule unrolled_eq_DecodeUint64 [OF Packed16_DecodeUint64_body]) (auto simp: NewPacked_eval)

subsection \<open>bulkoperationpacked17.go\<close>

definition Packed17_DecodeUint64_body :: "u64 list \<Rightarrow> u64 list option" where
  "Packed17_DecodeUint64_body blocks = do {
     block0 \<leftarrow> slice_get blocks 0; block1 \<leftarrow> slice_get blocks 1;
     block2 \<leftarrow> slice_get blocks 2; block3 \<leftarrow> slice_get blocks 3;
     block4 \<leftarrow> slice_get blocks 4; block5 \<leftarrow> slice_get blocks 5;
     block6 \<leftarrow> slice_get blocks 6; block7 \<leftarrow> slice_get blocks 7;
     block8 \<leftarrow> slice_get blocks 8; block9 \<leftarrow> slice_get blocks 9;
     block10 \<leftarrow> slice_get blocks 10; block11 \<leftarrow> slice_get blocks 11;
     block12 \<leftarrow> slice_get blocks 12; block13 \<leftarrow> slice_get blocks 13;
     block14 \<leftarrow> slice_get blocks 14; block15 \<leftarrow> slice_get blocks 15;
     block16 \<leftarrow> slice_get blocks 16;
     Some [
       drop_bit 47 block0, drop_bit 30 block0 AND 131071, drop_bit 13 block0 AND 131071,
       push_bit 4 (block0 AND 8191) OR drop_bit 60 block1, drop_bit 43 block1 AND 131071,
       drop_bit 26 block1 AND 131071, drop_bit 9 block1 AND 131071,
       push_bit 8 (block1 AND 511) OR drop_bit 56 block2, drop_bit 39 block2 AND 131071,
       drop_bit 22 block2 AND 131071, drop_bit 5 block2 AND 131071,
       push_bit 12 (block2 AND 31) OR drop_bit 52 block3, drop_bit 35 block3 AND 131071,
       drop_bit 18 block3 AND 131071, drop_bit 1 block3 AND 131071,
       push_bit 16 (block3 AND 1) OR drop_bit 48 block4, drop_bit 31 block4 AND 131071,
       drop_bit 14 block4 AND 131071, push_bit 3 (block4 AND 16383) OR drop_bit 61 block5,
       drop_bit 44 block5 AND 131071, drop_bit 27 block5 AND 131071, drop_bit 10 block5 AND 131071,
       push_bit 7 (block5 AND 1023) OR drop_bit 57 block6, drop_bit 40 block6 AND 131071,
       drop_bit 23 block6 AND 131071, drop_bit 6 block6 AND 131071,
       push_bit 11 (block6 AND 63) OR drop_bit 53 block7, drop_bit 36 block7 AND 131071,
       drop_bit 19 block7 AND 131071, drop_bit 2 block7 AND 131071,
       push_bit 15 (block7 AND 3) OR drop_bit 49 block8, drop_bit 32 block8 AND 131071,
       drop_bit 15 block8 AND 131071, push_bit 2 (block8 AND 32767) OR drop_bit 62 block9,
       drop_bit 45 block9 AND 131071, drop_bit 28 block9 AND 131071, drop_bit 11 block9 AND 131071,
       push_bit 6 (block9 AND 2047) OR drop_bit 58 block10, drop_bit 41 block10 AND 131071,
       drop_bit 24 block10 AND 131071, drop_bit 7 block10 AND 131071,
       push_bit 10 (block10 AND 127) OR drop_bit 54 block11, drop_bit 37 block11 AND 131071,
       drop_bit 20 block11 AND 131071, drop_bit 3 block11 AND 131071,
       push_bit 14 (block11 AND 7) OR drop_bit 50 block12, drop_bit 33 block12 AND 131071,
       drop_bit 16 block12 AND 131071, push_bit 1 (block12 AND 65535) OR drop_bit 63 block13,
       drop_bit 46 block13 AND 131071, drop_bit 29 block13 AND 131071,
       drop_bit 12 block13 AND 131071, push_bit 5 (block13 AND 4095) OR drop_bit 59 block14,
       drop_bit 42 block14 AND 131071, drop_bit 25 block14 AND 131071,
       drop_bit 8 block14 AND 131071, push_bit 9 (block14 AND 255) OR drop_bit 55 block15,
       drop_bit 38 block15 AND 131071, drop_bit 21 block15 AND 131071,
       drop_bit 4 block15 AND 131071, push_bit 13 (block15 AND 15) OR drop_bit 51 block16,
       drop_bit 34 block16 AND 131071, drop_bit 17 block16 AND 131071, block16 AND 131071]
   }"

definition Packed17_DecodeUint64 :: "u64 list \<Rightarrow> u64 list \<Rightarrow> nat \<Rightarrow> u64 list option" where
  "Packed17_DecodeUint64 blocks values iterations =
     unrolled_loop 17 Packed17_DecodeUint64_body blocks iterations 0 0 values"

lemma Packed17_DecodeUint64_body: "decodes_block 17 17 64 Packed17_DecodeUint64_body"
  by (rule decodes_blockI) (simp_all add: Packed17_DecodeUint64_body_def unroll64)

lemma Packed17_DecodeUint64_eq: "NewPacked 17 = Some b \<Longrightarrow> Packed17_DecodeUint64 blocks values iterations = bp_DecodeUint64 b blocks values iterations"
  unfolding Packed17_DecodeUint64_def
  by (rule unrolled_eq_DecodeUint64 [OF Packed17_DecodeUint64_body]) (auto simp: NewPacked_eval)

subsection \<open>bulkoperationpacked18.go\<close>

definition Packed18_DecodeUint64_body :: "u64 list \<Rightarrow> u64 list option" where
  "Packed18_DecodeUint64_body blocks = do {
     block0 \<leftarrow> slice_get blocks 0; block1 \<leftarrow> slice_get blocks 1;
     block2 \<leftarrow> slice_get blocks 2; block3 \<leftarrow> slice_get blocks 3;
     block4 \<leftarrow> slice_get blocks 4; block5 \<leftarrow> slice_get blocks 5;
     block6 \<leftarrow> slice_get blocks 6; block7 \<leftarrow> slice_get blocks 7;
     block8 \<leftarrow> slice_get blocks 8;
     Some [
       drop_bit 46 block0, drop_bit 28 block0 AND 262143, drop_bit 10 block0 AND 262143,
       push_bit 8 (block0 AND 1023) OR drop_bit 56 block1, drop_bit 38 block1 AND 262143,
       drop_bit 20 block1 AND 262143, drop_bit 2 block1 AND 262143,
       push_bit 16 (block1 AND 3) OR drop_bit 48 block2, drop_bit 30 block2 AND 262143,
       drop_bit 12 block2 AND 262143, push_bit 6 (block2 AND 4095) OR drop_bit 58 block3,
       drop_bit 40 block3 AND 262143, drop_bit 22 block3 AND 262143, drop_bit 4 block3 AND 262143,
       push_bit 14 (block3 AND 15) OR drop_bit 50 block4, drop_bit 32 block4 AND 262143,
       drop_bit 14 block4 AND 262143, push_bit 4 (block4 AND 16383) OR drop_bit 60 block5,
       drop_bit 42 block5 AND 262143, drop_bit 24 block5 AND 262143, drop_bit 6 block5 AND 262143,
       push_bit 12 (block5 AND 63) OR drop_bit 52 block6, drop_bit 34 block6 AND 262143,
       drop_bit 16 block6 AND 262143, push_bit 2 (block6 AND 65535) OR drop_bit 62 block7,
       drop_bit 44 block7 AND 262143, drop_bit 26 block7 AND 262143, drop_bit 8 block7 AND 262143,
       push_bit 10 (block7 AND 255) OR drop_bit 54 block8, drop_bit 36 block8 AND 262143,
       drop_bit 18 block8 AND 262143, block8 AND 262143]
   }"

definition Packed18_DecodeUint64 :: "u64 list \<Rightarrow> u64 list \<Rightarrow> nat \<Rightarrow> u64 list option" where
  "Packed18_DecodeUint64 blocks values iterations =
     unrolled_loop 9 Packed18_DecodeUint64_body blocks iterations 0 0 values"

lemma Packed18_DecodeUint64_body: "decodes_block 18 9 32 Packed18_DecodeUint64_body"
  by (rule decodes_blockI) (simp_all add: Packed18_DecodeUint64_body_def unroll64)

lemma Packed18_DecodeUint64_eq: "NewPacked 18 = Some b \<Longrightarrow> Packed18_DecodeUint64 blocks values iterations = bp_DecodeUint64 b blocks values iterations"
  unfolding Packed18_DecodeUint64_def
  by (rule unrolled_eq_DecodeUint64 [OF Packed18_DecodeUint64_body]) (auto simp: NewPacked_eval)

subsection \<open>bulkoperationpacked19.go\<close>

definition Packed19_DecodeUint64_body :: "u64 list \<Rightarrow> u64 list option" where
  "Packed19_DecodeUint64_body blocks = do {
     block0 \<leftarrow> slice_get blocks 0; block1 \<leftarrow> slice_get blocks 1;
     block2 \<leftarrow> slice_get blocks 2; block3 \<leftarrow> slice_get blocks 3;
     block4 \<leftarrow> slice_get blocks 4; block5 \<leftarrow> slice_get blocks 5;
     block6 \<leftarrow> slice_get blocks 6; block7 \<leftarrow> slice_get blocks 7;
     block8 \<leftarrow> slice_get blocks 8; block9 \<leftarrow> slice_get blocks 9;
     block10 \<leftarrow> slice_get blocks 10; block11 \<leftarrow> slice_get blocks 11;
     block12 \<leftarrow> slice_get blocks 12; block13 \<leftarrow> slice_get blocks 13;
     block14 \<leftarrow> slice_get blocks 14; block15 \<leftarrow> slice_get blocks 15;
     block16 \<leftarrow> slice_get blocks 16; block17 \<leftarrow> slice_get blocks 17;
     block18 \<leftarrow> slice_get blocks 18;
     Some [
       drop_bit 45 block0, drop_bit 26 block0 AND 524287, drop_bit 7 block0 AND 524287,
       push_bit 12 (block0 AND 127) OR drop_bit 52 block1, drop_bit 33 block1 AND 524287,
       drop_bit 14 block1 AND 524287, push_bit 5 (block1 AND 16383) OR drop_bit 59 block2,
       drop_bit 40 block2 AND 524287, drop_bit 21 block2 AND 524287, drop_bit 2 block2 AND 524287,
       push_bit 17 (block2 AND 3) OR drop_bit 47 block3, drop_bit 28 block3 AND 524287,
       drop_bit 9 block3 AND 524287, push_bit 10 (block3 AND 511) OR drop_bit 54 block4,
       drop_bit 35 block4 AND 524287, drop_bit 16 block4 AND 524287,
       push_bit 3 (block4 AND 65535) OR drop_bit 61 block5, drop_bit 42 block5 AND 524287,
       drop_bit 23 block5 AND 524287, drop_bit 4 block5 AND 524287,
       push_bit 15 (block5 AND 15) OR drop_bit 49 block6, drop_bit 30 block6 AND 524287,
       drop_bit 11 block6 AND 524287, push_bit 8 (block6 AND 2047) OR drop_bit 56 block7,
       drop_bit 37 block7 AND 524287, drop_bit 18 block7 AND 524287,
       push_bit 1 (block7 AND 262143) OR drop_bit 63 block8, drop_bit 44 block8 AND 524287,
       drop_bit 25 block8 AND 524287, drop_bit 6 block8 AND 524287,
       push_bit 13 (block8 AND 63) OR drop_bit 51 block9, drop_bit 32 block9 AND 524287,
       drop_bit 13 block9 AND 524287, push_bit 6 (block9 AND 8191) OR drop_bit 58 block10,
       drop_bit 39 block10 AND 524287, drop_bit 20 block10 AND 524287,
       drop_bit 1 block10 AND 524287, push_bit 18 (block10 AND 1) OR drop_bit 46 block11,
       drop_bit 27 block11 AND 524287, drop_bit 8 block11 AND 524287,
       push_bit 11 (block11 AND 255) OR drop_bit 53 block12, drop_bit 34 block12 AND 524287,
       drop_bit 15 block12 AND 524287, push_bit 4 (block12 AND 32767) OR drop_bit 60 block13,
       drop_bit 41 block13 AND 524287, drop_bit 22 block13 AND 524287,
       drop_bit 3 block13 AND 524287, push_bit 16 (block13 AND 7) OR drop_bit 48 block14,
       drop_bit 29 block14 AND 524287, drop_bit 10 block14 AND 524287,
       push_bit 9 (block14 AND 1023) OR drop_bit 55 block15, drop_bit 36 block15 AND 524287,
       drop_bit 17 block15 AND 524287, push_bit 2 (block15 AND 131071) OR drop_bit 62 block16,
       drop_bit 43 block16 AND 524287, drop_bit 24 block16 AND 524287,
       drop_bit 5 block16 AND 524287, push_bit 14 (block16 AND 31) OR drop_bit 50 block17,
       drop_bit 31 block17 AND 524287, drop_bit 12 block17 AND 524287,
       push_bit 7 (block17 AND 4095) OR drop_bit 57 block18, drop_bit 38 block18 AND 524287,
       drop_bit 19 block18 AND 524287, block18 AND 524287]
   }"

definition Packed19_DecodeUint64 :: "u64 list \<Rightarrow> u64 list \<Rightarrow> nat \<Rightarrow> u64 list option" where
  "Packed19_DecodeUint64 blocks values iterations =
     unrolled_loop 19 Packed19_DecodeUint64_body blocks iterations 0 0 values"

lemma Packed19_DecodeUint64_body: "decodes_block 19 19 64 Packed19_DecodeUint64_body"
  by (rule decodes_blockI) (simp_all add: Packed19_DecodeUint64_body_def unroll64)

lemma Packed19_DecodeUint64_eq: "NewPacked 19 = Some b \<Longrightarrow> Packed19_DecodeUint64 blocks values iterations = bp_DecodeUint64 b blocks values iterations"
  unfolding Packed19_DecodeUint64_def
  by (rule unrolled_eq_DecodeUint64 [OF Packed19_DecodeUint64_body]) (auto simp: NewPacked_eval)

subsection \<open>bulkoperationpacked20.go\<close>

definition Packed20_DecodeUint64_body :: "u64 list \<Rightarrow> u64 list option" where
  "Packed20_DecodeUint64_body blocks = do {
     block0 \<leftarrow> slice_get blocks 0; block1 \<leftarrow> slice_get blocks 1;
     block2 \<leftarrow> slice_get blocks 2; block3 \<leftarrow> slice_get blocks 3;
     block4 \<leftarrow> slice_get blocks 4;
     Some [
       drop_bit 44 block0, drop_bit 24 block0 AND 1048575, drop_bit 4 block0 AND 1048575,
       push_bit 16 (block0 AND 15) OR drop_bit 48 block1, drop_bit 28 block1 AND 1048575,
       drop_bit 8 block1 AND 1048575, push_bit 12 (block1 AND 255) OR drop_bit 52 block2,
       drop_bit 32 block2 AND 1048575, drop_bit 12 block2 AND 1048575,
       push_bit 8 (block2 AND 4095) OR drop_bit 56 block3, drop_bit 36 block3 AND 1048575,
       drop_bit 16 block3 AND 1048575, push_bit 4 (block3 AND 65535) OR drop_bit 60 block4,
       drop_bit 40 block4 AND 1048575, drop_bit 20 block4 AND 1048575, block4 AND 1048575]
   }"

definition Packed20_DecodeUint64 :: "u64 list \<Rightarrow> u64 list \<Rightarrow> nat \<Rightarrow> u64 list option" where
  "Packed20_DecodeUint64 blocks values iterations =
     unrolled_loop 5 Packed20_DecodeUint64_body blocks iterations 0 0 values"

lemma Packed20_DecodeUint64_body: "decodes_block 20 5 16 Packed20_DecodeUint64_body"
  by (rule decodes_blockI) (simp_all add: Packed20_DecodeUint64_body_def unroll64)

lemma Packed20_DecodeUint64_eq: "NewPacked 20 = Some b \<Longrightarrow> Packed20_DecodeUint64 blocks values iterations = bp_DecodeUint64 b blocks values iterations"
  unfolding Packed20_DecodeUint64_def
  by (rule unrolled_eq_DecodeUint64 [OF Packed20_DecodeUint64_body]) (auto simp: NewPacked_eval)

subsection \<open>bulkoperationpacked21.go\<close>

definition Packed21_DecodeUint64_body :: "u64 list \<Rightarrow> u64 list option" where
  "Packed21_DecodeUint64_body blocks = do {
     block0 \<leftarrow> slice_get blocks 0; block1 \<leftarrow> slice_get blocks 1;
     block2 \<leftarrow> slice_get blocks 2; block3 \<leftarrow> slice_get blocks 3;
     block4 \<leftarrow> slice_get blocks 4; block5 \<leftarrow> slice_get blocks 5;
     block6 \<leftarrow> slice_get blocks 6; block7 \<leftarrow> slice_get blocks 7;
     block8 \<leftarrow> slice_get blocks 8; block9 \<leftarrow> slice_get blocks 9;
     block10 \<leftarrow> slice_get blocks 10; block11 \<leftarrow> slice_get blocks 11;
     block12 \<leftarrow> slice_get blocks 12; block13 \<leftarrow> slice_get blocks 13;
     block14 \<leftarrow> slice_get blocks 14; block15 \<leftarrow> slice_get blocks 15;
     block16 \<leftarrow> slice_get blocks 16; block17 \<leftarrow> slice_get blocks 17;
     block18 \<leftarrow> slice_get blocks 18; block19 \<leftarrow> slice_get blocks 19;
     block20 \<leftarrow> slice_get blocks 20;
     Some [
       drop_bit 43 block0, drop_bit 22 block0 AND 2097151, drop_bit 1 block0 AND 2097151,
       push_bit 20 (block0 AND 1) OR drop_bit 44 block1, drop_bit 23 block1 AND 2097151,
       drop_bit 2 block1 AND 2097151, push_bit 19 (block1 AND 3) OR drop_bit 45 block2,
       drop_bit 24 block2 AND 2097151, drop_bit 3 block2 AND 2097151,
       push_bit 18 (block2 AND 7) OR drop_bit 46 block3, drop_bit 25 block3 AND 2097151,
       drop_bit 4 block3 AND 2097151, push_bit 17 (block3 AND 15) OR drop_bit 47 block4,
       drop_bit 26 block4 AND 2097151, drop_bit 5 block4 AND 2097151,
       push_bit 16 (block4 AND 31) OR drop_bit 48 block5, drop_bit 27 block5 AND 2097151,
       drop_bit 6 block5 AND 2097151, push_bit 15 (block5 AND 63) OR drop_bit 49 block6,
       drop_bit 28 block6 AND 2097151, drop_bit 7 block6 AND 2097151,
       push_bit 14 (block6 AND 127) OR drop_bit 50 block7, drop_bit 29 block7 AND 2097151,
       drop_bit 8 block7 AND 2097151, push_bit 13 (block7 AND 255) OR drop_bit 51 block8,
       drop_bit 30 block8 AND 2097151, drop_bit 9 block8 AND 2097151,
       push_bit 12 (block8 AND 511) OR drop_bit 52 block9, drop_bit 31 block9 AND 2097151,
       drop_bit 10 block9 AND 2097151, push_bit 11 (block9 AND 1023) OR drop_bit 53 block10,
       drop_bit 32 block10 AND 2097151, drop_bit 11 block10 AND 2097151,
       push_bit 10 (block10 AND 2047) OR drop_bit 54 block11, drop_bit 33 block11 AND 2097151,
       drop_bit 12 block11 AND 2097151, push_bit 9 (block11 AND 4095) OR drop_bit 55 block12,
       drop_bit 34 block12 AND 2097151, drop_bit 13 block12 AND 2097151,
       push_bit 8 (block12 AND 8191) OR drop_bit 56 block13, drop_bit 35 block13 AND 2097151,
       drop_bit 14 block13 AND 2097151, push_bit 7 (block13 AND 16383) OR drop_bit 57 block14,
       drop_bit 36 block14 AND 2097151, drop_bit 15 block14 AND 2097151,
       push_bit 6 (block14 AND 32767) OR drop_bit 58 block15, drop_bit 37 block15 AND 2097151,
       drop_bit 16 block15 AND 2097151, push_bit 5 (block15 AND 65535) OR drop_bit 59 block16,
       drop_bit 38 block16 AND 2097151, drop_bit 17 block16 AND 2097151,
       push_bit 4 (block16 AND 131071) OR drop_bit 60 block17, drop_bit 39 block17 AND 2097151,
       drop_bit 18 block17 AND 2097151, push_bit 3 (block17 AND 262143) OR drop_bit 61 block18,
       drop_bit 40 block18 AND 2097151, drop_bit 19 block18 AND 2097151,
       push_bit 2 (block18 AND 524287) OR drop_bit 62 block19, drop_bit 41 block19 AND 2097151,
       drop_bit 20 block19 AND 2097151, push_bit 1 (block19 AND 1048575) OR drop_bit 63 block20,
       drop_bit 42 block20 AND 2097151, drop_bit 21 block20 AND 2097151, block20 AND 2097151]
   }"

definition Packed21_DecodeUint64 :: "u64 list \<Rightarrow> u64 list \<Rightarrow> nat \<Rightarrow> u64 list option" where
  "Packed21_DecodeUint64 blocks values iterations =
     unrolled_loop 21 Packed21_DecodeUint64_body blocks iterations 0 0 values"

lemma Packed21_DecodeUint64_body: "decodes_block 21 21 64 Packed21_DecodeUint64_body"
  by (rule decodes_blockI) (simp_all add: Packed21_DecodeUint64_body_def unroll64)

lemma Packed21_DecodeUint64_eq: "NewPacked 21 = Some b \<Longrightarrow> Packed21_DecodeUint64 blocks values iterations = bp_DecodeUint64 b blocks values iterations"
  unfolding Packed21_DecodeUint64_def
  by (rule unrolled_eq_DecodeUint64 [OF Packed21_DecodeUint64_body]) (auto simp: NewPacked_eval)

subsection \<open>bulkoperationpacked22.go\<close>

definition Packed22_DecodeUint64_body :: "u64 list \<Rightarrow> u64 list option" where
  "Packed22_DecodeUint64_body blocks = do {
     block0 \<leftarrow> slice_get blocks 0; block1 \<leftarrow> slice_get blocks 1;
     block2 \<leftarrow> slice_get blocks 2; block3 \<leftarrow> slice_get blocks 3;
     block4 \<leftarrow> slice_get blocks 4; block5 \<leftarrow> slice_get blocks 5;
     block6 \<leftarrow> slice_get blocks 6; block7 \<leftarrow> slice_get blocks 7;
     block8 \<leftarrow> slice_get blocks 8; block9 \<leftarrow> slice_get blocks 9;
     block10 \<leftarrow> slice_get blocks 10;
     Some [
       drop_bit 42 block0, drop_bit 20 block0 AND 4194303,
       push_bit 2 (block0 AND 1048575) OR drop_bit 62 block1, drop_bit 40 block1 AND 4194303,
       drop_bit 18 block1 AND 4194303, push_bit 4 (block1 AND 262143) OR drop_bit 60 block2,
       drop_bit 38 block2 AND 4194303, drop_bit 16 block2 AND 4194303,
       push_bit 6 (block2 AND 65535) OR drop_bit 58 block3, drop_bit 36 block3 AND 4194303,
       drop_bit 14 block3 AND 4194303, push_bit 8 (block3 AND 16383) OR drop_bit 56 block4,
       drop_bit 34 block4 AND 4194303, drop_bit 12 block4 AND 4194303,
       push_bit 10 (block4 AND 4095) OR drop_bit 54 block5, drop_bit 32 block5 AND 4194303,
       drop_bit 10 block5 AND 4194303, push_bit 12 (block5 AND 1023) OR drop_bit 52 block6,
       drop_bit 30 block6 AND 4194303, drop_bit 8 block6 AND 4194303,
       push_bit 14 (block6 AND 255) OR drop_bit 50 block7, drop_bit 28 block7 AND 4194303,
       drop_bit 6 block7 AND 4194303, push_bit 16 (block7 AND 63) OR drop_bit 48 block8,
       drop_bit 26 block8 AND 4194303, drop_bit 4 block8 AND 4194303,
       push_bit 18 (block8 AND 15) OR drop_bit 46 block9, drop_bit 24 block9 AND 4194303,
       drop_bit 2 block9 AND 4194303, push_bit 20 (block9 AND 3) OR drop_bit 44 block10,
       drop_bit 22 block10 AND 4194303, block10 AND 4194303]
   }"

definition Packed22_DecodeUint64 :: "u64 list \<Rightarrow> u64 list \<Rightarrow> nat \<Rightarrow> u64 list option" where
  "Packed22_DecodeUint64 blocks values iterations =
     unrolled_loop 11 Packed22_DecodeUint64_body blocks iterations 0 0 values"

lemma Packed22_DecodeUint64_body: "decodes_block 22 11 32 Packed22_DecodeUint64_body"
  by (rule decodes_blockI) (simp_all add: Packed22_DecodeUint64_body_def unroll64)

lemma Packed22_DecodeUint64_eq: "NewPacked 22 = Some b \<Longrightarrow> Packed22_DecodeUint64 blocks values iterations = bp_DecodeUint64 b blocks values iterations"
  unfolding Packed22_DecodeUint64_def
  by (rule unrolled_eq_DecodeUint64 [OF Packed22_DecodeUint64_body]) (auto simp: NewPacked_eval)

subsection \<open>bulkoperationpacked23.go\<close>

definition Packed23_DecodeUint64_body :: "u64 list \<Rightarrow> u64 list option" where
  "Packed23_DecodeUint64_body blocks = do {
     block0 \<leftarrow> slice_get blocks 0; block1 \<leftarrow> slice_get blocks 1;
     block2 \<leftarrow> slice_get blocks 2; block3 \<leftarrow> slice_get blocks 3;
     block4 \<leftarrow> slice_get blocks 4; block5 \<leftarrow> slice_get blocks 5;
     block6 \<leftarrow> slice_get blocks 6; block7 \<leftarrow> slice_get blocks 7;
     block8 \<leftarrow> slice_get blocks 8; block9 \<leftarrow> slice_get blocks 9;
     block10 \<leftarrow> slice_get blocks 10; block11 \<leftarrow> slice_get blocks 11;
     block12 \<leftarrow> slice_get blocks 12; block13 \<leftarrow> slice_get blocks 13;
     block14 \<leftarrow> slice_get blocks 14; block15 \<leftarrow> slice_get blocks 15;
     block16 \<leftarrow> slice_get blocks 16; block17 \<leftarrow> slice_get blocks 17;
     block18 \<leftarrow> slice_get blocks 18; block19 \<leftarrow> slice_get blocks 19;
     block20 \<leftarrow> slice_get blocks 20; block21 \<leftarrow> slice_get blocks 21;
     block22 \<leftarrow> slice_get blocks 22;
     Some [
       drop_bit 41 block0, drop_bit 18 block0 AND 8388607,
       push_bit 5 (block0 AND 262143) OR drop_bit 59 block1, drop_bit 36 block1 AND 8388607,
       drop_bit 13 block1 AND 8388607, push_bit 10 (block1 AND 8191) OR drop_bit 54 block2,
       drop_bit 31 block2 AND 8388607, drop_bit 8 block2 AND 8388607,
       push_bit 15 (block2 AND 255) OR drop_bit 49 block3, drop_bit 26 block3 AND 8388607,
       drop_bit 3 block3 AND 8388607, push_bit 20 (block3 AND 7) OR drop_bit 44 block4,
       drop_bit 21 block4 AND 8388607, push_bit 2 (block4 AND 2097151) OR drop_bit 62 block5,
       drop_bit 39 block5 AND 8388607, drop_bit 16 block5 AND 8388607,
       push_bit 7 (block5 AND 65535) OR drop_bit 57 block6, drop_bit 34 block6 AND 8388607,
       drop_bit 11 block6 AND 8388607, push_bit 12 (block6 AND 2047) OR drop_bit 52 block7,
       drop_bit 29 block7 AND 8388607, drop_bit 6 block7 AND 8388607,
       push_bit 17 (block7 AND 63) OR drop_bit 47 block8, drop_bit 24 block8 AND 8388607,
       drop_bit 1 block8 AND 8388607, push_bit 22 (block8 AND 1) OR drop_bit 42 block9,
       drop_bit 19 block9 AND 8388607, push_bit 4 (block9 AND 524287) OR drop_bit 60 block10,
       drop_bit 37 block10 AND 8388607, drop_bit 14 block10 AND 8388607,
       push_bit 9 (block10 AND 16383) OR drop_bit 55 block11, drop_bit 32 block11 AND 8388607,
       drop_bit 9 block11 AND 8388607, push_bit 14 (block11 AND 511) OR drop_bit 50 block12,
       drop_bit 27 block12 AND 8388607, drop_bit 4 block12 AND 8388607,
       push_bit 19 (block12 AND 15) OR drop_bit 45 block13, drop_bit 22 block13 AND 8388607,
       push_bit 1 (block13 AND 4194303) OR drop_bit 63 block14, drop_bit 40 block14 AND 8388607,
       drop_bit 17 block14 AND 8388607, push_bit 6 (block14 AND 131071) OR drop_bit 58 block15,
       drop_bit 35 block15 AND 8388607, drop_bit 12 block15 AND 8388607,
       push_bit 11 (block15 AND 4095) OR drop_bit 53 block16, drop_bit 30 block16 AND 8388607,
       drop_bit 7 block16 AND 8388607, push_bit 16 (block16 AND 127) OR drop_bit 48 block17,
       drop_bit 25 block17 AND 8388607, drop_bit 2 block17 AND 8388607,
       push_bit 21 (block17 AND 3) OR drop_bit 43 block18, drop_bit 20 block18 AND 8388607,
       push_bit 3 (block18 AND 1048575) OR drop_bit 61 block19, drop_bit 38 block19 AND 8388607,
       drop_bit 15 block19 AND 8388607, push_bit 8 (block19 AND 32767) OR drop_bit 56 block20,
       drop_bit 33 block20 AND 8388607, drop_bit 10 block20 AND 8388607,
       push_bit 13 (block20 AND 1023) OR drop_bit 51 block21, drop_bit 28 block21 AND 8388607,
       drop_bit 5 block21 AND 8388607, push_bit 18 (block21 AND 31) OR drop_bit 46 block22,
       drop_bit 23 block22 AND 8388607, block22 AND 8388607]
   }"

definition Packed23_DecodeUint64 :: "u64 list \<Rightarrow> u64 list \<Rightarrow> nat \<Rightarrow> u64 list option" where
  "Packed23_DecodeUint64 blocks values iterations =
     unrolled_loop 23 Packed23_DecodeUint64_body blocks iterations 0 0 values"

lemma Packed23_DecodeUint64_body: "decodes_block 23 23 64 Packed23_DecodeUint64_body"
  by (rule decodes_blockI) (simp_all add: Packed23_DecodeUint64_body_def unroll64)

lemma Packed23_DecodeUint64_eq: "NewPacked 23 = Some b \<Longrightarrow> Packed23_DecodeUint64 blocks values iterations = bp_DecodeUint64 b blocks values iterations"
  unfolding Packed23_DecodeUint64_def
  by (rule unrolled_eq_DecodeUint64 [OF Packed23_DecodeUint64_body]) (auto simp: NewPacked_eval)

subsection \<open>bulkoperationpacked24.go\<close>

definition Packed24_DecodeUint64_body :: "u64 list \<Rightarrow> u64 list option" where
  "Packed24_DecodeUint64_body blocks = do {
     block0 \<leftarrow> slice_get blocks 0; block1 \<leftarrow> slice_get blocks 1;
     block2 \<leftarrow> slice_get blocks 2;
     Some [
       drop_bit 40 block0, drop_bit 16 block0 AND 16777215,
       push_bit 8 (block0 AND 65535) OR drop_bit 56 block1, drop_bit 32 block1 AND 16777215,
       drop_bit 8 block1 AND 16777215, push_bit 16 (block1 AND 255) OR drop_bit 48 block2,
       drop_bit 24 block2 AND 16777215, block2 AND 16777215]
   }"

definition Packed24_DecodeUint64 :: "u64 list \<Rightarrow> u64 list \<Rightarrow> nat \<Rightarrow> u64 list option" where
  "Packed24_DecodeUint64 blocks values iterations =
     unrolled_loop 3 Packed24_DecodeUint64_body blocks iterations 0 0 values"

lemma Packed24_DecodeUint64_body: "decodes_block 24 3 8 Packed24_DecodeUint64_body"
  by (rule decodes_blockI) (simp_all add: Packed24_DecodeUint64_body_def unroll64)

lemma Packed24_DecodeUint64_eq: "NewPacked 24 = Some b \<Longrightarrow> Packed24_DecodeUint64 blocks values iterations = bp_DecodeUint64 b blocks values iterations"
  unfolding Packed24_DecodeUint64_def
  by (rule unrolled_eq_DecodeUint64 [OF Packed24_DecodeUint64_body]) (auto simp: NewPacked_eval)

end
