(* ===== verification/Bulk_Unrolled_Bytes.thy ===== *)
theory Bulk_Unrolled_Bytes
  imports Bulk_Unrolled
begin

text \<open>
  The method DecodeBytes of Packed1, ..., Packed24: the decoders over bytes, expression by
  expression. Each \<open>_body\<close> is one iteration of the source's loop: the reads at
  \<open>blocksOffset\<close>, \<open>blocksOffset + 1\<close>, ... under the source's names and the values in the order
  they are stored. Each is shown to decode the bit stream of theory Bit_Stream.
\<close>

subsection \<open>bulkoperationpacked1.go\<close>

definition Packed1_DecodeBytes_body :: "u8 list \<Rightarrow> u64 list option" where
  "Packed1_DecodeBytes_body blocks = do {
     block \<leftarrow> slice_get_u64 blocks 0;
     Some [
       drop_bit 7 block AND 1, drop_bit 6 block AND 1, drop_bit 5 block AND 1,
       drop_bit 4 block AND 1, drop_bit 3 block AND 1, drop_bit 2 block AND 1,
       drop_bit 1 block AND 1, block AND 1]
   }"

definition Packed1_DecodeBytes :: "u8 list \<Rightarrow> u64 list \<Rightarrow> nat \<Rightarrow> u64 list option" where
  "Packed1_DecodeBytes blocks values iterations =
     unrolled_loop 1 Packed1_DecodeBytes_body blocks iterations 0 0 values"

lemma Packed1_DecodeBytes_body: "decodes_block 1 1 8 Packed1_DecodeBytes_body"
  by (rule decodes_blockI) (simp_all add: Packed1_DecodeBytes_body_def unroll8_masked)

lemma Packed1_DecodeBytes_eq: "NewPacked 1 = Some b \<Longrightarrow> Packed1_DecodeBytes blocks values iterations = bp_DecodeBytes b blocks values iterations"
  unfolding Packed1_DecodeBytes_def
  by (rule unrolled_eq_DecodeBytes [OF Packed1_DecodeBytes_body]) (auto simp: NewPacked_eval)

subsection \<open>bulkoperationpacked2.go\<close>

definition Packed2_DecodeBytes_body :: "u8 list \<Rightarrow> u64 list option" where
  "Packed2_DecodeBytes_body blocks = do {
     block \<leftarrow> slice_get_u64 blocks 0;
     Some [
       drop_bit 6 block AND 3, drop_bit 4 block AND 3, drop_bit 2 block AND 3, block AND 3]
   }"

definition Packed2_DecodeBytes :: "u8 list \<Rightarrow> u64 list \<Rightarrow> nat \<Rightarrow> u64 list option" where
  "Packed2_DecodeBytes blocks values iterations =
     unrolled_loop 1 Packed2_DecodeBytes_body blocks iterations 0 0 values"

lemma Packed2_DecodeBytes_body: "decodes_block 2 1 4 Packed2_DecodeBytes_body"
  by (rule decodes_blockI) (simp_all add: Packed2_DecodeBytes_body_def unroll8_masked)

lemma Packed2_DecodeBytes_eq: "NewPacked 2 = Some b \<Longrightarrow> Packed2_DecodeBytes blocks values iterations = bp_DecodeBytes b blocks values iterations"
  unfolding Packed2_DecodeBytes_def
  by (rule unrolled_eq_DecodeBytes [OF Packed2_DecodeBytes_body]) (auto simp: NewPacked_eval)

subsection \<open>bulkoperationpacked3.go\<close>

definition Packed3_DecodeBytes_body :: "u8 list \<Rightarrow> u64 list option" where
  "Packed3_DecodeBytes_body blocks = do {
     byte0 \<leftarrow> slice_get_u64 blocks 0; byte1 \<leftarrow> slice_get_u64 blocks 1;
     byte2 \<leftarrow> slice_get_u64 blocks 2;
     Some [
       drop_bit 5 byte0, drop_bit 2 byte0 AND 7, push_bit 1 (byte0 AND 3) OR drop_bit 7 byte1,
       drop_bit 4 byte1 AND 7, drop_bit 1 byte1 AND 7,
       push_bit 2 (byte1 AND 1) OR drop_bit 6 byte2, drop_bit 3 byte2 AND 7, byte2 AND 7]
   }"

definition Packed3_DecodeBytes :: "u8 list \<Rightarrow> u64 list \<Rightarrow> nat \<Rightarrow> u64 list option" where
  "Packed3_DecodeBytes blocks values iterations =
     unrolled_loop 3 Packed3_DecodeBytes_body blocks iterations 0 0 values"

lemma Packed3_DecodeBytes_body: "decodes_block 3 3 8 Packed3_DecodeBytes_body"
  by (rule decodes_blockI) (simp_all add: Packed3_DecodeBytes_body_def unroll8)

lemma Packed3_DecodeBytes_eq: "NewPacked 3 = Some b \<Longrightarrow> Packed3_DecodeBytes blocks values iterations = bp_DecodeBytes b blocks values iterations"
  unfolding Packed3_DecodeBytes_def
  by (rule unrolled_eq_DecodeBytes [OF Packed3_DecodeBytes_body]) (auto simp: NewPacked_eval)

subsection \<open>bulkoperationpacked4.go\<close>

definition Packed4_DecodeBytes_body :: "u8 list \<Rightarrow> u64 list option" where
  "Packed4_DecodeBytes_body blocks = do {
     block \<leftarrow> slice_get_u64 blocks 0;
     Some [
       drop_bit 4 block AND 15, block AND 15]
   }"

definition Packed4_DecodeBytes :: "u8 list \<Rightarrow> u64 list \<Rightarrow> nat \<Rightarrow> u64 list option" where
  "Packed4_DecodeBytes blocks values iterations =
     unrolled_loop 1 Packed4_DecodeBytes_body blocks iterations 0 0 values"

lemma Packed4_DecodeBytes_body: "decodes_block 4 1 2 Packed4_DecodeBytes_body"
  by (rule decodes_blockI) (simp_all add: Packed4_DecodeBytes_body_def unroll8_masked)

lemma Packed4_DecodeBytes_eq: "NewPacked 4 = Some b \<Longrightarrow> Packed4_DecodeBytes blocks values iterations = bp_DecodeBytes b blocks values iterations"
  unfolding Packed4_DecodeBytes_def
  by (rule unrolled_eq_DecodeBytes [OF Packed4_DecodeBytes_body]) (auto simp: NewPacked_eval)

subsection \<open>bulkoperationpacked5.go\<close>

definition Packed5_DecodeBytes_body :: "u8 list \<Rightarrow> u64 list option" where
  "Packed5_DecodeBytes_body blocks = do {
     byte0 \<leftarrow> slice_get_u64 blocks 0; byte1 \<leftarrow> slice_get_u64 blocks 1;
     byte2 \<leftarrow> slice_get_u64 blocks 2; byte3 \<leftarrow> slice_get_u64 blocks 3;
     byte4 \<leftarrow> slice_get_u64 blocks 4;
     Some [
       drop_bit 3 byte0, push_bit 2 (byte0 AND 7) OR drop_bit 6 byte1, drop_bit 1 byte1 AND 31,
       push_bit 4 (byte1 AND 1) OR drop_bit 4 byte2, push_bit 1 (byte2 AND 15) OR drop_bit 7 byte3,
       drop_bit 2 byte3 AND 31, push_bit 3 (byte3 AND 3) OR drop_bit 5 byte4, byte4 AND 31]
   }"

definition Packed5_DecodeBytes :: "u8 list \<Rightarrow> u64 list \<Rightarrow> nat \<Rightarrow> u64 list option" where
  "Packed5_DecodeBytes blocks values iterations =
     unrolled_loop 5 Packed5_DecodeBytes_body blocks iterations 0 0 values"

lemma Packed5_DecodeBytes_body: "decodes_block 5 5 8 Packed5_DecodeBytes_body"
  by (rule decodes_blockI) (simp_all add: Packed5_DecodeBytes_body_def unroll8)

lemma Packed5_DecodeBytes_eq: "NewPacked 5 = Some b \<Longrightarrow> Packed5_DecodeBytes blocks values iterations = bp_DecodeBytes b blocks values iterations"
  unfolding Packed5_DecodeBytes_def
  by (rule unrolled_eq_DecodeBytes [OF Packed5_DecodeBytes_body]) (auto simp: NewPacked_eval)

subsection \<open>bulkoperationpacked6.go\<close>

definition Packed6_DecodeBytes_body :: "u8 list \<Rightarrow> u64 list option" where
  "Packed6_DecodeBytes_body blocks = do {
     byte0 \<leftarrow> slice_get_u64 blocks 0; byte1 \<leftarrow> slice_get_u64 blocks 1;
     byte2 \<leftarrow> slice_get_u64 blocks 2;
     Some [
       drop_bit 2 byte0, push_bit 4 (byte0 AND 3) OR drop_bit 4 byte1,
       push_bit 2 (byte1 AND 15) OR drop_bit 6 byte2, byte2 AND 63]
   }"

definition Packed6_DecodeBytes :: "u8 list \<Rightarrow> u64 list \<Rightarrow> nat \<Rightarrow> u64 list option" where
  "Packed6_DecodeBytes blocks values iterations =
     unrolled_loop 3 Packed6_DecodeBytes_body blocks iterations 0 0 values"

lemma Packed6_DecodeBytes_body: "decodes_block 6 3 4 Packed6_DecodeBytes_body"
  by (rule decodes_blockI) (simp_all add: Packed6_DecodeBytes_body_def unroll8)

lemma Packed6_DecodeBytes_eq: "NewPacked 6 = Some b \<Longrightarrow> Packed6_DecodeBytes blocks values iterations = bp_DecodeBytes b blocks values iterations"
  unfolding Packed6_DecodeBytes_def
  by (rule unrolled_eq_DecodeBytes [OF Packed6_DecodeBytes_body]) (auto simp: NewPacked_eval)

subsection \<open>bulkoperationpacked7.go\<close>

definition Packed7_DecodeBytes_body :: "u8 list \<Rightarrow> u64 list option" where
  "Packed7_DecodeBytes_body blocks = do {
     byte0 \<leftarrow> slice_get_u64 blocks 0; byte1 \<leftarrow> slice_get_u64 blocks 1;
     byte2 \<leftarrow> slice_get_u64 blocks 2; byte3 \<leftarrow> slice_get_u64 blocks 3;
     byte4 \<leftarrow> slice_get_u64 blocks 4; byte5 \<leftarrow> slice_get_u64 blocks 5;
     byte6 \<leftarrow> slice_get_u64 blocks 6;
     Some [
       drop_bit 1 byte0, push_bit 6 (byte0 AND 1) OR drop_bit 2 byte1,
       push_bit 5 (byte1 AND 3) OR drop_bit 3 byte2, push_bit 4 (byte2 AND 7) OR drop_bit 4 byte3,
       push_bit 3 (byte3 AND 15) OR drop_bit 5 byte4,
       push_bit 2 (byte4 AND 31) OR drop_bit 6 byte5,
       push_bit 1 (byte5 AND 63) OR drop_bit 7 byte6, byte6 AND 127]
   }"

definition Packed7_DecodeBytes :: "u8 list \<Rightarrow> u64 list \<Rightarrow> nat \<Rightarrow> u64 list option" where
  "Packed7_DecodeBytes blocks values iterations =
     unrolled_loop 7 Packed7_DecodeBytes_body blocks iterations 0 0 values"

lemma Packed7_DecodeBytes_body: "decodes_block 7 7 8 Packed7_DecodeBytes_body"
  by (rule decodes_blockI) (simp_all add: Packed7_DecodeBytes_body_def unroll8)

lemma Packed7_DecodeBytes_eq: "NewPacked 7 = Some b \<Longrightarrow> Packed7_DecodeBytes blocks values iterations = bp_DecodeBytes b blocks values iterations"
  unfolding Packed7_DecodeBytes_def
  by (rule unrolled_eq_DecodeBytes [OF Packed7_DecodeBytes_body]) (auto simp: NewPacked_eval)

subsection \<open>bulkoperationpacked8.go\<close>

definition Packed8_DecodeBytes_body :: "u8 list \<Rightarrow> u64 list option" where
  "Packed8_DecodeBytes_body blocks = do {
     block \<leftarrow> slice_get_u64 blocks 0;
     Some [
       block]
   }"

definition Packed8_DecodeBytes :: "u8 list \<Rightarrow> u64 list \<Rightarrow> nat \<Rightarrow> u64 list option" where
  "Packed8_DecodeBytes blocks values iterations =
     unrolled_loop 1 Packed8_DecodeBytes_body blocks iterations 0 0 values"

lemma Packed8_DecodeBytes_body: "decodes_block 8 1 1 Packed8_DecodeBytes_body"
  by (rule decodes_blockI) (simp_all add: Packed8_DecodeBytes_body_def unroll8)

lemma Packed8_DecodeBytes_eq: "NewPacked 8 = Some b \<Longrightarrow> Packed8_DecodeBytes blocks values iterations = bp_DecodeBytes b blocks values iterations"
  unfolding Packed8_DecodeBytes_def
  by (rule unrolled_eq_DecodeBytes [OF Packed8_DecodeBytes_body]) (auto simp: NewPacked_eval)

subsection \<open>bulkoperationpacked9.go\<close>

definition Packed9_DecodeBytes_body :: "u8 list \<Rightarrow> u64 list option" where
  "Packed9_DecodeBytes_body blocks = do {
     byte0 \<leftarrow> slice_get_u64 blocks 0; byte1 \<leftarrow> slice_get_u64 blocks 1;
     byte2 \<leftarrow> slice_get_u64 blocks 2; byte3 \<leftarrow> slice_get_u64 blocks 3;
     byte4 \<leftarrow> slice_get_u64 blocks 4; byte5 \<leftarrow> slice_get_u64 blocks 5;
     byte6 \<leftarrow> slice_get_u64 blocks 6; byte7 \<leftarrow> slice_get_u64 blocks 7;
     byte8 \<leftarrow> slice_get_u64 blocks 8;
     Some [
       push_bit 1 byte0 OR drop_bit 7 byte1, push_bit 2 (byte1 AND 127) OR drop_bit 6 byte2,
       push_bit 3 (byte2 AND 63) OR drop_bit 5 byte3,
       push_bit 4 (byte3 AND 31) OR drop_bit 4 byte4,
       push_bit 5 (byte4 AND 15) OR drop_bit 3 byte5, push_bit 6 (byte5 AND 7) OR drop_bit 2 byte6,
       push_bit 7 (byte6 AND 3) OR drop_bit 1 byte7, push_bit 8 (byte7 AND 1) OR byte8]
   }"

definition Packed9_DecodeBytes :: "u8 list \<Rightarrow> u64 list \<Rightarrow> nat \<Rightarrow> u64 list option" where
  "Packed9_DecodeBytes blocks values iterations =
     unrolled_loop 9 Packed9_DecodeBytes_body blocks iterations 0 0 values"

lemma Packed9_DecodeBytes_body: "decodes_block 9 9 8 Packed9_DecodeBytes_body"
  by (rule decodes_blockI) (simp_all add: Packed9_DecodeBytes_body_def unroll8)

lemma Packed9_DecodeBytes_eq: "NewPacked 9 = Some b \<Longrightarrow> Packed9_DecodeBytes blocks values iterations = bp_DecodeBytes b blocks values iterations"
  unfolding Packed9_DecodeBytes_def
  by (rule unrolled_eq_DecodeBytes [OF Packed9_DecodeBytes_body]) (auto simp: NewPacked_eval)

subsection \<open>bulkoperationpacked10.go\<close>

definition Packed10_DecodeBytes_body :: "u8 list \<Rightarrow> u64 list option" where
  "Packed10_DecodeBytes_body blocks = do {
     byte0 \<leftarrow> slice_get_u64 blocks 0; byte1 \<leftarrow> slice_get_u64 blocks 1;
     byte2 \<leftarrow> slice_get_u64 blocks 2; byte3 \<leftarrow> slice_get_u64 blocks 3;
     byte4 \<leftarrow> slice_get_u64 blocks 4;
     Some [
       push_bit 2 byte0 OR drop_bit 6 byte1, push_bit 4 (byte1 AND 63) OR drop_bit 4 byte2,
       push_bit 6 (byte2 AND 15) OR drop_bit 2 byte3, push_bit 8 (byte3 AND 3) OR byte4]
   }"

definition Packed10_DecodeBytes :: "u8 list \<Rightarrow> u64 list \<Rightarrow> nat \<Rightarrow> u64 list option" where
  "Packed10_DecodeBytes blocks values iterations =
     unrolled_loop 5 Packed10_DecodeBytes_body blocks iterations 0 0 values"

lemma Packed10_DecodeBytes_body: "decodes_block 10 5 4 Packed10_DecodeBytes_body"
  by (rule decodes_blockI) (simp_all add: Packed10_DecodeBytes_body_def unroll8)

lemma Packed10_DecodeBytes_eq: "NewPacked 10 = Some b \<Longrightarrow> Packed10_DecodeBytes blocks values iterations = bp_DecodeBytes b blocks values iterations"
  unfolding Packed10_DecodeBytes_def
  by (rule unrolled_eq_DecodeBytes [OF Packed10_DecodeBytes_body]) (auto simp: NewPacked_eval)

subsection \<open>bulkoperationpacked11.go\<close>

definition Packed11_DecodeBytes_body :: "u8 list \<Rightarrow> u64 list option" where
  "Packed11_DecodeBytes_body blocks = do {
     byte0 \<leftarrow> slice_get_u64 blocks 0; byte1 \<leftarrow> slice_get_u64 blocks 1;
     byte2 \<leftarrow> slice_get_u64 blocks 2; byte3 \<leftarrow> slice_get_u64 blocks 3;
     byte4 \<leftarrow> slice_get_u64 blocks 4; byte5 \<leftarrow> slice_get_u64 blocks 5;
     byte6 \<leftarrow> slice_get_u64 blocks 6; byte7 \<leftarrow> slice_get_u64 blocks 7;
     byte8 \<leftarrow> slice_get_u64 blocks 8; byte9 \<leftarrow> slice_get_u64 blocks 9;
     byte10 \<leftarrow> slice_get_u64 blocks 10;
     Some [
       push_bit 3 byte0 OR drop_bit 5 byte1, push_bit 6 (byte1 AND 31) OR drop_bit 2 byte2,
       push_bit 9 (byte2 AND 3) OR push_bit 1 byte3 OR drop_bit 7 byte4,
       push_bit 4 (byte4 AND 127) OR drop_bit 4 byte5,
       push_bit 7 (byte5 AND 15) OR drop_bit 1 byte6,
       push_bit 10 (byte6 AND 1) OR push_bit 2 byte7 OR drop_bit 6 byte8,
       push_bit 5 (byte8 AND 63) OR drop_bit 3 byte9, push_bit 8 (byte9 AND 7) OR byte10]
   }"

definition Packed11_DecodeBytes :: "u8 list \<Rightarrow> u64 list \<Rightarrow> nat \<Rightarrow> u64 list option" where
  "Packed11_DecodeBytes blocks values iterations =
     unrolled_loop 11 Packed11_DecodeBytes_body blocks iterations 0 0 values"

lemma Packed11_DecodeBytes_body: "decodes_block 11 11 8 Packed11_DecodeBytes_body"
  by (rule decodes_blockI) (simp_all add: Packed11_DecodeBytes_body_def unroll8)

lemma Packed11_DecodeBytes_eq: "NewPacked 11 = Some b \<Longrightarrow> Packed11_DecodeBytes blocks values iterations = bp_DecodeBytes b blocks values iterations"
  unfolding Packed11_DecodeBytes_def
  by (rule unrolled_eq_DecodeBytes [OF Packed11_DecodeBytes_body]) (auto simp: NewPacked_eval)

subsection \<open>bulkoperationpacked12.go\<close>

definition Packed12_DecodeBytes_body :: "u8 list \<Rightarrow> u64 list option" where
  "Packed12_DecodeBytes_body blocks = do {
     byte0 \<leftarrow> slice_get_u64 blocks 0; byte1 \<leftarrow> slice_get_u64 blocks 1;
     byte2 \<leftarrow> slice_get_u64 blocks 2;
     Some [
       push_bit 4 byte0 OR drop_bit 4 byte1, push_bit 8 (byte1 AND 15) OR byte2]
   }"

definition Packed12_DecodeBytes :: "u8 list \<Rightarrow> u64 list \<Rightarrow> nat \<Rightarrow> u64 list option" where
  "Packed12_DecodeBytes blocks values iterations =
     unrolled_loop 3 Packed12_DecodeBytes_body blocks iterations 0 0 values"

lemma Packed12_DecodeBytes_body: "decodes_block 12 3 2 Packed12_DecodeBytes_body"
  by (rule decodes_blockI) (simp_all add: Packed12_DecodeBytes_body_def unroll8)

lemma Packed12_DecodeBytes_eq: "NewPacked 12 = Some b \<Longrightarrow> Packed12_DecodeBytes blocks values iterations = bp_DecodeBytes b blocks values iterations"
  unfolding Packed12_DecodeBytes_def
  by (rule unrolled_eq_DecodeBytes [OF Packed12_DecodeBytes_body]) (auto simp: NewPacked_eval)

subsection \<open>bulkoperationpacked13.go\<close>

definition Packed13_DecodeBytes_body :: "u8 list \<Rightarrow> u64 list option" where
  "Packed13_DecodeBytes_body blocks = do {
     byte0 \<leftarrow> slice_get_u64 blocks 0; byte1 \<leftarrow> slice_get_u64 blocks 1;
     byte2 \<leftarrow> slice_get_u64 blocks 2; byte3 \<leftarrow> slice_get_u64 blocks 3;
     byte4 \<leftarrow> slice_get_u64 blocks 4; byte5 \<leftarrow> slice_get_u64 blocks 5;
     byte6 \<leftarrow> slice_get_u64 blocks 6; byte7 \<leftarrow> slice_get_u64 blocks 7;
     byte8 \<leftarrow> slice_get_u64 blocks 8; byte9 \<leftarrow> slice_get_u64 blocks 9;
     byte10 \<leftarrow> slice_get_u64 blocks 10; byte11 \<leftarrow> slice_get_u64 blocks 11;
     byte12 \<leftarrow> slice_get_u64 blocks 12;
     Some [
       push_bit 5 byte0 OR drop_bit 3 byte1,
       push_bit 10 (byte1 AND 7) OR push_bit 2 byte2 OR drop_bit 6 byte3,
       push_bit 7 (byte3 AND 63) OR drop_bit 1 byte4,
       push_bit 12 (byte4 AND 1) OR push_bit 4 byte5 OR drop_bit 4 byte6,
       push_bit 9 (byte6 AND 15) OR push_bit 1 byte7 OR drop_bit 7 byte8,
       push_bit 6 (byte8 AND 127) OR drop_bit 2 byte9,
       push_bit 11 (byte9 AND 3) OR push_bit 3 byte10 OR drop_bit 5 byte11,
       push_bit 8 (byte11 AND 31) OR byte12]
   }"

definition Packed13_DecodeBytes :: "u8 list \<Rightarrow> u64 list \<Rightarrow> nat \<Rightarrow> u64 list option" where
  "Packed13_DecodeBytes blocks values iterations =
     unrolled_loop 13 Packed13_DecodeBytes_body blocks iterations 0 0 values"

lemma Packed13_DecodeBytes_body: "decodes_block 13 13 8 Packed13_DecodeBytes_body"
  by (rule decodes_blockI) (simp_all add: Packed13_DecodeBytes_body_def unroll8)

lemma Packed13_DecodeBytes_eq: "NewPacked 13 = Some b \<Longrightarrow> Packed13_DecodeBytes blocks values iterations = bp_DecodeBytes b blocks values iterations"
  unfolding Packed13_DecodeBytes_def
  by (rule unrolled_eq_DecodeBytes [OF Packed13_DecodeBytes_body]) (auto simp: NewPacked_eval)

subsection \<open>bulkoperationpacked14.go\<close>

definition Packed14_DecodeBytes_body :: "u8 list \<Rightarrow> u64 list option" where
  "Packed14_DecodeBytes_body blocks = do {
     byte0 \<leftarrow> slice_get_u64 blocks 0; byte1 \<leftarrow> slice_get_u64 blocks 1;
     byte2 \<leftarrow> slice_get_u64 blocks 2; byte3 \<leftarrow> slice_get_u64 blocks 3;
     byte4 \<leftarrow> slice_get_u64 blocks 4; byte5 \<leftarrow> slice_get_u64 blocks 5;
     byte6 \<leftarrow> slice_get_u64 blocks 6;
     Some [
       push_bit 6 byte0 OR drop_bit 2 byte1,
       push_bit 12 (byte1 AND 3) OR push_bit 4 byte2 OR drop_bit 4 byte3,
       push_bit 10 (byte3 AND 15) OR push_bit 2 byte4 OR drop_bit 6 byte5,
       push_bit 8 (byte5 AND 63) OR byte6]
   }"

definition Packed14_DecodeBytes :: "u8 list \<Rightarrow> u64 list \<Rightarrow> nat \<Rightarrow> u64 list option" where
  "Packed14_DecodeBytes blocks values iterations =
     unrolled_loop 7 Packed14_DecodeBytes_body blocks iterations 0 0 values"

lemma Packed14_DecodeBytes_body: "decodes_block 14 7 4 Packed14_DecodeBytes_body"
  by (rule decodes_blockI) (simp_all add: Packed14_DecodeBytes_body_def unroll8)

lemma Packed14_DecodeBytes_eq: "NewPacked 14 = Some b \<Longrightarrow> Packed14_DecodeBytes blocks values iterations = bp_DecodeBytes b blocks values iterations"
  unfolding Packed14_DecodeBytes_def
  by (rule unrolled_eq_DecodeBytes [OF Packed14_DecodeBytes_body]) (auto simp: NewPacked_eval)

subsection \<open>bulkoperationpacked15.go\<close>

definition Packed15_DecodeBytes_body :: "u8 list \<Rightarrow> u64 list option" where
  "Packed15_DecodeBytes_body blocks = do {
     byte0 \<leftarrow> slice_get_u64 blocks 0; byte1 \<leftarrow> slice_get_u64 blocks 1;
     byte2 \<leftarrow> slice_get_u64 blocks 2; byte3 \<leftarrow> slice_get_u64 blocks 3;
     byte4 \<leftarrow> slice_get_u64 blocks 4; byte5 \<leftarrow> slice_get_u64 blocks 5;
     byte6 \<leftarrow> slice_get_u64 blocks 6; byte7 \<leftarrow> slice_get_u64 blocks 7;
     byte8 \<leftarrow> slice_get_u64 blocks 8; byte9 \<leftarrow> slice_get_u64 blocks 9;
     byte10 \<leftarrow> slice_get_u64 blocks 10; byte11 \<leftarrow> slice_get_u64 blocks 11;
     byte12 \<leftarrow> slice_get_u64 blocks 12; byte13 \<leftarrow> slice_get_u64 blocks 13;
     byte14 \<leftarrow> slice_get_u64 blocks 14;
     Some [
       push_bit 7 byte0 OR drop_bit 1 byte1,
       push_bit 14 (byte1 AND 1) OR push_bit 6 byte2 OR drop_bit 2 byte3,
       push_bit 13 (byte3 AND 3) OR push_bit 5 byte4 OR drop_bit 3 byte5,
       push_bit 12 (byte5 AND 7) OR push_bit 4 byte6 OR drop_bit 4 byte7,
       push_bit 11 (byte7 AND 15) OR push_bit 3 byte8 OR drop_bit 5 byte9,
       push_bit 10 (byte9 AND 31) OR push_bit 2 byte10 OR drop_bit 6 byte11,
       push_bit 9 (byte11 AND 63) OR push_bit 1 byte12 OR drop_bit 7 byte13,
       push_bit 8 (byte13 AND 127) OR byte14]
   }"

definition Packed15_DecodeBytes :: "u8 list \<Rightarrow> u64 list \<Rightarrow> nat \<Rightarrow> u64 list option" where
  "Packed15_DecodeBytes blocks values iterations =
     unrolled_loop 15 Packed15_DecodeBytes_body blocks iterations 0 0 values"

lemma Packed15_DecodeBytes_body: "decodes_block 15 15 8 Packed15_DecodeBytes_body"
  by (rule decodes_blockI) (simp_all add: Packed15_DecodeBytes_body_def unroll8)

lemma Packed15_DecodeBytes_eq: "NewPacked 15 = Some b \<Longrightarrow> Packed15_DecodeBytes blocks values iterations = bp_DecodeBytes b blocks values iterations"
  unfolding Packed15_DecodeBytes_def
  by (rule unrolled_eq_DecodeBytes [OF Packed15_DecodeBytes_body]) (auto simp: NewPacked_eval)

subsection \<open>bulkoperationpacked16.go\<close>

definition Packed16_DecodeBytes_body :: "u8 list \<Rightarrow> u64 list option" where
  "Packed16_DecodeBytes_body blocks = do {
     block0 \<leftarrow> slice_get_u64 blocks 0; let block0 = push_bit 8 block0;
     block1 \<leftarrow> slice_get_u64 blocks 1;
     Some [
       block0 OR block1]
   }"

definition Packed16_DecodeBytes :: "u8 list \<Rightarrow> u64 list \<Rightarrow> nat \<Rightarrow> u64 list option" where
  "Packed16_DecodeBytes blocks values iterations =
     unrolled_loop 2 Packed16_DecodeBytes_body blocks iterations 0 0 values"

lemma Packed16_DecodeBytes_body: "decodes_block 16 2 1 Packed16_DecodeBytes_body"
  by (rule decodes_blockI) (simp_all add: Packed16_DecodeBytes_body_def unroll8)

lemma Packed16_DecodeBytes_eq: "NewPacked 16 = Some b \<Longrightarrow> Packed16_DecodeBytes blocks values iterations = bp_DecodeBytes b blocks values iterations"
  unfolding Packed16_DecodeBytes_def
  by (rule unrolled_eq_DecodeBytes [OF Packed16_DecodeBytes_body]) (auto simp: NewPacked_eval)

subsection \<open>bulkoperationpacked17.go\<close>

definition Packed17_DecodeBytes_body :: "u8 list \<Rightarrow> u64 list option" where
  "Packed17_DecodeBytes_body blocks = do {
     byte0 \<leftarrow> slice_get_u64 blocks 0; byte1 \<leftarrow> slice_get_u64 blocks 1;
     byte2 \<leftarrow> slice_get_u64 blocks 2; byte3 \<leftarrow> slice_get_u64 blocks 3;
     byte4 \<leftarrow> slice_get_u64 blocks 4; byte5 \<leftarrow> slice_get_u64 blocks 5;
     byte6 \<leftarrow> slice_get_u64 blocks 6; byte7 \<leftarrow> slice_get_u64 blocks 7;
     byte8 \<leftarrow> slice_get_u64 blocks 8; byte9 \<leftarrow> slice_get_u64 blocks 9;
     byte10 \<leftarrow> slice_get_u64 blocks 10; byte11 \<leftarrow> slice_get_u64 blocks 11;
     byte12 \<leftarrow> slice_get_u64 blocks 12; byte13 \<leftarrow> slice_get_u64 blocks 13;
     byte14 \<leftarrow> slice_get_u64 blocks 14; byte15 \<leftarrow> slice_get_u64 blocks 15;
     byte16 \<leftarrow> slice_get_u64 blocks 16;
     Some [
       push_bit 9 byte0 OR push_bit 1 byte1 OR drop_bit 7 byte2,
       push_bit 10 (byte2 AND 127) OR push_bit 2 byte3 OR drop_bit 6 byte4,
       push_bit 11 (byte4 AND 63) OR push_bit 3 byte5 OR drop_bit 5 byte6,
       push_bit 12 (byte6 AND 31) OR push_bit 4 byte7 OR drop_bit 4 byte8,
       push_bit 13 (byte8 AND 15) OR push_bit 5 byte9 OR drop_bit 3 byte10,
       push_bit 14 (byte10 AND 7) OR push_bit 6 byte11 OR drop_bit 2 byte12,
       push_bit 15 (byte12 AND 3) OR push_bit 7 byte13 OR drop_bit 1 byte14,
       push_bit 16 (byte14 AND 1) OR push_bit 8 byte15 OR byte16]
   }"

definition Packed17_DecodeBytes :: "u8 list \<Rightarrow> u64 list \<Rightarrow> nat \<Rightarrow> u64 list option" where
  "Packed17_DecodeBytes blocks values iterations =
     unrolled_loop 17 Packed17_DecodeBytes_body blocks iterations 0 0 values"

lemma Packed17_DecodeBytes_body: "decodes_block 17 17 8 Packed17_DecodeBytes_body"
  by (rule decodes_blockI) (simp_all add: Packed17_DecodeBytes_body_def unroll8)

lemma Packed17_DecodeBytes_eq: "NewPacked 17 = Some b \<Longrightarrow> Packed17_DecodeBytes blocks values iterations = bp_DecodeBytes b blocks values iterations"
  unfolding Packed17_DecodeBytes_def
  by (rule unrolled_eq_DecodeBytes [OF Packed17_DecodeBytes_body]) (auto simp: NewPacked_eval)

subsection \<open>bulkoperationpacked18.go\<close>

definition Packed18_DecodeBytes_body :: "u8 list \<Rightarrow> u64 list option" where
  "Packed18_DecodeBytes_body blocks = do {
     byte0 \<leftarrow> slice_get_u64 blocks 0; byte1 \<leftarrow> slice_get_u64 blocks 1;
     byte2 \<leftarrow> slice_get_u64 blocks 2; byte3 \<leftarrow> slice_get_u64 blocks 3;
     byte4 \<leftarrow> slice_get_u64 blocks 4; byte5 \<leftarrow> slice_get_u64 blocks 5;
     byte6 \<leftarrow> slice_get_u64 blocks 6; byte7 \<leftarrow> slice_get_u64 blocks 7;
     byte8 \<leftarrow> slice_get_u64 blocks 8;
     Some [
       push_bit 10 byte0 OR push_bit 2 byte1 OR drop_bit 6 byte2,
       push_bit 12 (byte2 AND 63) OR push_bit 4 byte3 OR drop_bit 4 byte4,
       push_bit 14 (byte4 AND 15) OR push_bit 6 byte5 OR drop_bit 2 byte6,
       push_bit 16 (byte6 AND 3) OR push_bit 8 byte7 OR byte8]
   }"

definition Packed18_DecodeBytes :: "u8 list \<Rightarrow> u64 list \<Rightarrow> nat \<Rightarrow> u64 list option" where
  "Packed18_DecodeBytes blocks values iterations =
     unrolled_loop 9 Packed18_DecodeBytes_body blocks iterations 0 0 values"

lemma Packed18_DecodeBytes_body: "decodes_block 18 9 4 Packed18_DecodeBytes_body"
  by (rule decodes_blockI) (simp_all add: Packed18_DecodeBytes_body_def unroll8)

lemma Packed18_DecodeBytes_eq: "NewPacked 18 = Some b \<Longrightarrow> Packed18_DecodeBytes blocks values iterations = bp_DecodeBytes b blocks values iterations"
  unfolding Packed18_DecodeBytes_def
  by (rule unrolled_eq_DecodeBytes [OF Packed18_DecodeBytes_body]) (auto simp: NewPacked_eval)

subsection \<open>bulkoperationpacked19.go\<close>

definition Packed19_DecodeBytes_body :: "u8 list \<Rightarrow> u64 list option" where
  "Packed19_DecodeBytes_body blocks = do {
     byte0 \<leftarrow> slice_get_u64 blocks 0; byte1 \<leftarrow> slice_get_u64 blocks 1;
     byte2 \<leftarrow> slice_get_u64 blocks 2; byte3 \<leftarrow> slice_get_u64 blocks 3;
     byte4 \<leftarrow> slice_get_u64 blocks 4; byte5 \<leftarrow> slice_get_u64 blocks 5;
     byte6 \<leftarrow> slice_get_u64 blocks 6; byte7 \<leftarrow> slice_get_u64 blocks 7;
     byte8 \<leftarrow> slice_get_u64 blocks 8; byte9 \<leftarrow> slice_get_u64 blocks 9;
     byte10 \<leftarrow> slice_get_u64 blocks 10; byte11 \<leftarrow> slice_get_u64 blocks 11;
     byte12 \<leftarrow> slice_get_u64 blocks 12; byte13 \<leftarrow> slice_get_u64 blocks 13;
     byte14 \<leftarrow> slice_get_u64 blocks 14; byte15 \<leftarrow> slice_get_u64 blocks 15;
     byte16 \<leftarrow> slice_get_u64 blocks 16; byte17 \<leftarrow> slice_get_u64 blocks 17;
     byte18 \<leftarrow> slice_get_u64 blocks 18;
     Some [
       push_bit 11 byte0 OR push_bit 3 byte1 OR drop_bit 5 byte2,
       push_bit 14 (byte2 AND 31) OR push_bit 6 byte3 OR drop_bit 2 byte4,
       push_bit 17 (byte4 AND 3) OR push_bit 9 byte5 OR push_bit 1 byte6 OR drop_bit 7 byte7,
       push_bit 12 (byte7 AND 127) OR push_bit 4 byte8 OR drop_bit 4 byte9,
       push_bit 15 (byte9 AND 15) OR push_bit 7 byte10 OR drop_bit 1 byte11,
       push_bit 18 (byte11 AND 1) OR push_bit 10 byte12 OR push_bit 2 byte13 OR drop_bit 6 byte14,
       push_bit 13 (byte14 AND 63) OR push_bit 5 byte15 OR drop_bit 3 byte16,
       push_bit 16 (byte16 AND 7) OR push_bit 8 byte17 OR byte18]
   }"

definition Packed19_DecodeBytes :: "u8 list \<Rightarrow> u64 list \<Rightarrow> nat \<Rightarrow> u64 list option" where
  "Packed19_DecodeBytes blocks values iterations =
     unrolled_loop 19 Packed19_DecodeBytes_body blocks iterations 0 0 values"

lemma Packed19_DecodeBytes_body: "decodes_block 19 19 8 Packed19_DecodeBytes_body"
  by (rule decodes_blockI) (simp_all add: Packed19_DecodeBytes_body_def unroll8)

lemma Packed19_DecodeBytes_eq: "NewPacked 19 = Some b \<Longrightarrow> Packed19_DecodeBytes blocks values iterations = bp_DecodeBytes b blocks values iterations"
  unfolding Packed19_DecodeBytes_def
  by (rule unrolled_eq_DecodeBytes [OF Packed19_DecodeBytes_body]) (auto simp: NewPacked_eval)

subsection \<open>bulkoperationpacked20.go\<close>

definition Packed20_DecodeBytes_body :: "u8 list \<Rightarrow> u64 list option" where
  "Packed20_DecodeBytes_body blocks = do {
     byte0 \<leftarrow> slice_get_u64 blocks 0; byte1 \<leftarrow> slice_get_u64 blocks 1;
     byte2 \<leftarrow> slice_get_u64 blocks 2; byte3 \<leftarrow> slice_get_u64 blocks 3;
     byte4 \<leftarrow> slice_get_u64 blocks 4;
     Some [
       push_bit 12 byte0 OR push_bit 4 byte1 OR drop_bit 4 byte2,
       push_bit 16 (byte2 AND 15) OR push_bit 8 byte3 OR byte4]
   }"

definition Packed20_DecodeBytes :: "u8 list \<Rightarrow> u64 list \<Rightarrow> nat \<Rightarrow> u64 list option" where
  "Packed20_DecodeBytes blocks values iterations =
     unrolled_loop 5 Packed20_DecodeBytes_body blocks iterations 0 0 values"

lemma Packed20_DecodeBytes_body: "decodes_block 20 5 2 Packed20_DecodeBytes_body"
  by (rule decodes_blockI) (simp_all add: Packed20_DecodeBytes_body_def unroll8)

lemma Packed20_DecodeBytes_eq: "NewPacked 20 = Some b \<Longrightarrow> Packed20_DecodeBytes blocks values iterations = bp_DecodeBytes b blocks values iterations"
  unfolding Packed20_DecodeBytes_def
  by (rule unrolled_eq_DecodeBytes [OF Packed20_DecodeBytes_body]) (auto simp: NewPacked_eval)

subsection \<open>bulkoperationpacked21.go\<close>

definition Packed21_DecodeBytes_body :: "u8 list \<Rightarrow> u64 list option" where
  "Packed21_DecodeBytes_body blocks = do {
     byte0 \<leftarrow> slice_get_u64 blocks 0; byte1 \<leftarrow> slice_get_u64 blocks 1;
     byte2 \<leftarrow> slice_get_u64 blocks 2; byte3 \<leftarrow> slice_get_u64 blocks 3;
     byte4 \<leftarrow> slice_get_u64 blocks 4; byte5 \<leftarrow> slice_get_u64 blocks 5;
     byte6 \<leftarrow> slice_get_u64 blocks 6; byte7 \<leftarrow> slice_get_u64 blocks 7;
     byte8 \<leftarrow> slice_get_u64 blocks 8; byte9 \<leftarrow> slice_get_u64 blocks 9;
     byte10 \<leftarrow> slice_get_u64 blocks 10; byte11 \<leftarrow> slice_get_u64 blocks 11;
     byte12 \<leftarrow> slice_get_u64 blocks 12; byte13 \<leftarrow> slice_get_u64 blocks 13;
     byte14 \<leftarrow> slice_get_u64 blocks 14; byte15 \<leftarrow> slice_get_u64 blocks 15;
     byte16 \<leftarrow> slice_get_u64 blocks 16; byte17 \<leftarrow> slice_get_u64 blocks 17;
     byte18 \<leftarrow> slice_get_u64 blocks 18; byte19 \<leftarrow> slice_get_u64 blocks 19;
     byte20 \<leftarrow> slice_get_u64 blocks 20;
     Some [
       push_bit 13 byte0 OR push_bit 5 byte1 OR drop_bit 3 byte2,
       push_bit 18 (byte2 AND 7) OR push_bit 10 byte3 OR push_bit 2 byte4 OR drop_bit 6 byte5,
       push_bit 15 (byte5 AND 63) OR push_bit 7 byte6 OR drop_bit 1 byte7,
       push_bit 20 (byte7 AND 1) OR push_bit 12 byte8 OR push_bit 4 byte9 OR drop_bit 4 byte10,
       push_bit 17 (byte10 AND 15) OR push_bit 9 byte11 OR push_bit 1 byte12 OR drop_bit 7 byte13,
       push_bit 14 (byte13 AND 127) OR push_bit 6 byte14 OR drop_bit 2 byte15,
       push_bit 19 (byte15 AND 3) OR push_bit 11 byte16 OR push_bit 3 byte17 OR drop_bit 5 byte18,
       push_bit 16 (byte18 AND 31) OR push_bit 8 byte19 OR byte20]
   }"

definition Packed21_DecodeBytes :: "u8 list \<Rightarrow> u64 list \<Rightarrow> nat \<Rightarrow> u64 list option" where
  "Packed21_DecodeBytes blocks values iterations =
     unrolled_loop 21 Packed21_DecodeBytes_body blocks iterations 0 0 values"

lemma Packed21_DecodeBytes_body: "decodes_block 21 21 8 Packed21_DecodeBytes_body"
  by (rule decodes_blockI) (simp_all add: Packed21_DecodeBytes_body_def unroll8)

lemma Packed21_DecodeBytes_eq: "NewPacked 21 = Some b \<Longrightarrow> Packed21_DecodeBytes blocks values iterations = bp_DecodeBytes b blocks values iterations"
  unfolding Packed21_DecodeBytes_def
  by (rule unrolled_eq_DecodeBytes [OF Packed21_DecodeBytes_body]) (auto simp: NewPacked_eval)

subsection \<open>bulkoperationpacked22.go\<close>

definition Packed22_DecodeBytes_body :: "u8 list \<Rightarrow> u64 list option" where
  "Packed22_DecodeBytes_body blocks = do {
     byte0 \<leftarrow> slice_get_u64 blocks 0; byte1 \<leftarrow> slice_get_u64 blocks 1;
     byte2 \<leftarrow> slice_get_u64 blocks 2; byte3 \<leftarrow> slice_get_u64 blocks 3;
     byte4 \<leftarrow> slice_get_u64 blocks 4; byte5 \<leftarrow> slice_get_u64 blocks 5;
     byte6 \<leftarrow> slice_get_u64 blocks 6; byte7 \<leftarrow> slice_get_u64 blocks 7;
     byte8 \<leftarrow> slice_get_u64 blocks 8; byte9 \<leftarrow> slice_get_u64 blocks 9;
     byte10 \<leftarrow> slice_get_u64 blocks 10;
     Some [
       push_bit 14 byte0 OR push_bit 6 byte1 OR drop_bit 2 byte2,
       push_bit 20 (byte2 AND 3) OR push_bit 12 byte3 OR push_bit 4 byte4 OR drop_bit 4 byte5,
       push_bit 18 (byte5 AND 15) OR push_bit 10 byte6 OR push_bit 2 byte7 OR drop_bit 6 byte8,
       push_bit 16 (byte8 AND 63) OR push_bit 8 byte9 OR byte10]
   }"

definition Packed22_DecodeBytes :: "u8 list \<Rightarrow> u64 list \<Rightarrow> nat \<Rightarrow> u64 list option" where
  "Packed22_DecodeBytes blocks values iterations =
     unrolled_loop 11 Packed22_DecodeBytes_body blocks iterations 0 0 values"

lemma Packed22_DecodeBytes_body: "decodes_block 22 11 4 Packed22_DecodeBytes_body"
  by (rule decodes_blockI) (simp_all add: Packed22_DecodeBytes_body_def unroll8)

lemma Packed22_DecodeBytes_eq: "NewPacked 22 = Some b \<Longrightarrow> Packed22_DecodeBytes blocks values iterations = bp_DecodeBytes b blocks values iterations"
  unfolding Packed22_DecodeBytes_def
  by (rule unrolled_eq_DecodeBytes [OF Packed22_DecodeBytes_body]) (auto simp: NewPacked_eval)

subsection \<open>bulkoperationpacked23.go\<close>

definition Packed23_DecodeBytes_body :: "u8 list \<Rightarrow> u64 list option" where
  "Packed23_DecodeBytes_body blocks = do {
     byte0 \<leftarrow> slice_get_u64 blocks 0; byte1 \<leftarrow> slice_get_u64 blocks 1;
     byte2 \<leftarrow> slice_get_u64 blocks 2; byte3 \<leftarrow> slice_get_u64 blocks 3;
     byte4 \<leftarrow> slice_get_u64 blocks 4; byte5 \<leftarrow> slice_get_u64 blocks 5;
     byte6 \<leftarrow> slice_get_u64 blocks 6; byte7 \<leftarrow> slice_get_u64 blocks 7;
     byte8 \<leftarrow> slice_get_u64 blocks 8; byte9 \<leftarrow> slice_get_u64 blocks 9;
     byte10 \<leftarrow> slice_get_u64 blocks 10; byte11 \<leftarrow> slice_get_u64 blocks 11;
     byte12 \<leftarrow> slice_get_u64 blocks 12; byte13 \<leftarrow> slice_get_u64 blocks 13;
     byte14 \<leftarrow> slice_get_u64 blocks 14; byte15 \<leftarrow> slice_get_u64 blocks 15;
     byte16 \<leftarrow> slice_get_u64 blocks 16; byte17 \<leftarrow> slice_get_u64 blocks 17;
     byte18 \<leftarrow> slice_get_u64 blocks 18; byte19 \<leftarrow> slice_get_u64 blocks 19;
     byte20 \<leftarrow> slice_get_u64 blocks 20; byte21 \<leftarrow> slice_get_u64 blocks 21;
     byte22 \<leftarrow> slice_get_u64 blocks 22;
     Some [
       push_bit 15 byte0 OR push_bit 7 byte1 OR drop_bit 1 byte2,
       push_bit 22 (byte2 AND 1) OR push_bit 14 byte3 OR push_bit 6 byte4 OR drop_bit 2 byte5,
       push_bit 21 (byte5 AND 3) OR push_bit 13 byte6 OR push_bit 5 byte7 OR drop_bit 3 byte8,
       push_bit 20 (byte8 AND 7) OR push_bit 12 byte9 OR push_bit 4 byte10 OR drop_bit 4 byte11,
       push_bit 19 (byte11 AND 15) OR push_bit 11 byte12 OR push_bit 3 byte13 OR drop_bit 5 byte14,
       push_bit 18 (byte14 AND 31) OR push_bit 10 byte15 OR push_bit 2 byte16 OR drop_bit 6 byte17,
       push_bit 17 (byte17 AND 63) OR push_bit 9 byte18 OR push_bit 1 byte19 OR drop_bit 7 byte20,
       push_bit 16 (byte20 AND 127) OR push_bit 8 byte21 OR byte22]
   }"

definition Packed23_DecodeBytes :: "u8 list \<Rightarrow> u64 list \<Rightarrow> nat \<Rightarrow> u64 list option" where
  "Packed23_DecodeBytes blocks values iterations =
     unrolled_loop 23 Packed23_DecodeBytes_body blocks iterations 0 0 values"

lemma Packed23_DecodeBytes_body: "decodes_block 23 23 8 Packed23_DecodeBytes_body"
  by (rule decodes_blockI) (simp_all add: Packed23_DecodeBytes_body_def unroll8)

lemma Packed23_DecodeBytes_eq: "NewPacked 23 = Some b \<Longrightarrow> Packed23_DecodeBytes blocks values iterations = bp_DecodeBytes b blocks values iterations"
  unfolding Packed23_DecodeBytes_def
  by (rule unrolled_eq_DecodeBytes [OF Packed23_DecodeBytes_body]) (auto simp: NewPacked_eval)

subsection \<open>bulkoperationpacked24.go\<close>

definition Packed24_DecodeBytes_body :: "u8 list \<Rightarrow> u64 list option" where
  "Packed24_DecodeBytes_body blocks = do {
     byte0 \<leftarrow> slice_get_u64 blocks 0; byte1 \<leftarrow> slice_get_u64 blocks 1;
     byte2 \<leftarrow> slice_get_u64 blocks 2;
     Some [
       push_bit 16 byte0 OR push_bit 8 byte1 OR byte2]
   }"

definition Packed24_DecodeBytes :: "u8 list \<Rightarrow> u64 list \<Rightarrow> nat \<Rightarrow> u64 list option" where
  "Packed24_DecodeBytes blocks values iterations =
     unrolled_loop 3 Packed24_DecodeBytes_body blocks iterations 0 0 values"

lemma Packed24_DecodeBytes_body: "decodes_block 24 3 1 Packed24_DecodeBytes_body"
  by (rule decodes_blockI) (simp_all add: Packed24_DecodeBytes_body_def unroll8)

lemma Packed24_DecodeBytes_eq: "NewPacked 24 = Some b \<Longrightarrow> Packed24_DecodeBytes blocks values iterations = bp_DecodeBytes b blocks values iterations"
  unfolding Packed24_DecodeBytes_def
  by (rule unrolled_eq_DecodeBytes [OF Packed24_DecodeBytes_body]) (auto simp: NewPacked_eval)

end
