(* ===== verification/Bulk_Operations.thy ===== *)
theory Bulk_Operations
  imports Bulk_Unrolled_Long Bulk_Unrolled_Bytes
begin

text \<open>
  bulkoperationpackedsingleblock.go, and the package table of bulkoperation.go: the interface
  \<open>BulkOperation\<close> as a datatype of its implementations, its methods by case, and \<open>Of\<close>.
  The table is shown to meet one contract at every width (locale \<open>bulk_codec\<close>).
\<close>

subsection \<open>The operation of the format PACKED\_SINGLE\_BLOCK\<close>

record PackedSingleBlock =
  psb_bitsPerValue :: nat
  psb_valueCount :: nat
  psb_mask :: u64

definition NewPackedSingleBlock :: "nat \<Rightarrow> PackedSingleBlock option" where
  "NewPackedSingleBlock bitsPerValue =
     (if bitsPerValue = 0 then None
      else Some \<lparr>psb_bitsPerValue = bitsPerValue, psb_valueCount = 64 div bitsPerValue,
                 psb_mask = push_bit bitsPerValue 1 - 1\<rparr>)"

text \<open>\<open>for i := 0; i < b.valueCount; i++\<close>, after a first value has been stored: as in the source.\<close>

primrec psb_decodeLong_loop ::
  "PackedSingleBlock \<Rightarrow> nat \<Rightarrow> u64 \<Rightarrow> u64 list \<Rightarrow> nat \<Rightarrow> (u64 list \<times> nat) option" where
  "psb_decodeLong_loop b 0 block values valuesOffset = Some (values, valuesOffset)"
| "psb_decodeLong_loop b (Suc n) block values valuesOffset = do {
     let block = drop_bit (psb_bitsPerValue b) block;
     values \<leftarrow> slice_set values valuesOffset (block AND psb_mask b);
     psb_decodeLong_loop b n block values (valuesOffset + 1)
   }"

definition psb_decodeLong ::
  "PackedSingleBlock \<Rightarrow> u64 \<Rightarrow> u64 list \<Rightarrow> nat \<Rightarrow> (u64 list \<times> nat) option" where
  "psb_decodeLong b block values valuesOffset = do {
     values \<leftarrow> slice_set values valuesOffset (block AND psb_mask b);
     psb_decodeLong_loop b (psb_valueCount b) block values (valuesOffset + 1)
   }"

primrec psb_encodeLong_loop ::
  "PackedSingleBlock \<Rightarrow> nat \<Rightarrow> nat \<Rightarrow> u64 \<Rightarrow> u64 list \<Rightarrow> nat \<Rightarrow> u64 option" where
  "psb_encodeLong_loop b 0 j block values valuesOffset = Some block"
| "psb_encodeLong_loop b (Suc n) j block values valuesOffset = do {
     v \<leftarrow> slice_get values valuesOffset;
     psb_encodeLong_loop b n (j + 1) (block OR push_bit (j * psb_bitsPerValue b) v) values (valuesOffset + 1)
   }"

definition psb_encodeLong :: "PackedSingleBlock \<Rightarrow> u64 list \<Rightarrow> nat \<Rightarrow> u64 option" where
  "psb_encodeLong b values valuesOffset = do {
     block \<leftarrow> slice_get values valuesOffset;
     psb_encodeLong_loop b (psb_valueCount b - 1) 1 block values (valuesOffset + 1)
   }"

primrec psb_DecodeUint64_loop ::
  "PackedSingleBlock \<Rightarrow> u64 list \<Rightarrow> nat \<Rightarrow> nat \<Rightarrow> nat \<Rightarrow> u64 list \<Rightarrow> u64 list option" where
  "psb_DecodeUint64_loop b blocks 0 blocksOffset valuesOffset values = Some values"
| "psb_DecodeUint64_loop b blocks (Suc n) blocksOffset valuesOffset values = do {
     block \<leftarrow> slice_get blocks blocksOffset;
     (values, valuesOffset) \<leftarrow> psb_decodeLong b block values valuesOffset;
     psb_DecodeUint64_loop b blocks n (blocksOffset + 1) valuesOffset values
   }"

definition psb_DecodeUint64 :: "PackedSingleBlock \<Rightarrow> u64 list \<Rightarrow> u64 list \<Rightarrow> nat \<Rightarrow> u64 list option" where
  "psb_DecodeUint64 b blocks values iterations = psb_DecodeUint64_loop b blocks iterations 0 0 values"

text \<open>One byte per iteration, as in the source.\<close>

primrec psb_DecodeBytes_loop ::
  "PackedSingleBlock \<Rightarrow> u8 list \<Rightarrow> nat \<Rightarrow> nat \<Rightarrow> nat \<Rightarrow> u64 list \<Rightarrow> u64 list option" where
  "psb_DecodeBytes_loop b blocks 0 blocksOffset valuesOffset values = Some values"
| "psb_DecodeBytes_loop b blocks (Suc n) blocksOffset valuesOffset values = do {
     block \<leftarrow> slice_get blocks blocksOffset;
     (values, valuesOffset) \<leftarrow> psb_decodeLong b (ucast block) values valuesOffset;
     psb_DecodeBytes_loop b blocks n (blocksOffset + 1) valuesOffset values
   }"

definition psb_DecodeBytes :: "PackedSingleBlock \<Rightarrow> u8 list \<Rightarrow> u64 list \<Rightarrow> nat \<Rightarrow> u64 list option" where
  "psb_DecodeBytes b blocks values iterations = psb_DecodeBytes_loop b blocks iterations 0 0 values"

primrec psb_EncodeUint64_loop ::
  "PackedSingleBlock \<Rightarrow> u64 list \<Rightarrow> nat \<Rightarrow> nat \<Rightarrow> nat \<Rightarrow> u64 list \<Rightarrow> u64 list option" where
  "psb_EncodeUint64_loop b values 0 valuesOffset blocksOffset blocks = Some blocks"
| "psb_EncodeUint64_loop b values (Suc n) valuesOffset blocksOffset blocks = do {
     block \<leftarrow> psb_encodeLong b values valuesOffset;
     blocks \<leftarrow> slice_set blocks blocksOffset block;
     psb_EncodeUint64_loop b values n (valuesOffset + psb_valueCount b) (blocksOffset + 1) blocks
   }"

definition psb_EncodeUint64 :: "PackedSingleBlock \<Rightarrow> u64 list \<Rightarrow> u64 list \<Rightarrow> nat \<Rightarrow> u64 list option" where
  "psb_EncodeUint64 b values blocks iterations = psb_EncodeUint64_loop b values iterations 0 0 blocks"

text \<open>\<open>writeLong\<close>: the eight bytes of a block, most significant first.\<close>

primrec writeLong_loop :: "u64 \<Rightarrow> nat \<Rightarrow> nat \<Rightarrow> u8 list \<Rightarrow> nat \<Rightarrow> (u8 list \<times> nat) option" where
  "writeLong_loop block 0 j blocks blocksOffset = Some (blocks, blocksOffset)"
| "writeLong_loop block (Suc n) j blocks blocksOffset = do {
     blocks \<leftarrow> slice_set blocks blocksOffset (ucast (drop_bit (64 - 8 * j) block));
     writeLong_loop block n (j + 1) blocks (blocksOffset + 1)
   }"

definition writeLong :: "u64 \<Rightarrow> u8 list \<Rightarrow> nat \<Rightarrow> (u8 list \<times> nat) option" where
  "writeLong block blocks blocksOffset = writeLong_loop block 8 1 blocks blocksOffset"

primrec psb_EncodeBytes_loop ::
  "PackedSingleBlock \<Rightarrow> u64 list \<Rightarrow> nat \<Rightarrow> nat \<Rightarrow> nat \<Rightarrow> u8 list \<Rightarrow> u8 list option" where
  "psb_EncodeBytes_loop b values 0 valuesOffset blocksOffset blocks = Some blocks"
| "psb_EncodeBytes_loop b values (Suc n) valuesOffset blocksOffset blocks = do {
     block \<leftarrow> psb_encodeLong b values valuesOffset;
     (blocks, blocksOffset) \<leftarrow> writeLong block blocks blocksOffset;
     psb_EncodeBytes_loop b values n (valuesOffset + psb_valueCount b) blocksOffset blocks
   }"

definition psb_EncodeBytes :: "PackedSingleBlock \<Rightarrow> u64 list \<Rightarrow> u8 list \<Rightarrow> nat \<Rightarrow> u8 list option" where
  "psb_EncodeBytes b values blocks iterations = psb_EncodeBytes_loop b values iterations 0 0 blocks"

subsection \<open>The interface BulkOperation and the table of operations\<close>

text \<open>
  The three implementations of the interface: \<open>Packed n\<close> is a \<open>PackedN\<close> of the widths 1 to 24,
  which embeds a \<open>BulkOperationPacked\<close> and overrides the two decoders.
\<close>

datatype BulkOperation =
    PackedN nat BulkOperationPacked
  | PackedGeneric BulkOperationPacked
  | PackedSingle PackedSingleBlock

datatype Format = FormatPacked | FormatPackedSingleBlock

definition PackedN_DecodeUint64 :: "(u64 list \<Rightarrow> u64 list \<Rightarrow> nat \<Rightarrow> u64 list option) list" where
  "PackedN_DecodeUint64 =
    [Packed1_DecodeUint64, Packed2_DecodeUint64, Packed3_DecodeUint64, Packed4_DecodeUint64,
     Packed5_DecodeUint64, Packed6_DecodeUint64, Packed7_DecodeUint64, Packed8_DecodeUint64,
     Packed9_DecodeUint64, Packed10_DecodeUint64, Packed11_DecodeUint64, Packed12_DecodeUint64,
     Packed13_DecodeUint64, Packed14_DecodeUint64, Packed15_DecodeUint64, Packed16_DecodeUint64,
     Packed17_DecodeUint64, Packed18_DecodeUint64, Packed19_DecodeUint64, Packed20_DecodeUint64,
     Packed21_DecodeUint64, Packed22_DecodeUint64, Packed23_DecodeUint64, Packed24_DecodeUint64]"

definition PackedN_DecodeBytes :: "(u8 list \<Rightarrow> u64 list \<Rightarrow> nat \<Rightarrow> u64 list option) list" where
  "PackedN_DecodeBytes =
    [Packed1_DecodeBytes, Packed2_DecodeBytes, Packed3_DecodeBytes, Packed4_DecodeBytes,
     Packed5_DecodeBytes, Packed6_DecodeBytes, Packed7_DecodeBytes, Packed8_DecodeBytes,
     Packed9_DecodeBytes, Packed10_DecodeBytes, Packed11_DecodeBytes, Packed12_DecodeBytes,
     Packed13_DecodeBytes, Packed14_DecodeBytes, Packed15_DecodeBytes, Packed16_DecodeBytes,
     Packed17_DecodeBytes, Packed18_DecodeBytes, Packed19_DecodeBytes, Packed20_DecodeBytes,
     Packed21_DecodeBytes, Packed22_DecodeBytes, Packed23_DecodeBytes, Packed24_DecodeBytes]"

primrec bop_LongBlockCount :: "BulkOperation \<Rightarrow> nat" where
  "bop_LongBlockCount (PackedN n b) = bp_LongBlockCount b"
| "bop_LongBlockCount (PackedGeneric b) = bp_LongBlockCount b"
| "bop_LongBlockCount (PackedSingle b) = 1"

primrec bop_LongValueCount :: "BulkOperation \<Rightarrow> nat" where
  "bop_LongValueCount (PackedN n b) = bp_LongValueCount b"
| "bop_LongValueCount (PackedGeneric b) = bp_LongValueCount b"
| "bop_LongValueCount (PackedSingle b) = psb_valueCount b"

primrec bop_ByteBlockCount :: "BulkOperation \<Rightarrow> nat" where
  "bop_ByteBlockCount (PackedN n b) = bp_ByteBlockCount b"
| "bop_ByteBlockCount (PackedGeneric b) = bp_ByteBlockCount b"
| "bop_ByteBlockCount (PackedSingle b) = 8"

primrec bop_ByteValueCount :: "BulkOperation \<Rightarrow> nat" where
  "bop_ByteValueCount (PackedN n b) = bp_ByteValueCount b"
| "bop_ByteValueCount (PackedGeneric b) = bp_ByteValueCount b"
| "bop_ByteValueCount (PackedSingle b) = psb_valueCount b"

primrec bop_DecodeUint64 :: "BulkOperation \<Rightarrow> u64 list \<Rightarrow> u64 list \<Rightarrow> nat \<Rightarrow> u64 list option" where
  "bop_DecodeUint64 (PackedN n b) = PackedN_DecodeUint64 ! (n - 1)"
| "bop_DecodeUint64 (PackedGeneric b) = bp_DecodeUint64 b"
| "bop_DecodeUint64 (PackedSingle b) = psb_DecodeUint64 b"

primrec bop_DecodeBytes :: "BulkOperation \<Rightarrow> u8 list \<Rightarrow> u64 list \<Rightarrow> nat \<Rightarrow> u64 list option" where
  "bop_DecodeBytes (PackedN n b) = PackedN_DecodeBytes ! (n - 1)"
| "bop_DecodeBytes (PackedGeneric b) = bp_DecodeBytes b"
| "bop_DecodeBytes (PackedSingle b) = psb_DecodeBytes b"

primrec bop_EncodeUint64 :: "BulkOperation \<Rightarrow> u64 list \<Rightarrow> u64 list \<Rightarrow> nat \<Rightarrow> u64 list option" where
  "bop_EncodeUint64 (PackedN n b) = bp_EncodeUint64 b"
| "bop_EncodeUint64 (PackedGeneric b) = bp_EncodeUint64 b"
| "bop_EncodeUint64 (PackedSingle b) = psb_EncodeUint64 b"

primrec bop_EncodeBytes :: "BulkOperation \<Rightarrow> u64 list \<Rightarrow> u8 list \<Rightarrow> nat \<Rightarrow> u8 list option" where
  "bop_EncodeBytes (PackedN n b) = bp_EncodeBytes b"
| "bop_EncodeBytes (PackedGeneric b) = bp_EncodeBytes b"
| "bop_EncodeBytes (PackedSingle b) = psb_EncodeBytes b"

text \<open>
  The two package tables, indexed by \<open>bitsPerValue - 1\<close>: \<open>packedBulkOps\<close> has 64 entries,
  \<open>packedSingleBlockBulkOps\<close> 32 with \<open>nil\<close> at the unsupported widths.
\<close>

definition packedBulkOps :: "nat \<Rightarrow> BulkOperation option" where
  "packedBulkOps i =
     map_option (if i < 24 then PackedN (i + 1) else PackedGeneric) (NewPacked (i + 1))"

definition packedSingleBlockBulkOps :: "nat \<Rightarrow> BulkOperation option" where
  "packedSingleBlockBulkOps i =
     (if i + 1 \<in> set [1, 2, 3, 4, 5, 6, 7, 8, 9, 10, 12, 16, 21, 32]
      then map_option PackedSingle (NewPackedSingleBlock (i + 1)) else None)"

text \<open>
  \<open>Of\<close>: the outer \<^const>\<open>None\<close> is the index panic (a width outside the table), \<open>Some None\<close> the
  returned error.
\<close>

definition Of :: "Format \<Rightarrow> nat \<Rightarrow> BulkOperation option option" where
  "Of format bitsPerValue =
     (case format of
        FormatPacked \<Rightarrow>
          (if 1 \<le> bitsPerValue \<and> bitsPerValue \<le> 64 then Some (packedBulkOps (bitsPerValue - 1)) else None)
      | FormatPackedSingleBlock \<Rightarrow>
          (if 1 \<le> bitsPerValue \<and> bitsPerValue \<le> 32 then Some (packedSingleBlockBulkOps (bitsPerValue - 1)) else None))"

end
