(* ===== verification/Bulk_Codec.thy ===== *)
theory Bulk_Codec
  imports Bulk_Operations
begin

text \<open>
  The contract of a bulk operation, as the interface \<open>common.BulkOperation\<close> documents it, and the
  proof that the operations of the package table meet it: locale \<open>bulk_codec\<close>, interpreted on the
  64-bit and on the byte methods of the table; then the operation PACKED\_SINGLE\_BLOCK.
\<close>

subsection \<open>The table of the format PACKED meets one contract\<close>

lemma width24_cases:
  assumes "1 \<le> n" and "n \<le> 24"
  shows "n \<in> set [1, 2, 3, 4, 5, 6, 7, 8, 9, 10, 11, 12, 13, 14, 15, 16, 17, 18, 19, 20, 21, 22, 23, 24 :: nat]"
proof -
  have "n \<in> {1..24}"
    using assms by simp
  also have "{1..24} = set [1..<25::nat]"
    by auto
  finally show ?thesis
    by (simp add: upt_numerals)
qed

lemma PackedN_DecodeUint64_eq:
  assumes "NewPacked n = Some b" and "1 \<le> n" and "n \<le> 24"
  shows "(PackedN_DecodeUint64 ! (n - 1)) blocks vs it = bp_DecodeUint64 b blocks vs it"
proof -
  show ?thesis
    using width24_cases [OF assms(2,3)] assms(1)
    by (simp, elim disjE) (simp_all add: PackedN_DecodeUint64_def Packed1_DecodeUint64_eq Packed2_DecodeUint64_eq
      Packed3_DecodeUint64_eq Packed4_DecodeUint64_eq Packed5_DecodeUint64_eq Packed6_DecodeUint64_eq
      Packed7_DecodeUint64_eq Packed8_DecodeUint64_eq Packed9_DecodeUint64_eq Packed10_DecodeUint64_eq
      Packed11_DecodeUint64_eq Packed12_DecodeUint64_eq Packed13_DecodeUint64_eq Packed14_DecodeUint64_eq
      Packed15_DecodeUint64_eq Packed16_DecodeUint64_eq Packed17_DecodeUint64_eq Packed18_DecodeUint64_eq
      Packed19_DecodeUint64_eq Packed20_DecodeUint64_eq Packed21_DecodeUint64_eq Packed22_DecodeUint64_eq
      Packed23_DecodeUint64_eq Packed24_DecodeUint64_eq)
qed

lemma PackedN_DecodeBytes_eq:
  assumes "NewPacked n = Some b" and "1 \<le> n" and "n \<le> 24"
  shows "(PackedN_DecodeBytes ! (n - 1)) blocks vs it = bp_DecodeBytes b blocks vs it"
proof -
  show ?thesis
    using width24_cases [OF assms(2,3)] assms(1)
    by (simp, elim disjE) (simp_all add: PackedN_DecodeBytes_def Packed1_DecodeBytes_eq Packed2_DecodeBytes_eq
      Packed3_DecodeBytes_eq Packed4_DecodeBytes_eq Packed5_DecodeBytes_eq Packed6_DecodeBytes_eq
      Packed7_DecodeBytes_eq Packed8_DecodeBytes_eq Packed9_DecodeBytes_eq Packed10_DecodeBytes_eq
      Packed11_DecodeBytes_eq Packed12_DecodeBytes_eq Packed13_DecodeBytes_eq Packed14_DecodeBytes_eq
      Packed15_DecodeBytes_eq Packed16_DecodeBytes_eq Packed17_DecodeBytes_eq Packed18_DecodeBytes_eq
      Packed19_DecodeBytes_eq Packed20_DecodeBytes_eq Packed21_DecodeBytes_eq Packed22_DecodeBytes_eq
      Packed23_DecodeBytes_eq Packed24_DecodeBytes_eq)
qed

text \<open>
  The operation of a width, and its methods with the width as argument. The number of 64-bit
  blocks of an iteration is the field: the accessor \<open>LongBlockCount\<close> returns another number.
\<close>

definition packed_DecodeUint64 :: "nat \<Rightarrow> u64 list \<Rightarrow> u64 list \<Rightarrow> nat \<Rightarrow> u64 list option" where
  "packed_DecodeUint64 bpv blocks values iterations = do {
     op \<leftarrow> packedBulkOps (bpv - 1);
     bop_DecodeUint64 op blocks values iterations
   }"

definition packed_EncodeUint64 :: "nat \<Rightarrow> u64 list \<Rightarrow> u64 list \<Rightarrow> nat \<Rightarrow> u64 list option" where
  "packed_EncodeUint64 bpv values blocks iterations = do {
     op \<leftarrow> packedBulkOps (bpv - 1);
     bop_EncodeUint64 op values blocks iterations
   }"

definition packed_DecodeBytes :: "nat \<Rightarrow> u8 list \<Rightarrow> u64 list \<Rightarrow> nat \<Rightarrow> u64 list option" where
  "packed_DecodeBytes bpv blocks values iterations = do {
     op \<leftarrow> packedBulkOps (bpv - 1);
     bop_DecodeBytes op blocks values iterations
   }"

definition packed_EncodeBytes :: "nat \<Rightarrow> u64 list \<Rightarrow> u8 list \<Rightarrow> nat \<Rightarrow> u8 list option" where
  "packed_EncodeBytes bpv values blocks iterations = do {
     op \<leftarrow> packedBulkOps (bpv - 1);
     bop_EncodeBytes op values blocks iterations
   }"

definition packed_count :: "(BulkOperationPacked \<Rightarrow> nat) \<Rightarrow> nat \<Rightarrow> nat" where
  "packed_count field bpv = (case NewPacked bpv of None \<Rightarrow> 0 | Some b \<Rightarrow> field b)"

abbreviation packed_width :: "nat \<Rightarrow> bool" where
  "packed_width bpv \<equiv> 1 \<le> bpv \<and> bpv \<le> 64"

locale bulk_codec =
  fixes width_ok :: "nat \<Rightarrow> bool"
    and value_count :: "nat \<Rightarrow> nat"
    and block_count :: "nat \<Rightarrow> nat"
    and decode :: "nat \<Rightarrow> 'b::len word list \<Rightarrow> u64 list \<Rightarrow> nat \<Rightarrow> u64 list option"
    and encode :: "nat \<Rightarrow> u64 list \<Rightarrow> 'b word list \<Rightarrow> nat \<Rightarrow> 'b word list option"
  assumes width_range: "width_ok bpv \<Longrightarrow> 1 \<le> bpv \<and> bpv \<le> 64"
    and counts: "width_ok bpv \<Longrightarrow> value_count bpv * bpv = block_count bpv * LENGTH('b)"
    and decode_eq: "width_ok bpv \<Longrightarrow> decode bpv blocks vs n =
      (if n * value_count bpv \<le> length vs \<and> n * block_count bpv \<le> length blocks
       then Some (write_block vs 0 (map (packed_value bpv blocks) [0..<n * value_count bpv])) else None)"
    and encode_eq: "width_ok bpv \<Longrightarrow> fits_width bpv vs \<Longrightarrow> encode bpv vs blocks n =
      (if n * value_count bpv \<le> length vs \<and> n * block_count bpv \<le> length blocks
       then Some (write_block blocks 0 (map (stream_block bpv vs) [0..<n * block_count bpv])) else None)"
begin

lemma stream_of_encoded:
  fixes blocks bl :: "'b word list"
  assumes "width_ok bpv" and "n * block_count bpv \<le> length blocks" and "i < n * value_count bpv"
    and "bl = write_block blocks 0 (map (stream_block bpv vs) [0..<n * block_count bpv])"
  shows "packed_value bpv bl i = take_bit bpv (vs ! i)"
proof (rule packed_value_of_values)
  show "bpv \<le> 64"
    using width_range [OF assms(1)] by simp
  fix k
  assume "i * bpv \<le> k" and k: "k < (i + 1) * bpv"
  have "(i + 1) * bpv \<le> n * value_count bpv * bpv"
    using assms(3) by (intro mult_le_mono1) simp
  also have "\<dots> = n * block_count bpv * LENGTH('b)"
    using counts [OF assms(1)] by (simp add: mult.assoc)
  finally have "k < n * block_count bpv * LENGTH('b)"
    using k by linarith
  moreover have "bl ! q = stream_block bpv vs q" if "q < n * block_count bpv" for q
    using that assms(2) by (simp add: assms(4) nth_write_block)
  ultimately show "stream_bit bl k = values_bit bpv vs k"
    by (intro stream_bit_of_blocks)
qed

lemma roundtrip:
  assumes "width_ok bpv" and "fits_width bpv vs" and "n * value_count bpv \<le> length vs"
    and "n * block_count bpv \<le> length blocks" and "n * value_count bpv \<le> length out"
  shows "\<exists>bl. encode bpv vs blocks n = Some bl \<and> length bl = length blocks \<and>
    drop (n * block_count bpv) bl = drop (n * block_count bpv) blocks \<and>
    decode bpv bl out n = Some (write_block out 0 (take (n * value_count bpv) vs))"
proof -
  define bl where "bl = write_block blocks 0 (map (stream_block bpv vs) [0..<n * block_count bpv])"
  have "map (packed_value bpv bl) [0..<n * value_count bpv] = take (n * value_count bpv) vs"
  proof (rule nth_equalityI)
    fix i
    assume "i < length (map (packed_value bpv bl) [0..<n * value_count bpv])"
    then have i: "i < n * value_count bpv"
      by simp
    with assms show "map (packed_value bpv bl) [0..<n * value_count bpv] ! i = take (n * value_count bpv) vs ! i"
      by (simp add: stream_of_encoded [OF assms(1,4) i bl_def] fits_width_nth)
  qed (use assms in simp)
  moreover have "length bl = length blocks" "drop (n * block_count bpv) bl = drop (n * block_count bpv) blocks"
    using assms(4) by (simp_all add: bl_def write_block_def)
  ultimately show ?thesis
    using assms by (auto simp: encode_eq decode_eq bl_def)
qed

end

lemma packedBulkOps_eq:
  assumes "packed_width bpv"
  obtains b where "NewPacked bpv = Some b" and "bp_wf b" and "bp_bitsPerValue b = bpv"
    and "packedBulkOps (bpv - 1) = Some ((if bpv \<le> 24 then PackedN bpv else PackedGeneric) b)"
proof -
  have "Suc (bpv - 1) = bpv" "bpv - 1 < 24 \<longleftrightarrow> bpv \<le> 24"
    using assms by auto
  with NewPacked_wf [of bpv] assms that show thesis
    by (auto simp: packedBulkOps_def split: if_splits)
qed

lemma packed_DecodeUint64_eq:
  assumes "packed_width bpv"
  shows "packed_DecodeUint64 bpv blocks vs n =
      (if n * packed_count bp_longValueCount bpv \<le> length vs \<and> n * packed_count bp_longBlockCount bpv \<le> length blocks
       then Some (write_block vs 0 (map (packed_value bpv blocks) [0..<n * packed_count bp_longValueCount bpv])) else None)"
proof -
  obtain b where b: "NewPacked bpv = Some b" "bp_wf b" "bp_bitsPerValue b = bpv"
    "packedBulkOps (bpv - 1) = Some ((if bpv \<le> 24 then PackedN bpv else PackedGeneric) b)"
    using packedBulkOps_eq [OF assms] .
  have "packed_DecodeUint64 bpv blocks vs n = bp_DecodeUint64 b blocks vs n"
    using b assms PackedN_DecodeUint64_eq [of bpv b] by (simp add: packed_DecodeUint64_def)
  then show ?thesis
    using bp_DecodeUint64_eq [OF b(2)] b by (simp add: packed_count_def)
qed

lemma packed_DecodeBytes_eq:
  assumes "packed_width bpv"
  shows "packed_DecodeBytes bpv blocks vs n =
      (if n * packed_count bp_byteValueCount bpv \<le> length vs \<and> n * packed_count bp_byteBlockCount bpv \<le> length blocks
       then Some (write_block vs 0 (map (packed_value bpv blocks) [0..<n * packed_count bp_byteValueCount bpv])) else None)"
proof -
  obtain b where b: "NewPacked bpv = Some b" "bp_wf b" "bp_bitsPerValue b = bpv"
    "packedBulkOps (bpv - 1) = Some ((if bpv \<le> 24 then PackedN bpv else PackedGeneric) b)"
    using packedBulkOps_eq [OF assms] .
  have "packed_DecodeBytes bpv blocks vs n = bp_DecodeBytes b blocks vs n"
    using b assms PackedN_DecodeBytes_eq [of bpv b] by (simp add: packed_DecodeBytes_def)
  then show ?thesis
    using bp_DecodeBytes_eq [OF b(2)] b by (simp add: packed_count_def)
qed

lemma packed_EncodeUint64_eq:
  assumes "packed_width bpv" and "fits_width bpv vs"
  shows "packed_EncodeUint64 bpv vs blocks n =
      (if n * packed_count bp_longValueCount bpv \<le> length vs \<and> n * packed_count bp_longBlockCount bpv \<le> length blocks
       then Some (write_block blocks 0 (map (stream_block bpv vs) [0..<n * packed_count bp_longBlockCount bpv])) else None)"
proof -
  obtain b where b: "NewPacked bpv = Some b" "bp_wf b" "bp_bitsPerValue b = bpv"
    "packedBulkOps (bpv - 1) = Some ((if bpv \<le> 24 then PackedN bpv else PackedGeneric) b)"
    using packedBulkOps_eq [OF assms(1)] .
  then show ?thesis
    using bp_EncodeUint64_eq [OF b(2)] assms(2) by (simp add: packed_count_def packed_EncodeUint64_def)
qed

lemma packed_EncodeBytes_eq:
  assumes "packed_width bpv" and "fits_width bpv vs"
  shows "packed_EncodeBytes bpv vs blocks n =
      (if n * packed_count bp_byteValueCount bpv \<le> length vs \<and> n * packed_count bp_byteBlockCount bpv \<le> length blocks
       then Some (write_block blocks 0 (map (stream_block bpv vs) [0..<n * packed_count bp_byteBlockCount bpv])) else None)"
proof -
  obtain b where b: "NewPacked bpv = Some b" "bp_wf b" "bp_bitsPerValue b = bpv"
    "packedBulkOps (bpv - 1) = Some ((if bpv \<le> 24 then PackedN bpv else PackedGeneric) b)"
    using packedBulkOps_eq [OF assms(1)] .
  then show ?thesis
    using bp_EncodeBytes_eq [OF b(2)] assms(2) by (simp add: packed_count_def packed_EncodeBytes_def)
qed

lemma packed_counts:
  assumes "packed_width bpv"
  shows "packed_count bp_longValueCount bpv * bpv = packed_count bp_longBlockCount bpv * 64"
    and "packed_count bp_byteValueCount bpv * bpv = packed_count bp_byteBlockCount bpv * 8"
  using NewPacked_wf [of bpv] assms by (auto simp: packed_count_def bp_wf_def)

interpretation long_codec: bulk_codec packed_width "packed_count bp_longValueCount" "packed_count bp_longBlockCount"
  packed_DecodeUint64 packed_EncodeUint64
  by unfold_locales (simp_all add: packed_counts packed_DecodeUint64_eq packed_EncodeUint64_eq)

interpretation byte_codec: bulk_codec packed_width "packed_count bp_byteValueCount" "packed_count bp_byteBlockCount"
  packed_DecodeBytes packed_EncodeBytes
  by unfold_locales (simp_all add: packed_counts packed_DecodeBytes_eq packed_EncodeBytes_eq)


subsection \<open>The operation PACKED\_SINGLE\_BLOCK\<close>

text \<open>Value \<open>j\<close> of a single block, and the block that holds the values from \<open>off\<close> on.\<close>

definition block_value :: "nat \<Rightarrow> u64 \<Rightarrow> nat \<Rightarrow> u64" where
  "block_value bpv block j = drop_bit (j * bpv) block AND mask bpv"

definition block_of :: "nat \<Rightarrow> u64 list \<Rightarrow> nat \<Rightarrow> nat \<Rightarrow> u64" where
  "block_of bpv vs off n = horner_sum of_bool 2
     (map (\<lambda>k. k < n * bpv \<and> bit (vs ! (off + k div bpv)) (k mod bpv)) [0..<64])"

definition psb_wf :: "PackedSingleBlock \<Rightarrow> bool" where
  "psb_wf b \<longleftrightarrow> 1 \<le> psb_bitsPerValue b \<and> psb_bitsPerValue b \<le> 32 \<and>
     psb_valueCount b = 64 div psb_bitsPerValue b \<and> psb_mask b = mask (psb_bitsPerValue b)"

lemma NewPackedSingleBlock_wf:
  "NewPackedSingleBlock bpv = Some b \<Longrightarrow> bpv \<le> 32 \<Longrightarrow> psb_wf b \<and> psb_bitsPerValue b = bpv"
  by (auto simp: NewPackedSingleBlock_def psb_wf_def mask_eq_exp_minus_1 split: if_splits)

lemma psb_wfD:
  assumes "psb_wf b"
  shows "1 \<le> psb_bitsPerValue b" "1 \<le> psb_valueCount b" "psb_valueCount b * psb_bitsPerValue b \<le> 64"
    "psb_mask b = mask (psb_bitsPerValue b)" "psb_bitsPerValue b \<le> 64"
  using assms by (simp_all add: psb_wf_def div_times_less_eq_dividend less_eq_div_iff_mult_less_eq)

lemma psb_decodeLong_loop_eq:
  assumes "psb_mask b = mask (psb_bitsPerValue b)"
  shows "psb_decodeLong_loop b n (drop_bit (j * psb_bitsPerValue b) block) vs off =
    (if n = 0 \<or> off + n \<le> length vs
     then Some (write_block vs off (map (block_value (psb_bitsPerValue b) block) [j + 1..<j + 1 + n]), off + n) else None)"
proof (induction n arbitrary: j off vs)
  case (Suc n)
  have "psb_bitsPerValue b + j * psb_bitsPerValue b = (j + 1) * psb_bitsPerValue b"
    by simp
  then show ?case
    using Suc.IH [of "j + 1"]
    by (auto simp: slice_set_def assms block_value_def write_block_Cons upt_conv_Cons simp del: upt_Suc)
qed simp

lemma psb_decodeLong_eq:
  assumes "psb_wf b"
  shows "psb_decodeLong b block vs off =
    (if off + (psb_valueCount b + 1) \<le> length vs
     then Some (write_block vs off (map (block_value (psb_bitsPerValue b) block) [0..<psb_valueCount b + 1]),
                off + (psb_valueCount b + 1)) else None)"
  using psb_decodeLong_loop_eq [OF psb_wfD(4) [OF assms], of "psb_valueCount b" 0 block "vs[off := block_value (psb_bitsPerValue b) block 0]" "off + 1"]
    psb_wfD(2) [OF assms]
  by (auto simp: psb_decodeLong_def slice_set_def psb_wfD(4) [OF assms] block_value_def write_block_Cons
      upt_conv_Cons simp del: upt_Suc)

lemma bit_block_of:
  "bit (block_of bpv vs off n) k \<longleftrightarrow> k < 64 \<and> k < n * bpv \<and> bit (vs ! (off + k div bpv)) (k mod bpv)"
  by (auto simp: block_of_def bit_horner_sum_bit_word_iff)

lemma block_of_Suc:
  assumes "1 \<le> bpv" and "(n + 1) * bpv \<le> 64" and "take_bit bpv (vs ! (off + n)) = vs ! (off + n)"
  shows "block_of bpv vs off n OR push_bit (n * bpv) (vs ! (off + n)) = block_of bpv vs off (n + 1)"
proof (rule bit_word_eqI)
  fix k :: nat
  assume "k < LENGTH(64)"
  then have k: "k < 64" by simp
  have hi: "bit (vs ! (off + n)) m \<Longrightarrow> m < bpv" for m
    using assms(3) by (metis bit_take_bit_iff)
  consider "k < n * bpv" | "n * bpv \<le> k" "k < (n + 1) * bpv" | "(n + 1) * bpv \<le> k"
    by linarith
  then show "bit (block_of bpv vs off n OR push_bit (n * bpv) (vs ! (off + n))) k
    = bit (block_of bpv vs off (n + 1)) k"
  proof cases
    case 1
    then show ?thesis
      using k by (simp add: bit_or_iff bit_block_of bit_push_bit_iff trans_less_add2)
  next
    case 2
    then have "k div bpv = n" "k mod bpv = k - n * bpv"
      by (simp_all add: div_nat_eqI mult.commute modulo_nat_def)
    then show ?thesis
      using 2 k by (simp add: bit_or_iff bit_block_of bit_push_bit_iff)
  next
    case 3
    then have "\<not> bit (vs ! (off + n)) (k - n * bpv)"
      using hi [of "k - n * bpv"] by auto
    then show ?thesis
      using 3 k by (auto simp: bit_or_iff bit_block_of bit_push_bit_iff)
  qed
qed

lemma psb_encodeLong_loop_eq:
  assumes "psb_wf b" and bpv: "bpv = psb_bitsPerValue b" and "fits_width bpv vs"
    and "j + n \<le> psb_valueCount b"
  shows "psb_encodeLong_loop b n j (block_of bpv vs off j) vs (off + j) =
    (if n = 0 \<or> off + j + n \<le> length vs then Some (block_of bpv vs off (j + n)) else None)"
  using assms(4)
proof (induction n arbitrary: j)
  case (Suc n)
  show ?case
  proof (cases "off + j < length vs")
    case True
    have "(j + 1) * bpv \<le> psb_valueCount b * bpv"
      using Suc.prems by (intro mult_le_mono1) simp
    then have "(j + 1) * bpv \<le> 64"
      using psb_wfD(3) [OF assms(1)] by (simp add: bpv)
    then have "block_of bpv vs off j OR push_bit (j * bpv) (vs ! (off + j)) = block_of bpv vs off (j + 1)"
      using psb_wfD(1) [OF assms(1)] fits_width_nth [OF assms(3) True] by (intro block_of_Suc) (simp_all add: bpv)
    then show ?thesis
      using Suc.IH [of "j + 1"] Suc.prems True by (auto simp: slice_get_def bpv)
  next
    case False
    then show ?thesis by (simp add: slice_get_def)
  qed
qed simp

lemma psb_encodeLong_eq:
  assumes "psb_wf b" and bpv: "bpv = psb_bitsPerValue b" and "fits_width bpv vs"
  shows "psb_encodeLong b vs off =
    (if off + psb_valueCount b \<le> length vs then Some (block_of bpv vs off (psb_valueCount b)) else None)"
proof (cases "off < length vs")
  case True
  have "block_of bpv vs off 0 = 0"
    by (rule bit_word_eqI) (simp add: bit_block_of)
  then have "vs ! off = block_of bpv vs off 1"
    using block_of_Suc [of bpv 0 vs off] fits_width_nth [OF assms(3) True] psb_wfD [OF assms(1)]
    by (simp add: bpv)
  then show ?thesis
    using psb_encodeLong_loop_eq [OF assms, of 1 "psb_valueCount b - 1" off] psb_wfD(2) [OF assms(1)] True
    by (auto simp: psb_encodeLong_def slice_get_def)
next
  case False
  then show ?thesis
    using psb_wfD(2) [OF assms(1)] by (simp add: psb_encodeLong_def slice_get_def)
qed

lemma block_value_of_block:
  assumes "1 \<le> bpv" and "n * bpv \<le> 64" and "j < n"
  shows "block_value bpv (block_of bpv vs off n) j = take_bit bpv (vs ! (off + j))"
proof (rule bit_word_eqI)
  fix k :: nat
  assume "k < LENGTH(64)"
  then have k: "k < 64" by simp
  show "bit (block_value bpv (block_of bpv vs off n) j) k = bit (take_bit bpv (vs ! (off + j))) k"
  proof (cases "k < bpv")
    case True
    then have "(k + j * bpv) div bpv = j" "(k + j * bpv) mod bpv = k"
      using assms(1) by simp_all
    moreover have "k + j * bpv < (j + 1) * bpv" "(j + 1) * bpv \<le> n * bpv"
      using True assms(3) by (simp, intro mult_le_mono1, simp)
    then have "k + j * bpv < n * bpv"
      by linarith
    ultimately show ?thesis
      using True k assms(2) by (simp add: block_value_def bit_and_iff bit_mask_iff bit_drop_bit_eq bit_block_of
          bit_take_bit_iff add.commute)
  qed (simp add: block_value_def bit_and_iff bit_mask_iff bit_take_bit_iff)
qed


lemma psb_DecodeUint64_loop_eq:
  assumes "psb_wf b" and "bo \<le> length blocks" and "vo \<le> length vs"
  shows "psb_DecodeUint64_loop b blocks n bo vo vs =
    (if bo + n \<le> length blocks \<and> vo + n * (psb_valueCount b + 1) \<le> length vs
     then Some (write_block vs vo (concat (map (\<lambda>q. map (block_value (psb_bitsPerValue b) (blocks ! q))
        [0..<psb_valueCount b + 1]) [bo..<bo + n])))
     else None)"
  using assms(2,3)
proof (induction n arbitrary: bo vo vs)
  case 0
  then show ?case by simp
next
  case (Suc n)
  let ?m = "psb_valueCount b + 1"
  let ?f = "\<lambda>q. map (block_value (psb_bitsPerValue b) (blocks ! q)) [0..<?m]"
  show ?case
  proof (cases "bo < length blocks \<and> vo + ?m \<le> length vs")
    case True
    have "psb_DecodeUint64_loop b blocks (Suc n) bo vo vs =
        psb_DecodeUint64_loop b blocks n (bo + 1) (vo + ?m) (write_block vs vo (?f bo))"
      using True by (simp add: psb_decodeLong_eq [OF assms(1)] slice_get_def del: upt_Suc)
    also have "\<dots> = (if bo + 1 + n \<le> length blocks \<and> vo + ?m + n * ?m \<le> length vs
        then Some (write_block (write_block vs vo (?f bo)) (vo + ?m) (concat (map ?f [bo + 1..<bo + 1 + n])))
        else None)"
      using Suc.IH [of "bo + 1" "vo + ?m" "write_block vs vo (?f bo)"] True by simp
    also have "\<dots> = (if bo + Suc n \<le> length blocks \<and> vo + Suc n * ?m \<le> length vs
        then Some (write_block vs vo (concat (map ?f [bo..<bo + Suc n]))) else None)"
    proof -
      let ?c = "concat (map ?f [bo + 1..<bo + 1 + n])"
      have len: "length ?c = n * ?m"
        by (simp add: length_concat comp_def sum_list_triv del: upt_Suc)
      have upt: "concat (map ?f [bo..<bo + Suc n]) = ?f bo @ ?c"
        by (simp add: upt_conv_Cons [of bo] del: upt_Suc)
      have wb: "write_block (write_block vs vo (?f bo)) (vo + ?m) ?c = write_block vs vo (?f bo @ ?c)"
        if "vo + Suc n * ?m \<le> length vs"
        using write_block_append [of vo "?f bo" ?c vs] len that by (simp add: add.assoc)
      show ?thesis
        unfolding upt by (rule if_cong) (use wb in \<open>auto simp: add.assoc\<close>)
    qed
    finally show ?thesis .
  next
    case False
    then show ?thesis
      by (auto simp: psb_decodeLong_eq [OF assms(1)] slice_get_def del: upt_Suc)
  qed
qed


subsection \<open>Properties\<close>

lemma Of_packed_cases:
  assumes "Of FormatPacked bpv = Some (Some op)"
  obtains b where "packed_width bpv" and "NewPacked bpv = Some b" and "bp_wf b" and "bp_bitsPerValue b = bpv"
    and "op = (if bpv \<le> 24 then PackedN bpv else PackedGeneric) b"
proof -
  have w: "packed_width bpv" and op: "packedBulkOps (bpv - 1) = Some op"
    using assms by (auto simp: Of_def split: if_splits)
  show thesis
    using packedBulkOps_eq [OF w] op w that by auto
qed

lemma Of_packed_methods:
  assumes "Of FormatPacked bpv = Some (Some op)"
  shows "packed_width bpv"
    and "bop_DecodeUint64 op blocks vs n = packed_DecodeUint64 bpv blocks vs n"
    and "bop_DecodeBytes op bytes vs n = packed_DecodeBytes bpv bytes vs n"
    and "bop_EncodeUint64 op vs blocks n = packed_EncodeUint64 bpv vs blocks n"
    and "bop_EncodeBytes op vs bytes n = packed_EncodeBytes bpv vs bytes n"
    and "bop_LongValueCount op = packed_count bp_longValueCount bpv"
    and "bop_ByteValueCount op = packed_count bp_byteValueCount bpv"
    and "bop_ByteBlockCount op = packed_count bp_byteBlockCount bpv"
proof -
  obtain b where b: "packed_width bpv" "NewPacked bpv = Some b" "op = (if bpv \<le> 24 then PackedN bpv else PackedGeneric) b"
    using Of_packed_cases [OF assms] .
  have op: "packedBulkOps (bpv - 1) = Some op"
    using assms b(1) by (simp add: Of_def)
  show "packed_width bpv"
    by (rule b(1))
  show "bop_DecodeUint64 op blocks vs n = packed_DecodeUint64 bpv blocks vs n"
    and "bop_DecodeBytes op bytes vs n = packed_DecodeBytes bpv bytes vs n"
    and "bop_EncodeUint64 op vs blocks n = packed_EncodeUint64 bpv vs blocks n"
    and "bop_EncodeBytes op vs bytes n = packed_EncodeBytes bpv vs bytes n"
    by (simp_all only: packed_DecodeUint64_def packed_DecodeBytes_def packed_EncodeUint64_def packed_EncodeBytes_def
        op bind.bind_lunit)
  show "bop_LongValueCount op = packed_count bp_longValueCount bpv"
    and "bop_ByteValueCount op = packed_count bp_byteValueCount bpv"
    and "bop_ByteBlockCount op = packed_count bp_byteBlockCount bpv"
    using b(2,3) by (simp_all add: packed_count_def bp_LongValueCount_def bp_ByteValueCount_def bp_ByteBlockCount_def)
qed

text \<open>
  C1. The table of bulk operations decodes correctly at every width: whatever operation \<open>Of\<close>
  returns for the format PACKED (one of the 24 specialised decoders or the generic one), decoding
  64-bit blocks stores exactly the values of the bit stream, and panics exactly when a slice is
  too short.
\<close>

theorem bulk_decode_long:
  assumes "Of FormatPacked bpv = Some (Some op)"
  shows "bop_DecodeUint64 op blocks vs n =
    (if n * bop_LongValueCount op \<le> length vs \<and> n * bop_LongValueCount op * bpv \<le> 64 * length blocks
     then Some (write_block vs 0 (map (packed_value bpv blocks) [0..<n * bop_LongValueCount op])) else None)"
proof -
  note m = Of_packed_methods [OF assms]
  have eq: "n * bop_LongValueCount op * bpv = 64 * (n * packed_count bp_longBlockCount bpv)"
    using packed_counts(1) [OF m(1)] by (simp add: m(6) mult.assoc)
  show ?thesis
    unfolding eq by (simp add: m(2,6) packed_DecodeUint64_eq [OF m(1)])
qed

theorem bulk_decode_long_witness:
  "\<exists>op. Of FormatPacked 12 = Some (Some op) \<and>
     bop_DecodeUint64 op [0xABCDEF0123456789, 1, 2] (replicate 16 0) 1 =
       Some (map (packed_value 12 [0xABCDEF0123456789, 1, 2 :: u64]) [0..<16])"
proof -
  obtain b where b: "NewPacked 12 = Some b" "bp_LongValueCount b = 16"
    by (simp add: NewPacked_eval bp_LongValueCount_def)
  then have "Of FormatPacked 12 = Some (Some (PackedN 12 b))"
    by (simp add: Of_def packedBulkOps_def)
  from bulk_decode_long [OF this, of "[0xABCDEF0123456789, 1, 2]" "replicate 16 0" 1] this b show ?thesis
    by (simp add: write_block_def)
qed

text \<open>
  C2. The same for byte slices, with the number of bytes the operation announces
  (\<open>ByteBlockCount\<close>).
\<close>

theorem bulk_decode_bytes:
  assumes "Of FormatPacked bpv = Some (Some op)"
  shows "bop_DecodeBytes op blocks vs n =
    (if n * bop_ByteValueCount op \<le> length vs \<and> n * bop_ByteBlockCount op \<le> length blocks
     then Some (write_block vs 0 (map (packed_value bpv blocks) [0..<n * bop_ByteValueCount op])) else None)"
  using packed_DecodeBytes_eq [OF Of_packed_methods(1) [OF assms]] by (simp add: Of_packed_methods [OF assms])

theorem bulk_decode_bytes_witness:
  "\<exists>op. Of FormatPacked 12 = Some (Some op) \<and>
     bop_DecodeBytes op [0xAB, 0xCD, 0xEF] [0, 0] 1 = Some [0xABC, 0xDEF]"
proof -
  obtain b where b: "NewPacked 12 = Some b" "bp_ByteValueCount b = 2" "bp_ByteBlockCount b = 3"
    by (simp add: NewPacked_eval bp_ByteValueCount_def bp_ByteBlockCount_def)
  then have "Of FormatPacked 12 = Some (Some (PackedN 12 b))"
    by (simp add: Of_def packedBulkOps_def)
  from bulk_decode_bytes [OF this, of "[0xAB, 0xCD, 0xEF]" "[0, 0]" 1] this b show ?thesis
    by (simp add: write_block_def packed_value_value8_at value8_at_def upt_numerals)
qed

text \<open>
  C3. Encoding values that fit the width and decoding the blocks gives the values back, at every
  width, over 64-bit blocks; the blocks after the encoded ones are untouched.
\<close>

theorem bulk_roundtrip_long:
  assumes "Of FormatPacked bpv = Some (Some op)" and "fits_width bpv vs"
    and "n * bop_LongValueCount op \<le> length vs" and "n * bop_LongValueCount op * bpv \<le> 64 * length blocks"
    and "n * bop_LongValueCount op \<le> length out"
  shows "\<exists>bl. bop_EncodeUint64 op vs blocks n = Some bl \<and> length bl = length blocks \<and>
    (\<forall>k. n * bop_LongValueCount op * bpv \<le> 64 * k \<longrightarrow> drop k bl = drop k blocks) \<and>
    bop_DecodeUint64 op bl out n = Some (write_block out 0 (take (n * bop_LongValueCount op) vs))"
proof -
  note m = Of_packed_methods [OF assms(1)]
  have eq: "n * bop_LongValueCount op * bpv = 64 * (n * packed_count bp_longBlockCount bpv)"
    using packed_counts(1) [OF m(1)] by (simp add: m(6) mult.assoc)
  have fit: "n * packed_count bp_longBlockCount bpv \<le> length blocks"
    using assms(4) unfolding eq by simp
  obtain bl where bl: "packed_EncodeUint64 bpv vs blocks n = Some bl" "length bl = length blocks"
    "drop (n * packed_count bp_longBlockCount bpv) bl = drop (n * packed_count bp_longBlockCount bpv) blocks"
    "packed_DecodeUint64 bpv bl out n = Some (write_block out 0 (take (n * packed_count bp_longValueCount bpv) vs))"
    using long_codec.roundtrip [OF m(1) assms(2) _ fit, of out] assms(3,5) m(6) by auto
  have "drop k bl = drop k blocks" if "n * bop_LongValueCount op * bpv \<le> 64 * k" for k
  proof -
    have "n * packed_count bp_longBlockCount bpv \<le> k"
      using that unfolding eq by simp
    then show ?thesis
      using bl(3) by (metis drop_drop le_add_diff_inverse2)
  qed
  then show ?thesis
    using bl by (auto simp: m)
qed

theorem bulk_roundtrip_long_witness:
  "\<exists>op bl. Of FormatPacked 12 = Some (Some op) \<and>
     bop_EncodeUint64 op (map word_of_nat [0..<16]) [0, 0, 0, 7] 1 = Some bl \<and>
     bop_DecodeUint64 op bl (replicate 16 0) 1 = Some (map word_of_nat [0..<16])"
proof -
  obtain b where b: "NewPacked 12 = Some b" "bp_LongValueCount b = 16"
    by (simp add: NewPacked_eval bp_LongValueCount_def)
  then have "Of FormatPacked 12 = Some (Some (PackedN 12 b))"
    by (simp add: Of_def packedBulkOps_def)
  moreover have "fits_width 12 (map word_of_nat [0..<16])"
    by (simp add: fits_width_def upt_numerals take_bit_eq_mask mask_eq_exp_minus_1)
  ultimately show ?thesis
    using bulk_roundtrip_long [of 12 "PackedN 12 b" "map word_of_nat [0..<16]" 1 "[0, 0, 0, 7]" "replicate 16 0"] b(2)
    by (auto simp: write_block_def)
qed

text \<open>C4. The round trip over byte slices, at every width.\<close>

theorem bulk_roundtrip_bytes:
  assumes "Of FormatPacked bpv = Some (Some op)" and "fits_width bpv vs"
    and "n * bop_ByteValueCount op \<le> length vs" and "n * bop_ByteBlockCount op \<le> length blocks"
    and "n * bop_ByteValueCount op \<le> length out"
  shows "\<exists>bl. bop_EncodeBytes op vs blocks n = Some bl \<and> length bl = length blocks \<and>
    drop (n * bop_ByteBlockCount op) bl = drop (n * bop_ByteBlockCount op) blocks \<and>
    bop_DecodeBytes op bl out n = Some (write_block out 0 (take (n * bop_ByteValueCount op) vs))"
  using byte_codec.roundtrip [OF Of_packed_methods(1) [OF assms(1)] assms(2), of n blocks out] assms(3-5)
  by (simp add: Of_packed_methods [OF assms(1)])

theorem bulk_roundtrip_bytes_witness:
  "\<exists>op bl. Of FormatPacked 12 = Some (Some op) \<and> bop_EncodeBytes op [0xABC, 0xDEF] [0, 0, 0, 9] 1 = Some bl \<and>
     drop 3 bl = [9] \<and> bop_DecodeBytes op bl [0, 0] 1 = Some [0xABC, 0xDEF]"
proof -
  obtain b where b: "NewPacked 12 = Some b" "bp_ByteValueCount b = 2" "bp_ByteBlockCount b = 3"
    by (simp add: NewPacked_eval bp_ByteValueCount_def bp_ByteBlockCount_def)
  then have "Of FormatPacked 12 = Some (Some (PackedN 12 b))"
    by (simp add: Of_def packedBulkOps_def)
  moreover have "fits_width 12 [0xABC, 0xDEF]"
    by (simp add: fits_width_def take_bit_eq_mask mask_eq_exp_minus_1)
  ultimately show ?thesis
    using bulk_roundtrip_bytes [of 12 "PackedN 12 b" "[0xABC, 0xDEF]" 1 "[0, 0, 0, 9]" "[0, 0]"] b
    by (auto simp: write_block_def)
qed

text \<open>
  C9. The operation PACKED\_SINGLE\_BLOCK: a block that \<open>encodeLong\<close> writes holds the values, and
  \<open>decodeLong\<close> reads them back, but \<open>decodeLong\<close> stores one value more than the block holds.
\<close>

theorem single_block_roundtrip:
  assumes "NewPackedSingleBlock bpv = Some b" and "bpv \<le> 32" and "fits_width bpv vs"
    and "psb_valueCount b \<le> length vs" and "psb_valueCount b < length out"
  shows "\<exists>block extra. psb_encodeLong b vs 0 = Some block \<and>
    psb_decodeLong b block out 0 =
      Some (write_block out 0 (take (psb_valueCount b) vs @ [extra]), psb_valueCount b + 1)"
proof -
  have wf: "psb_wf b" and bpv: "bpv = psb_bitsPerValue b"
    using NewPackedSingleBlock_wf [OF assms(1,2)] by auto
  let ?n = "psb_valueCount b" and ?block = "block_of bpv vs 0 (psb_valueCount b)"
  have "block_value bpv ?block j = vs ! j" if "j < ?n" for j
    using that block_value_of_block [of bpv ?n j vs 0] psb_wfD [OF wf] fits_width_nth [OF assms(3), of j] assms(4)
    by (simp add: bpv)
  then have "map (block_value bpv ?block) [0..<?n] = take ?n vs"
    using assms(4) by (intro nth_equalityI) simp_all
  then show ?thesis
    using psb_encodeLong_eq [OF wf bpv assms(3)] psb_decodeLong_eq [OF wf, of ?block out 0] assms(4,5)
    by (simp add: bpv) blast
qed

theorem single_block_roundtrip_witness:
  "\<exists>b block extra. NewPackedSingleBlock 21 = Some b \<and> psb_encodeLong b [1, 2, 3] 0 = Some block \<and>
     psb_decodeLong b block [0, 0, 0, 0] 0 = Some ([1, 2, 3, extra], 4)"
proof -
  obtain b where b: "NewPackedSingleBlock 21 = Some b" "psb_valueCount b = 3"
    by (simp add: NewPackedSingleBlock_def)
  moreover have "fits_width 21 [1, 2, 3]"
    by (simp add: fits_width_def take_bit_eq_mask mask_eq_exp_minus_1)
  ultimately show ?thesis
    using single_block_roundtrip [of 21 b "[1, 2, 3]" "[0, 0, 0, 0]"] by (auto simp: write_block_def)
qed

text \<open>
  Hence decoding into a buffer of the announced size (\<open>iterations * LongValueCount\<close> values)
  always panics.
\<close>

theorem single_block_decode_panics:
  assumes "NewPackedSingleBlock bpv = Some b" and "bpv \<le> 32"
    and "0 < iterations" and "length out = iterations * psb_valueCount b"
  shows "psb_DecodeUint64 b blocks out iterations = None"
  using psb_DecodeUint64_loop_eq [of b 0 blocks 0 out iterations] NewPackedSingleBlock_wf [OF assms(1,2)] assms(3,4)
  by (simp add: psb_DecodeUint64_def)

theorem single_block_decode_panics_witness:
  "\<exists>b. NewPackedSingleBlock 21 = Some b \<and> psb_DecodeUint64 b [5] [0, 0, 0] 1 = None"
proof -
  obtain b where "NewPackedSingleBlock 21 = Some b" "psb_valueCount b = 3"
    by (simp add: NewPackedSingleBlock_def)
  then show ?thesis
    using single_block_decode_panics [of 21 b 1 "[0, 0, 0]" "[5]"] by simp
qed

text \<open>
  The accessor \<open>LongBlockCount\<close> of the generic operation returns the number of byte blocks:
  it is the number of 64-bit blocks of an iteration exactly when 16 does not divide the width.
\<close>

lemma halved_counts:
  assumes "NewPacked bpv = Some b" and "packed_width bpv"
  shows "bp_byteBlockCount b = bp_longBlockCount b \<longleftrightarrow> \<not> 16 dvd bpv"
proof -
  have "bpv \<in> set [1..<65]"
    using assms(2) by auto
  moreover have "\<forall>n \<in> set [1..<65]. (case NewPacked n of None \<Rightarrow> False
      | Some b \<Rightarrow> (bp_byteBlockCount b = bp_longBlockCount b) = (\<not> 16 dvd n))"
    by (simp add: upt_rec_numeral upt_1_numeral numeral_2_eq_2 [symmetric] NewPacked_eval)
  ultimately have "case NewPacked bpv of None \<Rightarrow> False
      | Some b \<Rightarrow> (bp_byteBlockCount b = bp_longBlockCount b) = (\<not> 16 dvd bpv)"
    by blast
  then show ?thesis
    by (simp add: assms(1))
qed

lemma long_block_count_wrong:
  assumes "NewPacked bpv = Some b" and "1 \<le> bpv" and "bpv \<le> 64"
  shows "bp_LongBlockCount b = bp_longBlockCount b \<longleftrightarrow> \<not> 16 dvd bpv"
  using halved_counts assms by (simp add: bp_LongBlockCount_def)


end
