(* ===== verification/Packed_Mutable.thy ===== *)
theory Packed_Mutable
  imports Bulk_Codec
begin

text \<open>
  core/util/packed/mutable.go: what every array of packed integers inherits from \<open>mutable\<close>
  (written against \<open>mutableSPI\<close>: Get, Size, Set), and the package functions \<open>Fill\<close>, \<open>SetBulk\<close>
  and \<open>GetBulk\<close>. The interface and its laws are the locale \<open>packed_array\<close>.
\<close>

text \<open>
  \<open>Get\<close> returns a value and an error; a run-time panic is \<^const>\<open>None\<close> of the option around it.
  Sizes are naturals; a difference that Go computes as a negative \<open>int\<close> is an \<^typ>\<open>int\<close>.
\<close>

type_synonym 's getter = "'s \<Rightarrow> nat \<Rightarrow> (go_error + u64) option"
type_synonym 's setter = "'s \<Rightarrow> nat \<Rightarrow> u64 \<Rightarrow> 's option"

subsection \<open>The methods of mutable\<close>

text \<open>\<open>for i := range arr[:len]\<close>: an EOF ends the loop with \<open>i\<close>, any other error with 0.\<close>

primrec mutable_GetBulk_loop ::
  "'s getter \<Rightarrow> 's \<Rightarrow> nat \<Rightarrow> nat \<Rightarrow> nat \<Rightarrow> u64 list \<Rightarrow> (nat \<times> u64 list) option" where
  "mutable_GetBulk_loop get s index 0 i arr = Some (i, arr)"
| "mutable_GetBulk_loop get s index (Suc n) i arr = do {
     r \<leftarrow> get s (index + i);
     case r of
       Inl EOF \<Rightarrow> Some (i, arr)
     | Inl (Err _) \<Rightarrow> Some (0, arr)
     | Inr v \<Rightarrow> do {
         arr \<leftarrow> slice_set arr i v;
         mutable_GetBulk_loop get s index n (i + 1) arr
       }
   }"

definition mutable_GetBulk ::
  "'s getter \<Rightarrow> ('s \<Rightarrow> nat) \<Rightarrow> 's \<Rightarrow> nat \<Rightarrow> u64 list \<Rightarrow> (nat \<times> u64 list) option" where
  "mutable_GetBulk get len s index arr =
     (if len s < index then None
      else mutable_GetBulk_loop get s index (min (len s - index) (length arr)) 0 arr)"

primrec mutable_SetBulk_loop :: "'s setter \<Rightarrow> nat \<Rightarrow> u64 list \<Rightarrow> 's \<Rightarrow> 's option" where
  "mutable_SetBulk_loop put index [] s = Some s"
| "mutable_SetBulk_loop put index (v # vs) s = do {
     s \<leftarrow> put s index v;
     mutable_SetBulk_loop put (index + 1) vs s
   }"

definition mutable_SetBulk ::
  "'s setter \<Rightarrow> ('s \<Rightarrow> nat) \<Rightarrow> 's \<Rightarrow> nat \<Rightarrow> u64 list \<Rightarrow> (nat \<times> 's) option" where
  "mutable_SetBulk put len s index arr =
     (if len s < index then None
      else let n = min (length arr) (len s - index) in
        map_option (Pair n) (mutable_SetBulk_loop put index (take n arr) s))"

primrec mutable_Fill_loop :: "'s setter \<Rightarrow> nat \<Rightarrow> nat \<Rightarrow> u64 \<Rightarrow> 's \<Rightarrow> 's option" where
  "mutable_Fill_loop put i 0 value s = Some s"
| "mutable_Fill_loop put i (Suc n) value s = do {
     s \<leftarrow> put s i value;
     mutable_Fill_loop put (i + 1) n value s
   }"

definition mutable_Fill :: "'s setter \<Rightarrow> 's \<Rightarrow> nat \<Rightarrow> nat \<Rightarrow> u64 \<Rightarrow> 's option" where
  "mutable_Fill put s fromIndex toIndex value = mutable_Fill_loop put fromIndex (toIndex - fromIndex) value s"

definition mutable_Clear :: "'s setter \<Rightarrow> ('s \<Rightarrow> nat) \<Rightarrow> 's \<Rightarrow> 's option" where
  "mutable_Clear put len s = mutable_Fill put s 0 (len s) 0"

subsection \<open>The package functions\<close>

text \<open>\<open>SetBulk\<close> of the package returns the clipped size, but its loop runs over the whole slice.\<close>

definition pkg_SetBulk ::
  "'s setter \<Rightarrow> ('s \<Rightarrow> nat) \<Rightarrow> 's \<Rightarrow> nat \<Rightarrow> u64 list \<Rightarrow> (int \<times> 's) option" where
  "pkg_SetBulk put len s index arr =
     map_option (Pair (min (int (length arr)) (int (len s) - int index)))
       (mutable_SetBulk_loop put index arr s)"

text \<open>\<open>GetBulk\<close> of the package drops the error: the value that comes with it is 0.\<close>

primrec pkg_GetBulk_loop ::
  "'s getter \<Rightarrow> 's \<Rightarrow> nat \<Rightarrow> nat \<Rightarrow> nat \<Rightarrow> u64 list \<Rightarrow> u64 list option" where
  "pkg_GetBulk_loop get s i o' 0 arr = Some arr"
| "pkg_GetBulk_loop get s i o' (Suc n) arr = do {
     r \<leftarrow> get s i;
     arr \<leftarrow> slice_set arr o' (case r of Inl _ \<Rightarrow> 0 | Inr v \<Rightarrow> v);
     pkg_GetBulk_loop get s (i + 1) (o' + 1) n arr
   }"

definition pkg_GetBulk ::
  "'s getter \<Rightarrow> ('s \<Rightarrow> nat) \<Rightarrow> 's \<Rightarrow> nat \<Rightarrow> u64 list \<Rightarrow> (int \<times> u64 list) option" where
  "pkg_GetBulk get len s index arr =
     (let gets = min (int (len s) - int index) (int (length arr)) in
      map_option (Pair gets) (pkg_GetBulk_loop get s index 0 (nat gets) arr))"

subsection \<open>The contract of a packed array\<close>

definition fits :: "nat \<Rightarrow> u64 \<Rightarrow> bool" where
  "fits bpv v \<longleftrightarrow> take_bit bpv v = v"

lemma fits_width_iff: "fits_width bpv vs \<longleftrightarrow> (\<forall>v \<in> set vs. fits bpv v)"
  by (simp add: fits_width_def fits_def)

lemma fits_0 [simp]: "fits bpv 0"
  by (simp add: fits_def)

locale packed_array =
  fixes get :: "'s getter"
    and put :: "'s setter"
    and len :: "'s \<Rightarrow> nat"
    and width :: "'s \<Rightarrow> nat"
    and inv :: "'s \<Rightarrow> bool"
  assumes get_value: "inv s \<Longrightarrow> i < len s \<Longrightarrow> \<exists>v. get s i = Some (Inr v) \<and> fits (width s) v"
    and set_value: "inv s \<Longrightarrow> i < len s \<Longrightarrow> fits (width s) v \<Longrightarrow>
      \<exists>s'. put s i v = Some s' \<and> inv s' \<and> len s' = len s \<and> width s' = width s \<and>
        (\<forall>j < len s. get s' j = (if j = i then Some (Inr v) else get s j))"
begin

definition contents :: "'s \<Rightarrow> u64 list" where
  "contents s = map (\<lambda>i. projr (the (get s i))) [0..<len s]"

lemma length_contents [simp]: "length (contents s) = len s"
  by (simp add: contents_def)

lemma get_contents: "inv s \<Longrightarrow> i < len s \<Longrightarrow> get s i = Some (Inr (contents s ! i))"
  using get_value [of s i] by (auto simp: contents_def)

lemma contents_fits: "inv s \<Longrightarrow> fits_width (width s) (contents s)"
  using get_value [of s] by (fastforce simp: contents_def fits_width_iff)

lemma set_contents:
  assumes "inv s" and "i < len s" and "fits (width s) v"
  shows "\<exists>s'. put s i v = Some s' \<and> inv s' \<and> len s' = len s \<and> width s' = width s \<and>
    contents s' = (contents s)[i := v]"
proof -
  obtain s' where s': "put s i v = Some s'" "inv s'" "len s' = len s" "width s' = width s"
    "\<forall>j < len s. get s' j = (if j = i then Some (Inr v) else get s j)"
    using set_value [OF assms] by auto
  have "contents s' = (contents s)[i := v]"
    using s' by (intro nth_equalityI) (auto simp: contents_def nth_list_update)
  with s' show ?thesis
    by auto
qed

lemma fill_loop_contents:
  assumes "inv s" and "i + n \<le> len s" and "fits (width s) v"
  shows "\<exists>s'. mutable_Fill_loop put i n v s = Some s' \<and> inv s' \<and> len s' = len s \<and> width s' = width s \<and>
    contents s' = write_block (contents s) i (replicate n v)"
  using assms
proof (induction n arbitrary: i s)
  case (Suc n)
  obtain s' where s': "put s i v = Some s'" "inv s'" "len s' = len s" "width s' = width s"
    "contents s' = (contents s)[i := v]"
    using set_contents [of s i v] Suc.prems by auto
  then show ?case
    using Suc.IH [of s' "i + 1"] Suc.prems by (auto simp: write_block_Cons)
qed simp

lemma fill_contents:
  assumes "inv s" and "a \<le> b" and "b \<le> len s" and "fits (width s) v"
  shows "\<exists>s'. mutable_Fill put s a b v = Some s' \<and> inv s' \<and> len s' = len s \<and> width s' = width s \<and>
    contents s' = write_block (contents s) a (replicate (b - a) v)"
  using fill_loop_contents [of s a "b - a" v] assms by (simp add: mutable_Fill_def)

lemma clear_contents:
  assumes "inv s"
  shows "\<exists>s'. mutable_Clear put len s = Some s' \<and> inv s' \<and> len s' = len s \<and> width s' = width s \<and>
    contents s' = replicate (len s) 0"
  using fill_contents [of s 0 "len s" 0] assms by (auto simp: mutable_Clear_def write_block_def)

lemma set_bulk_loop_contents:
  assumes "inv s" and "i + length vs \<le> len s" and "fits_width (width s) vs"
  shows "\<exists>s'. mutable_SetBulk_loop put i vs s = Some s' \<and> inv s' \<and> len s' = len s \<and> width s' = width s \<and>
    contents s' = write_block (contents s) i vs"
  using assms
proof (induction vs arbitrary: i s)
  case (Cons v vs)
  obtain s' where s': "put s i v = Some s'" "inv s'" "len s' = len s" "width s' = width s"
    "contents s' = (contents s)[i := v]"
    using set_contents [of s i v] Cons.prems by (auto simp: fits_width_iff)
  then show ?case
    using Cons.IH [of s' "i + 1"] Cons.prems by (auto simp: write_block_Cons fits_width_iff)
qed simp

lemma fits_width_take: "fits_width bpv vs \<Longrightarrow> fits_width bpv (take n vs)"
  by (auto simp: fits_width_def dest: in_set_takeD)

lemma set_bulk_contents:
  assumes "inv s" and "i \<le> len s" and "fits_width (width s) vs"
  shows "\<exists>s'. mutable_SetBulk put len s i vs = Some (min (length vs) (len s - i), s') \<and> inv s' \<and>
    len s' = len s \<and> width s' = width s \<and>
    contents s' = write_block (contents s) i (take (len s - i) vs)"
proof -
  have "take (min (length vs) (len s - i)) vs = take (len s - i) vs"
    by (simp add: min_def)
  then show ?thesis
    using set_bulk_loop_contents [of s i "take (len s - i) vs"] assms fits_width_take
    by (auto simp: mutable_SetBulk_def Let_def)
qed

lemma get_bulk_loop_contents:
  assumes "inv s" and "i + k + n \<le> len s" and "k + n \<le> length arr"
  shows "mutable_GetBulk_loop get s i n k arr = Some (k + n, write_block arr k (take n (drop (i + k) (contents s))))"
  using assms
proof (induction n arbitrary: k arr)
  case (Suc n)
  have "contents s ! (i + k) # take n (drop (i + Suc k) (contents s)) = take (Suc n) (drop (i + k) (contents s))"
    using Suc.prems by (simp add: Cons_nth_drop_Suc [symmetric])
  then show ?case
    using Suc.IH [of "k + 1" "arr[k := contents s ! (i + k)]"] Suc.prems
    by (simp add: get_contents slice_set_def write_block_Cons)
qed simp

lemma get_bulk_contents:
  assumes "inv s" and "i \<le> len s"
  shows "mutable_GetBulk get len s i arr =
    Some (min (len s - i) (length arr), write_block arr 0 (take (length arr) (drop i (contents s))))"
  using get_bulk_loop_contents [of s i 0 "min (len s - i) (length arr)" arr] assms
  by (auto simp: mutable_GetBulk_def min_def)

lemma pkg_get_bulk_loop_contents:
  assumes "inv s" and "i + n \<le> len s" and "k + n \<le> length arr"
  shows "pkg_GetBulk_loop get s i k n arr = Some (write_block arr k (take n (drop i (contents s))))"
  using assms
proof (induction n arbitrary: i k arr)
  case (Suc n)
  have "contents s ! i # take n (drop (Suc i) (contents s)) = take (Suc n) (drop i (contents s))"
    using Suc.prems by (simp add: Cons_nth_drop_Suc [symmetric])
  then show ?case
    using Suc.IH [of "i + 1" "k + 1" "arr[k := contents s ! i]"] Suc.prems
    by (simp add: get_contents slice_set_def write_block_Cons)
qed simp

end

end
