(* ===== verification/Packed64.thy ===== *)
theory Packed64
  imports Packed_Mutable
begin

text \<open>
  core/util/packed/packed64.go: values stored contiguously in 64-bit blocks.
\<close>

subsection \<open>The format, the state and the operations\<close>

text \<open>
  \<open>formatPacked.ByteCount\<close> and \<open>LongCount\<close>: the rounding up in floating point is exact as long as
  \<open>valueCount * bitsPerValue\<close> stays below 2 to the 53.
\<close>

definition FormatPacked_ByteCount :: "nat \<Rightarrow> nat \<Rightarrow> nat" where
  "FormatPacked_ByteCount valueCount bitsPerValue = (valueCount * bitsPerValue + 7) div 8"

definition FormatPacked_LongCount :: "nat \<Rightarrow> nat \<Rightarrow> nat" where
  "FormatPacked_LongCount valueCount bitsPerValue =
     (let byteCount = FormatPacked_ByteCount valueCount bitsPerValue in
      if byteCount mod 8 = 0 then byteCount div 8 else byteCount div 8 + 1)"

record Packed64 =
  p64_valueCount :: nat
  p64_bitsPerValue :: nat
  p64_blocks :: "u64 list"
  p64_maskRight :: u64
  p64_bpvMinusBlockSize :: int

text \<open>\<open>^uint64(0) << (64 - bitsPerValue) >> (64 - bitsPerValue)\<close>: a negative shift count panics.\<close>

definition NewPacked64 :: "nat \<Rightarrow> nat \<Rightarrow> Packed64 option" where
  "NewPacked64 valueCount bitsPerValue =
     (if 64 < bitsPerValue then None
      else Some \<lparr>p64_valueCount = valueCount, p64_bitsPerValue = bitsPerValue,
        p64_blocks = replicate (FormatPacked_LongCount valueCount bitsPerValue) 0,
        p64_maskRight = drop_bit (64 - bitsPerValue) (push_bit (64 - bitsPerValue) (- 1)),
        p64_bpvMinusBlockSize = int bitsPerValue - 64\<rparr>)"

definition Packed64_Get :: "Packed64 \<Rightarrow> nat \<Rightarrow> go_error + u64" where
  "Packed64_Get p index =
     (let majorBitPos = index * p64_bitsPerValue p;
          elementPos = majorBitPos div 64;
          endBits = int (majorBitPos mod 64) + p64_bpvMinusBlockSize p in
      if length (p64_blocks p) \<le> elementPos then Inl EOF
      else if endBits \<le> 0 then
        Inr (drop_bit (nat (- endBits)) (p64_blocks p ! elementPos) AND p64_maskRight p)
      else if length (p64_blocks p) \<le> elementPos + 1 then Inl EOF
      else Inr ((push_bit (nat endBits) (p64_blocks p ! elementPos) OR
                 drop_bit (nat (64 - endBits)) (p64_blocks p ! (elementPos + 1))) AND p64_maskRight p))"

definition Packed64_Set :: "Packed64 \<Rightarrow> nat \<Rightarrow> u64 \<Rightarrow> Packed64 option" where
  "Packed64_Set p index value =
     (let majorBitPos = index * p64_bitsPerValue p;
          elementPos = majorBitPos div 64;
          endBits = int (majorBitPos mod 64) + p64_bpvMinusBlockSize p in
      if endBits \<le> 0 then do {
        b \<leftarrow> slice_get (p64_blocks p) elementPos;
        blocks \<leftarrow> slice_set (p64_blocks p) elementPos
          (b AND NOT (push_bit (nat (- endBits)) (p64_maskRight p)) OR push_bit (nat (- endBits)) value);
        Some (p\<lparr>p64_blocks := blocks\<rparr>)
      } else do {
        b0 \<leftarrow> slice_get (p64_blocks p) elementPos;
        blocks \<leftarrow> slice_set (p64_blocks p) elementPos
          (b0 AND NOT (drop_bit (nat endBits) (p64_maskRight p)) OR drop_bit (nat endBits) value);
        b1 \<leftarrow> slice_get blocks (elementPos + 1);
        blocks \<leftarrow> slice_set blocks (elementPos + 1)
          (b1 AND drop_bit (nat endBits) (- 1) OR push_bit (nat (64 - endBits)) value);
        Some (p\<lparr>p64_blocks := blocks\<rparr>)
      })"

subsection \<open>Bulk access\<close>

text \<open>
  The head of \<open>GetBulk\<close>: single reads up to the next block boundary. \<open>Inl\<close> is an early return;
  \<open>n\<close> counts the iterations left of \<open>for i := offsetInBlocks; i < LongValueCount && length > 0\<close>.
\<close>

primrec Packed64_GetBulk_head ::
  "Packed64 \<Rightarrow> nat \<Rightarrow> nat \<Rightarrow> nat \<Rightarrow> int \<Rightarrow> u64 list \<Rightarrow>
   (int \<times> u64 list + nat \<times> nat \<times> int \<times> u64 list) option" where
  "Packed64_GetBulk_head p 0 index bufferIndex len buffer = Some (Inr (index, bufferIndex, len, buffer))"
| "Packed64_GetBulk_head p (Suc n) index bufferIndex len buffer =
     (if len \<le> 0 then Some (Inr (index, bufferIndex, len, buffer))
      else case Packed64_Get p index of
        Inl EOF \<Rightarrow> Some (Inl (int bufferIndex, buffer))
      | Inl (Err _) \<Rightarrow> Some (Inl (0, buffer))
      | Inr v \<Rightarrow> do {
          buffer \<leftarrow> slice_set buffer bufferIndex v;
          Packed64_GetBulk_head p n (index + 1) (bufferIndex + 1) (len - 1) buffer
        })"

definition Packed64_GetBulk_body ::
  "Packed64 \<Rightarrow> BulkOperation \<Rightarrow> nat \<Rightarrow> nat \<Rightarrow> nat \<Rightarrow> int \<Rightarrow> u64 list \<Rightarrow> (int \<times> u64 list) option" where
  "Packed64_GetBulk_body p decoder originalIndex index bufferIndex len buffer =
     (let blockIndex = index * p64_bitsPerValue p div 64;
          iterations = len sdiv int (bop_LongValueCount decoder);
          gotValues = iterations * int (bop_LongValueCount decoder) in
      if length (p64_blocks p) < blockIndex \<or> length buffer < bufferIndex then None
      else do {
        out \<leftarrow> bop_DecodeUint64 decoder (drop blockIndex (p64_blocks p)) (drop bufferIndex buffer) (nat iterations);
        let buffer = take bufferIndex buffer @ out;
        if int originalIndex < int index + gotValues then
          Some (int index + gotValues - int originalIndex, buffer)
        else if len - gotValues < 0 \<or> length buffer < bufferIndex + nat (len - gotValues) then None
        else do {
          (got, out) \<leftarrow> pkg_GetBulk (\<lambda>p i. Some (Packed64_Get p i)) p64_valueCount p (nat (int index + gotValues))
            (take (nat (len - gotValues)) (drop bufferIndex buffer));
          Some (got, take bufferIndex buffer @ out @ drop (bufferIndex + nat (len - gotValues)) buffer)
        }
      })"

definition Packed64_GetBulk :: "Packed64 \<Rightarrow> nat \<Rightarrow> u64 list \<Rightarrow> (int \<times> u64 list) option" where
  "Packed64_GetBulk p index buffer =
     (let len = min (int (length buffer)) (int (p64_valueCount p) - int index) in do {
      r \<leftarrow> Of FormatPacked (p64_bitsPerValue p);
      case r of None \<Rightarrow> Some (- 1, buffer)
      | Some decoder \<Rightarrow>
        let offsetInBlocks = index mod bop_LongValueCount decoder in
        if offsetInBlocks \<noteq> 0 then do {
          r \<leftarrow> Packed64_GetBulk_head p (bop_LongValueCount decoder - offsetInBlocks) index 0 len buffer;
          case r of Inl ret \<Rightarrow> Some ret
          | Inr (index', bufferIndex, len, buffer) \<Rightarrow>
              if len = 0 then Some (int index' - int index, buffer)
              else Packed64_GetBulk_body p decoder index index' bufferIndex len buffer
        } else Packed64_GetBulk_body p decoder index index 0 len buffer
     })"

text \<open>The head of \<open>SetBulk\<close>, which starts from \<open>index % encoder.LongBlockCount()\<close>.\<close>

primrec Packed64_SetBulk_head ::
  "nat \<Rightarrow> u64 list \<Rightarrow> nat \<Rightarrow> nat \<Rightarrow> int \<Rightarrow> Packed64 \<Rightarrow> (nat \<times> nat \<times> int \<times> Packed64) option" where
  "Packed64_SetBulk_head 0 arr index off len p = Some (index, off, len, p)"
| "Packed64_SetBulk_head (Suc n) arr index off len p =
     (if len \<le> 0 then Some (index, off, len, p)
      else do {
        v \<leftarrow> slice_get arr off;
        p \<leftarrow> Packed64_Set p index v;
        Packed64_SetBulk_head n arr (index + 1) (off + 1) (len - 1) p
      })"

definition Packed64_SetBulk_body ::
  "Packed64 \<Rightarrow> BulkOperation \<Rightarrow> u64 list \<Rightarrow> nat \<Rightarrow> nat \<Rightarrow> nat \<Rightarrow> int \<Rightarrow> (int \<times> Packed64) option" where
  "Packed64_SetBulk_body p encoder arr originalIndex index off len =
     (let blockIndex = index * p64_bitsPerValue p div 64;
          iterations = len sdiv int (bop_LongValueCount encoder);
          setValues = iterations * int (bop_LongValueCount encoder) in
      if length (p64_blocks p) < blockIndex \<or> length arr < off then None
      else do {
        out \<leftarrow> bop_EncodeUint64 encoder (drop off arr) (drop blockIndex (p64_blocks p)) (nat iterations);
        let p = p\<lparr>p64_blocks := take blockIndex (p64_blocks p) @ out\<rparr>;
        if int originalIndex < int index + setValues then Some (int index + setValues - int originalIndex, p)
        else if len - setValues < 0 \<or> length arr < off + nat (len - setValues) then None
        else pkg_SetBulk Packed64_Set p64_valueCount p (nat (int index + setValues))
          (take (nat (len - setValues)) (drop off arr))
      })"

definition Packed64_SetBulk :: "Packed64 \<Rightarrow> nat \<Rightarrow> u64 list \<Rightarrow> (int \<times> Packed64) option" where
  "Packed64_SetBulk p index arr =
     (let len = min (int (length arr)) (int (p64_valueCount p) - int index) in do {
      r \<leftarrow> Of FormatPacked (p64_bitsPerValue p);
      case r of None \<Rightarrow> Some (- 1, p)
      | Some encoder \<Rightarrow>
        let offsetInBlocks = index mod bop_LongBlockCount encoder in
        if offsetInBlocks \<noteq> 0 then do {
          (index', off, len, p) \<leftarrow> Packed64_SetBulk_head (bop_LongValueCount encoder - offsetInBlocks) arr index 0 len p;
          if len = 0 then Some (int index' - int index, p)
          else Packed64_SetBulk_body p encoder arr index index' off len
        } else Packed64_SetBulk_body p encoder arr index index 0 len
     })"

subsection \<open>Fill and Clear\<close>

function go_gcd :: "nat \<Rightarrow> nat \<Rightarrow> nat" where
  "go_gcd a b = (if a < b then go_gcd b a else if b = 0 then a else go_gcd b (a mod b))"
  by pat_completeness auto
termination
  by (relation "measure (\<lambda>(a, b). 2 * b + (if a < b then 1 else 0))")
    (auto simp: order_less_imp_not_less [OF mod_less_divisor])

declare go_gcd.simps [simp del]

text \<open>\<open>for block := startBlock; block < endBlock; block++\<close>: whole blocks from the pattern.\<close>

primrec Packed64_Fill_blocks :: "u64 list \<Rightarrow> nat \<Rightarrow> nat \<Rightarrow> nat \<Rightarrow> u64 list \<Rightarrow> u64 list option" where
  "Packed64_Fill_blocks pattern nAlignedBlocks block 0 blocks = Some blocks"
| "Packed64_Fill_blocks pattern nAlignedBlocks block (Suc n) blocks =
     (if nAlignedBlocks = 0 then None
      else do {
        v \<leftarrow> slice_get pattern (block mod nAlignedBlocks);
        blocks \<leftarrow> slice_set blocks block v;
        Packed64_Fill_blocks pattern nAlignedBlocks (block + 1) n blocks
      })"

definition Packed64_Fill :: "Packed64 \<Rightarrow> nat \<Rightarrow> nat \<Rightarrow> u64 \<Rightarrow> Packed64 option" where
  "Packed64_Fill p fromIndex toIndex value =
     (let bpv = p64_bitsPerValue p; nAlignedValues = 64 div go_gcd 64 bpv; span = toIndex - fromIndex in
      if span \<le> 3 * nAlignedValues then mutable_Fill Packed64_Set p fromIndex toIndex value
      else do {
        let m = fromIndex mod nAlignedValues;
        let head = (if m \<noteq> 0 then nAlignedValues - m else 0);
        p \<leftarrow> mutable_Fill_loop Packed64_Set fromIndex head value p;
        let fromIndex = fromIndex + head;
        let nAlignedBlocks = nAlignedValues * bpv div 64;
        values \<leftarrow> NewPacked64 nAlignedValues bpv;
        values \<leftarrow> mutable_Fill_loop Packed64_Set 0 nAlignedValues value values;
        let startBlock = fromIndex * bpv div 64;
        let endBlock = toIndex * bpv div 64;
        blocks \<leftarrow> Packed64_Fill_blocks (p64_blocks values) nAlignedBlocks startBlock (endBlock - startBlock) (p64_blocks p);
        let gap = endBlock * 64 div bpv;
        mutable_Fill_loop Packed64_Set gap (toIndex - gap) value (p\<lparr>p64_blocks := blocks\<rparr>)
      })"

definition Packed64_Clear :: "Packed64 \<Rightarrow> Packed64" where
  "Packed64_Clear p = p\<lparr>p64_blocks := replicate (length (p64_blocks p)) 0\<rparr>"


subsection \<open>Single accesses\<close>

definition p64_inv :: "Packed64 \<Rightarrow> bool" where
  "p64_inv p \<longleftrightarrow> packed_width (p64_bitsPerValue p) \<and> p64_maskRight p = mask (p64_bitsPerValue p) \<and>
     p64_bpvMinusBlockSize p = int (p64_bitsPerValue p) - 64 \<and>
     p64_valueCount p * p64_bitsPerValue p \<le> 64 * length (p64_blocks p)"

lemma p64_invD:
  assumes "p64_inv p"
  shows "1 \<le> p64_bitsPerValue p" "p64_bitsPerValue p \<le> 64" "p64_maskRight p = mask (p64_bitsPerValue p)"
    "p64_bpvMinusBlockSize p = int (p64_bitsPerValue p) - 64"
    "p64_valueCount p * p64_bitsPerValue p \<le> 64 * length (p64_blocks p)"
  using assms by (simp_all add: p64_inv_def)

lemma p64_position:
  assumes "p64_inv p" and "i < p64_valueCount p"
    and q: "q = i * p64_bitsPerValue p div 64" and r: "r = i * p64_bitsPerValue p mod 64"
  shows "i * p64_bitsPerValue p = 64 * q + r" "r < 64" "q < length (p64_blocks p)"
    "64 < r + p64_bitsPerValue p \<Longrightarrow> q + 1 < length (p64_blocks p)"
proof -
  show eq: "i * p64_bitsPerValue p = 64 * q + r" and "r < 64"
    by (simp_all add: q r)
  have "(i + 1) * p64_bitsPerValue p \<le> p64_valueCount p * p64_bitsPerValue p"
    using assms(2) by (intro mult_le_mono1) simp
  then have "64 * q + r + p64_bitsPerValue p \<le> 64 * length (p64_blocks p)"
    using p64_invD(5) [OF assms(1)] eq by simp
  then show "q < length (p64_blocks p)" "64 < r + p64_bitsPerValue p \<Longrightarrow> q + 1 < length (p64_blocks p)"
    using p64_invD(1) [OF assms(1)] by linarith+
qed

lemma push_drop_mask:
  fixes b b' :: u64
  assumes "t < 64" and "t \<le> bpv" and "bpv \<le> 64"
  shows "(push_bit t b OR drop_bit (64 - t) b') AND mask bpv = push_bit t (b AND mask (bpv - t)) OR drop_bit (64 - t) b'"
proof (rule bit_word_eqI)
  fix n :: nat
  assume "n < LENGTH(64)"
  moreover have "64 - t + n < 64" if "bit b' (64 - t + n)"
    using that by (rule bit_u64_less)
  ultimately show "bit ((push_bit t b OR drop_bit (64 - t) b') AND mask bpv) n =
    bit (push_bit t (b AND mask (bpv - t)) OR drop_bit (64 - t) b') n"
    using assms by (auto simp: bit_and_iff bit_or_iff bit_push_bit_iff bit_drop_bit_eq bit_mask_iff)
qed

lemma Packed64_Get_eq:
  assumes "p64_inv p" and "i < p64_valueCount p"
  shows "Packed64_Get p i = Inr (packed_value (p64_bitsPerValue p) (p64_blocks p) i)"
proof -
  define bpv q r where "bpv = p64_bitsPerValue p" and "q = i * bpv div 64" and "r = i * bpv mod 64"
  note inv = p64_invD [OF assms(1), folded bpv_def]
  note pos = p64_position [OF assms q_def [unfolded bpv_def] r_def [unfolded bpv_def], folded bpv_def]
  show ?thesis
  proof (cases "r + bpv \<le> 64")
    case True
    then have "nat (- (int r + (int bpv - 64))) = 64 - (r + bpv)" "int r + (int bpv - 64) \<le> 0"
      by simp_all
    moreover have "drop_bit (64 - (r + bpv)) (p64_blocks p ! q) AND mask bpv = packed_value bpv (p64_blocks p) i"
      using True inv pos by (intro packed_value_within_block) simp_all
    ultimately show ?thesis
      using pos(3) by (simp add: Packed64_Get_def Let_def bpv_def [symmetric] q_def [symmetric] r_def [symmetric] inv)
  next
    case False
    define t where "t = r + bpv - 64"
    have t: "nat (int r + (int bpv - 64)) = t" "nat (64 - (int r + (int bpv - 64))) = 64 - t"
      "\<not> int r + (int bpv - 64) \<le> 0" "t < 64" "t \<le> bpv" "bpv - t = 64 - r"
      using False pos(2) inv by (simp_all add: t_def)
    have "push_bit t (p64_blocks p ! q AND mask (bpv - t)) OR drop_bit (64 - t) (p64_blocks p ! (q + 1))
        = packed_value bpv (p64_blocks p) i"
      using False inv pos t by (intro packed_value_across_blocks) simp_all
    then have v: "(push_bit t (p64_blocks p ! q) OR drop_bit (64 - t) (p64_blocks p ! (q + 1))) AND mask bpv
        = packed_value bpv (p64_blocks p) i"
      using push_drop_mask [OF t(4,5) inv(2)] by simp
    show ?thesis
      using pos(3,4) False t v
      by (simp add: Packed64_Get_def Let_def bpv_def [symmetric] q_def [symmetric] r_def [symmetric] inv del: Nat.diff_diff_right)
  qed
qed

lemma stream_bit_list_update:
  fixes ws :: "u64 list"
  assumes "q < length ws"
  shows "stream_bit (ws[q := w]) k = (if k div 64 = q then bit w (63 - k mod 64) else stream_bit ws k)"
  using assms by (simp add: stream_bit_def)

text \<open>A value moved into place: bit \<open>k\<close> of the stream is its bit counted from the end of the value.\<close>

definition set_stream :: "nat \<Rightarrow> u64 list \<Rightarrow> nat \<Rightarrow> u64 \<Rightarrow> nat \<Rightarrow> bool" where
  "set_stream bpv ws i v k =
     (if i * bpv \<le> k \<and> k < (i + 1) * bpv then bit v ((i + 1) * bpv - 1 - k) else stream_bit ws k)"

lemma set_single_stream:
  fixes ws :: "u64 list"
  assumes pos: "i * bpv = 64 * q + r" and "r + bpv \<le> 64" and "q < length ws" and v: "fits bpv v"
    and w: "w = ws ! q AND NOT (push_bit (64 - (r + bpv)) (mask bpv)) OR push_bit (64 - (r + bpv)) v"
  shows "stream_bit (ws[q := w]) k = set_stream bpv ws i v k"
proof -
  define s where "s = 64 - (r + bpv)"
  have hi: "bit v j \<Longrightarrow> j < bpv" for j
    using v unfolding fits_def by (metis bit_take_bit_iff)
  have bw: "bit w j = (if s \<le> j \<and> j < s + bpv then bit v (j - s) else bit (ws ! q) j)" if "j < 64" for j
    using that hi [of "j - s"] assms(2)
    by (auto simp: w s_def [symmetric] bit_or_iff bit_and_iff bit_not_iff bit_push_bit_iff bit_mask_iff)
  show ?thesis
  proof (cases "k div 64 = q")
    case True
    then have k: "k = 64 * q + k mod 64" "k mod 64 < 64"
      by (simp_all add: mult.commute flip: True)
    define m where "m = k mod 64"
    have 1: "i * bpv \<le> k \<and> k < (i + 1) * bpv \<longleftrightarrow> s \<le> 63 - m \<and> 63 - m < s + bpv"
      using k pos assms(2) unfolding m_def [symmetric] s_def by auto
    have 2: "(i + 1) * bpv - 1 - k = 63 - m - s" if "s \<le> 63 - m"
      using that k pos assms(2) unfolding m_def [symmetric] s_def by simp
    have 3: "stream_bit ws k = bit (ws ! q) (63 - m)"
      using True by (simp add: stream_bit_def m_def)
    show ?thesis
      using True assms(3) bw [of "63 - m"] 1 2 3 by (auto simp: stream_bit_list_update set_stream_def m_def)
  next
    case False
    then have "\<not> (i * bpv \<le> k \<and> k < (i + 1) * bpv)"
      using pos assms(2) by (auto simp: div_nat_eqI)
    then show ?thesis
      using False assms(3) by (auto simp: stream_bit_list_update set_stream_def)
  qed
qed


lemma set_across_stream:
  fixes ws :: "u64 list"
  assumes pos: "i * bpv = 64 * q + r" and t: "r + bpv = 64 + t" "0 < t" "r < 64" and "q + 1 < length ws"
    and "bpv \<le> 64"
    and w0: "w0 = ws ! q AND NOT (drop_bit t (mask bpv)) OR drop_bit t v"
    and w1: "w1 = ws ! (q + 1) AND drop_bit t (- 1) OR push_bit (64 - t) v"
    and v: "fits bpv v"
  shows "stream_bit (ws[q := w0, q + 1 := w1]) k = set_stream bpv ws i v k"
proof -
  have hi: "bit v j \<Longrightarrow> j < bpv" for j
    using v unfolding fits_def by (metis bit_take_bit_iff)
  have tb: "t \<le> bpv" "t < 64"
    using t assms(6) by simp_all
  have b0: "bit w0 j = (if j < bpv - t then bit v (t + j) else bit (ws ! q) j)" if "j < 64" for j
    using that hi [of "t + j"] tb assms(6)
    by (auto simp: w0 bit_or_iff bit_and_iff bit_not_iff bit_drop_bit_eq bit_mask_iff)
  have b1: "bit w1 j = (if 64 - t \<le> j then bit v (j - (64 - t)) else bit (ws ! (q + 1)) j)" if "j < 64" for j
    using that tb by (auto simp: w1 bit_or_iff bit_and_iff bit_drop_bit_eq bit_push_bit_iff bit_mask_iff)
  have upd: "stream_bit (ws[q := w0, q + 1 := w1]) k = (if k div 64 = q + 1 then bit w1 (63 - k mod 64)
      else if k div 64 = q then bit w0 (63 - k mod 64) else stream_bit ws k)"
    using assms(5) by (simp add: stream_bit_list_update)
  define m where "m = k mod 64"
  consider "k div 64 = q" | "k div 64 = q + 1" | "k div 64 \<noteq> q" "k div 64 \<noteq> q + 1"
    by blast
  then show ?thesis
  proof cases
    case 1
    then have k: "k = 64 * q + m" "m < 64"
      by (simp_all add: m_def mult.commute flip: 1)
    have 2: "i * bpv \<le> k \<and> k < (i + 1) * bpv \<longleftrightarrow> 63 - m < bpv - t"
      using k pos t by auto
    have 3: "(i + 1) * bpv - 1 - k = t + (63 - m)" if "63 - m < bpv - t"
      using that k pos t by simp
    have "stream_bit ws k = bit (ws ! q) (63 - m)"
      using 1 by (simp add: stream_bit_def m_def)
    then show ?thesis
      unfolding upd set_stream_def 2 using 1 b0 [of "63 - m"] 3 by (auto simp: m_def [symmetric])
  next
    case 2
    have "64 * (k div 64) + m = k" "m < 64"
      unfolding m_def by simp_all
    with 2 have k: "k = 64 * (q + 1) + m" "m < 64"
      by simp_all
    have 4: "i * bpv \<le> k \<and> k < (i + 1) * bpv \<longleftrightarrow> 64 - t \<le> 63 - m"
      using k pos t tb by auto
    have 3: "(i + 1) * bpv - 1 - k = 63 - m - (64 - t)" if "64 - t \<le> 63 - m"
      using that k pos t tb by simp
    have "stream_bit ws k = bit (ws ! (q + 1)) (63 - m)"
      using 2 by (simp add: stream_bit_def m_def)
    then show ?thesis
      unfolding upd set_stream_def 4 using 2 b1 [of "63 - m"] 3 by (auto simp: m_def [symmetric])
  next
    case 3
    then have "\<not> (i * bpv \<le> k \<and> k < (i + 1) * bpv)"
      using pos t tb by (auto simp: div_nat_eqI)
    then show ?thesis
      unfolding upd set_stream_def using 3 by auto
  qed
qed

lemma set_stream_packed_value:
  assumes "bpv \<le> 64" and "fits bpv v" and "\<And>k. stream_bit ws' k = set_stream bpv ws i v k"
  shows "packed_value bpv ws' j = (if j = i then v else packed_value bpv ws j)"
proof (rule packed_value_eqI [OF assms(1)])
  fix n :: nat
  assume "n < 64"
  have hi: "bit v m \<Longrightarrow> m < bpv" for m
    using assms(2) unfolding fits_def by (metis bit_take_bit_iff)
  show "bit (if j = i then v else packed_value bpv ws j) n \<longleftrightarrow> n < bpv \<and> stream_bit ws' (j * bpv + (bpv - 1 - n))"
  proof (cases "n < bpv")
    case True
    let ?k = "j * bpv + (bpv - 1 - n)"
    have "bpv - 1 - n < bpv"
      using True by simp
    then have in_j: "j * bpv \<le> ?k \<and> ?k < (j + 1) * bpv"
      unfolding add_mult_distrib by linarith
    show ?thesis
    proof (cases "j = i")
      case True
      then have "(i + 1) * bpv - 1 - ?k = n"
        using \<open>n < bpv\<close> by simp
      then show ?thesis
        using True in_j \<open>n < bpv\<close> by (simp add: assms(3) set_stream_def)
    next
      case False
      have "\<not> (i * bpv \<le> ?k \<and> ?k < (i + 1) * bpv)"
      proof
        assume "i * bpv \<le> ?k \<and> ?k < (i + 1) * bpv"
        with in_j have "i * bpv < (j + 1) * bpv" "j * bpv < (i + 1) * bpv"
          by linarith+
        then have "i < j + 1" "j < i + 1"
          unfolding mult_less_cancel2 by simp_all
        with False show False
          by simp
      qed
      then have "stream_bit ws' ?k = stream_bit ws ?k"
        unfolding assms(3) set_stream_def by (rule if_not_P)
      then show ?thesis
        using False \<open>n < bpv\<close> assms(1) by (simp add: bit_packed_value)
    qed
  next
    case False
    then show ?thesis
      using hi [of n] assms(1) by (auto simp: bit_packed_value)
  qed
qed

lemma Packed64_Set_eq:
  assumes "p64_inv p" and "i < p64_valueCount p" and "fits (p64_bitsPerValue p) v"
  shows "\<exists>ws. Packed64_Set p i v = Some (p\<lparr>p64_blocks := ws\<rparr>) \<and> length ws = length (p64_blocks p) \<and>
    (\<forall>j. packed_value (p64_bitsPerValue p) ws j =
      (if j = i then v else packed_value (p64_bitsPerValue p) (p64_blocks p) j))"
proof -
  define bpv q r where "bpv = p64_bitsPerValue p" and "q = i * bpv div 64" and "r = i * bpv mod 64"
  note inv = p64_invD [OF assms(1), folded bpv_def]
  note pos = p64_position [OF assms(1,2) q_def [unfolded bpv_def] r_def [unfolded bpv_def], folded bpv_def]
  have fit: "fits bpv v"
    using assms(3) by (simp add: bpv_def)
  show ?thesis
  proof (cases "r + bpv \<le> 64")
    case True
    let ?ws = "(p64_blocks p)[q := p64_blocks p ! q AND NOT (push_bit (64 - (r + bpv)) (mask bpv)) OR push_bit (64 - (r + bpv)) v]"
    have "nat (- (int r + (int bpv - 64))) = 64 - (r + bpv)" "int r + (int bpv - 64) \<le> 0"
      using True by simp_all
    then have "Packed64_Set p i v = Some (p\<lparr>p64_blocks := ?ws\<rparr>)"
      using pos(3) by (simp add: Packed64_Set_def Let_def bpv_def [symmetric] q_def [symmetric] r_def [symmetric] inv
          slice_simps)
    moreover have "\<forall>j. packed_value bpv ?ws j = (if j = i then v else packed_value bpv (p64_blocks p) j)"
      using set_stream_packed_value [OF inv(2) fit set_single_stream [OF pos(1) True pos(3) fit refl]] by blast
    ultimately show ?thesis
      by (auto simp: bpv_def)
  next
    case False
    define t where "t = r + bpv - 64"
    have t: "nat (int r + (int bpv - 64)) = t" "nat (64 - (int r + (int bpv - 64))) = 64 - t"
      "\<not> int r + (int bpv - 64) \<le> 0" "r + bpv = 64 + t" "0 < t"
      using False pos(2) inv by (simp_all add: t_def)
    let ?w0 = "p64_blocks p ! q AND NOT (drop_bit t (mask bpv)) OR drop_bit t v"
    let ?w1 = "p64_blocks p ! (q + 1) AND drop_bit t (- 1) OR push_bit (64 - t) v"
    let ?ws = "(p64_blocks p)[q := ?w0, q + 1 := ?w1]"
    have len: "q < length (p64_blocks p)" "q + 1 < length (p64_blocks p)"
      using pos(3,4) False by simp_all
    then have "Packed64_Set p i v = Some (p\<lparr>p64_blocks := ?ws\<rparr>)"
      using t by (simp add: Packed64_Set_def Let_def bpv_def [symmetric] q_def [symmetric] r_def [symmetric] inv
          slice_simps del: Nat.diff_diff_right)
    moreover have "\<forall>j. packed_value bpv ?ws j = (if j = i then v else packed_value bpv (p64_blocks p) j)"
      using set_stream_packed_value [OF inv(2) fit set_across_stream [OF pos(1) t(4,5) pos(2) len(2) inv(2) refl refl fit]]
      by blast
    ultimately show ?thesis
      by (auto simp: bpv_def)
  qed
qed

interpretation p64: packed_array "\<lambda>p i. Some (Packed64_Get p i)" Packed64_Set p64_valueCount p64_bitsPerValue p64_inv
proof
  fix p i
  assume p: "p64_inv p" "i < p64_valueCount p"
  show "\<exists>v. Some (Packed64_Get p i) = Some (Inr v) \<and> fits (p64_bitsPerValue p) v"
    using Packed64_Get_eq [OF p] packed_value_less [OF p64_invD(2) [OF p(1)]] by (simp add: fits_def)
  fix v
  assume v: "fits (p64_bitsPerValue p) v"
  obtain ws where ws: "Packed64_Set p i v = Some (p\<lparr>p64_blocks := ws\<rparr>)" "length ws = length (p64_blocks p)"
    "\<forall>j. packed_value (p64_bitsPerValue p) ws j =
      (if j = i then v else packed_value (p64_bitsPerValue p) (p64_blocks p) j)"
    using Packed64_Set_eq [OF p v] by auto
  have inv: "p64_inv (p\<lparr>p64_blocks := ws\<rparr>)"
    using p(1) ws(2) by (simp add: p64_inv_def)
  have "Packed64_Get (p\<lparr>p64_blocks := ws\<rparr>) j = (if j = i then Inr v else Packed64_Get p j)"
    if "j < p64_valueCount p" for j
    using Packed64_Get_eq [OF inv, of j] Packed64_Get_eq [OF p(1), of j] that ws(3) by simp
  then show "\<exists>s'. Packed64_Set p i v = Some s' \<and> p64_inv s' \<and> p64_valueCount s' = p64_valueCount p \<and>
    p64_bitsPerValue s' = p64_bitsPerValue p \<and>
    (\<forall>j<p64_valueCount p. Some (Packed64_Get s' j) = (if j = i then Some (Inr v) else Some (Packed64_Get p j)))"
    using ws(1) inv by auto
qed

lemma NewPacked64_inv:
  assumes "packed_width bpv"
  shows "\<exists>p. NewPacked64 n bpv = Some p \<and> p64_inv p \<and> p64_valueCount p = n \<and> p64_bitsPerValue p = bpv \<and>
    (\<forall>w \<in> set (p64_blocks p). w = 0)"
proof -
  have "drop_bit (64 - bpv) (push_bit (64 - bpv) (- 1 :: u64)) = mask bpv"
    using assms by (intro bit_word_eqI) (auto simp: bit_simps)
  moreover have "n * bpv \<le> 64 * FormatPacked_LongCount n bpv"
    by (auto simp: FormatPacked_LongCount_def FormatPacked_ByteCount_def Let_def)
  ultimately show ?thesis
    using assms by (simp add: NewPacked64_def p64_inv_def)
qed

lemma p64_contents: "p64_inv p \<Longrightarrow> p64.contents p = map (packed_value (p64_bitsPerValue p) (p64_blocks p)) [0..<p64_valueCount p]"
  by (simp add: p64.contents_def Packed64_Get_eq)


subsection \<open>Fill\<close>

lemma go_gcd_eq: "go_gcd a b = gcd a b"
proof (induction a b rule: go_gcd.induct)
  case (1 a b)
  then show ?case
    by (subst go_gcd.simps) (auto simp: gcd.commute [of a b] simp flip: gcd_red_nat)
qed

text \<open>The alignment: \<open>nAlignedValues\<close> values fill \<open>nAlignedBlocks\<close> blocks exactly.\<close>

lemma aligned_values:
  assumes "packed_width bpv" and "n = 64 div go_gcd 64 bpv"
  shows "n * bpv = 64 * (n * bpv div 64)" "0 < n" "0 < n * bpv div 64"
proof -
  have g: "go_gcd 64 bpv = gcd 64 bpv" "0 < gcd 64 bpv"
    using assms(1) by (simp_all add: go_gcd_eq)
  have n: "n * gcd 64 bpv = 64"
    by (simp add: assms(2) g)
  obtain m where m: "bpv = gcd 64 bpv * m"
    by (metis gcd_dvd2 dvdE)
  then have nb: "n * bpv = 64 * m"
    using n by (metis mult.assoc)
  show "n * bpv = 64 * (n * bpv div 64)"
    unfolding nb by simp
  show "0 < n"
    using n by (cases n) simp_all
  show "0 < n * bpv div 64"
    unfolding nb using m assms(1) by (cases m) auto
qed

lemma LongCount_exact: "n * bpv = 64 * m \<Longrightarrow> FormatPacked_LongCount n bpv = m"
proof -
  assume nb: "n * bpv = 64 * m"
  have "(64 * m + 7) div 8 = 8 * m"
    by simp
  then show ?thesis
    by (simp add: FormatPacked_LongCount_def FormatPacked_ByteCount_def nb)
qed

lemma Packed64_Fill_blocks_eq:
  assumes "0 < nb" and "nb \<le> length pattern" and "q + n \<le> length ws"
  shows "Packed64_Fill_blocks pattern nb q n ws =
    Some (write_block ws q (map (\<lambda>j. pattern ! (j mod nb)) [q..<q + n]))"
  using assms(3)
proof (induction n arbitrary: q ws)
  case (Suc n)
  then show ?case
    using Suc.IH [of "q + 1" "ws[q := pattern ! (q mod nb)]"] assms(1) less_le_trans [OF mod_less_divisor assms(2), of q]
    by (simp add: slice_simps write_block_Cons upt_conv_Cons del: upt_Suc)
qed simp

text \<open>A stream made of copies of a pattern whose values are all \<open>v\<close>.\<close>

lemma packed_value_pattern:
  fixes ws :: "u64 list"
  assumes bpv: "packed_width bpv" and nb: "n * bpv = 64 * nb" and "0 < n"
    and pat: "\<And>i. i < n \<Longrightarrow> packed_value bpv pattern i = v"
    and ws: "\<And>q. a \<le> q \<Longrightarrow> q < b \<Longrightarrow> ws ! q = pattern ! (q mod nb)"
    and i: "64 * a \<le> i * bpv" "(i + 1) * bpv \<le> 64 * b"
  shows "packed_value bpv ws i = v"
proof -
  have "packed_value bpv ws i = packed_value bpv pattern (i mod n)"
  proof (rule packed_value_eqI)
    show "bpv \<le> 64"
      using bpv by simp
    fix j :: nat
    assume "j < 64"
    show "bit (packed_value bpv pattern (i mod n)) j \<longleftrightarrow> j < bpv \<and> stream_bit ws (i * bpv + (bpv - 1 - j))"
    proof (cases "j < bpv")
      case True
      define x k where "x = bpv - 1 - j" and "k = i * bpv + x"
      have x: "x < bpv"
        using True by (simp add: x_def)
      have k: "64 * a \<le> k" "k < 64 * b"
        using i x by (simp_all add: k_def)
      then have q: "a \<le> k div 64" "k div 64 < b"
        by auto
      have "i * bpv = (i mod n + n * (i div n)) * bpv"
        by simp
      then have "k = (i mod n) * bpv + x + n * bpv * (i div n)"
        unfolding k_def by (simp only: add_mult_distrib add_mult_distrib2 ac_simps)
      moreover have "(i mod n) * bpv + x < n * bpv"
      proof -
        have "(i mod n) * bpv + x < (i mod n + 1) * bpv"
          using x by simp
        also have "\<dots> \<le> n * bpv"
          using \<open>0 < n\<close> by (intro mult_le_mono1) (simp add: Suc_leI)
        finally show ?thesis .
      qed
      ultimately have kmod: "k mod (64 * nb) = (i mod n) * bpv + x"
        unfolding nb by simp
      have "k mod (64 * nb) div 64 = k div 64 mod nb" "k mod (64 * nb) mod 64 = k mod 64"
        by (simp_all add: mod_mult2_eq)
      then have "stream_bit ws k = stream_bit pattern (k mod (64 * nb))"
        using ws [OF q] by (simp add: stream_bit_def)
      moreover have "bit (packed_value bpv pattern (i mod n)) j \<longleftrightarrow> stream_bit pattern ((i mod n) * bpv + x)"
        using True bpv unfolding x_def by (simp add: bit_packed_value)
      ultimately show ?thesis
        using True unfolding kmod by (simp add: k_def x_def)
    next
      case False
      then show ?thesis
        using bpv by (simp add: bit_packed_value)
    qed
  qed
  also have "\<dots> = v"
    using \<open>0 < n\<close> by (intro pat) simp
  finally show ?thesis .
qed

lemma packed_value_unchanged:
  fixes ws ws' :: "u64 list"
  assumes "bpv \<le> 64" and "\<And>q. q < a \<or> b \<le> q \<Longrightarrow> ws' ! q = ws ! q"
    and "(i + 1) * bpv \<le> 64 * a \<or> 64 * b \<le> i * bpv"
  shows "packed_value bpv ws' i = packed_value bpv ws i"
proof (rule packed_value_cong [OF assms(1)])
  fix q
  assume "i * bpv < (q + 1) * LENGTH(64)" "q * LENGTH(64) < (i + 1) * bpv"
  then have "q < a \<or> b \<le> q"
    using assms(3) by auto
  then show "ws' ! q = ws ! q"
    by (rule assms(2))
qed

lemma Packed64_Fill_pattern:
  assumes "packed_width bpv" and "fits bpv v" and "n * bpv = 64 * nb"
  shows "\<exists>z z1. NewPacked64 n bpv = Some z \<and> mutable_Fill_loop Packed64_Set 0 n v z = Some z1 \<and>
    nb \<le> length (p64_blocks z1) \<and> (\<forall>i < n. packed_value bpv (p64_blocks z1) i = v)"
proof -
  obtain z where z: "NewPacked64 n bpv = Some z" "p64_inv z" "p64_valueCount z = n" "p64_bitsPerValue z = bpv"
    using NewPacked64_inv [OF assms(1), of n] by auto
  obtain z1 where z1: "mutable_Fill_loop Packed64_Set 0 n v z = Some z1" "p64_inv z1"
    "p64_valueCount z1 = n" "p64_bitsPerValue z1 = bpv" "p64.contents z1 = write_block (p64.contents z) 0 (replicate n v)"
    using p64.fill_loop_contents [OF z(2), of 0 n v] z(3,4) assms(2) by auto
  have c: "map (packed_value bpv (p64_blocks z1)) [0..<n] = replicate n v"
    using p64_contents [OF z1(2)] z1(3-5) z(3) by (simp add: write_block_def)
  have "packed_value bpv (p64_blocks z1) i = v" if "i < n" for i
    using arg_cong [OF c, of "\<lambda>xs. xs ! i"] that by simp
  moreover have "nb \<le> length (p64_blocks z1)"
    using p64_invD(5) [OF z1(2)] unfolding z1(3,4) assms(3) by simp
  ultimately show ?thesis
    using z(1) z1(1) by blast
qed

lemma Packed64_Fill_blocks_values:
  fixes ws pattern :: "u64 list"
  assumes w: "packed_width bpv" and nb: "n * bpv = 64 * nb" "0 < n" "0 < nb"
    and pat: "nb \<le> length pattern" "\<And>i. i < n \<Longrightarrow> packed_value bpv pattern i = v"
    and s: "a * bpv = 64 * s" and se: "s \<le> e" and e: "64 * e \<le> b * bpv" "e \<le> length ws"
    and g: "g * bpv \<le> 64 * e"
  shows "\<exists>ws'. Packed64_Fill_blocks pattern nb s (e - s) ws = Some ws' \<and> length ws' = length ws \<and>
    (\<forall>i. (a \<le> i \<and> i < g \<longrightarrow> packed_value bpv ws' i = v) \<and>
         (i < a \<or> b \<le> i \<longrightarrow> packed_value bpv ws' i = packed_value bpv ws i))"
proof -
  define ws' where "ws' = write_block ws s (map (\<lambda>j. pattern ! (j mod nb)) [s..<e])"
  have blocks: "Packed64_Fill_blocks pattern nb s (e - s) ws = Some ws'"
    using Packed64_Fill_blocks_eq [OF nb(3) pat(1), of s "e - s" ws] se e(2) by (simp add: ws'_def)
  have inside: "ws' ! q = pattern ! (q mod nb)" if "s \<le> q" "q < e" for q
    using that se e(2) by (auto simp: ws'_def nth_write_block)
  have outside: "ws' ! q = ws ! q" if "q < s \<or> e \<le> q" for q
    unfolding ws'_def by (rule nth_write_block_outside) (use that se e(2) in auto)
  have 1: "packed_value bpv ws' i = v" if "a \<le> i" "i < g" for i
  proof (rule packed_value_pattern [OF w nb(1,2) pat(2) inside])
    show "64 * s \<le> i * bpv"
      unfolding s [symmetric] using that(1) by (rule mult_le_mono1)
    have "(i + 1) * bpv \<le> g * bpv"
      using that(2) by (intro mult_le_mono1) simp
    then show "(i + 1) * bpv \<le> 64 * e"
      using g by linarith
  qed
  have 2: "packed_value bpv ws' i = packed_value bpv ws i" if i: "i < a \<or> b \<le> i" for i
  proof (rule packed_value_unchanged [OF _ outside])
    show "bpv \<le> 64"
      using w by simp
    have "(i + 1) * bpv \<le> a * bpv" if "i < a"
      using that by (intro mult_le_mono1) simp
    moreover have "b * bpv \<le> i * bpv" if "b \<le> i"
      using that by (rule mult_le_mono1)
    ultimately show "(i + 1) * bpv \<le> 64 * s \<or> 64 * e \<le> i * bpv"
      using i e(1) unfolding s by fastforce
  qed
  have "length ws' = length ws"
    using se e(2) by (simp add: ws'_def)
  then show ?thesis
    using blocks 1 2 by blast
qed

text \<open>The geometry of \<open>Fill\<close>: the aligned start, the whole blocks and the gap at the end.\<close>

lemma Packed64_Fill_gap:
  assumes w: "packed_width bpv" and n: "n * bpv = 64 * nb" and "n dvd a" and "a \<le> b"
    and s: "s = a * bpv div 64" and e: "e = b * bpv div 64" and g: "g = e * 64 div bpv"
  shows "a * bpv = 64 * s" "s \<le> e" "64 * e \<le> b * bpv" "g * bpv \<le> 64 * e" "a \<le> g" "g \<le> b"
proof -
  obtain c where c: "a = n * c"
    using assms(3) by (rule dvdE)
  have "a * bpv = 64 * (nb * c)"
    unfolding c using n by (metis mult.assoc mult.commute)
  then show s': "a * bpv = 64 * s"
    by (simp add: s)
  show se: "s \<le> e"
    unfolding s e using assms(4) by (intro div_le_mono mult_le_mono1)
  show e': "64 * e \<le> b * bpv"
    by (simp add: e)
  show "g * bpv \<le> 64 * e"
    using div_times_less_eq_dividend [of "e * 64" bpv] by (simp add: g mult.commute)
  show "a \<le> g"
    unfolding g using w se s' by (simp add: less_eq_div_iff_mult_less_eq)
  have "e * 64 div bpv \<le> b * bpv div bpv"
    using e' by (intro div_le_mono) simp
  then show "g \<le> b"
    unfolding g using w by simp
qed

lemma Packed64_Fill_contents:
  assumes "p64_inv p" and ab: "a \<le> b" "b \<le> p64_valueCount p" and v: "fits (p64_bitsPerValue p) v"
  shows "\<exists>p'. Packed64_Fill p a b v = Some p' \<and> p64_inv p' \<and> p64_valueCount p' = p64_valueCount p \<and>
    p64_bitsPerValue p' = p64_bitsPerValue p \<and>
    p64.contents p' = write_block (p64.contents p) a (replicate (b - a) v)"
proof -
  define bpv n nb where "bpv = p64_bitsPerValue p" and "n = 64 div go_gcd 64 bpv" and "nb = n * bpv div 64"
  have w: "packed_width bpv"
    using p64_invD [OF assms(1)] by (simp add: bpv_def)
  note al = aligned_values [OF w n_def, folded nb_def]
  show ?thesis
  proof (cases "b - a \<le> 3 * n")
    case True
    then have "Packed64_Fill p a b v = mutable_Fill Packed64_Set p a b v"
      by (simp add: Packed64_Fill_def Let_def bpv_def [symmetric] n_def [symmetric])
    then show ?thesis
      using p64.fill_contents [OF assms(1) ab v] by simp
  next
    case False
    define head a' where "head = (if a mod n \<noteq> 0 then n - a mod n else 0)" and "a' = a + head"
    have "head \<le> n"
      using al(2) by (simp add: head_def)
    then have a': "n dvd a'" "a' \<le> b"
      using False align_up [OF al(2), of a] by (simp_all add: a'_def head_def)
    define s e g where "s = a' * bpv div 64" and "e = b * bpv div 64" and "g = e * 64 div bpv"
    note geo = Packed64_Fill_gap [OF w al(1) a' s_def e_def g_def]
    obtain p1 where p1: "mutable_Fill_loop Packed64_Set a head v p = Some p1" "p64_inv p1"
      "p64_valueCount p1 = p64_valueCount p" "p64_bitsPerValue p1 = bpv"
      "p64.contents p1 = write_block (p64.contents p) a (replicate head v)"
      using p64.fill_loop_contents [OF assms(1), of a head v] a'(2) ab(2) v unfolding a'_def bpv_def by auto
    obtain z z1 where z: "NewPacked64 n bpv = Some z" "mutable_Fill_loop Packed64_Set 0 n v z = Some z1"
      "nb \<le> length (p64_blocks z1)" "\<And>i. i < n \<Longrightarrow> packed_value bpv (p64_blocks z1) i = v"
      using Packed64_Fill_pattern [OF w v [folded bpv_def] al(1)] by blast
    have "b * bpv \<le> p64_valueCount p * bpv"
      using ab(2) by (rule mult_le_mono1)
    then have elen: "e \<le> length (p64_blocks p1)"
      using p64_invD(5) [OF p1(2)] geo(3) unfolding p1(3,4) by linarith
    obtain ws2 where ws2: "Packed64_Fill_blocks (p64_blocks z1) nb s (e - s) (p64_blocks p1) = Some ws2"
      "length ws2 = length (p64_blocks p1)"
      "\<And>i. a' \<le> i \<and> i < g \<Longrightarrow> packed_value bpv ws2 i = v"
      "\<And>i. i < a' \<or> b \<le> i \<Longrightarrow> packed_value bpv ws2 i = packed_value bpv (p64_blocks p1) i"
      using Packed64_Fill_blocks_values [OF w al z(3,4) geo(1-3) elen geo(4)] by blast
    define p2 where "p2 = p1\<lparr>p64_blocks := ws2\<rparr>"
    have p2: "p64_inv p2" "p64_valueCount p2 = p64_valueCount p" "p64_bitsPerValue p2 = bpv"
      using p1(2-4) ws2(2) by (simp_all add: p2_def p64_inv_def)
    obtain p3 where p3: "mutable_Fill_loop Packed64_Set g (b - g) v p2 = Some p3" "p64_inv p3"
      "p64_valueCount p3 = p64_valueCount p" "p64_bitsPerValue p3 = bpv"
      "p64.contents p3 = write_block (p64.contents p2) g (replicate (b - g) v)"
      using p64.fill_loop_contents [OF p2(1), of g "b - g" v] geo(6) ab(2) v p2(2,3) unfolding bpv_def by auto
    have fill: "Packed64_Fill p a b v = Some p3"
      using False p1(1) z(1,2) ws2(1) p3(1)
      unfolding Packed64_Fill_def Let_def bpv_def [symmetric] n_def [symmetric] head_def [symmetric]
        a'_def [symmetric] nb_def [symmetric] s_def [symmetric] e_def [symmetric] g_def [symmetric] p2_def
      by simp
    have "p64.contents p3 ! i = write_block (p64.contents p) a (replicate (b - a) v) ! i"
      if i: "i < p64_valueCount p" for i
    proof -
      have 3: "p64.contents p3 ! i = (if g \<le> i \<and> i < b then v else packed_value bpv ws2 i)"
        using i geo(6) ab(2) p2(2,3) p64_contents [OF p2(1)] unfolding p3(5)
        by (auto simp: nth_write_block p2_def)
      have "packed_value bpv (p64_blocks p1) i = p64.contents p1 ! i"
        using p64_contents [OF p1(2)] p1(3,4) i by simp
      also have "\<dots> = (if a \<le> i \<and> i < a' then v else p64.contents p ! i)"
        unfolding p1(5) using i a'(2) ab(2) by (auto simp: nth_write_block a'_def)
      finally have 1: "packed_value bpv (p64_blocks p1) i = \<dots>" .
      consider "i < a'" | "a' \<le> i" "i < g" | "g \<le> i" "i < b" | "b \<le> i"
        by linarith
      then show ?thesis
        unfolding 3 using ws2(3) [of i] ws2(4) [of i] 1 i ab geo(5,6) a'(2)
        by cases (simp_all add: nth_write_block a'_def)
    qed
    then have "p64.contents p3 = write_block (p64.contents p) a (replicate (b - a) v)"
      using p3(3) ab by (intro nth_equalityI) simp_all
    then show ?thesis
      using fill p3 by (simp add: bpv_def)
  qed
qed


subsection \<open>Bulk reads\<close>

lemma Of_packed_some:
  assumes "packed_width bpv"
  obtains op where "Of FormatPacked bpv = Some (Some op)"
proof -
  obtain b where "packedBulkOps (bpv - 1) = Some ((if bpv \<le> 24 then PackedN bpv else PackedGeneric) b)"
    using packedBulkOps_eq [OF assms] .
  with assms that show thesis
    by (simp add: Of_def)
qed

lemma packed_count_pos:
  assumes "packed_width bpv"
  shows "0 < packed_count bp_longValueCount bpv" "0 < packed_count bp_longBlockCount bpv"
proof -
  obtain b where b: "NewPacked bpv = Some b" "bp_wf b" "bp_bitsPerValue b = bpv"
    using NewPacked_wf assms by auto
  then show "0 < packed_count bp_longBlockCount bpv"
    by (simp add: packed_count_def bp_wf_def)
  then have "0 < packed_count bp_longValueCount bpv * bpv"
    using packed_counts(1) [OF assms] by simp
  then show "0 < packed_count bp_longValueCount bpv"
    by simp
qed

lemma Packed64_GetBulk_head_eq:
  assumes "p64_inv p" and "index + n \<le> p64_valueCount p" and "bi + n \<le> length buffer"
  shows "Packed64_GetBulk_head p m index bi (int n) buffer =
    Some (Inr (index + min m n, bi + min m n, int (n - min m n),
      write_block buffer bi (take (min m n) (drop index (p64.contents p)))))"
  using assms(2,3)
proof (induction m arbitrary: index bi n buffer)
  case (Suc m)
  show ?case
  proof (cases n)
    case (Suc n')
    have "p64.contents p ! index # take k (drop (Suc index) (p64.contents p)) = take (Suc k) (drop index (p64.contents p))" for k
      using Suc.prems Suc by (simp add: Cons_nth_drop_Suc [symmetric])
    moreover have "Packed64_Get p index = Inr (p64.contents p ! index)"
      using p64.get_contents [OF assms(1), of index] Suc.prems Suc by simp
    ultimately show ?thesis
      using Suc.IH [of "index + 1" n' "bi + 1" "buffer[bi := p64.contents p ! index]"] Suc.prems Suc
      by (simp add: slice_set_def write_block_Cons)
  qed simp
qed simp

text \<open>From a block boundary on: whole iterations of the decoder.\<close>

lemma packed_decode_contents:
  assumes "p64_inv p" and bpv: "bpv = p64_bitsPerValue p" and lvc: "lvc = packed_count bp_longValueCount bpv"
    and "lvc dvd index" and "index + it * lvc \<le> p64_valueCount p" and "it * lvc \<le> length buffer"
  shows "index * bpv div 64 \<le> length (p64_blocks p)"
    and "packed_DecodeUint64 bpv (drop (index * bpv div 64) (p64_blocks p)) buffer it =
      Some (write_block buffer 0 (take (it * lvc) (drop index (p64.contents p))))"
proof -
  note inv = p64_invD [OF assms(1), folded bpv]
  have w: "packed_width bpv"
    using inv by simp
  obtain c where c: "index = lvc * c"
    using assms(4) by (rule dvdE)
  have cnt: "lvc * bpv = packed_count bp_longBlockCount bpv * 64"
    using packed_counts(1) [OF w] by (simp add: lvc)
  have "index * bpv = packed_count bp_longBlockCount bpv * c * 64"
    unfolding c using cnt by (metis mult.assoc mult.commute)
  then have pos: "index * bpv = 64 * (index * bpv div 64)"
    by simp
  have "(index + it * lvc) * bpv \<le> p64_valueCount p * bpv"
    using assms(5) by (rule mult_le_mono1)
  then have "index * bpv + it * packed_count bp_longBlockCount bpv * 64 \<le> 64 * length (p64_blocks p)"
    using inv(5) cnt by (simp add: add_mult_distrib mult.assoc)
  then show len: "index * bpv div 64 \<le> length (p64_blocks p)"
    by linarith
  have fit: "it * packed_count bp_longBlockCount bpv \<le> length (drop (index * bpv div 64) (p64_blocks p))"
    using pos \<open>index * bpv + _ \<le> _\<close> by simp
  have "map (packed_value bpv (drop (index * bpv div 64) (p64_blocks p))) [0..<it * lvc] =
      map (packed_value bpv (p64_blocks p)) [index..<index + it * lvc]"
    using pos len w by (intro map_packed_value_drop) simp_all
  also have "\<dots> = take (it * lvc) (drop index (p64.contents p))"
    using assms(5) by (simp add: p64_contents [OF assms(1)] bpv drop_map take_map)
  finally show "packed_DecodeUint64 bpv (drop (index * bpv div 64) (p64_blocks p)) buffer it =
      Some (write_block buffer 0 (take (it * lvc) (drop index (p64.contents p))))"
    using packed_DecodeUint64_eq [OF w, of "drop (index * bpv div 64) (p64_blocks p)" buffer it] fit assms(6)
    by (simp add: lvc)
qed

lemma Packed64_GetBulk_body_eq:
  assumes "p64_inv p" and op: "Of FormatPacked (p64_bitsPerValue p) = Some (Some op)"
    and "bop_LongValueCount op dvd index" and "orig \<le> index"
    and "index + n \<le> p64_valueCount p" and bi: "bi + n \<le> length buffer"
    and it: "it = n div bop_LongValueCount op"
  shows "Packed64_GetBulk_body p op orig index bi (int n) buffer =
    (let k = (if orig < index + it * bop_LongValueCount op then it * bop_LongValueCount op else n) in
     Some (int (index - orig) + int k, write_block buffer bi (take k (drop index (p64.contents p)))))"
proof -
  define bpv lvc where "bpv = p64_bitsPerValue p" and "lvc = bop_LongValueCount op"
  note m = Of_packed_methods [OF op, folded bpv_def]
  have lvc: "lvc = packed_count bp_longValueCount bpv"
    by (simp add: lvc_def m)
  have itn: "it * lvc \<le> n"
    by (simp add: it lvc_def)
  let ?vs = "take (it * lvc) (drop index (p64.contents p))"
  have dec: "bop_DecodeUint64 op (drop (index * bpv div 64) (p64_blocks p)) (drop bi buffer) it =
      Some (write_block (drop bi buffer) 0 ?vs)" "index * bpv div 64 \<le> length (p64_blocks p)"
    using packed_decode_contents [OF assms(1) bpv_def lvc, of index it "drop bi buffer"] assms(3,5) itn bi m(2)
    by (simp_all add: lvc_def)
  have buf: "take bi buffer @ write_block (drop bi buffer) 0 ?vs = write_block buffer bi ?vs"
    using bi assms(5) itn by (simp add: write_block_def add.commute)
  have it': "int n sdiv int lvc = int it"
    by (simp add: it lvc_def sdiv_nat)
  show ?thesis
  proof (cases "orig < index + it * lvc")
    case True
    then have "int orig < int index + int it * int lvc"
      by (simp flip: of_nat_mult of_nat_add)
    then show ?thesis
      using True dec buf bi assms(4)
      by (simp add: Packed64_GetBulk_body_def bpv_def [symmetric] lvc_def [symmetric] it' Let_def of_nat_diff)
  next
    case False
    then have "it * lvc = 0" "orig = index"
      using assms(4) by linarith+
    then have 0: "it = 0" "orig = index"
      using packed_count_pos(1) [OF m(1)] by (simp_all add: lvc)
    then have "?vs = []"
      by simp
    have len: "min (int (p64_valueCount p) - int index) (int (length (take n (drop bi buffer)))) = int n"
      using assms(5) bi by simp
    have "pkg_GetBulk (\<lambda>p i. Some (Packed64_Get p i)) p64_valueCount p index (take n (drop bi buffer)) =
      Some (int n, write_block (take n (drop bi buffer)) 0 (take n (drop index (p64.contents p))))"
      using p64.pkg_get_bulk_loop_contents [OF assms(1), of index n 0 "take n (drop bi buffer)"] assms(5) bi
      unfolding pkg_GetBulk_def len by (simp add: Let_def)
    moreover have "take bi buffer @ write_block (take n (drop bi buffer)) 0 (take n (drop index (p64.contents p))) @ drop (bi + n) buffer
      = write_block buffer bi (take n (drop index (p64.contents p)))"
      using bi assms(5) by (simp add: write_block_def)
    ultimately show ?thesis
      using dec buf bi False 0
      by (simp add: Packed64_GetBulk_body_def bpv_def [symmetric] lvc_def [symmetric] it' Let_def flip: of_nat_mult)
  qed
qed


lemma Packed64_GetBulk_contents:
  assumes "p64_inv p" and "index \<le> p64_valueCount p"
    and n: "n = min (length buffer) (p64_valueCount p - index)"
  shows "\<exists>k \<le> n. (0 < n \<longrightarrow> 0 < k) \<and>
    Packed64_GetBulk p index buffer = Some (int k, write_block buffer 0 (take k (drop index (p64.contents p))))"
proof -
  obtain op where op: "Of FormatPacked (p64_bitsPerValue p) = Some (Some op)"
    using Of_packed_some p64_invD(1,2) [OF assms(1)] by blast
  define l where "l = bop_LongValueCount op"
  have l: "0 < l"
    using Of_packed_methods [OF op] packed_count_pos by (simp add: l_def)
  have len: "min (int (length buffer)) (int (p64_valueCount p) - int index) = int n"
    using assms(2) by (simp add: n)
  have ub: "index + n \<le> p64_valueCount p" "n \<le> length buffer"
    using assms(2) by (simp_all add: n)
  note def = Packed64_GetBulk_def [of p index buffer, unfolded len op Let_def, simplified, folded l_def]
  show ?thesis
  proof (cases "index mod l = 0")
    case True
    then have "l dvd index"
      by (simp add: mod_eq_0_iff_dvd)
    then have "Packed64_GetBulk p index buffer =
      (let k = (if index < index + n div l * l then n div l * l else n) in
        Some (int k, write_block buffer 0 (take k (drop index (p64.contents p)))))"
      using Packed64_GetBulk_body_eq [OF assms(1) op, of index index n 0 buffer] ub True
      by (simp add: def l_def)
    then show ?thesis
      by (intro exI [of _ "if index < index + n div l * l then n div l * l else n"]) (auto simp: Let_def)
  next
    case False
    define k where "k = min (l - index mod l) n"
    have head: "Packed64_GetBulk_head p (l - index mod l) index 0 (int n) buffer =
      Some (Inr (index + k, k, int (n - k), write_block buffer 0 (take k (drop index (p64.contents p)))))"
      using Packed64_GetBulk_head_eq [OF assms(1), of index n 0 buffer "l - index mod l"] ub by (simp add: k_def)
    show ?thesis
    proof (cases "n = k")
      case True
      then show ?thesis
        using head False by (intro exI [of _ k]) (simp add: def)
    next
      case less: False
      then have k: "k = l - index mod l" "k < n"
        by (auto simp: k_def)
      then have kpos: "0 < k" and dvd: "l dvd index + k"
        using l False dvd_align_up by simp_all
      let ?buf = "write_block buffer 0 (take k (drop index (p64.contents p)))"
      define j where "j = (if index < index + k + (n - k) div l * l then (n - k) div l * l else n - k)"
      have "(n - k) div l * l \<le> n - k"
        by simp
      then have j: "j \<le> n - k"
        by (simp add: j_def)
      have body: "Packed64_GetBulk_body p op index (index + k) k (int (n - k)) ?buf =
        Some (int k + int j, write_block ?buf k (take j (drop (index + k) (p64.contents p))))"
        using Packed64_GetBulk_body_eq [OF assms(1) op, folded l_def, OF dvd, of index "n - k" k ?buf, OF _ _ _ refl]
          ub k(2) unfolding j_def Let_def by simp
      have nz: "int (n - k) \<noteq> 0" "0 < index mod l"
        using k(2) False by simp_all
      have "Packed64_GetBulk p index buffer = Packed64_GetBulk_body p op index (index + k) k (int (n - k)) ?buf"
        unfolding def head if_P [OF nz(2)] by (simp only: bind.bind_lunit sum.case prod.case nz(1) if_False)
      also have "\<dots> = Some (int (k + j), write_block buffer 0 (take (k + j) (drop index (p64.contents p))))"
        unfolding body using write_block_take_drop [of 0 k j buffer index "p64.contents p"] j k(2) ub by simp
      finally have "Packed64_GetBulk p index buffer = \<dots>" .
      then show ?thesis
        using j k(2) kpos by (intro exI [of _ "k + j"]) simp
    qed
  qed
qed


subsection \<open>Bulk writes\<close>

lemma Packed64_SetBulk_head_eq:
  assumes "p64_inv p" and "index + n \<le> p64_valueCount p" and "off + n \<le> length arr"
    and "fits_width (p64_bitsPerValue p) arr"
  shows "\<exists>p'. Packed64_SetBulk_head m arr index off (int n) p =
      Some (index + min m n, off + min m n, int (n - min m n), p') \<and>
    p64_inv p' \<and> p64_valueCount p' = p64_valueCount p \<and> p64_bitsPerValue p' = p64_bitsPerValue p \<and>
    p64.contents p' = write_block (p64.contents p) index (take (min m n) (drop off arr))"
  using assms
proof (induction m arbitrary: index off n p)
  case (Suc m)
  show ?case
  proof (cases n)
    case (Suc n')
    have off: "off < length arr" and i: "index < p64_valueCount p"
      using Suc.prems Suc by simp_all
    obtain p1 where p1: "Packed64_Set p index (arr ! off) = Some p1" "p64_inv p1"
      "p64_valueCount p1 = p64_valueCount p" "p64_bitsPerValue p1 = p64_bitsPerValue p"
      "p64.contents p1 = (p64.contents p)[index := arr ! off]"
      using p64.set_contents [OF Suc.prems(1) i] fits_width_nth [OF Suc.prems(4) off] by (auto simp: fits_def)
    have d: "arr ! off # take k (drop (Suc off) arr) = take (Suc k) (drop off arr)" for k
      using off by (simp add: Cons_nth_drop_Suc [symmetric])
    show ?thesis
      using Suc.IH [of p1 "index + 1" n' "off + 1"] p1 Suc.prems Suc off i d by (simp add: slice_get_def write_block_Cons)
  qed (use Suc.prems in simp)
qed simp

text \<open>Whole iterations of the encoder from a block boundary on.\<close>

lemma packed_encode_contents:
  assumes "p64_inv p" and bpv: "bpv = p64_bitsPerValue p" and lvc: "lvc = packed_count bp_longValueCount bpv"
    and "lvc dvd index" and "index + it * lvc \<le> p64_valueCount p" and "it * lvc \<le> length arr"
    and "fits_width bpv arr"
  shows "index * bpv div 64 \<le> length (p64_blocks p)"
    and "\<exists>out p'. packed_EncodeUint64 bpv arr (drop (index * bpv div 64) (p64_blocks p)) it = Some out \<and>
      p' = p\<lparr>p64_blocks := take (index * bpv div 64) (p64_blocks p) @ out\<rparr> \<and> p64_inv p' \<and>
      p64.contents p' = write_block (p64.contents p) index (take (it * lvc) arr)"
proof -
  note inv = p64_invD [OF assms(1), folded bpv]
  have w: "packed_width bpv"
    using inv by simp
  define bo lbc where "bo = index * bpv div 64" and "lbc = packed_count bp_longBlockCount bpv"
  note dec = packed_decode_contents [OF assms(1-5), of "replicate (it * lvc) 0", folded bo_def]
  show bo: "index * bpv div 64 \<le> length (p64_blocks p)"
    using dec(1) by (simp add: bo_def)
  obtain c where c: "index = lvc * c"
    using assms(4) by (rule dvdE)
  have cnt: "lvc * bpv = lbc * 64"
    using packed_counts(1) [OF w] by (simp add: lvc lbc_def)
  have "index * bpv = lbc * c * 64"
    unfolding c using cnt by (metis mult.assoc mult.commute)
  then have pos: "index * bpv = 64 * bo"
    by (simp add: bo_def)
  have nd: "(index + it * lvc) * bpv = 64 * (bo + it * lbc)"
    using pos cnt by (simp add: add_mult_distrib mult.assoc)
  have "(index + it * lvc) * bpv \<le> p64_valueCount p * bpv"
    using assms(5) by (rule mult_le_mono1)
  from order_trans [OF this inv(5)] have len: "bo + it * lbc \<le> length (p64_blocks p)"
    unfolding nd by simp
  let ?enc = "map (stream_block bpv arr) [0..<it * lbc] :: u64 list"
  define ws where "ws = write_block (p64_blocks p) bo ?enc"
  have enc: "packed_EncodeUint64 bpv arr (drop bo (p64_blocks p)) it = Some (write_block (drop bo (p64_blocks p)) 0 ?enc)"
    using packed_EncodeUint64_eq [OF w assms(7), of "drop bo (p64_blocks p)" it] len assms(6)
    by (simp add: lvc lbc_def)
  have ws: "take bo (p64_blocks p) @ write_block (drop bo (p64_blocks p)) 0 ?enc = ws"
    using len by (simp add: ws_def write_block_def add.commute)
  have dws: "drop bo ws = write_block (drop bo (p64_blocks p)) 0 ?enc"
    using len by (simp add: ws_def write_block_def add.commute)
  have lw: "length ws = length (p64_blocks p)"
    using len by (simp add: ws_def)
  define p' where "p' = p\<lparr>p64_blocks := ws\<rparr>"
  have p': "p64_inv p'" "p64_valueCount p' = p64_valueCount p" "p64_bitsPerValue p' = bpv" "p64_blocks p' = ws"
    using assms(1) lw by (simp_all add: p'_def p64_inv_def bpv)
  have inside: "packed_value bpv ws i = arr ! (i - index)" if i: "index \<le> i" "i < index + it * lvc" for i
  proof -
    have j: "i - index < it * lvc"
      using i by simp
    have "packed_value bpv ws i = packed_value bpv (drop bo ws) (i - index)"
      using packed_value_drop [of bpv bo ws index "i - index"] inv(2) pos lw len i(1) by simp
    also have "\<dots> = take_bit bpv (arr ! (i - index))"
      using long_codec.stream_of_encoded [OF w _ j [unfolded lvc] dws [unfolded lbc_def]] len
      by (simp add: lbc_def)
    finally show ?thesis
      using fits_width_nth [OF assms(7), of "i - index"] j assms(6) by simp
  qed
  have outside: "packed_value bpv ws i = packed_value bpv (p64_blocks p) i" if i: "i < index \<or> index + it * lvc \<le> i" for i
  proof (rule packed_value_unchanged [of bpv bo "bo + it * lbc"])
    show "ws ! q = p64_blocks p ! q" if "q < bo \<or> bo + it * lbc \<le> q" for q
      unfolding ws_def by (rule nth_write_block_outside) (use that len in simp_all)
    have "(i + 1) * bpv \<le> index * bpv" if "i < index"
      using that by (intro mult_le_mono1) simp
    moreover have "(index + it * lvc) * bpv \<le> i * bpv" if "index + it * lvc \<le> i"
      using that by (rule mult_le_mono1)
    ultimately show "(i + 1) * bpv \<le> 64 * bo \<or> 64 * (bo + it * lbc) \<le> i * bpv"
      using i unfolding pos nd by blast
  qed (use inv in simp)
  have "p64.contents p' = write_block (p64.contents p) index (take (it * lvc) arr)"
  proof (rule nth_equalityI)
    fix i
    assume "i < length (p64.contents p')"
    then have i: "i < p64_valueCount p"
      by (simp add: p')
    then show "p64.contents p' ! i = write_block (p64.contents p) index (take (it * lvc) arr) ! i"
      using inside [of i] outside [of i] assms(5,6) p64_contents [OF p'(1)] p64_contents [OF assms(1)]
      by (auto simp: p' nth_write_block bpv)
  qed (use assms(5,6) p' in simp)
  then show "\<exists>out p'. packed_EncodeUint64 bpv arr (drop (index * bpv div 64) (p64_blocks p)) it = Some out \<and>
      p' = p\<lparr>p64_blocks := take (index * bpv div 64) (p64_blocks p) @ out\<rparr> \<and> p64_inv p' \<and>
      p64.contents p' = write_block (p64.contents p) index (take (it * lvc) arr)"
    using enc ws p' unfolding bo_def [symmetric] p'_def by metis
qed


lemma Packed64_SetBulk_body_eq:
  assumes "p64_inv p" and op: "Of FormatPacked (p64_bitsPerValue p) = Some (Some op)"
    and "bop_LongValueCount op dvd index" and "orig \<le> index"
    and "index + n \<le> p64_valueCount p" and "off + n = length arr"
    and it: "it = n div bop_LongValueCount op" and "fits_width (p64_bitsPerValue p) arr"
    and k: "k = (if orig < index + it * bop_LongValueCount op then it * bop_LongValueCount op else n)"
  shows "\<exists>p'. Packed64_SetBulk_body p op arr orig index off (int n) = Some (int (index - orig) + int k, p') \<and>
    p64_inv p' \<and> p64.contents p' = write_block (p64.contents p) index (take k (drop off arr))"
proof -
  define bpv lvc where "bpv = p64_bitsPerValue p" and "lvc = bop_LongValueCount op"
  note m = Of_packed_methods [OF op, folded bpv_def]
  have lvc: "lvc = packed_count bp_longValueCount bpv"
    by (simp add: lvc_def m)
  have itn: "it * lvc \<le> n"
    by (simp add: it lvc_def)
  have fit: "fits_width bpv (drop off arr)"
    using assms(8) by (simp add: bpv_def fits_width_drop)
  have ub: "index + it * lvc \<le> p64_valueCount p" and itl: "it * lvc \<le> length (drop off arr)"
    using itn assms(5,6) by simp_all
  obtain out p' where enc: "bop_EncodeUint64 op (drop off arr) (drop (index * bpv div 64) (p64_blocks p)) it = Some out"
    and p': "p' = p\<lparr>p64_blocks := take (index * bpv div 64) (p64_blocks p) @ out\<rparr>" "p64_inv p'"
      "p64.contents p' = write_block (p64.contents p) index (take (it * lvc) (drop off arr))"
    and bi: "index * bpv div 64 \<le> length (p64_blocks p)"
    using packed_encode_contents [OF assms(1) bpv_def lvc assms(3) [folded lvc_def] ub itl fit] m(4) by auto
  have it': "int n sdiv int lvc = int it"
    by (simp add: it lvc_def sdiv_nat)
  show ?thesis
  proof (cases "orig < index + it * lvc")
    case True
    then have "int orig < int index + int it * int lvc"
      by (simp flip: of_nat_mult of_nat_add)
    then show ?thesis
      using True enc bi assms(4,6) p'
      by (simp add: Packed64_SetBulk_body_def bpv_def [symmetric] lvc_def [symmetric] it' Let_def of_nat_diff k)
  next
    case False
    then have "it * lvc = 0" "orig = index"
      using assms(4) by linarith+
    then have 0: "it = 0" "orig = index"
      using packed_count_pos(1) [OF m(1)] by (simp_all add: lvc)
    have c: "p64.contents p' = p64.contents p"
      using p'(3) 0 by simp
    have q: "p64_valueCount p' = p64_valueCount p" "p64_bitsPerValue p' = p64_bitsPerValue p"
      by (simp_all add: p'(1))
    have ub': "index + length (drop off arr) \<le> p64_valueCount p'"
      using assms(5,6) q(1) by simp
    obtain p'' where p'': "mutable_SetBulk_loop Packed64_Set index (drop off arr) p' = Some p''" "p64_inv p''"
      "p64.contents p'' = write_block (p64.contents p) index (drop off arr)"
      using p64.set_bulk_loop_contents [OF p'(2) ub'] q c fit by (auto simp: bpv_def)
    have take: "take n (drop off arr) = drop off arr"
      using assms(6) by simp
    have len: "min (int (length (drop off arr))) (int (p64_valueCount p') - int index) = int n"
      using assms(5,6) q by simp
    have "pkg_SetBulk Packed64_Set p64_valueCount p' index (take n (drop off arr)) = Some (int n, p'')"
      unfolding pkg_SetBulk_def take len by (simp add: p'')
    then show ?thesis
      using enc bi assms(6) False 0 p'' take
      by (simp add: Packed64_SetBulk_body_def bpv_def [symmetric] lvc_def [symmetric] it' Let_def k p'(1))
  qed
qed

text \<open>
  \<open>SetBulk\<close> where its start offset is the one of the values: it writes some values, at least one,
  at their place.
\<close>

lemma Packed64_SetBulk_contents:
  assumes "p64_inv p" and "index + length arr \<le> p64_valueCount p" and "fits_width (p64_bitsPerValue p) arr"
    and op: "Of FormatPacked (p64_bitsPerValue p) = Some (Some op)"
    and al: "index mod bop_LongBlockCount op = index mod bop_LongValueCount op"
  shows "\<exists>k p'. k \<le> length arr \<and> (arr \<noteq> [] \<longrightarrow> 0 < k) \<and>
    Packed64_SetBulk p index arr = Some (int k, p') \<and> p64_inv p' \<and>
    p64.contents p' = write_block (p64.contents p) index (take k arr)"
proof -
  define l n where "l = bop_LongValueCount op" and "n = length arr"
  have l: "0 < l"
    using Of_packed_methods [OF op] packed_count_pos by (simp add: l_def)
  have len: "min (int (length arr)) (int (p64_valueCount p) - int index) = int n"
    using assms(2) by (simp add: n_def)
  have ub: "index + n \<le> p64_valueCount p" "n = length arr"
    using assms(2) by (simp_all add: n_def)
  note def = Packed64_SetBulk_def [of p index arr, unfolded len op Let_def, simplified, unfolded al, folded l_def]
  show ?thesis
  proof (cases "index mod l = 0")
    case True
    then have dvd: "l dvd index"
      by (simp add: mod_eq_0_iff_dvd)
    define k where "k = (if index < index + n div l * l then n div l * l else n)"
    have "k \<le> n" "0 < n \<longrightarrow> 0 < k"
      by (simp_all add: k_def)
    moreover obtain p' where "Packed64_SetBulk_body p op arr index index 0 (int n) = Some (int k, p')" "p64_inv p'"
      "p64.contents p' = write_block (p64.contents p) index (take k arr)"
      using Packed64_SetBulk_body_eq [OF assms(1) op, folded l_def, OF dvd order_refl ub(1) _ refl assms(3) k_def, of 0] ub
      by auto
    ultimately show ?thesis
      using True ub by (intro exI [of _ k] exI [of _ p']) (simp add: def)
  next
    case False
    define k where "k = min (l - index mod l) n"
    obtain p1 where head: "Packed64_SetBulk_head (l - index mod l) arr index 0 (int n) p = Some (index + k, k, int (n - k), p1)"
      and p1: "p64_inv p1" "p64_valueCount p1 = p64_valueCount p" "p64_bitsPerValue p1 = p64_bitsPerValue p"
        "p64.contents p1 = write_block (p64.contents p) index (take k arr)"
      using Packed64_SetBulk_head_eq [OF assms(1), of index n 0 arr "l - index mod l"] ub assms(3) by (auto simp: k_def)
    show ?thesis
    proof (cases "n = k")
      case True
      then show ?thesis
        using head False p1 ub by (intro exI [of _ k] exI [of _ p1]) (auto simp: def)
    next
      case less: False
      then have k: "k = l - index mod l" "k < n"
        by (auto simp: k_def)
      then have kpos: "0 < k" and dvd: "l dvd index + k"
        using l False dvd_align_up by simp_all
      define j where "j = (if index < index + k + (n - k) div l * l then (n - k) div l * l else n - k)"
      have j: "j \<le> n - k"
        by (simp add: j_def)
      have op1: "Of FormatPacked (p64_bitsPerValue p1) = Some (Some op)"
        using op p1(3) by simp
      obtain p2 where p2: "Packed64_SetBulk_body p1 op arr index (index + k) k (int (n - k)) = Some (int k + int j, p2)"
        "p64_inv p2" "p64.contents p2 = write_block (p64.contents p1) (index + k) (take j (drop k arr))"
        using Packed64_SetBulk_body_eq [OF p1(1) op1, folded l_def, OF dvd _ _ _ refl _ j_def, of k arr] ub p1 k(2) assms(3)
        by auto
      have "take k arr @ take j (drop k arr) = take (k + j) arr"
        by (simp add: take_add)
      then have "p64.contents p2 = write_block (p64.contents p) index (take (k + j) arr)"
        using p2(3) p1(4) write_block_append [of index "take k arr" "take j (drop k arr)" "p64.contents p"] ub j k(2)
        by simp
      moreover have nz: "int (n - k) \<noteq> 0" "0 < index mod l"
        using k(2) False by simp_all
      then have "Packed64_SetBulk p index arr = Some (int (k + j), p2)"
        unfolding def head if_P [OF nz(2)] by (simp only: bind.bind_lunit prod.case nz(1) if_False p2(1) of_nat_add)
      ultimately show ?thesis
        using j k(2) kpos ub p2(2) by (intro exI [of _ "k + j"] exI [of _ p2]) simp
    qed
  qed
qed

subsection \<open>Properties\<close>

text \<open>
  C5. A \<open>Packed64\<close> is an array: after \<open>Set\<close> at an index, \<open>Get\<close> returns the value there and every
  other value is unchanged, also when the value spans two blocks.
\<close>

theorem packed64_get_set:
  assumes "p64_inv p" and "i < p64_valueCount p" and "fits (p64_bitsPerValue p) v"
  shows "\<exists>p'. Packed64_Set p i v = Some p' \<and> p64_inv p' \<and> p64_valueCount p' = p64_valueCount p \<and>
    (\<forall>j < p64_valueCount p. Packed64_Get p' j = (if j = i then Inr v else Packed64_Get p j))"
  using p64.set_value [OF assms] by (auto split: if_splits)

theorem packed64_get_set_witness:
  "\<exists>p p'. NewPacked64 10 13 = Some p \<and> Packed64_Set p 4 5000 = Some p' \<and> Packed64_Get p' 4 = Inr 5000 \<and>
     Packed64_Get p' 5 = Packed64_Get p 5"
proof -
  obtain p where p: "NewPacked64 10 13 = Some p" "p64_inv p" "p64_valueCount p = 10" "p64_bitsPerValue p = 13"
    using NewPacked64_inv [of 13 10] by auto
  have "fits 13 5000"
    by (simp add: fits_def take_bit_eq_mask mask_eq_exp_minus_1)
  then show ?thesis
    using packed64_get_set [of p 4 5000] p by auto
qed

text \<open>
  C6. \<open>Fill\<close>, which writes whole aligned blocks from a pattern where it can, sets exactly the
  values of the range.
\<close>

theorem packed64_fill:
  assumes "p64_inv p" and "a \<le> b" and "b \<le> p64_valueCount p" and "fits (p64_bitsPerValue p) v"
  shows "\<exists>p'. Packed64_Fill p a b v = Some p' \<and> p64_inv p' \<and>
    (\<forall>j < p64_valueCount p. Packed64_Get p' j = (if a \<le> j \<and> j < b then Inr v else Packed64_Get p j))"
proof -
  obtain p' where p': "Packed64_Fill p a b v = Some p'" "p64_inv p'" "p64_valueCount p' = p64_valueCount p"
    "p64.contents p' = write_block (p64.contents p) a (replicate (b - a) v)"
    using Packed64_Fill_contents [OF assms] by auto
  have "Packed64_Get p' j = (if a \<le> j \<and> j < b then Inr v else Packed64_Get p j)" if "j < p64_valueCount p" for j
    using p64.get_contents [OF p'(2), of j] p64.get_contents [OF assms(1), of j] that p'(3) assms(2,3)
    unfolding p'(4) by (auto simp: nth_write_block)
  then show ?thesis
    using p' by blast
qed

theorem packed64_fill_witness:
  "\<exists>p p'. NewPacked64 300 3 = Some p \<and> Packed64_Fill p 5 290 6 = Some p' \<and>
     Packed64_Get p' 5 = Inr 6 \<and> Packed64_Get p' 289 = Inr 6 \<and> Packed64_Get p' 290 = Packed64_Get p 290"
proof -
  obtain p where p: "NewPacked64 300 3 = Some p" "p64_inv p" "p64_valueCount p = 300" "p64_bitsPerValue p = 3"
    using NewPacked64_inv [of 3 300] by auto
  have "fits 3 6"
    by (simp add: fits_def take_bit_eq_mask mask_eq_exp_minus_1)
  then show ?thesis
    using packed64_fill [of p 5 290 6] p by auto
qed

text \<open>
  C7. \<open>GetBulk\<close> reads a prefix of what is asked for, at least one value if there is any, and
  stores the values of \<open>Get\<close> in order, whatever the alignment of the index.
\<close>

theorem packed64_get_bulk:
  assumes "p64_inv p" and "index \<le> p64_valueCount p"
  shows "\<exists>k buffer'. Packed64_GetBulk p index buffer = Some (int k, buffer') \<and>
    k \<le> min (length buffer) (p64_valueCount p - index) \<and>
    (index < p64_valueCount p \<and> buffer \<noteq> [] \<longrightarrow> 0 < k) \<and> length buffer' = length buffer \<and>
    (\<forall>j < k. Packed64_Get p (index + j) = Inr (buffer' ! j)) \<and> drop k buffer' = drop k buffer"
proof -
  obtain k where k: "k \<le> min (length buffer) (p64_valueCount p - index)"
    "0 < min (length buffer) (p64_valueCount p - index) \<longrightarrow> 0 < k"
    "Packed64_GetBulk p index buffer = Some (int k, write_block buffer 0 (take k (drop index (p64.contents p))))"
    using Packed64_GetBulk_contents [OF assms refl, of buffer] by (elim exE conjE) (rule that)
  let ?b = "write_block buffer 0 (take k (drop index (p64.contents p)))"
  have "Packed64_Get p (index + j) = Inr (?b ! j)" if "j < k" for j
  proof -
    have "k \<le> p64_valueCount p - index" "k \<le> length buffer"
      using k(1) by simp_all
    with that have "index + j < p64_valueCount p" "j < length buffer"
      by linarith+
    then show ?thesis
      using p64.get_contents [OF assms(1), of "index + j"] that k(1) by (simp add: nth_write_block)
  qed
  moreover have "length ?b = length buffer" "drop k ?b = drop k buffer"
    using k(1) assms(2) by (simp_all add: write_block_def)
  ultimately show ?thesis
    using k by auto
qed

theorem packed64_get_bulk_witness:
  "\<exists>p k buffer. NewPacked64 10 13 = Some p \<and> Packed64_GetBulk p 3 (replicate 5 1) = Some (int k, buffer) \<and>
     0 < k \<and> k \<le> 5 \<and> Packed64_Get p 3 = Inr (buffer ! 0)"
proof -
  obtain p where p: "NewPacked64 10 13 = Some p" "p64_inv p" "p64_valueCount p = 10" "p64_bitsPerValue p = 13"
    using NewPacked64_inv [of 13 10] by auto
  obtain k buffer' where "Packed64_GetBulk p 3 (replicate 5 1) = Some (int k, buffer')" "0 < k" "k \<le> 5"
    "\<forall>j < k. Packed64_Get p (3 + j) = Inr (buffer' ! j)"
    using packed64_get_bulk [of p 3 "replicate 5 1"] p by auto
  then show ?thesis
    using p(1) by fastforce
qed

text \<open>
  C8. \<open>SetBulk\<close> writes a non-empty prefix of the values at their place, provided its start offset
  (\<open>index % LongBlockCount\<close>) is the offset in values, as at index 0.
\<close>

theorem packed64_set_bulk:
  assumes "p64_inv p" and "index + length arr \<le> p64_valueCount p" and "fits_width (p64_bitsPerValue p) arr"
    and "Of FormatPacked (p64_bitsPerValue p) = Some (Some op)"
    and "index mod bop_LongBlockCount op = index mod bop_LongValueCount op"
  shows "\<exists>k p'. Packed64_SetBulk p index arr = Some (int k, p') \<and> k \<le> length arr \<and> (arr \<noteq> [] \<longrightarrow> 0 < k) \<and> p64_inv p' \<and>
    p64.contents p' = write_block (p64.contents p) index (take k arr)"
  using Packed64_SetBulk_contents [OF assms] by auto

theorem packed64_set_bulk_witness:
  "\<exists>p k p'. NewPacked64 10 13 = Some p \<and> Packed64_SetBulk p 0 [7, 8] = Some (int k, p') \<and> 0 < k \<and>
     p64.contents p' = write_block (p64.contents p) 0 (take k [7, 8])"
proof -
  obtain p where p: "NewPacked64 10 13 = Some p" "p64_inv p" "p64_valueCount p = 10" "p64_bitsPerValue p = 13"
    using NewPacked64_inv [of 13 10] by auto
  obtain op where op: "Of FormatPacked 13 = Some (Some op)"
    using Of_packed_some [of 13] by auto
  have "fits_width 13 [7, 8]"
    by (simp add: fits_width_def take_bit_eq_mask mask_eq_exp_minus_1)
  then show ?thesis
    using packed64_set_bulk [of p 0 "[7, 8]" op] p op by auto
qed

text \<open>
  Elsewhere \<open>SetBulk\<close> may write to the wrong place: it aligns on \<open>LongBlockCount\<close>, not
  \<open>LongValueCount\<close>. At 32 bits, two values set at index 3 are stored at the indices 2 and 3.
\<close>

theorem packed64_set_bulk_misplaced:
  "\<exists>p p'. NewPacked64 5 32 = Some p \<and> Packed64_SetBulk p 3 [7, 9] = Some (2, p') \<and>
     map (Packed64_Get p') [0, 1, 2, 3, 4] = [Inr 0, Inr 0, Inr 7, Inr 9, Inr 0]"
proof -
  have "returns (NewPacked64 5 32) (\<lambda>p. returns (Packed64_SetBulk p 3 [7, 9]) (\<lambda>r. fst r = 2 \<and>
      map (Packed64_Get (snd r)) [0, 1, 2, 3, 4] = [Inr 0, Inr 0, Inr 7, Inr 9, Inr 0]))"
    by code_simp
  from returnsD [OF this] obtain p where p: "NewPacked64 5 32 = Some p"
    "returns (Packed64_SetBulk p 3 [7, 9]) (\<lambda>r. fst r = 2 \<and>
      map (Packed64_Get (snd r)) [0, 1, 2, 3, 4] = [Inr 0, Inr 0, Inr 7, Inr 9, Inr 0])"
    by (elim exE conjE) (rule that)
  from returnsD [OF p(2)] obtain n p' where "Packed64_SetBulk p 3 [7, 9] = Some (n, p')" "n = 2"
    "map (Packed64_Get p') [0, 1, 2, 3, 4] = [Inr 0, Inr 0, Inr 7, Inr 9, Inr 0]"
    by (elim exE conjE) (metis that prod.collapse)
  then show ?thesis
    by (intro exI [of _ p] exI [of _ p'] conjI p(1)) simp_all
qed


end
