(* ===== verification/Packed_Arrays.thy ===== *)
theory Packed_Arrays
  imports Packed64
begin

text \<open>
  The other arrays of packed integers: direct.go (one array element per value), packed8threeblocks.go
  and packed16threeblocks.go (three elements per value) and packed64singleblock.go (values that do
  not span blocks). Each is interpreted in the contract \<open>packed_array\<close>.
\<close>

subsection \<open>One element per value\<close>

text \<open>\<open>Direct8\<close> .. \<open>Direct64\<close> differ in the type of the elements only.\<close>

record 'e Direct =
  d_valueCount :: nat
  d_values :: "'e list"

type_synonym Direct8 = "u8 Direct"
type_synonym Direct16 = "u16 Direct"
type_synonym Direct32 = "u32 Direct"
type_synonym Direct64 = "u64 Direct"

definition NewDirect :: "nat \<Rightarrow> 'a::len word Direct" where
  "NewDirect valueCount = \<lparr>d_valueCount = valueCount, d_values = replicate valueCount 0\<rparr>"

definition Direct_Get :: "'a::len word Direct \<Rightarrow> nat \<Rightarrow> (go_error + u64) option" where
  "Direct_Get d index = map_option (\<lambda>v. Inr (ucast v)) (slice_get (d_values d) index)"

definition Direct_Set :: "'a::len word Direct \<Rightarrow> nat \<Rightarrow> u64 \<Rightarrow> 'a word Direct option" where
  "Direct_Set d index value =
     map_option (\<lambda>vs. d\<lparr>d_values := vs\<rparr>) (slice_set (d_values d) index (ucast value))"

definition Direct_Clear :: "'a::len word Direct \<Rightarrow> 'a word Direct" where
  "Direct_Clear d = d\<lparr>d_values := replicate (length (d_values d)) 0\<rparr>"

text \<open>\<open>GetBulk\<close> and \<open>SetBulk\<close> return the clipped number, but loop over the whole slice.\<close>

primrec Direct_GetBulk_loop :: "'a::len word list \<Rightarrow> nat \<Rightarrow> nat \<Rightarrow> nat \<Rightarrow> u64 list \<Rightarrow> u64 list option" where
  "Direct_GetBulk_loop vs index 0 i arr = Some arr"
| "Direct_GetBulk_loop vs index (Suc n) i arr = do {
     v \<leftarrow> slice_get vs (index + i);
     arr \<leftarrow> slice_set arr i (ucast v);
     Direct_GetBulk_loop vs index n (i + 1) arr
   }"

definition Direct_GetBulk :: "'a::len word Direct \<Rightarrow> nat \<Rightarrow> u64 list \<Rightarrow> (int \<times> u64 list) option" where
  "Direct_GetBulk d index arr =
     (let gets = min (int (d_valueCount d) - int index) (int (length arr)) in
      map_option (Pair gets) (Direct_GetBulk_loop (d_values d) index (length arr) 0 arr))"

primrec Direct_SetBulk_loop :: "nat \<Rightarrow> u64 list \<Rightarrow> 'a::len word list \<Rightarrow> 'a word list option" where
  "Direct_SetBulk_loop index [] vs = Some vs"
| "Direct_SetBulk_loop index (v # arr) vs = do {
     vs \<leftarrow> slice_set vs index (ucast v);
     Direct_SetBulk_loop (index + 1) arr vs
   }"

definition Direct_SetBulk :: "'a::len word Direct \<Rightarrow> nat \<Rightarrow> u64 list \<Rightarrow> (int \<times> 'a word Direct) option" where
  "Direct_SetBulk d index arr =
     (let sets = min (int (d_valueCount d) - int index) (int (length arr)) in
      map_option (\<lambda>vs. (sets, d\<lparr>d_values := vs\<rparr>)) (Direct_SetBulk_loop index arr (d_values d)))"

definition Direct_Fill :: "'a::len word Direct \<Rightarrow> nat \<Rightarrow> nat \<Rightarrow> u64 \<Rightarrow> 'a word Direct option" where
  "Direct_Fill d fromIndex toIndex value = mutable_Fill Direct_Set d fromIndex toIndex value"

definition NewDirect8 :: "nat \<Rightarrow> Direct8" where
  "NewDirect8 = NewDirect"

definition Direct8_Get :: "Direct8 \<Rightarrow> nat \<Rightarrow> (go_error + u64) option" where
  "Direct8_Get = Direct_Get"

definition Direct8_Set :: "Direct8 \<Rightarrow> nat \<Rightarrow> u64 \<Rightarrow> Direct8 option" where
  "Direct8_Set = Direct_Set"

definition Direct8_Clear :: "Direct8 \<Rightarrow> Direct8" where
  "Direct8_Clear = Direct_Clear"

definition Direct8_GetBulk :: "Direct8 \<Rightarrow> nat \<Rightarrow> u64 list \<Rightarrow> (int \<times> u64 list) option" where
  "Direct8_GetBulk = Direct_GetBulk"

definition Direct8_SetBulk :: "Direct8 \<Rightarrow> nat \<Rightarrow> u64 list \<Rightarrow> (int \<times> Direct8) option" where
  "Direct8_SetBulk = Direct_SetBulk"

definition Direct8_Fill :: "Direct8 \<Rightarrow> nat \<Rightarrow> nat \<Rightarrow> u64 \<Rightarrow> Direct8 option" where
  "Direct8_Fill = Direct_Fill"

definition NewDirect16 :: "nat \<Rightarrow> Direct16" where
  "NewDirect16 = NewDirect"

definition Direct16_Get :: "Direct16 \<Rightarrow> nat \<Rightarrow> (go_error + u64) option" where
  "Direct16_Get = Direct_Get"

definition Direct16_Set :: "Direct16 \<Rightarrow> nat \<Rightarrow> u64 \<Rightarrow> Direct16 option" where
  "Direct16_Set = Direct_Set"

definition Direct16_Clear :: "Direct16 \<Rightarrow> Direct16" where
  "Direct16_Clear = Direct_Clear"

definition Direct16_GetBulk :: "Direct16 \<Rightarrow> nat \<Rightarrow> u64 list \<Rightarrow> (int \<times> u64 list) option" where
  "Direct16_GetBulk = Direct_GetBulk"

definition Direct16_SetBulk :: "Direct16 \<Rightarrow> nat \<Rightarrow> u64 list \<Rightarrow> (int \<times> Direct16) option" where
  "Direct16_SetBulk = Direct_SetBulk"

definition Direct16_Fill :: "Direct16 \<Rightarrow> nat \<Rightarrow> nat \<Rightarrow> u64 \<Rightarrow> Direct16 option" where
  "Direct16_Fill = Direct_Fill"

definition NewDirect32 :: "nat \<Rightarrow> Direct32" where
  "NewDirect32 = NewDirect"

definition Direct32_Get :: "Direct32 \<Rightarrow> nat \<Rightarrow> (go_error + u64) option" where
  "Direct32_Get = Direct_Get"

definition Direct32_Set :: "Direct32 \<Rightarrow> nat \<Rightarrow> u64 \<Rightarrow> Direct32 option" where
  "Direct32_Set = Direct_Set"

definition Direct32_Clear :: "Direct32 \<Rightarrow> Direct32" where
  "Direct32_Clear = Direct_Clear"

definition Direct32_GetBulk :: "Direct32 \<Rightarrow> nat \<Rightarrow> u64 list \<Rightarrow> (int \<times> u64 list) option" where
  "Direct32_GetBulk = Direct_GetBulk"

definition Direct32_SetBulk :: "Direct32 \<Rightarrow> nat \<Rightarrow> u64 list \<Rightarrow> (int \<times> Direct32) option" where
  "Direct32_SetBulk = Direct_SetBulk"

definition Direct32_Fill :: "Direct32 \<Rightarrow> nat \<Rightarrow> nat \<Rightarrow> u64 \<Rightarrow> Direct32 option" where
  "Direct32_Fill = Direct_Fill"

definition NewDirect64 :: "nat \<Rightarrow> Direct64" where
  "NewDirect64 = NewDirect"

definition Direct64_Get :: "Direct64 \<Rightarrow> nat \<Rightarrow> (go_error + u64) option" where
  "Direct64_Get = Direct_Get"

definition Direct64_Set :: "Direct64 \<Rightarrow> nat \<Rightarrow> u64 \<Rightarrow> Direct64 option" where
  "Direct64_Set = Direct_Set"

definition Direct64_Clear :: "Direct64 \<Rightarrow> Direct64" where
  "Direct64_Clear = Direct_Clear"

definition Direct64_GetBulk :: "Direct64 \<Rightarrow> nat \<Rightarrow> u64 list \<Rightarrow> (int \<times> u64 list) option" where
  "Direct64_GetBulk = Direct_GetBulk"

definition Direct64_SetBulk :: "Direct64 \<Rightarrow> nat \<Rightarrow> u64 list \<Rightarrow> (int \<times> Direct64) option" where
  "Direct64_SetBulk = Direct_SetBulk"

definition Direct64_Fill :: "Direct64 \<Rightarrow> nat \<Rightarrow> nat \<Rightarrow> u64 \<Rightarrow> Direct64 option" where
  "Direct64_Fill = Direct_Fill"

subsection \<open>Three elements per value\<close>

record Packed8ThreeBlocks =
  p8_valueCount :: nat
  p8_blocks :: "u8 list"

definition NewPacked8ThreeBlocks :: "nat \<Rightarrow> Packed8ThreeBlocks" where
  "NewPacked8ThreeBlocks valueCount = \<lparr>p8_valueCount = valueCount, p8_blocks = replicate (valueCount * 3) 0\<rparr>"

definition Packed8ThreeBlocks_read :: "u8 list \<Rightarrow> nat \<Rightarrow> u64 option" where
  "Packed8ThreeBlocks_read blocks o' = do {
     b0 \<leftarrow> slice_get blocks o';
     b1 \<leftarrow> slice_get blocks (o' + 1);
     b2 \<leftarrow> slice_get blocks (o' + 2);
     Some (push_bit 16 (ucast b0) OR push_bit 8 (ucast b1) OR ucast b2)
   }"

definition Packed8ThreeBlocks_write :: "u8 list \<Rightarrow> nat \<Rightarrow> u64 \<Rightarrow> u8 list option" where
  "Packed8ThreeBlocks_write blocks off value = do {
     blocks \<leftarrow> slice_set blocks off (ucast (drop_bit 16 value));
     blocks \<leftarrow> slice_set blocks (off + 1) (ucast (drop_bit 8 value));
     slice_set blocks (off + 2) (ucast value)
   }"

definition Packed8ThreeBlocks_Get :: "Packed8ThreeBlocks \<Rightarrow> nat \<Rightarrow> (go_error + u64) option" where
  "Packed8ThreeBlocks_Get p index = map_option Inr (Packed8ThreeBlocks_read (p8_blocks p) (index * 3))"

primrec Packed8ThreeBlocks_GetBulk_loop :: "u8 list \<Rightarrow> nat \<Rightarrow> nat \<Rightarrow> nat \<Rightarrow> u64 list \<Rightarrow> u64 list option" where
  "Packed8ThreeBlocks_GetBulk_loop blocks i off 0 arr = Some arr"
| "Packed8ThreeBlocks_GetBulk_loop blocks i off (Suc n) arr = do {
     v \<leftarrow> Packed8ThreeBlocks_read blocks i;
     arr \<leftarrow> slice_set arr off v;
     Packed8ThreeBlocks_GetBulk_loop blocks (i + 3) (off + 1) n arr
   }"

definition Packed8ThreeBlocks_GetBulk :: "Packed8ThreeBlocks \<Rightarrow> nat \<Rightarrow> u64 list \<Rightarrow> (int \<times> u64 list) option" where
  "Packed8ThreeBlocks_GetBulk p index arr =
     (let gets = min (int (p8_valueCount p) - int index) (int (length arr)) in
      map_option (Pair gets) (Packed8ThreeBlocks_GetBulk_loop (p8_blocks p) (index * 3) 0 (nat gets) arr))"

definition Packed8ThreeBlocks_Set :: "Packed8ThreeBlocks \<Rightarrow> nat \<Rightarrow> u64 \<Rightarrow> Packed8ThreeBlocks option" where
  "Packed8ThreeBlocks_Set p index value =
     map_option (\<lambda>bs. p\<lparr>p8_blocks := bs\<rparr>) (Packed8ThreeBlocks_write (p8_blocks p) (index * 3) value)"

primrec Packed8ThreeBlocks_SetBulk_loop :: "nat \<Rightarrow> u64 list \<Rightarrow> u8 list \<Rightarrow> u8 list option" where
  "Packed8ThreeBlocks_SetBulk_loop off [] blocks = Some blocks"
| "Packed8ThreeBlocks_SetBulk_loop off (value # arr) blocks = do {
     blocks \<leftarrow> Packed8ThreeBlocks_write blocks off value;
     Packed8ThreeBlocks_SetBulk_loop (off + 3) arr blocks
   }"

definition Packed8ThreeBlocks_SetBulk :: "Packed8ThreeBlocks \<Rightarrow> nat \<Rightarrow> u64 list \<Rightarrow> (int \<times> Packed8ThreeBlocks) option" where
  "Packed8ThreeBlocks_SetBulk p index arr =
     (let sets = min (int (p8_valueCount p) - int index) (int (length arr)) in
      map_option (\<lambda>bs. (sets, p\<lparr>p8_blocks := bs\<rparr>))
        (Packed8ThreeBlocks_SetBulk_loop (index * 3) (take (nat sets) arr) (p8_blocks p)))"

primrec Packed8ThreeBlocks_Fill_loop :: "nat \<Rightarrow> nat \<Rightarrow> u64 \<Rightarrow> u8 list \<Rightarrow> u8 list option" where
  "Packed8ThreeBlocks_Fill_loop i 0 value blocks = Some blocks"
| "Packed8ThreeBlocks_Fill_loop i (Suc n) value blocks = do {
     blocks \<leftarrow> Packed8ThreeBlocks_write blocks i value;
     Packed8ThreeBlocks_Fill_loop (i + 3) n value blocks
   }"

definition Packed8ThreeBlocks_Fill :: "Packed8ThreeBlocks \<Rightarrow> nat \<Rightarrow> nat \<Rightarrow> u64 \<Rightarrow> Packed8ThreeBlocks option" where
  "Packed8ThreeBlocks_Fill p fromIndex toIndex value =
     map_option (\<lambda>bs. p\<lparr>p8_blocks := bs\<rparr>)
       (Packed8ThreeBlocks_Fill_loop (fromIndex * 3) (toIndex - fromIndex) value (p8_blocks p))"

definition Packed8ThreeBlocks_Clear :: "Packed8ThreeBlocks \<Rightarrow> Packed8ThreeBlocks" where
  "Packed8ThreeBlocks_Clear p = p\<lparr>p8_blocks := replicate (length (p8_blocks p)) 0\<rparr>"

record Packed16ThreeBlocks =
  p16_valueCount :: nat
  p16_blocks :: "u16 list"

definition NewPacked16ThreeBlocks :: "nat \<Rightarrow> Packed16ThreeBlocks" where
  "NewPacked16ThreeBlocks valueCount = \<lparr>p16_valueCount = valueCount, p16_blocks = replicate (valueCount * 3) 0\<rparr>"

definition Packed16ThreeBlocks_read :: "u16 list \<Rightarrow> nat \<Rightarrow> u64 option" where
  "Packed16ThreeBlocks_read blocks o' = do {
     b0 \<leftarrow> slice_get blocks o';
     b1 \<leftarrow> slice_get blocks (o' + 1);
     b2 \<leftarrow> slice_get blocks (o' + 2);
     Some (push_bit 32 (ucast b0) OR push_bit 16 (ucast b1) OR ucast b2)
   }"

definition Packed16ThreeBlocks_write :: "u16 list \<Rightarrow> nat \<Rightarrow> u64 \<Rightarrow> u16 list option" where
  "Packed16ThreeBlocks_write blocks off value = do {
     blocks \<leftarrow> slice_set blocks off (ucast (drop_bit 32 value));
     blocks \<leftarrow> slice_set blocks (off + 1) (ucast (drop_bit 16 value));
     slice_set blocks (off + 2) (ucast value)
   }"

definition Packed16ThreeBlocks_Get :: "Packed16ThreeBlocks \<Rightarrow> nat \<Rightarrow> (go_error + u64) option" where
  "Packed16ThreeBlocks_Get p index = map_option Inr (Packed16ThreeBlocks_read (p16_blocks p) (index * 3))"

primrec Packed16ThreeBlocks_GetBulk_loop :: "u16 list \<Rightarrow> nat \<Rightarrow> nat \<Rightarrow> nat \<Rightarrow> u64 list \<Rightarrow> u64 list option" where
  "Packed16ThreeBlocks_GetBulk_loop blocks i off 0 arr = Some arr"
| "Packed16ThreeBlocks_GetBulk_loop blocks i off (Suc n) arr = do {
     v \<leftarrow> Packed16ThreeBlocks_read blocks i;
     arr \<leftarrow> slice_set arr off v;
     Packed16ThreeBlocks_GetBulk_loop blocks (i + 3) (off + 1) n arr
   }"

definition Packed16ThreeBlocks_GetBulk :: "Packed16ThreeBlocks \<Rightarrow> nat \<Rightarrow> u64 list \<Rightarrow> (int \<times> u64 list) option" where
  "Packed16ThreeBlocks_GetBulk p index arr =
     (let gets = min (int (p16_valueCount p) - int index) (int (length arr)) in
      map_option (Pair gets) (Packed16ThreeBlocks_GetBulk_loop (p16_blocks p) (index * 3) 0 (nat gets) arr))"

definition Packed16ThreeBlocks_Set :: "Packed16ThreeBlocks \<Rightarrow> nat \<Rightarrow> u64 \<Rightarrow> Packed16ThreeBlocks option" where
  "Packed16ThreeBlocks_Set p index value =
     map_option (\<lambda>bs. p\<lparr>p16_blocks := bs\<rparr>) (Packed16ThreeBlocks_write (p16_blocks p) (index * 3) value)"

primrec Packed16ThreeBlocks_SetBulk_loop :: "nat \<Rightarrow> u64 list \<Rightarrow> u16 list \<Rightarrow> u16 list option" where
  "Packed16ThreeBlocks_SetBulk_loop off [] blocks = Some blocks"
| "Packed16ThreeBlocks_SetBulk_loop off (value # arr) blocks = do {
     blocks \<leftarrow> Packed16ThreeBlocks_write blocks off value;
     Packed16ThreeBlocks_SetBulk_loop (off + 3) arr blocks
   }"

definition Packed16ThreeBlocks_SetBulk :: "Packed16ThreeBlocks \<Rightarrow> nat \<Rightarrow> u64 list \<Rightarrow> (int \<times> Packed16ThreeBlocks) option" where
  "Packed16ThreeBlocks_SetBulk p index arr =
     (let sets = min (int (p16_valueCount p) - int index) (int (length arr)) in
      map_option (\<lambda>bs. (sets, p\<lparr>p16_blocks := bs\<rparr>))
        (Packed16ThreeBlocks_SetBulk_loop (index * 3) (take (nat sets) arr) (p16_blocks p)))"

primrec Packed16ThreeBlocks_Fill_loop :: "nat \<Rightarrow> nat \<Rightarrow> u64 \<Rightarrow> u16 list \<Rightarrow> u16 list option" where
  "Packed16ThreeBlocks_Fill_loop i 0 value blocks = Some blocks"
| "Packed16ThreeBlocks_Fill_loop i (Suc n) value blocks = do {
     blocks \<leftarrow> Packed16ThreeBlocks_write blocks i value;
     Packed16ThreeBlocks_Fill_loop (i + 3) n value blocks
   }"

definition Packed16ThreeBlocks_Fill :: "Packed16ThreeBlocks \<Rightarrow> nat \<Rightarrow> nat \<Rightarrow> u64 \<Rightarrow> Packed16ThreeBlocks option" where
  "Packed16ThreeBlocks_Fill p fromIndex toIndex value =
     map_option (\<lambda>bs. p\<lparr>p16_blocks := bs\<rparr>)
       (Packed16ThreeBlocks_Fill_loop (fromIndex * 3) (toIndex - fromIndex) value (p16_blocks p))"

definition Packed16ThreeBlocks_Clear :: "Packed16ThreeBlocks \<Rightarrow> Packed16ThreeBlocks" where
  "Packed16ThreeBlocks_Clear p = p\<lparr>p16_blocks := replicate (length (p16_blocks p)) 0\<rparr>"

subsection \<open>Values that do not span blocks\<close>

record Packed64SingleBlock =
  sb_valueCount :: nat
  sb_bitsPerValue :: nat
  sb_blocks :: "u64 list"

text \<open>
  The cases of \<open>Get\<close> and \<open>Set\<close>: the number of values in a block (a division or a shift of the
  index), the factor of the shift, and the mask.
\<close>

definition single_block_case :: "nat \<Rightarrow> (nat \<times> nat \<times> u64) option" where
  "single_block_case bitsPerValue =
    (if bitsPerValue = 1 then Some (64, 1, 1)
     else if bitsPerValue = 2 then Some (32, 2, 3)
     else if bitsPerValue = 3 then Some (21, 3, 7)
     else if bitsPerValue = 4 then Some (16, 4, 15)
     else if bitsPerValue = 5 then Some (12, 5, 31)
     else if bitsPerValue = 6 then Some (10, 6, 63)
     else if bitsPerValue = 7 then Some (9, 7, 127)
     else if bitsPerValue = 8 then Some (8, 8, 255)
     else if bitsPerValue = 9 then Some (7, 9, 511)
     else if bitsPerValue = 10 then Some (6, 10, 1023)
     else if bitsPerValue = 12 then Some (5, 12, 4095)
     else if bitsPerValue = 16 then Some (4, 16, 65535)
     else if bitsPerValue = 21 then Some (3, 21, 2097151)
     else if bitsPerValue = 32 then Some (2, 32, 4294967295)
     else None)"

definition isSupported :: "nat \<Rightarrow> bool" where
  "isSupported bitsPerValue \<longleftrightarrow> bitsPerValue \<in> {1, 2, 3, 4, 5, 6, 7, 8, 9, 10, 12, 16, 21, 32}"

definition requiredCapacity :: "nat \<Rightarrow> nat \<Rightarrow> nat" where
  "requiredCapacity valueCount valuesPerBlock =
     (let add = (if valueCount mod valuesPerBlock = 0 then 0 else 1) in valueCount div valuesPerBlock + add)"

definition NewPacked64SingleBlock :: "nat \<Rightarrow> nat \<Rightarrow> go_error + Packed64SingleBlock" where
  "NewPacked64SingleBlock valueCount bitsPerValue =
     (if isSupported bitsPerValue then
        let valuesPerBlock = 64 div bitsPerValue in
        Inr \<lparr>sb_valueCount = valueCount, sb_bitsPerValue = bitsPerValue,
          sb_blocks = replicate (requiredCapacity valueCount valuesPerBlock) 0\<rparr>
      else Inl (Err ''unsupported number of bits per value''))"

text \<open>Any other width: \<open>Get\<close> returns 0 and \<open>Set\<close> does nothing.\<close>

definition Packed64SingleBlock_Get :: "Packed64SingleBlock \<Rightarrow> nat \<Rightarrow> (go_error + u64) option" where
  "Packed64SingleBlock_Get p index =
     (case single_block_case (sb_bitsPerValue p) of None \<Rightarrow> Some (Inr 0)
      | Some (n, factor, m) \<Rightarrow> do {
          let o' = index div n; let b = index mod n; let shift = b * factor;
          block \<leftarrow> slice_get (sb_blocks p) o';
          Some (Inr (drop_bit shift block AND m))
        })"

definition Packed64SingleBlock_Set :: "Packed64SingleBlock \<Rightarrow> nat \<Rightarrow> u64 \<Rightarrow> Packed64SingleBlock option" where
  "Packed64SingleBlock_Set p index value =
     (case single_block_case (sb_bitsPerValue p) of None \<Rightarrow> Some p
      | Some (n, factor, m) \<Rightarrow> do {
          let o' = index div n; let b = index mod n; let shift = b * factor;
          block \<leftarrow> slice_get (sb_blocks p) o';
          blocks \<leftarrow> slice_set (sb_blocks p) o' ((block AND NOT (push_bit shift m)) OR push_bit shift value);
          Some (p\<lparr>sb_blocks := blocks\<rparr>)
        })"

definition Packed64SingleBlock_Clear :: "Packed64SingleBlock \<Rightarrow> Packed64SingleBlock" where
  "Packed64SingleBlock_Clear p = p\<lparr>sb_blocks := replicate (length (sb_blocks p)) 0\<rparr>"

text \<open>The other methods are those of \<open>mutable\<close>.\<close>

definition Packed64SingleBlock_GetBulk :: "Packed64SingleBlock \<Rightarrow> nat \<Rightarrow> u64 list \<Rightarrow> (nat \<times> u64 list) option" where
  "Packed64SingleBlock_GetBulk = mutable_GetBulk Packed64SingleBlock_Get sb_valueCount"

definition Packed64SingleBlock_SetBulk :: "Packed64SingleBlock \<Rightarrow> nat \<Rightarrow> u64 list \<Rightarrow> (nat \<times> Packed64SingleBlock) option" where
  "Packed64SingleBlock_SetBulk = mutable_SetBulk Packed64SingleBlock_Set sb_valueCount"

definition Packed64SingleBlock_Fill :: "Packed64SingleBlock \<Rightarrow> nat \<Rightarrow> nat \<Rightarrow> u64 \<Rightarrow> Packed64SingleBlock option" where
  "Packed64SingleBlock_Fill = mutable_Fill Packed64SingleBlock_Set"


subsection \<open>Bulk access\<close>

text \<open>
  A bulk read inside of the array delivers a non-empty prefix; a bulk write of the arrays of this
  theory stores all of the values.
\<close>

locale bulk_reader = packed_array +
  fixes get_bulk :: "'a \<Rightarrow> nat \<Rightarrow> u64 list \<Rightarrow> (int \<times> u64 list) option"
  assumes get_bulk_prefix: "inv s \<Longrightarrow> i + length arr \<le> len s \<Longrightarrow>
      \<exists>k arr'. get_bulk s i arr = Some (int k, arr') \<and> k \<le> length arr \<and> (arr \<noteq> [] \<longrightarrow> 0 < k) \<and>
        length arr' = length arr \<and> take k arr' = take k (drop i (contents s))"

locale bulk_writer = packed_array +
  fixes set_bulk :: "'a \<Rightarrow> nat \<Rightarrow> u64 list \<Rightarrow> (int \<times> 'a) option"
  assumes set_bulk_all: "inv s \<Longrightarrow> i + length vs \<le> len s \<Longrightarrow> fits_width (width s) vs \<Longrightarrow>
      \<exists>s'. set_bulk s i vs = Some (int (length vs), s') \<and> inv s' \<and> len s' = len s \<and> width s' = width s \<and>
        contents s' = write_block (contents s) i vs"

context packed_array
begin

lemma mutable_get_bulk_reader:
  "inv s \<Longrightarrow> i + length arr \<le> len s \<Longrightarrow>
    \<exists>k arr'. map_option (\<lambda>(n, a). (int n, a)) (mutable_GetBulk get len s i arr) = Some (int k, arr') \<and>
      k \<le> length arr \<and> (arr \<noteq> [] \<longrightarrow> 0 < k) \<and> length arr' = length arr \<and>
      take k arr' = take k (drop i (contents s))"
  by (cases arr) (auto simp: get_bulk_contents write_block_def min_def)

lemma mutable_set_bulk_writer:
  "inv s \<Longrightarrow> i + length vs \<le> len s \<Longrightarrow> fits_width (width s) vs \<Longrightarrow>
    \<exists>s'. map_option (\<lambda>(n, a). (int n, a)) (mutable_SetBulk put len s i vs) = Some (int (length vs), s') \<and>
      inv s' \<and> len s' = len s \<and> width s' = width s \<and> contents s' = write_block (contents s) i vs"
  using set_bulk_contents [of s i vs] by (auto simp: min_def)

end

lemma fits_64 [simp]: "fits 64 v"
  by (simp add: fits_def take_bit_word_eq_self)

subsection \<open>Direct arrays\<close>

definition direct_inv :: "'a::len word Direct \<Rightarrow> bool" where
  "direct_inv d \<longleftrightarrow> length (d_values d) = d_valueCount d"

lemma fits_ucast: "fits LENGTH('a) (ucast (v :: 'a::len word))"
  unfolding fits_def
  by (rule bit_word_eqI) (auto simp: bit_take_bit_iff bit_ucast_iff dest: bit_imp_le_length)

lemma ucast_ucast_fits: "fits LENGTH('a) v \<Longrightarrow> ucast (ucast v :: 'a::len word) = v"
  unfolding fits_def
  by (rule bit_word_eqI) (metis bit_take_bit_iff bit_ucast_iff)

interpretation direct: packed_array
  Direct_Get Direct_Set d_valueCount "\<lambda>_ :: 'a::len word Direct. LENGTH('a)" direct_inv
  by unfold_locales
    (auto simp: Direct_Get_def Direct_Set_def direct_inv_def fits_ucast ucast_ucast_fits slice_get_def slice_set_def)

lemma direct_contents: "direct_inv d \<Longrightarrow> direct.contents d = map ucast (d_values d)"
  by (intro nth_equalityI) (auto simp: direct_inv_def direct.contents_def Direct_Get_def slice_get_def)

lemma Direct_GetBulk_loop_eq:
  "index + i + n \<le> length vs \<Longrightarrow> i + n \<le> length arr \<Longrightarrow>
    Direct_GetBulk_loop vs index n i arr = Some (write_block arr i (map ucast (take n (drop (index + i) vs))))"
proof (induction n arbitrary: i arr)
  case (Suc n)
  have "take (Suc n) (drop (index + i) vs) = vs ! (index + i) # take n (drop (Suc (index + i)) vs)"
    using Suc.prems by (simp add: Cons_nth_drop_Suc [symmetric])
  then show ?case
    using Suc.IH [of "i + 1" "arr[i := ucast (vs ! (index + i))]"] Suc.prems
    by (simp add: slice_get_def slice_set_def write_block_Cons)
qed simp

lemma Direct_SetBulk_loop_eq:
  "index + length arr \<le> length vs \<Longrightarrow>
    Direct_SetBulk_loop index arr vs = Some (write_block vs index (map ucast arr))"
  by (induction arr arbitrary: index vs) (simp_all add: slice_set_def write_block_Cons)

lemma map_write_block: "map f (write_block xs i ys) = write_block (map f xs) i (map f ys)"
  by (simp add: write_block_def take_map drop_map)

interpretation direct_reader: bulk_reader
  Direct_Get Direct_Set d_valueCount "\<lambda>_ :: 'a::len word Direct. LENGTH('a)" direct_inv Direct_GetBulk
proof unfold_locales
  fix d :: "'a word Direct" and i and arr :: "u64 list"
  assume a: "direct_inv d" "i + length arr \<le> d_valueCount d"
  then have "Direct_GetBulk d i arr =
      Some (int (length arr), write_block arr 0 (map ucast (take (length arr) (drop i (d_values d)))))"
    using Direct_GetBulk_loop_eq [of i 0 "length arr" "d_values d" arr]
    by (simp add: Direct_GetBulk_def direct_inv_def min_def)
  then show "\<exists>k arr'. Direct_GetBulk d i arr = Some (int k, arr') \<and> k \<le> length arr \<and> (arr \<noteq> [] \<longrightarrow> 0 < k) \<and>
      length arr' = length arr \<and> take k arr' = take k (drop i (direct.contents d))"
    using a by (simp add: direct_contents write_block_def direct_inv_def take_map drop_map)
qed

interpretation direct_writer: bulk_writer
  Direct_Get Direct_Set d_valueCount "\<lambda>_ :: 'a::len word Direct. LENGTH('a)" direct_inv Direct_SetBulk
proof unfold_locales
  fix d :: "'a word Direct" and i vs
  assume a: "direct_inv d" "i + length vs \<le> d_valueCount d" "fits_width LENGTH('a) vs"
  define d' where "d' = d\<lparr>d_values := write_block (d_values d) i (map ucast vs)\<rparr>"
  have "Direct_SetBulk d i vs = Some (int (length vs), d')"
    using a Direct_SetBulk_loop_eq [of i vs "d_values d"]
    by (simp add: Direct_SetBulk_def direct_inv_def min_def d'_def)
  moreover have "direct_inv d'"
    using a by (simp add: direct_inv_def d'_def)
  moreover have "map (ucast \<circ> (ucast :: u64 \<Rightarrow> 'a word)) vs = vs"
    using a(3) by (intro map_idI) (simp add: fits_width_iff ucast_ucast_fits)
  ultimately show "\<exists>s'. Direct_SetBulk d i vs = Some (int (length vs), s') \<and> direct_inv s' \<and>
      d_valueCount s' = d_valueCount d \<and> LENGTH('a) = LENGTH('a) \<and>
      direct.contents s' = write_block (direct.contents d) i vs"
    using a by (simp add: direct_contents map_write_block) (simp add: d'_def map_write_block)
qed

lemma NewDirect_inv: "direct_inv (NewDirect n :: 'a::len word Direct) \<and>
    d_valueCount (NewDirect n :: 'a word Direct) = n \<and>
    direct.contents (NewDirect n :: 'a word Direct) = replicate n 0"
proof -
  have "direct_inv (NewDirect n :: 'a word Direct)"
    by (simp add: NewDirect_def direct_inv_def)
  then show ?thesis
    by (simp add: direct_contents) (simp add: NewDirect_def)
qed

subsection \<open>Arrays of three elements per value\<close>

text \<open>Three consecutive elements, as the three parts of the value.\<close>

lemma three_parts:
  fixes v :: u64
  assumes "fits (3 * LENGTH('a)) v"
  shows "push_bit (2 * LENGTH('a)) (ucast (ucast (drop_bit (2 * LENGTH('a)) v) :: 'a::len word)) OR
      push_bit LENGTH('a) (ucast (ucast (drop_bit LENGTH('a) v) :: 'a word)) OR ucast (ucast v :: 'a word) = v" (is "?l = v")
proof (rule bit_word_eqI)
  fix j
  assume "j < LENGTH(64)"
  have hi: "bit v j \<Longrightarrow> j < 3 * LENGTH('a)"
    using assms unfolding fits_def by (metis bit_take_bit_iff)
  consider "j < LENGTH('a)" | "LENGTH('a) \<le> j" "j < 2 * LENGTH('a)" | "2 * LENGTH('a) \<le> j"
    by linarith
  then show "bit ?l j = bit v j"
    using hi \<open>j < LENGTH(64)\<close>
    by cases (auto simp: bit_or_iff bit_push_bit_iff bit_ucast_iff bit_drop_bit_eq)
qed

definition p8_inv :: "Packed8ThreeBlocks \<Rightarrow> bool" where
  "p8_inv p \<longleftrightarrow> length (p8_blocks p) = p8_valueCount p * 3"

definition p8_value :: "u8 list \<Rightarrow> nat \<Rightarrow> u64" where
  "p8_value bs i = push_bit 16 (ucast (bs ! (i * 3))) OR push_bit 8 (ucast (bs ! (i * 3 + 1))) OR ucast (bs ! (i * 3 + 2))"

lemma p8_read_eq: "i * 3 + 3 \<le> length bs \<Longrightarrow> Packed8ThreeBlocks_read bs (i * 3) = Some (p8_value bs i)"
  by (simp add: Packed8ThreeBlocks_read_def slice_get_def p8_value_def)

lemma p8_value_fits: "fits 24 (p8_value bs i)"
  unfolding fits_def p8_value_def
proof (rule bit_word_eqI)
  fix n
  show "bit (take_bit 24 ((push_bit 16 (ucast (bs ! (i * 3))) OR push_bit 8 (ucast (bs ! (i * 3 + 1))) OR ucast (bs ! (i * 3 + 2))) :: u64)) n =
      bit ((push_bit 16 (ucast (bs ! (i * 3))) OR push_bit 8 (ucast (bs ! (i * 3 + 1))) OR ucast (bs ! (i * 3 + 2))) :: u64) n"
    using bit_imp_le_length [of "bs ! (i * 3)" "n - 16"] bit_imp_le_length [of "bs ! (i * 3 + 1)" "n - 8"]
      bit_imp_le_length [of "bs ! (i * 3 + 2)" n]
    by (auto simp: bit_take_bit_iff bit_or_iff bit_push_bit_iff bit_ucast_iff)
qed

lemma p8_write_eq:
  assumes "i * 3 + 3 \<le> length bs"
  shows "\<exists>bs'. Packed8ThreeBlocks_write bs (i * 3) v = Some bs' \<and> length bs' = length bs \<and>
    (\<forall>j. j * 3 + 3 \<le> length bs \<longrightarrow> fits 24 v \<longrightarrow> p8_value bs' j = (if j = i then v else p8_value bs j))"
proof -
  define bs' where "bs' = bs[i * 3 := ucast (drop_bit 16 v), i * 3 + 1 := ucast (drop_bit 8 v), i * 3 + 2 := ucast v]"
  have "p8_value bs' j = (if j = i then v else p8_value bs j)" if "j * 3 + 3 \<le> length bs" "fits 24 v" for j
  proof (cases "j = i")
    case True
    then show ?thesis
      using assms that three_parts [where 'a = 8, of v] by (simp add: p8_value_def bs'_def nth_list_update)
  next
    case False
    then have "j * 3 + 2 < i * 3 \<or> i * 3 + 2 < j * 3"
      by linarith
    then show ?thesis
      using False that by (auto simp: p8_value_def bs'_def nth_list_update)
  qed
  moreover have "Packed8ThreeBlocks_write bs (i * 3) v = Some bs'"
    using assms by (simp add: Packed8ThreeBlocks_write_def slice_set_def bs'_def)
  ultimately show ?thesis
    by (intro exI [of _ bs'] conjI) (simp_all add: bs'_def)
qed

interpretation p8: packed_array Packed8ThreeBlocks_Get Packed8ThreeBlocks_Set p8_valueCount "\<lambda>_. 24" p8_inv
proof unfold_locales
  fix s i
  assume a: "p8_inv s" "i < p8_valueCount s"
  then show "\<exists>v. Packed8ThreeBlocks_Get s i = Some (Inr v) \<and> fits 24 v"
    using p8_read_eq [of i "p8_blocks s"] p8_value_fits by (simp add: Packed8ThreeBlocks_Get_def p8_inv_def)
  fix v
  assume v: "fits 24 v"
  obtain bs' where bs': "Packed8ThreeBlocks_write (p8_blocks s) (i * 3) v = Some bs'" "length bs' = length (p8_blocks s)"
    "\<And>j. j * 3 + 3 \<le> length (p8_blocks s) \<Longrightarrow> p8_value bs' j = (if j = i then v else p8_value (p8_blocks s) j)"
    using p8_write_eq [of i "p8_blocks s" v] a v by (auto simp: p8_inv_def)
  then show "\<exists>s'. Packed8ThreeBlocks_Set s i v = Some s' \<and> p8_inv s' \<and> p8_valueCount s' = p8_valueCount s \<and> 24 = 24 \<and>
      (\<forall>j < p8_valueCount s. Packed8ThreeBlocks_Get s' j = (if j = i then Some (Inr v) else Packed8ThreeBlocks_Get s j))"
    using a by (intro exI [of _ "s\<lparr>p8_blocks := bs'\<rparr>"])
      (auto simp: Packed8ThreeBlocks_Set_def Packed8ThreeBlocks_Get_def p8_inv_def p8_read_eq)
qed

lemma p8_contents: "p8_inv p \<Longrightarrow> p8.contents p = map (p8_value (p8_blocks p)) [0..<p8_valueCount p]"
  by (intro nth_equalityI) (auto simp: p8.contents_def Packed8ThreeBlocks_Get_def p8_inv_def p8_read_eq)

lemma Packed8ThreeBlocks_GetBulk_loop_eq:
  "(i + n) * 3 \<le> length bs \<Longrightarrow> off + n \<le> length arr \<Longrightarrow>
    Packed8ThreeBlocks_GetBulk_loop bs (i * 3) off n arr = Some (write_block arr off (map (p8_value bs) [i..<i + n]))"
proof (induction n arbitrary: i off arr)
  case (Suc n)
  have "Packed8ThreeBlocks_GetBulk_loop bs (Suc i * 3) (off + 1) n (arr[off := p8_value bs i]) =
      Some (write_block (arr[off := p8_value bs i]) (off + 1) (map (p8_value bs) [Suc i..<Suc i + n]))"
    using Suc.prems by (intro Suc.IH) simp_all
  moreover have "[i..<i + Suc n] = i # [Suc i..<Suc i + n]"
    by (simp add: upt_conv_Cons)
  ultimately show ?case
    using Suc.prems by (simp add: p8_read_eq slice_set_def write_block_Cons add.commute)
qed simp

lemma Packed8ThreeBlocks_SetBulk_loop_eq:
  assumes "(i + length vs) * 3 \<le> length bs" and "fits_width 24 vs"
  shows "\<exists>bs'. Packed8ThreeBlocks_SetBulk_loop (i * 3) vs bs = Some bs' \<and> length bs' = length bs \<and>
    (\<forall>j. j * 3 + 3 \<le> length bs \<longrightarrow>
      p8_value bs' j = (if i \<le> j \<and> j < i + length vs then vs ! (j - i) else p8_value bs j))"
  using assms
proof (induction vs arbitrary: i bs)
  case (Cons v vs)
  obtain bs1 where bs1: "Packed8ThreeBlocks_write bs (i * 3) v = Some bs1" "length bs1 = length bs"
    "\<And>j. j * 3 + 3 \<le> length bs \<Longrightarrow> p8_value bs1 j = (if j = i then v else p8_value bs j)"
    using p8_write_eq [of i bs v] Cons.prems by (auto simp: fits_width_iff)
  obtain bs2 where "Packed8ThreeBlocks_SetBulk_loop (Suc i * 3) vs bs1 = Some bs2" "length bs2 = length bs1"
    "\<And>j. j * 3 + 3 \<le> length bs1 \<Longrightarrow>
      p8_value bs2 j = (if Suc i \<le> j \<and> j < Suc i + length vs then vs ! (j - Suc i) else p8_value bs1 j)"
    using Cons.IH [of "Suc i" bs1] Cons.prems bs1(2) by (auto simp: fits_width_iff)
  then show ?case
    using bs1 by (intro exI [of _ bs2]) (auto simp: nth_Cons' add.commute)
qed auto

interpretation p8_reader: bulk_reader Packed8ThreeBlocks_Get Packed8ThreeBlocks_Set p8_valueCount "\<lambda>_. 24" p8_inv Packed8ThreeBlocks_GetBulk
proof unfold_locales
  fix s i and arr :: "u64 list"
  assume a: "p8_inv s" "i + length arr \<le> p8_valueCount s"
  then have "Packed8ThreeBlocks_GetBulk s i arr =
      Some (int (length arr), write_block arr 0 (map (p8_value (p8_blocks s)) [i..<i + length arr]))"
    using Packed8ThreeBlocks_GetBulk_loop_eq [of i "length arr" "p8_blocks s" 0 arr]
    by (simp add: Packed8ThreeBlocks_GetBulk_def p8_inv_def min_absorb2)
  moreover have "take (length arr) (drop i (p8.contents s)) = map (p8_value (p8_blocks s)) [i..<i + length arr]"
    using a by (intro nth_equalityI) (auto simp: p8_contents)
  ultimately show "\<exists>k arr'. Packed8ThreeBlocks_GetBulk s i arr = Some (int k, arr') \<and> k \<le> length arr \<and> (arr \<noteq> [] \<longrightarrow> 0 < k) \<and>
      length arr' = length arr \<and> take k arr' = take k (drop i (p8.contents s))"
    by (simp add: write_block_def)
qed

interpretation p8_writer: bulk_writer Packed8ThreeBlocks_Get Packed8ThreeBlocks_Set p8_valueCount "\<lambda>_. 24" p8_inv Packed8ThreeBlocks_SetBulk
proof unfold_locales
  fix s i vs
  assume a: "p8_inv s" "i + length vs \<le> p8_valueCount s" "fits_width 24 vs"
  obtain bs' where bs': "Packed8ThreeBlocks_SetBulk_loop (i * 3) vs (p8_blocks s) = Some bs'" "length bs' = length (p8_blocks s)"
    "\<And>j. j * 3 + 3 \<le> length (p8_blocks s) \<Longrightarrow>
      p8_value bs' j = (if i \<le> j \<and> j < i + length vs then vs ! (j - i) else p8_value (p8_blocks s) j)"
    using Packed8ThreeBlocks_SetBulk_loop_eq [of i vs "p8_blocks s"] a by (auto simp: p8_inv_def)
  define s' where "s' = s\<lparr>p8_blocks := bs'\<rparr>"
  have s': "p8_inv s'" "p8_valueCount s' = p8_valueCount s" "p8_blocks s' = bs'"
    using a bs'(2) by (simp_all add: s'_def p8_inv_def)
  have "p8.contents s' = write_block (p8.contents s) i vs"
    using a bs'(3) s' by (intro nth_equalityI) (auto simp: p8_contents nth_write_block p8_inv_def)
  moreover have "Packed8ThreeBlocks_SetBulk s i vs = Some (int (length vs), s')"
    using a bs'(1) by (simp add: Packed8ThreeBlocks_SetBulk_def min_def s'_def)
  ultimately show "\<exists>s'. Packed8ThreeBlocks_SetBulk s i vs = Some (int (length vs), s') \<and> p8_inv s' \<and>
      p8_valueCount s' = p8_valueCount s \<and> 24 = 24 \<and> p8.contents s' = write_block (p8.contents s) i vs"
    using s' by blast
qed

lemma NewPacked8ThreeBlocks_inv: "p8_inv (NewPacked8ThreeBlocks n) \<and> p8_valueCount (NewPacked8ThreeBlocks n) = n \<and>
    p8.contents (NewPacked8ThreeBlocks n) = replicate n 0"
proof -
  have "p8_inv (NewPacked8ThreeBlocks n)"
    by (simp add: NewPacked8ThreeBlocks_def p8_inv_def)
  then show ?thesis
    by (auto simp: p8_contents intro!: nth_equalityI) (simp_all add: NewPacked8ThreeBlocks_def p8_value_def)
qed

definition p16_inv :: "Packed16ThreeBlocks \<Rightarrow> bool" where
  "p16_inv p \<longleftrightarrow> length (p16_blocks p) = p16_valueCount p * 3"

definition p16_value :: "u16 list \<Rightarrow> nat \<Rightarrow> u64" where
  "p16_value bs i = push_bit 32 (ucast (bs ! (i * 3))) OR push_bit 16 (ucast (bs ! (i * 3 + 1))) OR ucast (bs ! (i * 3 + 2))"

lemma p16_read_eq: "i * 3 + 3 \<le> length bs \<Longrightarrow> Packed16ThreeBlocks_read bs (i * 3) = Some (p16_value bs i)"
  by (simp add: Packed16ThreeBlocks_read_def slice_get_def p16_value_def)

lemma p16_value_fits: "fits 48 (p16_value bs i)"
  unfolding fits_def p16_value_def
proof (rule bit_word_eqI)
  fix n
  show "bit (take_bit 48 ((push_bit 32 (ucast (bs ! (i * 3))) OR push_bit 16 (ucast (bs ! (i * 3 + 1))) OR ucast (bs ! (i * 3 + 2))) :: u64)) n =
      bit ((push_bit 32 (ucast (bs ! (i * 3))) OR push_bit 16 (ucast (bs ! (i * 3 + 1))) OR ucast (bs ! (i * 3 + 2))) :: u64) n"
    using bit_imp_le_length [of "bs ! (i * 3)" "n - 32"] bit_imp_le_length [of "bs ! (i * 3 + 1)" "n - 16"]
      bit_imp_le_length [of "bs ! (i * 3 + 2)" n]
    by (auto simp: bit_take_bit_iff bit_or_iff bit_push_bit_iff bit_ucast_iff)
qed

lemma p16_write_eq:
  assumes "i * 3 + 3 \<le> length bs"
  shows "\<exists>bs'. Packed16ThreeBlocks_write bs (i * 3) v = Some bs' \<and> length bs' = length bs \<and>
    (\<forall>j. j * 3 + 3 \<le> length bs \<longrightarrow> fits 48 v \<longrightarrow> p16_value bs' j = (if j = i then v else p16_value bs j))"
proof -
  define bs' where "bs' = bs[i * 3 := ucast (drop_bit 32 v), i * 3 + 1 := ucast (drop_bit 16 v), i * 3 + 2 := ucast v]"
  have "p16_value bs' j = (if j = i then v else p16_value bs j)" if "j * 3 + 3 \<le> length bs" "fits 48 v" for j
  proof (cases "j = i")
    case True
    then show ?thesis
      using assms that three_parts [where 'a = 16, of v] by (simp add: p16_value_def bs'_def nth_list_update)
  next
    case False
    then have "j * 3 + 2 < i * 3 \<or> i * 3 + 2 < j * 3"
      by linarith
    then show ?thesis
      using False that by (auto simp: p16_value_def bs'_def nth_list_update)
  qed
  moreover have "Packed16ThreeBlocks_write bs (i * 3) v = Some bs'"
    using assms by (simp add: Packed16ThreeBlocks_write_def slice_set_def bs'_def)
  ultimately show ?thesis
    by (intro exI [of _ bs'] conjI) (simp_all add: bs'_def)
qed

interpretation p16: packed_array Packed16ThreeBlocks_Get Packed16ThreeBlocks_Set p16_valueCount "\<lambda>_. 48" p16_inv
proof unfold_locales
  fix s i
  assume a: "p16_inv s" "i < p16_valueCount s"
  then show "\<exists>v. Packed16ThreeBlocks_Get s i = Some (Inr v) \<and> fits 48 v"
    using p16_read_eq [of i "p16_blocks s"] p16_value_fits by (simp add: Packed16ThreeBlocks_Get_def p16_inv_def)
  fix v
  assume v: "fits 48 v"
  obtain bs' where bs': "Packed16ThreeBlocks_write (p16_blocks s) (i * 3) v = Some bs'" "length bs' = length (p16_blocks s)"
    "\<And>j. j * 3 + 3 \<le> length (p16_blocks s) \<Longrightarrow> p16_value bs' j = (if j = i then v else p16_value (p16_blocks s) j)"
    using p16_write_eq [of i "p16_blocks s" v] a v by (auto simp: p16_inv_def)
  then show "\<exists>s'. Packed16ThreeBlocks_Set s i v = Some s' \<and> p16_inv s' \<and> p16_valueCount s' = p16_valueCount s \<and> 48 = 48 \<and>
      (\<forall>j < p16_valueCount s. Packed16ThreeBlocks_Get s' j = (if j = i then Some (Inr v) else Packed16ThreeBlocks_Get s j))"
    using a by (intro exI [of _ "s\<lparr>p16_blocks := bs'\<rparr>"])
      (auto simp: Packed16ThreeBlocks_Set_def Packed16ThreeBlocks_Get_def p16_inv_def p16_read_eq)
qed

lemma p16_contents: "p16_inv p \<Longrightarrow> p16.contents p = map (p16_value (p16_blocks p)) [0..<p16_valueCount p]"
  by (intro nth_equalityI) (auto simp: p16.contents_def Packed16ThreeBlocks_Get_def p16_inv_def p16_read_eq)

lemma Packed16ThreeBlocks_GetBulk_loop_eq:
  "(i + n) * 3 \<le> length bs \<Longrightarrow> off + n \<le> length arr \<Longrightarrow>
    Packed16ThreeBlocks_GetBulk_loop bs (i * 3) off n arr = Some (write_block arr off (map (p16_value bs) [i..<i + n]))"
proof (induction n arbitrary: i off arr)
  case (Suc n)
  have "Packed16ThreeBlocks_GetBulk_loop bs (Suc i * 3) (off + 1) n (arr[off := p16_value bs i]) =
      Some (write_block (arr[off := p16_value bs i]) (off + 1) (map (p16_value bs) [Suc i..<Suc i + n]))"
    using Suc.prems by (intro Suc.IH) simp_all
  moreover have "[i..<i + Suc n] = i # [Suc i..<Suc i + n]"
    by (simp add: upt_conv_Cons)
  ultimately show ?case
    using Suc.prems by (simp add: p16_read_eq slice_set_def write_block_Cons add.commute)
qed simp

lemma Packed16ThreeBlocks_SetBulk_loop_eq:
  assumes "(i + length vs) * 3 \<le> length bs" and "fits_width 48 vs"
  shows "\<exists>bs'. Packed16ThreeBlocks_SetBulk_loop (i * 3) vs bs = Some bs' \<and> length bs' = length bs \<and>
    (\<forall>j. j * 3 + 3 \<le> length bs \<longrightarrow>
      p16_value bs' j = (if i \<le> j \<and> j < i + length vs then vs ! (j - i) else p16_value bs j))"
  using assms
proof (induction vs arbitrary: i bs)
  case (Cons v vs)
  obtain bs1 where bs1: "Packed16ThreeBlocks_write bs (i * 3) v = Some bs1" "length bs1 = length bs"
    "\<And>j. j * 3 + 3 \<le> length bs \<Longrightarrow> p16_value bs1 j = (if j = i then v else p16_value bs j)"
    using p16_write_eq [of i bs v] Cons.prems by (auto simp: fits_width_iff)
  obtain bs2 where "Packed16ThreeBlocks_SetBulk_loop (Suc i * 3) vs bs1 = Some bs2" "length bs2 = length bs1"
    "\<And>j. j * 3 + 3 \<le> length bs1 \<Longrightarrow>
      p16_value bs2 j = (if Suc i \<le> j \<and> j < Suc i + length vs then vs ! (j - Suc i) else p16_value bs1 j)"
    using Cons.IH [of "Suc i" bs1] Cons.prems bs1(2) by (auto simp: fits_width_iff)
  then show ?case
    using bs1 by (intro exI [of _ bs2]) (auto simp: nth_Cons' add.commute)
qed auto

interpretation p16_reader: bulk_reader Packed16ThreeBlocks_Get Packed16ThreeBlocks_Set p16_valueCount "\<lambda>_. 48" p16_inv Packed16ThreeBlocks_GetBulk
proof unfold_locales
  fix s i and arr :: "u64 list"
  assume a: "p16_inv s" "i + length arr \<le> p16_valueCount s"
  then have "Packed16ThreeBlocks_GetBulk s i arr =
      Some (int (length arr), write_block arr 0 (map (p16_value (p16_blocks s)) [i..<i + length arr]))"
    using Packed16ThreeBlocks_GetBulk_loop_eq [of i "length arr" "p16_blocks s" 0 arr]
    by (simp add: Packed16ThreeBlocks_GetBulk_def p16_inv_def min_absorb2)
  moreover have "take (length arr) (drop i (p16.contents s)) = map (p16_value (p16_blocks s)) [i..<i + length arr]"
    using a by (intro nth_equalityI) (auto simp: p16_contents)
  ultimately show "\<exists>k arr'. Packed16ThreeBlocks_GetBulk s i arr = Some (int k, arr') \<and> k \<le> length arr \<and> (arr \<noteq> [] \<longrightarrow> 0 < k) \<and>
      length arr' = length arr \<and> take k arr' = take k (drop i (p16.contents s))"
    by (simp add: write_block_def)
qed

interpretation p16_writer: bulk_writer Packed16ThreeBlocks_Get Packed16ThreeBlocks_Set p16_valueCount "\<lambda>_. 48" p16_inv Packed16ThreeBlocks_SetBulk
proof unfold_locales
  fix s i vs
  assume a: "p16_inv s" "i + length vs \<le> p16_valueCount s" "fits_width 48 vs"
  obtain bs' where bs': "Packed16ThreeBlocks_SetBulk_loop (i * 3) vs (p16_blocks s) = Some bs'" "length bs' = length (p16_blocks s)"
    "\<And>j. j * 3 + 3 \<le> length (p16_blocks s) \<Longrightarrow>
      p16_value bs' j = (if i \<le> j \<and> j < i + length vs then vs ! (j - i) else p16_value (p16_blocks s) j)"
    using Packed16ThreeBlocks_SetBulk_loop_eq [of i vs "p16_blocks s"] a by (auto simp: p16_inv_def)
  define s' where "s' = s\<lparr>p16_blocks := bs'\<rparr>"
  have s': "p16_inv s'" "p16_valueCount s' = p16_valueCount s" "p16_blocks s' = bs'"
    using a bs'(2) by (simp_all add: s'_def p16_inv_def)
  have "p16.contents s' = write_block (p16.contents s) i vs"
    using a bs'(3) s' by (intro nth_equalityI) (auto simp: p16_contents nth_write_block p16_inv_def)
  moreover have "Packed16ThreeBlocks_SetBulk s i vs = Some (int (length vs), s')"
    using a bs'(1) by (simp add: Packed16ThreeBlocks_SetBulk_def min_def s'_def)
  ultimately show "\<exists>s'. Packed16ThreeBlocks_SetBulk s i vs = Some (int (length vs), s') \<and> p16_inv s' \<and>
      p16_valueCount s' = p16_valueCount s \<and> 48 = 48 \<and> p16.contents s' = write_block (p16.contents s) i vs"
    using s' by blast
qed

lemma NewPacked16ThreeBlocks_inv: "p16_inv (NewPacked16ThreeBlocks n) \<and> p16_valueCount (NewPacked16ThreeBlocks n) = n \<and>
    p16.contents (NewPacked16ThreeBlocks n) = replicate n 0"
proof -
  have "p16_inv (NewPacked16ThreeBlocks n)"
    by (simp add: NewPacked16ThreeBlocks_def p16_inv_def)
  then show ?thesis
    by (auto simp: p16_contents intro!: nth_equalityI) (simp_all add: NewPacked16ThreeBlocks_def p16_value_def)
qed


subsection \<open>Blocks that are not spanned\<close>

lemma single_block_case_Some:
  assumes "single_block_case b = Some (n, f, m)"
  shows "n = 64 div b \<and> f = b \<and> m = mask b \<and> 0 < n \<and> n * b \<le> 64 \<and> 1 \<le> b \<and> b \<le> 32"
  using assms by (auto simp: single_block_case_def mask_eq_exp_minus_1 split: if_splits)

lemma isSupported_case: "isSupported b \<longleftrightarrow> single_block_case b \<noteq> None"
  by (simp add: isSupported_def single_block_case_def)

definition sb_inv :: "Packed64SingleBlock \<Rightarrow> bool" where
  "sb_inv p \<longleftrightarrow> isSupported (sb_bitsPerValue p) \<and> sb_valueCount p \<le> length (sb_blocks p) * (64 div sb_bitsPerValue p)"

text \<open>A field of a word, after another field was replaced.\<close>

lemma field_update:
  fixes w v :: u64
  assumes v: "fits b v" and s: "s + b \<le> 64" and t: "t = s \<or> t + b \<le> s \<or> s + b \<le> t"
  shows "drop_bit t ((w AND NOT (push_bit s (mask b))) OR push_bit s v) AND mask b =
    (if t = s then v else drop_bit t w AND mask b)"
proof (rule bit_word_eqI)
  fix j
  assume "j < LENGTH(64)"
  have hi: "bit v k \<Longrightarrow> k < b" for k
    using v unfolding fits_def by (metis bit_take_bit_iff)
  have r: "bit w (t + j) \<Longrightarrow> t + j < 64" "bit v j \<Longrightarrow> j < b"
    using bit_u64_less hi by blast+
  show "bit (drop_bit t ((w AND NOT (push_bit s (mask b))) OR push_bit s v) AND mask b) j =
      bit (if t = s then v else drop_bit t w AND mask b) j"
  proof (cases "t = s")
    case True
    have "bit v j \<Longrightarrow> s + j < 64"
      using s hi [of j] by simp
    then show ?thesis
      using True s hi \<open>j < LENGTH(64)\<close>
      by (auto simp: bit_and_iff bit_or_iff bit_not_iff bit_drop_bit_eq bit_push_bit_iff bit_mask_iff)
  next
    case False
    then have "j < b \<Longrightarrow> \<not> (s \<le> t + j \<and> t + j - s < b)" "j < b \<Longrightarrow> s \<le> t + j \<Longrightarrow> \<not> bit v (t + j - s)"
      using t hi [of "t + j - s"] by auto
    then show ?thesis
      using False r
      by (auto simp: bit_and_iff bit_or_iff bit_not_iff bit_drop_bit_eq bit_push_bit_iff bit_mask_iff)
  qed
qed

lemma index_fields:
  fixes n b i j :: nat
  assumes "0 < n" and "n * b \<le> 64"
  shows "(i mod n) * b + b \<le> 64"
    and "j mod n \<noteq> i mod n \<Longrightarrow> (j mod n) * b + b \<le> (i mod n) * b \<or> (i mod n) * b + b \<le> (j mod n) * b"
proof -
  have "i mod n + 1 \<le> n"
    using assms(1) by (simp add: Suc_leI)
  then have "(i mod n + 1) * b \<le> n * b"
    by (rule mult_le_mono1)
  then show "(i mod n) * b + b \<le> 64"
    using assms(2) by simp
  assume "j mod n \<noteq> i mod n"
  then have "j mod n + 1 \<le> i mod n \<or> i mod n + 1 \<le> j mod n"
    by linarith
  then have "(j mod n + 1) * b \<le> (i mod n) * b \<or> (i mod n + 1) * b \<le> (j mod n) * b"
    using mult_le_mono1 by blast
  then show "(j mod n) * b + b \<le> (i mod n) * b \<or> (i mod n) * b + b \<le> (j mod n) * b"
    by (simp add: add.commute)
qed

lemma Packed64SingleBlock_Get_eq:
  assumes "sb_inv p" and "i < sb_valueCount p"
  shows "\<exists>n b. single_block_case (sb_bitsPerValue p) = Some (n, b, mask b) \<and> b = sb_bitsPerValue p \<and> n = 64 div b \<and>
    0 < n \<and> n * b \<le> 64 \<and> i div n < length (sb_blocks p) \<and>
    Packed64SingleBlock_Get p i = Some (Inr (drop_bit ((i mod n) * b) (sb_blocks p ! (i div n)) AND mask b))"
proof -
  obtain n f m where c: "single_block_case (sb_bitsPerValue p) = Some (n, f, m)"
    using assms(1) by (auto simp: sb_inv_def isSupported_case)
  note c' = single_block_case_Some [OF c]
  have "i < length (sb_blocks p) * n"
    using assms c' by (simp add: sb_inv_def)
  then have "i div n < length (sb_blocks p)"
    using c' by (simp add: less_mult_imp_div_less)
  then show ?thesis
    using c c' by (auto simp: Packed64SingleBlock_Get_def slice_get_def)
qed

interpretation sb: packed_array
  Packed64SingleBlock_Get Packed64SingleBlock_Set sb_valueCount sb_bitsPerValue sb_inv
proof unfold_locales
  fix s i
  assume a: "sb_inv s" "i < sb_valueCount s"
  obtain n b where c: "single_block_case (sb_bitsPerValue s) = Some (n, b, mask b)" "b = sb_bitsPerValue s"
    "n = 64 div b" "0 < n" "n * b \<le> 64" "i div n < length (sb_blocks s)"
    "Packed64SingleBlock_Get s i = Some (Inr (drop_bit ((i mod n) * b) (sb_blocks s ! (i div n)) AND mask b))"
    using Packed64SingleBlock_Get_eq [OF a] by blast
  then show "\<exists>v. Packed64SingleBlock_Get s i = Some (Inr v) \<and> fits (sb_bitsPerValue s) v"
    by (simp add: fits_def and_mask_take_bit)
  fix v
  assume v: "fits (sb_bitsPerValue s) v"
  define w where "w = (sb_blocks s ! (i div n) AND NOT (push_bit ((i mod n) * b) (mask b))) OR push_bit ((i mod n) * b) v"
  define s' where "s' = s\<lparr>sb_blocks := (sb_blocks s)[i div n := w]\<rparr>"
  have s': "sb_inv s'" "sb_valueCount s' = sb_valueCount s" "sb_bitsPerValue s' = sb_bitsPerValue s"
    using a by (simp_all add: s'_def sb_inv_def)
  have set: "Packed64SingleBlock_Set s i v = Some s'"
    using c by (simp add: Packed64SingleBlock_Set_def slice_get_def slice_set_def s'_def w_def Let_def)
  have "Packed64SingleBlock_Get s' j = (if j = i then Some (Inr v) else Packed64SingleBlock_Get s j)"
    if j: "j < sb_valueCount s" for j
  proof -
    have n: "j div n < length (sb_blocks s)"
      "Packed64SingleBlock_Get s j = Some (Inr (drop_bit ((j mod n) * b) (sb_blocks s ! (j div n)) AND mask b))"
      using Packed64SingleBlock_Get_eq [OF a(1) j] c(1) by auto
    have g: "Packed64SingleBlock_Get s' j = Some (Inr (drop_bit ((j mod n) * b) (sb_blocks s' ! (j div n)) AND mask b))"
      using Packed64SingleBlock_Get_eq [of s' j] s' j c(1) by auto
    show ?thesis
    proof (cases "j div n = i div n")
      case False
      then have "j \<noteq> i" "sb_blocks s' ! (j div n) = sb_blocks s ! (j div n)"
        by (auto simp: s'_def)
      then show ?thesis
        using g n by simp
    next
      case True
      have "j mod n = i mod n \<longleftrightarrow> j = i"
        using True by (metis div_mult_mod_eq)
      moreover have "(j mod n) * b = (i mod n) * b \<longleftrightarrow> j mod n = i mod n"
        using single_block_case_Some [OF c(1)] by simp
      moreover have "drop_bit ((j mod n) * b) w AND mask b =
          (if (j mod n) * b = (i mod n) * b then v else drop_bit ((j mod n) * b) (sb_blocks s ! (i div n)) AND mask b)"
        unfolding w_def using v c(2) index_fields [OF c(4,5), of i] index_fields(2) [OF c(4,5), of j i]
        by (intro field_update) auto
      ultimately show ?thesis
        using True g n c(6) by (auto simp: s'_def)
    qed
  qed
  then show "\<exists>s'. Packed64SingleBlock_Set s i v = Some s' \<and> sb_inv s' \<and> sb_valueCount s' = sb_valueCount s \<and>
      sb_bitsPerValue s' = sb_bitsPerValue s \<and>
      (\<forall>j < sb_valueCount s. Packed64SingleBlock_Get s' j = (if j = i then Some (Inr v) else Packed64SingleBlock_Get s j))"
    using set s' by blast
qed

interpretation sb_reader: bulk_reader
  Packed64SingleBlock_Get Packed64SingleBlock_Set sb_valueCount sb_bitsPerValue sb_inv
  "\<lambda>p i arr. map_option (\<lambda>(n, a). (int n, a)) (Packed64SingleBlock_GetBulk p i arr)"
  unfolding Packed64SingleBlock_GetBulk_def by unfold_locales (rule sb.mutable_get_bulk_reader)

interpretation sb_writer: bulk_writer
  Packed64SingleBlock_Get Packed64SingleBlock_Set sb_valueCount sb_bitsPerValue sb_inv
  "\<lambda>p i arr. map_option (\<lambda>(n, a). (int n, a)) (Packed64SingleBlock_SetBulk p i arr)"
  unfolding Packed64SingleBlock_SetBulk_def by unfold_locales (rule sb.mutable_set_bulk_writer)

lemma requiredCapacity_enough: "0 < n \<Longrightarrow> v \<le> requiredCapacity v n * n"
proof -
  assume n: "0 < n"
  have "v = v div n * n + v mod n"
    by simp
  moreover have "v mod n \<le> n"
    using n by simp
  ultimately have "v \<le> n + v div n * n"
    by linarith
  then show ?thesis
    by (auto simp: requiredCapacity_def Let_def)
qed

lemma NewPacked64SingleBlock_inv:
  assumes "isSupported b"
  shows "\<exists>p. NewPacked64SingleBlock n b = Inr p \<and> sb_inv p \<and> sb_valueCount p = n \<and> sb_bitsPerValue p = b \<and>
    sb.contents p = replicate n 0"
proof -
  define p where "p = \<lparr>sb_valueCount = n, sb_bitsPerValue = b,
    sb_blocks = replicate (requiredCapacity n (64 div b)) 0\<rparr>"
  obtain k f m where "single_block_case b = Some (k, f, m)"
    using assms by (auto simp: isSupported_case)
  then have "0 < 64 div b"
    using single_block_case_Some by blast
  then have inv: "sb_inv p"
    using assms requiredCapacity_enough [of "64 div b" n] by (simp add: sb_inv_def p_def)
  have "Packed64SingleBlock_Get p i = Some (Inr 0)" if "i < n" for i
  proof -
    have "i < sb_valueCount p"
      using that by (simp add: p_def)
    from Packed64SingleBlock_Get_eq [OF inv this] show ?thesis
      by (auto simp: p_def)
  qed
  then have "sb.contents p = replicate n 0"
    by (intro nth_equalityI) (auto simp: sb.contents_def p_def)
  then show ?thesis
    using assms inv by (simp add: NewPacked64SingleBlock_def p_def)
qed

lemma Packed64SingleBlock_Clear_eq:
  assumes "sb_inv p"
  shows "sb_inv (Packed64SingleBlock_Clear p) \<and>
    sb.contents (Packed64SingleBlock_Clear p) = replicate (sb_valueCount p) 0"
proof -
  define q where "q = Packed64SingleBlock_Clear p"
  have inv: "sb_inv q" "sb_valueCount q = sb_valueCount p"
    using assms by (simp_all add: q_def Packed64SingleBlock_Clear_def sb_inv_def)
  have "Packed64SingleBlock_Get q i = Some (Inr 0)" if "i < sb_valueCount q" for i
    using Packed64SingleBlock_Get_eq [OF inv(1) that] by (auto simp: q_def Packed64SingleBlock_Clear_def)
  then have "sb.contents q = replicate (sb_valueCount p) 0"
    using inv by (intro nth_equalityI) (auto simp: sb.contents_def)
  then show ?thesis
    using inv by (simp add: q_def)
qed

end
