(* ===== verification/Mutables.thy ===== *)
theory Mutables
  imports Packed_Arrays Complex_Main
begin

text \<open>
  The arrays as one interface: packedints.go (choice of the implementation, copying), format.go,
  and growablewriter.go, pagedmutable.go, fixsizepagedmutable.go and pagedgrowablewriter.go on it.
\<close>

subsection \<open>Mutable\<close>

datatype Mutable =
    M_Direct8 Direct8 | M_Direct16 Direct16 | M_Direct32 Direct32 | M_Direct64 Direct64
  | M_Packed8 Packed8ThreeBlocks | M_Packed16 Packed16ThreeBlocks
  | M_Packed64 Packed64 | M_SingleBlock Packed64SingleBlock

primrec Mutable_Size :: "Mutable \<Rightarrow> nat" where
  "Mutable_Size (M_Direct8 d) = d_valueCount d"
| "Mutable_Size (M_Direct16 d) = d_valueCount d"
| "Mutable_Size (M_Direct32 d) = d_valueCount d"
| "Mutable_Size (M_Direct64 d) = d_valueCount d"
| "Mutable_Size (M_Packed8 p) = p8_valueCount p"
| "Mutable_Size (M_Packed16 p) = p16_valueCount p"
| "Mutable_Size (M_Packed64 p) = p64_valueCount p"
| "Mutable_Size (M_SingleBlock p) = sb_valueCount p"

primrec Mutable_GetBitsPerValue :: "Mutable \<Rightarrow> nat" where
  "Mutable_GetBitsPerValue (M_Direct8 d) = 8"
| "Mutable_GetBitsPerValue (M_Direct16 d) = 16"
| "Mutable_GetBitsPerValue (M_Direct32 d) = 32"
| "Mutable_GetBitsPerValue (M_Direct64 d) = 64"
| "Mutable_GetBitsPerValue (M_Packed8 p) = 24"
| "Mutable_GetBitsPerValue (M_Packed16 p) = 48"
| "Mutable_GetBitsPerValue (M_Packed64 p) = p64_bitsPerValue p"
| "Mutable_GetBitsPerValue (M_SingleBlock p) = sb_bitsPerValue p"

primrec Mutable_Get :: "Mutable \<Rightarrow> nat \<Rightarrow> (go_error + u64) option" where
  "Mutable_Get (M_Direct8 d) i = Direct8_Get d i"
| "Mutable_Get (M_Direct16 d) i = Direct16_Get d i"
| "Mutable_Get (M_Direct32 d) i = Direct32_Get d i"
| "Mutable_Get (M_Direct64 d) i = Direct64_Get d i"
| "Mutable_Get (M_Packed8 p) i = Packed8ThreeBlocks_Get p i"
| "Mutable_Get (M_Packed16 p) i = Packed16ThreeBlocks_Get p i"
| "Mutable_Get (M_Packed64 p) i = Some (Packed64_Get p i)"
| "Mutable_Get (M_SingleBlock p) i = Packed64SingleBlock_Get p i"

primrec Mutable_Set :: "Mutable \<Rightarrow> nat \<Rightarrow> u64 \<Rightarrow> Mutable option" where
  "Mutable_Set (M_Direct8 d) i v = map_option M_Direct8 (Direct8_Set d i v)"
| "Mutable_Set (M_Direct16 d) i v = map_option M_Direct16 (Direct16_Set d i v)"
| "Mutable_Set (M_Direct32 d) i v = map_option M_Direct32 (Direct32_Set d i v)"
| "Mutable_Set (M_Direct64 d) i v = map_option M_Direct64 (Direct64_Set d i v)"
| "Mutable_Set (M_Packed8 p) i v = map_option M_Packed8 (Packed8ThreeBlocks_Set p i v)"
| "Mutable_Set (M_Packed16 p) i v = map_option M_Packed16 (Packed16ThreeBlocks_Set p i v)"
| "Mutable_Set (M_Packed64 p) i v = map_option M_Packed64 (Packed64_Set p i v)"
| "Mutable_Set (M_SingleBlock p) i v = map_option M_SingleBlock (Packed64SingleBlock_Set p i v)"

primrec Mutable_GetBulk :: "Mutable \<Rightarrow> nat \<Rightarrow> u64 list \<Rightarrow> (int \<times> u64 list) option" where
  "Mutable_GetBulk (M_Direct8 d) i arr = Direct8_GetBulk d i arr"
| "Mutable_GetBulk (M_Direct16 d) i arr = Direct16_GetBulk d i arr"
| "Mutable_GetBulk (M_Direct32 d) i arr = Direct32_GetBulk d i arr"
| "Mutable_GetBulk (M_Direct64 d) i arr = Direct64_GetBulk d i arr"
| "Mutable_GetBulk (M_Packed8 p) i arr = Packed8ThreeBlocks_GetBulk p i arr"
| "Mutable_GetBulk (M_Packed16 p) i arr = Packed16ThreeBlocks_GetBulk p i arr"
| "Mutable_GetBulk (M_Packed64 p) i arr = Packed64_GetBulk p i arr"
| "Mutable_GetBulk (M_SingleBlock p) i arr =
     map_option (\<lambda>(n, arr). (int n, arr)) (Packed64SingleBlock_GetBulk p i arr)"

primrec Mutable_SetBulk :: "Mutable \<Rightarrow> nat \<Rightarrow> u64 list \<Rightarrow> (int \<times> Mutable) option" where
  "Mutable_SetBulk (M_Direct8 d) i arr = map_option (map_prod id M_Direct8) (Direct8_SetBulk d i arr)"
| "Mutable_SetBulk (M_Direct16 d) i arr = map_option (map_prod id M_Direct16) (Direct16_SetBulk d i arr)"
| "Mutable_SetBulk (M_Direct32 d) i arr = map_option (map_prod id M_Direct32) (Direct32_SetBulk d i arr)"
| "Mutable_SetBulk (M_Direct64 d) i arr = map_option (map_prod id M_Direct64) (Direct64_SetBulk d i arr)"
| "Mutable_SetBulk (M_Packed8 p) i arr = map_option (map_prod id M_Packed8) (Packed8ThreeBlocks_SetBulk p i arr)"
| "Mutable_SetBulk (M_Packed16 p) i arr = map_option (map_prod id M_Packed16) (Packed16ThreeBlocks_SetBulk p i arr)"
| "Mutable_SetBulk (M_Packed64 p) i arr = map_option (map_prod id M_Packed64) (Packed64_SetBulk p i arr)"
| "Mutable_SetBulk (M_SingleBlock p) i arr =
     map_option (\<lambda>(n, p). (int n, M_SingleBlock p)) (Packed64SingleBlock_SetBulk p i arr)"

primrec Mutable_Fill :: "Mutable \<Rightarrow> nat \<Rightarrow> nat \<Rightarrow> u64 \<Rightarrow> Mutable option" where
  "Mutable_Fill (M_Direct8 d) a b v = map_option M_Direct8 (Direct8_Fill d a b v)"
| "Mutable_Fill (M_Direct16 d) a b v = map_option M_Direct16 (Direct16_Fill d a b v)"
| "Mutable_Fill (M_Direct32 d) a b v = map_option M_Direct32 (Direct32_Fill d a b v)"
| "Mutable_Fill (M_Direct64 d) a b v = map_option M_Direct64 (Direct64_Fill d a b v)"
| "Mutable_Fill (M_Packed8 p) a b v = map_option M_Packed8 (Packed8ThreeBlocks_Fill p a b v)"
| "Mutable_Fill (M_Packed16 p) a b v = map_option M_Packed16 (Packed16ThreeBlocks_Fill p a b v)"
| "Mutable_Fill (M_Packed64 p) a b v = map_option M_Packed64 (Packed64_Fill p a b v)"
| "Mutable_Fill (M_SingleBlock p) a b v = map_option M_SingleBlock (Packed64SingleBlock_Fill p a b v)"

primrec Mutable_Clear :: "Mutable \<Rightarrow> Mutable" where
  "Mutable_Clear (M_Direct8 d) = M_Direct8 (Direct8_Clear d)"
| "Mutable_Clear (M_Direct16 d) = M_Direct16 (Direct16_Clear d)"
| "Mutable_Clear (M_Direct32 d) = M_Direct32 (Direct32_Clear d)"
| "Mutable_Clear (M_Direct64 d) = M_Direct64 (Direct64_Clear d)"
| "Mutable_Clear (M_Packed8 p) = M_Packed8 (Packed8ThreeBlocks_Clear p)"
| "Mutable_Clear (M_Packed16 p) = M_Packed16 (Packed16ThreeBlocks_Clear p)"
| "Mutable_Clear (M_Packed64 p) = M_Packed64 (Packed64_Clear p)"
| "Mutable_Clear (M_SingleBlock p) = M_SingleBlock (Packed64SingleBlock_Clear p)"

text \<open>\<open>NullReader\<close>: all values 0; the slice up to a negative size panics.\<close>

definition NullReader_Get :: "nat \<Rightarrow> nat \<Rightarrow> (go_error + u64) option" where
  "NullReader_Get valueCount index = Some (Inr 0)"

definition NullReader_GetBulk :: "nat \<Rightarrow> nat \<Rightarrow> u64 list \<Rightarrow> (int \<times> u64 list) option" where
  "NullReader_GetBulk valueCount index arr =
     (if valueCount < index then None
      else let len = min (length arr) (valueCount - index) in
        Some (int len, replicate len 0 @ drop len arr))"

subsection \<open>Formats\<close>

definition Format_GetId :: "Format \<Rightarrow> nat" where
  "Format_GetId format = (case format of FormatPacked \<Rightarrow> 0 | FormatPackedSingleBlock \<Rightarrow> 1)"

definition GetFormatById :: "nat \<Rightarrow> go_error + Format" where
  "GetFormatById n =
     (if n = 0 then Inr FormatPacked else if n = 1 then Inr FormatPackedSingleBlock
      else Inl (Err ''unknown format id''))"

text \<open>\<open>formatPackedSingleBlock\<close>: a width of 0 divides by 0; above 64 the last division does.\<close>

definition SingleBlock_LongCount :: "nat \<Rightarrow> nat \<Rightarrow> nat" where
  "SingleBlock_LongCount valueCount bitsPerValue =
     (let valuesPerBlock = 64 div bitsPerValue in (valueCount + valuesPerBlock - 1) div valuesPerBlock)"

definition SingleBlock_ByteCount :: "nat \<Rightarrow> nat \<Rightarrow> nat" where
  "SingleBlock_ByteCount valueCount bitsPerValue = 8 * SingleBlock_LongCount valueCount bitsPerValue"

definition SingleBlock_OverheadPerValue :: "nat \<Rightarrow> nat" where
  "SingleBlock_OverheadPerValue bitsPerValue =
     (let valuesPerBlock = 64 div bitsPerValue; overhead = 64 mod bitsPerValue in overhead div valuesPerBlock)"

subsection \<open>The choice of the implementation\<close>

definition MAX_SIZE :: int where
  "MAX_SIZE = (2 ^ 31 - 1) div 3"

text \<open>
  Ratios are rational numbers: the products with the number of bits are exact in \<open>float64\<close> for the
  constants of the package (0, 1/4, 1/2 and 7).
\<close>

primrec fastest_loop :: "rat \<Rightarrow> nat \<Rightarrow> nat \<Rightarrow> nat \<Rightarrow> nat option" where
  "fastest_loop perValue bitsPerValue bpv 0 = None"
| "fastest_loop perValue bitsPerValue bpv (Suc n) =
     (if isSupported bpv \<and>
         of_nat (SingleBlock_OverheadPerValue bpv) \<le> perValue + of_nat bitsPerValue - of_nat bpv
      then Some bpv else fastest_loop perValue bitsPerValue (bpv + 1) n)"

definition fastestFormatAndBits :: "int \<Rightarrow> nat \<Rightarrow> rat \<Rightarrow> Format \<times> nat" where
  "fastestFormatAndBits valueCount bitsPerValue ratio =
     (let valueCount = (if valueCount = - 1 then 2 ^ 31 - 1 else valueCount);
          ratio = min 7 (max 0 ratio);
          perValue = ratio * of_nat bitsPerValue;
          maxBitsPerValue = bitsPerValue + nat \<lfloor>perValue\<rfloor> in
      if bitsPerValue \<le> 8 \<and> 8 \<le> maxBitsPerValue then (FormatPacked, 8)
      else if bitsPerValue \<le> 16 \<and> 16 \<le> maxBitsPerValue then (FormatPacked, 16)
      else if bitsPerValue \<le> 32 \<and> 32 \<le> maxBitsPerValue then (FormatPacked, 32)
      else if bitsPerValue \<le> 64 \<and> 64 \<le> maxBitsPerValue then (FormatPacked, 64)
      else if valueCount \<le> MAX_SIZE \<and> bitsPerValue \<le> 24 \<and> 24 \<le> maxBitsPerValue then (FormatPacked, 24)
      else if valueCount \<le> MAX_SIZE \<and> bitsPerValue \<le> 48 \<and> 48 \<le> maxBitsPerValue then (FormatPacked, 48)
      else case fastest_loop perValue bitsPerValue bitsPerValue (maxBitsPerValue + 1 - bitsPerValue) of
        Some bpv \<Rightarrow> (FormatPackedSingleBlock, bpv)
      | None \<Rightarrow> (FormatPacked, bitsPerValue))"

text \<open>The inner option is nil: the constructor of single blocks fails and its error is dropped.\<close>

definition getMutable :: "nat \<Rightarrow> nat \<Rightarrow> Format \<Rightarrow> Mutable option option" where
  "getMutable valueCount bitsPerValue format =
     (case format of
        FormatPackedSingleBlock \<Rightarrow>
          (case NewPacked64SingleBlock valueCount bitsPerValue of
             Inl _ \<Rightarrow> Some None | Inr m \<Rightarrow> Some (Some (M_SingleBlock m)))
      | FormatPacked \<Rightarrow>
          if bitsPerValue = 8 then Some (Some (M_Direct8 (NewDirect8 valueCount)))
          else if bitsPerValue = 16 then Some (Some (M_Direct16 (NewDirect16 valueCount)))
          else if bitsPerValue = 32 then Some (Some (M_Direct32 (NewDirect32 valueCount)))
          else if bitsPerValue = 64 then Some (Some (M_Direct64 (NewDirect64 valueCount)))
          else if bitsPerValue = 24 \<and> int valueCount \<le> MAX_SIZE then
            Some (Some (M_Packed8 (NewPacked8ThreeBlocks valueCount)))
          else if bitsPerValue = 48 \<and> int valueCount \<le> MAX_SIZE then
            Some (Some (M_Packed16 (NewPacked16ThreeBlocks valueCount)))
          else map_option (Some \<circ> M_Packed64) (NewPacked64 valueCount bitsPerValue))"

text \<open>The format is the one chosen, the number of bits is not.\<close>

definition getMutableV1 :: "nat \<Rightarrow> nat \<Rightarrow> rat \<Rightarrow> Mutable option option" where
  "getMutableV1 valueCount bitsPerValue ratio =
     getMutable valueCount bitsPerValue (fst (fastestFormatAndBits (int valueCount) bitsPerValue ratio))"

definition DefaultGetMutable :: "nat \<Rightarrow> nat \<Rightarrow> rat \<Rightarrow> Mutable option option" where
  "DefaultGetMutable valueCount bitsPerValue ratio = getMutableV1 valueCount bitsPerValue ratio"

subsection \<open>Numbers of bits\<close>

definition MaxValue :: "nat \<Rightarrow> u64" where
  "MaxValue bitsPerValue = (if bitsPerValue = 64 then 2 ^ 63 - 1 else NOT (push_bit bitsPerValue (NOT 0)))"

text \<open>\<open>bits.LeadingZeros64\<close>\<close>

primrec leading_zeros :: "nat \<Rightarrow> u64 \<Rightarrow> nat" where
  "leading_zeros 0 v = 0"
| "leading_zeros (Suc n) v = (if bit v n then 0 else Suc (leading_zeros n v))"

definition unsignedBitsRequired :: "u64 \<Rightarrow> nat" where
  "unsignedBitsRequired v = max 1 (64 - leading_zeros 64 v)"

definition BitsRequired :: "u64 \<Rightarrow> go_error + nat" where
  "BitsRequired maxValue =
     (if sint maxValue < 0 then Inl (Err ''maxValue must be non-negative'')
      else Inr (unsignedBitsRequired maxValue))"

definition getNumBlocks :: "nat \<Rightarrow> nat \<Rightarrow> nat" where
  "getNumBlocks len blockSize = (let add = (if len mod blockSize = 0 then 0 else 1) in len div blockSize + add)"


subsection \<open>Copying\<close>

text \<open>
  The first loop of \<open>CopyValuesWithBuffer\<close>. It reads to the front of the buffer, also when values
  that were read before are still there. A loop that does not end and a panic are both
  \<^const>\<open>None\<close>; so is a negative count, which the next step cannot slice with.
\<close>

partial_function (option) copy_in ::
  "('s \<Rightarrow> nat \<Rightarrow> u64 list \<Rightarrow> (int \<times> u64 list) option) \<Rightarrow>
   ('t \<Rightarrow> nat \<Rightarrow> u64 list \<Rightarrow> (int \<times> 't) option) \<Rightarrow>
   's \<Rightarrow> nat \<Rightarrow> 't \<Rightarrow> nat \<Rightarrow> nat \<Rightarrow> nat \<Rightarrow> u64 list \<Rightarrow> ('t \<times> nat \<times> nat \<times> u64 list) option" where
  [code]: "copy_in get_bulk set_bulk src srcPos dest destPos len remaining buf =
     (if len = 0 then Some (dest, destPos, remaining, buf)
      else if length buf < remaining then None
      else let copySize = min len (length buf - remaining) in
        Option.bind (get_bulk src srcPos (take copySize buf)) (\<lambda>r.
          let read = fst r; buf = snd r @ drop copySize buf in
          if read < 0 \<or> length buf < remaining + nat read then None
          else let remaining = remaining + nat read in
            Option.bind (set_bulk dest destPos (take remaining buf)) (\<lambda>w.
              let written = nat (fst w) in
              if fst w < 0 \<or> remaining < written then None
              else
                let buf = (if written < remaining
                           then write_block buf 0 (take (remaining - written) (drop written buf)) else buf) in
                copy_in get_bulk set_bulk src (srcPos + nat read) (snd w) (destPos + written) (len - nat read)
                  (remaining - written) buf)))"

text \<open>The second loop writes what is left.\<close>

partial_function (option) copy_out ::
  "('t \<Rightarrow> nat \<Rightarrow> u64 list \<Rightarrow> (int \<times> 't) option) \<Rightarrow> 't \<Rightarrow> nat \<Rightarrow> nat \<Rightarrow> u64 list \<Rightarrow> 't option" where
  [code]: "copy_out set_bulk dest destPos remaining buf =
     (if remaining = 0 then Some dest
      else Option.bind (set_bulk dest destPos (take remaining buf)) (\<lambda>w.
        let written = nat (fst w) in
        if fst w < 0 \<or> remaining < written then None
        else copy_out set_bulk (snd w) (destPos + written) (remaining - written)
          (write_block buf 0 (take (remaining - written) (drop written buf)))))"

definition CopyValuesWithBuffer ::
  "('s \<Rightarrow> nat \<Rightarrow> u64 list \<Rightarrow> (int \<times> u64 list) option) \<Rightarrow>
   ('t \<Rightarrow> nat \<Rightarrow> u64 list \<Rightarrow> (int \<times> 't) option) \<Rightarrow>
   's \<Rightarrow> nat \<Rightarrow> 't \<Rightarrow> nat \<Rightarrow> nat \<Rightarrow> u64 list \<Rightarrow> 't option" where
  "CopyValuesWithBuffer get_bulk set_bulk src srcPos dest destPos len buf =
     Option.bind (copy_in get_bulk set_bulk src srcPos dest destPos len 0 buf)
       (\<lambda>(dest, destPos, remaining, buf). copy_out set_bulk dest destPos remaining buf)"

text \<open>
  The loop of \<open>CopyValues\<close> when the memory holds no value; an error of \<open>Get\<close> ends the function
  (\<open>Inl\<close>).
\<close>

primrec copy_single ::
  "'s getter \<Rightarrow> 't setter \<Rightarrow> 's \<Rightarrow> nat \<Rightarrow> 't \<Rightarrow> nat \<Rightarrow> nat \<Rightarrow> ('t + 't \<times> nat \<times> nat) option" where
  "copy_single get put src srcPos dest destPos 0 = Some (Inr (dest, srcPos, destPos))"
| "copy_single get put src srcPos dest destPos (Suc n) =
     Option.bind (get src srcPos) (\<lambda>r. case r of Inl _ \<Rightarrow> Some (Inl dest)
       | Inr v \<Rightarrow> Option.bind (put dest destPos v) (\<lambda>dest.
           copy_single get put src (srcPos + 1) dest (destPos + 1) n))"

definition CopyValues ::
  "'s getter \<Rightarrow> ('s \<Rightarrow> nat \<Rightarrow> u64 list \<Rightarrow> (int \<times> u64 list) option) \<Rightarrow>
   't setter \<Rightarrow> ('t \<Rightarrow> nat \<Rightarrow> u64 list \<Rightarrow> (int \<times> 't) option) \<Rightarrow>
   's \<Rightarrow> nat \<Rightarrow> 't \<Rightarrow> nat \<Rightarrow> nat \<Rightarrow> nat \<Rightarrow> 't option" where
  "CopyValues get get_bulk put set_bulk src srcPos dest destPos len mem =
     (let capacity = mem div 8 in
      Option.bind
        (if capacity = 0 then copy_single get put src srcPos dest destPos len
         else Some (Inr (dest, srcPos, destPos)))
        (\<lambda>r. case r of Inl dest \<Rightarrow> Some dest
         | Inr (dest, srcPos, destPos) \<Rightarrow>
             if 0 < len then
               CopyValuesWithBuffer get_bulk set_bulk src srcPos dest destPos len (replicate (min capacity len) 0)
             else Some dest))"

abbreviation copy_mutable :: "Mutable \<Rightarrow> nat \<Rightarrow> Mutable \<Rightarrow> nat \<Rightarrow> nat \<Rightarrow> nat \<Rightarrow> Mutable option" where
  "copy_mutable \<equiv> CopyValues Mutable_Get Mutable_GetBulk Mutable_Set Mutable_SetBulk"

subsection \<open>GrowableWriter\<close>

record GrowableWriter =
  gw_currentMask :: u64
  gw_current :: Mutable
  gw_ratio :: rat

definition NewGrowableWriter :: "nat \<Rightarrow> nat \<Rightarrow> rat \<Rightarrow> GrowableWriter option" where
  "NewGrowableWriter startBitsPerValue valueCount ratio =
     (case DefaultGetMutable valueCount startBitsPerValue ratio of
        Some (Some m) \<Rightarrow> Some \<lparr>gw_currentMask = 0, gw_current = m, gw_ratio = ratio\<rparr>
      | _ \<Rightarrow> None)"

definition getMask :: "nat \<Rightarrow> u64" where
  "getMask bitsPerValue = (if bitsPerValue = 64 then NOT 0 else MaxValue bitsPerValue)"

definition GrowableWriter_Size :: "GrowableWriter \<Rightarrow> nat" where
  "GrowableWriter_Size g = Mutable_Size (gw_current g)"

definition GrowableWriter_GetBitsPerValue :: "GrowableWriter \<Rightarrow> nat" where
  "GrowableWriter_GetBitsPerValue g = Mutable_GetBitsPerValue (gw_current g)"

definition GrowableWriter_Get :: "GrowableWriter \<Rightarrow> nat \<Rightarrow> (go_error + u64) option" where
  "GrowableWriter_Get g index = Mutable_Get (gw_current g) index"

definition GrowableWriter_GetBulk :: "GrowableWriter \<Rightarrow> nat \<Rightarrow> u64 list \<Rightarrow> (int \<times> u64 list) option" where
  "GrowableWriter_GetBulk g index arr = Mutable_GetBulk (gw_current g) index arr"

text \<open>A nil array panics in the copy that follows, or in the first access to it.\<close>

definition ensureCapacity :: "GrowableWriter \<Rightarrow> u64 \<Rightarrow> GrowableWriter option" where
  "ensureCapacity g value =
     (if value AND gw_currentMask g = value then Some g
      else
        let bitsRequired = unsignedBitsRequired value;
            valueCount = GrowableWriter_Size g in
        case DefaultGetMutable valueCount bitsRequired (gw_ratio g) of
          Some (Some m) \<Rightarrow>
            Option.bind (copy_mutable (gw_current g) 0 m 0 valueCount 1024) (\<lambda>m.
              Some (g\<lparr>gw_current := m, gw_currentMask := getMask (Mutable_GetBitsPerValue m)\<rparr>))
        | _ \<Rightarrow> None)"

definition GrowableWriter_Set :: "GrowableWriter \<Rightarrow> nat \<Rightarrow> u64 \<Rightarrow> GrowableWriter option" where
  "GrowableWriter_Set g index value =
     Option.bind (ensureCapacity g value) (\<lambda>g.
       Option.bind (Mutable_Set (gw_current g) index value) (\<lambda>m. Some (g\<lparr>gw_current := m\<rparr>)))"

definition GrowableWriter_SetBulk :: "GrowableWriter \<Rightarrow> nat \<Rightarrow> u64 list \<Rightarrow> (int \<times> GrowableWriter) option" where
  "GrowableWriter_SetBulk g index arr =
     Option.bind (ensureCapacity g (foldl (OR) 0 arr)) (\<lambda>g.
       Option.bind (Mutable_SetBulk (gw_current g) index arr) (\<lambda>(n, m). Some (n, g\<lparr>gw_current := m\<rparr>)))"

definition GrowableWriter_Fill :: "GrowableWriter \<Rightarrow> nat \<Rightarrow> nat \<Rightarrow> u64 \<Rightarrow> GrowableWriter option" where
  "GrowableWriter_Fill g fromIndex toIndex value =
     Option.bind (ensureCapacity g value) (\<lambda>g.
       Option.bind (Mutable_Fill (gw_current g) fromIndex toIndex value) (\<lambda>m. Some (g\<lparr>gw_current := m\<rparr>)))"

definition GrowableWriter_Clear :: "GrowableWriter \<Rightarrow> GrowableWriter" where
  "GrowableWriter_Clear g = g\<lparr>gw_current := Mutable_Clear (gw_current g)\<rparr>"

definition GrowableWriter_Resize :: "GrowableWriter \<Rightarrow> nat \<Rightarrow> GrowableWriter option" where
  "GrowableWriter_Resize g newSize =
     Option.bind (NewGrowableWriter (GrowableWriter_GetBitsPerValue g) newSize (gw_ratio g)) (\<lambda>nxt.
       let limit = min (GrowableWriter_Size g) newSize in
       CopyValues Mutable_Get Mutable_GetBulk GrowableWriter_Set GrowableWriter_SetBulk
         (gw_current g) 0 nxt 0 limit 1024)"

subsection \<open>Paged arrays\<close>

text \<open>
  \<open>basePagedMutable\<close> with the pages of \<open>FixSizePagedMutable\<close>, which all have the format and the
  number of bits chosen at the start. \<open>pageShift\<close> is the number of trailing zeros of the page size.
\<close>

record PagedMutable =
  pg_size :: nat
  pg_pageShift :: nat
  pg_pageMask :: nat
  pg_subMutables :: "Mutable list"
  pg_bitsPerValue :: nat
  pg_format :: Format

text \<open>\<open>bits.TrailingZeros\<close> of a 64-bit \<open>uint\<close>\<close>

primrec trailing_zeros_from :: "nat \<Rightarrow> nat \<Rightarrow> nat" where
  "trailing_zeros_from 0 n = 0"
| "trailing_zeros_from (Suc k) n = (if n mod 2 = 1 then 0 else Suc (trailing_zeros_from k (n div 2)))"

definition checkBlockSize :: "nat \<Rightarrow> nat" where
  "checkBlockSize blockSize = trailing_zeros_from 64 blockSize"

definition pg_pageSize :: "PagedMutable \<Rightarrow> nat" where
  "pg_pageSize p = pg_pageMask p + 1"

definition pg_pageIndex :: "PagedMutable \<Rightarrow> nat \<Rightarrow> nat" where
  "pg_pageIndex p index = drop_bit (pg_pageShift p) index"

definition pg_indexInPage :: "PagedMutable \<Rightarrow> nat \<Rightarrow> nat" where
  "pg_indexInPage p index = index AND pg_pageMask p"

definition pg_lastPageSize :: "PagedMutable \<Rightarrow> nat \<Rightarrow> nat" where
  "pg_lastPageSize p len = (let sz = pg_indexInPage p len in if sz = 0 then pg_pageSize p else sz)"

text \<open>A page of nil is not built: the constructor fails in the model where the next access panics.\<close>

definition NewMutable :: "PagedMutable \<Rightarrow> nat \<Rightarrow> Mutable option" where
  "NewMutable p valueCount = Option.bind (getMutable valueCount (pg_bitsPerValue p) (pg_format p)) (\<lambda>m. m)"

primrec fill_pages_loop :: "PagedMutable \<Rightarrow> nat \<Rightarrow> nat \<Rightarrow> nat \<Rightarrow> Mutable list \<Rightarrow> Mutable list option" where
  "fill_pages_loop p numPages i 0 ms = Some ms"
| "fill_pages_loop p numPages i (Suc n) ms =
     (let valueCount = (if i = numPages - 1 then pg_lastPageSize p (pg_size p) else pg_pageSize p) in
      Option.bind (NewMutable p valueCount) (\<lambda>m. fill_pages_loop p numPages (i + 1) n (ms @ [m])))"

definition fillPages :: "PagedMutable \<Rightarrow> PagedMutable option" where
  "fillPages p =
     (let numPages = getNumBlocks (pg_size p) (pg_pageSize p) in
      map_option (\<lambda>ms. p\<lparr>pg_subMutables := ms\<rparr>) (fill_pages_loop p numPages 0 numPages []))"

definition NewFixSizePagedMutable :: "nat \<Rightarrow> nat \<Rightarrow> nat \<Rightarrow> rat \<Rightarrow> PagedMutable option" where
  "NewFixSizePagedMutable len pageSize bitsPerValue ratio =
     (let (format, bpv) = fastestFormatAndBits (int pageSize) bitsPerValue ratio in
      fillPages \<lparr>pg_size = len, pg_pageShift = checkBlockSize pageSize, pg_pageMask = pageSize - 1,
        pg_subMutables = [], pg_bitsPerValue = bpv, pg_format = format\<rparr>)"

definition PagedMutable_Get :: "PagedMutable \<Rightarrow> nat \<Rightarrow> (go_error + u64) option" where
  "PagedMutable_Get p index =
     Option.bind (slice_get (pg_subMutables p) (pg_pageIndex p index)) (\<lambda>m. Mutable_Get m (pg_indexInPage p index))"

definition PagedMutable_Set :: "PagedMutable \<Rightarrow> nat \<Rightarrow> u64 \<Rightarrow> PagedMutable option" where
  "PagedMutable_Set p index value =
     Option.bind (slice_get (pg_subMutables p) (pg_pageIndex p index)) (\<lambda>m.
       Option.bind (Mutable_Set m (pg_indexInPage p index) value) (\<lambda>m.
         Some (p\<lparr>pg_subMutables := (pg_subMutables p)[pg_pageIndex p index := m]\<rparr>)))"

text \<open>
  \<open>Resize\<close>: \<open>FixSizePagedMutable.NewMutable\<close> ignores the number of bits it is passed. The condition
  for the size of the last page is the wrong way round.
\<close>

definition copy_buffered :: "Mutable \<Rightarrow> Mutable \<Rightarrow> nat \<Rightarrow> Mutable option" where
  "copy_buffered src dest len =
     CopyValuesWithBuffer Mutable_GetBulk Mutable_SetBulk src 0 dest 0 len (replicate 1024 0)"

primrec resize_loop :: "PagedMutable \<Rightarrow> nat \<Rightarrow> nat \<Rightarrow> nat \<Rightarrow> nat \<Rightarrow> Mutable list \<Rightarrow> Mutable list option" where
  "resize_loop p newSize numPages i 0 ms = Some ms"
| "resize_loop p newSize numPages i (Suc n) ms =
     (let valueCount = (if i + 1 < numPages then pg_lastPageSize p newSize else pg_pageSize p);
          numCommonPages = min numPages (length (pg_subMutables p)) in
      Option.bind (NewMutable p valueCount) (\<lambda>m.
        Option.bind
          (if i < numCommonPages then
             copy_buffered (pg_subMutables p ! i) m (min valueCount (Mutable_Size (pg_subMutables p ! i)))
           else Some m)
          (\<lambda>m. resize_loop p newSize numPages (i + 1) n (ms @ [m]))))"

definition PagedMutable_Resize :: "PagedMutable \<Rightarrow> nat \<Rightarrow> PagedMutable option" where
  "PagedMutable_Resize p newSize =
     (let numPages = getNumBlocks newSize (pg_pageSize p) in
      map_option (\<lambda>ms. p\<lparr>pg_size := newSize, pg_pageShift := checkBlockSize (pg_pageSize p), pg_subMutables := ms\<rparr>)
        (resize_loop p newSize numPages 0 numPages []))"

definition PagedMutable_Grow :: "PagedMutable \<Rightarrow> nat \<Rightarrow> PagedMutable option" where
  "PagedMutable_Grow p minSize =
     (if minSize \<le> pg_size p then Some p
      else
        let extra = drop_bit 3 minSize;
            extra = (if extra < 3 then 3 else extra) in
        PagedMutable_Resize p (minSize + extra))"

definition PagedMutable_GrowOne :: "PagedMutable \<Rightarrow> PagedMutable option" where
  "PagedMutable_GrowOne p = PagedMutable_Grow p (pg_size p + 1)"

end
