(* ===== verification/Mutables_Correct.thy ===== *)
theory Mutables_Correct
  imports Mutables
begin

text \<open>
  Correctness of Mutables: the arrays behind the interface satisfy one contract (the locales
  \<open>packed_array\<close>, \<open>bulk_reader\<close> and \<open>bulk_writer\<close>), copying between arrays (the locale
  \<open>bulk_copy\<close>), the choice of the array for a width, and the growing and the paged arrays.
\<close>

subsection \<open>The arrays satisfy one contract\<close>

primrec mut_inv :: "Mutable \<Rightarrow> bool" where
  "mut_inv (M_Direct8 d) = direct_inv d"
| "mut_inv (M_Direct16 d) = direct_inv d"
| "mut_inv (M_Direct32 d) = direct_inv d"
| "mut_inv (M_Direct64 d) = direct_inv d"
| "mut_inv (M_Packed8 p) = p8_inv p"
| "mut_inv (M_Packed16 p) = p16_inv p"
| "mut_inv (M_Packed64 p) = p64_inv p"
| "mut_inv (M_SingleBlock p) = sb_inv p"

lemmas direct_defs =
  Direct8_Get_def Direct16_Get_def Direct32_Get_def Direct64_Get_def
  Direct8_Set_def Direct16_Set_def Direct32_Set_def Direct64_Set_def
  Direct8_GetBulk_def Direct16_GetBulk_def Direct32_GetBulk_def Direct64_GetBulk_def
  Direct8_SetBulk_def Direct16_SetBulk_def Direct32_SetBulk_def Direct64_SetBulk_def
  Direct8_Clear_def Direct16_Clear_def Direct32_Clear_def Direct64_Clear_def
  Direct8_Fill_def Direct16_Fill_def Direct32_Fill_def Direct64_Fill_def
  NewDirect8_def NewDirect16_def NewDirect32_def NewDirect64_def

text \<open>The law of \<open>Set\<close> passes from a component to the sum.\<close>

lemma set_law_lift:
  assumes "\<exists>s'. put s i v = Some s' \<and> P s' \<and> len s' = len s \<and> w s' = w s \<and>
      (\<forall>j < len s. get s' j = (if j = i then Some (Inr v) else get s j))"
    and "\<And>s. mut_inv (C s) = P s" "\<And>s. Mutable_Size (C s) = len s" "\<And>s. Mutable_GetBitsPerValue (C s) = w s"
    and "\<And>s. Mutable_Get (C s) = get s" "Mutable_Set (C s) i v = map_option C (put s i v)"
  shows "\<exists>s'. Mutable_Set (C s) i v = Some s' \<and> mut_inv s' \<and> Mutable_Size s' = Mutable_Size (C s) \<and>
      Mutable_GetBitsPerValue s' = Mutable_GetBitsPerValue (C s) \<and>
      (\<forall>j < Mutable_Size (C s). Mutable_Get s' j = (if j = i then Some (Inr v) else Mutable_Get (C s) j))"
  using assms by auto

interpretation mut: packed_array Mutable_Get Mutable_Set Mutable_Size Mutable_GetBitsPerValue mut_inv
proof unfold_locales
  fix m i
  assume a: "mut_inv m" "i < Mutable_Size m"
  show "\<exists>v. Mutable_Get m i = Some (Inr v) \<and> fits (Mutable_GetBitsPerValue m) v"
    using a direct.get_value [where 'a = 8] direct.get_value [where 'a = 16] direct.get_value [where 'a = 32]
      direct.get_value [where 'a = 64] p8.get_value p16.get_value p64.get_value sb.get_value
    by (cases m) (simp_all add: direct_defs)
  fix v
  assume v: "fits (Mutable_GetBitsPerValue m) v"
  show "\<exists>s'. Mutable_Set m i v = Some s' \<and> mut_inv s' \<and> Mutable_Size s' = Mutable_Size m \<and>
      Mutable_GetBitsPerValue s' = Mutable_GetBitsPerValue m \<and>
      (\<forall>j < Mutable_Size m. Mutable_Get s' j = (if j = i then Some (Inr v) else Mutable_Get m j))"
  proof (cases m)
    case (M_Direct8 d)
    show ?thesis unfolding M_Direct8
      using a v M_Direct8 by (intro set_law_lift [OF direct.set_value]) (simp_all add: direct_defs fun_eq_iff)
  next
    case (M_Direct16 d)
    show ?thesis unfolding M_Direct16
      using a v M_Direct16 by (intro set_law_lift [OF direct.set_value]) (simp_all add: direct_defs fun_eq_iff)
  next
    case (M_Direct32 d)
    show ?thesis unfolding M_Direct32
      using a v M_Direct32 by (intro set_law_lift [OF direct.set_value]) (simp_all add: direct_defs fun_eq_iff)
  next
    case (M_Direct64 d)
    show ?thesis unfolding M_Direct64
      using a v M_Direct64 by (intro set_law_lift [OF direct.set_value]) (simp_all add: direct_defs fun_eq_iff)
  next
    case (M_Packed8 d)
    show ?thesis unfolding M_Packed8
      using a v M_Packed8 by (intro set_law_lift [OF p8.set_value]) (simp_all add: fun_eq_iff)
  next
    case (M_Packed16 d)
    show ?thesis unfolding M_Packed16
      using a v M_Packed16 by (intro set_law_lift [OF p16.set_value]) (simp_all add: fun_eq_iff)
  next
    case (M_Packed64 d)
    show ?thesis unfolding M_Packed64
      using a v M_Packed64 by (intro set_law_lift [OF p64.set_value]) (simp_all add: fun_eq_iff)
  next
    case (M_SingleBlock d)
    show ?thesis unfolding M_SingleBlock
      using a v M_SingleBlock by (intro set_law_lift [OF sb.set_value]) (simp_all add: fun_eq_iff)
  qed
qed

text \<open>The contents are those of the component.\<close>

lemma mut_contents_simps [simp]:
  "mut.contents (M_Direct8 d) = direct.contents d" "mut.contents (M_Direct16 e) = direct.contents e"
  "mut.contents (M_Direct32 f) = direct.contents f" "mut.contents (M_Direct64 g) = direct.contents g"
  "mut.contents (M_Packed8 p) = p8.contents p" "mut.contents (M_Packed16 q) = p16.contents q"
  "mut.contents (M_Packed64 r) = p64.contents r" "mut.contents (M_SingleBlock s) = sb.contents s"
  by (simp_all add: mut.contents_def direct.contents_def p8.contents_def p16.contents_def p64.contents_def
      sb.contents_def direct_defs)

lemma Packed64_GetBulk_prefix:
  assumes "p64_inv p" and "i + length arr \<le> p64_valueCount p"
  shows "\<exists>k arr'. Packed64_GetBulk p i arr = Some (int k, arr') \<and> k \<le> length arr \<and> (arr \<noteq> [] \<longrightarrow> 0 < k) \<and>
    length arr' = length arr \<and> take k arr' = take k (drop i (p64.contents p))"
proof -
  have i: "i \<le> p64_valueCount p"
    using assms(2) by simp
  obtain k where k: "k \<le> min (length arr) (p64_valueCount p - i)"
    "0 < min (length arr) (p64_valueCount p - i) \<longrightarrow> 0 < k"
    "Packed64_GetBulk p i arr = Some (int k, write_block arr 0 (take k (drop i (p64.contents p))))"
    using Packed64_GetBulk_contents [OF assms(1) i refl, of arr] by (elim exE conjE) (rule that)
  have m: "min (length arr) (p64_valueCount p - i) = length arr"
    using assms(2) by simp
  have "k \<le> length arr" "arr \<noteq> [] \<longrightarrow> 0 < k" "i + k \<le> p64_valueCount p"
    using k(1,2) assms(2) unfolding m by simp_all
  then show ?thesis
    using k(3) by (auto simp: write_block_def)
qed

interpretation mut_reader: bulk_reader
  Mutable_Get Mutable_Set Mutable_Size Mutable_GetBitsPerValue mut_inv Mutable_GetBulk
proof unfold_locales
  fix m i and arr :: "u64 list"
  assume a: "mut_inv m" "i + length arr \<le> Mutable_Size m"
  then show "\<exists>k arr'. Mutable_GetBulk m i arr = Some (int k, arr') \<and> k \<le> length arr \<and> (arr \<noteq> [] \<longrightarrow> 0 < k) \<and>
      length arr' = length arr \<and> take k arr' = take k (drop i (mut.contents m))"
    using direct_reader.get_bulk_prefix [where 'a = 8] direct_reader.get_bulk_prefix [where 'a = 16]
      direct_reader.get_bulk_prefix [where 'a = 32] direct_reader.get_bulk_prefix [where 'a = 64]
      p8_reader.get_bulk_prefix p16_reader.get_bulk_prefix Packed64_GetBulk_prefix sb_reader.get_bulk_prefix
    by (cases m) (simp_all add: direct_defs del: map_option_eq_Some)
qed

text \<open>\<open>SetBulk\<close> of \<open>Packed64\<close> does not satisfy the law of a bulk writer.\<close>

primrec not_packed64 :: "Mutable \<Rightarrow> bool" where
  "not_packed64 (M_Direct8 d) = True"
| "not_packed64 (M_Direct16 d) = True"
| "not_packed64 (M_Direct32 d) = True"
| "not_packed64 (M_Direct64 d) = True"
| "not_packed64 (M_Packed8 p) = True"
| "not_packed64 (M_Packed16 p) = True"
| "not_packed64 (M_Packed64 p) = False"
| "not_packed64 (M_SingleBlock p) = True"

definition writable :: "Mutable \<Rightarrow> bool" where
  "writable m \<longleftrightarrow> mut_inv m \<and> not_packed64 m"

lemma Mutable_Set_kind: "Mutable_Set m i v = Some m' \<Longrightarrow> not_packed64 m' = not_packed64 m"
  by (cases m) auto

interpretation wmut: packed_array Mutable_Get Mutable_Set Mutable_Size Mutable_GetBitsPerValue writable
proof unfold_locales
  fix m i
  assume a: "writable m" "i < Mutable_Size m"
  then show "\<exists>v. Mutable_Get m i = Some (Inr v) \<and> fits (Mutable_GetBitsPerValue m) v"
    using mut.get_value by (simp add: writable_def)
  fix v
  assume "fits (Mutable_GetBitsPerValue m) v"
  then obtain s' where "Mutable_Set m i v = Some s'" "mut_inv s'" "Mutable_Size s' = Mutable_Size m"
    "Mutable_GetBitsPerValue s' = Mutable_GetBitsPerValue m"
    "\<forall>j < Mutable_Size m. Mutable_Get s' j = (if j = i then Some (Inr v) else Mutable_Get m j)"
    using mut.set_value [of m i v] a by (auto simp: writable_def)
  then show "\<exists>s'. Mutable_Set m i v = Some s' \<and> writable s' \<and> Mutable_Size s' = Mutable_Size m \<and>
      Mutable_GetBitsPerValue s' = Mutable_GetBitsPerValue m \<and>
      (\<forall>j < Mutable_Size m. Mutable_Get s' j = (if j = i then Some (Inr v) else Mutable_Get m j))"
    using a Mutable_Set_kind by (auto simp: writable_def)
qed

lemma bulk_law_lift:
  assumes "\<exists>s'. sb s i vs = Some (int (length vs), s') \<and> P s' \<and> len s' = len s \<and> w s' = w s \<and>
      cont s' = write_block (cont s) i vs"
    and "\<And>s. writable (C s) = P s" "\<And>s. Mutable_Size (C s) = len s" "\<And>s. Mutable_GetBitsPerValue (C s) = w s"
    and "\<And>s. mut.contents (C s) = cont s" "Mutable_SetBulk (C s) i vs = map_option (map_prod id C) (sb s i vs)"
  shows "\<exists>s'. Mutable_SetBulk (C s) i vs = Some (int (length vs), s') \<and> writable s' \<and>
      Mutable_Size s' = Mutable_Size (C s) \<and> Mutable_GetBitsPerValue s' = Mutable_GetBitsPerValue (C s) \<and>
      mut.contents s' = write_block (mut.contents (C s)) i vs"
  using assms by auto

interpretation mut_writer: bulk_writer
  Mutable_Get Mutable_Set Mutable_Size Mutable_GetBitsPerValue writable Mutable_SetBulk
proof unfold_locales
  fix m i vs
  assume a: "writable m" "i + length vs \<le> Mutable_Size m" "fits_width (Mutable_GetBitsPerValue m) vs"
  have "\<exists>s'. Mutable_SetBulk m i vs = Some (int (length vs), s') \<and> writable s' \<and> Mutable_Size s' = Mutable_Size m \<and>
      Mutable_GetBitsPerValue s' = Mutable_GetBitsPerValue m \<and> mut.contents s' = write_block (mut.contents m) i vs"
  proof (cases m)
    case (M_Direct8 d)
    show ?thesis unfolding M_Direct8 using a M_Direct8
      by (intro bulk_law_lift [OF direct_writer.set_bulk_all]) (simp_all add: direct_defs writable_def)
  next
    case (M_Direct16 d)
    show ?thesis unfolding M_Direct16 using a M_Direct16
      by (intro bulk_law_lift [OF direct_writer.set_bulk_all]) (simp_all add: direct_defs writable_def)
  next
    case (M_Direct32 d)
    show ?thesis unfolding M_Direct32 using a M_Direct32
      by (intro bulk_law_lift [OF direct_writer.set_bulk_all]) (simp_all add: direct_defs writable_def)
  next
    case (M_Direct64 d)
    show ?thesis unfolding M_Direct64 using a M_Direct64
      by (intro bulk_law_lift [OF direct_writer.set_bulk_all]) (simp_all add: direct_defs writable_def)
  next
    case (M_Packed8 d)
    show ?thesis unfolding M_Packed8 using a M_Packed8
      by (intro bulk_law_lift [OF p8_writer.set_bulk_all]) (simp_all add: writable_def)
  next
    case (M_Packed16 d)
    show ?thesis unfolding M_Packed16 using a M_Packed16
      by (intro bulk_law_lift [OF p16_writer.set_bulk_all]) (simp_all add: writable_def)
  next
    case (M_Packed64 d)
    then show ?thesis using a by (simp add: writable_def)
  next
    case (M_SingleBlock d)
    have "Mutable_SetBulk (M_SingleBlock d) i vs = map_option (map_prod id M_SingleBlock)
        (map_option (\<lambda>(n, a). (int n, a)) (Packed64SingleBlock_SetBulk d i vs))"
      by (simp add: option.map_comp case_prod_unfold comp_def)
    then show ?thesis unfolding M_SingleBlock using a M_SingleBlock
      by (intro bulk_law_lift [OF sb_writer.set_bulk_all]) (simp_all add: writable_def)
  qed
  then show "\<exists>s'. Mutable_SetBulk m i vs = Some (int (length vs), s') \<and> writable s' \<and>
      Mutable_Size s' = Mutable_Size m \<and> Mutable_GetBitsPerValue s' = Mutable_GetBitsPerValue m \<and>
      mut.contents s' = write_block (mut.contents m) i vs"
    by simp
qed


subsection \<open>Copying copies\<close>

locale bulk_copy =
  source: bulk_reader sget sput slen swidth sinv sbulk +
  target: bulk_writer tget tput tlen twidth tinv tbulk
  for sget :: "'s getter" and sput slen swidth sinv sbulk
    and tget :: "'t getter" and tput tlen twidth tinv tbulk
begin

lemma copy_in_contents:
  assumes "sinv src" and "tinv dest" and "s + len \<le> slen src" and "t + len \<le> tlen dest" and "buf \<noteq> []"
    and "fits_width (twidth dest) (take len (drop s (source.contents src)))"
  shows "\<exists>dest' buf'. copy_in sbulk tbulk src s dest t len 0 buf = Some (dest', t + len, 0, buf') \<and>
    tinv dest' \<and> tlen dest' = tlen dest \<and> twidth dest' = twidth dest \<and>
    target.contents dest' = write_block (target.contents dest) t (take len (drop s (source.contents src)))"
  using assms
proof (induction len arbitrary: s dest t buf rule: less_induct)
  case (less len)
  show ?case
  proof (cases "len = 0")
    case True
    then show ?thesis
      using less.prems by (simp add: copy_in.simps)
  next
    case False
    define c where "c = min len (length buf)"
    let ?C = "source.contents src"
    have c: "0 < c" "c \<le> len" "length (take c buf) = c"
      using False less.prems(5) by (simp_all add: c_def)
    obtain k arr' where k: "sbulk src s (take c buf) = Some (int k, arr')" "k \<le> c" "0 < k" "length arr' = c"
      "take k arr' = take k (drop s ?C)"
    proof -
      have "s + length (take c buf) \<le> slen src" "take c buf \<noteq> []"
        using c less.prems(3) by auto
      then show ?thesis
        using source.get_bulk_prefix [OF less.prems(1), of s "take c buf"] that unfolding c(3) by blast
    qed
    define buf1 where "buf1 = arr' @ drop c buf"
    have b1: "length buf1 = length buf" "take k buf1 = take k (drop s ?C)" "buf1 \<noteq> []"
      using k c less.prems(5) by (auto simp: buf1_def c_def)
    have lk: "length (take k (drop s ?C)) = k"
      using k(2) c(2) less.prems(3) by simp
    have f: "fits_width (twidth dest) (take k (drop s ?C))"
      using less.prems(6) k(2) c(2) source.fits_width_take [of "twidth dest" "take len (drop s ?C)" k]
      by (simp add: min_def)
    obtain d1 where d1: "tbulk dest t (take k buf1) = Some (int k, d1)" "tinv d1" "tlen d1 = tlen dest"
      "twidth d1 = twidth dest" "target.contents d1 = write_block (target.contents dest) t (take k (drop s ?C))"
    proof -
      have "t + length (take k (drop s ?C)) \<le> tlen dest"
        using lk k(2) c(2) less.prems(4) by simp
      from target.set_bulk_all [OF less.prems(2) this f] show ?thesis
        using that unfolding lk b1(2) by blast
    qed
    have f2: "fits_width (twidth dest) (take (len - k) (drop (s + k) ?C))"
    proof -
      have "take (len - k) (drop (s + k) ?C) = drop k (take len (drop s ?C))"
        by (simp add: drop_take add.commute)
      then show ?thesis
        using less.prems(6) by (auto simp: fits_width_def dest: in_set_dropD)
    qed
    obtain d2 buf2 where d2: "copy_in sbulk tbulk src (s + k) d1 (t + k) (len - k) 0 buf1 = Some (d2, t + k + (len - k), 0, buf2)"
      "tinv d2" "tlen d2 = tlen d1" "twidth d2 = twidth d1"
      "target.contents d2 = write_block (target.contents d1) (t + k) (take (len - k) (drop (s + k) ?C))"
    proof -
      have le: "len - k < len" "s + k + (len - k) \<le> slen src" "t + k + (len - k) \<le> tlen d1"
        using k(2,3) c(1,2) d1(3) less.prems(3,4) by simp_all
      have f3: "fits_width (twidth d1) (take (len - k) (drop (s + k) ?C))"
        using f2 d1(4) by simp
      show ?thesis
        using less.IH [OF le(1) less.prems(1) d1(2) le(2,3) b1(3) f3] that by blast
    qed
    have "copy_in sbulk tbulk src s dest t len 0 buf = Some (d2, t + len, 0, buf2)"
      using False k(1-4) c d1(1) d2(1)
      by (subst copy_in.simps) (simp add: c_def [symmetric] buf1_def [symmetric] Let_def)
    moreover have "target.contents d2 = write_block (target.contents dest) t (take len (drop s ?C))"
    proof -
      have "take k (drop s ?C) @ take (len - k) (drop (s + k) ?C) = take len (drop s ?C)"
        using k(2) c(2) take_add [of k "len - k" "drop s ?C"] by (simp add: add.commute)
      then show ?thesis
        using write_block_append [of t "take k (drop s ?C)" "take (len - k) (drop (s + k) ?C)" "target.contents dest"]
          less.prems(3,4) k(2) c(2) lk unfolding d2(5) d1(5) by simp
    qed
    ultimately show ?thesis
      using d2(2-4) d1(3,4) by (intro exI [of _ d2] exI [of _ buf2]) simp
  qed
qed

lemma copy_with_buffer_contents:
  assumes "sinv src" and "tinv dest" and "s + len \<le> slen src" and "t + len \<le> tlen dest" and "buf \<noteq> []"
    and "fits_width (twidth dest) (take len (drop s (source.contents src)))"
  shows "\<exists>dest'. CopyValuesWithBuffer sbulk tbulk src s dest t len buf = Some dest' \<and>
    tinv dest' \<and> tlen dest' = tlen dest \<and> twidth dest' = twidth dest \<and>
    target.contents dest' = write_block (target.contents dest) t (take len (drop s (source.contents src)))"
  using copy_in_contents [OF assms] by (auto simp: CopyValuesWithBuffer_def copy_out.simps)

lemma copy_contents:
  assumes "sinv src" and "tinv dest" and "s + len \<le> slen src" and "t + len \<le> tlen dest" and "8 \<le> mem"
    and "fits_width (twidth dest) (take len (drop s (source.contents src)))"
  shows "\<exists>dest'. CopyValues sget sbulk tput tbulk src s dest t len mem = Some dest' \<and>
    tinv dest' \<and> tlen dest' = tlen dest \<and> twidth dest' = twidth dest \<and>
    target.contents dest' = write_block (target.contents dest) t (take len (drop s (source.contents src)))"
proof -
  have m: "0 < mem div 8"
    using assms(5) by (simp add: div_greater_zero_iff)
  then have "CopyValues sget sbulk tput tbulk src s dest t len mem =
      (if 0 < len then CopyValuesWithBuffer sbulk tbulk src s dest t len (replicate (min (mem div 8) len) 0)
       else Some dest)"
    by (simp add: CopyValues_def)
  moreover have "0 < len \<Longrightarrow> replicate (min (mem div 8) len) (0 :: u64) \<noteq> []"
    using m by simp
  ultimately show ?thesis
    using copy_with_buffer_contents [OF assms(1-4) _ assms(6), of "replicate (min (mem div 8) len) 0"] assms(2)
    by (cases "len = 0") auto
qed

text \<open>Without room for a value the first loop makes no progress.\<close>

lemma copy_in_stuck:
  assumes "sinv src" and "s \<le> slen src" and "0 < len"
  shows "copy_in sbulk tbulk src s dest t len 0 [] = None"
proof -
  define P where "P = (\<lambda>gb (tb :: 't \<Rightarrow> nat \<Rightarrow> u64 list \<Rightarrow> (int \<times> 't) option) S p (d :: 't) (q :: nat) n r (b :: u64 list)
    (y :: 't \<times> nat \<times> nat \<times> u64 list). gb = sbulk \<longrightarrow> S = src \<longrightarrow> p = s \<longrightarrow> 0 < (n :: nat) \<longrightarrow> r = (0 :: nat) \<longrightarrow> b = [] \<longrightarrow> False)"
  obtain k arr where k: "sbulk src s [] = Some (int k, arr)" "k = 0" "arr = []"
    using source.get_bulk_prefix [OF assms(1), of s "[]"] assms(2) by auto
  have "P sbulk tbulk src s dest t len 0 [] y" if "copy_in sbulk tbulk src s dest t len 0 [] = Some y" for y
  proof (rule copy_in.raw_induct [OF _ that])
    fix rec gb and tb :: "'t \<Rightarrow> nat \<Rightarrow> u64 list \<Rightarrow> (int \<times> 't) option" and S p and d :: 't and q n r and b :: "u64 list" and y
    assume IH: "\<And>gb tb S p d q n r (b :: u64 list) y. rec gb tb S p d q n r b = Some y \<Longrightarrow> P gb tb S p d q n r b y"
    assume eq: "(if n = 0 then Some (d, q, r, b)
      else if length b < r then None
      else let copySize = min n (length b - r) in
        Option.bind (gb S p (take copySize b)) (\<lambda>r'.
          let read = fst r'; buf = snd r' @ drop copySize b in
          if read < 0 \<or> length buf < r + nat read then None
          else let remaining = r + nat read in
            Option.bind (tb d q (take remaining buf)) (\<lambda>w.
              let written = nat (fst w) in
              if fst w < 0 \<or> remaining < written then None
              else Let (if written < remaining
                        then write_block buf 0 (take (remaining - written) (drop written buf)) else buf)
                (rec gb tb S (p + nat read) (snd w) (q + written) (n - nat read) (remaining - written))))) = Some y"
    show "P gb tb S p d q n r b y"
      unfolding P_def
    proof (intro impI)
      assume "gb = sbulk" "S = src" "p = s" "0 < n" "r = 0" "b = []"
      with eq k obtain w where "rec sbulk tb src s (snd w) q n 0 [] = Some y"
        by (auto simp: Let_def bind_eq_Some_conv split: if_splits)
      from IH [OF this] show False
        using \<open>0 < n\<close> by (simp add: P_def)
    qed
  qed
  then show ?thesis
    using assms(3) unfolding P_def by (metis not_None_eq)
qed

lemma copy_single_contents:
  assumes "sinv src" and "tinv dest" and "s + len \<le> slen src" and "t + len \<le> tlen dest"
    and "fits_width (twidth dest) (take len (drop s (source.contents src)))"
  shows "\<exists>dest'. copy_single sget tput src s dest t len = Some (Inr (dest', s + len, t + len)) \<and>
    tinv dest' \<and> tlen dest' = tlen dest \<and> twidth dest' = twidth dest"
  using assms
proof (induction len arbitrary: s dest t)
  case (Suc len)
  let ?v = "source.contents src ! s"
  have v: "take (Suc len) (drop s (source.contents src)) = ?v # take len (drop (Suc s) (source.contents src))"
    using Suc.prems by (simp add: Cons_nth_drop_Suc [symmetric])
  obtain d where d: "tput dest t ?v = Some d" "tinv d" "tlen d = tlen dest" "twidth d = twidth dest"
    using target.set_contents [of dest t ?v] Suc.prems unfolding v by (auto simp: fits_width_iff)
  have "sget src s = Some (Inr ?v)"
    using Suc.prems by (intro source.get_contents) simp_all
  moreover have "fits_width (twidth d) (take len (drop (Suc s) (source.contents src)))"
    using Suc.prems(5) d(4) unfolding v by (simp add: fits_width_iff)
  ultimately show ?case
    using Suc.IH [of d "s + 1" "t + 1"] Suc.prems d by auto
qed auto

lemma copy_stuck:
  assumes "sinv src" and "s + len \<le> slen src" and "mem < 8" and "0 < len"
    and "tinv dest" and "t + len \<le> tlen dest"
    and "fits_width (twidth dest) (take len (drop s (source.contents src)))"
  shows "CopyValues sget sbulk tput tbulk src s dest t len mem = None"
proof -
  obtain dest' where "copy_single sget tput src s dest t len = Some (Inr (dest', s + len, t + len))"
    using copy_single_contents [OF assms(1,5,2,6,7)] by auto
  moreover have "mem div 8 = 0"
    using assms(3) by simp
  ultimately show ?thesis
    using copy_in_stuck [OF assms(1,2,4)] assms(4) by (simp add: CopyValues_def CopyValuesWithBuffer_def)
qed

end

interpretation mut_copy: bulk_copy
  Mutable_Get Mutable_Set Mutable_Size Mutable_GetBitsPerValue mut_inv Mutable_GetBulk
  Mutable_Get Mutable_Set Mutable_Size Mutable_GetBitsPerValue writable Mutable_SetBulk
  by unfold_locales


subsection \<open>Widths\<close>



lemma fits_iff_bits: "fits b v \<longleftrightarrow> (\<forall>j. b \<le> j \<longrightarrow> \<not> bit v j)"
proof
  assume v: "fits b v"
  have "bit v j \<longleftrightarrow> j < b \<and> bit v j" for j
    using v unfolding fits_def by (metis bit_take_bit_iff)
  then show "\<forall>j. b \<le> j \<longrightarrow> \<not> bit v j"
    by (meson not_le)
next
  assume "\<forall>j. b \<le> j \<longrightarrow> \<not> bit v j"
  then show "fits b v"
    unfolding fits_def by (intro bit_word_eqI) (metis bit_take_bit_iff not_le)
qed

lemma fits_mono: "fits a v \<Longrightarrow> a \<le> b \<Longrightarrow> fits b v"
  by (auto simp: fits_iff_bits)


lemma leading_zeros_le: "leading_zeros n v \<le> n"
  by (induction n) auto

lemma leading_zeros_bits: "n - leading_zeros n v \<le> j \<Longrightarrow> j < n \<Longrightarrow> \<not> bit v j"
proof (induction n)
  case (Suc n)
  then show ?case
    using leading_zeros_le [of n v] by (cases "j = n") (auto split: if_splits)
qed simp

lemma leading_zeros_top: "leading_zeros n v < n \<Longrightarrow> bit v (n - leading_zeros n v - 1)"
  by (induction n) auto


lemma fits_unsignedBitsRequired: "fits (unsignedBitsRequired v) v"
  unfolding fits_iff_bits
proof (intro allI impI)
  fix j
  assume "unsignedBitsRequired v \<le> j"
  then show "\<not> bit v j"
    using leading_zeros_bits [of 64 v j] bit_u64_less [of v j] by (auto simp: unsignedBitsRequired_def)
qed

lemma unsignedBitsRequired_least:
  assumes "1 \<le> b" and "fits b v"
  shows "unsignedBitsRequired v \<le> b"
proof (rule ccontr)
  assume n: "\<not> unsignedBitsRequired v \<le> b"
  then have "b < 64 - leading_zeros 64 v"
    using assms(1) by (auto simp: unsignedBitsRequired_def)
  then have "bit v (64 - leading_zeros 64 v - 1)" "b \<le> 64 - leading_zeros 64 v - 1"
    using leading_zeros_top [of 64 v] by auto
  then show False
    using assms(2) by (auto simp: fits_iff_bits)
qed


subsection \<open>The constructors\<close>

definition fresh :: "Mutable \<Rightarrow> nat \<Rightarrow> nat \<Rightarrow> bool" where
  "fresh m n b \<longleftrightarrow> mut_inv m \<and> Mutable_Size m = n \<and> Mutable_GetBitsPerValue m = b \<and>
     mut.contents m = replicate n 0"

lemma NewPacked64_contents:
  assumes "packed_width b"
  shows "\<exists>p. NewPacked64 n b = Some p \<and> p64_inv p \<and> p64_valueCount p = n \<and> p64_bitsPerValue p = b \<and>
    p64.contents p = replicate n 0"
proof -
  obtain p where p: "NewPacked64 n b = Some p" "p64_inv p" "p64_valueCount p = n" "p64_bitsPerValue p = b"
    "\<forall>w \<in> set (p64_blocks p). w = 0"
    using NewPacked64_inv [OF assms, of n] by auto
  have z: "p64_blocks p = replicate (length (p64_blocks p)) 0"
    using p(5) by (intro replicate_eqI) auto
  have "packed_value b (p64_blocks p) i = 0" if "i < n" for i
  proof (rule packed_value_eqI)
    show "b \<le> 64"
      using assms by simp
    fix j
    have "\<not> stream_bit (p64_blocks p) (i * b + (b - 1 - j))" if "j < b"
    proof -
      have "(i + 1) * b \<le> p64_valueCount p * b"
        using \<open>i < n\<close> p(3) by (intro mult_le_mono1) simp
      then have "i * b + (b - 1 - j) < 64 * length (p64_blocks p)"
        using p64_invD(5) [OF p(2)] p(4) that by simp
      then have "(i * b + (b - 1 - j)) div 64 < length (p64_blocks p)"
        by (simp add: less_mult_imp_div_less mult.commute)
      then have "p64_blocks p ! ((i * b + (b - 1 - j)) div 64) = 0"
        using p(5) by simp
      then show ?thesis
        by (simp add: stream_bit_def)
    qed
    then show "bit (0 :: u64) j \<longleftrightarrow> j < b \<and> stream_bit (p64_blocks p) (i * b + (b - 1 - j))"
      by auto
  qed
  then have "p64.contents p = replicate n 0"
    using p by (intro nth_equalityI) (simp_all add: p64_contents)
  then show ?thesis
    using p by blast
qed


lemma NewDirect_fresh:
  "fresh (M_Direct8 (NewDirect8 n)) n 8" "fresh (M_Direct16 (NewDirect16 n)) n 16"
  "fresh (M_Direct32 (NewDirect32 n)) n 32" "fresh (M_Direct64 (NewDirect64 n)) n 64"
  using NewDirect_inv [of n, where 'a = 8] NewDirect_inv [of n, where 'a = 16]
    NewDirect_inv [of n, where 'a = 32] NewDirect_inv [of n, where 'a = 64]
  by (simp_all add: fresh_def direct_defs)

text \<open>The widths for which the packed format has an array with a faithful \<open>SetBulk\<close>.\<close>

definition direct_width :: "nat \<Rightarrow> nat \<Rightarrow> bool" where
  "direct_width n b \<longleftrightarrow> b = 8 \<or> b = 16 \<or> b = 32 \<or> b = 64 \<or> (b = 24 \<or> b = 48) \<and> int n \<le> MAX_SIZE"

lemma getMutable_packed:
  assumes "packed_width b"
  shows "\<exists>m. getMutable n b FormatPacked = Some (Some m) \<and> fresh m n b \<and> not_packed64 m = direct_width n b"
proof -
  obtain p where "NewPacked64 n b = Some p" "fresh (M_Packed64 p) n b"
    using NewPacked64_contents [OF assms, of n] by (auto simp: fresh_def)
  then show ?thesis
    using NewDirect_fresh [of n] NewPacked8ThreeBlocks_inv [of n] NewPacked16ThreeBlocks_inv [of n]
    by (auto simp: getMutable_def direct_width_def fresh_def)
qed

lemma getMutable_single_block:
  "isSupported b \<Longrightarrow>
    \<exists>m. getMutable n b FormatPackedSingleBlock = Some (Some m) \<and> fresh m n b \<and> not_packed64 m"
  using NewPacked64SingleBlock_inv [of b n] by (auto simp: getMutable_def fresh_def)

lemma getMutable_unsupported: "\<not> isSupported b \<Longrightarrow> getMutable n b FormatPackedSingleBlock = Some None"
  by (simp add: getMutable_def NewPacked64SingleBlock_def)

lemma isSupported_width: "isSupported b \<Longrightarrow> 1 \<le> b \<and> b \<le> 32"
  using single_block_case_Some [of b] by (auto simp: isSupported_case)

lemma fastest_loop_supported:
  "fastest_loop pv b bpv n = Some c \<Longrightarrow> isSupported c \<and> bpv \<le> c"
  by (induction n arbitrary: bpv) (auto split: if_splits dest: Suc_leD)

lemma fastestFormatAndBits_ok:
  assumes "packed_width b"
  shows "case fastestFormatAndBits n b ratio of (format, c) \<Rightarrow>
    b \<le> c \<and> (case format of FormatPacked \<Rightarrow> packed_width c | FormatPackedSingleBlock \<Rightarrow> isSupported c)"
  using assms unfolding fastestFormatAndBits_def Let_def
  by (simp add: fastest_loop_supported del: fastest_loop.simps split: option.split)

text \<open>What \<open>getMutableV1\<close> returns depends on the format only.\<close>

definition array_chosen :: "nat \<Rightarrow> nat \<Rightarrow> rat \<Rightarrow> bool" where
  "array_chosen n b ratio \<longleftrightarrow>
     (case fst (fastestFormatAndBits (int n) b ratio) of
        FormatPacked \<Rightarrow> direct_width n b | FormatPackedSingleBlock \<Rightarrow> isSupported b)"

lemma DefaultGetMutable_chosen:
  assumes "packed_width b" and "array_chosen n b ratio"
  shows "\<exists>m. DefaultGetMutable n b ratio = Some (Some m) \<and> fresh m n b \<and> writable m"
proof (cases "fst (fastestFormatAndBits (int n) b ratio)")
  case FormatPacked
  then show ?thesis
    using assms(2) getMutable_packed [OF assms(1), of n]
    by (auto simp: DefaultGetMutable_def getMutableV1_def array_chosen_def writable_def fresh_def)
next
  case FormatPackedSingleBlock
  then show ?thesis
    using assms(2) getMutable_single_block [of b n]
    by (auto simp: DefaultGetMutable_def getMutableV1_def array_chosen_def writable_def fresh_def)
qed

lemma DefaultGetMutable_cases:
  assumes "packed_width b"
  shows "DefaultGetMutable n b ratio = Some None \<and> \<not> isSupported b \<and>
      fst (fastestFormatAndBits (int n) b ratio) = FormatPackedSingleBlock \<or>
    (\<exists>m. DefaultGetMutable n b ratio = Some (Some m) \<and> fresh m n b)"
  using assms getMutable_packed [OF assms, of n] getMutable_single_block [of b n] getMutable_unsupported [of b n]
  by (cases "fst (fastestFormatAndBits (int n) b ratio)"; cases "isSupported b")
    (auto simp: DefaultGetMutable_def getMutableV1_def)

text \<open>The table of the choice for a ratio of a quarter.\<close>

lemma quarter_choice:
  assumes "int n \<le> MAX_SIZE"
  shows "fastestFormatAndBits (int n) b (1 / 4) = fastestFormatAndBits 0 b (1 / 4)"
proof -
  have "(0 :: int) \<le> MAX_SIZE"
    by (simp add: MAX_SIZE_def)
  then show ?thesis
    using assms by (simp add: fastestFormatAndBits_def Let_def)
qed

lemma quarter_choice_large:
  assumes "MAX_SIZE < int n"
  shows "fastestFormatAndBits (int n) b (1 / 4) = fastestFormatAndBits (2 ^ 31) b (1 / 4)"
proof -
  have "\<not> (2 ^ 31 :: int) \<le> MAX_SIZE"
    by (simp add: MAX_SIZE_def)
  then show ?thesis
    using assms by (simp add: fastestFormatAndBits_def Let_def)
qed

lemma quarter_table:
  "list_all (\<lambda>b. fst (fastestFormatAndBits 0 b (1 / 4)) = FormatPackedSingleBlock \<and> \<not> isSupported b \<longleftrightarrow>
    b \<in> {11, 17, 18, 19}) [1..<65]"
  by code_simp

lemma quarter_table_large:
  "list_all (\<lambda>b. fst (fastestFormatAndBits (2 ^ 31) b (1 / 4)) = FormatPackedSingleBlock \<and> \<not> isSupported b \<longleftrightarrow>
    b \<in> {11, 17, 18, 19, 20}) [1..<65]"
  by code_simp

text \<open>The widths for which there is no array: 20 is one of them when there are too many values for an array of three blocks.\<close>

definition no_array :: "nat \<Rightarrow> nat \<Rightarrow> bool" where
  "no_array n b \<longleftrightarrow> b \<in> {11, 17, 18, 19} \<or> b = 20 \<and> MAX_SIZE < int n"

lemma no_array_iff:
  assumes "1 \<le> b" and "b \<le> 64"
  shows "fst (fastestFormatAndBits (int n) b (1 / 4)) = FormatPackedSingleBlock \<and> \<not> isSupported b \<longleftrightarrow> no_array n b"
proof -
  have b: "b \<in> set [1..<65]"
    using assms by simp
  show ?thesis
  proof (cases "int n \<le> MAX_SIZE")
    case True
    then show ?thesis
      using quarter_table b unfolding list_all_iff quarter_choice [OF True] no_array_def by auto
  next
    case False
    then have large: "MAX_SIZE < int n"
      by simp
    then show ?thesis
      using quarter_table_large b unfolding list_all_iff quarter_choice_large [OF large] no_array_def by auto
  qed
qed


subsection \<open>GrowableWriter\<close>


definition g_contents :: "GrowableWriter \<Rightarrow> u64 list" where
  "g_contents g = mut.contents (gw_current g)"

lemma length_g_contents [simp]: "length (g_contents g) = GrowableWriter_Size g"
  by (simp add: g_contents_def GrowableWriter_Size_def)



lemma replicate_update [simp]: "(replicate n x)[i := x] = replicate n x"
  by (induction n arbitrary: i) (auto split: nat.split)







subsection \<open>Properties\<close>

text \<open>
  \<open>unsignedBitsRequired\<close> is the least positive width that holds the value.
\<close>

theorem bits_required:
  assumes "1 \<le> b" and "b \<le> 64"
  shows "unsignedBitsRequired v \<le> b \<longleftrightarrow> unat v < 2 ^ b"
proof
  assume "unsignedBitsRequired v \<le> b"
  then have "fits b v"
    using fits_mono fits_unsignedBitsRequired by blast
  then show "unat v < 2 ^ b"
    using assms(2) by (simp add: fits_def unat_less_exp_iff_take_bit)
next
  assume "unat v < 2 ^ b"
  then have "fits b v"
    using assms(2) by (simp add: fits_def unat_less_exp_iff_take_bit)
  then show "unsignedBitsRequired v \<le> b"
    using assms unsignedBitsRequired_least by blast
qed

theorem bits_required_witness:
  "unsignedBitsRequired 1000 \<le> 10 \<longleftrightarrow> unat (1000 :: u64) < 2 ^ 10"
  using bits_required [of 10 1000] by simp

text \<open>
  C21. With an overhead ratio of a quarter, \<open>DefaultGetMutable\<close> returns a well-formed array of zeros
  of the size and width asked for, for any number of values and any width from 1 to 64, except for the widths 11,
  17, 18 and 19, and 20 for more than \<open>MAX_SIZE\<close> values: there the format of single blocks is chosen for a
  larger width, but the array is built with the width asked for, which that format does not support, and the result
  is nil.
\<close>

theorem default_arrays:
  assumes "1 \<le> b" and "b \<le> 64"
  shows "if b \<in> {11, 17, 18, 19} \<or> b = 20 \<and> MAX_SIZE < int n then DefaultGetMutable n b (1 / 4) = Some None
    else \<exists>m. DefaultGetMutable n b (1 / 4) = Some (Some m) \<and> mut_inv m \<and> Mutable_Size m = n \<and>
      Mutable_GetBitsPerValue m = b \<and> (\<forall>i < n. Mutable_Get m i = Some (Inr 0))"
proof (cases "no_array n b")
  case True
  then have "DefaultGetMutable n b (1 / 4) = Some None"
    using no_array_iff [OF assms, of n] getMutable_unsupported by (simp add: DefaultGetMutable_def getMutableV1_def)
  then show ?thesis
    using True by (simp add: no_array_def)
next
  case False
  then obtain m where m: "DefaultGetMutable n b (1 / 4) = Some (Some m)" "fresh m n b"
    using DefaultGetMutable_cases [of b n "1 / 4"] no_array_iff [OF assms, of n] assms by auto
  then have "Mutable_Get m i = Some (Inr 0)" if "i < n" for i
    using mut.get_contents [of m i] that by (simp add: fresh_def)
  then show ?thesis
    using False m by (auto simp: fresh_def no_array_def)
qed

theorem default_arrays_witness:
  "DefaultGetMutable 100 17 (1 / 4) = Some None \<and> DefaultGetMutable 715827883 20 (1 / 4) = Some None \<and>
   (\<exists>m. DefaultGetMutable 100 13 (1 / 4) = Some (Some m) \<and> Mutable_Size m = 100)"
  using default_arrays [of 17 100] default_arrays [of 20 715827883] default_arrays [of 13 100] by (auto simp: MAX_SIZE_def)

text \<open>
  C22. \<open>CopyValues\<close> with room for at least one value copies the values from any array to any array
  but a \<open>Packed64\<close>, and changes no other value.
\<close>

theorem copy_values:
  assumes "mut_inv src" and "writable dest" and "s + len \<le> Mutable_Size src" and "t + len \<le> Mutable_Size dest"
    and "8 \<le> mem" and "fits_width (Mutable_GetBitsPerValue dest) (take len (drop s (mut.contents src)))"
  shows "\<exists>dest'. copy_mutable src s dest t len mem = Some dest' \<and> writable dest' \<and>
    Mutable_Size dest' = Mutable_Size dest \<and>
    (\<forall>j < Mutable_Size dest. Mutable_Get dest' j =
       (if t \<le> j \<and> j < t + len then Mutable_Get src (s + (j - t)) else Mutable_Get dest j))"
proof -
  obtain dest' where d: "copy_mutable src s dest t len mem = Some dest'" "writable dest'"
    "Mutable_Size dest' = Mutable_Size dest"
    "mut.contents dest' = write_block (mut.contents dest) t (take len (drop s (mut.contents src)))"
    using mut_copy.copy_contents [OF assms] by blast
  have "Mutable_Get dest' j =
      (if t \<le> j \<and> j < t + len then Mutable_Get src (s + (j - t)) else Mutable_Get dest j)"
    if "j < Mutable_Size dest" for j
    using mut.get_contents [of dest' j] mut.get_contents [of dest j] mut.get_contents [of src "s + (j - t)"]
      d(2,3) assms(1-4) that unfolding d(4) by (auto simp: writable_def nth_write_block)
  then show ?thesis
    using d by blast
qed

theorem copy_values_witness:
  "\<exists>src dest dest'. DefaultGetMutable 5 13 0 = Some (Some src) \<and> DefaultGetMutable 9 16 0 = Some (Some dest) \<and>
     copy_mutable src 1 dest 2 3 16 = Some dest' \<and> Mutable_Get dest' 4 = Mutable_Get src 3"
proof -
  have "\<not> array_chosen 5 13 0" "array_chosen 9 16 0"
    by code_simp+
  obtain src where src: "DefaultGetMutable 5 13 0 = Some (Some src)" "fresh src 5 13"
    using DefaultGetMutable_cases [of 13 5 0] by (auto simp: fastestFormatAndBits_def Let_def isSupported_def)
  obtain dest where dest: "DefaultGetMutable 9 16 0 = Some (Some dest)" "fresh dest 9 16" "writable dest"
    using DefaultGetMutable_chosen [of 16 9 0] \<open>array_chosen 9 16 0\<close> by auto
  have "fits_width 16 (take 3 (drop 1 (mut.contents src)))"
    using src(2) by (simp add: fresh_def fits_width_iff)
  then show ?thesis
    using copy_values [of src dest 1 3 2 16] src dest by (auto simp: fresh_def eval_nat_numeral)
qed

text \<open>
  Without room for a value (less than 8 bytes) \<open>CopyValues\<close> copies the values one by one, but
  does not return: it goes on with an empty buffer, and the loop there never ends.
\<close>

theorem copy_values_stuck:
  assumes "mut_inv src" and "writable dest" and "s + len \<le> Mutable_Size src" and "t + len \<le> Mutable_Size dest"
    and "mem < 8" and "0 < len"
    and "fits_width (Mutable_GetBitsPerValue dest) (take len (drop s (mut.contents src)))"
  shows "copy_single Mutable_Get Mutable_Set src s dest t len \<noteq> None \<and> copy_mutable src s dest t len mem = None"
  using mut_copy.copy_stuck [OF assms(1,3,5,6,2,4,7)] mut_copy.copy_single_contents [OF assms(1-4,7)] by auto

theorem copy_values_stuck_witness:
  "\<exists>m. DefaultGetMutable 9 16 0 = Some (Some m) \<and> copy_mutable m 0 m 0 9 7 = None"
proof -
  have "array_chosen 9 16 0"
    by code_simp
  then obtain m where m: "DefaultGetMutable 9 16 0 = Some (Some m)" "fresh m 9 16" "writable m"
    using DefaultGetMutable_chosen [of 16 9 0] by auto
  have "fits_width 16 (take 9 (drop 0 (mut.contents m)))"
    using m(2) by (simp add: fresh_def fits_width_iff)
  then show ?thesis
    using copy_values_stuck [of m m 0 9 0 7] m by (auto simp: fresh_def)
qed




subsection \<open>Paged arrays\<close>

definition page_length :: "PagedMutable \<Rightarrow> nat \<Rightarrow> nat" where
  "page_length p k =
     (if k + 1 = length (pg_subMutables p) then pg_lastPageSize p (pg_size p) else pg_pageSize p)"

definition pg_inv :: "PagedMutable \<Rightarrow> bool" where
  "pg_inv p \<longleftrightarrow> pg_pageMask p = mask (pg_pageShift p) \<and>
     length (pg_subMutables p) = getNumBlocks (pg_size p) (pg_pageSize p) \<and>
     (\<forall>k < length (pg_subMutables p). mut_inv (pg_subMutables p ! k) \<and>
        Mutable_GetBitsPerValue (pg_subMutables p ! k) = pg_bitsPerValue p \<and>
        Mutable_Size (pg_subMutables p ! k) = page_length p k)"

lemma pg_pageSize_eq: "pg_pageMask p = mask (pg_pageShift p) \<Longrightarrow> pg_pageSize p = 2 ^ pg_pageShift p"
  by (simp add: pg_pageSize_def mask_eq_exp_minus_1)

lemma pg_indexInPage_eq: "pg_pageMask p = mask (pg_pageShift p) \<Longrightarrow> pg_indexInPage p i = i mod 2 ^ pg_pageShift p"
  by (simp add: pg_indexInPage_def take_bit_eq_mask [symmetric] take_bit_eq_mod)

lemma pg_pageIndex_eq: "pg_pageIndex p i = i div 2 ^ pg_pageShift p"
  by (simp add: pg_pageIndex_def drop_bit_eq_div)

lemma page_position:
  assumes "pg_inv p" and "i < pg_size p"
  shows "pg_pageIndex p i < length (pg_subMutables p)"
    and "pg_indexInPage p i < page_length p (pg_pageIndex p i)"
proof -
  let ?b = "2 ^ pg_pageShift p :: nat"
  define q r where "q = pg_size p div ?b" and "r = pg_size p mod ?b"
  have m: "pg_pageMask p = mask (pg_pageShift p)" and n: "length (pg_subMutables p) = getNumBlocks (pg_size p) ?b"
    using assms(1) pg_pageSize_eq [of p] by (auto simp: pg_inv_def)
  have size: "pg_size p = q * ?b + r" "r < ?b"
    using div_mult_mod_eq [of "pg_size p" ?b] by (simp_all only: q_def r_def) simp
  have i: "i = i div ?b * ?b + i mod ?b" "i mod ?b < ?b"
    using div_mult_mod_eq [of i ?b] by simp_all
  have nb: "getNumBlocks (pg_size p) ?b = (if r = 0 then q else q + 1)"
    by (simp add: getNumBlocks_def q_def r_def Let_def)
  have le: "i div ?b \<le> q"
    using assms(2) by (simp add: q_def div_le_mono)
  have eq: "i div ?b = q \<Longrightarrow> i mod ?b < r"
    using assms(2) i(1) size(1) by simp
  show "pg_pageIndex p i < length (pg_subMutables p)"
    using le eq n nb by (cases "i div ?b = q") (auto simp: pg_pageIndex_eq)
  show "pg_indexInPage p i < page_length p (pg_pageIndex p i)"
    using le eq n nb i(2) m
    by (cases "i div ?b = q")
      (auto simp: page_length_def pg_pageIndex_eq pg_indexInPage_eq pg_lastPageSize_def pg_pageSize_eq r_def [symmetric] Let_def)
qed

lemma pg_position_inj:
  assumes "pg_pageMask p = mask (pg_pageShift p)" and "pg_pageIndex p i = pg_pageIndex p j" and "pg_indexInPage p i = pg_indexInPage p j"
  shows "i = j"
  using assms by (metis div_mult_mod_eq pg_indexInPage_eq pg_pageIndex_eq)

interpretation paged: packed_array PagedMutable_Get PagedMutable_Set pg_size pg_bitsPerValue pg_inv
proof unfold_locales
  fix p i
  assume a: "pg_inv p" "i < pg_size p"
  note pos = page_position [OF a]
  let ?k = "pg_pageIndex p i" and ?r = "pg_indexInPage p i"
  let ?m = "pg_subMutables p ! ?k"
  have m: "mut_inv ?m" "Mutable_GetBitsPerValue ?m = pg_bitsPerValue p" "?r < Mutable_Size ?m"
    using a(1) pos by (auto simp: pg_inv_def)
  then show "\<exists>v. PagedMutable_Get p i = Some (Inr v) \<and> fits (pg_bitsPerValue p) v"
    using mut.get_value [of ?m ?r] pos(1) by (simp add: PagedMutable_Get_def slice_get_in)
  fix v
  assume v: "fits (pg_bitsPerValue p) v"
  obtain m' where m': "Mutable_Set ?m ?r v = Some m'" "mut_inv m'" "Mutable_Size m' = Mutable_Size ?m"
    "Mutable_GetBitsPerValue m' = Mutable_GetBitsPerValue ?m"
    "\<forall>j < Mutable_Size ?m. Mutable_Get m' j = (if j = ?r then Some (Inr v) else Mutable_Get ?m j)"
    using mut.set_value [of ?m ?r v] m v by auto
  define p' where "p' = p\<lparr>pg_subMutables := (pg_subMutables p)[?k := m']\<rparr>"
  have ps: "pg_pageSize (p\<lparr>pg_subMutables := ms\<rparr>) = pg_pageSize p" for ms
    by (simp add: pg_pageSize_def)
  have same: "pg_size p' = pg_size p" "pg_bitsPerValue p' = pg_bitsPerValue p" "pg_pageMask p' = pg_pageMask p"
    "pg_pageShift p' = pg_pageShift p" "pg_pageIndex p' = pg_pageIndex p" "pg_indexInPage p' = pg_indexInPage p"
    "page_length p' = page_length p" "pg_pageSize p' = pg_pageSize p"
    by (simp_all add: p'_def fun_eq_iff pg_pageIndex_def pg_indexInPage_def page_length_def pg_lastPageSize_def Let_def ps)
  have inv: "pg_inv p'"
    unfolding pg_inv_def
  proof (intro conjI allI impI)
    show "pg_pageMask p' = mask (pg_pageShift p')"
      "length (pg_subMutables p') = getNumBlocks (pg_size p') (pg_pageSize p')"
      using a(1) same(1,3,4,8) by (simp_all add: pg_inv_def p'_def)
    fix k
    assume "k < length (pg_subMutables p')"
    then have k: "k < length (pg_subMutables p)"
      by (simp add: p'_def)
    then show "mut_inv (pg_subMutables p' ! k)"
      "Mutable_GetBitsPerValue (pg_subMutables p' ! k) = pg_bitsPerValue p'"
      "Mutable_Size (pg_subMutables p' ! k) = page_length p' k"
      using a(1) m'(2-4) same(2,7) unfolding pg_inv_def
      by (cases "k = ?k"; simp add: p'_def)+
  qed
  have "PagedMutable_Get p' j = (if j = i then Some (Inr v) else PagedMutable_Get p j)" if j: "j < pg_size p" for j
  proof (cases "pg_pageIndex p j = ?k")
    case True
    have "pg_indexInPage p j < Mutable_Size ?m"
      using page_position [OF a(1) j] a(1) pos(1) True by (simp add: pg_inv_def)
    moreover have "pg_indexInPage p j = ?r \<longleftrightarrow> j = i"
      using pg_position_inj [of p j i] True a(1) by (auto simp: pg_inv_def)
    ultimately show ?thesis
      using m'(5) m(3) True pos(1) same(5,6)
      by (simp add: PagedMutable_Get_def slice_get_in) (simp add: p'_def slice_get_in)
  next
    case False
    then show ?thesis
      using same(5,6) page_position(1) [OF a(1) j]
      by (auto simp: PagedMutable_Get_def slice_get_in) (auto simp: p'_def slice_get_in)
  qed
  then show "\<exists>s'. PagedMutable_Set p i v = Some s' \<and> pg_inv s' \<and> pg_size s' = pg_size p \<and>
      pg_bitsPerValue s' = pg_bitsPerValue p \<and>
      (\<forall>j < pg_size p. PagedMutable_Get s' j = (if j = i then Some (Inr v) else PagedMutable_Get p j))"
    using inv same(1,2) m'(1) pos(1) by (intro exI [of _ p']) (auto simp: PagedMutable_Set_def slice_get_in p'_def)
qed


lemma NewMutable_ok:
  assumes "case pg_format p of FormatPacked \<Rightarrow> packed_width (pg_bitsPerValue p)
    | FormatPackedSingleBlock \<Rightarrow> isSupported (pg_bitsPerValue p)"
  shows "\<exists>m. NewMutable p n = Some m \<and> fresh m n (pg_bitsPerValue p)"
  using assms getMutable_packed [of "pg_bitsPerValue p" n] getMutable_single_block [of "pg_bitsPerValue p" n]
  by (cases "pg_format p") (auto simp: NewMutable_def)

lemma fill_pages_loop_ok:
  assumes "case pg_format p of FormatPacked \<Rightarrow> packed_width (pg_bitsPerValue p)
    | FormatPackedSingleBlock \<Rightarrow> isSupported (pg_bitsPerValue p)"
    and "\<forall>k < length ms. fresh (ms ! k) (if k = N - 1 then pg_lastPageSize p (pg_size p) else pg_pageSize p) (pg_bitsPerValue p)"
  shows "\<exists>ms'. fill_pages_loop p N (length ms) n ms = Some ms' \<and> length ms' = length ms + n \<and>
    (\<forall>k < length ms + n. fresh (ms' ! k) (if k = N - 1 then pg_lastPageSize p (pg_size p) else pg_pageSize p) (pg_bitsPerValue p))"
  using assms(2)
proof (induction n arbitrary: ms)
  case (Suc n)
  let ?len = "if length ms = N - 1 then pg_lastPageSize p (pg_size p) else pg_pageSize p"
  obtain m where m: "NewMutable p ?len = Some m" "fresh m ?len (pg_bitsPerValue p)"
    using NewMutable_ok [OF assms(1)] by blast
  have "\<forall>k < length (ms @ [m]). fresh ((ms @ [m]) ! k)
      (if k = N - 1 then pg_lastPageSize p (pg_size p) else pg_pageSize p) (pg_bitsPerValue p)"
    using Suc.prems m(2) by (auto simp: nth_append less_Suc_eq)
  from Suc.IH [OF this] m(1) show ?case
    by (auto simp: Let_def)
qed simp

lemma trailing_zeros_power: "k < n \<Longrightarrow> trailing_zeros_from n (2 ^ k) = k"
proof (induction n arbitrary: k)
  case (Suc n)
  then show ?case
    by (cases k) auto
qed simp

lemma NewFixSizePagedMutable_ok:
  assumes "packed_width b" and "k < 64"
  shows "\<exists>p. NewFixSizePagedMutable n (2 ^ k) b ratio = Some p \<and> pg_inv p \<and> pg_size p = n \<and> b \<le> pg_bitsPerValue p \<and>
    (\<forall>j < length (pg_subMutables p). mut.contents (pg_subMutables p ! j) = replicate (page_length p j) 0)"
proof -
  obtain format c where fb: "fastestFormatAndBits (int (2 ^ k)) b ratio = (format, c)"
    by (metis prod.exhaust)
  have ok: "b \<le> c" "case format of FormatPacked \<Rightarrow> packed_width c | FormatPackedSingleBlock \<Rightarrow> isSupported c"
    using fastestFormatAndBits_ok [OF assms(1), of "int (2 ^ k)" ratio] unfolding fb by simp_all
  define p0 where "p0 = \<lparr>pg_size = n, pg_pageShift = k, pg_pageMask = 2 ^ k - 1, pg_subMutables = [],
    pg_bitsPerValue = c, pg_format = format\<rparr>"
  let ?N = "getNumBlocks n (2 ^ k)"
  have ps: "pg_pageSize p0 = 2 ^ k"
    by (simp add: pg_pageSize_def p0_def)
  have sel: "pg_size p0 = n" "pg_bitsPerValue p0 = c" "pg_format p0 = format"
    by (simp_all add: p0_def)
  obtain ms where ms: "fill_pages_loop p0 ?N 0 ?N [] = Some ms" "length ms = ?N"
    "\<forall>j < ?N. fresh (ms ! j) (if j = ?N - 1 then pg_lastPageSize p0 n else 2 ^ k) c"
    using fill_pages_loop_ok [of p0 "[]" ?N ?N] ok(2) unfolding ps sel by auto
  define p where "p = p0\<lparr>pg_subMutables := ms\<rparr>"
  have "NewFixSizePagedMutable n (2 ^ k) b ratio = Some p"
    using ms(1) ps assms(2) fb
    by (simp add: NewFixSizePagedMutable_def fillPages_def checkBlockSize_def trailing_zeros_power p_def)
      (simp add: p0_def)
  moreover have last: "pg_lastPageSize p = pg_lastPageSize p0" "pg_pageSize p = 2 ^ k"
    using ps by (simp_all add: fun_eq_iff pg_lastPageSize_def Let_def pg_indexInPage_def pg_pageSize_def p_def)
  moreover have pl: "page_length p j = (if j = ?N - 1 then pg_lastPageSize p0 n else 2 ^ k)" if "j < ?N" for j
    using that ms(2) last by (auto simp: page_length_def) (auto simp: p_def p0_def)
  moreover have "pg_inv p"
    unfolding pg_inv_def
  proof (intro conjI allI impI)
    show "pg_pageMask p = mask (pg_pageShift p)"
      by (simp add: p_def p0_def mask_eq_exp_minus_1)
    show "length (pg_subMutables p) = getNumBlocks (pg_size p) (pg_pageSize p)"
      using ms(2) last(2) by (simp add: p_def p0_def)
    fix j
    assume "j < length (pg_subMutables p)"
    then have "j < ?N"
      using ms(2) by (simp add: p_def)
    then have "fresh (pg_subMutables p ! j) (page_length p j) (pg_bitsPerValue p)"
      using ms(3) pl by (simp add: p_def p0_def)
    then show "mut_inv (pg_subMutables p ! j)" "Mutable_GetBitsPerValue (pg_subMutables p ! j) = pg_bitsPerValue p"
      "Mutable_Size (pg_subMutables p ! j) = page_length p j"
      by (simp_all add: fresh_def)
  qed
  moreover have "\<forall>j < length (pg_subMutables p). mut.contents (pg_subMutables p ! j) = replicate (page_length p j) 0"
    using ms(2,3) pl by (simp add: p_def fresh_def)
  ultimately show ?thesis
    using ok(1) by (intro exI [of _ p]) (simp add: p_def p0_def)
qed

subsection \<open>Properties of paged arrays\<close>

text \<open>
  C24. A paged array of any size, with a page size that is a power of two, is a list: a value that was
  set is read back at its index, wherever the page boundaries are, and no other value changes.
\<close>

theorem paged_get_set:
  assumes "pg_inv p" and "i < pg_size p" and "fits (pg_bitsPerValue p) v"
  shows "\<exists>p'. PagedMutable_Set p i v = Some p' \<and> pg_inv p' \<and> pg_size p' = pg_size p \<and>
    (\<forall>j < pg_size p. PagedMutable_Get p' j = (if j = i then Some (Inr v) else PagedMutable_Get p j))"
  using paged.set_value [OF assms] by blast

theorem paged_get_set_witness:
  "\<exists>p p'. NewFixSizePagedMutable 200 64 5 0 = Some p \<and> PagedMutable_Set p 130 21 = Some p' \<and>
     PagedMutable_Get p' 130 = Some (Inr 21) \<and> PagedMutable_Get p' 66 = PagedMutable_Get p 66"
proof -
  obtain p where p: "NewFixSizePagedMutable 200 (2 ^ 6) 5 0 = Some p" "pg_inv p" "pg_size p = 200" "5 \<le> pg_bitsPerValue p"
    using NewFixSizePagedMutable_ok [of 5 6 200 0] by auto
  have "fits 5 21"
    by (simp add: fits_def take_bit_eq_mask mask_eq_exp_minus_1)
  then have "fits (pg_bitsPerValue p) 21"
    using p(4) fits_mono by blast
  then show ?thesis
    using paged_get_set [of p 130 21] p by auto
qed

text \<open>
  \<open>Resize\<close> to more than one page and not a multiple of the page size loses data: the first page
  is made too short, and what is read behind its end panics (here 64 values, resized to 70).
\<close>

theorem paged_resize_loses:
  "\<exists>p p' p''. NewFixSizePagedMutable 64 64 8 0 = Some p \<and> PagedMutable_Set p 10 77 = Some p' \<and>
     PagedMutable_Get p' 10 = Some (Inr 77) \<and> PagedMutable_Resize p' 70 = Some p'' \<and> PagedMutable_Get p'' 10 = None"
proof -
  have "(case NewFixSizePagedMutable 64 64 8 0 of None \<Rightarrow> False | Some p \<Rightarrow>
      (case PagedMutable_Set p 10 77 of None \<Rightarrow> False | Some p' \<Rightarrow>
        PagedMutable_Get p' 10 = Some (Inr 77) \<and>
        (case PagedMutable_Resize p' 70 of None \<Rightarrow> False | Some p'' \<Rightarrow> PagedMutable_Get p'' 10 = None)))"
    by code_simp
  then show ?thesis
    by (auto split: option.splits)
qed

end
