(* ===== verification/Automaton.thy ===== *)
theory Automaton
  imports Prelude "HOL-Library.Product_Lexorder"
begin

text \<open>
  core/util/automaton: automaton.go, builder.go, transition.go, operations.go, run_automaton.go,
  byte_run_automaton.go and what compiled_automaton.go decides with them.
\<close>

subsection \<open>Bit sets\<close>

text \<open>
  \<open>github.com/bits-and-blooms/bitset\<close> is not part of the repository: its operations are a parameter
  of the model, with the behaviour its documentation states (locale \<open>bitset_laws\<close>).
\<close>

record 'b bitset =
  bs_new :: "nat \<Rightarrow> 'b"
  bs_set_to :: "'b \<Rightarrow> nat \<Rightarrow> bool \<Rightarrow> 'b"
  bs_test :: "'b \<Rightarrow> nat \<Rightarrow> bool"
  bs_next_set :: "'b \<Rightarrow> nat \<Rightarrow> nat option"

subsection \<open>Automaton\<close>

text \<open>
  \<open>states\<close> holds two numbers per state: where its transitions start (or -1), and how many there are.
  \<open>transitions\<close> holds three numbers per transition: dest, min, max.
\<close>

record 'b Automaton =
  a_nextState :: nat
  a_nextTransition :: nat
  a_curState :: int
  a_states :: "int list"
  a_isAccept :: 'b
  a_transitions :: "int list"
  a_deterministic :: bool

record Transition =
  t_Source :: nat
  t_Dest :: int
  t_Min :: int
  t_Max :: int
  t_TransitionUpto :: int

definition NewTransition :: Transition where
  "NewTransition = \<lparr>t_Source = 0, t_Dest = 0, t_Min = 0, t_Max = 0, t_TransitionUpto = 0\<rparr>"

text \<open>\<open>array.Grow\<close>\<close>

definition grow :: "int list \<Rightarrow> nat \<Rightarrow> int list" where
  "grow xs minSize = (if length xs < minSize then xs @ replicate (minSize - length xs) 0 else xs)"

definition NewAutomatonV1 :: "'b bitset \<Rightarrow> nat \<Rightarrow> nat \<Rightarrow> 'b Automaton" where
  "NewAutomatonV1 B numStates numTransitions =
     \<lparr>a_nextState = 0, a_nextTransition = 0, a_curState = - 1, a_states = replicate (numStates * 2) 0,
      a_isAccept = bs_new B numStates, a_transitions = replicate (numTransitions * 3) 0, a_deterministic = True\<rparr>"

definition NewAutomaton :: "'b bitset \<Rightarrow> 'b Automaton" where
  "NewAutomaton B = NewAutomatonV1 B 2 2"

definition CreateState :: "'b Automaton \<Rightarrow> (nat \<times> 'b Automaton) option" where
  "CreateState a = do {
     let st = grow (a_states a) (a_nextState a + 2);
     st \<leftarrow> slice_set st (a_nextState a) (- 1);
     Some (a_nextState a div 2, a\<lparr>a_states := st, a_nextState := a_nextState a + 2\<rparr>)
   }"

definition SetAccept :: "'b bitset \<Rightarrow> 'b Automaton \<Rightarrow> nat \<Rightarrow> bool \<Rightarrow> 'b Automaton" where
  "SetAccept B a state accept = a\<lparr>a_isAccept := bs_set_to B (a_isAccept a) state accept\<rparr>"

definition IsAccept :: "'b bitset \<Rightarrow> 'b Automaton \<Rightarrow> nat \<Rightarrow> bool" where
  "IsAccept B a state = bs_test B (a_isAccept a) state"

definition GetNumStates :: "'b Automaton \<Rightarrow> nat" where
  "GetNumStates a = a_nextState a div 2"

definition GetNumTransitions :: "'b Automaton \<Rightarrow> nat" where
  "GetNumTransitions a = a_nextTransition a div 3"

definition GetNumTransitionsWithState :: "'b Automaton \<Rightarrow> nat \<Rightarrow> int option" where
  "GetNumTransitionsWithState a state = do {
     c \<leftarrow> slice_get (a_states a) (2 * state + 1);
     Some (if c = - 1 then 0 else c)
   }"

text \<open>Three consecutive numbers from a position that may be negative.\<close>

definition read3 :: "int list \<Rightarrow> int \<Rightarrow> (int \<times> int \<times> int) option" where
  "read3 ts k = do {
     i \<leftarrow> int_index k;
     d \<leftarrow> slice_get ts i;
     mn \<leftarrow> slice_get ts (i + 1);
     mx \<leftarrow> slice_get ts (i + 2);
     Some (d, mn, mx)
   }"

definition write3 :: "int list \<Rightarrow> int \<Rightarrow> int \<times> int \<times> int \<Rightarrow> int list option" where
  "write3 ts k t = (case t of (d, mn, mx) \<Rightarrow> do {
     i \<leftarrow> int_index k;
     ts \<leftarrow> slice_set ts i d;
     ts \<leftarrow> slice_set ts (i + 1) mn;
     slice_set ts (i + 2) mx
   })"

subsection \<open>Finishing a state\<close>

text \<open>
  Both sorters index from 0: whatever the bounds \<open>from\<close> and \<open>to\<close>, they sort the first \<open>to - from\<close>
  transitions of the array. \<open>sort.Sort\<close> with their total orders has one result only.
\<close>

definition triples :: "int list \<Rightarrow> nat \<Rightarrow> nat \<Rightarrow> (int \<times> int \<times> int) list" where
  "triples ts off n = map (\<lambda>i. (ts ! (off + 3 * i), ts ! (off + 3 * i + 1), ts ! (off + 3 * i + 2))) [0..<n]"

definition flatten :: "(int \<times> int \<times> int) list \<Rightarrow> int list" where
  "flatten L = concat (map (\<lambda>(d, mn, mx). [d, mn, mx]) L)"

definition destMinMax :: "int \<times> int \<times> int \<Rightarrow> int \<times> int \<times> int" where
  "destMinMax t = t"

definition minMaxDest :: "int \<times> int \<times> int \<Rightarrow> int \<times> int \<times> int" where
  "minMaxDest t = (case t of (d, mn, mx) \<Rightarrow> (mn, mx, d))"

definition sort_transitions :: "(int \<times> int \<times> int \<Rightarrow> int \<times> int \<times> int) \<Rightarrow> int list \<Rightarrow> nat \<Rightarrow> int list option" where
  "sort_transitions key ts len =
     (if 3 * len \<le> length ts then Some (write_block ts 0 (flatten (sort_key key (triples ts 0 len)))) else None)"

text \<open>The loop that reduces adjacent transitions; \<open>t\<close> is the pending one.\<close>

primrec reduce_loop ::
  "int list \<Rightarrow> int \<Rightarrow> nat \<Rightarrow> int \<Rightarrow> int \<Rightarrow> int \<times> int \<times> int \<Rightarrow> (int list \<times> int \<times> (int \<times> int \<times> int)) option" where
  "reduce_loop ts offset 0 i up t = Some (ts, up, t)"
| "reduce_loop ts offset (Suc n) i up t = (case t of (dest, minValue, maxValue) \<Rightarrow> do {
     (tDest, tMin, tMax) \<leftarrow> read3 ts (offset + 3 * i);
     if dest = tDest then
       if tMin \<le> maxValue + 1 then
         reduce_loop ts offset n (i + 1) up (dest, minValue, if tMax > maxValue then tMax else maxValue)
       else if dest \<noteq> - 1 then do {
         ts \<leftarrow> write3 ts (offset + 3 * up) (dest, minValue, maxValue);
         reduce_loop ts offset n (i + 1) (up + 1) (dest, tMin, tMax)
       }
       else reduce_loop ts offset n (i + 1) up (dest, tMin, tMax)
     else if dest \<noteq> - 1 then do {
       ts \<leftarrow> write3 ts (offset + 3 * up) (dest, minValue, maxValue);
       reduce_loop ts offset n (i + 1) (up + 1) (tDest, tMin, tMax)
     }
     else reduce_loop ts offset n (i + 1) up (tDest, tMin, tMax)
   })"

text \<open>The loop that looks for overlapping labels.\<close>

primrec overlap_loop :: "int list \<Rightarrow> int \<Rightarrow> nat \<Rightarrow> int \<Rightarrow> int \<Rightarrow> bool option" where
  "overlap_loop ts offset 0 i lastMax = Some False"
| "overlap_loop ts offset (Suc n) i lastMax = do {
     (_, minValue, maxValue) \<leftarrow> read3 ts (offset + 3 * i);
     if minValue \<le> lastMax then Some True else overlap_loop ts offset n (i + 1) maxValue
   }"

definition finishCurrentState :: "'b Automaton \<Rightarrow> 'b Automaton option" where
  "finishCurrentState a = do {
     cur \<leftarrow> int_index (a_curState a);
     numTransitions \<leftarrow> slice_get (a_states a) (2 * cur + 1);
     offset \<leftarrow> slice_get (a_states a) (2 * cur);
     ts \<leftarrow> sort_transitions destMinMax (a_transitions a) (nat numTransitions);
     (ts, up, (dest, minValue, maxValue)) \<leftarrow> reduce_loop ts offset (nat numTransitions) 0 0 (- 1, - 1, - 1);
     (ts, up) \<leftarrow> (if dest \<noteq> - 1
        then map_option (\<lambda>ts. (ts, up + 1)) (write3 ts (offset + 3 * up) (dest, minValue, maxValue))
        else Some (ts, up));
     let a = a\<lparr>a_nextTransition := a_nextTransition a - nat ((numTransitions - up) * 3)\<rparr>;
     st \<leftarrow> slice_set (a_states a) (2 * cur + 1) up;
     ts \<leftarrow> sort_transitions minMaxDest ts (nat up);
     det \<leftarrow> (if a_deterministic a \<and> 1 < up then do {
         (_, _, lastMax) \<leftarrow> read3 ts offset;
         map_option Not (overlap_loop ts offset (nat up - 1) 1 lastMax)
       }
       else Some (a_deterministic a));
     Some (a\<lparr>a_states := st, a_transitions := ts, a_deterministic := det\<rparr>)
   }"

definition finishState :: "'b Automaton \<Rightarrow> 'b Automaton option" where
  "finishState a =
     (if a_curState a \<noteq> - 1 then map_option (\<lambda>a. a\<lparr>a_curState := - 1\<rparr>) (finishCurrentState a) else Some a)"

text \<open>On an error the automaton has moved to the source state already.\<close>

definition AddTransition :: "'b Automaton \<Rightarrow> nat \<Rightarrow> int \<Rightarrow> int \<Rightarrow> int \<Rightarrow> ((go_error + unit) \<times> 'b Automaton) option" where
  "AddTransition a source dest mn mx = do {
     let a = a\<lparr>a_transitions := grow (a_transitions a) (a_nextTransition a + 3)\<rparr>;
     (err, a) \<leftarrow> (if a_curState a \<noteq> int source then do {
         a \<leftarrow> (if a_curState a \<noteq> - 1 then finishCurrentState a else Some a);
         let a = a\<lparr>a_curState := int source\<rparr>;
         s \<leftarrow> slice_get (a_states a) (2 * source);
         if s \<noteq> - 1 then Some (True, a)
         else do {
           st \<leftarrow> slice_set (a_states a) (2 * source) (int (a_nextTransition a));
           Some (False, a\<lparr>a_states := st\<rparr>)
         }
       }
       else Some (False, a));
     if err then Some (Inl (Err ''from state already had transitions added''), a)
     else do {
       ts \<leftarrow> write3 (a_transitions a) (int (a_nextTransition a)) (dest, mn, mx);
       c \<leftarrow> slice_get (a_states a) (2 * source + 1);
       st \<leftarrow> slice_set (a_states a) (2 * source + 1) (c + 1);
       Some (Inr (), a\<lparr>a_transitions := ts, a_nextTransition := a_nextTransition a + 3, a_states := st\<rparr>)
     }
   }"

definition AddTransitionLabel :: "'b Automaton \<Rightarrow> nat \<Rightarrow> int \<Rightarrow> int \<Rightarrow> ((go_error + unit) \<times> 'b Automaton) option" where
  "AddTransitionLabel a source dest label = AddTransition a source dest label label"

subsection \<open>Reading transitions\<close>

definition InitTransition :: "'b Automaton \<Rightarrow> nat \<Rightarrow> Transition \<Rightarrow> (int \<times> Transition) option" where
  "InitTransition a state t = do {
     off \<leftarrow> slice_get (a_states a) (2 * state);
     n \<leftarrow> GetNumTransitionsWithState a state;
     Some (n, t\<lparr>t_Source := state, t_TransitionUpto := off\<rparr>)
   }"

definition GetNextTransition :: "'b Automaton \<Rightarrow> Transition \<Rightarrow> Transition option" where
  "GetNextTransition a t = do {
     (d, mn, mx) \<leftarrow> read3 (a_transitions a) (t_TransitionUpto t);
     Some (t\<lparr>t_Dest := d, t_Min := mn, t_Max := mx, t_TransitionUpto := t_TransitionUpto t + 3\<rparr>)
   }"

definition getTransition :: "'b Automaton \<Rightarrow> nat \<Rightarrow> int \<Rightarrow> Transition \<Rightarrow> Transition option" where
  "getTransition a state index t = do {
     off \<leftarrow> slice_get (a_states a) (2 * state);
     (d, mn, mx) \<leftarrow> read3 (a_transitions a) (off + 3 * index);
     Some (t\<lparr>t_Source := state, t_Dest := d, t_Min := mn, t_Max := mx\<rparr>)
   }"

text \<open>Binary search; the second component is the transition the search ends at.\<close>

function next_loop :: "int list \<Rightarrow> int \<Rightarrow> int \<Rightarrow> int \<Rightarrow> int \<Rightarrow> (int + int \<times> int \<times> int \<times> int) option" where
  "next_loop ts first label low high =
     (if low \<le> high then
        let mid = (low + high) div 2; k = first + 3 * mid in
        Option.bind (Option.bind (int_index (k + 1)) (slice_get ts)) (\<lambda>minLabel.
          if minLabel > label then next_loop ts first label low (mid - 1)
          else Option.bind (Option.bind (int_index (k + 2)) (slice_get ts)) (\<lambda>maxLabel.
            if maxLabel < label then next_loop ts first label (mid + 1) high
            else Option.bind (Option.bind (int_index k) (slice_get ts)) (\<lambda>dest.
              Some (Inr (dest, minLabel, maxLabel, mid)))))
      else Some (Inl low))"
  by pat_completeness auto
termination
  by (relation "measure (\<lambda>(ts, first, label, low, high). nat (high - low + 1))") auto

declare next_loop.simps [simp del]

definition automaton_next ::
  "'b Automaton \<Rightarrow> nat \<Rightarrow> int \<Rightarrow> int \<Rightarrow> Transition option \<Rightarrow> (int \<times> Transition option) option" where
  "automaton_next a state fromTransitionIndex label t = do {
     first \<leftarrow> slice_get (a_states a) (2 * state);
     n \<leftarrow> slice_get (a_states a) (2 * state + 1);
     r \<leftarrow> next_loop (a_transitions a) first label (max fromTransitionIndex 0) (n - 1);
     case r of
       Inr (dest, mn, mx, mid) \<Rightarrow>
         Some (dest, map_option (\<lambda>t. t\<lparr>t_Dest := dest, t_Min := mn, t_Max := mx, t_TransitionUpto := mid\<rparr>) t)
     | Inl low \<Rightarrow> Some (- 1, map_option (\<lambda>t. t\<lparr>t_Dest := - 1, t_TransitionUpto := low\<rparr>) t)
   }"

definition Step :: "'b Automaton \<Rightarrow> nat \<Rightarrow> int \<Rightarrow> int option" where
  "Step a state label = map_option fst (automaton_next a state 0 label None)"

definition Next :: "'b Automaton \<Rightarrow> Transition \<Rightarrow> int \<Rightarrow> (int \<times> Transition) option" where
  "Next a t label = do {
     (d, t') \<leftarrow> automaton_next a (t_Source t) 0 label (Some t);
     Some (d, the t')
   }"


subsection \<open>Composition of automata\<close>

text \<open>The transitions of \<open>dest\<close> are read while they are added to \<open>source\<close>; errors are dropped.\<close>

primrec add_epsilon_loop :: "nat \<Rightarrow> nat \<Rightarrow> 'b Automaton \<Rightarrow> Transition \<Rightarrow> 'b Automaton option" where
  "add_epsilon_loop source 0 a t = Some a"
| "add_epsilon_loop source (Suc n) a t = do {
     t \<leftarrow> GetNextTransition a t;
     (_, a) \<leftarrow> AddTransition a source (t_Dest t) (t_Min t) (t_Max t);
     add_epsilon_loop source n a t
   }"

definition AddEpsilon :: "'b bitset \<Rightarrow> 'b Automaton \<Rightarrow> nat \<Rightarrow> nat \<Rightarrow> 'b Automaton option" where
  "AddEpsilon B a source dest = do {
     (n, t) \<leftarrow> InitTransition a dest NewTransition;
     a \<leftarrow> add_epsilon_loop source (nat n) a t;
     Some (if IsAccept B a dest then SetAccept B a source True else a)
   }"

text \<open>
  \<open>Copy\<close>: the state pointers are moved behind the transitions there are. The variable the loop over
  the accept states advances is a new one of the inner block: the loop starts over with the same state.
\<close>

primrec fix_pointers :: "nat \<Rightarrow> nat \<Rightarrow> int \<Rightarrow> int list \<Rightarrow> int list option" where
  "fix_pointers i 0 shift st = Some st"
| "fix_pointers i (Suc n) shift st = do {
     s \<leftarrow> slice_get st i;
     st \<leftarrow> (if s \<noteq> - 1 then slice_set st i (s + shift) else Some st);
     fix_pointers (i + 2) n shift st
   }"

partial_function (option) copy_accept_loop ::
  "'b bitset \<Rightarrow> 'b \<Rightarrow> nat \<Rightarrow> nat \<Rightarrow> nat \<Rightarrow> 'b Automaton \<Rightarrow> 'b Automaton option" where
  [code]: "copy_accept_loop B otherAccept otherNumStates stateOffset state a =
     (if state < otherNumStates then
        (case bs_next_set B otherAccept state of
           Some s \<Rightarrow> copy_accept_loop B otherAccept otherNumStates stateOffset state (SetAccept B a (stateOffset + s) True)
         | None \<Rightarrow> Some a)
      else Some a)"

primrec fix_dests :: "nat \<Rightarrow> nat \<Rightarrow> int \<Rightarrow> int list \<Rightarrow> int list option" where
  "fix_dests i 0 shift ts = Some ts"
| "fix_dests i (Suc n) shift ts = do {
     d \<leftarrow> slice_get ts i;
     ts \<leftarrow> slice_set ts i (d + shift);
     fix_dests (i + 3) n shift ts
   }"

definition Automaton_Copy :: "'b bitset \<Rightarrow> 'b Automaton \<Rightarrow> 'b Automaton \<Rightarrow> 'b Automaton option" where
  "Automaton_Copy B a other = do {
     let stateOffset = GetNumStates a;
     let st = grow (a_states a) (a_nextState a + a_nextState other);
     let st = write_block st (a_nextState a) (take (a_nextState other) (a_states other));
     st \<leftarrow> fix_pointers (a_nextState a) (a_nextState other div 2) (int (a_nextTransition a)) st;
     let a = a\<lparr>a_states := st, a_nextState := a_nextState a + a_nextState other\<rparr>;
     a \<leftarrow> copy_accept_loop B (a_isAccept other) (GetNumStates other) stateOffset 0 a;
     let ts = grow (a_transitions a) (a_nextTransition a + a_nextTransition other);
     let ts = write_block ts (a_nextTransition a) (take (a_nextTransition other) (a_transitions other));
     ts \<leftarrow> fix_dests (a_nextTransition a) (a_nextTransition other div 3) (int stateOffset) ts;
     Some (a\<lparr>a_transitions := ts, a_nextTransition := a_nextTransition a + a_nextTransition other,
       a_deterministic := (if a_deterministic other then a_deterministic a else False)\<rparr>)
   }"

subsection \<open>Operations\<close>

text \<open>The body of the search: the transitions of one state; a negative state has no bit.\<close>

primrec visit_loop :: "'b bitset \<Rightarrow> 'b Automaton \<Rightarrow> nat \<Rightarrow> Transition \<Rightarrow> nat list \<Rightarrow> 'b \<Rightarrow> (nat list \<times> 'b) option" where
  "visit_loop B a 0 t workList seen = Some (workList, seen)"
| "visit_loop B a (Suc n) t workList seen = do {
     t \<leftarrow> GetNextTransition a t;
     d \<leftarrow> int_index (t_Dest t);
     if bs_test B seen d then visit_loop B a n t workList seen
     else visit_loop B a n t (workList @ [d]) (bs_set_to B seen d True)
   }"

partial_function (option) is_empty_loop :: "'b bitset \<Rightarrow> 'b Automaton \<Rightarrow> nat list \<Rightarrow> 'b \<Rightarrow> bool option" where
  [code]: "is_empty_loop B a workList seen =
     (case workList of
        [] \<Rightarrow> Some True
      | state # workList \<Rightarrow>
          if IsAccept B a state then Some False
          else Option.bind (InitTransition a state NewTransition) (\<lambda>(n, t).
            Option.bind (visit_loop B a (nat n) t workList seen) (\<lambda>r. is_empty_loop B a (fst r) (snd r))))"

definition IsEmptyAutomaton :: "'b bitset \<Rightarrow> 'b Automaton \<Rightarrow> bool option" where
  "IsEmptyAutomaton B a =
     (if GetNumStates a = 0 then Some True
      else if IsAccept B a 0 then Some False
      else do {
        n \<leftarrow> GetNumTransitionsWithState a 0;
        if n = 0 then Some True
        else is_empty_loop B a [0] (bs_set_to B (bs_new B (GetNumStates a)) 0 True)
      })"

definition IsTotalAutomatonRange :: "'b bitset \<Rightarrow> 'b Automaton \<Rightarrow> int \<Rightarrow> int \<Rightarrow> bool option" where
  "IsTotalAutomatonRange B a minAlphabet maxAlphabet = do {
     n \<leftarrow> (if IsAccept B a 0 then GetNumTransitionsWithState a 0 else Some 0);
     if IsAccept B a 0 \<and> n = 1 then do {
       t \<leftarrow> getTransition a 0 0 NewTransition;
       Some (t_Dest t = 0 \<and> t_Min t = minAlphabet \<and> t_Max t = maxAlphabet)
     }
     else Some False
   }"

definition IsTotalAutomaton :: "'b bitset \<Rightarrow> 'b Automaton \<Rightarrow> bool option" where
  "IsTotalAutomaton B a = IsTotalAutomatonRange B a 0 1114111"

text \<open>\<open>DeterminizeAutomaton\<close> is a stub: it builds the first set of states and returns its argument.\<close>

definition DeterminizeAutomaton :: "'b Automaton \<Rightarrow> 'b Automaton" where
  "DeterminizeAutomaton a = a"

text \<open>
  \<open>GetSingletonAutomaton\<close>: the result is nil (\<open>None\<close> inside) when more than one string is accepted.
  The test of \<open>visited\<close> is the wrong way round.
\<close>

partial_function (option) singleton_loop ::
  "'b bitset \<Rightarrow> 'b Automaton \<Rightarrow> int list \<Rightarrow> int list \<Rightarrow> nat \<Rightarrow> int list option option" where
  [code]: "singleton_loop B a ints visited s =
     Option.bind (GetNumTransitionsWithState a s) (\<lambda>n.
       let visited = int s # visited in
       if \<not> IsAccept B a s then
         if n = 1 then
           Option.bind (getTransition a s 0 NewTransition) (\<lambda>t.
             if t_Min t = t_Max t \<and> t_Dest t \<in> set visited then
               Option.bind (int_index (t_Dest t)) (\<lambda>d. singleton_loop B a (ints @ [t_Min t]) visited d)
             else Some None)
         else Some None
       else if n = 0 then Some (Some ints)
       else Some None)"

definition GetSingletonAutomaton :: "'b bitset \<Rightarrow> 'b Automaton \<Rightarrow> (go_error + int list option) option" where
  "GetSingletonAutomaton B a =
     (if \<not> a_deterministic a then Some (Inl (Err ''input automaton must be deterministic''))
      else map_option Inr (singleton_loop B a [] [] 0))"

text \<open>\<open>MakeAnyString\<close> (func.go) and \<open>findSinkState\<close> (compiled_automaton.go)\<close>

definition MakeAnyString :: "'b bitset \<Rightarrow> 'b Automaton option" where
  "MakeAnyString B = do {
     (s, a) \<leftarrow> CreateState (NewAutomaton B);
     let a = SetAccept B a s True;
     (_, a) \<leftarrow> AddTransition a s (int s) 0 255;
     finishState a
   }"

primrec sink_loop :: "'b Automaton \<Rightarrow> nat \<Rightarrow> nat \<Rightarrow> Transition \<Rightarrow> bool option" where
  "sink_loop a s 0 t = Some False"
| "sink_loop a s (Suc n) t = do {
     t \<leftarrow> GetNextTransition a t;
     if t_Dest t = int s \<and> t_Min t = 0 \<and> t_Max t = 255 then Some True else sink_loop a s n t
   }"

primrec findSinkState_loop :: "'b bitset \<Rightarrow> 'b Automaton \<Rightarrow> nat \<Rightarrow> nat \<Rightarrow> int option" where
  "findSinkState_loop B a s 0 = Some (- 1)"
| "findSinkState_loop B a s (Suc n) =
     (if IsAccept B a s then do {
        (c, t) \<leftarrow> InitTransition a s NewTransition;
        sink \<leftarrow> sink_loop a s (nat c) t;
        if sink then Some (int s) else findSinkState_loop B a (s + 1) n
      }
      else findSinkState_loop B a (s + 1) n)"

definition findSinkState :: "'b bitset \<Rightarrow> 'b Automaton \<Rightarrow> int option" where
  "findSinkState B a = findSinkState_loop B a 0 (GetNumStates a)"

subsection \<open>RunAutomaton\<close>

record RunAutomaton =
  r_alphabetSize :: nat
  r_size :: nat
  r_accept :: "bool list"
  r_transitions :: "int list"
  r_points :: "int list"
  r_classmap :: "nat list"

primrec start_points_inner :: "int list \<Rightarrow> int \<Rightarrow> nat \<Rightarrow> int list \<Rightarrow> int list option" where
  "start_points_inner ts k 0 ps = Some ps"
| "start_points_inner ts k (Suc n) ps = do {
     (_, mn, mx) \<leftarrow> read3 ts k;
     start_points_inner ts (k + 3) n (if mx < 1114111 then (mx + 1) # mn # ps else mn # ps)
   }"

primrec start_points_loop :: "'b Automaton \<Rightarrow> nat \<Rightarrow> nat \<Rightarrow> int list \<Rightarrow> int list option" where
  "start_points_loop a s 0 ps = Some ps"
| "start_points_loop a s (Suc n) ps = do {
     off \<leftarrow> slice_get (a_states a) s;
     c \<leftarrow> slice_get (a_states a) (s + 1);
     ps \<leftarrow> start_points_inner (a_transitions a) off (nat c) ps;
     start_points_loop a (s + 2) n ps
   }"

text \<open>The set of points is a map in Go; its keys are sorted at the end.\<close>

definition GetStartPoints :: "'b Automaton \<Rightarrow> int list option" where
  "GetStartPoints a =
     map_option (\<lambda>ps. sort (remdups ps)) (start_points_loop a 0 (a_nextState a div 2) [0])"

primrec run_row_loop :: "'b Automaton \<Rightarrow> int list \<Rightarrow> nat \<Rightarrow> nat \<Rightarrow> nat \<Rightarrow> Transition \<Rightarrow> int list \<Rightarrow> int list option" where
  "run_row_loop a points n c 0 t tr = Some tr"
| "run_row_loop a points n c (Suc k) t tr = do {
     p \<leftarrow> slice_get points c;
     (dest, t) \<leftarrow> Next a t p;
     tr \<leftarrow> slice_set tr (n * length points + c) dest;
     run_row_loop a points n (c + 1) k t tr
   }"

primrec run_table_loop ::
  "'b bitset \<Rightarrow> 'b Automaton \<Rightarrow> int list \<Rightarrow> nat \<Rightarrow> nat \<Rightarrow> Transition \<Rightarrow> bool list \<Rightarrow> int list \<Rightarrow> (bool list \<times> int list) option" where
  "run_table_loop B a points n 0 t acc tr = Some (acc, tr)"
| "run_table_loop B a points n (Suc k) t acc tr = do {
     acc \<leftarrow> slice_set acc n (IsAccept B a n);
     let t = t\<lparr>t_Source := n, t_TransitionUpto := - 1\<rparr>;
     tr \<leftarrow> run_row_loop a points n 0 (length points) t tr;
     run_table_loop B a points (n + 1) k t acc tr
   }"

primrec classmap_loop :: "int list \<Rightarrow> nat \<Rightarrow> nat \<Rightarrow> nat \<Rightarrow> nat list \<Rightarrow> nat list option" where
  "classmap_loop points i j 0 cm = Some cm"
| "classmap_loop points i j (Suc k) cm = do {
     let i = (if i + 1 < length points \<and> int j = points ! (i + 1) then i + 1 else i);
     cm \<leftarrow> slice_set cm j i;
     classmap_loop points i (j + 1) k cm
   }"

text \<open>
  The tables are computed from \<open>a\<close>, not from the automaton that \<open>DeterminizeAutomaton\<close> returns. The
  transition that is reused keeps what the row before left in it, but \<open>Next\<close> reads its source only.
\<close>

definition NewRunAutomatonV1 :: "'b bitset \<Rightarrow> 'b Automaton \<Rightarrow> nat \<Rightarrow> RunAutomaton option" where
  "NewRunAutomatonV1 B a alphabetSize = do {
     let len = max 1 (GetNumStates a);
     points \<leftarrow> GetStartPoints a;
     (acc, tr) \<leftarrow> run_table_loop B a points 0 len NewTransition
       (replicate len False) (replicate (len * length points) (- 1));
     cm \<leftarrow> classmap_loop points 0 0 (min 256 alphabetSize) (replicate (min 256 alphabetSize) 0);
     Some \<lparr>r_alphabetSize = alphabetSize, r_size = len, r_accept = acc, r_transitions = tr,
       r_points = points, r_classmap = cm\<rparr>
   }"

function char_class_loop :: "int list \<Rightarrow> int \<Rightarrow> nat \<Rightarrow> nat \<Rightarrow> nat" where
  "char_class_loop points c lo hi =
     (if 1 < hi - lo then
        let d = (lo + hi) div 2 in
        if points ! d > c then char_class_loop points c lo d
        else if points ! d < c then char_class_loop points c d hi
        else d
      else lo)"
  by pat_completeness auto
termination
  by (relation "measure (\<lambda>(points, c, lo, hi). hi - lo)") auto

declare char_class_loop.simps [simp del]

definition GetCharClass :: "RunAutomaton \<Rightarrow> int \<Rightarrow> nat" where
  "GetCharClass r c = char_class_loop (r_points r) c 0 (length (r_points r))"

definition Run_Step :: "RunAutomaton \<Rightarrow> nat \<Rightarrow> nat \<Rightarrow> int option" where
  "Run_Step r state c =
     (if length (r_classmap r) \<le> c then
        slice_get (r_transitions r) (state * length (r_points r) + GetCharClass r (int c))
      else do {
        k \<leftarrow> slice_get (r_classmap r) c;
        slice_get (r_transitions r) (state * length (r_points r) + k)
      })"

text \<open>\<open>ByteRunAutomaton.Run\<close> over an automaton of bytes\<close>

definition NewByteRunAutomaton :: "'b bitset \<Rightarrow> 'b Automaton \<Rightarrow> RunAutomaton option" where
  "NewByteRunAutomaton B a = NewRunAutomatonV1 B a 256"

primrec byte_run_loop :: "RunAutomaton \<Rightarrow> nat \<Rightarrow> u8 list \<Rightarrow> bool option" where
  "byte_run_loop r p [] = slice_get (r_accept r) p"
| "byte_run_loop r p (b # s) = do {
     q \<leftarrow> Run_Step r p (unat b);
     if q = - 1 then Some False else Option.bind (int_index q) (\<lambda>q. byte_run_loop r q s)
   }"

definition ByteRun_Run :: "RunAutomaton \<Rightarrow> u8 list \<Rightarrow> bool option" where
  "ByteRun_Run r s = byte_run_loop r 0 s"

subsection \<open>Builder\<close>

record 'b Builder =
  b_nextState :: nat
  b_isAccept :: 'b
  b_transitions :: "int list"
  b_nextTransition :: nat

definition NewBuilder :: "'b bitset \<Rightarrow> 'b Builder" where
  "NewBuilder B = \<lparr>b_nextState = 0, b_isAccept = bs_new B 16, b_transitions = replicate (4 * 16) 0, b_nextTransition = 0\<rparr>"

definition Builder_CreateState :: "'b Builder \<Rightarrow> nat \<times> 'b Builder" where
  "Builder_CreateState b = (b_nextState b, b\<lparr>b_nextState := b_nextState b + 1\<rparr>)"

definition Builder_SetAccept :: "'b bitset \<Rightarrow> 'b Builder \<Rightarrow> nat \<Rightarrow> bool \<Rightarrow> 'b Builder" where
  "Builder_SetAccept B b state accept = b\<lparr>b_isAccept := bs_set_to B (b_isAccept b) state accept\<rparr>"

definition Builder_IsAccept :: "'b bitset \<Rightarrow> 'b Builder \<Rightarrow> nat \<Rightarrow> bool" where
  "Builder_IsAccept B b state = bs_test B (b_isAccept b) state"

primrec copy_states_loop :: "'b bitset \<Rightarrow> 'b Automaton \<Rightarrow> nat \<Rightarrow> nat \<Rightarrow> 'b Builder \<Rightarrow> 'b Builder" where
  "copy_states_loop B other s 0 b = b"
| "copy_states_loop B other s (Suc n) b =
     (let (newState, b) = Builder_CreateState b in
      copy_states_loop B other (s + 1) n (Builder_SetAccept B b newState (IsAccept B other s)))"

definition Builder_CopyStates :: "'b bitset \<Rightarrow> 'b Builder \<Rightarrow> 'b Automaton \<Rightarrow> 'b Builder" where
  "Builder_CopyStates B b other = copy_states_loop B other 0 (GetNumStates other) b"

definition Builder_AddTransition :: "'b Builder \<Rightarrow> int \<Rightarrow> int \<Rightarrow> int \<Rightarrow> int \<Rightarrow> 'b Builder option" where
  "Builder_AddTransition b source dest mn mx = do {
     let ts = (if length (b_transitions b) < b_nextTransition b + 4
       then b_transitions b @ replicate 4 0 else b_transitions b);
     ts \<leftarrow> slice_set ts (b_nextTransition b) source;
     ts \<leftarrow> slice_set ts (b_nextTransition b + 1) dest;
     ts \<leftarrow> slice_set ts (b_nextTransition b + 2) mn;
     ts \<leftarrow> slice_set ts (b_nextTransition b + 3) mx;
     Some (b\<lparr>b_transitions := ts, b_nextTransition := b_nextTransition b + 4\<rparr>)
   }"

definition quads :: "int list \<Rightarrow> nat \<Rightarrow> (int \<times> int \<times> int \<times> int) list" where
  "quads ts n = map (\<lambda>i. (ts ! (4 * i), ts ! (4 * i + 1), ts ! (4 * i + 2), ts ! (4 * i + 3))) [0..<n]"

definition builder_sort :: "int list \<Rightarrow> nat \<Rightarrow> int list option" where
  "builder_sort ts n =
     (if 4 * n \<le> length ts
      then Some (write_block ts 0 (concat (map (\<lambda>(s, d, mn, mx). [s, d, mn, mx]) (sort (quads ts n))))) else None)"

primrec builder_states_loop :: "'b bitset \<Rightarrow> 'b Builder \<Rightarrow> nat \<Rightarrow> nat \<Rightarrow> 'b Automaton \<Rightarrow> 'b Automaton option" where
  "builder_states_loop B b state 0 a = Some a"
| "builder_states_loop B b state (Suc n) a = do {
     (_, a) \<leftarrow> CreateState a;
     builder_states_loop B b (state + 1) n (SetAccept B a state (Builder_IsAccept B b state))
   }"

text \<open>The errors of \<open>AddTransition\<close> are dropped.\<close>

primrec builder_transitions_loop :: "int list \<Rightarrow> nat \<Rightarrow> nat \<Rightarrow> 'b Automaton \<Rightarrow> 'b Automaton option" where
  "builder_transitions_loop ts up 0 a = Some a"
| "builder_transitions_loop ts up (Suc n) a = do {
     s \<leftarrow> slice_get ts up;
     s \<leftarrow> int_index s;
     d \<leftarrow> slice_get ts (up + 1);
     mn \<leftarrow> slice_get ts (up + 2);
     mx \<leftarrow> slice_get ts (up + 3);
     (_, a) \<leftarrow> AddTransition a s d mn mx;
     builder_transitions_loop ts (up + 4) n a
   }"

definition Builder_Finish :: "'b bitset \<Rightarrow> 'b Builder \<Rightarrow> 'b Automaton option" where
  "Builder_Finish B b = do {
     let numTransitions = b_nextTransition b div 4;
     a \<leftarrow> builder_states_loop B b 0 (b_nextState b) (NewAutomatonV1 B (b_nextState b) numTransitions);
     ts \<leftarrow> builder_sort (b_transitions b) numTransitions;
     a \<leftarrow> builder_transitions_loop ts 0 numTransitions a;
     finishState a
   }"

end
