(* ===== verification/Automaton_Correct.thy ===== *)
theory Automaton_Correct
  imports Automaton
begin

text \<open>
  Correctness of the automaton's operations: the laws of a bit set (locale \<open>bitset_laws\<close>), the
  language of an automaton (\<open>accepts_from\<close>), the binary search of \<open>Step\<close>, the breadth-first search
  of \<open>IsEmptyAutomaton\<close> and the tables of \<open>RunAutomaton\<close>.
\<close>

subsection \<open>The laws of a bit set\<close>

locale bitset_laws =
  fixes B :: "'b bitset"
  assumes test_new: "\<not> bs_test B (bs_new B n) i"
    and test_set_to: "bs_test B (bs_set_to B b i v) j = (if j = i then v else bs_test B b j)"
    and next_set: "bs_next_set B b i = (if \<exists>j. i \<le> j \<and> bs_test B b j
      then Some (LEAST j. i \<le> j \<and> bs_test B b j) else None)"
begin

lemma IsAccept_SetAccept [simp]: "IsAccept B (SetAccept B a s v) t = (if t = s then v else IsAccept B a t)"
  by (simp add: IsAccept_def SetAccept_def test_set_to)

end

text \<open>A bit set that computes: the list of the members.\<close>

definition list_bitset :: "nat list bitset" where
  "list_bitset = \<lparr>bs_new = \<lambda>n. [], bs_set_to = \<lambda>b i v. if v then i # b else removeAll i b,
     bs_test = \<lambda>b i. i \<in> set b,
     bs_next_set = \<lambda>b i. find (\<lambda>j. j \<in> set b) [i..<Suc (sum_list b)]\<rparr>"

lemma find_upt_least:
  assumes "\<And>j. P j \<Longrightarrow> j < n"
  shows "find P [i..<n] = (if \<exists>j. i \<le> j \<and> P j then Some (LEAST j. i \<le> j \<and> P j) else None)"
proof (cases "find P [i..<n]")
  case None
  then show ?thesis
    using assms by (auto simp: find_None_iff)
next
  case (Some k)
  then obtain m where m: "m < n - i" "k = i + m" "P k" "\<forall>l < m. \<not> P (i + l)"
    by (auto simp: find_Some_iff)
  have "(LEAST j. i \<le> j \<and> P j) = k"
  proof (rule Least_equality)
    fix j
    assume j: "i \<le> j \<and> P j"
    show "k \<le> j"
    proof (rule ccontr)
      assume "\<not> k \<le> j"
      then have "j - i < m" "i + (j - i) = j"
        using j m(2) by auto
      then show False
        using m(4) j by metis
    qed
  qed (use m in simp)
  moreover have "\<exists>j\<ge>i. P j"
    using m(2,3) le_add1 by blast
  ultimately show ?thesis
    using Some by simp
qed

interpretation list_bits: bitset_laws list_bitset
proof unfold_locales
  fix b :: "nat list" and i
  have "j \<in> set b \<Longrightarrow> j < Suc (sum_list b)" for j
    using member_le_sum_list [of j b] by (simp add: less_Suc_eq_le)
  then show "bs_next_set list_bitset b i = (if \<exists>j. i \<le> j \<and> bs_test list_bitset b j
      then Some (LEAST j. i \<le> j \<and> bs_test list_bitset b j) else None)"
    using find_upt_least [of "\<lambda>j. j \<in> set b" "Suc (sum_list b)" i] by (simp add: list_bitset_def)
qed (auto simp: list_bitset_def)

subsection \<open>The transitions of a state\<close>

definition trans_of :: "'b Automaton \<Rightarrow> nat \<Rightarrow> (int \<times> int \<times> int) list" where
  "trans_of a s = triples (a_transitions a) (nat (a_states a ! (2 * s))) (nat (a_states a ! (2 * s + 1)))"

definition covers :: "int \<Rightarrow> int \<times> int \<times> int \<Rightarrow> bool" where
  "covers c t = (case t of (d, mn, mx) \<Rightarrow> mn \<le> c \<and> c \<le> mx)"

definition good_transition :: "nat \<Rightarrow> int \<times> int \<times> int \<Rightarrow> bool" where
  "good_transition n t = (case t of (d, mn, mx) \<Rightarrow> 0 \<le> d \<and> d < int n \<and> 0 \<le> mn \<and> mn \<le> mx)"

definition aut_wf :: "'b Automaton \<Rightarrow> bool" where
  "aut_wf a \<longleftrightarrow> even (a_nextState a) \<and> a_nextState a \<le> length (a_states a) \<and>
     (\<forall>s < GetNumStates a. 0 \<le> a_states a ! (2 * s + 1) \<and>
        (0 < a_states a ! (2 * s + 1) \<longrightarrow> 0 \<le> a_states a ! (2 * s) \<and>
          a_states a ! (2 * s) + 3 * a_states a ! (2 * s + 1) \<le> int (length (a_transitions a))) \<and>
        (\<forall>t \<in> set (trans_of a s). good_transition (GetNumStates a) t))"

text \<open>No state has two transitions for a label, and they are in the order of their labels.\<close>

definition aut_det :: "'b Automaton \<Rightarrow> bool" where
  "aut_det a \<longleftrightarrow> (\<forall>s < GetNumStates a.
     sorted_wrt (\<lambda>(d, mn, mx) (d', mn', mx'). mx < mn') (trans_of a s))"

text \<open>The language of the automaton.\<close>

primrec accepts_from :: "'b bitset \<Rightarrow> 'b Automaton \<Rightarrow> nat \<Rightarrow> int list \<Rightarrow> bool" where
  "accepts_from B a s [] = IsAccept B a s"
| "accepts_from B a s (c # w) = (\<exists>t \<in> set (trans_of a s). covers c t \<and> accepts_from B a (nat (fst t)) w)"

lemma aut_wf_state:
  assumes "aut_wf a" and "s < GetNumStates a"
  shows "2 * s + 1 < length (a_states a)" "0 \<le> a_states a ! (2 * s + 1)"
    "\<forall>t \<in> set (trans_of a s). good_transition (GetNumStates a) t"
    "length (trans_of a s) = nat (a_states a ! (2 * s + 1))"
    "0 < a_states a ! (2 * s + 1) \<Longrightarrow> 0 \<le> a_states a ! (2 * s) \<and>
      nat (a_states a ! (2 * s)) + 3 * length (trans_of a s) \<le> length (a_transitions a)"
proof -
  have "2 * s + 1 < a_nextState a"
    using assms by (auto simp: aut_wf_def GetNumStates_def)
  then show "2 * s + 1 < length (a_states a)"
    using assms(1) by (simp add: aut_wf_def)
  show "0 \<le> a_states a ! (2 * s + 1)" "\<forall>t \<in> set (trans_of a s). good_transition (GetNumStates a) t"
    using assms by (auto simp: aut_wf_def)
  show l: "length (trans_of a s) = nat (a_states a ! (2 * s + 1))"
    by (simp add: trans_of_def triples_def)
  assume "0 < a_states a ! (2 * s + 1)"
  then have "0 \<le> a_states a ! (2 * s)"
    "a_states a ! (2 * s) + 3 * a_states a ! (2 * s + 1) \<le> int (length (a_transitions a))"
    using assms by (auto simp: aut_wf_def)
  then show "0 \<le> a_states a ! (2 * s) \<and>
      nat (a_states a ! (2 * s)) + 3 * length (trans_of a s) \<le> length (a_transitions a)"
    unfolding l using \<open>0 < a_states a ! (2 * s + 1)\<close> by (intro conjI; linarith)
qed

lemma read3_eq: "0 \<le> k \<Longrightarrow> nat k + 2 < length ts \<Longrightarrow>
    read3 ts k = Some (ts ! nat k, ts ! (nat k + 1), ts ! (nat k + 2))"
  by (simp add: read3_def int_index_def slice_get_in)

lemma nth_triples: "i < n \<Longrightarrow> triples ts off n ! i =
    (ts ! (off + 3 * i), ts ! (off + 3 * i + 1), ts ! (off + 3 * i + 2))"
  by (simp add: triples_def)

lemma read3_triples:
  assumes "off + 3 * n \<le> length ts" and "i < n"
  shows "read3 ts (int off + 3 * int i) = Some (triples ts off n ! i)"
proof -
  have "nat (int off + 3 * int i) = off + 3 * i"
    by simp
  then show ?thesis
    using assms by (subst read3_eq) (auto simp: nth_triples)
qed

subsection \<open>Step\<close>

lemma next_loop_empty: "high < low \<Longrightarrow> next_loop ts first c low high = Some (Inl low)"
  by (subst next_loop.simps) simp

lemma next_loop_correct:
  assumes "sorted_wrt (\<lambda>(d, mn, mx) (d', mn', mx'). mx < mn') (triples ts off n)"
    and "\<forall>(d, mn, mx) \<in> set (triples ts off n). mn \<le> mx"
    and "off + 3 * n \<le> length ts" and "0 \<le> low" and "high < int n"
  shows "\<exists>r. next_loop ts (int off) label low high = Some r \<and>
    (case r of
      Inr (d, mn, mx, mid) \<Rightarrow> 0 \<le> mid \<and> mid < int n \<and> triples ts off n ! nat mid = (d, mn, mx) \<and> mn \<le> label \<and> label \<le> mx
    | Inl _ \<Rightarrow> \<forall>i. low \<le> int i \<and> int i \<le> high \<longrightarrow> \<not> covers label (triples ts off n ! i))"
  using assms(4,5)
proof (induction "nat (high - low + 1)" arbitrary: low high rule: less_induct)
  case less
  let ?L = "triples ts off n" and ?m = "(low + high) div 2"
  have len: "length ?L = n"
    by (simp add: triples_def)
  show ?case
  proof (cases "low \<le> high")
    case False
    then show ?thesis
      by (subst next_loop.simps) auto
  next
    case True
    obtain d mn mx where t: "?L ! nat ?m = (d, mn, mx)"
      using prod_cases3 by blast
    have m: "low \<le> ?m" "?m \<le> high" "0 \<le> ?m" "nat ?m < n"
      using True less.prems by auto
    have r: "ts ! nat (int off + 3 * ?m) = d" "ts ! nat (int off + 3 * ?m + 1) = mn" "ts ! nat (int off + 3 * ?m + 2) = mx"
      "nat (int off + 3 * ?m + 2) < length ts" "0 \<le> int off + 3 * ?m"
    proof -
      have k: "nat (int off + 3 * ?m) = off + 3 * nat ?m" "nat (int off + 3 * ?m + 1) = off + 3 * nat ?m + 1"
        "nat (int off + 3 * ?m + 2) = off + 3 * nat ?m + 2"
        using m(3) by linarith+
      show "ts ! nat (int off + 3 * ?m) = d" "ts ! nat (int off + 3 * ?m + 1) = mn" "ts ! nat (int off + 3 * ?m + 2) = mx"
        using t nth_triples [OF m(4), of ts off] unfolding k by simp_all
      show "nat (int off + 3 * ?m + 2) < length ts"
        unfolding k using m(4) assms(3) by simp
      show "0 \<le> int off + 3 * ?m"
        using m(3) by simp
    qed
    have step: "next_loop ts (int off) label low high =
        (if mn > label then next_loop ts (int off) label low (?m - 1)
         else if mx < label then next_loop ts (int off) label (?m + 1) high
         else Some (Inr (d, mn, mx, ?m)))"
    proof -
      have i: "int_index (int off + 3 * ?m) = Some (nat (int off + 3 * ?m))"
        "int_index (int off + 3 * ?m + 1) = Some (nat (int off + 3 * ?m + 1))"
        "int_index (int off + 3 * ?m + 2) = Some (nat (int off + 3 * ?m + 2))"
        using r(5) by (intro int_index_nonneg, linarith)+
      have g: "slice_get ts (nat (int off + 3 * ?m)) = Some d"
        "slice_get ts (nat (int off + 3 * ?m + 1)) = Some mn"
        "slice_get ts (nat (int off + 3 * ?m + 2)) = Some mx"
        unfolding slice_get_Some_iff using r(1-3) r(4) by linarith+
      show ?thesis
        unfolding next_loop.simps [of ts "int off" label low high] Let_def i g bind.bind_lunit
        using True by simp
    qed
    have before: "?L ! i = (d', mn', mx') \<Longrightarrow> i < nat ?m \<Longrightarrow> mx' < mn" for i d' mn' mx'
      using sorted_wrt_nth_less [OF assms(1), of i "nat ?m"] m(4) len t by simp
    have after: "?L ! i = (d', mn', mx') \<Longrightarrow> nat ?m < i \<Longrightarrow> i < n \<Longrightarrow> mx < mn'" for i d' mn' mx'
      using sorted_wrt_nth_less [OF assms(1), of "nat ?m" i] len t by simp
    have nonempty: "mn \<le> mx"
      using assms(2) t m(4) len by (metis (mono_tags, lifting) case_prodD nth_mem)
    consider "label < mn" | "mn \<le> label" "mx < label" | "mn \<le> label" "label \<le> mx"
      by linarith
    then show ?thesis
    proof cases
      case 1
      obtain r where R: "next_loop ts (int off) label low (?m - 1) = Some r"
        "case r of Inr (d, mn, mx, mid) \<Rightarrow> 0 \<le> mid \<and> mid < int n \<and> ?L ! nat mid = (d, mn, mx) \<and> mn \<le> label \<and> label \<le> mx
          | Inl _ \<Rightarrow> \<forall>i. low \<le> int i \<and> int i \<le> ?m - 1 \<longrightarrow> \<not> covers label (?L ! i)"
        using less.hyps [of "?m - 1" low] True m less.prems by auto
      have "\<not> covers label (?L ! i)" if "?m \<le> int i" "int i \<le> high" for i
      proof (cases "i = nat ?m")
        case True
        then show ?thesis
          using 1 t by (simp add: covers_def)
      next
        case False
        then have "nat ?m < i" "i < n"
          using that less.prems(2) m(3) by linarith+
        then show ?thesis
          using after [of i] 1 nonempty by (cases "?L ! i") (auto simp: covers_def)
      qed
      then have "low \<le> int i \<and> int i \<le> high \<longrightarrow> \<not> covers label (?L ! i)"
        if "\<forall>i. low \<le> int i \<and> int i \<le> ?m - 1 \<longrightarrow> \<not> covers label (?L ! i)" for i
        using that by (cases "?m \<le> int i") simp_all
      then show ?thesis
        using R(2) 1 R(1) unfolding step by (intro exI [of _ r]) (cases r; simp)
    next
      case 2
      obtain r where R: "next_loop ts (int off) label (?m + 1) high = Some r"
        "case r of Inr (d, mn, mx, mid) \<Rightarrow> 0 \<le> mid \<and> mid < int n \<and> ?L ! nat mid = (d, mn, mx) \<and> mn \<le> label \<and> label \<le> mx
          | Inl _ \<Rightarrow> \<forall>i. ?m + 1 \<le> int i \<and> int i \<le> high \<longrightarrow> \<not> covers label (?L ! i)"
        using less.hyps [of high "?m + 1"] True m less.prems by auto
      have "\<not> covers label (?L ! i)" if "low \<le> int i" "int i \<le> ?m" for i
      proof (cases "i = nat ?m")
        case True
        then show ?thesis
          using 2 t by (simp add: covers_def)
      next
        case False
        then have "i < nat ?m"
          using that m(3) by linarith
        then show ?thesis
          using before [of i] 2 nonempty by (cases "?L ! i") (auto simp: covers_def)
      qed
      then have "low \<le> int i \<and> int i \<le> high \<longrightarrow> \<not> covers label (?L ! i)"
        if "\<forall>i. ?m + 1 \<le> int i \<and> int i \<le> high \<longrightarrow> \<not> covers label (?L ! i)" for i
        using that by (cases "int i \<le> ?m") simp_all
      then show ?thesis
        using R(2) 2 R(1) unfolding step by (intro exI [of _ r]) (cases r; simp)
    next
      case 3
      then show ?thesis
        using step t m by simp
    qed
  qed
qed

text \<open>In a deterministic automaton at most one transition covers a label.\<close>

lemma covers_unique:
  assumes "sorted_wrt (\<lambda>(d, mn, mx) (d', mn', mx'). mx < mn') L" and "\<forall>(d, mn, mx) \<in> set L. mn \<le> mx"
    and "t \<in> set L" "t' \<in> set L" and "covers c t" "covers c t'"
  shows "t = t'"
  using assms
proof (induction L)
  case (Cons x L)
  obtain d mn mx where x: "x = (d, mn, mx)"
    by (cases x)
  have later: "\<not> covers c u" if "u \<in> set L" "covers c x" for u
  proof (cases u)
    case (fields d' mn' mx')
    then have "mx < mn'"
      using Cons.prems(1) that(1) x by auto
    then show ?thesis
      using that(2) fields x by (simp add: covers_def)
  qed
  show ?case
    using Cons later by auto
qed simp

definition step_to :: "'b Automaton \<Rightarrow> nat \<Rightarrow> int \<Rightarrow> int" where
  "step_to a s c = (case find (covers c) (trans_of a s) of None \<Rightarrow> - 1 | Some (d, _, _) \<Rightarrow> d)"

lemma automaton_next_correct:
  assumes "aut_wf a" and "aut_det a" and "s < GetNumStates a"
  shows "\<exists>t'. automaton_next a s 0 c t = Some (step_to a s c, t') \<and> (t' = None \<longleftrightarrow> t = None)"
proof -
  note w = aut_wf_state [OF assms(1,3)]
  define n where "n = nat (a_states a ! (2 * s + 1))"
  define off where "off = nat (a_states a ! (2 * s))"
  let ?L = "trans_of a s"
  have L: "?L = triples (a_transitions a) off n" "length ?L = n"
    using w(4) by (simp_all add: trans_of_def off_def n_def)
  have srt: "sorted_wrt (\<lambda>(d, mn, mx) (d', mn', mx'). mx < mn') ?L"
    using assms(2,3) by (simp add: aut_det_def)
  have ne: "\<forall>(d, mn, mx) \<in> set ?L. mn \<le> mx"
    using w(3) by (auto simp: good_transition_def)
  have st: "slice_get (a_states a) (2 * s) = Some (a_states a ! (2 * s))"
    "slice_get (a_states a) (2 * s + 1) = Some (int n)"
    using w(1,2) by (simp_all add: n_def)
  show ?thesis
  proof (cases "n = 0")
    case True
    then have "?L = []"
      using L by simp
    then show ?thesis
      using st True by (simp add: automaton_next_def next_loop_empty step_to_def slice_get_in)
  next
    case False
    then have p: "0 < a_states a ! (2 * s + 1)"
      by (simp add: n_def)
    have o: "a_states a ! (2 * s) = int off" "off + 3 * n \<le> length (a_transitions a)"
      using w(5) [OF p] L(2) by (simp_all add: off_def)
    obtain r where r: "next_loop (a_transitions a) (int off) c 0 (int n - 1) = Some r"
      "case r of Inr (d, mn, mx, mid) \<Rightarrow> 0 \<le> mid \<and> mid < int n \<and> ?L ! nat mid = (d, mn, mx) \<and> mn \<le> c \<and> c \<le> mx
        | Inl _ \<Rightarrow> \<forall>i. 0 \<le> int i \<and> int i \<le> int n - 1 \<longrightarrow> \<not> covers c (?L ! i)"
      using next_loop_correct [of "a_transitions a" off n 0 "int n - 1" c] srt ne o(2) unfolding L(1) by auto
    show ?thesis
    proof (cases r)
      case (Inl low)
      then have "find (covers c) ?L = None"
        using r(2) L(2) by (auto simp: find_None_iff in_set_conv_nth)
      then show ?thesis
        using st o(1) r(1) Inl by (simp add: automaton_next_def step_to_def slice_get_in)
    next
      case (Inr q)
      then obtain d mn mx mid where q: "r = Inr (d, mn, mx, mid)" "0 \<le> mid" "mid < int n" "?L ! nat mid = (d, mn, mx)"
        "covers c (d, mn, mx)"
        using r(2) by (cases q) (auto simp: covers_def)
      then have mem: "(d, mn, mx) \<in> set ?L"
        using L(2) by (metis nat_less_iff nth_mem)
      then obtain t' where t': "find (covers c) ?L = Some t'" "t' \<in> set ?L" "covers c t'"
        using q(5) by (cases "find (covers c) ?L") (auto simp: find_None_iff find_Some_iff)
      then have "t' = (d, mn, mx)"
        using covers_unique [OF srt ne] mem q(5) by blast
      then have "step_to a s c = d"
        using t'(1) by (simp add: step_to_def)
      then show ?thesis
        using st o(1) r(1) q(1) by (simp add: automaton_next_def slice_get_in)
    qed
  qed
qed

lemma Step_correct:
  "aut_wf a \<Longrightarrow> aut_det a \<Longrightarrow> s < GetNumStates a \<Longrightarrow> Step a s c = Some (step_to a s c)"
  using automaton_next_correct [of a s c None] by (auto simp: Step_def)

lemma Next_correct:
  "aut_wf a \<Longrightarrow> aut_det a \<Longrightarrow> t_Source t < GetNumStates a \<Longrightarrow>
    \<exists>t'. Next a t c = Some (step_to a (t_Source t) c, t')"
  using automaton_next_correct [of a "t_Source t" c "Some t"] by (auto simp: Next_def)

lemma step_to_cases:
  assumes "aut_wf a" and "aut_det a" and "s < GetNumStates a"
  shows "step_to a s c = - 1 \<and> (\<forall>t \<in> set (trans_of a s). \<not> covers c t) \<or>
    (\<exists>d mn mx. (d, mn, mx) \<in> set (trans_of a s) \<and> covers c (d, mn, mx) \<and> step_to a s c = d \<and>
      0 \<le> d \<and> nat d < GetNumStates a \<and> (\<forall>t \<in> set (trans_of a s). covers c t \<longrightarrow> t = (d, mn, mx)))"
proof (cases "find (covers c) (trans_of a s)")
  case None
  have "\<forall>t \<in> set (trans_of a s). \<not> covers c t"
    using None by (auto simp: find_None_iff)
  moreover from None have "step_to a s c = - 1"
    by (simp add: step_to_def)
  ultimately show ?thesis
    by blast
next
  case (Some t)
  obtain d mn mx where t: "t = (d, mn, mx)"
    by (cases t)
  have m: "t \<in> set (trans_of a s)" "covers c t"
    using Some by (auto simp: find_Some_iff)
  have srt: "sorted_wrt (\<lambda>(d, mn, mx) (d', mn', mx'). mx < mn') (trans_of a s)"
    using assms(2,3) by (simp add: aut_det_def)
  have g: "\<forall>t \<in> set (trans_of a s). good_transition (GetNumStates a) t"
    using aut_wf_state(3) [OF assms(1,3)] .
  then have ne: "\<forall>(d, mn, mx) \<in> set (trans_of a s). mn \<le> mx"
    by (auto simp: good_transition_def)
  have "\<forall>t' \<in> set (trans_of a s). covers c t' \<longrightarrow> t' = t"
    using covers_unique [OF srt ne] m by blast
  moreover have "0 \<le> d \<and> nat d < GetNumStates a"
    using g m(1) t by (auto simp: good_transition_def)
  moreover have "step_to a s c = d"
    using Some t by (simp add: step_to_def)
  ultimately show ?thesis
    using m unfolding t by blast
qed


subsection \<open>Emptiness\<close>

definition succs :: "'b Automaton \<Rightarrow> nat \<Rightarrow> nat set" where
  "succs a s = (\<lambda>t. nat (fst t)) ` set (trans_of a s)"

inductive reaches :: "'b Automaton \<Rightarrow> nat \<Rightarrow> nat \<Rightarrow> bool" for a where
  refl: "reaches a s s"
| step: "t \<in> succs a s \<Longrightarrow> reaches a t u \<Longrightarrow> reaches a s u"

lemma reaches_trans: "reaches a s t \<Longrightarrow> reaches a t u \<Longrightarrow> reaches a s u"
  by (induction rule: reaches.induct) (auto intro: reaches.step)

lemma reaches_step: "reaches a s t \<Longrightarrow> u \<in> succs a t \<Longrightarrow> reaches a s u"
  using reaches_trans reaches.intros by metis

lemma accepts_reaches: "accepts_from B a s w \<Longrightarrow> \<exists>u. reaches a s u \<and> IsAccept B a u"
proof (induction w arbitrary: s)
  case Nil
  then show ?case
    using reaches.refl by auto
next
  case (Cons c w)
  then obtain t where "t \<in> set (trans_of a s)" "accepts_from B a (nat (fst t)) w"
    by auto
  then show ?case
    using Cons.IH reaches.step unfolding succs_def by blast
qed

lemma succs_less: "aut_wf a \<Longrightarrow> s < GetNumStates a \<Longrightarrow> t \<in> succs a s \<Longrightarrow> t < GetNumStates a"
  using aut_wf_state(3) [of a s] by (auto simp: succs_def good_transition_def)

lemma reaches_accepts:
  assumes "aut_wf a" and "reaches a s u" and "s < GetNumStates a" and "IsAccept B a u"
  shows "\<exists>w. accepts_from B a s w"
  using assms(2-)
proof (induction rule: reaches.induct)
  case (refl s)
  then show ?case
    by (intro exI [of _ "[]"]) simp
next
  case (step t s u)
  obtain x where x: "x \<in> set (trans_of a s)" "t = nat (fst x)"
    using step.hyps(1) by (auto simp: succs_def)
  obtain d mn mx where d: "x = (d, mn, mx)"
    by (cases x)
  have "covers mn x"
    using aut_wf_state(3) [OF assms(1) step.prems(1)] x(1) d by (auto simp: good_transition_def covers_def)
  moreover obtain w where "accepts_from B a t w"
    using step.IH succs_less [OF assms(1) step.prems(1) step.hyps(1)] step.prems(2) by blast
  ultimately show ?case
    using x by (intro exI [of _ "mn # w"]) auto
qed

context bitset_laws
begin

text \<open>The states of a bit set.\<close>

definition members :: "'b \<Rightarrow> nat set" where
  "members b = {i. bs_test B b i}"

lemma members_simps [simp]:
  "members (bs_new B n) = {}" "members (bs_set_to B b i True) = insert i (members b)"
  by (auto simp: members_def test_new test_set_to)

lemma visit_loop_correct:
  assumes "off + 3 * n \<le> length (a_transitions a)"
    and "\<forall>i < n. 0 \<le> a_transitions a ! (off + 3 * i)" and "t_TransitionUpto t = int off"
    and "set wl \<subseteq> members seen" and "distinct wl"
  shows "\<exists>wl' seen'. visit_loop B a n t wl seen = Some (wl @ wl', seen') \<and>
    members seen' = members seen \<union> (\<lambda>t. nat (fst t)) ` set (triples (a_transitions a) off n) \<and>
    set wl' = members seen' - members seen \<and> distinct wl'"
  using assms
proof (induction n arbitrary: off t wl seen)
  case 0
  then show ?case
    by (simp add: triples_def)
next
  case (Suc n)
  let ?ts = "a_transitions a"
  define d where "d = nat (?ts ! off)"
  define t' where "t' = t\<lparr>t_Dest := ?ts ! off, t_Min := ?ts ! (off + 1), t_Max := ?ts ! (off + 2),
    t_TransitionUpto := t_TransitionUpto t + 3\<rparr>"
  have g: "GetNextTransition a t = Some t'" "int_index (t_Dest t') = Some d" "t_TransitionUpto t' = int (off + 3)"
  proof -
    have "read3 ?ts (t_TransitionUpto t) = Some (?ts ! off, ?ts ! (off + 1), ?ts ! (off + 2))"
      using Suc.prems(1,3) by (subst read3_eq) auto
    then show "GetNextTransition a t = Some t'"
      by (simp add: GetNextTransition_def t'_def)
    have "0 \<le> ?ts ! off"
      using Suc.prems(2) by (metis add.right_neutral mult_0_right zero_less_Suc)
    then show "int_index (t_Dest t') = Some d"
      by (simp add: t'_def d_def int_index_def)
    show "t_TransitionUpto t' = int (off + 3)"
      using Suc.prems(3) by (simp add: t'_def)
  qed
  have tr: "set (triples ?ts off (Suc n)) = insert (?ts ! off, ?ts ! (off + 1), ?ts ! (off + 2)) (set (triples ?ts (off + 3) n))"
    unfolding triples_def upt_conv_Cons [OF zero_less_Suc] map_Suc_upt [symmetric]
    by (simp add: add.assoc add.commute add.left_commute image_image)
  have rest: "off + 3 + 3 * n \<le> length ?ts" "\<forall>i < n. 0 \<le> ?ts ! (off + 3 + 3 * i)"
  proof -
    show "off + 3 + 3 * n \<le> length ?ts"
      using Suc.prems(1) by simp
    show "\<forall>i < n. 0 \<le> ?ts ! (off + 3 + 3 * i)"
    proof (intro allI impI)
      fix i
      assume "i < n"
      then show "0 \<le> ?ts ! (off + 3 + 3 * i)"
        using Suc.prems(2) [rule_format, of "Suc i"] by (simp add: add.assoc)
    qed
  qed
  show ?case
  proof (cases "d \<in> members seen")
    case True
    then have "visit_loop B a (Suc n) t wl seen = visit_loop B a n t' wl seen"
      using g by (simp add: members_def)
    then show ?thesis
      using Suc.IH [OF rest g(3) Suc.prems(4,5)] True tr by (auto simp: d_def insert_absorb)
  next
    case False
    have "visit_loop B a (Suc n) t wl seen = visit_loop B a n t' (wl @ [d]) (bs_set_to B seen d True)"
      using g False by (simp add: members_def)
    moreover obtain wl' seen' where r: "visit_loop B a n t' (wl @ [d]) (bs_set_to B seen d True) = Some ((wl @ [d]) @ wl', seen')"
      "members seen' = members (bs_set_to B seen d True) \<union> (\<lambda>t. nat (fst t)) ` set (triples ?ts (off + 3) n)"
      "set wl' = members seen' - members (bs_set_to B seen d True)" "distinct wl'"
    proof -
      have "set (wl @ [d]) \<subseteq> members (bs_set_to B seen d True)" "distinct (wl @ [d])"
        using Suc.prems(4,5) False by auto
      from Suc.IH [OF rest g(3) this] show ?thesis
        using that by blast
    qed
    ultimately show ?thesis
      using False tr by (intro exI [of _ "d # wl'"] exI [of _ seen']) (auto simp: d_def)
  qed
qed


lemma is_empty_loop_correct:
  assumes wf: "aut_wf a"
    and "set wl \<subseteq> members seen" and "distinct wl" and "members seen \<subseteq> {..<GetNumStates a}"
    and "\<forall>s \<in> members seen. s \<in> set wl \<or> \<not> IsAccept B a s \<and> succs a s \<subseteq> members seen"
  shows "is_empty_loop B a wl seen = Some (\<not> (\<exists>s \<in> members seen. \<exists>u. reaches a s u \<and> IsAccept B a u))"
  using assms(2-)
proof (induction "GetNumStates a - card (members seen) + length wl" arbitrary: wl seen rule: less_induct)
  case less
  show ?case
  proof (cases wl)
    case Nil
    have "reaches a s u \<Longrightarrow> s \<in> members seen \<Longrightarrow> u \<in> members seen" for s u
      by (induction rule: reaches.induct) (use less.prems(4) Nil in auto)
    then show ?thesis
      using less.prems(4) Nil by (subst is_empty_loop.simps) auto
  next
    case (Cons s wl1)
    have s: "s < GetNumStates a" "s \<in> members seen"
      using less.prems(1,3) Cons by auto
    show ?thesis
    proof (cases "IsAccept B a s")
      case True
      then have "\<exists>u. reaches a s u \<and> IsAccept B a u"
        using reaches.refl by blast
      then show ?thesis
        using True s(2) Cons by (subst is_empty_loop.simps) auto
    next
      case False
      note w = aut_wf_state [OF wf s(1)]
      define off where "off = nat (a_states a ! (2 * s))"
      define n where "n = nat (a_states a ! (2 * s + 1))"
      have L: "trans_of a s = triples (a_transitions a) off n" "length (trans_of a s) = n"
        using w(4) by (simp_all add: trans_of_def off_def n_def)
      define t where "t = NewTransition\<lparr>t_Source := s, t_TransitionUpto := a_states a ! (2 * s)\<rparr>"
      have init: "InitTransition a s NewTransition = Some (int n, t)"
        using w(1,2) by (simp add: InitTransition_def GetNumTransitionsWithState_def slice_get_in t_def n_def)
      obtain wl' seen' where v: "visit_loop B a n t wl1 seen = Some (wl1 @ wl', seen')"
        "members seen' = members seen \<union> succs a s" "set wl' = members seen' - members seen" "distinct wl'"
      proof (cases "n = 0")
        case True
        then show ?thesis
          using that [of "[]" seen] L(2) by (simp add: succs_def)
      next
        case nz: False
        then have pos: "0 < a_states a ! (2 * s + 1)"
          by (simp add: n_def)
        have b: "off + 3 * n \<le> length (a_transitions a)" "t_TransitionUpto t = int off"
          using w(5) [OF pos] L(2) by (simp_all add: off_def t_def)
        have nn: "\<forall>i < n. 0 \<le> a_transitions a ! (off + 3 * i)"
        proof (intro allI impI)
          fix i
          assume i: "i < n"
          then have "triples (a_transitions a) off n ! i \<in> set (trans_of a s)"
            using L by simp
          then show "0 \<le> a_transitions a ! (off + 3 * i)"
            using w(3) i by (auto simp: nth_triples good_transition_def)
        qed
        have "set wl1 \<subseteq> members seen" "distinct wl1"
          using less.prems(1,2) Cons by auto
        from visit_loop_correct [OF b(1) nn b(2) this] show ?thesis
          using that unfolding succs_def L(1) by blast
      qed
      have step: "is_empty_loop B a wl seen = is_empty_loop B a (wl1 @ wl') seen'"
        using Cons False init v(1) by (subst is_empty_loop.simps) simp
      have sub: "members seen' \<subseteq> {..<GetNumStates a}"
        using v(2) less.prems(3) succs_less [OF wf s(1)] by auto
      have fin: "finite (members seen)" "finite (members seen')"
        using less.prems(3) sub finite_subset by blast+
      have "card (members seen') = card (members seen) + length wl'"
      proof -
        have "card (set wl') = card (members seen') - card (members seen)"
          using v(2,3) fin by (simp add: card_Diff_subset)
        moreover have "card (members seen) \<le> card (members seen')"
          using v(2) fin(2) by (intro card_mono) auto
        ultimately show ?thesis
          using distinct_card [OF v(4)] by simp
      qed
      moreover have "card (members seen') \<le> GetNumStates a"
        using card_mono [OF _ sub] by simp
      ultimately have "GetNumStates a - card (members seen') + length (wl1 @ wl') < GetNumStates a - card (members seen) + length wl"
        using Cons by simp
      moreover have "set (wl1 @ wl') \<subseteq> members seen'" "distinct (wl1 @ wl')"
        using less.prems(1,2) Cons v(2-4) by auto
      moreover have "\<forall>q \<in> members seen'. q \<in> set (wl1 @ wl') \<or> \<not> IsAccept B a q \<and> succs a q \<subseteq> members seen'"
        using less.prems(4) Cons v(2,3) False by auto
      ultimately have IH: "is_empty_loop B a (wl1 @ wl') seen' =
          Some (\<not> (\<exists>q \<in> members seen'. \<exists>u. reaches a q u \<and> IsAccept B a u))"
        using less.hyps sub by blast
      have "(\<exists>q \<in> members seen'. \<exists>u. reaches a q u \<and> IsAccept B a u) \<longleftrightarrow>
          (\<exists>q \<in> members seen. \<exists>u. reaches a q u \<and> IsAccept B a u)"
        using v(2) s(2) reaches.step by fastforce
      then show ?thesis
        using step IH by simp
    qed
  qed
qed

lemma IsEmptyAutomaton_correct:
  assumes "aut_wf a"
  shows "IsEmptyAutomaton B a = Some (\<not> (\<exists>w. GetNumStates a \<noteq> 0 \<and> accepts_from B a 0 w))"
proof (cases "GetNumStates a = 0")
  case True
  then show ?thesis
    by (simp add: IsEmptyAutomaton_def)
next
  case False
  then have 0: "0 < GetNumStates a"
    by simp
  have lang: "(\<exists>w. accepts_from B a 0 w) \<longleftrightarrow> (\<exists>u. reaches a 0 u \<and> IsAccept B a u)"
    using accepts_reaches reaches_accepts [OF assms _ 0] by blast
  show ?thesis
  proof (cases "IsAccept B a 0")
    case True
    then show ?thesis
      using False lang reaches.refl [of a 0] by (auto simp: IsEmptyAutomaton_def)
  next
    case na: False
    note w = aut_wf_state [OF assms 0]
    have n: "GetNumTransitionsWithState a 0 = Some (int (length (trans_of a 0)))"
      using w(1,2,4) by (simp add: GetNumTransitionsWithState_def slice_get_in)
    show ?thesis
    proof (cases "trans_of a 0 = []")
      case True
      have "reaches a 0 u \<Longrightarrow> u = 0" for u
        by (erule reaches.cases) (use True in \<open>auto simp: succs_def\<close>)
      then show ?thesis
        using False na n True lang by (auto simp: IsEmptyAutomaton_def)
    next
      case ne: False
      have "is_empty_loop B a [0] (bs_set_to B (bs_new B (GetNumStates a)) 0 True) =
          Some (\<not> (\<exists>s \<in> members (bs_set_to B (bs_new B (GetNumStates a)) 0 True). \<exists>u. reaches a s u \<and> IsAccept B a u))"
        using 0 by (intro is_empty_loop_correct [OF assms]) auto
      then show ?thesis
        using False na n ne lang by (simp add: IsEmptyAutomaton_def)
    qed
  qed
qed

end


subsection \<open>The start points\<close>

definition ends_of :: "int \<times> int \<times> int \<Rightarrow> int set" where
  "ends_of t = (case t of (d, mn, mx) \<Rightarrow> if mx < 1114111 then {mn, mx + 1} else {mn})"

lemma start_points_inner_eq:
  assumes "off + 3 * n \<le> length ts"
  shows "\<exists>ps'. start_points_inner ts (int off) n ps = Some ps' \<and>
    set ps' = set ps \<union> (\<Union>t \<in> set (triples ts off n). ends_of t)"
  using assms
proof (induction n arbitrary: off ps)
  case 0
  then show ?case
    by (simp add: triples_def)
next
  case (Suc n)
  have r: "read3 ts (int off) = Some (ts ! off, ts ! (off + 1), ts ! (off + 2))"
    using Suc.prems by (subst read3_eq) auto
  have tr: "triples ts off (Suc n) = (ts ! off, ts ! (off + 1), ts ! (off + 2)) # triples ts (off + 3) n"
    unfolding triples_def upt_conv_Cons [OF zero_less_Suc] map_Suc_upt [symmetric]
    by (simp add: add.assoc add.commute add.left_commute)
  have "off + 3 + 3 * n \<le> length ts"
    using Suc.prems by simp
  from Suc.IH [OF this, of "if ts ! (off + 2) < 1114111 then (ts ! (off + 2) + 1) # ts ! (off + 1) # ps else ts ! (off + 1) # ps"]
  obtain ps' where "start_points_inner ts (int (off + 3)) n
      (if ts ! (off + 2) < 1114111 then (ts ! (off + 2) + 1) # ts ! (off + 1) # ps else ts ! (off + 1) # ps) = Some ps'"
    "set ps' = set (if ts ! (off + 2) < 1114111 then (ts ! (off + 2) + 1) # ts ! (off + 1) # ps else ts ! (off + 1) # ps) \<union>
      (\<Union>t \<in> set (triples ts (off + 3) n). ends_of t)"
    by blast
  then show ?case
    using r tr by (auto simp: ends_of_def add.commute)
qed

lemma start_points_loop_eq:
  assumes "aut_wf a" and "s + n = GetNumStates a"
  shows "\<exists>ps'. start_points_loop a (2 * s) n ps = Some ps' \<and>
    set ps' = set ps \<union> (\<Union>q \<in> {s..<s + n}. \<Union>t \<in> set (trans_of a q). ends_of t)"
  using assms(2)
proof (induction n arbitrary: s ps)
  case (Suc n)
  then have s: "s < GetNumStates a"
    by simp
  note w = aut_wf_state [OF assms(1) s]
  obtain ps1 where ps1: "start_points_inner (a_transitions a) (a_states a ! (2 * s)) (nat (a_states a ! (2 * s + 1))) ps = Some ps1"
    "set ps1 = set ps \<union> (\<Union>t \<in> set (trans_of a s). ends_of t)"
  proof (cases "0 < a_states a ! (2 * s + 1)")
    case True
    then have "a_states a ! (2 * s) = int (nat (a_states a ! (2 * s)))"
      "nat (a_states a ! (2 * s)) + 3 * nat (a_states a ! (2 * s + 1)) \<le> length (a_transitions a)"
      using w(4,5) by auto
    then show ?thesis
      using start_points_inner_eq [of "nat (a_states a ! (2 * s))" "nat (a_states a ! (2 * s + 1))" "a_transitions a" ps] that
      unfolding trans_of_def by auto
  next
    case False
    then show ?thesis
      using that [of ps] w(4) by simp
  qed
  have "Suc s + n = GetNumStates a"
    using Suc.prems by simp
  from Suc.IH [OF this, of ps1] obtain ps2 where ps2: "start_points_loop a (2 * Suc s) n ps1 = Some ps2"
    "set ps2 = set ps1 \<union> (\<Union>q \<in> {Suc s..<Suc s + n}. \<Union>t \<in> set (trans_of a q). ends_of t)"
    by blast
  have "{s..<s + Suc n} = insert s {Suc s..<Suc s + n}"
    by auto
  then show ?case
    using ps1 ps2 w(1) by (simp add: slice_get_in Un_assoc)
qed simp

lemma GetStartPoints_eq:
  assumes "aut_wf a"
  shows "\<exists>ps. GetStartPoints a = Some ps \<and> sorted ps \<and> distinct ps \<and>
    set ps = insert 0 (\<Union>q < GetNumStates a. \<Union>t \<in> set (trans_of a q). ends_of t)"
proof -
  obtain ps where "start_points_loop a 0 (GetNumStates a) [0] = Some ps"
    "set ps = {0} \<union> (\<Union>q \<in> {0..<GetNumStates a}. \<Union>t \<in> set (trans_of a q). ends_of t)"
    using start_points_loop_eq [OF assms, of 0 "GetNumStates a" "[0]"] by auto
  then show ?thesis
    by (auto simp: GetStartPoints_def GetNumStates_def atLeast0LessThan)
qed

subsection \<open>Classes of labels\<close>

definition is_class :: "int list \<Rightarrow> int \<Rightarrow> nat \<Rightarrow> bool" where
  "is_class ps c k \<longleftrightarrow> k < length ps \<and> ps ! k \<le> c \<and> (k + 1 < length ps \<longrightarrow> c < ps ! (k + 1))"

lemma classmap_loop_eq:
  assumes "sorted ps" and "distinct ps" and "is_class ps (int j - 1) i \<or> j = 0 \<and> i = 0 \<and> ps \<noteq> [] \<and> ps ! 0 = 0"
    and "j + n \<le> length cm"
  shows "\<exists>cm'. classmap_loop ps i j n cm = Some cm' \<and> length cm' = length cm \<and>
    (\<forall>l < j. cm' ! l = cm ! l) \<and> (\<forall>l. j \<le> l \<and> l < j + n \<longrightarrow> is_class ps (int l) (cm' ! l))"
  using assms(3-)
proof (induction n arbitrary: i j cm)
  case (Suc n)
  define i' where "i' = (if i + 1 < length ps \<and> int j = ps ! (i + 1) then i + 1 else i)"
  have srt: "sorted_wrt (<) ps"
    using assms(1,2) by (simp add: strict_sorted_iff)
  have cls: "is_class ps (int j) i'"
  proof (cases "i + 1 < length ps \<and> int j = ps ! (i + 1)")
    case True
    then show ?thesis
      using sorted_wrt_nth_less [OF srt, of "i + 1" "i + 2"] by (auto simp: is_class_def i'_def)
  next
    case False
    have *: "is_class ps (int j) i" if "is_class ps (int j - 1) i"
      using that False unfolding is_class_def by force
    moreover have "is_class ps (int j) i" if "j = 0" "i = 0" "ps \<noteq> []" "ps ! 0 = 0"
      using that False sorted_wrt_nth_less [OF srt, of 0 1] unfolding is_class_def by force
    ultimately show ?thesis
      using Suc.prems(1) False by (auto simp: i'_def)
  qed
  then have "is_class ps (int (j + 1) - 1) i' \<or> j + 1 = 0 \<and> i' = 0 \<and> ps \<noteq> [] \<and> ps ! 0 = 0"
    by simp
  moreover have "j + 1 + n \<le> length (cm[j := i'])"
    using Suc.prems(2) by simp
  ultimately obtain cm' where cm': "classmap_loop ps i' (j + 1) n (cm[j := i']) = Some cm'" "length cm' = length cm"
    "\<forall>l < j + 1. cm' ! l = cm[j := i'] ! l" "\<forall>l. j + 1 \<le> l \<and> l < j + 1 + n \<longrightarrow> is_class ps (int l) (cm' ! l)"
    using Suc.IH [of "j + 1" i' "cm[j := i']"] by auto
  have "cm' ! j = i'" "\<forall>l < j. cm' ! l = cm ! l"
    using cm'(3) Suc.prems(2) by auto
  moreover have "is_class ps (int l) (cm' ! l)" if "j \<le> l" "l < j + Suc n" for l
    using that cm'(4) cls \<open>cm' ! j = i'\<close> by (cases "l = j") auto
  moreover have "classmap_loop ps i j (Suc n) cm = Some cm'"
    using cm'(1) Suc.prems(2) unfolding i'_def by (simp add: slice_set_def Let_def)
  ultimately show ?case
    using cm'(2) by blast
qed auto

lemma char_class_loop_eq:
  assumes "sorted ps" and "lo < hi" and "hi \<le> length ps" and "ps ! lo \<le> c"
    and "hi < length ps \<longrightarrow> c < ps ! hi" and "distinct ps"
  shows "is_class ps c (char_class_loop ps c lo hi)"
  using assms(2-5)
proof (induction "hi - lo" arbitrary: lo hi rule: less_induct)
  case less
  have srt: "sorted_wrt (<) ps"
    using assms(1,6) by (simp add: strict_sorted_iff)
  let ?d = "(lo + hi) div 2"
  show ?case
  proof (cases "1 < hi - lo")
    case False
    then have "hi = lo + 1"
      using less.prems(1) by simp
    then show ?thesis
      using False less.prems by (subst char_class_loop.simps) (auto simp: is_class_def)
  next
    case True
    then have d: "lo < ?d" "?d < hi"
      by auto
    consider "c < ps ! ?d" | "ps ! ?d < c" | "ps ! ?d = c"
      by linarith
    then show ?thesis
    proof cases
      case 1
      have "is_class ps c (char_class_loop ps c lo ?d)"
        using less.hyps [of ?d lo] d less.prems 1 by simp
      then show ?thesis
        using True 1 by (subst char_class_loop.simps) (simp add: Let_def)
    next
      case 2
      have "is_class ps c (char_class_loop ps c ?d hi)"
        using less.hyps [of hi ?d] d less.prems 2 by simp
      then show ?thesis
        using True 2 by (subst char_class_loop.simps) (simp add: Let_def)
    next
      case 3
      have "is_class ps c ?d"
        using 3 d less.prems(2) sorted_wrt_nth_less [OF srt, of ?d "?d + 1"] by (auto simp: is_class_def)
      then show ?thesis
        using True 3 by (subst char_class_loop.simps) (simp add: Let_def)
    qed
  qed
qed

text \<open>A label and the start point of its class are covered by the same transitions.\<close>

lemma class_covers:
  assumes "is_class ps c k" and "sorted ps" and "ends_of t \<subseteq> set ps" and "c \<le> 1114111"
  shows "covers (ps ! k) t = covers c t"
proof -
  obtain d mn mx where t: "t = (d, mn, mx)"
    by (cases t)
  have k: "k < length ps" "ps ! k \<le> c"
    using assms(1) by (auto simp: is_class_def)
  have below: "p \<le> ps ! k" if p: "p \<in> set ps" "p \<le> c" for p
  proof -
    obtain i where i: "i < length ps" "p = ps ! i"
      using p(1) by (auto simp: in_set_conv_nth)
    have "i \<le> k"
    proof (rule ccontr)
      assume "\<not> i \<le> k"
      then have "k + 1 \<le> i"
        by simp
      then have "ps ! (k + 1) \<le> ps ! i" "k + 1 < length ps"
        using sorted_nth_mono [OF assms(2), of "k + 1" i] i(1) by auto
      then show False
        using assms(1) p(2) i(2) by (simp add: is_class_def)
    qed
    then show ?thesis
      using sorted_nth_mono [OF assms(2), of i k] k(1) i(2) by simp
  qed
  have 1: "mn \<le> c \<Longrightarrow> mn \<le> ps ! k"
    using below [of mn] assms(3) t by (auto simp: ends_of_def split: if_splits)
  have 2: "ps ! k \<le> mx \<Longrightarrow> c \<le> mx"
  proof (rule ccontr)
    assume m: "ps ! k \<le> mx" "\<not> c \<le> mx"
    then have "mx + 1 \<in> set ps"
      using assms(3,4) t by (auto simp: ends_of_def split: if_splits)
    then show False
      using below [of "mx + 1"] m by simp
  qed
  show ?thesis
    using 1 2 k(2) t by (auto simp: covers_def)
qed

lemma class_step_to:
  assumes "aut_wf a" and "s < GetNumStates a" and "is_class ps c k" and "sorted ps" and "c \<le> 1114111"
    and "(\<Union>q < GetNumStates a. \<Union>t \<in> set (trans_of a q). ends_of t) \<subseteq> set ps"
  shows "step_to a s (ps ! k) = step_to a s c"
proof -
  have "covers (ps ! k) t = covers c t" if "t \<in> set (trans_of a s)" for t
    using class_covers [OF assms(3,4) _ assms(5)] assms(2,6) that by blast
  then have "find (covers (ps ! k)) (trans_of a s) = find (covers c) (trans_of a s)"
    by (intro find_cong) auto
  then show ?thesis
    by (simp add: step_to_def)
qed


subsection \<open>The tables\<close>

lemma Next_source:
  assumes "Next a t c = Some (d, t')"
  shows "t_Source t' = t_Source t"
proof -
  obtain x where x: "automaton_next a (t_Source t) 0 c (Some t) = Some (d, x)" "t' = the x"
    using assms by (auto simp: Next_def bind_eq_Some_conv)
  then obtain r where "(case r of
       Inr (dest, mn, mx, mid) \<Rightarrow>
         Some (dest, map_option (\<lambda>t. t\<lparr>t_Dest := dest, t_Min := mn, t_Max := mx, t_TransitionUpto := mid\<rparr>) (Some t))
     | Inl low \<Rightarrow> Some (- 1, map_option (\<lambda>t. t\<lparr>t_Dest := - 1, t_TransitionUpto := low\<rparr>) (Some t))) = Some (d, x)"
    unfolding automaton_next_def bind_eq_Some_conv by blast
  then show ?thesis
    using x(2) by (cases r) auto
qed

lemma run_row_loop_eq:
  assumes "aut_wf a" and "aut_det a" and "t_Source t = q" and "q < GetNumStates a"
    and "n * length ps + length ps \<le> length tr" and "c + k = length ps"
  shows "\<exists>tr'. run_row_loop a ps n c k t tr = Some tr' \<and> length tr' = length tr \<and>
    (\<forall>i. tr' ! i = (if n * length ps + c \<le> i \<and> i < n * length ps + length ps
       then step_to a q (ps ! (i - n * length ps)) else tr ! i))"
  using assms(3-)
proof (induction k arbitrary: c t tr)
  case 0
  then show ?case
    by auto
next
  case (Suc k)
  obtain t' where t': "Next a t (ps ! c) = Some (step_to a q (ps ! c), t')"
    using Next_correct [OF assms(1,2)] Suc.prems(1,2) by metis
  have src: "t_Source t' = q"
    using Next_source [OF t'] Suc.prems(1) by simp
  let ?tr = "tr[n * length ps + c := step_to a q (ps ! c)]"
  have "n * length ps + length ps \<le> length ?tr" "c + 1 + k = length ps"
    using Suc.prems(3,4) by simp_all
  from Suc.IH [OF src Suc.prems(2) this] obtain tr' where tr': "run_row_loop a ps n (c + 1) k t' ?tr = Some tr'"
    "length tr' = length ?tr"
    "\<forall>i. tr' ! i = (if n * length ps + (c + 1) \<le> i \<and> i < n * length ps + length ps
       then step_to a q (ps ! (i - n * length ps)) else ?tr ! i)"
    by blast
  have "tr' ! i = (if n * length ps + c \<le> i \<and> i < n * length ps + length ps
       then step_to a q (ps ! (i - n * length ps)) else tr ! i)" for i
  proof (cases "i = n * length ps + c")
    case True
    then show ?thesis
      using tr'(3) Suc.prems(3,4) by simp
  next
    case False
    then show ?thesis
      using tr'(3) by auto
  qed
  moreover have "run_row_loop a ps n c (Suc k) t tr = Some tr'"
    using t' tr'(1) Suc.prems(3,4) by (simp add: slice_get_in slice_set_in)
  ultimately show ?case
    using tr'(2) by auto
qed

context bitset_laws
begin

lemma run_table_loop_eq:
  assumes "aut_wf a" and "aut_det a" and "n + k = GetNumStates a" and "length acc = GetNumStates a"
    and "length tr = GetNumStates a * length ps"
  shows "\<exists>acc' tr'. run_table_loop B a ps n k t acc tr = Some (acc', tr') \<and>
    length acc' = length acc \<and> length tr' = length tr \<and>
    (\<forall>q. acc' ! q = (if n \<le> q \<and> q < GetNumStates a then IsAccept B a q else acc ! q)) \<and>
    (\<forall>i < n * length ps. tr' ! i = tr ! i) \<and>
    (\<forall>q c. n \<le> q \<and> q < GetNumStates a \<and> c < length ps \<longrightarrow> tr' ! (q * length ps + c) = step_to a q (ps ! c))"
  using assms(3-)
proof (induction k arbitrary: n t acc tr)
  case 0
  then show ?case
    by auto
next
  case (Suc k)
  let ?acc = "acc[n := IsAccept B a n]" and ?t = "t\<lparr>t_Source := n, t_TransitionUpto := - 1\<rparr>"
  have n: "n < GetNumStates a"
    using Suc.prems(1) by simp
  have "(n + 1) * length ps \<le> GetNumStates a * length ps"
    using n by (intro mult_le_mono1) simp
  then have fit: "n * length ps + length ps \<le> length tr"
    using Suc.prems(3) by simp
  obtain tr1 where tr1: "run_row_loop a ps n 0 (length ps) ?t tr = Some tr1" "length tr1 = length tr"
    "\<forall>i. tr1 ! i = (if n * length ps + 0 \<le> i \<and> i < n * length ps + length ps
       then step_to a n (ps ! (i - n * length ps)) else tr ! i)"
    using run_row_loop_eq [OF assms(1,2), of ?t n n ps tr 0 "length ps"] n fit by auto
  have "Suc n + k = GetNumStates a" "length ?acc = GetNumStates a" "length tr1 = GetNumStates a * length ps"
    using Suc.prems tr1(2) by simp_all
  from Suc.IH [OF this, of ?t] obtain acc2 tr2 where r: "run_table_loop B a ps (Suc n) k ?t ?acc tr1 = Some (acc2, tr2)"
    "length acc2 = length ?acc" "length tr2 = length tr1"
    "\<forall>q. acc2 ! q = (if Suc n \<le> q \<and> q < GetNumStates a then IsAccept B a q else ?acc ! q)"
    "\<forall>i < Suc n * length ps. tr2 ! i = tr1 ! i"
    "\<forall>q c. Suc n \<le> q \<and> q < GetNumStates a \<and> c < length ps \<longrightarrow> tr2 ! (q * length ps + c) = step_to a q (ps ! c)"
    by blast
  have "run_table_loop B a ps n (Suc k) t acc tr = Some (acc2, tr2)"
    using r(1) tr1(1) n Suc.prems(2) by (simp add: slice_set_in Let_def)
  moreover have "acc2 ! q = (if n \<le> q \<and> q < GetNumStates a then IsAccept B a q else acc ! q)" for q
    using r(4) n Suc.prems(2) by (cases "q = n") auto
  moreover have "tr2 ! i = tr ! i" if "i < n * length ps" for i
    using r(5) tr1(3) that by simp
  moreover have "tr2 ! (q * length ps + c) = step_to a q (ps ! c)" if "n \<le> q" "q < GetNumStates a" "c < length ps" for q c
  proof (cases "q = n")
    case True
    then have "q * length ps + c < Suc n * length ps"
      using that(3) by simp
    then show ?thesis
      using r(5) tr1(3) True that(3) by simp
  next
    case False
    then show ?thesis
      using r(6) that by simp
  qed
  ultimately show ?case
    using r(2,3) tr1(2) by (intro exI [of _ acc2] exI [of _ tr2]) simp
qed

lemma NewRunAutomatonV1_correct:
  assumes "aut_wf a" and "aut_det a" and "0 < GetNumStates a"
  shows "\<exists>r. NewRunAutomatonV1 B a alphabetSize = Some r \<and>
    r_accept r = map (IsAccept B a) [0..<GetNumStates a] \<and>
    (\<forall>s c. s < GetNumStates a \<longrightarrow> c \<le> 1114111 \<longrightarrow> Run_Step r s c = Some (step_to a s (int c)))"
proof -
  obtain ps where ps: "GetStartPoints a = Some ps" "sorted ps" "distinct ps"
    "set ps = insert 0 (\<Union>q < GetNumStates a. \<Union>t \<in> set (trans_of a q). ends_of t)"
    using GetStartPoints_eq [OF assms(1)] by blast
  let ?n = "GetNumStates a" and ?m = "min 256 alphabetSize"
  obtain acc tr where t: "run_table_loop B a ps 0 ?n NewTransition (replicate ?n False) (replicate (?n * length ps) (- 1)) = Some (acc, tr)"
    "length acc = ?n" "length tr = ?n * length ps"
    "\<forall>q. acc ! q = (if 0 \<le> q \<and> q < ?n then IsAccept B a q else replicate ?n False ! q)"
    "\<forall>q c. 0 \<le> q \<and> q < ?n \<and> c < length ps \<longrightarrow> tr ! (q * length ps + c) = step_to a q (ps ! c)"
    using run_table_loop_eq [OF assms(1,2), of 0 ?n "replicate ?n False" "replicate (?n * length ps) (- 1)" ps NewTransition] by auto
  have nonneg: "0 \<le> p" if p: "p \<in> set ps" for p
  proof (cases "p = 0")
    case False
    then obtain q x where q: "q < ?n" "x \<in> set (trans_of a q)" "p \<in> ends_of x"
      using p ps(4) by auto
    then show ?thesis
      using aut_wf_state(3) [OF assms(1) q(1)] by (force simp: ends_of_def good_transition_def split: if_splits)
  qed simp
  have p0: "ps \<noteq> []" "ps ! 0 = 0"
  proof -
    have 0: "0 \<in> set ps"
      using ps(4) by simp
    then show "ps \<noteq> []"
      by auto
    then have "0 \<le> ps ! 0"
      using nonneg by simp
    moreover have "ps ! 0 \<le> 0"
    proof -
      obtain i where "i < length ps" "ps ! i = 0"
        using 0 by (auto simp: in_set_conv_nth)
      then show ?thesis
        using sorted_nth_mono [OF ps(2), of 0 i] by simp
    qed
    ultimately show "ps ! 0 = 0"
      by simp
  qed
  obtain cm where cm: "classmap_loop ps 0 0 ?m (replicate ?m 0) = Some cm" "length cm = ?m"
    "\<forall>l. 0 \<le> l \<and> l < 0 + ?m \<longrightarrow> is_class ps (int l) (cm ! l)"
    using classmap_loop_eq [OF ps(2,3), of 0 0 ?m "replicate ?m 0"] p0 by auto
  define r where "r = \<lparr>r_alphabetSize = alphabetSize, r_size = ?n, r_accept = acc, r_transitions = tr,
    r_points = ps, r_classmap = cm\<rparr>"
  have new: "NewRunAutomatonV1 B a alphabetSize = Some r"
    using ps(1) t(1) cm(1) assms(3) by (simp add: NewRunAutomatonV1_def r_def max_def Let_def)
  have acc: "acc = map (IsAccept B a) [0..<?n]"
    using t(2,4) by (intro nth_equalityI) auto
  have lookup: "slice_get tr (s * length ps + k) = Some (step_to a s (int c))"
    if "s < ?n" "is_class ps (int c) k" "c \<le> 1114111" for s c k
  proof -
    have k: "k < length ps"
      using that(2) by (simp add: is_class_def)
    have "(s + 1) * length ps \<le> ?n * length ps"
      using that(1) by (intro mult_le_mono1) simp
    then have "s * length ps + k < length tr"
      using k t(3) by simp
    moreover have "tr ! (s * length ps + k) = step_to a s (ps ! k)"
      using t(5) that(1) k by simp
    moreover have "step_to a s (ps ! k) = step_to a s (int c)"
      using class_step_to [OF assms(1) that(1,2) ps(2)] that(3) ps(4) by auto
    ultimately show ?thesis
      by simp
  qed
  have "Run_Step r s c = Some (step_to a s (int c))" if "s < ?n" "c \<le> 1114111" for s c
  proof (cases "?m \<le> c")
    case True
    have "is_class ps (int c) (char_class_loop ps (int c) 0 (length ps))"
      using char_class_loop_eq [OF ps(2), of 0 "length ps" "int c"] p0 ps(3) by simp
    then show ?thesis
      using True lookup that cm(2) by (simp add: Run_Step_def GetCharClass_def r_def)
  next
    case False
    then have "c < ?m"
      by linarith
    then have "is_class ps (int c) (cm ! c)" "c < length cm"
      using cm(2,3) by simp_all
    then show ?thesis
      using lookup [of s c "cm ! c"] that by (simp add: Run_Step_def r_def slice_get_in)
  qed
  then show ?thesis
    using new acc by (auto simp: r_def)
qed

lemma byte_run_loop_correct:
  assumes wf: "aut_wf a" and det: "aut_det a"
    and acc: "r_accept r = map (IsAccept B a) [0..<GetNumStates a]"
    and step: "\<forall>s c. s < GetNumStates a \<longrightarrow> c \<le> 1114111 \<longrightarrow> Run_Step r s c = Some (step_to a s (int c))"
    and "p < GetNumStates a"
  shows "byte_run_loop r p s = Some (accepts_from B a p (map uint s))"
  using assms(5)
proof (induction s arbitrary: p)
  case Nil
  then show ?case
    using acc by (simp add: slice_get_in)
next
  case (Cons b s)
  have "unat b < 2 ^ 8"
    using unsigned_less [of b, where 'a = nat] by simp
  then have b: "unat b \<le> 1114111"
    by simp
  have s: "Run_Step r p (unat b) = Some (step_to a p (uint b))"
    using step [rule_format, OF Cons.prems b] unfolding uint_nat .
  from step_to_cases [OF wf det Cons.prems, of "uint b"] show ?case
  proof (elim disjE exE conjE)
    assume "step_to a p (uint b) = - 1" "\<forall>t \<in> set (trans_of a p). \<not> covers (uint b) t"
    then show ?thesis
      using s unfolding list.map(2) byte_run_loop.simps(2) accepts_from.simps(2) by simp
  next
    fix d mn mx
    assume t: "(d, mn, mx) \<in> set (trans_of a p)" "covers (uint b) (d, mn, mx)" "step_to a p (uint b) = d"
      "0 \<le> d" "nat d < GetNumStates a" "\<forall>t \<in> set (trans_of a p). covers (uint b) t \<longrightarrow> t = (d, mn, mx)"
    then have "accepts_from B a p (map uint (b # s)) = accepts_from B a (nat d) (map uint s)"
      unfolding list.map(2) accepts_from.simps(2) by (metis fst_conv)
    moreover have "byte_run_loop r p (b # s) = byte_run_loop r (nat d) s"
      using s t(3,4) by (simp add: int_index_def)
    ultimately show ?thesis
      using Cons.IH [OF t(5)] by simp
  qed
qed

end

end
