(* ===== verification/Automaton_Finish.thy ===== *)
theory Automaton_Finish
  imports Automaton_Correct
begin

text \<open>
  \<open>finishCurrentState\<close>: merging adjacent transitions keeps where each label leads; what the
  sorters do to the first state and to later ones; and the properties of the automaton.
\<close>

subsection \<open>Finishing the first state\<close>

lemma length_triples [simp]: "length (triples ts off n) = n"
  by (simp add: triples_def)

lemma triples_update:
  assumes "i < n" and "3 * n \<le> length ts"
  shows "triples (ts[3 * i := d, 3 * i + 1 := mn, 3 * i + 2 := mx]) 0 n = (triples ts 0 n)[i := (d, mn, mx)]"
proof (intro nth_equalityI)
  fix j
  assume "j < length (triples (ts[3 * i := d, 3 * i + 1 := mn, 3 * i + 2 := mx]) 0 n)"
  then have j: "j < n"
    by simp
  show "triples (ts[3 * i := d, 3 * i + 1 := mn, 3 * i + 2 := mx]) 0 n ! j = (triples ts 0 n)[i := (d, mn, mx)] ! j"
  proof (cases "j = i")
    case True
    then show ?thesis
      using assms by (simp add: nth_triples)
  next
    case False
    then have "3 * j + 2 < 3 * i \<or> 3 * i + 2 < 3 * j"
      by linarith
    then show ?thesis
      using False j by (auto simp: nth_triples)
  qed
qed simp

lemma write3_eq:
  "3 * i + 3 \<le> length ts \<Longrightarrow> write3 ts (0 + 3 * int i) (d, mn, mx) = Some (ts[3 * i := d, 3 * i + 1 := mn, 3 * i + 2 := mx])"
  by (simp add: write3_def int_index_def slice_set_in nat_mult_distrib)

lemma read3_0: "3 * n \<le> length ts \<Longrightarrow> i < n \<Longrightarrow> read3 ts (0 + 3 * int i) = Some (triples ts 0 n ! i)"
  using read3_triples [of 0 n ts i] by simp

lemma take_triples: "m \<le> n \<Longrightarrow> triples ts off m = take m (triples ts off n)"
  by (intro nth_equalityI) (auto simp: nth_triples)

text \<open>The reduction as a function on lists; the first argument is the pending transition.\<close>

definition pending :: "int \<times> int \<times> int \<Rightarrow> (int \<times> int \<times> int) list" where
  "pending t = (if fst t = - 1 then [] else [t])"

fun reduce :: "int \<times> int \<times> int \<Rightarrow> (int \<times> int \<times> int) list \<Rightarrow> (int \<times> int \<times> int) list" where
  "reduce t [] = pending t"
| "reduce (d, mn, mx) ((d', mn', mx') # L) =
     (if d = d' \<and> mn' \<le> mx + 1 then reduce (d, mn, if mx' > mx then mx' else mx) L
      else pending (d, mn, mx) @ reduce (d', mn', mx') L)"

lemma reduce_loop_eq:
  assumes "i + k = n" and "3 * n \<le> length ts" and "\<forall>t \<in> set (drop i (triples ts 0 n)). 0 \<le> fst t"
    and "up + length (pending t) \<le> i" and "fst t = - 1 \<or> 0 \<le> fst t"
  shows "\<exists>ts' up' t'. reduce_loop ts 0 k (int i) (int up) t = Some (ts', int up', t') \<and> length ts' = length ts \<and>
    triples ts' 0 up' @ pending t' = triples ts 0 up @ reduce t (drop i (triples ts 0 n)) \<and>
    up' + length (pending t') \<le> n \<and> (fst t' = - 1 \<or> 0 \<le> fst t')"
  using assms
proof (induction k arbitrary: i ts up t)
  case 0
  then show ?case
    by simp
next
  case (Suc k)
  let ?L = "triples ts 0 n"
  obtain d mn mx where t: "t = (d, mn, mx)"
    by (cases t)
  have i: "i < n" "i + 1 + k = n"
    using Suc.prems(1) by simp_all
  obtain d' mn' mx' where u: "?L ! i = (d', mn', mx')"
    using prod_cases3 by blast
  have dr: "drop i ?L = (d', mn', mx') # drop (i + 1) ?L"
    using i(1) u by (simp add: Cons_nth_drop_Suc [symmetric])
  have d': "0 \<le> d'" and rest: "\<forall>t \<in> set (drop (i + 1) ?L). 0 \<le> fst t"
    using Suc.prems(3) unfolding dr by auto
  have r: "read3 ts (0 + 3 * int i) = Some (d', mn', mx')"
    using read3_0 [OF Suc.prems(2) i(1)] u by simp
  show ?case
  proof (cases "d = d' \<and> mn' \<le> mx + 1")
    case True
    let ?t = "(d, mn, if mx' > mx then mx' else mx)"
    have p: "up + length (pending ?t) \<le> i + 1" "fst ?t = - 1 \<or> 0 \<le> fst ?t"
      using Suc.prems(4,5) t by (auto simp: pending_def)
    have "reduce_loop ts 0 (Suc k) (int i) (int up) t = reduce_loop ts 0 k (int (i + 1)) (int up) ?t"
      using r True t by (simp add: add.commute)
    moreover have "reduce t (drop i ?L) = reduce ?t (drop (i + 1) ?L)"
      using dr t True by simp
    ultimately show ?thesis
      using Suc.IH [OF i(2) Suc.prems(2) rest p] by simp
  next
    case no: False
    let ?u = "(d', mn', mx')"
    have red: "reduce t (drop i ?L) = pending t @ reduce ?u (drop (i + 1) ?L)"
      using dr t no by auto
    show ?thesis
    proof (cases "d = - 1")
      case True
      have "reduce_loop ts 0 (Suc k) (int i) (int up) t = reduce_loop ts 0 k (int (i + 1)) (int up) ?u"
        using r True t d' no by (auto simp: add.commute)
      moreover have "up + length (pending ?u) \<le> i + 1" "fst ?u = - 1 \<or> 0 \<le> fst ?u"
        using Suc.prems(4) d' t True by (auto simp: pending_def)
      moreover have "pending t = []"
        using True t by (simp add: pending_def)
      ultimately show ?thesis
        using Suc.IH [OF i(2) Suc.prems(2) rest, of up ?u] red by simp
    next
      case False
      have up: "up < i" "pending t = [t]"
        using Suc.prems(4) t False by (auto simp: pending_def)
      let ?ts = "ts[3 * up := d, 3 * up + 1 := mn, 3 * up + 2 := mx]"
      have w: "write3 ts (0 + 3 * int up) (d, mn, mx) = Some ?ts"
        using write3_eq [of up ts d mn mx] up(1) i(1) Suc.prems(2) by simp
      have T: "triples ?ts 0 n = ?L[up := t]"
        using triples_update [of up n ts d mn mx] up(1) i(1) Suc.prems(2) t by simp
      then have D: "drop (i + 1) (triples ?ts 0 n) = drop (i + 1) ?L"
        using up(1) by simp
      have "reduce_loop ts 0 (Suc k) (int i) (int up) t = reduce_loop ?ts 0 k (int (i + 1)) (int (up + 1)) ?u"
        using r w False t no by (auto simp: add.commute)
      moreover have "3 * n \<le> length ?ts" "up + 1 + length (pending ?u) \<le> i + 1" "fst ?u = - 1 \<or> 0 \<le> fst ?u"
        using Suc.prems(2) up d' by (auto simp: pending_def)
      moreover have "\<forall>t \<in> set (drop (i + 1) (triples ?ts 0 n)). 0 \<le> fst t"
        using rest D by simp
      moreover have "triples ?ts 0 (up + 1) = triples ts 0 up @ [t]"
      proof -
        have "triples ?ts 0 (up + 1) = take (up + 1) (?L[up := t])"
          using take_triples [of "up + 1" n ?ts 0] up(1) i(1) T by simp
        also have "\<dots> = take up ?L @ [t]"
          using up(1) i(1) by (simp add: take_Suc_conv_app_nth)
        finally show ?thesis
          using take_triples [of up n ts 0] up(1) i(1) by simp
      qed
      ultimately show ?thesis
        using Suc.IH [OF i(2), of ?ts "up + 1" ?u] red up(2) D by simp
    qed
  qed
qed

text \<open>The reduction keeps the labels and destinations.\<close>

definition leads :: "(int \<times> int \<times> int) set \<Rightarrow> int \<Rightarrow> int \<Rightarrow> bool" where
  "leads T c d \<longleftrightarrow> (\<exists>mn mx. (d, mn, mx) \<in> T \<and> mn \<le> c \<and> c \<le> mx)"

lemma leads_insert: "leads (insert (d', mn, mx) T) c d \<longleftrightarrow> d' = d \<and> mn \<le> c \<and> c \<le> mx \<or> leads T c d"
  by (auto simp: leads_def)

lemma reduce_leads:
  assumes "sorted L" and "\<forall>u \<in> set L. t \<le> u \<or> fst t = - 1 \<and> 0 \<le> fst u" and "\<forall>u \<in> set L. 0 \<le> fst u"
  shows "leads (set (reduce t L)) c d \<longleftrightarrow> leads (set (pending t @ L)) c d"
  using assms
proof (induction t L rule: reduce.induct)
  case (1 t)
  then show ?case
    by simp
next
  case (2 d0 mn mx d' mn' mx' L)
  have srt: "sorted L" "\<forall>u \<in> set L. (d', mn', mx') \<le> u" and pos: "\<forall>u \<in> set L. 0 \<le> fst u" "0 \<le> d'"
    using 2(3,5) by auto
  show ?case
  proof (cases "d0 = d' \<and> mn' \<le> mx + 1")
    case True
    let ?t = "(d0, mn, if mx' > mx then mx' else mx)"
    have le: "mn \<le> mn'"
      using 2(4) True pos(2) by (auto simp: less_eq_prod_def)
    have "\<forall>u \<in> set L. ?t \<le> u \<or> fst ?t = - 1 \<and> 0 \<le> fst u"
    proof
      fix u
      assume u: "u \<in> set L"
      then have "(d0, mn', mx') \<le> u" "(d0, mn, mx) \<le> u"
        using srt(2) 2(4) True pos(2) by auto
      then show "?t \<le> u \<or> fst ?t = - 1 \<and> 0 \<le> fst u"
        using le by (auto simp: less_eq_prod_def)
    qed
    then have "leads (set (reduce ?t L)) c d \<longleftrightarrow> leads (set (pending ?t @ L)) c d"
      using 2(1) True srt(1) pos(1) by blast
    moreover have "leads (set (pending ?t @ L)) c d \<longleftrightarrow> leads (set (pending (d0, mn, mx) @ (d', mn', mx') # L)) c d"
      using True le pos(2) by (auto simp: pending_def leads_insert)
    ultimately show ?thesis
      using True by simp
  next
    case False
    have "leads (set (reduce (d', mn', mx') L)) c d \<longleftrightarrow> leads (set (pending (d', mn', mx') @ L)) c d"
      using 2(2) False srt pos(1) by blast
    then have "leads (set (reduce (d', mn', mx') L)) c d \<longleftrightarrow> leads (set ((d', mn', mx') # L)) c d"
      using pos(2) by (simp add: pending_def)
    then show ?thesis
      using False by (auto simp: leads_def)
  qed
qed

text \<open>
  The reduction merges: what is left for one destination is in order, with a label missing between any two
  transitions, so that no two of them overlap or touch.
\<close>

definition after_gap :: "int \<times> int \<times> int \<Rightarrow> int \<times> int \<times> int \<Rightarrow> bool" where
  "after_gap u v \<longleftrightarrow> fst u < fst v \<or> fst u = fst v \<and> snd (snd u) + 1 < fst (snd v)"

lemma merge_below:
  assumes "\<forall>u \<in> set ((d, mn', mx') # L). (d, mn, mx) \<le> u" and "sorted ((d, mn', mx') # L)"
  shows "\<forall>u \<in> set L. (d, mn, if mx' > mx then mx' else mx) \<le> u"
  using assms by (fastforce simp: less_eq_prod_def)

lemma reduce_starts:
  assumes "\<forall>u \<in> set L. t \<le> u" and "sorted L"
  shows "\<forall>u \<in> set (reduce t L). (fst t, fst (snd t)) \<le> (fst u, fst (snd u))"
  using assms
proof (induction t L rule: reduce.induct)
  case (1 t)
  then show ?case
    by (simp add: pending_def)
next
  case (2 d mn mx d' mn' mx' L)
  have le: "(d, mn) \<le> (d', mn')"
    using 2(3) by (auto simp: less_eq_prod_def)
  have L: "\<forall>u \<in> set L. (d', mn', mx') \<le> u" "sorted L"
    using 2(4) by auto
  show ?case
  proof (cases "d = d' \<and> mn' \<le> mx + 1")
    case True
    then show ?thesis
      using 2(1) [OF True merge_below [of d mn' mx' L mn mx] L(2)] 2(3,4) True by simp
  next
    case False
    have "\<forall>u \<in> set (reduce (d', mn', mx') L). (d', mn') \<le> (fst u, fst (snd u))"
      using 2(2) [OF False L] by simp
    then have "\<forall>u \<in> set (reduce (d', mn', mx') L). (d, mn) \<le> (fst u, fst (snd u))"
      using le order_trans by blast
    moreover have "reduce (d, mn, mx) ((d', mn', mx') # L) = pending (d, mn, mx) @ reduce (d', mn', mx') L"
      using False by auto
    ultimately show ?thesis
      by (auto simp: pending_def)
  qed
qed

lemma reduce_merges:
  assumes "\<forall>u \<in> set L. t \<le> u" and "sorted L"
  shows "sorted_wrt after_gap (reduce t L)"
  using assms
proof (induction t L rule: reduce.induct)
  case (1 t)
  then show ?case
    by (simp add: pending_def)
next
  case (2 d mn mx d' mn' mx' L)
  have le: "(d, mn) \<le> (d', mn')"
    using 2(3) by (auto simp: less_eq_prod_def)
  have L: "\<forall>u \<in> set L. (d', mn', mx') \<le> u" "sorted L"
    using 2(4) by auto
  show ?case
  proof (cases "d = d' \<and> mn' \<le> mx + 1")
    case True
    then show ?thesis
      using 2(1) [OF True merge_below [of d mn' mx' L mn mx] L(2)] 2(3,4) True by simp
  next
    case False
    have "after_gap (d, mn, mx) u" if "u \<in> set (reduce (d', mn', mx') L)" for u
    proof -
      have "(d', mn') \<le> (fst u, fst (snd u))"
        using reduce_starts [OF L] that by auto
      then show ?thesis
        using le False by (auto simp: after_gap_def less_eq_prod_def)
    qed
    moreover have "reduce (d, mn, mx) ((d', mn', mx') # L) = pending (d, mn, mx) @ reduce (d', mn', mx') L"
      using False by auto
    ultimately show ?thesis
      using 2(2) [OF False L] by (auto simp: sorted_wrt_append pending_def)
  qed
qed

text \<open>The same of a list in any order\<close>

definition merged :: "(int \<times> int \<times> int) list \<Rightarrow> bool" where
  "merged T \<longleftrightarrow> distinct T \<and> (\<forall>(d, mn, mx) \<in> set T. \<forall>(d', mn', mx') \<in> set T.
     d = d' \<and> (mn, mx) \<noteq> (mn', mx') \<longrightarrow> mx + 1 < mn' \<or> mx' + 1 < mn)"

lemma sorted_wrt_after_gap:
  assumes "sorted_wrt after_gap L" and "\<forall>(d, mn, mx) \<in> set L. mn \<le> mx"
  shows "distinct L \<and> (\<forall>u \<in> set L. \<forall>v \<in> set L. u = v \<or> after_gap u v \<or> after_gap v u)"
  using assms
proof (induction L)
  case (Cons t L)
  then have "\<not> after_gap t t"
    by (auto simp: after_gap_def)
  then show ?case
    using Cons by auto
qed simp

lemma merged_sort_key:
  assumes "sorted_wrt after_gap L" and "\<forall>(d, mn, mx) \<in> set L. mn \<le> mx"
  shows "merged (sort_key f L)"
  using sorted_wrt_after_gap [OF assms] unfolding merged_def by (fastforce simp: after_gap_def)

lemma reduce_none: "(\<forall>u \<in> set L. 0 \<le> fst u) \<Longrightarrow> reduce (- 1, mn, mx) L = (case L of [] \<Rightarrow> [] | u # L \<Rightarrow> reduce u L)"
  by (cases L) (auto simp: pending_def)


lemma length_flatten [simp]: "length (flatten M) = 3 * length M"
  by (induction M) (auto simp: flatten_def)

lemma nth_flatten: "i < length M \<Longrightarrow> flatten M ! (3 * i) = fst (M ! i) \<and> flatten M ! (3 * i + 1) = fst (snd (M ! i)) \<and>
    flatten M ! (3 * i + 2) = snd (snd (M ! i))"
proof (induction M arbitrary: i)
  case (Cons t M)
  obtain d mn mx where t: "t = (d, mn, mx)"
    by (cases t)
  show ?case
  proof (cases i)
    case 0
    then show ?thesis
      using t by (simp add: flatten_def)
  next
    case (Suc j)
    have "flatten (t # M) = d # mn # mx # flatten M"
      using t by (simp add: flatten_def)
    then show ?thesis
      using Cons.IH [of j] Cons.prems Suc by (simp add: eval_nat_numeral)
  qed
qed simp

lemma sort_transitions_eq:
  assumes "3 * n \<le> length ts"
  shows "\<exists>ts'. sort_transitions key ts n = Some ts' \<and> length ts' = length ts \<and>
    triples ts' 0 n = sort_key key (triples ts 0 n)"
proof -
  let ?M = "sort_key key (triples ts 0 n)"
  let ?ts = "write_block ts 0 (flatten ?M)"
  have l: "length ?M = n"
    by simp
  have "?ts ! k = flatten ?M ! k" if "k < 3 * n" for k
    using that by (simp add: write_block_def nth_append)
  then have "triples ?ts 0 n ! i = ?M ! i" if "i < n" for i
    using that nth_flatten [of i ?M] by (simp add: nth_triples prod_eq_iff)
  then have "triples ?ts 0 n = ?M"
    by (intro nth_equalityI) simp_all
  moreover have "length ?ts = length ts"
    using assms by (intro length_write_block) simp
  ultimately show ?thesis
    using assms by (simp add: sort_transitions_def)
qed

fun apart :: "int \<Rightarrow> (int \<times> int \<times> int) list \<Rightarrow> bool" where
  "apart l [] = True"
| "apart l ((d, mn, mx) # L) = (l < mn \<and> apart mx L)"

lemma overlap_loop_eq:
  assumes "3 * m \<le> length ts" and "i + k = m"
  shows "overlap_loop ts 0 k (int i) l = Some (\<not> apart l (drop i (triples ts 0 m)))"
  using assms(2)
proof (induction k arbitrary: i l)
  case (Suc k)
  then have i: "i < m"
    by simp
  obtain d mn mx where t: "triples ts 0 m ! i = (d, mn, mx)"
    using prod_cases3 by blast
  have "drop i (triples ts 0 m) = (d, mn, mx) # drop (Suc i) (triples ts 0 m)"
    using i t by (simp add: Cons_nth_drop_Suc [symmetric])
  moreover have "read3 ts (0 + 3 * int i) = Some (d, mn, mx)"
    using read3_0 [OF assms(1) i] t by simp
  ultimately show ?case
    using Suc.IH [of "Suc i" mx] Suc.prems by (auto simp: add.commute)
qed simp

lemma apart_sorted:
  assumes "apart l L" and "\<forall>(d, mn, mx) \<in> set L. mn \<le> mx"
  shows "sorted_wrt (\<lambda>(d, mn, mx) (d', mn', mx'). mx < mn') L \<and> (\<forall>(d, mn, mx) \<in> set L. l < mn)"
  using assms by (induction L arbitrary: l) fastforce+

text \<open>Every transition of the reduced list is non-empty and leads to a destination of the list before.\<close>

lemma reduce_good:
  assumes "\<forall>u \<in> set (pending t @ L). fst (snd u) \<le> snd (snd u) \<and> 0 \<le> fst u"
  shows "\<forall>u \<in> set (reduce t L). fst (snd u) \<le> snd (snd u) \<and> 0 \<le> fst u"
  using assms
proof (induction t L rule: reduce.induct)
  case (2 d0 mn mx d' mn' mx' L)
  have u: "mn' \<le> mx'" "0 \<le> d'" and L: "\<forall>u \<in> set L. fst (snd u) \<le> snd (snd u) \<and> 0 \<le> fst u"
    using 2(3) by auto
  show ?case
  proof (cases "d0 = d' \<and> mn' \<le> mx + 1")
    case True
    then have "mn \<le> mx"
      using 2(3) u(2) by (simp add: pending_def)
    then show ?thesis
      using 2(1) True u(2) L by (simp add: pending_def)
  next
    case False
    have "\<forall>u \<in> set (reduce (d', mn', mx') L). fst (snd u) \<le> snd (snd u) \<and> 0 \<le> fst u"
      using 2(2) False u L by (simp add: pending_def)
    moreover have "\<forall>u \<in> set (pending (d0, mn, mx)). fst (snd u) \<le> snd (snd u) \<and> 0 \<le> fst u"
      using 2(3) by simp
    moreover have "reduce (d0, mn, mx) ((d', mn', mx') # L) = pending (d0, mn, mx) @ reduce (d', mn', mx') L"
      using False by auto
    ultimately show ?thesis
      by auto
  qed
qed simp

lemma reduce_sort_merges:
  assumes "\<forall>(d, mn, mx) \<in> set T. mn \<le> mx \<and> 0 \<le> d"
  shows "sorted_wrt after_gap (reduce (- 1, - 1, - 1) (sort T))"
    and "\<forall>(d, mn, mx) \<in> set (reduce (- 1, - 1, - 1) (sort T)). mn \<le> mx"
proof -
  have pos: "\<forall>u \<in> set (sort T). 0 \<le> fst u"
    using assms by auto
  have "sorted_wrt after_gap (case sort T of [] \<Rightarrow> [] | u # L \<Rightarrow> reduce u L)"
    using sorted_sort [of T] by (cases "sort T") (auto intro: reduce_merges)
  then show "sorted_wrt after_gap (reduce (- 1, - 1, - 1) (sort T))"
    by (simp only: reduce_none [OF pos])
  have "\<forall>u \<in> set (reduce (- 1, - 1, - 1) (sort T)). fst (snd u) \<le> snd (snd u) \<and> 0 \<le> fst u"
    using assms by (intro reduce_good) (auto simp: pending_def)
  then show "\<forall>(d, mn, mx) \<in> set (reduce (- 1, - 1, - 1) (sort T)). mn \<le> mx"
    by auto
qed

lemma finishCurrentState_first:
  assumes "a_curState a = int c" and "2 * c + 1 < length (a_states a)" and "a_states a ! (2 * c) = 0"
    and "a_states a ! (2 * c + 1) = int n" and "3 * n \<le> length (a_transitions a)"
    and "\<forall>(d, mn, mx) \<in> set (trans_of a c). mn \<le> mx \<and> 0 \<le> d"
  shows "\<exists>a'. finishCurrentState a = Some a' \<and>
    trans_of a' c = sort_key minMaxDest (reduce (- 1, - 1, - 1) (sort (trans_of a c))) \<and>
    a_isAccept a' = a_isAccept a \<and> length (trans_of a' c) \<le> n \<and>
    (a_deterministic a' \<longrightarrow> sorted_wrt (\<lambda>(d, mn, mx) (d', mn', mx'). mx < mn') (trans_of a' c))"
proof -
  let ?L = "trans_of a c" and ?ts = "a_transitions a"
  have L: "?L = triples ?ts 0 n"
    using assms(3,4) by (simp add: trans_of_def)
  obtain ts1 where ts1: "sort_transitions destMinMax ?ts n = Some ts1" "length ts1 = length ?ts"
    "triples ts1 0 n = sort ?L"
    using sort_transitions_eq [OF assms(5), of destMinMax] L by (auto simp: destMinMax_def [abs_def])
  have good: "\<forall>(d, mn, mx) \<in> set (sort ?L). mn \<le> mx \<and> 0 \<le> d"
    using assms(6) by simp
  then have nonneg: "\<forall>t \<in> set (drop 0 (triples ts1 0 n)). 0 \<le> fst t"
    using ts1(3) by auto
  obtain ts2 up t' where r: "reduce_loop ts1 0 n (int 0) (int 0) (- 1, - 1, - 1) = Some (ts2, int up, t')"
    "length ts2 = length ts1" "triples ts2 0 up @ pending t' = triples ts1 0 0 @ reduce (- 1, - 1, - 1) (drop 0 (triples ts1 0 n))"
    "up + length (pending t') \<le> n" "fst t' = - 1 \<or> 0 \<le> fst t'"
    using reduce_loop_eq [OF _ _ nonneg, of n 0 "(- 1, - 1, - 1)"] assms(5) ts1(2) by (auto simp: pending_def)
  let ?R = "reduce (- 1, - 1, - 1) (sort ?L)"
  have R: "triples ts2 0 up @ pending t' = ?R"
    using r(3) ts1(3) by (simp add: triples_def)
  define m where "m = length ?R"
  obtain d mn mx where t': "t' = (d, mn, mx)"
    by (cases t')
  obtain ts3 where ts3: "(if d \<noteq> - 1 then map_option (\<lambda>ts. (ts, int up + 1)) (write3 ts2 (0 + 3 * int up) (d, mn, mx))
      else Some (ts2, int up)) = Some (ts3, int m)" "length ts3 = length ts2" "triples ts3 0 m = ?R"
  proof (cases "d = - 1")
    case True
    then have "pending t' = []"
      using t' by (simp add: pending_def)
    then have e: "triples ts2 0 up = ?R"
      using R by simp
    have "up = length (triples ts2 0 up)"
      by simp
    also have "\<dots> = m"
      unfolding e m_def ..
    finally have "up = m" .
    then show ?thesis
      using that [of ts2] True e by simp
  next
    case False
    then have p: "pending t' = [t']"
      using t' by (simp add: pending_def)
    then have m: "m = up + 1" "up < n"
      using arg_cong [OF R, of length] r(4) by (simp_all add: m_def)
    let ?w = "ts2[3 * up := d, 3 * up + 1 := mn, 3 * up + 2 := mx]"
    have w: "write3 ts2 (0 + 3 * int up) (d, mn, mx) = Some ?w"
      using write3_eq [of up ts2 d mn mx] m(2) r(2) ts1(2) assms(5) by simp
    have "triples ?w 0 (up + 1) = (triples ts2 0 (up + 1))[up := t']"
      using triples_update [of up "up + 1" ts2 d mn mx] m(2) r(2) ts1(2) assms(5) t' by simp
    also have "triples ts2 0 (up + 1) = triples ts2 0 up @ [(ts2 ! (3 * up), ts2 ! (3 * up + 1), ts2 ! (3 * up + 2))]"
      by (simp add: triples_def)
    finally have "triples ?w 0 (up + 1) = triples ts2 0 up @ [t']"
      by (simp add: list_update_append)
    then show ?thesis
      using that [of ?w] False w m(1) R p by (simp add: add.commute)
  qed
  have m: "m \<le> n"
    using arg_cong [OF R, of length] r(4) by (simp add: m_def)
  then have fit: "3 * m \<le> length ts3"
    using assms(5) ts3(2) r(2) ts1(2) by simp
  obtain ts4 where ts4: "sort_transitions minMaxDest ts3 m = Some ts4" "length ts4 = length ts3"
    "triples ts4 0 m = sort_key minMaxDest ?R"
    using sort_transitions_eq [OF fit, of minMaxDest] ts3(3) by auto
  define M where "M = sort_key minMaxDest ?R"
  have lM: "length M = m"
    by (simp add: M_def m_def)
  have goodM: "\<forall>(d, mn, mx) \<in> set M. mn \<le> mx"
  proof -
    have "\<forall>u \<in> set ?R. fst (snd u) \<le> snd (snd u) \<and> 0 \<le> fst u"
      using good by (intro reduce_good) (auto simp: pending_def)
    then show ?thesis
      by (auto simp: M_def)
  qed
  have fit4: "3 * m \<le> length ts4"
    using fit ts4(2) by simp
  obtain det where det: "(if a_deterministic a \<and> 1 < int m then do {
         (_, _, lastMax) \<leftarrow> read3 ts4 0;
         map_option Not (overlap_loop ts4 0 (nat (int m) - 1) 1 lastMax)
       }
       else Some (a_deterministic a)) = Some det"
    "det \<longrightarrow> sorted_wrt (\<lambda>(d, mn, mx) (d', mn', mx'). mx < mn') M"
  proof (cases "1 < m")
    case True
    obtain d0 mn0 mx0 M0 where M0: "M = (d0, mn0, mx0) # M0"
      using True lM by (cases M) auto
    have r0: "read3 ts4 0 = Some (d0, mn0, mx0)"
      using read3_0 [OF fit4, of 0] True ts4(3) M0 by (simp add: M_def)
    have "overlap_loop ts4 0 (m - 1) (int 1) mx0 = Some (\<not> apart mx0 (drop 1 (triples ts4 0 m)))"
      using fit4 True by (intro overlap_loop_eq) simp_all
    moreover have "drop 1 (triples ts4 0 m) = M0"
      using ts4(3) M0 by (simp add: M_def)
    moreover have "apart mx0 M0 \<Longrightarrow> sorted_wrt (\<lambda>(d, mn, mx) (d', mn', mx'). mx < mn') M"
      using apart_sorted [of mx0 M0] goodM M0 by auto
    ultimately show ?thesis
      using that [of "a_deterministic a \<and> apart mx0 M0"] True r0 by auto
  next
    case False
    then have "sorted_wrt (\<lambda>(d, mn, mx) (d', mn', mx'). mx < mn') M"
      using lM by (cases M; cases "tl M") auto
    then show ?thesis
      using that [of "a_deterministic a"] False by simp
  qed
  define a' where "a' = a\<lparr>a_nextTransition := a_nextTransition a - nat ((int n - int m) * 3),
    a_states := (a_states a)[2 * c + 1 := int m], a_transitions := ts4, a_deterministic := det\<rparr>"
  have "finishCurrentState a = Some a'"
    unfolding finishCurrentState_def
    using assms(1-4) ts1(1) r(1) t' ts3(1) ts4(1) det(1)
    by (simp add: int_index_def slice_get_in slice_set_in a'_def Let_def cong: if_cong split del: if_split)
  moreover have "trans_of a' c = M"
    using assms(2,3) ts4(3) by (simp add: trans_of_def a'_def M_def)
  moreover have "a_isAccept a' = a_isAccept a" "a_deterministic a' = det"
    by (simp_all add: a'_def)
  ultimately show ?thesis
    using det(2) lM m by (intro exI [of _ a']) (simp add: M_def)
qed


lemma copy_accept_loop_stuck:
  fixes B :: "'b bitset"
  assumes "bs_next_set B acc state = Some s" and "state < n"
  shows "copy_accept_loop B acc n off state a = None"
proof -
  define P where "P = (\<lambda>B' acc' n' (off' :: nat) state' (a :: 'b Automaton) (y :: 'b Automaton).
    B' = B \<longrightarrow> acc' = acc \<longrightarrow> n' = n \<longrightarrow> state' = state \<longrightarrow> False)"
  have "P B acc n off state a y" if "copy_accept_loop B acc n off state a = Some y" for y
  proof (rule copy_accept_loop.raw_induct [OF _ that])
    fix rec and B' :: "'b bitset" and acc' n' off' state' a y
    assume IH: "\<And>B' acc' n' off' state' a y. rec B' acc' n' off' state' a = Some y \<Longrightarrow> P B' acc' n' off' state' a y"
    assume eq: "(if state' < n' then
        (case bs_next_set B' acc' state' of
           Some s \<Rightarrow> rec B' acc' n' off' state' (SetAccept B' a (off' + s) True)
         | None \<Rightarrow> Some a)
      else Some a) = Some y"
    show "P B' acc' n' off' state' a y"
      unfolding P_def
    proof (intro impI)
      assume "B' = B" "acc' = acc" "n' = n" "state' = state"
      with eq assms have "rec B acc n off' state (SetAccept B a (off' + s) True) = Some y"
        by simp
      from IH [OF this] show False
        by (simp add: P_def)
    qed
  qed
  then show ?thesis
    unfolding P_def by (metis not_None_eq)
qed

subsection \<open>Properties\<close>

text \<open>A small automaton for the examples: 0 leads to 1 on 97..99, 1 leads to 1 on 100, 1 accepts.\<close>

definition example_automaton :: "nat list Automaton" where
  "example_automaton = \<lparr>a_nextState = 4, a_nextTransition = 6, a_curState = - 1, a_states = [0, 1, 3, 1],
     a_isAccept = [1], a_transitions = [1, 97, 99, 1, 100, 100], a_deterministic = True\<rparr>"

lemma all_less_two: "(\<forall>s < 2. P s) \<longleftrightarrow> P 0 \<and> P (1 :: nat)"
  by (auto simp: less_2_cases_iff)

lemma example_states:
  "GetNumStates example_automaton = 2"
  "trans_of example_automaton 0 = [(1, 97, 99)]" "trans_of example_automaton 1 = [(1, 100, 100)]"
  "IsAccept list_bitset example_automaton s \<longleftrightarrow> s = 1"
  by (simp_all add: example_automaton_def trans_of_def triples_def GetNumStates_def IsAccept_def list_bitset_def)

lemma example_wf: "aut_wf example_automaton" "aut_det example_automaton"
  unfolding aut_wf_def aut_det_def example_states(1) all_less_two example_states(2,3)
  by (simp_all add: good_transition_def) (simp_all add: example_automaton_def)

text \<open>
  C25. \<open>Step\<close>, a binary search over the packed array, takes the only transition of the state that
  covers the label, and returns -1 if there is none.
\<close>

theorem automaton_step:
  assumes "aut_wf a" and "aut_det a" and "s < GetNumStates a"
  shows "\<exists>q. Step a s c = Some q \<and>
    (q = - 1 \<and> (\<forall>t \<in> set (trans_of a s). \<not> covers c t) \<or>
     (\<exists>mn mx. (q, mn, mx) \<in> set (trans_of a s) \<and> mn \<le> c \<and> c \<le> mx \<and>
        (\<forall>t \<in> set (trans_of a s). covers c t \<longrightarrow> t = (q, mn, mx))))"
proof (intro exI [of _ "step_to a s c"] conjI)
  show "Step a s c = Some (step_to a s c)"
    by (rule Step_correct [OF assms])
  from step_to_cases [OF assms, of c]
  show "step_to a s c = - 1 \<and> (\<forall>t \<in> set (trans_of a s). \<not> covers c t) \<or>
     (\<exists>mn mx. (step_to a s c, mn, mx) \<in> set (trans_of a s) \<and> mn \<le> c \<and> c \<le> mx \<and>
        (\<forall>t \<in> set (trans_of a s). covers c t \<longrightarrow> t = (step_to a s c, mn, mx)))"
  proof (elim disjE exE conjE)
    fix d mn mx
    assume t: "(d, mn, mx) \<in> set (trans_of a s)" "covers c (d, mn, mx)" "step_to a s c = d"
      "\<forall>t \<in> set (trans_of a s). covers c t \<longrightarrow> t = (d, mn, mx)"
    then have "mn \<le> c \<and> c \<le> mx"
      by (simp add: covers_def)
    then show ?thesis
      using t by blast
  qed blast
qed

theorem automaton_step_witness:
  "\<exists>q. Step example_automaton 0 98 = Some q \<and> q = 1"
  using automaton_step [of example_automaton 0 98] example_wf example_states by (auto simp: covers_def)

text \<open>
  C26. \<open>ByteRunAutomaton.Run\<close>, over the tables \<open>RunAutomaton\<close> computes from the start points of the
  labels, accepts exactly the language of a deterministic automaton.
\<close>

theorem byte_run_accepts:
  assumes "bitset_laws B" and "aut_wf a" and "aut_det a" and "0 < GetNumStates a"
  shows "\<exists>r. NewByteRunAutomaton B a = Some r \<and>
    (\<forall>s. ByteRun_Run r s = Some (accepts_from B a 0 (map uint s)))"
proof -
  obtain r where r: "NewRunAutomatonV1 B a 256 = Some r" "r_accept r = map (IsAccept B a) [0..<GetNumStates a]"
    "\<forall>s c. s < GetNumStates a \<longrightarrow> c \<le> 1114111 \<longrightarrow> Run_Step r s c = Some (step_to a s (int c))"
    using bitset_laws.NewRunAutomatonV1_correct [OF assms, of 256] by blast
  have "ByteRun_Run r s = Some (accepts_from B a 0 (map uint s))" for s
    unfolding ByteRun_Run_def
    using bitset_laws.byte_run_loop_correct [OF assms(1-3) r(2,3) assms(4)] by blast
  then show ?thesis
    using r(1) by (auto simp: NewByteRunAutomaton_def)
qed

theorem byte_run_accepts_witness:
  "\<exists>r. NewByteRunAutomaton list_bitset example_automaton = Some r \<and>
     ByteRun_Run r [98, 100, 100] = Some True \<and> ByteRun_Run r [100] = Some False"
proof -
  have acc: "accepts_from list_bitset example_automaton 0 (map uint [98 :: u8, 100, 100]) = True"
    "accepts_from list_bitset example_automaton 0 (map uint [100 :: u8]) = False"
    by (simp_all add: example_states example_states(3) [simplified] covers_def)
  have n: "0 < GetNumStates example_automaton"
    by (simp add: example_states)
  obtain r where r: "NewByteRunAutomaton list_bitset example_automaton = Some r"
    "\<forall>s. ByteRun_Run r s = Some (accepts_from list_bitset example_automaton 0 (map uint s))"
    using byte_run_accepts [OF list_bits.bitset_laws_axioms example_wf n] by blast
  show ?thesis
    using r(1) r(2) [rule_format, of "[98, 100, 100]"] r(2) [rule_format, of "[100]"] unfolding acc by blast
qed

text \<open>
  C27. \<open>IsEmptyAutomaton\<close> always returns, and says whether no string is accepted: its breadth-first
  search visits every state at most once and finds every accept state that can be reached.
\<close>

theorem is_empty_decides:
  assumes "bitset_laws B" and "aut_wf a"
  shows "IsEmptyAutomaton B a = Some (GetNumStates a = 0 \<or> (\<forall>w. \<not> accepts_from B a 0 w))"
  using bitset_laws.IsEmptyAutomaton_correct [OF assms] by auto

theorem is_empty_decides_witness: "IsEmptyAutomaton list_bitset example_automaton = Some False"
proof -
  have "accepts_from list_bitset example_automaton 0 [98]"
    by (simp add: example_states covers_def)
  then have "\<not> (\<forall>w. \<not> accepts_from list_bitset example_automaton 0 w)"
    by blast
  then show ?thesis
    using is_empty_decides [OF list_bits.bitset_laws_axioms example_wf(1)] unfolding example_states(1) by simp
qed

text \<open>
  C28. Finishing the state whose transitions come first in the array sorts and merges them without
  changing where any label leads to: two transitions that are left for the same destination do not overlap or touch,
  a label is missing between them. When the automaton is still called deterministic, no two of any destinations
  overlap.
\<close>

theorem finish_first_state:
  assumes "a_curState a = int s" and "2 * s + 1 < length (a_states a)" and "a_states a ! (2 * s) = 0"
    and "a_states a ! (2 * s + 1) = int n" and "3 * n \<le> length (a_transitions a)"
    and "\<forall>(d, mn, mx) \<in> set (trans_of a s). mn \<le> mx \<and> 0 \<le> d"
  shows "\<exists>a'. finishCurrentState a = Some a' \<and> length (trans_of a' s) \<le> length (trans_of a s) \<and>
    sorted (map minMaxDest (trans_of a' s)) \<and> merged (trans_of a' s) \<and>
    (\<forall>c d. leads (set (trans_of a' s)) c d \<longleftrightarrow> leads (set (trans_of a s)) c d) \<and>
    (a_deterministic a' \<longrightarrow> sorted_wrt (\<lambda>(d, mn, mx) (d', mn', mx'). mx < mn') (trans_of a' s))"
proof -
  let ?R = "reduce (- 1, - 1, - 1) (sort (trans_of a s))"
  obtain a' where a': "finishCurrentState a = Some a'" "trans_of a' s = sort_key minMaxDest ?R"
    "length (trans_of a' s) \<le> n"
    "a_deterministic a' \<longrightarrow> sorted_wrt (\<lambda>(d, mn, mx) (d', mn', mx'). mx < mn') (trans_of a' s)"
    using finishCurrentState_first [OF assms] by blast
  have pos: "\<forall>u \<in> set (sort (trans_of a s)). 0 \<le> fst u"
    using assms(6) by auto
  then have "leads (set ?R) c d \<longleftrightarrow> leads (set (pending (- 1, - 1, - 1) @ sort (trans_of a s))) c d" for c d
    by (intro reduce_leads) simp_all
  then have "leads (set (trans_of a' s)) c d \<longleftrightarrow> leads (set (trans_of a s)) c d" for c d
    unfolding a'(2) by (simp add: pending_def)
  moreover have "merged (trans_of a' s)"
    unfolding a'(2) using reduce_sort_merges [OF assms(6)] by (intro merged_sort_key) simp_all
  moreover have "sorted (map minMaxDest (trans_of a' s))"
    unfolding a'(2) by simp
  moreover have "length (trans_of a s) = n"
    using assms(4) by (simp add: trans_of_def)
  ultimately show ?thesis
    using a' by auto
qed

theorem finish_first_state_witness:
  "\<exists>a a'. a = \<lparr>a_nextState = 4, a_nextTransition = 6, a_curState = 0, a_states = [0, 2, - 1, 0],
       a_isAccept = [] :: nat list, a_transitions = [1, 60, 70, 1, 50, 59], a_deterministic = True\<rparr> \<and>
     finishCurrentState a = Some a' \<and> leads (set (trans_of a' 0)) 55 1 \<and> merged (trans_of a' 0) \<and> \<not> merged (trans_of a 0)"
proof -
  define a where "a = \<lparr>a_nextState = 4, a_nextTransition = 6, a_curState = 0, a_states = [0, 2, - 1, 0],
       a_isAccept = [] :: nat list, a_transitions = [1, 60, 70, 1, 50, 59], a_deterministic = True\<rparr>"
  have t: "trans_of a 0 = [(1, 60, 70), (1, 50, 59)]"
    by (simp add: a_def trans_of_def triples_def eval_nat_numeral)
  have pre: "a_curState a = int 0" "2 * 0 + 1 < length (a_states a)" "a_states a ! (2 * 0) = 0"
    "a_states a ! (2 * 0 + 1) = int 2" "3 * 2 \<le> length (a_transitions a)"
    "\<forall>(d, mn, mx) \<in> set (trans_of a 0). mn \<le> mx \<and> 0 \<le> d"
    unfolding t by (simp_all add: a_def)
  obtain a' where "finishCurrentState a = Some a'" "merged (trans_of a' 0)"
    "\<forall>c d. leads (set (trans_of a' 0)) c d \<longleftrightarrow> leads (set (trans_of a 0)) c d"
    using finish_first_state [OF pre] by blast
  moreover have "leads (set (trans_of a 0)) 55 1"
    unfolding t leads_def by (intro exI [of _ 50] exI [of _ 59]) simp
  moreover have "\<not> merged (trans_of a 0)"
    unfolding t merged_def by simp
  ultimately show ?thesis
    using a_def by blast
qed

text \<open>An automaton with the labels 5 from state 0 and 20 from state 1, and the same after one more call.\<close>

definition lossy_automaton :: "nat list Automaton" where
  "lossy_automaton = \<lparr>a_nextState = 6, a_nextTransition = 6, a_curState = 1, a_states = [0, 1, 3, 1, - 1, 0],
     a_isAccept = [2], a_transitions = [1, 5, 5, 2, 20, 20], a_deterministic = True\<rparr>"

definition lossy_added :: "nat list Automaton" where
  "lossy_added = lossy_automaton\<lparr>a_nextTransition := 9, a_states := [0, 1, 3, 2, - 1, 0],
     a_transitions := [1, 5, 5, 2, 20, 20, 2, 10, 10]\<rparr>"

lemma lossy_add: "AddTransition lossy_automaton 1 2 10 10 = Some (Inr (), lossy_added)"
  by (simp add: lossy_automaton_def lossy_added_def AddTransition_def grow_def slice_get_def slice_set_def write3_def
      int_index_def eval_nat_numeral)

lemma lossy_finish: "map_option (\<lambda>a. (a_states a, a_transitions a)) (finishState lossy_added) =
    Some ([0, 1, 3, 1, - 1, 0], [1, 5, 5, 2, 20, 20, 2, 10, 10])"
  by code_simp

lemma Step_cong:
  assumes "a_states a = a_states b" and "a_transitions a = a_transitions b"
  shows "Step a s c = Step b s c"
  by (simp add: Step_def automaton_next_def assms)

lemma lossy_step:
  assumes "a_states a = [0, 1, 3, 1, - 1, 0]" and "a_transitions a = [1, 5, 5, 2, 20, 20, 2, 10, 10]"
  shows "Step a 1 10 = Some (- 1)"
proof -
  have "Step (lossy_automaton\<lparr>a_transitions := [1, 5, 5, 2, 20, 20, 2, 10, 10]\<rparr>) 1 10 = Some (- 1)"
    by code_simp
  moreover have "Step a 1 10 = Step (lossy_automaton\<lparr>a_transitions := [1, 5, 5, 2, 20, 20, 2, 10, 10]\<rparr>) 1 10"
    by (rule Step_cong) (simp_all add: assms lossy_automaton_def)
  ultimately show ?thesis
    by simp
qed

text \<open>
  Finishing any later state goes wrong: the sorters work on the first transitions of the array
  instead of those of the state. Here state 1 gets the labels 20 and then 10; the unsorted
  transitions are merged to the label 20, and the label 10 is lost.
\<close>

theorem finish_later_state_loses:
  "AddTransition lossy_automaton 1 2 10 10 = Some (Inr (), lossy_added) \<and>
   (2, 10, 10) \<in> set (trans_of lossy_added 1) \<and>
   (\<exists>a. finishState lossy_added = Some a \<and> Step a 1 10 = Some (- 1))"
proof (intro conjI)
  show "AddTransition lossy_automaton 1 2 10 10 = Some (Inr (), lossy_added)"
    by (rule lossy_add)
  show "(2, 10, 10) \<in> set (trans_of lossy_added 1)"
    by (simp add: lossy_added_def trans_of_def triples_def eval_nat_numeral)
  obtain a where a: "finishState lossy_added = Some a"
    "a_states a = [0, 1, 3, 1, - 1, 0]" "a_transitions a = [1, 5, 5, 2, 20, 20, 2, 10, 10]"
    using lossy_finish by (cases "finishState lossy_added") simp_all
  then show "\<exists>a. finishState lossy_added = Some a \<and> Step a 1 10 = Some (- 1)"
    using lossy_step by blast
qed

lemma bind_None_right: "Option.bind x (\<lambda>_. None) = None"
  by (cases x) simp_all

lemma next_set_exists:
  assumes "bitset_laws B" and "bs_test B b s"
  shows "\<exists>q. bs_next_set B b 0 = Some q"
proof -
  have "\<exists>j. 0 \<le> j \<and> bs_test B b j"
    using assms(2) by auto
  then show ?thesis
    unfolding bitset_laws.next_set [OF assms(1), of b 0] by (simp only: if_True) blast
qed

text \<open>
  C29. \<open>Copy\<close> never returns when the automaton to copy has an accept state: the loop over the accept
  states advances a variable of its inner block and starts over with the same one.
\<close>

theorem copy_never_returns:
  assumes "bitset_laws B" and "IsAccept B other s" and "0 < GetNumStates other"
  shows "Automaton_Copy B a other = None"
proof -
  have "\<exists>q. bs_next_set B (a_isAccept other) 0 = Some q"
    using assms(1,2) unfolding IsAccept_def by (rule next_set_exists)
  then obtain q where q: "bs_next_set B (a_isAccept other) 0 = Some q" ..
  have stuck: "\<And>off b. copy_accept_loop B (a_isAccept other) (GetNumStates other) off 0 b = None"
    by (rule copy_accept_loop_stuck [OF q assms(3)])
  show ?thesis
    unfolding Automaton_Copy_def Let_def stuck by (simp only: Option.bind.simps bind_None_right)
qed

theorem copy_never_returns_witness: "Automaton_Copy list_bitset (NewAutomaton list_bitset) example_automaton = None"
  using copy_never_returns [OF list_bits.bitset_laws_axioms, of example_automaton 1]
  by (simp add: example_states)

end
