(* ===== verification/Int_Blocks.thy ===== *)
theory Int_Blocks
  imports Prelude
begin

text \<open>
  core/util/ints/blockpool.go: integers written into slices of growing length, which are allocated in
  a pool of blocks and linked by forwarding addresses.
\<close>

subsection \<open>The pool\<close>

definition INT_BLOCK_SHIFT :: nat where "INT_BLOCK_SHIFT = 13"

definition INT_BLOCK_SIZE :: int where "INT_BLOCK_SIZE = push_bit INT_BLOCK_SHIFT 1"

definition INT_BLOCK_MASK :: int where "INT_BLOCK_MASK = INT_BLOCK_SIZE - 1"

definition INT_NEXT_LEVEL_ARRAY :: "nat list" where
  "INT_NEXT_LEVEL_ARRAY = [1, 2, 3, 4, 5, 6, 7, 8, 9, 9]"

definition INT_LEVEL_SIZE_ARRAY :: "nat list" where
  "INT_LEVEL_SIZE_ARRAY = [2, 4, 8, 16, 16, 32, 32, 64, 64, 128]"

definition INT_FIRST_LEVEL_SIZE :: nat where "INT_FIRST_LEVEL_SIZE = INT_LEVEL_SIZE_ARRAY ! 0"

text \<open>
  A nil block is the empty list. \<open>buffer\<close> is always one of \<open>buffers\<close> or nil; the model keeps which one,
  so that a write through one name is seen through the other. \<open>blockSize\<close> is the length of the blocks
  the allocator makes (all zero, for every allocator of the file).
\<close>

record IntPool =
  ip_buffers :: "int list list"
  ip_bufferUpto :: int
  ip_intUpto :: int
  ip_buffer :: "nat option"
  ip_intOffset :: int
  ip_blockSize :: nat

definition NewIntPool :: "nat \<Rightarrow> IntPool" where
  "NewIntPool blockSize = \<lparr>ip_buffers = [], ip_bufferUpto = - 1, ip_intUpto = INT_BLOCK_SIZE, ip_buffer = None,
     ip_intOffset = - INT_BLOCK_SIZE, ip_blockSize = blockSize\<rparr>"

definition AddIntUpto :: "IntPool \<Rightarrow> int \<Rightarrow> IntPool" where
  "AddIntUpto p v = p\<lparr>ip_intUpto := ip_intUpto p + v\<rparr>"

text \<open>Element \<open>k\<close> of block \<open>i\<close>\<close>

definition ip_read :: "IntPool \<Rightarrow> int \<Rightarrow> int \<Rightarrow> int option" where
  "ip_read p i k = do {
     i \<leftarrow> int_index i;
     b \<leftarrow> slice_get (ip_buffers p) i;
     k \<leftarrow> int_index k;
     slice_get b k
   }"

definition ip_store :: "IntPool \<Rightarrow> int \<Rightarrow> int \<Rightarrow> int \<Rightarrow> IntPool option" where
  "ip_store p i k v = do {
     i \<leftarrow> int_index i;
     b \<leftarrow> slice_get (ip_buffers p) i;
     k \<leftarrow> int_index k;
     b \<leftarrow> slice_set b k v;
     Some (p\<lparr>ip_buffers := (ip_buffers p)[i := b]\<rparr>)
   }"

text \<open>What the allocator does with recycled blocks does not matter here: it only makes new ones.\<close>

definition Int_Reset :: "IntPool \<Rightarrow> bool \<Rightarrow> bool \<Rightarrow> IntPool option" where
  "Int_Reset p zeroFillBuffers reuseFirst =
     (if ip_bufferUpto p \<noteq> - 1 then
        let bufs = ip_buffers p;
            bufs = (if zeroFillBuffers then map (\<lambda>b. replicate (length b) 0) bufs else bufs);
            off = (if reuseFirst then 1 else 0);
            bufs = (if ip_bufferUpto p > 0 \<or> \<not> reuseFirst
              then take off bufs @ replicate (length bufs - off) [] else bufs) in
        if reuseFirst then
          Option.bind (slice_get bufs 0) (\<lambda>_.
            Some (p\<lparr>ip_buffers := bufs, ip_bufferUpto := 0, ip_intUpto := 0, ip_intOffset := 0, ip_buffer := Some 0\<rparr>))
        else Some (p\<lparr>ip_buffers := bufs, ip_bufferUpto := - 1, ip_intUpto := INT_BLOCK_SIZE,
               ip_intOffset := - INT_BLOCK_SIZE, ip_buffer := None\<rparr>)
      else Some p)"

definition Int_NextBuffer :: "IntPool \<Rightarrow> IntPool option" where
  "Int_NextBuffer p = do {
     let bufs = ip_buffers p @ [replicate (ip_blockSize p) 0];
     i \<leftarrow> int_index (ip_bufferUpto p + 1);
     _ \<leftarrow> slice_get bufs i;
     Some (p\<lparr>ip_buffers := bufs, ip_buffer := Some i, ip_bufferUpto := ip_bufferUpto p + 1, ip_intUpto := 0,
       ip_intOffset := ip_intOffset p + INT_BLOCK_SIZE\<rparr>)
   }"

definition newSlice :: "IntPool \<Rightarrow> nat \<Rightarrow> (int \<times> IntPool) option" where
  "newSlice p len = do {
     p \<leftarrow> (if ip_intUpto p > INT_BLOCK_SIZE - int len then Int_NextBuffer p else Some p);
     let upto = ip_intUpto p;
     let p = p\<lparr>ip_intUpto := ip_intUpto p + int len\<rparr>;
     b \<leftarrow> ip_buffer p;
     p \<leftarrow> ip_store p (int b) (ip_intUpto p - 1) 16;
     Some (upto, p)
   }"

text \<open>The slice is in \<open>block\<close>.\<close>

definition allocSlice :: "IntPool \<Rightarrow> int \<Rightarrow> int \<Rightarrow> (int \<times> IntPool) option" where
  "allocSlice p block sliceOffset = do {
     m \<leftarrow> ip_read p block sliceOffset;
     let level = m AND 15;
     level \<leftarrow> int_index level;
     newLevel \<leftarrow> slice_get INT_NEXT_LEVEL_ARRAY level;
     newSize \<leftarrow> slice_get INT_LEVEL_SIZE_ARRAY newLevel;
     p \<leftarrow> (if ip_intUpto p > INT_BLOCK_SIZE - int newSize then Int_NextBuffer p else Some p);
     let newUpto = ip_intUpto p;
     let off = newUpto + ip_intOffset p;
     let p = p\<lparr>ip_intUpto := ip_intUpto p + int newSize\<rparr>;
     p \<leftarrow> ip_store p block sliceOffset off;
     b \<leftarrow> ip_buffer p;
     p \<leftarrow> ip_store p (int b) (ip_intUpto p - 1) (16 OR int newLevel);
     Some (newUpto, p)
   }"

subsection \<open>SliceWriter\<close>

text \<open>A writer is its offset; the pool is passed along.\<close>

definition WriteInt :: "IntPool \<Rightarrow> int \<Rightarrow> int \<Rightarrow> (int \<times> IntPool) option" where
  "WriteInt p off v = do {
     let ints = drop_bit INT_BLOCK_SHIFT off;
     let relativeOffset = off AND INT_BLOCK_MASK;
     m \<leftarrow> ip_read p ints relativeOffset;
     (ints, relativeOffset, off, p) \<leftarrow>
       (if m \<noteq> 0 then do {
          (relativeOffset, p) \<leftarrow> allocSlice p ints relativeOffset;
          b \<leftarrow> ip_buffer p;
          Some (int b, relativeOffset, relativeOffset + ip_intOffset p, p)
        }
        else Some (ints, relativeOffset, off, p));
     p \<leftarrow> ip_store p ints relativeOffset v;
     Some (off + 1, p)
   }"

definition StartNewSlice :: "IntPool \<Rightarrow> (int \<times> IntPool) option" where
  "StartNewSlice p = do {
     (upto, p) \<leftarrow> newSlice p INT_FIRST_LEVEL_SIZE;
     Some (upto + ip_intOffset p, p)
   }"

subsection \<open>SliceReader\<close>

record SliceReader =
  sr_upto :: int
  sr_bufferUpto :: int
  sr_bufferOffset :: int
  sr_limit :: int
  sr_level :: nat
  sr_end :: int

text \<open>\<open>buffer\<close> is the block \<open>bufferUpto\<close> of the pool. Go's division of a non-negative offset rounds down.\<close>

definition SliceReader_Reset :: "IntPool \<Rightarrow> int \<Rightarrow> int \<Rightarrow> SliceReader option" where
  "SliceReader_Reset p startOffset endOffset = do {
     let bufferUpto = startOffset div INT_BLOCK_SIZE;
     i \<leftarrow> int_index bufferUpto;
     _ \<leftarrow> slice_get (ip_buffers p) i;
     let upto = startOffset AND INT_BLOCK_MASK;
     firstSize \<leftarrow> slice_get INT_LEVEL_SIZE_ARRAY 0;
     Some \<lparr>sr_upto = upto, sr_bufferUpto = bufferUpto, sr_bufferOffset = bufferUpto * INT_BLOCK_SIZE,
       sr_limit = (if startOffset + int firstSize \<ge> endOffset then endOffset AND INT_BLOCK_MASK
                   else upto + int firstSize - 1),
       sr_level = 0, sr_end = endOffset\<rparr>
   }"

definition EndOfSlice :: "SliceReader \<Rightarrow> bool" where
  "EndOfSlice r \<longleftrightarrow> sr_upto r + sr_bufferOffset r = sr_end r"

definition nextSlice :: "IntPool \<Rightarrow> SliceReader \<Rightarrow> SliceReader option" where
  "nextSlice p r = do {
     nextIndex \<leftarrow> ip_read p (sr_bufferUpto r) (sr_limit r);
     level \<leftarrow> slice_get INT_NEXT_LEVEL_ARRAY (sr_level r);
     newSize \<leftarrow> slice_get INT_LEVEL_SIZE_ARRAY level;
     let bufferUpto = nextIndex div INT_BLOCK_SIZE;
     i \<leftarrow> int_index bufferUpto;
     _ \<leftarrow> slice_get (ip_buffers p) i;
     let bufferOffset = bufferUpto * INT_BLOCK_SIZE;
     let upto = nextIndex AND INT_BLOCK_MASK;
     Some (r\<lparr>sr_upto := upto, sr_bufferUpto := bufferUpto, sr_bufferOffset := bufferOffset,
       sr_limit := (if nextIndex + int newSize \<ge> sr_end r then sr_end r - bufferOffset else upto + int newSize - 1),
       sr_level := level\<rparr>)
   }"

definition ReadInt :: "IntPool \<Rightarrow> SliceReader \<Rightarrow> (int \<times> SliceReader) option" where
  "ReadInt p r = do {
     r \<leftarrow> (if sr_upto r = sr_limit r then nextSlice p r else Some r);
     v \<leftarrow> ip_read p (sr_bufferUpto r) (sr_upto r);
     Some (v, r\<lparr>sr_upto := sr_upto r + 1\<rparr>)
   }"

text \<open>Reading a slice to its end, as the callers do\<close>

partial_function (option) read_to_end :: "IntPool \<Rightarrow> SliceReader \<Rightarrow> int list option" where
  [code]: "read_to_end p r =
     (if EndOfSlice r then Some []
      else Option.bind (ReadInt p r) (\<lambda>x. Option.bind (read_to_end p (snd x)) (\<lambda>vs. Some (fst x # vs))))"

end
