(* ===== verification/Int_Blocks_Correct.thy ===== *)
theory Int_Blocks_Correct
  imports Int_Blocks
begin

text \<open>
  The pool of integer blocks is a flat memory with a top (\<open>ip_mem\<close>, \<open>ip_top\<close>); a stream is a chain of
  slices in it (\<open>chain\<close>); writing extends one chain and leaves the others alone, and a reader returns
  what a chain holds.
\<close>

subsection \<open>The pool as a flat memory\<close>

definition ip_mem :: "IntPool \<Rightarrow> nat \<Rightarrow> int" where
  "ip_mem p a = (if a div 8192 < length (ip_buffers p) then ip_buffers p ! (a div 8192) ! (a mod 8192) else 0)"

definition ip_top :: "IntPool \<Rightarrow> nat" where
  "ip_top p = nat (ip_intOffset p + ip_intUpto p)"

definition ip_shape :: "IntPool \<Rightarrow> bool" where
  "ip_shape p \<longleftrightarrow> ip_blockSize p = 8192 \<and> (\<forall>b \<in> set (ip_buffers p). length b = 8192) \<and>
     ip_bufferUpto p = int (length (ip_buffers p)) - 1 \<and> ip_intOffset p = 8192 * ip_bufferUpto p \<and>
     0 \<le> ip_intUpto p \<and> ip_intUpto p \<le> 8192 \<and> (ip_buffers p = [] \<longrightarrow> ip_intUpto p = 8192) \<and>
     ip_buffer p = (if ip_buffers p = [] then None else Some (length (ip_buffers p) - 1))"

definition ip_ok :: "IntPool \<Rightarrow> bool" where
  "ip_ok p \<longleftrightarrow> ip_shape p \<and> (\<forall>a \<ge> ip_top p. ip_mem p a = 0)"

lemma int_block_consts:
  "INT_BLOCK_SIZE = 8192" "INT_BLOCK_MASK = mask 13" "drop_bit INT_BLOCK_SHIFT (int a) = int (a div 8192)"
  "int a AND INT_BLOCK_MASK = int (a mod 8192)"
proof -
  show s: "INT_BLOCK_SIZE = 8192"
    by (simp add: INT_BLOCK_SIZE_def INT_BLOCK_SHIFT_def push_bit_eq_mult)
  show m: "INT_BLOCK_MASK = mask 13"
    by (simp add: INT_BLOCK_MASK_def s mask_eq_exp_minus_1)
  show "drop_bit INT_BLOCK_SHIFT (int a) = int (a div 8192)"
    by (simp add: INT_BLOCK_SHIFT_def drop_bit_eq_div zdiv_int)
  show "int a AND INT_BLOCK_MASK = int (a mod 8192)"
    by (simp add: m take_bit_eq_mask [symmetric] take_bit_eq_mod zmod_int)
qed

lemma ip_shape_lengths:
  assumes "ip_shape p" and "a < 8192 * length (ip_buffers p)"
  shows "a div 8192 < length (ip_buffers p)" "length (ip_buffers p ! (a div 8192)) = 8192"
proof -
  show *: "a div 8192 < length (ip_buffers p)"
    using assms(2) by (simp add: div_less_iff_less_mult mult.commute)
  then show "length (ip_buffers p ! (a div 8192)) = 8192"
    using assms(1) by (simp add: ip_shape_def)
qed

lemma ip_read_mem:
  assumes "ip_shape p" and "a < 8192 * length (ip_buffers p)"
  shows "ip_read p (int (a div 8192)) (int (a mod 8192)) = Some (ip_mem p a)"
  using ip_shape_lengths [OF assms] by (simp add: ip_read_def ip_mem_def slice_get_in del: of_nat_div of_nat_mod)

lemma ip_store_mem:
  assumes "ip_shape p" and "a < 8192 * length (ip_buffers p)"
  obtains bufs where "ip_store p (int (a div 8192)) (int (a mod 8192)) v = Some (p\<lparr>ip_buffers := bufs\<rparr>)"
    "ip_shape (p\<lparr>ip_buffers := bufs\<rparr>)" "ip_mem (p\<lparr>ip_buffers := bufs\<rparr>) = (ip_mem p)(a := v)"
    "length bufs = length (ip_buffers p)"
proof
  let ?i = "a div 8192" and ?b = "ip_buffers p ! (a div 8192)"
  let ?bufs = "(ip_buffers p)[?i := ?b[a mod 8192 := v]]"
  note len = ip_shape_lengths [OF assms]
  show "ip_store p (int (a div 8192)) (int (a mod 8192)) v = Some (p\<lparr>ip_buffers := ?bufs\<rparr>)"
    using len by (simp add: ip_store_def slice_get_in slice_set_in del: of_nat_div of_nat_mod)
  have "\<forall>b \<in> set ?bufs. length b = 8192"
    using assms(1) len set_update_subset_insert [of "ip_buffers p" ?i "?b[a mod 8192 := v]"]
    unfolding ip_shape_def by auto
  then show "ip_shape (p\<lparr>ip_buffers := ?bufs\<rparr>)"
    using assms(1) by (auto simp: ip_shape_def)
  have eq: "x = y \<longleftrightarrow> x div 8192 = y div 8192 \<and> x mod 8192 = y mod 8192" for x y :: nat
    by (metis div_mult_mod_eq)
  show "ip_mem (p\<lparr>ip_buffers := ?bufs\<rparr>) = (ip_mem p)(a := v)"
  proof
    fix x show "ip_mem (p\<lparr>ip_buffers := ?bufs\<rparr>) x = ((ip_mem p)(a := v)) x"
      using len by (cases "x div 8192 = ?i"; cases "x mod 8192 = a mod 8192") (auto simp: ip_mem_def eq [of x a])
  qed
  show "length ?bufs = length (ip_buffers p)"
    by simp
qed

lemma ip_shape_top:
  assumes s: "ip_shape p" and ne: "ip_buffers p \<noteq> []"
  shows "int (ip_top p) = ip_intOffset p + ip_intUpto p" "ip_top p \<le> 8192 * length (ip_buffers p)"
    "ip_intOffset p = int (8192 * (length (ip_buffers p) - 1))"
proof -
  have l: "1 \<le> length (ip_buffers p)"
    using ne by (cases "ip_buffers p") auto
  have u: "0 \<le> ip_intUpto p" "ip_intUpto p \<le> 8192" "ip_intOffset p = 8192 * (int (length (ip_buffers p)) - 1)"
    using s by (simp_all add: ip_shape_def)
  show o: "ip_intOffset p = int (8192 * (length (ip_buffers p) - 1))"
    unfolding u(3) using l by (simp add: of_nat_diff)
  show t: "int (ip_top p) = ip_intOffset p + ip_intUpto p"
    unfolding ip_top_def using u(1) o by linarith
  have "int (ip_top p) \<le> int (8192 * length (ip_buffers p))"
    using t u by simp
  then show "ip_top p \<le> 8192 * length (ip_buffers p)"
    by (simp only: of_nat_le_iff)
qed

text \<open>Room for a slice of \<open>z\<close> numbers in the current block, or in a new one\<close>

definition ip_room :: "IntPool \<Rightarrow> nat \<Rightarrow> IntPool option" where
  "ip_room p z = (if ip_intUpto p > INT_BLOCK_SIZE - int z then Int_NextBuffer p else Some p)"

lemma ip_mem_new_block:
  assumes "\<forall>a \<ge> 8192 * length (ip_buffers p). ip_mem p a = 0"
    and "ip_buffers q = ip_buffers p @ [replicate 8192 0]"
  shows "ip_mem q = ip_mem p"
proof
  fix a
  consider "a div 8192 < length (ip_buffers p)" | "a div 8192 = length (ip_buffers p)"
    | "length (ip_buffers p) < a div 8192"
    by linarith
  then show "ip_mem q a = ip_mem p a"
    by cases (simp_all add: ip_mem_def assms(2) nth_append)
qed

lemma ip_room:
  assumes ok: "ip_ok p" and z: "0 < z" "z \<le> 8192"
  obtains q k where "ip_room p z = Some q" "ip_ok q" "ip_mem q = ip_mem p" "ip_buffers q \<noteq> []"
    "ip_intUpto q = int k" "k + z \<le> 8192" "ip_top p \<le> ip_top q"
proof (cases "ip_intUpto p > INT_BLOCK_SIZE - int z")
  case False
  have s: "ip_shape p"
    using ok by (simp add: ip_ok_def)
  have "ip_room p z = Some p" "ip_buffers p \<noteq> []" "ip_intUpto p = int (nat (ip_intUpto p))"
      "nat (ip_intUpto p) + z \<le> 8192"
    using False s z by (auto simp: ip_room_def ip_shape_def int_block_consts)
  then show ?thesis
    using that ok by blast
next
  case True
  have s: "ip_shape p" and zero: "\<And>a. ip_top p \<le> a \<Longrightarrow> ip_mem p a = 0"
    using ok by (auto simp: ip_ok_def)
  let ?n = "length (ip_buffers p)"
  let ?q = "p\<lparr>ip_buffers := ip_buffers p @ [replicate 8192 0], ip_buffer := Some ?n, ip_bufferUpto := int ?n,
    ip_intUpto := 0, ip_intOffset := ip_intOffset p + 8192\<rparr>"
  have i: "ip_bufferUpto p + 1 = int ?n" and bs: "ip_blockSize p = 8192"
    using s by (simp_all add: ip_shape_def)
  have room: "ip_room p z = Some ?q"
    using True by (simp add: ip_room_def Int_NextBuffer_def Let_def i bs slice_get_in int_block_consts(1))
  have shape: "ip_shape ?q"
    using s by (auto simp: ip_shape_def)
  have le: "ip_top p \<le> 8192 * ?n"
    using ip_shape_top(2) [OF s] s by (cases "ip_buffers p = []") (auto simp: ip_top_def ip_shape_def)
  have top: "ip_top ?q = 8192 * ?n"
    using s by (simp add: ip_top_def ip_shape_def)
  have mem: "ip_mem ?q = ip_mem p"
    by (rule ip_mem_new_block) (use zero le in auto)
  have ok': "ip_ok ?q"
    using shape zero le unfolding ip_ok_def top mem by auto
  show ?thesis
    by (rule that [OF room ok' mem, of 0]) (use z le top in simp_all)
qed

text \<open>Taking the room\<close>

lemma ip_take:
  assumes "ip_ok q" and "ip_buffers q \<noteq> []" and "ip_intUpto q = int k" and "k + z \<le> 8192"
  defines "r \<equiv> q\<lparr>ip_intUpto := ip_intUpto q + int z\<rparr>"
  shows "ip_ok r" "ip_mem r = ip_mem q" "ip_top r = ip_top q + z" "ip_top q mod 8192 + z \<le> 8192 \<or> z = 0"
    "ip_intOffset r = int (ip_top q - k)" "k \<le> ip_top q" "ip_top r \<le> 8192 * length (ip_buffers r)"
    "ip_buffer r = Some ((ip_top r - 1) div 8192) \<or> z = 0" "int k + int z - 1 = int ((ip_top r - 1) mod 8192) \<or> z = 0"
proof -
  have s: "ip_shape q"
    using assms(1) by (simp add: ip_ok_def)
  have sr: "ip_shape r"
    using s assms(2-4) by (auto simp: ip_shape_def r_def)
  have b: "ip_buffers r = ip_buffers q" "ip_intOffset r = ip_intOffset q" "ip_intUpto r = int (k + z)"
    by (simp_all add: r_def assms(3))
  note tq = ip_shape_top [OF s assms(2)] and tr = ip_shape_top [OF sr, unfolded b, OF assms(2)]
  show mem: "ip_mem r = ip_mem q"
    by (simp add: fun_eq_iff ip_mem_def b)
  show top: "ip_top r = ip_top q + z"
    using tq(1) tr(1) assms(3) by linarith
  show "ip_ok r"
    using assms(1) sr unfolding ip_ok_def mem top by auto
  have tq': "ip_top q = 8192 * (length (ip_buffers q) - 1) + k"
    using tq(1) unfolding tq(3) assms(3) by linarith
  show "ip_intOffset r = int (ip_top q - k)" "k \<le> ip_top q"
    unfolding b tq(3) tq' by simp_all
  show "ip_top r \<le> 8192 * length (ip_buffers r)"
    unfolding b by (rule tr(2))
  show "ip_top q mod 8192 + z \<le> 8192 \<or> z = 0"
    using assms(4) unfolding tq' by auto
  have last: "ip_top r - 1 = 8192 * (length (ip_buffers q) - 1) + (k + z - 1)" if "z \<noteq> 0"
    using that unfolding top tq' by simp
  have small: "k + z - 1 < 8192"
    using assms(4) by linarith
  show "ip_buffer r = Some ((ip_top r - 1) div 8192) \<or> z = 0"
  proof (cases "z = 0")
    case False
    have "(ip_top r - 1) div 8192 = length (ip_buffers q) - 1"
      unfolding last [OF False] using small by simp
    then show ?thesis
      using sr assms(2) by (simp add: ip_shape_def b)
  qed simp
  show "int k + int z - 1 = int ((ip_top r - 1) mod 8192) \<or> z = 0"
  proof (cases "z = 0")
    case False
    have "(ip_top r - 1) mod 8192 = k + z - 1"
      unfolding last [OF False] using small by simp
    then show ?thesis
      using False by (simp add: of_nat_diff)
  qed simp
qed


lemma ip_ok_store:
  assumes ok: "ip_ok p" and a: "a < ip_top p"
  obtains p' where "ip_store p (int (a div 8192)) (int (a mod 8192)) v = Some p'" "ip_ok p'"
    "ip_mem p' = (ip_mem p)(a := v)" "ip_top p' = ip_top p" "ip_buffer p' = ip_buffer p"
    "ip_intUpto p' = ip_intUpto p" "ip_intOffset p' = ip_intOffset p"
proof -
  have s: "ip_shape p"
    using ok by (simp add: ip_ok_def)
  have "ip_buffers p \<noteq> []"
    using a s by (auto simp: ip_top_def ip_shape_def)
  then have "a < 8192 * length (ip_buffers p)"
    using ip_shape_top(2) [OF s] a by linarith
  then obtain bufs where b: "ip_store p (int (a div 8192)) (int (a mod 8192)) v = Some (p\<lparr>ip_buffers := bufs\<rparr>)"
    "ip_shape (p\<lparr>ip_buffers := bufs\<rparr>)" "ip_mem (p\<lparr>ip_buffers := bufs\<rparr>) = (ip_mem p)(a := v)"
    using ip_store_mem [OF s] by blast
  have t: "ip_top (p\<lparr>ip_buffers := bufs\<rparr>) = ip_top p"
    by (simp add: ip_top_def)
  have "ip_ok (p\<lparr>ip_buffers := bufs\<rparr>)"
    using b(2) ok a unfolding ip_ok_def b(3) t by auto
  then show ?thesis
    using that [OF b(1) _ b(3) t] by simp
qed

lemma ip_ok_read:
  assumes ok: "ip_ok p" and a: "a < ip_top p"
  shows "ip_read p (int (a div 8192)) (int (a mod 8192)) = Some (ip_mem p a)"
proof (rule ip_read_mem)
  show s: "ip_shape p"
    using ok by (simp add: ip_ok_def)
  have "ip_buffers p \<noteq> []"
    using a s by (auto simp: ip_top_def ip_shape_def)
  then show "a < 8192 * length (ip_buffers p)"
    using ip_shape_top(2) [OF s] a by linarith
qed

text \<open>Finding room and taking it: the new slice starts at \<open>s\<close>.\<close>

lemma ip_alloc:
  assumes "ip_ok p" and z: "0 < z" "z \<le> 8192"
  obtains q s where "ip_room p z = Some q" "ip_ok q" "ip_intUpto q + ip_intOffset q = int s" "ip_intUpto q = int (s mod 8192)"
    "ip_ok (q\<lparr>ip_intUpto := ip_intUpto q + int z\<rparr>)" "ip_mem (q\<lparr>ip_intUpto := ip_intUpto q + int z\<rparr>) = ip_mem p"
    "ip_top p \<le> s" "ip_top (q\<lparr>ip_intUpto := ip_intUpto q + int z\<rparr>) = s + z" "s mod 8192 + z \<le> 8192"
    "ip_buffer q = Some ((s + z - 1) div 8192)" "ip_intUpto q + int z - 1 = int ((s + z - 1) mod 8192)"
    "ip_buffer q = Some (s div 8192)"
proof -
  obtain q k where q: "ip_room p z = Some q" "ip_ok q" "ip_mem q = ip_mem p" "ip_buffers q \<noteq> []"
    "ip_intUpto q = int k" "k + z \<le> 8192" "ip_top p \<le> ip_top q"
    using ip_room [OF assms] by blast
  note t = ip_take [OF q(2,4,5,6)]
  let ?s = "ip_top q"
  have sh: "ip_shape q"
    using q(2) by (simp add: ip_ok_def)
  have top: "int ?s = ip_intOffset q + ip_intUpto q" and off: "ip_intOffset q = int (8192 * (length (ip_buffers q) - 1))"
    using ip_shape_top [OF sh q(4)] by auto
  have s: "?s = 8192 * (length (ip_buffers q) - 1) + k"
    using top unfolding off q(5) by linarith
  have k: "k < 8192"
    using q(6) z by linarith
  then have kmod: "?s mod 8192 = k" and kdiv: "?s div 8192 = length (ip_buffers q) - 1"
    unfolding s by simp_all
  show ?thesis
  proof (rule that [OF q(1,2)])
    show "ip_intUpto q + ip_intOffset q = int ?s"
      using top by simp
    show "ip_intUpto q = int (?s mod 8192)"
      unfolding kmod by (rule q(5))
    show "ip_ok (q\<lparr>ip_intUpto := ip_intUpto q + int z\<rparr>)"
      by (rule t(1))
    show "ip_mem (q\<lparr>ip_intUpto := ip_intUpto q + int z\<rparr>) = ip_mem p"
      using t(2) q(3) by simp
    show "ip_top p \<le> ?s"
      by (rule q(7))
    show tt: "ip_top (q\<lparr>ip_intUpto := ip_intUpto q + int z\<rparr>) = ?s + z"
      by (rule t(3))
    show "?s mod 8192 + z \<le> 8192"
      using q(6) unfolding kmod .
    show "ip_buffer q = Some ((?s + z - 1) div 8192)"
      using t(8) z unfolding tt by simp
    show "ip_intUpto q + int z - 1 = int ((?s + z - 1) mod 8192)"
      using t(9) [unfolded tt] z unfolding q(5) by simp
    show "ip_buffer q = Some (?s div 8192)"
      using sh q(4) unfolding kdiv by (simp add: ip_shape_def)
  qed
qed

text \<open>The marker at the end of a slice of level \<open>l\<close>\<close>

definition marker :: "nat \<Rightarrow> int" where
  "marker l = 16 OR int l"

lemma level_cases: "l \<le> (9 :: nat) \<Longrightarrow> l = 0 \<or> l = 1 \<or> l = 2 \<or> l = 3 \<or> l = 4 \<or> l = 5 \<or> l = 6 \<or> l = 7 \<or> l = 8 \<or> l = 9"
  by auto

lemma marker_facts:
  assumes "l \<le> 9"
  shows "marker l AND 15 = int l" "marker l \<noteq> 0"
    "slice_get INT_NEXT_LEVEL_ARRAY l = Some (INT_NEXT_LEVEL_ARRAY ! l)" "INT_NEXT_LEVEL_ARRAY ! l \<le> 9"
    "slice_get INT_LEVEL_SIZE_ARRAY l = Some (INT_LEVEL_SIZE_ARRAY ! l)"
    "2 \<le> INT_LEVEL_SIZE_ARRAY ! l" "INT_LEVEL_SIZE_ARRAY ! l \<le> 128"
  using level_cases [OF assms]
  by (auto simp: marker_def INT_NEXT_LEVEL_ARRAY_def INT_LEVEL_SIZE_ARRAY_def slice_get_def)

abbreviation level_size :: "nat \<Rightarrow> nat" where
  "level_size l \<equiv> INT_LEVEL_SIZE_ARRAY ! l"

abbreviation next_level :: "nat \<Rightarrow> nat" where
  "next_level l \<equiv> INT_NEXT_LEVEL_ARRAY ! l"

lemma newSlice_flat:
  assumes ok: "ip_ok p" and z: "0 < z" "z \<le> 8192"
  obtains s p' where "newSlice p z = Some (int (s mod 8192), p')" "int (s mod 8192) + ip_intOffset p' = int s"
    "ip_ok p'" "ip_mem p' = (ip_mem p)(s + z - 1 := 16)" "ip_top p \<le> s" "ip_top p' = s + z" "s mod 8192 + z \<le> 8192"
proof -
  obtain q s where q: "ip_room p z = Some q" "ip_ok q" "ip_intUpto q + ip_intOffset q = int s" "ip_intUpto q = int (s mod 8192)"
    "ip_ok (q\<lparr>ip_intUpto := ip_intUpto q + int z\<rparr>)" "ip_mem (q\<lparr>ip_intUpto := ip_intUpto q + int z\<rparr>) = ip_mem p"
    "ip_top p \<le> s" "ip_top (q\<lparr>ip_intUpto := ip_intUpto q + int z\<rparr>) = s + z" "s mod 8192 + z \<le> 8192"
    "ip_buffer q = Some ((s + z - 1) div 8192)" "ip_intUpto q + int z - 1 = int ((s + z - 1) mod 8192)"
    using ip_alloc [OF ok z] by blast
  have "s + z - 1 < ip_top (q\<lparr>ip_intUpto := ip_intUpto q + int z\<rparr>)"
    using z unfolding q(8) by linarith
  then obtain p' where p': "ip_store (q\<lparr>ip_intUpto := ip_intUpto q + int z\<rparr>) (int ((s + z - 1) div 8192))
      (int ((s + z - 1) mod 8192)) 16 = Some p'"
    "ip_ok p'" "ip_mem p' = (ip_mem p)(s + z - 1 := 16)" "ip_top p' = s + z" "ip_intOffset p' = ip_intOffset q"
    using ip_ok_store [OF q(5), of "s + z - 1" 16] unfolding q(6,8) by auto
  have r: "ip_buffer (q\<lparr>ip_intUpto := ip_intUpto q + int z\<rparr>) = Some ((s + z - 1) div 8192)"
    "ip_intUpto (q\<lparr>ip_intUpto := ip_intUpto q + int z\<rparr>) - 1 = int ((s + z - 1) mod 8192)"
    using q(10,11) by simp_all
  have "newSlice p z = Some (ip_intUpto q, p')"
    unfolding newSlice_def ip_room_def [symmetric] q(1) Let_def Option.bind.simps r p'(1) ..
  then have "newSlice p z = Some (int (s mod 8192), p')"
    unfolding q(4) .
  then show ?thesis
    using that p' q(3,4,7,9) by simp
qed

lemma allocSlice_flat:
  assumes ok: "ip_ok p" and a: "a < ip_top p" and m: "ip_mem p a = marker l" and l: "l \<le> 9"
  defines "z \<equiv> level_size (next_level l)"
  obtains s p' where "allocSlice p (int (a div 8192)) (int (a mod 8192)) = Some (int (s mod 8192), p')"
    "int (s mod 8192) + ip_intOffset p' = int s" "ip_buffer p' = Some (s div 8192)"
    "ip_ok p'" "ip_mem p' = (ip_mem p)(a := int s, s + z - 1 := marker (next_level l))"
    "ip_top p \<le> s" "ip_top p' = s + z" "s mod 8192 + z \<le> 8192"
proof -
  note mf = marker_facts [OF l]
  note mf' = marker_facts [OF mf(4)]
  have z: "2 \<le> z" "z \<le> 128"
    using mf'(6,7) by (simp_all add: z_def)
  obtain q s where q: "ip_room p z = Some q" "ip_ok q" "ip_intUpto q + ip_intOffset q = int s" "ip_intUpto q = int (s mod 8192)"
    "ip_ok (q\<lparr>ip_intUpto := ip_intUpto q + int z\<rparr>)" "ip_mem (q\<lparr>ip_intUpto := ip_intUpto q + int z\<rparr>) = ip_mem p"
    "ip_top p \<le> s" "ip_top (q\<lparr>ip_intUpto := ip_intUpto q + int z\<rparr>) = s + z" "s mod 8192 + z \<le> 8192"
    "ip_buffer q = Some ((s + z - 1) div 8192)" "ip_intUpto q + int z - 1 = int ((s + z - 1) mod 8192)"
    "ip_buffer q = Some (s div 8192)"
    using ip_alloc [OF ok, of z] z by auto
  let ?r = "q\<lparr>ip_intUpto := ip_intUpto q + int z\<rparr>"
  have "a < ip_top ?r"
    using a q(7) z unfolding q(8) by linarith
  then obtain p1 where p1: "ip_store ?r (int (a div 8192)) (int (a mod 8192)) (int s) = Some p1"
    "ip_ok p1" "ip_mem p1 = (ip_mem p)(a := int s)" "ip_top p1 = s + z" "ip_buffer p1 = ip_buffer q"
    "ip_intUpto p1 = ip_intUpto q + int z" "ip_intOffset p1 = ip_intOffset q"
    using ip_ok_store [OF q(5), of a "int s"] unfolding q(6,8) by auto
  have "s + z - 1 < ip_top p1"
    using z unfolding p1(4) by linarith
  then obtain p2 where p2: "ip_store p1 (int ((s + z - 1) div 8192)) (int ((s + z - 1) mod 8192))
      (marker (next_level l)) = Some p2"
    "ip_ok p2" "ip_mem p2 = (ip_mem p)(a := int s, s + z - 1 := marker (next_level l))" "ip_top p2 = s + z"
    "ip_buffer p2 = ip_buffer q" "ip_intOffset p2 = ip_intOffset q"
    using ip_ok_store [OF p1(2), of "s + z - 1" "marker (next_level l)"] unfolding p1(3,4,5,7) by auto
  have b: "ip_buffer p1 = Some ((s + z - 1) div 8192)" "ip_intUpto p1 - 1 = int ((s + z - 1) mod 8192)"
    "ip_intUpto q + ip_intOffset q = int s"
    using p1(5,6) q(3,10,11) by simp_all
  have "allocSlice p (int (a div 8192)) (int (a mod 8192)) = Some (ip_intUpto q, p2)"
    unfolding allocSlice_def ip_ok_read [OF ok a] m Let_def Option.bind.simps mf(1,3) int_index_int mf'(5)
      ip_room_def [symmetric] z_def [symmetric] q(1) b(3) p1(1) b(1,2) marker_def [symmetric] p2(1) ..
  then have "allocSlice p (int (a div 8192)) (int (a mod 8192)) = Some (int (s mod 8192), p2)"
    unfolding q(4) .
  then show ?thesis
    using that p2 q(3,4,7,9,12) by simp
qed

lemma WriteInt_room:
  assumes ok: "ip_ok p" and e: "e < ip_top p" and m: "ip_mem p e = 0"
  obtains p' where "WriteInt p (int e) v = Some (int (Suc e), p')" "ip_ok p'" "ip_mem p' = (ip_mem p)(e := v)"
    "ip_top p' = ip_top p"
proof -
  obtain p' where p': "ip_store p (int (e div 8192)) (int (e mod 8192)) v = Some p'" "ip_ok p'"
    "ip_mem p' = (ip_mem p)(e := v)" "ip_top p' = ip_top p"
    using ip_ok_store [OF ok e] by blast
  have "WriteInt p (int e) v = Some (int e + 1, p')"
    unfolding WriteInt_def Let_def int_block_consts(3,4) ip_ok_read [OF ok e] m by (simp add: p'(1) del: of_nat_div of_nat_mod)
  then show ?thesis
    using that p' by simp
qed

lemma WriteInt_full:
  assumes ok: "ip_ok p" and e: "e < ip_top p" and m: "ip_mem p e = marker l" and l: "l \<le> 9"
  defines "z \<equiv> level_size (next_level l)"
  obtains s p' where "WriteInt p (int e) v = Some (int (Suc s), p')" "ip_ok p'"
    "ip_mem p' = (ip_mem p)(e := int s, s + z - 1 := marker (next_level l), s := v)"
    "ip_top p \<le> s" "ip_top p' = s + z" "s mod 8192 + z \<le> 8192"
proof -
  obtain s q where q: "allocSlice p (int (e div 8192)) (int (e mod 8192)) = Some (int (s mod 8192), q)"
    "int (s mod 8192) + ip_intOffset q = int s" "ip_buffer q = Some (s div 8192)"
    "ip_ok q" "ip_mem q = (ip_mem p)(e := int s, s + z - 1 := marker (next_level l))"
    "ip_top p \<le> s" "ip_top q = s + z" "s mod 8192 + z \<le> 8192"
    using allocSlice_flat [OF ok e m l] unfolding z_def by blast
  have "2 \<le> z"
    using marker_facts [OF marker_facts(4) [OF l]] by (simp add: z_def)
  then have "s < ip_top q"
    unfolding q(7) by linarith
  then obtain p' where p': "ip_store q (int (s div 8192)) (int (s mod 8192)) v = Some p'" "ip_ok p'"
    "ip_mem p' = (ip_mem q)(s := v)" "ip_top p' = s + z"
    using ip_ok_store [OF q(4)] unfolding q(7) by metis
  have "WriteInt p (int e) v = Some (int s + 1, p')"
    unfolding WriteInt_def Let_def int_block_consts(3,4) ip_ok_read [OF ok e] m Option.bind.simps
    by (simp add: marker_facts(2) [OF l] q(1,2,3) p'(1) del: of_nat_div of_nat_mod)
  then show ?thesis
    using that p' q(5,6,8) by simp
qed


subsection \<open>Chains of slices\<close>

text \<open>
  \<open>chain m l s xs e F\<close>: the slices linked from address \<open>s\<close>, the first of level \<open>l\<close>, hold \<open>xs\<close>; the next
  number goes to \<open>e\<close>; \<open>F\<close> is the set of addresses the slices take.
\<close>

definition cells :: "(nat \<Rightarrow> int) \<Rightarrow> nat \<Rightarrow> int list \<Rightarrow> bool" where
  "cells m s xs \<longleftrightarrow> (\<forall>i < length xs. m (s + i) = xs ! i)"

inductive chain :: "(nat \<Rightarrow> int) \<Rightarrow> nat \<Rightarrow> nat \<Rightarrow> int list \<Rightarrow> nat \<Rightarrow> nat set \<Rightarrow> bool" for m where
  chain_last: "\<lbrakk>l \<le> 9; s mod 8192 + level_size l \<le> 8192; length xs < level_size l; cells m s xs;
     \<forall>i. length xs \<le> i \<and> i < level_size l - 1 \<longrightarrow> m (s + i) = 0; m (s + level_size l - 1) = marker l\<rbrakk>
   \<Longrightarrow> chain m l s xs (s + length xs) {s..<s + level_size l}"
| chain_next: "\<lbrakk>l \<le> 9; s mod 8192 + level_size l \<le> 8192; length ys = level_size l - 1; cells m s ys;
     m (s + level_size l - 1) = int s'; s + level_size l \<le> s'; zs \<noteq> []; chain m (next_level l) s' zs e F\<rbrakk>
   \<Longrightarrow> chain m l s (ys @ zs) e ({s..<s + level_size l} \<union> F)"

lemma marker_inj: "l \<le> 9 \<Longrightarrow> l' \<le> 9 \<Longrightarrow> marker l = marker l' \<Longrightarrow> l = l'"
  by (metis marker_facts(1) of_nat_eq_iff)

lemma chain_bounds:
  "chain m l s xs e F \<Longrightarrow> s \<le> e \<and> (xs \<noteq> [] \<longrightarrow> s < e) \<and> e \<in> F \<and> s \<in> F \<and> (\<forall>a \<in> F. s \<le> a)"
proof (induction rule: chain.induct)
  case (chain_last l s xs)
  then show ?case by auto
next
  case (chain_next l s ys s' zs e F)
  then show ?case
    using marker_facts(6) [of l] by auto
qed

lemma cells_cong: "cells m s xs \<Longrightarrow> (\<And>i. i < length xs \<Longrightarrow> m' (s + i) = m (s + i)) \<Longrightarrow> cells m' s xs"
  by (simp add: cells_def)

lemma chain_cong:
  "chain m l s xs e F \<Longrightarrow> (\<forall>a \<in> F. m' a = m a) \<Longrightarrow> chain m' l s xs e F"
proof (induction rule: chain.induct)
  case (chain_last l s xs)
  have "cells m' s xs"
    by (rule cells_cong [OF chain_last(4)]) (use chain_last(3,7) in auto)
  then show ?case
    using chain_last marker_facts(6) [of l] by (intro chain.chain_last) auto
next
  case (chain_next l s ys s' zs e F)
  have "cells m' s ys"
    by (rule cells_cong [OF chain_next(4)]) (use chain_next(3,10) in auto)
  moreover have "m' (s + level_size l - 1) = int s'"
    proof -
    have "s + level_size l - 1 \<in> {s..<s + level_size l}"
      using marker_facts(6) [OF chain_next(1)] by simp
    then show ?thesis
      using chain_next(5,10) by (metis UnI1)
  qed
  ultimately show ?case
    using chain_next by (intro chain.chain_next) auto
qed

lemma chain_end: "chain m l s xs e F \<Longrightarrow> m e = 0 \<or> (\<exists>l' \<le> 9. m e = marker l')"
proof (induction rule: chain.induct)
  case (chain_last l s xs)
  then show ?case
    by (cases "length xs = level_size l - 1") auto
qed

lemma chain_write_room: "chain m l s xs e F \<Longrightarrow> m e = 0 \<Longrightarrow> chain (m(e := v)) l s (xs @ [v]) (Suc e) F"
proof (induction rule: chain.induct)
  case (chain_last l s xs)
  let ?m = "m(s + length xs := v)"
  have len: "length xs < level_size l - 1"
    using chain_last marker_facts(2) [of l] by (cases "length xs = level_size l - 1") auto
  have "cells ?m s (xs @ [v])"
    using chain_last(4) by (auto simp: cells_def nth_append less_Suc_eq)
  moreover have "length (xs @ [v]) < level_size l"
    using len by simp
  ultimately have "chain ?m l s (xs @ [v]) (s + length (xs @ [v])) {s..<s + level_size l}"
    using chain_last(1,2,5,6) len by (intro chain.chain_last) auto
  then show ?case
    by (simp add: fun_upd_def)
next
  case (chain_next l s ys s' zs e F)
  have e: "s + level_size l \<le> e"
    using chain_bounds [OF chain_next(8)] chain_next(6) by linarith
  have "cells (m(e := v)) s ys"
    by (rule cells_cong [OF chain_next(4)]) (use e chain_next(3) in auto)
  then have "chain (m(e := v)) l s (ys @ zs @ [v]) (Suc e) ({s..<s + level_size l} \<union> F)"
    using chain_next e marker_facts(6) [of l] by (intro chain.chain_next) (auto simp: fun_upd_def)
  then show ?case
    by (simp add: fun_upd_def)
qed

lemma chain_write_full:
  assumes "chain m l s xs e F" and "m e = marker k" and "k \<le> 9" and "\<forall>a \<in> F. a < t"
    and "t mod 8192 + level_size (next_level k) \<le> 8192" and "\<forall>a \<in> {t..<t + level_size (next_level k)}. m a = 0"
  shows "chain (m(e := int t, t + level_size (next_level k) - 1 := marker (next_level k), t := v)) l s (xs @ [v]) (Suc t)
    (F \<union> {t..<t + level_size (next_level k)})"
  using assms
proof (induction rule: chain.induct)
  case (chain_last l s xs)
  let ?z = "level_size (next_level k)"
  let ?m = "m(s + length xs := int t, t + ?z - 1 := marker (next_level k), t := v)"
  have z: "2 \<le> ?z" "next_level k \<le> 9"
    using marker_facts(6) [of "next_level k"] marker_facts(4) [of k] \<open>k \<le> 9\<close> by auto
  have len: "length xs = level_size l - 1"
  proof (rule ccontr)
    assume "length xs \<noteq> level_size l - 1"
    then have "m (s + length xs) = 0"
      using chain_last(3,5) by auto
    then show False
      using chain_last(7) marker_facts(2) [OF \<open>k \<le> 9\<close>] by simp
  qed
  have sz: "2 \<le> level_size l"
    using marker_facts(6) [OF chain_last(1)] .
  then have k: "k = l"
    using chain_last(1,3,6,7,8) marker_inj [of l k] unfolding len by simp
  have t: "s + level_size l \<le> t"
    using chain_last(9) sz by (auto dest: bspec [of _ _ "s + level_size l - 1"])
  have c: "chain ?m (next_level l) t [v] (t + length [v]) {t..<t + ?z}"
    using chain_last(10,11) z t sz unfolding k len
    by (intro chain.chain_last) (auto simp: cells_def)
  have "cells ?m s xs"
    by (rule cells_cong [OF chain_last(4)]) (use t z sz len in auto)
  then have "chain ?m l s (xs @ [v]) (t + length [v]) ({s..<s + level_size l} \<union> {t..<t + ?z})"
    using chain_last(1,2) len t sz z c by (intro chain.chain_next [where s' = t]) auto
  then show ?case
    by (simp add: fun_upd_def)
next
  case (chain_next l s ys s' zs e F)
  let ?z = "level_size (next_level k)"
  let ?m = "m(e := int t, t + ?z - 1 := marker (next_level k), t := v)"
  have z: "2 \<le> ?z" "2 \<le> level_size l"
    using marker_facts(6) [of "next_level k"] marker_facts(4) [of k] marker_facts(6) [OF chain_next(1)] \<open>k \<le> 9\<close> by auto
  have IH: "chain ?m (next_level l) s' (zs @ [v]) (Suc t) (F \<union> {t..<t + ?z})"
    using chain_next by (simp add: fun_upd_def)
  have e: "s + level_size l \<le> e"
    using chain_bounds [OF chain_next(8)] chain_next(6) by linarith
  have t: "e < t"
    using chain_bounds [OF chain_next(8)] chain_next(12) by blast
  have "cells ?m s ys"
    by (rule cells_cong [OF chain_next(4)]) (use e t z chain_next(3) in auto)
  then have "chain ?m l s (ys @ zs @ [v]) (Suc t) ({s..<s + level_size l} \<union> (F \<union> {t..<t + ?z}))"
    using chain_next(1,2,3,5,6) e t z IH by (intro chain.chain_next [where s' = s']) (auto simp: fun_upd_def)
  then show ?case
    by (simp add: Un_assoc fun_upd_def)
qed


subsection \<open>Writing several streams in turns\<close>

datatype slice_op = Start | Put nat int

text \<open>The pool with, per stream, the start of its first slice and the offset of its writer\<close>

primrec run_ops :: "slice_op list \<Rightarrow> IntPool \<Rightarrow> (int \<times> int) list \<Rightarrow> (IntPool \<times> (int \<times> int) list) option" where
  "run_ops [] p ws = Some (p, ws)"
| "run_ops (c # cs) p ws =
     (case c of
        Start \<Rightarrow> do {
          (start, p) \<leftarrow> StartNewSlice p;
          run_ops cs p (ws @ [(start, start)])
        }
      | Put i v \<Rightarrow> do {
          (start, off) \<leftarrow> slice_get ws i;
          (off, p) \<leftarrow> WriteInt p off v;
          run_ops cs p (ws[i := (start, off)])
        })"

text \<open>What they stand for: lists that grow\<close>

primrec spec_ops :: "slice_op list \<Rightarrow> int list list \<Rightarrow> int list list option" where
  "spec_ops [] xss = Some xss"
| "spec_ops (c # cs) xss =
     (case c of
        Start \<Rightarrow> spec_ops cs (xss @ [[]])
      | Put i v \<Rightarrow> if i < length xss then spec_ops cs (xss[i := xss ! i @ [v]]) else None)"

definition streams_ok :: "IntPool \<Rightarrow> (int \<times> int) list \<Rightarrow> int list list \<Rightarrow> (nat \<Rightarrow> nat set) \<Rightarrow> bool" where
  "streams_ok p ws xss F \<longleftrightarrow> ip_ok p \<and> length ws = length xss \<and>
     (\<forall>i < length xss. (\<exists>s e. ws ! i = (int s, int e) \<and> chain (ip_mem p) 0 s (xss ! i) e (F i)) \<and>
        (\<forall>a \<in> F i. a < ip_top p)) \<and>
     (\<forall>i < length xss. \<forall>j < length xss. i \<noteq> j \<longrightarrow> F i \<inter> F j = {})"

lemma NewIntPool_ok: "streams_ok (NewIntPool 8192) [] [] F"
  by (simp add: streams_ok_def NewIntPool_def ip_ok_def ip_shape_def int_block_consts ip_mem_def)

lemma streams_start:
  assumes ok: "streams_ok p ws xss F"
  obtains start p' G where "StartNewSlice p = Some (start, p')" "streams_ok p' (ws @ [(start, start)]) (xss @ [[]]) G"
proof -
  have p: "ip_ok p"
    using ok by (simp add: streams_ok_def)
  have z: "INT_FIRST_LEVEL_SIZE = 2"
    by (simp add: INT_FIRST_LEVEL_SIZE_def INT_LEVEL_SIZE_ARRAY_def)
  obtain s p' where p': "newSlice p 2 = Some (int (s mod 8192), p')" "int (s mod 8192) + ip_intOffset p' = int s"
    "ip_ok p'" "ip_mem p' = (ip_mem p)(s + 2 - 1 := 16)" "ip_top p \<le> s" "ip_top p' = s + 2" "s mod 8192 + 2 \<le> 8192"
    using newSlice_flat [OF p, of 2] by auto
  have run: "StartNewSlice p = Some (int s, p')"
    using p'(1,2) by (simp add: StartNewSlice_def z)
  let ?G = "F(length xss := {s..<s + 2})"
  have m0: "ip_mem p s = 0" "ip_mem p' = (ip_mem p)(s + 1 := 16)"
    using p p'(4,5) by (simp_all add: ip_ok_def)
  have new: "chain (ip_mem p') 0 s [] (s + length ([] :: int list)) {s..<s + level_size 0}"
    using p'(7) m0 by (intro chain_last) (auto simp: cells_def INT_LEVEL_SIZE_ARRAY_def marker_def)
  have old: "(\<exists>s e. ws ! i = (int s, int e) \<and> chain (ip_mem p') 0 s (xss ! i) e (F i)) \<and> (\<forall>a \<in> F i. a < ip_top p)"
    if i: "i < length xss" for i
  proof -
    obtain u e where u: "ws ! i = (int u, int e)" "chain (ip_mem p) 0 u (xss ! i) e (F i)" "\<forall>a \<in> F i. a < ip_top p"
      using ok i unfolding streams_ok_def by blast
    have "\<forall>a \<in> F i. ip_mem p' a = ip_mem p a"
      using u(3) p'(5) m0(2) by auto
    then show ?thesis
      using u chain_cong [OF u(2)] by blast
  qed
  have "streams_ok p' (ws @ [(int s, int s)]) (xss @ [[]]) ?G"
    unfolding streams_ok_def
  proof (intro conjI allI impI ballI)
    show "ip_ok p'"
      by (rule p'(3))
    show len: "length (ws @ [(int s, int s)]) = length (xss @ [[]])"
      using ok by (simp add: streams_ok_def)
    fix i assume i: "i < length (xss @ [[]])"
    consider "i < length xss" | "i = length xss"
      using i by fastforce
    then show "\<exists>u e. (ws @ [(int s, int s)]) ! i = (int u, int e) \<and> chain (ip_mem p') 0 u ((xss @ [[]]) ! i) e (?G i)"
    proof cases
      case 1
      then show ?thesis
        using old [OF 1] len by (simp add: nth_append)
    next
      case 2
      have "(ws @ [(int s, int s)]) ! i = (int s, int s)"
        using 2 len by (simp add: nth_append)
      moreover have "chain (ip_mem p') 0 s ((xss @ [[]]) ! i) s (?G i)"
        using 2 new by (simp add: INT_LEVEL_SIZE_ARRAY_def)
      ultimately show ?thesis
        by blast
    qed
    show "a < ip_top p'" if "a \<in> ?G i" for a
      using that i old [of i] p'(5,6) by (cases "i = length xss") auto
    fix j assume j: "j < length (xss @ [[]])" and ne: "i \<noteq> j"
    have "F k \<inter> {s..<s + 2} = {}" if "k < length xss" for k
      using old [OF that] p'(5) by fastforce
    moreover have "F i \<inter> F j = {}" if "i < length xss" "j < length xss"
      using ok that ne unfolding streams_ok_def by blast
    ultimately show "?G i \<inter> ?G j = {}"
      using i j ne by (cases "i = length xss"; cases "j = length xss") (simp_all add: Int_commute)
  qed
  then show ?thesis
    using that run by blast
qed

lemma streams_put:
  assumes ok: "streams_ok p ws xss F" and i: "i < length xss"
  obtains start off off' p' G where "ws ! i = (start, off)" "WriteInt p off v = Some (off', p')"
    "streams_ok p' (ws[i := (start, off')]) (xss[i := xss ! i @ [v]]) G"
proof -
  have p: "ip_ok p" and len: "length ws = length xss"
    using ok by (simp_all add: streams_ok_def)
  obtain s e where w: "ws ! i = (int s, int e)" "chain (ip_mem p) 0 s (xss ! i) e (F i)" and top: "\<forall>a \<in> F i. a < ip_top p"
    using ok i unfolding streams_ok_def by blast
  have e: "e < ip_top p" "e \<in> F i"
    using chain_bounds [OF w(2)] top by auto
  obtain e' p' A where step: "WriteInt p (int e) v = Some (int e', p')" "ip_ok p'" "ip_top p \<le> ip_top p'"
    "chain (ip_mem p') 0 s (xss ! i @ [v]) e' (F i \<union> A)" "\<forall>a \<in> A. ip_top p \<le> a \<and> a < ip_top p'"
    "\<And>a. a < ip_top p \<Longrightarrow> a \<noteq> e \<Longrightarrow> ip_mem p' a = ip_mem p a"
  proof -
    from chain_end [OF w(2)] show thesis
    proof (elim disjE exE conjE)
      assume m: "ip_mem p e = 0"
      obtain p' where p': "WriteInt p (int e) v = Some (int (Suc e), p')" "ip_ok p'" "ip_mem p' = (ip_mem p)(e := v)"
        "ip_top p' = ip_top p"
        using WriteInt_room [OF p e(1) m] by blast
      show thesis
        by (rule that [OF p'(1,2), of "{}"]) (use p' chain_write_room [OF w(2) m] in auto)
    next
      fix k assume k: "k \<le> 9" "ip_mem p e = marker k"
      let ?z = "level_size (next_level k)"
      obtain t p' where p': "WriteInt p (int e) v = Some (int (Suc t), p')" "ip_ok p'"
        "ip_mem p' = (ip_mem p)(e := int t, t + ?z - 1 := marker (next_level k), t := v)"
        "ip_top p \<le> t" "ip_top p' = t + ?z" "t mod 8192 + ?z \<le> 8192"
        using WriteInt_full [OF p e(1) k(2,1)] by blast
      have zero: "\<forall>a \<in> {t..<t + ?z}. ip_mem p a = 0"
        using p p'(4) by (auto simp: ip_ok_def)
      have below: "\<forall>a \<in> F i. a < t"
        using top p'(4) by auto
      have z: "2 \<le> ?z"
        using marker_facts(6) [OF marker_facts(4) [OF k(1)]] .
      have "chain (ip_mem p') 0 s (xss ! i @ [v]) (Suc t) (F i \<union> {t..<t + ?z})"
        unfolding p'(3) by (rule chain_write_full [OF w(2) k(2,1) below p'(6) zero])
      then show thesis
        by (rule that [OF p'(1,2), rotated]) (use p'(3,4,5) z in auto)
    qed
  qed
  let ?G = "F(i := F i \<union> A)"
  have "streams_ok p' (ws[i := (int s, int e')]) (xss[i := xss ! i @ [v]]) ?G"
    unfolding streams_ok_def
  proof (intro conjI allI impI ballI)
    show "ip_ok p'"
      by (rule step(2))
    show "length (ws[i := (int s, int e')]) = length (xss[i := xss ! i @ [v]])"
      using len by simp
    fix j assume j: "j < length (xss[i := xss ! i @ [v]])"
    then have j': "j < length xss"
      by simp
    obtain u f where u: "ws ! j = (int u, int f)" "chain (ip_mem p) 0 u (xss ! j) f (F j)" "\<forall>a \<in> F j. a < ip_top p"
      using ok j' unfolding streams_ok_def by blast
    show "\<exists>u f. ws[i := (int s, int e')] ! j = (int u, int f) \<and>
        chain (ip_mem p') 0 u (xss[i := xss ! i @ [v]] ! j) f (?G j)"
    proof (cases "j = i")
      case True
      then show ?thesis
        using step(4) i len by auto
    next
      case False
      then have "e \<notin> F j"
        using ok i j' e(2) unfolding streams_ok_def by blast
      then have "\<forall>a \<in> F j. ip_mem p' a = ip_mem p a"
        using u(3) step(6) by blast
      then show ?thesis
        using False u chain_cong [OF u(2)] by auto
    qed
    show "a < ip_top p'" if "a \<in> ?G j" for a
    proof (cases "a \<in> A")
      case True
      then show ?thesis
        using step(5) by blast
    next
      case False
      then have "a \<in> F j"
        using that by (cases "j = i") auto
      then show ?thesis
        using u(3) step(3) by (meson less_le_trans)
    qed
    fix k assume k: "k < length (xss[i := xss ! i @ [v]])" and ne: "j \<noteq> k"
    have disj: "F a \<inter> A = {}" if "a < length xss" for a
      using ok that step(5) unfolding streams_ok_def by (meson disjoint_iff not_less)
    have "F j \<inter> F k = {}"
      using ok j' k ne unfolding streams_ok_def by simp
    then show "?G j \<inter> ?G k = {}"
      using disj [OF j'] disj [of k] k ne by auto
  qed
  then show ?thesis
    using that [OF w(1) step(1)] by blast
qed

lemma run_ops_streams:
  assumes "streams_ok p ws xss F" and "spec_ops cs xss = Some yss"
  shows "\<exists>p' ws' G. run_ops cs p ws = Some (p', ws') \<and> streams_ok p' ws' yss G"
  using assms
proof (induction cs arbitrary: p ws xss F)
  case Nil
  then show ?case
    by auto
next
  case (Cons c cs)
  show ?case
  proof (cases c)
    case Start
    obtain start p' G where s: "StartNewSlice p = Some (start, p')" "streams_ok p' (ws @ [(start, start)]) (xss @ [[]]) G"
      using streams_start [OF Cons.prems(1)] .
    show ?thesis
      using Cons.IH [OF s(2)] Cons.prems(2) s(1) Start by simp
  next
    case (Put i v)
    then have i: "i < length xss"
      using Cons.prems(2) by (simp split: if_splits)
    obtain start off off' p' G where s: "ws ! i = (start, off)" "WriteInt p off v = Some (off', p')"
      "streams_ok p' (ws[i := (start, off')]) (xss[i := xss ! i @ [v]]) G"
      using streams_put [OF Cons.prems(1) i] .
    have "i < length ws"
      using i Cons.prems(1) by (simp add: streams_ok_def)
    then show ?thesis
      using Cons.IH [OF s(3)] Cons.prems(2) s(1,2) Put i by (simp add: slice_get_in)
  qed
qed


subsection \<open>Reading a chain\<close>

declare read_to_end.simps [simp del]

lemma same_block:
  assumes "s mod 8192 + k < (8192 :: nat)"
  shows "(s + k) div 8192 = s div 8192" "(s + k) mod 8192 = s mod 8192 + k"
proof -
  have "s + k = 8192 * (s div 8192) + (s mod 8192 + k)"
    using mult_div_mod_eq [of 8192 s] by linarith
  then show "(s + k) div 8192 = s div 8192" "(s + k) mod 8192 = s mod 8192 + k"
    using assms by (metis add.right_neutral div_less div_mult_self4 zero_neq_numeral,
      metis assms mod_less mod_mult_self4)
qed

lemma read_cells:
  assumes ok: "ip_ok p" and z: "s mod 8192 + z \<le> 8192" "s + z \<le> ip_top p"
    and r: "sr_upto r = int (s mod 8192 + k)" "sr_bufferUpto r = int (s div 8192)"
      "sr_bufferOffset r = int (8192 * (s div 8192))" "sr_end r = int e" "sr_limit r = int lim"
    and k: "k + length ys \<le> z" "s mod 8192 + k + length ys \<le> lim" and c: "cells (ip_mem p) (s + k) ys"
    and e: "\<forall>i < length ys. s + k + i \<noteq> e"
  shows "read_to_end p r =
    map_option ((@) ys) (read_to_end p (r\<lparr>sr_upto := int (s mod 8192 + k + length ys)\<rparr>))"
  using r k c e
proof (induction ys arbitrary: k r)
  case Nil
  have "r\<lparr>sr_upto := int (s mod 8192 + k + length ([] :: int list))\<rparr> = r"
    using Nil(1) by simp
  then show ?case
    by (cases "read_to_end p r") simp_all
next
  case (Cons y ys)
  have blk: "(s + k) div 8192 = s div 8192" "(s + k) mod 8192 = s mod 8192 + k"
    using same_block [of s k] z(1) Cons.prems(6) by auto
  have s: "s = 8192 * (s div 8192) + s mod 8192"
    by simp
  have pos: "sr_upto r + sr_bufferOffset r = int (s + k)"
    unfolding Cons.prems(1,3) using s by linarith
  have ne: "\<not> EndOfSlice r"
    using Cons.prems(9) pos unfolding EndOfSlice_def Cons.prems(4) by force
  have lim: "sr_upto r \<noteq> sr_limit r"
    using Cons.prems(7) unfolding Cons.prems(1,5) by simp
  have "s + k < ip_top p"
    using z(2) Cons.prems(6) by simp
  from ip_ok_read [OF ok this] have "ip_read p (sr_bufferUpto r) (sr_upto r) = Some (ip_mem p (s + k))"
    unfolding blk Cons.prems(1,2) .
  moreover have "ip_mem p (s + k) = y"
    using Cons.prems(8) by (auto simp: cells_def)
  ultimately have read: "ReadInt p r = Some (y, r\<lparr>sr_upto := sr_upto r + 1\<rparr>)"
    using lim by (simp add: ReadInt_def)
  have c: "cells (ip_mem p) (s + Suc k) ys"
    using Cons.prems(8) by (auto simp: cells_def)
  have e: "\<forall>i < length ys. s + Suc k + i \<noteq> e"
    using Cons.prems(9) by (metis Suc_less_eq add_Suc_right add_Suc_shift length_Cons)
  have IH: "read_to_end p (r\<lparr>sr_upto := sr_upto r + 1\<rparr>) =
      map_option ((@) ys) (read_to_end p (r\<lparr>sr_upto := int (s mod 8192 + Suc k + length ys)\<rparr>))"
    using Cons.IH [of "r\<lparr>sr_upto := sr_upto r + 1\<rparr>" "Suc k"] Cons.prems(1-7) c e by simp
  have "read_to_end p r = map_option ((#) y) (read_to_end p (r\<lparr>sr_upto := sr_upto r + 1\<rparr>))"
    using ne read by (subst read_to_end.simps) (simp add: map_option_case split: option.split)
  then show ?case
    unfolding IH by (simp add: option.map_comp o_def)
qed

lemma read_jump:
  assumes "sr_upto r = sr_limit r" and "\<not> EndOfSlice r" and "nextSlice p r = Some r'"
    and "\<not> EndOfSlice r'" and "sr_upto r' \<noteq> sr_limit r'"
  shows "read_to_end p r = read_to_end p r'"
proof -
  have "ReadInt p r = ReadInt p r'"
    using assms by (simp add: ReadInt_def)
  then show ?thesis
    using assms(2,4) by (subst (1 2) read_to_end.simps) simp
qed

definition reader_at :: "nat \<Rightarrow> nat \<Rightarrow> nat \<Rightarrow> SliceReader \<Rightarrow> bool" where
  "reader_at e l s r \<longleftrightarrow> sr_upto r = int (s mod 8192) \<and> sr_bufferUpto r = int (s div 8192) \<and>
     sr_bufferOffset r = int (8192 * (s div 8192)) \<and> sr_level r = l \<and> sr_end r = int e \<and>
     sr_limit r = (if s + level_size l \<ge> e then int e - int (8192 * (s div 8192))
       else int (s mod 8192) + int (level_size l) - 1)"

lemma nextSlice_at:
  assumes ok: "ip_ok p" and l: "l \<le> 9" and a: "a < ip_top p" and m: "ip_mem p a = int t" and t: "t < ip_top p"
    and r: "sr_bufferUpto r = int (a div 8192)" "sr_limit r = int (a mod 8192)" "sr_level r = l" "sr_end r = int e"
  obtains r' where "nextSlice p r = Some r'" "reader_at e (next_level l) t r'"
proof -
  note mf = marker_facts [OF l] and mf' = marker_facts [OF marker_facts(4) [OF l]]
  have s: "ip_shape p"
    using ok by (simp add: ip_ok_def)
  then have "ip_buffers p \<noteq> []"
    using t by (auto simp: ip_top_def ip_shape_def)
  then have "t < 8192 * length (ip_buffers p)"
    using ip_shape_top(2) [OF s] t by linarith
  then have blk: "t div 8192 < length (ip_buffers p)"
    by (rule ip_shape_lengths(1) [OF s])
  have read: "ip_read p (sr_bufferUpto r) (sr_limit r) = Some (int t)"
    unfolding r m [symmetric] by (rule ip_ok_read [OF ok a])
  have d: "int t div INT_BLOCK_SIZE = int (t div 8192)"
    by (simp add: int_block_consts(1) zdiv_int)
  have "\<exists>r'. nextSlice p r = Some r' \<and> reader_at e (next_level l) t r'"
    unfolding nextSlice_def read Option.bind.simps r(3) mf(3) mf'(5) Let_def d int_index_int
      slice_get_in [OF blk] int_block_consts(4)
    by (auto simp: reader_at_def r(4) int_block_consts(1) simp del: of_nat_div of_nat_mod)
  then show ?thesis
    using that by blast
qed

lemma read_chain:
  assumes "chain (ip_mem p) l s xs e F" and "ip_ok p" and "\<forall>a \<in> F. a < ip_top p" and "reader_at e l s r"
  shows "read_to_end p r = Some xs"
  using assms
proof (induction arbitrary: r rule: chain.induct)
  case (chain_last l s xs)
  note r = chain_last(9) [unfolded reader_at_def]
  have z: "2 \<le> level_size l"
    using marker_facts(6) [OF chain_last(1)] .
  have top: "s + level_size l \<le> ip_top p"
    using chain_last(8) z by (auto dest: bspec [of _ _ "s + level_size l - 1"])
  have s: "s = 8192 * (s div 8192) + s mod 8192"
    by simp
  have lim: "sr_limit r = int (s mod 8192 + length xs)"
  proof -
    have "sr_limit r = int s + int (length xs) - int (8192 * (s div 8192))"
      using r chain_last(3) by simp
    then show ?thesis
      using s by linarith
  qed
  have "read_to_end p r = map_option ((@) xs) (read_to_end p (r\<lparr>sr_upto := int (s mod 8192 + 0 + length xs)\<rparr>))"
    by (rule read_cells [OF chain_last(7,2) top, where e = "s + length xs" and lim = "s mod 8192 + length xs"])
      (use r lim chain_last(3,4) in auto)
  moreover have "EndOfSlice (r\<lparr>sr_upto := int (s mod 8192 + 0 + length xs)\<rparr>)"
  proof -
    have "int s = 8192 * int (s div 8192) + int (s mod 8192)"
      using s by linarith
    then show ?thesis
      using r by (simp add: EndOfSlice_def)
  qed
  ultimately show ?case
    by (simp add: read_to_end.simps [of p "r\<lparr>sr_upto := _ r\<rparr>"] read_to_end.simps)
next
  case (chain_next l s ys s' zs e F)
  note r = chain_next(12) [unfolded reader_at_def]
  have z: "2 \<le> level_size l" "2 \<le> level_size (next_level l)"
    using marker_facts(6) [OF chain_next(1)] marker_facts(6) [OF marker_facts(4) [OF chain_next(1)]] .
  have e: "s' < e" "e \<in> F" "s' \<in> F"
    using chain_bounds [OF chain_next(8)] chain_next(7) by auto
  have top: "s + level_size l \<le> ip_top p" "s' < ip_top p"
    using chain_next(11) e z by (auto dest: bspec [of _ _ "s + level_size l - 1"])
  have s: "s = 8192 * (s div 8192) + s mod 8192"
    by simp
  let ?a = "s + (level_size l - 1)" and ?lim = "s mod 8192 + (level_size l - 1)"
  have blk: "?a div 8192 = s div 8192" "?a mod 8192 = ?lim"
    using same_block [of s "level_size l - 1"] chain_next(2) z by auto
  have lim: "sr_limit r = int ?lim"
    using r e chain_next(6) z by auto
  let ?r = "r\<lparr>sr_upto := int (s mod 8192 + 0 + length ys)\<rparr>"
  have "read_to_end p r = map_option ((@) ys) (read_to_end p ?r)"
    by (rule read_cells [OF chain_next(10,2) top(1), where e = e and lim = ?lim])
      (use r lim chain_next(3,4,6) e in auto)
  moreover have "read_to_end p ?r = Some zs"
  proof -
    have m: "ip_mem p ?a = int s'"
      using chain_next(5) z by (simp add: add_diff_assoc)
    have a: "?a < ip_top p"
      using top z by linarith
    obtain r' where r': "nextSlice p ?r = Some r'" "reader_at e (next_level l) s' r'"
      by (rule nextSlice_at [OF chain_next(10,1) a m top(2), of ?r e]) (use r lim blk in simp_all)
    have 1: "sr_upto ?r = sr_limit ?r"
      using lim chain_next(3) by simp
    have "s mod 8192 + length ys + 8192 * (s div 8192) \<noteq> e"
      using s e chain_next(3,6) z by linarith
    then have 2: "\<not> EndOfSlice ?r"
      using r by (simp add: EndOfSlice_def flip: of_nat_add of_nat_mult del: of_nat_div of_nat_mod)
    have s': "s' = 8192 * (s' div 8192) + s' mod 8192"
      by simp
    have 3: "\<not> EndOfSlice r'"
      using r'(2) s' e unfolding reader_at_def EndOfSlice_def by linarith
    have 4: "sr_upto r' \<noteq> sr_limit r'"
    proof -
      have "int (s' mod 8192) \<noteq> int e - int (8192 * (s' div 8192))"
        using s' e by linarith
      then show ?thesis
        using r'(2) z(2) unfolding reader_at_def by (auto split: if_splits)
    qed
    have "\<forall>a \<in> F. a < ip_top p"
      using chain_next(11) by blast
    then show ?thesis
      using read_jump [OF 1 2 r'(1) 3 4] chain_next(9) [OF chain_next(10) _ r'(2)] by simp
  qed
  ultimately show ?case
    by simp
qed

lemma read_stream:
  assumes c: "chain (ip_mem p) 0 s xs e F" and ok: "ip_ok p" and top: "\<forall>a \<in> F. a < ip_top p"
  shows "\<exists>r. SliceReader_Reset p (int s) (int e) = Some r \<and> read_to_end p r = Some xs"
proof -
  have z: "level_size 0 = 2"
    by (simp add: INT_LEVEL_SIZE_ARRAY_def)
  have g: "slice_get INT_LEVEL_SIZE_ARRAY 0 = Some 2"
    by (simp add: INT_LEVEL_SIZE_ARRAY_def slice_get_def)
  have st: "s < ip_top p"
    using chain_bounds [OF c] top by blast
  have sh: "ip_shape p"
    using ok by (simp add: ip_ok_def)
  then have "ip_buffers p \<noteq> []"
    using st by (auto simp: ip_top_def ip_shape_def)
  then have "s < 8192 * length (ip_buffers p)"
    using ip_shape_top(2) [OF sh] st by linarith
  then have blk: "s div 8192 < length (ip_buffers p)"
    by (rule ip_shape_lengths(1) [OF sh])
  have d: "int s div INT_BLOCK_SIZE = int (s div 8192)"
    by (simp add: int_block_consts(1) zdiv_int)
  have se: "s = 8192 * (s div 8192) + s mod 8192"
    by simp
  have near: "int (e mod 8192) = int e - int (8192 * (s div 8192))" if "e \<le> s + 2"
  proof -
    have "s mod 8192 + (e - s) < 8192 \<and> s \<le> e"
      using c
    proof (cases rule: chain.cases)
      case chain_last
      then show ?thesis
        using z by simp
    next
      case (chain_next ys s' zs F')
      then show ?thesis
        using that z chain_bounds [OF chain_next(10)] by auto
    qed
    then have "(s + (e - s)) mod 8192 = s mod 8192 + (e - s)" "s + (e - s) = e"
      by (blast intro: same_block(2)) (use \<open>s mod 8192 + (e - s) < 8192 \<and> s \<le> e\<close> in simp)
    then have "e mod 8192 = s mod 8192 + (e - s)"
      by (simp only:)
    then show ?thesis
      using se \<open>s mod 8192 + (e - s) < 8192 \<and> s \<le> e\<close> by linarith
  qed
  have "\<exists>r. SliceReader_Reset p (int s) (int e) = Some r \<and> reader_at e 0 s r"
    unfolding SliceReader_Reset_def d Let_def int_index_int Option.bind.simps slice_get_in [OF blk] int_block_consts(4)
      g z
    using near by (auto simp: reader_at_def z int_block_consts(1) simp del: of_nat_div of_nat_mod)
  then show ?thesis
    using read_chain [OF c ok top] by blast
qed

lemma streams_read:
  assumes "streams_ok p ws xss F" and "i < length xss"
  shows "\<exists>r. SliceReader_Reset p (fst (ws ! i)) (snd (ws ! i)) = Some r \<and> read_to_end p r = Some (xss ! i)"
proof -
  obtain s e where w: "ws ! i = (int s, int e)" "chain (ip_mem p) 0 s (xss ! i) e (F i)" "\<forall>a \<in> F i. a < ip_top p"
    using assms unfolding streams_ok_def by blast
  have "ip_ok p"
    using assms by (simp add: streams_ok_def)
  then show ?thesis
    using read_stream [OF w(2) _ w(3)] unfolding w(1) by simp
qed

text \<open>
  C30. Integers written to any number of streams in turns, each a chain of slices of one shared pool,
  are read back stream by stream: every operation of the writers succeeds, and a reader from the start
  of a stream to its current offset returns exactly its integers, whatever they are.
\<close>

theorem int_streams_roundtrip:
  assumes "spec_ops cs [] = Some xss"
  shows "\<exists>p ws. run_ops cs (NewIntPool 8192) [] = Some (p, ws) \<and> length ws = length xss \<and>
    (\<forall>i < length xss. \<exists>r. SliceReader_Reset p (fst (ws ! i)) (snd (ws ! i)) = Some r \<and>
       read_to_end p r = Some (xss ! i))"
proof -
  obtain p ws F where p: "run_ops cs (NewIntPool 8192) [] = Some (p, ws)" "streams_ok p ws xss F"
    using run_ops_streams [OF NewIntPool_ok assms] by blast
  moreover have "length ws = length xss"
    using p(2) by (simp add: streams_ok_def)
  ultimately show ?thesis
    using streams_read [OF p(2)] by blast
qed

theorem int_streams_roundtrip_witness:
  "\<exists>p ws. run_ops [Start, Put 0 7, Start, Put 0 0, Put 1 16, Put 0 9] (NewIntPool 8192) [] = Some (p, ws) \<and>
    (\<exists>r. SliceReader_Reset p (fst (ws ! 0)) (snd (ws ! 0)) = Some r \<and> read_to_end p r = Some [7, 0, 9])"
  using int_streams_roundtrip [of "[Start, Put 0 7, Start, Put 0 0, Put 1 16, Put 0 9]" "[[7, 0, 9], [16]]"]
  by (fastforce simp: less_Suc_eq)

end
