(* ===== verification/Byte_Blocks.thy ===== *)
theory Byte_Blocks
  imports Prelude "HOL-Library.List_Lexorder"
begin

text \<open>
  core/util/bytesref: allocator.go, blockpool.go, startarray.go, byteshash.go and array.go, and
  \<open>writeByte\<close> of core/index/termshashperfield.go: byte blocks, the slices in them, and the hash table
  of terms stored in them.
\<close>

definition BYTE_BLOCK_SHIFT :: nat where "BYTE_BLOCK_SHIFT = 15"

definition BYTE_BLOCK_SIZE :: int where "BYTE_BLOCK_SIZE = push_bit BYTE_BLOCK_SHIFT 1"

definition BYTE_BLOCK_MASK :: int where "BYTE_BLOCK_MASK = BYTE_BLOCK_SIZE - 1"

definition NEXT_LEVEL_ARRAY :: "nat list" where
  "NEXT_LEVEL_ARRAY = [1, 2, 3, 4, 5, 6, 7, 8, 9, 9]"

definition LEVEL_SIZE_ARRAY :: "nat list" where
  "LEVEL_SIZE_ARRAY = [5, 14, 20, 30, 40, 40, 80, 80, 120, 200]"

definition FIRST_LEVEL_SIZE :: nat where "FIRST_LEVEL_SIZE = LEVEL_SIZE_ARRAY ! 0"

subsection \<open>Allocators\<close>

text \<open>A block that is nil is the empty list.\<close>

record RecyclingAllocator =
  ra_blockSize :: nat
  ra_freeByteBlocks :: "u8 list list"
  ra_maxBufferedBlocks :: int
  ra_freeBlocks :: int
  ra_bytesUsed :: int

datatype ByteAllocator = DirectAllocator nat | RecyclingByteBlock RecyclingAllocator

definition newRecyclingByteBlockAllocator :: "nat \<Rightarrow> int \<Rightarrow> RecyclingAllocator" where
  "newRecyclingByteBlockAllocator blockSize maxBufferedBlocks =
     \<lparr>ra_blockSize = blockSize, ra_freeByteBlocks = [], ra_maxBufferedBlocks = maxBufferedBlocks,
      ra_freeBlocks = 0, ra_bytesUsed = 0\<rparr>"

definition Recycling_GetByteBlock :: "RecyclingAllocator \<Rightarrow> (u8 list \<times> RecyclingAllocator) option" where
  "Recycling_GetByteBlock r =
     (if ra_freeBlocks r = 0 then
        Some (replicate (ra_blockSize r) 0, r\<lparr>ra_bytesUsed := ra_bytesUsed r + int (ra_blockSize r)\<rparr>)
      else do {
        i \<leftarrow> int_index (ra_freeBlocks r - 1);
        b \<leftarrow> slice_get (ra_freeByteBlocks r) i;
        free \<leftarrow> slice_set (ra_freeByteBlocks r) i [];
        Some (b, r\<lparr>ra_freeBlocks := ra_freeBlocks r - 1, ra_freeByteBlocks := free\<rparr>)
      })"

primrec recycle_loop :: "nat \<Rightarrow> nat \<Rightarrow> u8 list list \<Rightarrow> RecyclingAllocator \<Rightarrow> (u8 list list \<times> RecyclingAllocator) option" where
  "recycle_loop i 0 blocks r = Some (blocks, r)"
| "recycle_loop i (Suc n) blocks r = do {
     k \<leftarrow> int_index (ra_freeBlocks r);
     b \<leftarrow> slice_get blocks i;
     free \<leftarrow> slice_set (ra_freeByteBlocks r) k b;
     blocks \<leftarrow> slice_set blocks i [];
     recycle_loop (i + 1) n blocks (r\<lparr>ra_freeByteBlocks := free, ra_freeBlocks := ra_freeBlocks r + 1\<rparr>)
   }"

primrec drop_loop :: "nat \<Rightarrow> nat \<Rightarrow> u8 list list \<Rightarrow> u8 list list option" where
  "drop_loop i 0 blocks = Some blocks"
| "drop_loop i (Suc n) blocks = do {
     blocks \<leftarrow> slice_set blocks i [];
     drop_loop (i + 1) n blocks
   }"

definition Recycling_RecycleByteBlocks ::
  "RecyclingAllocator \<Rightarrow> u8 list list \<Rightarrow> nat \<Rightarrow> nat \<Rightarrow> (u8 list list \<times> RecyclingAllocator) option" where
  "Recycling_RecycleByteBlocks r blocks start end = do {
     let numBlocks = min (ra_maxBufferedBlocks r - ra_freeBlocks r) (int end - int start);
     let len = ra_freeBlocks r + numBlocks;
     free \<leftarrow> (if len \<ge> int (length (ra_freeByteBlocks r))
       then sub_slice (ra_freeByteBlocks r) 0 (ra_freeBlocks r) else Some (ra_freeByteBlocks r));
     let stop = int start + numBlocks;
     (blocks, r) \<leftarrow> recycle_loop start (nat numBlocks) blocks (r\<lparr>ra_freeByteBlocks := free\<rparr>);
     k \<leftarrow> int_index stop;
     blocks \<leftarrow> drop_loop k (nat (int end - stop)) blocks;
     Some (blocks, r\<lparr>ra_bytesUsed := ra_bytesUsed r - (int end - stop) * int (ra_blockSize r)\<rparr>)
   }"

fun GetByteBlock :: "ByteAllocator \<Rightarrow> (u8 list \<times> ByteAllocator) option" where
  "GetByteBlock (DirectAllocator blockSize) = Some (replicate blockSize 0, DirectAllocator blockSize)"
| "GetByteBlock (RecyclingByteBlock r) = map_option (apsnd RecyclingByteBlock) (Recycling_GetByteBlock r)"

fun RecycleByteBlocks :: "ByteAllocator \<Rightarrow> u8 list list \<Rightarrow> nat \<Rightarrow> nat \<Rightarrow> (u8 list list \<times> ByteAllocator) option" where
  "RecycleByteBlocks (DirectAllocator blockSize) blocks start end = Some (blocks, DirectAllocator blockSize)"
| "RecycleByteBlocks (RecyclingByteBlock r) blocks start end =
     map_option (apsnd RecyclingByteBlock) (Recycling_RecycleByteBlocks r blocks start end)"

subsection \<open>The pool\<close>

text \<open>\<open>buffer\<close> is nil or one of \<open>buffers\<close>; the model keeps which one.\<close>

record BlockPool =
  bb_buffers :: "u8 list list"
  bb_bufferUpto :: int
  bb_byteUpto :: int
  bb_buffer :: "nat option"
  bb_byteOffset :: int
  bb_allocator :: ByteAllocator

definition NewBlockPool :: "ByteAllocator \<Rightarrow> BlockPool" where
  "NewBlockPool allocator = \<lparr>bb_buffers = [], bb_bufferUpto = - 1, bb_byteUpto = BYTE_BLOCK_SIZE, bb_buffer = None,
     bb_byteOffset = - BYTE_BLOCK_SIZE, bb_allocator = allocator\<rparr>"

definition Pool_Reset :: "BlockPool \<Rightarrow> bool \<Rightarrow> bool \<Rightarrow> BlockPool option" where
  "Pool_Reset p zeroFillBuffers reuseFirst =
     (if bb_bufferUpto p \<noteq> - 1 then do {
        let bufs = (if zeroFillBuffers then map (\<lambda>b. replicate (length b) 0) (bb_buffers p) else bb_buffers p);
        let off = (if reuseFirst then 1 else 0);
        (bufs, alloc) \<leftarrow>
          (if bb_bufferUpto p > 0 \<or> \<not> reuseFirst then do {
             (bufs, alloc) \<leftarrow> RecycleByteBlocks (bb_allocator p) bufs off (nat (1 + bb_bufferUpto p));
             Some (take off bufs @ replicate (length bufs - off) [], alloc)
           }
           else Some (bufs, bb_allocator p));
        let p = p\<lparr>bb_buffers := bufs, bb_allocator := alloc\<rparr>;
        if reuseFirst then do {
          _ \<leftarrow> slice_get bufs 0;
          Some (p\<lparr>bb_bufferUpto := 0, bb_byteUpto := 0, bb_byteOffset := 0, bb_buffer := Some 0\<rparr>)
        }
        else Some (p\<lparr>bb_bufferUpto := - 1, bb_byteUpto := BYTE_BLOCK_SIZE, bb_byteOffset := - BYTE_BLOCK_SIZE,
               bb_buffer := None\<rparr>)
      }
      else Some p)"

definition NextBuffer :: "BlockPool \<Rightarrow> BlockPool option" where
  "NextBuffer p = do {
     (newBlock, alloc) \<leftarrow> GetByteBlock (bb_allocator p);
     i \<leftarrow> int_index (1 + bb_bufferUpto p);
     bufs \<leftarrow> (if i = length (bb_buffers p) then Some (bb_buffers p @ [newBlock])
       else slice_set (bb_buffers p) i newBlock);
     Some (p\<lparr>bb_buffers := bufs, bb_allocator := alloc, bb_buffer := Some i, bb_bufferUpto := bb_bufferUpto p + 1,
       bb_byteUpto := 0, bb_byteOffset := bb_byteOffset p + BYTE_BLOCK_SIZE\<rparr>)
   }"

text \<open>Changing a block through the pool\<close>

definition bb_update :: "BlockPool \<Rightarrow> nat \<Rightarrow> (u8 list \<Rightarrow> u8 list option) \<Rightarrow> BlockPool option" where
  "bb_update p i f = do {
     b \<leftarrow> slice_get (bb_buffers p) i;
     b \<leftarrow> f b;
     Some (p\<lparr>bb_buffers := (bb_buffers p)[i := b]\<rparr>)
   }"

definition bb_set :: "int \<Rightarrow> u8 \<Rightarrow> u8 list \<Rightarrow> u8 list option" where
  "bb_set k v b = Option.bind (int_index k) (\<lambda>k. slice_set b k v)"

definition NewSlice :: "BlockPool \<Rightarrow> nat \<Rightarrow> (int \<times> BlockPool) option" where
  "NewSlice p len = do {
     p \<leftarrow> (if bb_byteUpto p > BYTE_BLOCK_SIZE - int len then NextBuffer p else Some p);
     let at = bb_byteUpto p;
     let p = p\<lparr>bb_byteUpto := bb_byteUpto p + int len\<rparr>;
     i \<leftarrow> bb_buffer p;
     p \<leftarrow> bb_update p i (bb_set (bb_byteUpto p - 1) 16);
     Some (at, p)
   }"

text \<open>\<open>binary.BigEndian.PutUint32\<close>\<close>

definition be_bytes :: "u32 \<Rightarrow> u8 list" where
  "be_bytes w = [ucast (drop_bit 24 w), ucast (drop_bit 16 w), ucast (drop_bit 8 w), ucast w]"

text \<open>The slice is in block \<open>blk\<close>. The level is the whole byte at its end, with the mark 16 in it.\<close>

definition AllocSlice :: "BlockPool \<Rightarrow> nat \<Rightarrow> int \<Rightarrow> (int \<times> BlockPool) option" where
  "AllocSlice p blk at = do {
     b \<leftarrow> slice_get (bb_buffers p) blk;
     k \<leftarrow> int_index at;
     level \<leftarrow> slice_get b k;
     newLevel \<leftarrow> slice_get NEXT_LEVEL_ARRAY (unat level);
     newSize \<leftarrow> slice_get LEVEL_SIZE_ARRAY newLevel;
     p \<leftarrow> (if bb_byteUpto p > BYTE_BLOCK_SIZE - int newSize then NextBuffer p else Some p);
     let newUpto = bb_byteUpto p;
     let off = newUpto + bb_byteOffset p;
     let p = p\<lparr>bb_byteUpto := bb_byteUpto p + int newSize\<rparr>;
     i \<leftarrow> bb_buffer p;
     b \<leftarrow> slice_get (bb_buffers p) blk;
     past \<leftarrow> sub_slice b (at - 3) (int (length b));
     p \<leftarrow> bb_update p i (\<lambda>b. copy_into b newUpto (newUpto + 3) past);
     p \<leftarrow> (if length past < 4 then None
       else bb_update p blk (\<lambda>b. copy_into b (at - 3) (int (length b)) (be_bytes (word_of_int off))));
     p \<leftarrow> bb_update p i (bb_set (bb_byteUpto p - 1) (16 OR of_nat newLevel));
     Some (newUpto + 3, p)
   }"

text \<open>The term stored at an address: \<open>GetBytes\<close>, and the same lines again in \<open>equals\<close> and \<open>rehash\<close>\<close>

definition GetBytes :: "BlockPool \<Rightarrow> u32 \<Rightarrow> u8 list option" where
  "GetBytes p textStart = do {
     block \<leftarrow> slice_get (bb_buffers p) (unat (drop_bit BYTE_BLOCK_SHIFT textStart));
     let pos = textStart AND word_of_int BYTE_BLOCK_MASK;
     b0 \<leftarrow> slice_get block (unat pos);
     (len, off) \<leftarrow>
       (if b0 AND 0x80 = 0 then Some (ucast b0, pos + 1)
        else do {
          b1 \<leftarrow> slice_get block (unat (pos + 1));
          Some ((ucast b0 AND 0x7F) + push_bit 7 (ucast b1), pos + 2)
        });
     sub_slice block (uint (off :: u32)) (uint (off + len))
   }"

function ReadBytes_loop :: "BlockPool \<Rightarrow> int \<Rightarrow> int \<Rightarrow> u8 list \<Rightarrow> int \<Rightarrow> int \<Rightarrow> u8 list option" where
  "ReadBytes_loop p bufferIndex pos bs bytesOffset bytesLeft =
     (if bytesLeft > 0 then
        Option.bind (Option.bind (int_index bufferIndex) (slice_get (bb_buffers p))) (\<lambda>buffer.
          let chunk = min bytesLeft (BYTE_BLOCK_SIZE - pos) in
          Option.bind (sub_slice buffer pos (pos + chunk)) (\<lambda>xs.
          Option.bind (copy_into bs bytesOffset (int (length bs)) xs) (\<lambda>bs.
            if chunk \<le> 0 then None
            else ReadBytes_loop p (bufferIndex + 1) 0 bs (bytesOffset + chunk) (bytesLeft - chunk))))
      else Some bs)"
  by pat_completeness auto
termination
  by (relation "measure (\<lambda>(p, bufferIndex, pos, bs, bytesOffset, bytesLeft). nat bytesLeft)") auto

declare ReadBytes_loop.simps [simp del]

text \<open>The position is the offset times the mask. An empty chunk does not occur: a position is never 32768.\<close>

definition ReadBytes :: "BlockPool \<Rightarrow> int \<Rightarrow> u8 list \<Rightarrow> int \<Rightarrow> int \<Rightarrow> u8 list option" where
  "ReadBytes p off bs bytesOffset bytesLength =
     ReadBytes_loop p (drop_bit BYTE_BLOCK_SHIFT off) (off * BYTE_BLOCK_MASK) bs bytesOffset bytesLength"


subsection \<open>Start arrays\<close>

text \<open>
  The offsets of the terms. \<open>DirectStartArray\<close> and the table that uses it hold the same slice after
  every call, so it is kept once; the size it starts with is the other field.
\<close>

definition StartArray_Init :: "nat \<Rightarrow> u32 list" where
  "StartArray_Init initSize = replicate initSize 0"

definition StartArray_Grow :: "u32 list \<Rightarrow> u32 list" where
  "StartArray_Grow bytesStart = bytesStart @ [0]"

definition StartArray_Clear :: "u32 list \<Rightarrow> u32 list" where
  "StartArray_Clear bytesStart = []"

subsection \<open>BytesHash\<close>

text \<open>
  The hash function (\<open>github.com/spaolacci/murmur3\<close>) is a parameter: a function of the bytes.
  The free slots of \<open>ids\<close> are -1.
\<close>

record BytesHash =
  bh_pool :: BlockPool
  bh_bytesStart :: "u32 list"
  bh_hashSize :: nat
  bh_hashHalfSize :: nat
  bh_hashMask :: u32
  bh_count :: nat
  bh_lastCount :: int
  bh_ids :: "int list"
  bh_initSize :: nat

definition NewBytesHash :: "BlockPool \<Rightarrow> nat \<Rightarrow> nat \<Rightarrow> BytesHash" where
  "NewBytesHash pool capacity initSize =
     \<lparr>bh_pool = pool, bh_bytesStart = StartArray_Init initSize, bh_hashSize = capacity, bh_hashHalfSize = capacity div 2,
      bh_hashMask = of_nat capacity - 1, bh_count = 0, bh_lastCount = - 1, bh_ids = replicate capacity (- 1),
      bh_initSize = initSize\<rparr>"

definition Hash_Get :: "BytesHash \<Rightarrow> nat \<Rightarrow> u8 list option" where
  "Hash_Get r k = Option.bind (slice_get (bh_bytesStart r) k) (GetBytes (bh_pool r))"

definition ByteStart :: "BytesHash \<Rightarrow> nat \<Rightarrow> u32 option" where
  "ByteStart r k = slice_get (bh_bytesStart r) k"

text \<open>Is the term of the slot the one looked for?\<close>

definition hash_equals :: "BytesHash \<Rightarrow> int \<Rightarrow> u8 list \<Rightarrow> bool option" where
  "hash_equals r k bs = do {
     k \<leftarrow> int_index k;
     t \<leftarrow> Hash_Get r k;
     Some (t = bs)
   }"

text \<open>Linear probing; it does not end if no slot is free and the term is not there.\<close>

partial_function (option) probe :: "(int \<Rightarrow> bool option) \<Rightarrow> int list \<Rightarrow> u32 \<Rightarrow> u32 \<Rightarrow> nat option" where
  [code]: "probe stop ids hashMask code =
     Option.bind (slice_get ids (unat (code AND hashMask))) (\<lambda>k.
       if k = - 1 then Some (unat (code AND hashMask))
       else Option.bind (stop k) (\<lambda>found.
         if found then Some (unat (code AND hashMask)) else probe stop ids hashMask (code + 1)))"

definition findHash :: "(u8 list \<Rightarrow> u32) \<Rightarrow> BytesHash \<Rightarrow> u8 list \<Rightarrow> nat option" where
  "findHash hasher r bs = probe (\<lambda>k. hash_equals r k bs) (bh_ids r) (bh_hashMask r) (hasher bs)"

definition Find :: "(u8 list \<Rightarrow> u32) \<Rightarrow> BytesHash \<Rightarrow> u8 list \<Rightarrow> int option" where
  "Find hasher r bs = Option.bind (findHash hasher r bs) (slice_get (bh_ids r))"

primrec rehash_loop :: "(u8 list \<Rightarrow> u32) \<Rightarrow> BytesHash \<Rightarrow> bool \<Rightarrow> u32 \<Rightarrow> nat \<Rightarrow> nat \<Rightarrow> int list \<Rightarrow> int list option" where
  "rehash_loop hasher r hashOnData newMask i 0 newHash = Some newHash"
| "rehash_loop hasher r hashOnData newMask i (Suc n) newHash = do {
     k \<leftarrow> slice_get (bh_ids r) i;
     newHash \<leftarrow>
       (if k \<noteq> - 1 then do {
          k' \<leftarrow> int_index k;
          off \<leftarrow> slice_get (bh_bytesStart r) k';
          code \<leftarrow> (if hashOnData then map_option hasher (GetBytes (bh_pool r) off) else Some off);
          hashPos \<leftarrow> probe (\<lambda>_. Some False) newHash newMask code;
          slice_set newHash hashPos k
        }
        else Some newHash);
     rehash_loop hasher r hashOnData newMask (i + 1) n newHash
   }"

definition rehash :: "(u8 list \<Rightarrow> u32) \<Rightarrow> BytesHash \<Rightarrow> nat \<Rightarrow> bool \<Rightarrow> BytesHash option" where
  "rehash hasher r newSize hashOnData = do {
     let newMask = of_nat newSize - 1;
     newHash \<leftarrow> rehash_loop hasher r hashOnData newMask 0 (bh_hashSize r) (replicate newSize (- 1));
     Some (r\<lparr>bh_hashMask := newMask, bh_ids := newHash, bh_hashSize := newSize, bh_hashHalfSize := newSize div 2\<rparr>)
   }"

text \<open>The bytes of a term with its length in one or two bytes before them\<close>

definition put_term :: "u8 list \<Rightarrow> int \<Rightarrow> u8 list \<Rightarrow> u8 list option" where
  "put_term bs byteUpto buffer =
     (if length bs < 128 then do {
        buffer \<leftarrow> bb_set byteUpto (of_nat (length bs)) buffer;
        copy_into buffer (byteUpto + 1) (byteUpto + 1 + int (length bs)) bs
      }
      else do {
        buffer \<leftarrow> bb_set byteUpto (word_of_int (0x80 OR (int (length bs) AND 0x7F))) buffer;
        buffer \<leftarrow> bb_set (byteUpto + 1) (word_of_int (drop_bit 7 (int (length bs)))) buffer;
        copy_into buffer (byteUpto + 2) (byteUpto + 2 + int (length bs)) bs
      })"

definition Hash_Add :: "(u8 list \<Rightarrow> u32) \<Rightarrow> BytesHash \<Rightarrow> u8 list \<Rightarrow> ((go_error + int) \<times> BytesHash) option" where
  "Hash_Add hasher r bs = do {
     hashPos \<leftarrow> findHash hasher r bs;
     k \<leftarrow> slice_get (bh_ids r) hashPos;
     if k = - 1 then
       let len2 = 2 + int (length bs) in
       if len2 + bb_byteUpto (bh_pool r) > BYTE_BLOCK_SIZE \<and> len2 > BYTE_BLOCK_SIZE then
         Some (Inl (Err ''bytes can be at most %d in length; got %d''), r)
       else do {
         pool \<leftarrow> (if len2 + bb_byteUpto (bh_pool r) > BYTE_BLOCK_SIZE then NextBuffer (bh_pool r)
           else Some (bh_pool r));
         let byteUpto = bb_byteUpto pool;
         let bytesStart = (if bh_count r \<ge> length (bh_bytesStart r) then StartArray_Grow (bh_bytesStart r)
           else bh_bytesStart r);
         let k = bh_count r;
         bytesStart \<leftarrow> slice_set bytesStart k (word_of_int (byteUpto + bb_byteOffset pool));
         i \<leftarrow> bb_buffer pool;
         pool \<leftarrow> bb_update pool i (put_term bs byteUpto);
         let pool = pool\<lparr>bb_byteUpto := byteUpto + int (length bs) + (if length bs < 128 then 1 else 2)\<rparr>;
         ids \<leftarrow> slice_set (bh_ids r) hashPos (int k);
         let r = r\<lparr>bh_pool := pool, bh_bytesStart := bytesStart, bh_count := k + 1, bh_ids := ids\<rparr>;
         r \<leftarrow> (if bh_count r = bh_hashHalfSize r then rehash hasher r (2 * bh_hashSize r) True else Some r);
         Some (Inr (int k), r)
       }
     else Some (Inr (- (k + 1)), r)
   }"

definition AddByPoolOffset :: "(u8 list \<Rightarrow> u32) \<Rightarrow> BytesHash \<Rightarrow> u32 \<Rightarrow> (int \<times> BytesHash) option" where
  "AddByPoolOffset hasher r off = do {
     hashPos \<leftarrow> probe (\<lambda>e. do {
         e \<leftarrow> int_index e;
         o' \<leftarrow> slice_get (bh_bytesStart r) e;
         Some (o' = off)
       }) (bh_ids r) (bh_hashMask r) off;
     e \<leftarrow> slice_get (bh_ids r) hashPos;
     if e = - 1 then do {
       let bytesStart = (if bh_count r \<ge> length (bh_bytesStart r) then StartArray_Grow (bh_bytesStart r)
         else bh_bytesStart r);
       let e = bh_count r;
       bytesStart \<leftarrow> slice_set bytesStart e off;
       ids \<leftarrow> slice_set (bh_ids r) hashPos (int e);
       let r = r\<lparr>bh_bytesStart := bytesStart, bh_count := e + 1, bh_ids := ids\<rparr>;
       r \<leftarrow> (if bh_count r = bh_hashHalfSize r then rehash hasher r (2 * bh_hashSize r) False else Some r);
       Some (int e, r)
     }
     else Some (- (e + 1), r)
   }"

text \<open>\<open>Compact\<close> moves the ids to the front; \<open>Sort\<close> orders them by their bytes.\<close>

primrec compact_loop :: "nat \<Rightarrow> nat \<Rightarrow> nat \<Rightarrow> int list \<Rightarrow> int list option" where
  "compact_loop i k 0 ids = Some ids"
| "compact_loop i k (Suc n) ids = do {
     x \<leftarrow> slice_get ids i;
     if x \<noteq> - 1 then do {
       ids \<leftarrow> (if k < i then Option.bind (slice_set ids k x) (\<lambda>ids. slice_set ids i (- 1)) else Some ids);
       compact_loop (i + 1) (k + 1) n ids
     }
     else compact_loop (i + 1) k n ids
   }"

definition Compact :: "BytesHash \<Rightarrow> BytesHash option" where
  "Compact r = do {
     ids \<leftarrow> compact_loop 0 0 (bh_hashSize r) (bh_ids r);
     Some (r\<lparr>bh_ids := ids, bh_lastCount := int (bh_count r)\<rparr>)
   }"

text \<open>
  \<open>sort.Sort\<close> of the standard library, whose order of equal elements does not matter: the terms are
  distinct. It panics if a comparison does.
\<close>

definition Hash_Sort :: "BytesHash \<Rightarrow> (int list \<times> BytesHash) option" where
  "Hash_Sort r = do {
     r \<leftarrow> Compact r;
     ids \<leftarrow> sub_slice (bh_ids r) 0 (int (bh_count r));
     if \<exists>k \<in> set ids. Option.bind (int_index k) (Hash_Get r) = None then None
     else do {
       let ids = sort_key (\<lambda>k. the (Hash_Get r (nat k))) ids @ drop (bh_count r) (bh_ids r);
       Some (ids, r\<lparr>bh_ids := ids\<rparr>)
     }
   }"

function shrink_loop :: "nat \<Rightarrow> int \<Rightarrow> nat" where
  "shrink_loop newSize targetSize =
     (if newSize \<ge> 8 \<and> int (newSize div 4) > targetSize then shrink_loop (newSize div 2) targetSize else newSize)"
  by pat_completeness auto
termination
  by (relation "measure fst") auto

declare shrink_loop.simps [simp del]

definition shrink :: "BytesHash \<Rightarrow> int \<Rightarrow> bool \<times> BytesHash" where
  "shrink r targetSize =
     (let newSize = shrink_loop (bh_hashSize r) targetSize in
      if newSize \<noteq> bh_hashSize r then
        (True, r\<lparr>bh_hashSize := newSize, bh_ids := replicate newSize (- 1), bh_hashHalfSize := newSize div 2,
           bh_hashMask := of_nat newSize - 1\<rparr>)
      else (False, r))"

definition Hash_Clear :: "BytesHash \<Rightarrow> bool \<Rightarrow> BytesHash option" where
  "Hash_Clear r resetPool = do {
     let r = r\<lparr>bh_lastCount := int (bh_count r), bh_count := 0\<rparr>;
     pool \<leftarrow> (if resetPool then Pool_Reset (bh_pool r) False False else Some (bh_pool r));
     let r = r\<lparr>bh_pool := pool, bh_bytesStart := StartArray_Clear (bh_bytesStart r)\<rparr>;
     let (done, r') = (if bh_lastCount r \<noteq> - 1 then shrink r (bh_lastCount r) else (False, r));
     if done then Some r'
     else Some (r'\<lparr>bh_ids := replicate (length (bh_ids r')) (- 1)\<rparr>)
   }"

subsection \<open>Writing to the slices of a stream\<close>

text \<open>\<open>writeByte\<close> of core/index/termshashperfield.go: \<open>at\<close> is the entry of the stream in the address buffer.\<close>

definition writeByte :: "BlockPool \<Rightarrow> int \<Rightarrow> u8 \<Rightarrow> (int \<times> BlockPool) option" where
  "writeByte p at b = do {
     blk \<leftarrow> int_index (drop_bit BYTE_BLOCK_SHIFT at);
     bytes \<leftarrow> slice_get (bb_buffers p) blk;
     let off = at AND BYTE_BLOCK_MASK;
     k \<leftarrow> int_index off;
     m \<leftarrow> slice_get bytes k;
     (blk, off, at, p) \<leftarrow>
       (if m \<noteq> 0 then do {
          (off, p) \<leftarrow> AllocSlice p blk off;
          i \<leftarrow> bb_buffer p;
          Some (i, off, off + bb_byteOffset p, p)
        }
        else Some (blk, off, at, p));
     p \<leftarrow> bb_update p blk (bb_set off b);
     Some (at + 1, p)
   }"

primrec writeBytes :: "BlockPool \<Rightarrow> int \<Rightarrow> u8 list \<Rightarrow> (int \<times> BlockPool) option" where
  "writeBytes p at [] = Some (at, p)"
| "writeBytes p at (b # bs) = Option.bind (writeByte p at b) (\<lambda>(at, p). writeBytes p at bs)"

end
