(* ===== verification/Byte_Blocks_Correct.thy ===== *)
theory Byte_Blocks_Correct
  imports Byte_Blocks
begin

text \<open>
  Linear probing over a table of slots (\<open>table\<close>), terms in byte blocks (\<open>enc\<close>, \<open>stored\<close>), and the
  invariant of the hash table of terms (\<open>hash_inv\<close>) under \<open>Add\<close> and \<open>rehash\<close>; the first slice of a stream.
\<close>

subsection \<open>Linear probing\<close>

text \<open>The slot of a hash code in a table of \<open>2 ^ m\<close> slots\<close>

definition slot :: "nat \<Rightarrow> u32 \<Rightarrow> nat" where
  "slot m c = unat (c AND mask m)"

lemma slot_less: "m \<le> 32 \<Longrightarrow> slot m c < 2 ^ m"
  unfolding slot_def and_mask_take_bit by (simp add: unsigned_take_bit_eq)

text \<open>
  \<open>table m cd ids K\<close>: the ids \<open>K\<close>, each once, are in the slots, and from the slot of its code no id is
  behind a free slot.
\<close>

definition table :: "nat \<Rightarrow> (nat \<Rightarrow> u32) \<Rightarrow> int list \<Rightarrow> nat set \<Rightarrow> bool" where
  "table m cd ids K \<longleftrightarrow> length ids = 2 ^ m \<and> finite K \<and>
     (\<forall>i < 2 ^ m. ids ! i = - 1 \<or> (\<exists>k \<in> K. ids ! i = int k)) \<and>
     (\<forall>i < 2 ^ m. \<forall>j < 2 ^ m. ids ! i = ids ! j \<longrightarrow> ids ! i \<noteq> - 1 \<longrightarrow> i = j) \<and>
     (\<forall>k \<in> K. \<exists>n. ids ! slot m (cd k + of_nat n) = int k \<and> (\<forall>j < n. ids ! slot m (cd k + of_nat j) \<noteq> - 1))"

lemma table_empty: "table m cd (replicate (2 ^ m) (- 1)) {}"
  by (simp add: table_def)

lemma table_free:
  assumes "table m cd ids K" and "card K < 2 ^ m"
  shows "\<exists>i < 2 ^ m. ids ! i = - 1"
proof (rule ccontr)
  assume "\<not> ?thesis"
  then have full: "\<exists>k \<in> K. ids ! i = int k" if "i < 2 ^ m" for i
    using assms(1) that unfolding table_def by blast
  have "inj_on (\<lambda>i. nat (ids ! i)) {..<2 ^ m}"
  proof (rule inj_onI)
    fix i j assume ij: "i \<in> {..<2 ^ m}" "j \<in> {..<2 ^ m}" "nat (ids ! i) = nat (ids ! j)"
    obtain k k' where "ids ! i = int k" "ids ! j = int k'"
      using full ij(1,2) by (meson lessThan_iff)
    then have "ids ! i = ids ! j" "ids ! i \<noteq> - 1"
      using ij(3) by auto
    then show "i = j"
      using assms(1) ij(1,2) unfolding table_def by auto
  qed
  moreover have "(\<lambda>i. nat (ids ! i)) ` {..<2 ^ m} \<subseteq> K"
    using full by force
  moreover have "finite K"
    using assms(1) by (simp add: table_def)
  ultimately have "card {..<2 ^ m :: nat} \<le> card K"
    by (meson card_inj_on_le)
  then show False
    using assms(2) by simp
qed

lemma slot_hits:
  assumes "i < 2 ^ m" and "m \<le> 32"
  shows "\<exists>n. slot m (c + of_nat n) = i"
proof -
  have le: "(2 :: nat) ^ m \<le> 2 ^ 32"
    using assms(2) by (intro power_increasing) auto
  then have i: "i < 2 ^ LENGTH(32)"
    using assms(1) by simp
  have "c + of_nat (unat (of_nat i - c)) = of_nat i"
    by simp
  moreover have "slot m (of_nat i) = i"
  proof -
    have "take_bit m i = i"
      using assms(1) by (simp add: take_bit_nat_eq_self)
    then show ?thesis
      unfolding slot_def and_mask_take_bit using i assms(2) by (simp add: unsigned_take_bit_eq unsigned_of_nat take_bit_nat_eq_self)
  qed
  ultimately show ?thesis
    by metis
qed

lemma first_free:
  assumes "table m cd ids K" and "card K < 2 ^ m" and "m \<le> 32"
  obtains n where "ids ! slot m (c + of_nat n) = - 1" "\<forall>j < n. ids ! slot m (c + of_nat j) \<noteq> - 1"
proof -
  let ?P = "\<lambda>n. ids ! slot m (c + of_nat n) = - 1"
  have "\<exists>n. ?P n"
    using table_free [OF assms(1,2)] slot_hits [OF _ assms(3)] by metis
  then show ?thesis
    using that [of "LEAST n. ?P n"] LeastI_ex [of ?P] not_less_Least [of _ ?P] by blast
qed

lemma probe_at:
  assumes "m \<le> 32" and "length ids = 2 ^ m"
    and "\<forall>j < n. ids ! slot m (c + of_nat j) \<noteq> - 1 \<and> stop (ids ! slot m (c + of_nat j)) = Some False"
    and "ids ! slot m (c + of_nat n) = - 1 \<or> stop (ids ! slot m (c + of_nat n)) = Some True"
  shows "probe stop ids (mask m) c = Some (slot m (c + of_nat n))"
  using assms(3,4)
proof (induction n arbitrary: c)
  case 0
  have s: "slice_get ids (slot m c) = Some (ids ! slot m c)"
    using slot_less [OF assms(1), of c] assms(2) by (simp add: slice_get_in)
  have "ids ! slot m c = - 1 \<or> stop (ids ! slot m c) = Some True"
    using 0 by simp
  then show ?case
    by (subst probe.simps) (auto simp: s slot_def [symmetric])
next
  case (Suc n)
  have s: "slice_get ids (slot m c) = Some (ids ! slot m c)"
    using slot_less [OF assms(1), of c] assms(2) by (simp add: slice_get_in)
  have c: "ids ! slot m c \<noteq> - 1" "stop (ids ! slot m c) = Some False"
    using Suc.prems(1) [rule_format, of 0] by simp_all
  have shift: "c + 1 + of_nat j = c + of_nat (Suc j)" for j
    by simp
  have "probe stop ids (mask m) (c + 1) = Some (slot m (c + 1 + of_nat n))"
    by (rule Suc.IH) (use Suc.prems in \<open>simp_all only: shift\<close>, auto)
  then show ?case
    unfolding shift by (subst probe.simps) (simp add: s c slot_def [symmetric])
qed

lemma table_miss:
  assumes t: "table m cd ids K" and "card K < 2 ^ m" and m: "m \<le> 32"
    and stop: "\<forall>k \<in> K. stop (int k) = Some False"
  obtains n where "probe stop ids (mask m) c = Some (slot m (c + of_nat n))" "ids ! slot m (c + of_nat n) = - 1"
    "\<forall>j < n. ids ! slot m (c + of_nat j) \<noteq> - 1"
proof -
  obtain n where n: "ids ! slot m (c + of_nat n) = - 1" "\<forall>j < n. ids ! slot m (c + of_nat j) \<noteq> - 1"
    using first_free [OF assms(1-3)] .
  have "stop (ids ! slot m (c + of_nat j)) = Some False" if "j < n" for j
    using t n(2) that slot_less [OF m] stop unfolding table_def by metis
  then have "probe stop ids (mask m) c = Some (slot m (c + of_nat n))"
    using n t by (intro probe_at [OF m]) (auto simp: table_def)
  then show ?thesis
    using that n by blast
qed

lemma table_find:
  assumes t: "table m cd ids K" and m: "m \<le> 32" and k: "k \<in> K" "P k" "cd k = c"
    and stop: "\<forall>k' \<in> K. stop (int k') = Some (P k')" and uniq: "\<forall>k' \<in> K. P k' \<longrightarrow> k' = k"
  obtains i where "probe stop ids (mask m) c = Some i" "i < 2 ^ m" "ids ! i = int k"
proof -
  obtain n where n: "ids ! slot m (c + of_nat n) = int k" "\<forall>j < n. ids ! slot m (c + of_nat j) \<noteq> - 1"
    using t k(1,3) unfolding table_def by blast
  let ?Q = "\<lambda>n. ids ! slot m (c + of_nat n) = int k"
  define l where "l = (LEAST n. ?Q n)"
  have l: "?Q l" "\<And>j. j < l \<Longrightarrow> \<not> ?Q j" "l \<le> n"
    using LeastI [of ?Q, OF n(1)] not_less_Least [of _ ?Q] Least_le [of ?Q, OF n(1)] by (auto simp: l_def)
  have step: "ids ! slot m (c + of_nat j) \<noteq> - 1 \<and> stop (ids ! slot m (c + of_nat j)) = Some False" if j: "j < l" for j
  proof -
    have ne: "ids ! slot m (c + of_nat j) \<noteq> - 1"
      using n(2) l(3) j by simp
    then obtain k' where k': "k' \<in> K" "ids ! slot m (c + of_nat j) = int k'"
      using t slot_less [OF m] unfolding table_def by blast
    then have "k' \<noteq> k"
      using l(2) [OF j] by auto
    then show ?thesis
      using k' ne stop uniq by auto
  qed
  have "probe stop ids (mask m) c = Some (slot m (c + of_nat l))"
    using step l(1) stop k t by (intro probe_at [OF m]) (auto simp: table_def)
  then show ?thesis
    using that slot_less [OF m] l(1) by blast
qed

lemma table_insert:
  assumes t: "table m cd ids K" and m: "m \<le> 32" and k: "k \<notin> K"
    and n: "ids ! slot m (cd k + of_nat n) = - 1" "\<forall>j < n. ids ! slot m (cd k + of_nat j) \<noteq> - 1"
  shows "table m cd (ids[slot m (cd k + of_nat n) := int k]) (insert k K)"
proof -
  let ?s = "slot m (cd k + of_nat n)"
  let ?ids = "ids[?s := int k]"
  have s: "?s < length ids" and len: "length ids = 2 ^ m"
    using t slot_less [OF m] by (auto simp: table_def)
  have old: "ids ! i = - 1 \<or> (\<exists>k \<in> K. ids ! i = int k)" if "i < 2 ^ m" for i
    using t that unfolding table_def by blast
  have keep: "?ids ! i = ids ! i" if "ids ! i \<noteq> - 1" for i
    using n(1) that by (cases "i = ?s") simp_all
  have keep': "?ids ! i \<noteq> - 1" if "ids ! i \<noteq> - 1" for i
    unfolding keep [OF that] by (rule that)
  show ?thesis
    unfolding table_def
  proof (intro conjI ballI allI impI)
    show "length ?ids = 2 ^ m" "finite (insert k K)"
      using t by (simp_all add: table_def)
    show "?ids ! i = - 1 \<or> (\<exists>k' \<in> insert k K. ?ids ! i = int k')" if "i < 2 ^ m" for i
    proof (cases "i = ?s")
      case True
      then have "?ids ! i = int k"
        using s by simp
      then show ?thesis
        by blast
    next
      case False
      then have same: "?ids ! i = ids ! i"
        by simp
      from old [OF that] show ?thesis
      proof
        assume "ids ! i = - 1"
        then show ?thesis
          unfolding same by (rule disjI1)
      next
        assume "\<exists>k' \<in> K. ids ! i = int k'"
        then obtain k' where "k' \<in> K" "ids ! i = int k'" ..
        then show ?thesis
          unfolding same by (intro disjI2 bexI [of _ k']) simp_all
      qed
    qed
    show "i = j" if "i < 2 ^ m" "j < 2 ^ m" "?ids ! i = ?ids ! j" "?ids ! i \<noteq> - 1" for i j
    proof (cases "i = ?s \<or> j = ?s")
      case True
      have other: "?ids ! a \<noteq> int k" if a: "a < 2 ^ m" "a \<noteq> ?s" for a
      proof -
        have "ids ! a \<noteq> int k"
          using old [OF a(1)]
        proof
          assume "\<exists>k' \<in> K. ids ! a = int k'"
          then show ?thesis
            using k by auto
        qed simp
        then show ?thesis
          using a(2) by simp
      qed
      have new: "?ids ! ?s = int k"
        using s by simp
      from True show ?thesis
      proof
        assume i: "i = ?s"
        then have "?ids ! j = int k"
          using that(3) new by simp
        then show ?thesis
          using other [OF that(2)] i by blast
      next
        assume j: "j = ?s"
        then have "?ids ! i = int k"
          using that(3) new by simp
        then show ?thesis
          using other [OF that(1)] j by blast
      qed
    next
      case False
      then have "ids ! i = ids ! j" "ids ! i \<noteq> - 1"
        using that(3,4) by simp_all
      then show ?thesis
        using that(1,2) t unfolding table_def by blast
    qed
    show "\<exists>n. ?ids ! slot m (cd k' + of_nat n) = int k' \<and> (\<forall>j < n. ?ids ! slot m (cd k' + of_nat j) \<noteq> - 1)"
      if k': "k' \<in> insert k K" for k'
    proof (cases "k' = k")
      case True
      have "?ids ! slot m (cd k + of_nat j) \<noteq> - 1" if "j < n" for j
        by (rule keep' [OF n(2) [rule_format, OF that]])
      moreover have "?ids ! ?s = int k"
        using s by simp
      ultimately show ?thesis
        unfolding True by blast
    next
      case False
      then have "k' \<in> K"
        using k' by simp
      then obtain l where l: "ids ! slot m (cd k' + of_nat l) = int k'" "\<forall>j < l. ids ! slot m (cd k' + of_nat j) \<noteq> - 1"
        using t unfolding table_def by blast
      have "ids ! slot m (cd k' + of_nat l) \<noteq> - 1"
        unfolding l(1) by simp
      from keep [OF this] have "?ids ! slot m (cd k' + of_nat l) = int k'"
        unfolding l(1) .
      moreover have "?ids ! slot m (cd k' + of_nat j) \<noteq> - 1" if "j < l" for j
        by (rule keep' [OF l(2) [rule_format, OF that]])
      ultimately show ?thesis
        by blast
    qed
  qed
qed


subsection \<open>Terms in a block\<close>

text \<open>The bytes \<open>Add\<close> stores for a term\<close>

definition enc :: "u8 list \<Rightarrow> u8 list" where
  "enc bs = (if length bs < 128 then [of_nat (length bs)]
     else [word_of_int (0x80 OR (int (length bs) AND 0x7F)), word_of_int (drop_bit 7 (int (length bs)))]) @ bs"

lemma byte_block_consts:
  "BYTE_BLOCK_SIZE = 32768" "BYTE_BLOCK_MASK = mask 15" "drop_bit BYTE_BLOCK_SHIFT (int a) = int (a div 32768)"
  "int a AND BYTE_BLOCK_MASK = int (a mod 32768)"
proof -
  show s: "BYTE_BLOCK_SIZE = 32768"
    by (simp add: BYTE_BLOCK_SIZE_def BYTE_BLOCK_SHIFT_def push_bit_eq_mult)
  show m: "BYTE_BLOCK_MASK = mask 15"
    by (simp add: BYTE_BLOCK_MASK_def s mask_eq_exp_minus_1)
  show "drop_bit BYTE_BLOCK_SHIFT (int a) = int (a div 32768)"
    by (simp add: BYTE_BLOCK_SHIFT_def drop_bit_eq_div zdiv_int)
  show "int a AND BYTE_BLOCK_MASK = int (a mod 32768)"
    by (simp add: m take_bit_eq_mask [symmetric] take_bit_eq_mod zmod_int)
qed

lemma bb_set_nat: "bb_set (int k) v b = slice_set b k v"
  by (simp add: bb_set_def)

lemma put_term_enc:
  assumes "k + length (enc bs) \<le> length buf"
  shows "put_term bs (int k) buf = Some (write_block buf k (enc bs))"
proof (cases "length bs < 128")
  case True
  have *: "int k + 1 = int (Suc k)" "int (Suc k) + int (length bs) = int (Suc k + length bs)"
    by simp_all
  show ?thesis
    using copy_into_nat [of "Suc k" bs "buf[k := of_nat (length bs)]"] assms True unfolding put_term_def * bb_set_nat
    by (simp add: slice_set_in enc_def write_block_Cons del: of_nat_add of_nat_Suc)
next
  case False
  have *: "int k + 1 = int (Suc k)" "int k + 2 = int (Suc (Suc k))" "int (Suc (Suc k)) + int (length bs) = int (Suc (Suc k) + length bs)"
    by simp_all
  show ?thesis
    using copy_into_nat [of "Suc (Suc k)" bs "buf[k := word_of_int (0x80 OR (int (length bs) AND 0x7F)),
        Suc k := word_of_int (drop_bit 7 (int (length bs)))]"] assms False unfolding put_term_def * bb_set_nat
    by (simp add: slice_set_in enc_def write_block_Cons del: of_nat_add of_nat_Suc)
qed

lemma two_byte_length:
  assumes "0 \<le> x" and "x < 32768"
  shows "(word_of_int (0x80 OR (x AND 0x7F)) :: u8) AND 0x80 \<noteq> 0"
    "(ucast (word_of_int (0x80 OR (x AND 0x7F)) :: u8) AND 0x7F) + push_bit 7 (ucast (word_of_int (drop_bit 7 x) :: u8)) =
      (word_of_int x :: u32)"
proof -
  have a: "x AND 0x7F = x mod 128"
    using take_bit_eq_mask [of 7 x] by (simp add: take_bit_eq_mod mask_eq_exp_minus_1)
  let ?y = "0x80 OR (x AND 0x7F)"
  have y: "?y AND 0x7F = x mod 128" "?y AND 0x80 = 0x80"
    unfolding a [symmetric] by (simp_all add: bit.conj_disj_distrib2 and.assoc)
  have "?y < 2 ^ 8" "0 \<le> ?y"
    using OR_upper [of "0x80" 8 "x AND 0x7F"] a by simp_all
  then have uy: "ucast (word_of_int ?y :: u8) = (word_of_int ?y :: u32)"
    by (simp add: unsigned_word_eqI uint_word_of_int word_uint_eq_iff unsigned_ucast_eq take_bit_eq_mod)
  have d: "0 \<le> drop_bit 7 x" "drop_bit 7 x < 256" "drop_bit 7 x = x div 128"
    using assms by (simp_all add: drop_bit_eq_div)
  then have ud: "ucast (word_of_int (drop_bit 7 x) :: u8) = (word_of_int (x div 128) :: u32)"
    by (simp add: word_uint_eq_iff unsigned_ucast_eq take_bit_eq_mod uint_word_of_int)
  have "(word_of_int ?y :: u8) AND word_of_int 0x80 = word_of_int 0x80"
    unfolding of_int_and_eq [symmetric] y(2) ..
  then show "(word_of_int ?y :: u8) AND 0x80 \<noteq> 0"
    by simp
  have "(word_of_int ?y :: u32) AND word_of_int 0x7F = word_of_int (x mod 128)"
    unfolding of_int_and_eq [symmetric] y(1) ..
  moreover have "push_bit 7 (word_of_int (x div 128) :: u32) = word_of_int (128 * (x div 128))"
    by (simp add: push_bit_eq_mult)
  moreover have "(word_of_int (x mod 128) :: u32) + word_of_int (128 * (x div 128)) = word_of_int x"
    by (metis add.commute mult_div_mod_eq of_int_add)
  ultimately show "(ucast (word_of_int ?y :: u8) AND 0x7F) + push_bit 7 (ucast (word_of_int (drop_bit 7 x) :: u8)) =
      (word_of_int x :: u32)"
    unfolding uy ud by simp
qed

text \<open>A term at an address of the pool\<close>

definition stored :: "BlockPool \<Rightarrow> nat \<Rightarrow> u8 list \<Rightarrow> bool" where
  "stored p a bs \<longleftrightarrow> a div 32768 < length (bb_buffers p) \<and> length (bb_buffers p ! (a div 32768)) = 32768 \<and>
     a mod 32768 + length (enc bs) \<le> 32768 \<and>
     take (length (enc bs)) (drop (a mod 32768) (bb_buffers p ! (a div 32768))) = enc bs"

lemma take_drop_nth:
  assumes "take n (drop k xs) = ys" and "i < n" and "k + n \<le> length xs"
  shows "xs ! (k + i) = ys ! i"
  using assms by auto

lemma sub_slice_after:
  assumes "take (length (pre @ bs)) (drop k xs) = pre @ bs" and "k + length (pre @ bs) \<le> length xs"
  shows "sub_slice xs (int (k + length pre)) (int (k + length pre + length bs)) = Some bs"
proof -
  have "take (length bs) (drop (k + length pre) xs) = drop (length pre) (take (length (pre @ bs)) (drop k xs))"
    by (simp add: drop_take add.commute)
  then have "take (length bs) (drop (k + length pre) xs) = bs"
    unfolding assms(1) by simp
  then show ?thesis
    using sub_slice_nat [of "k + length pre" "length bs" xs] assms(2) by simp
qed

lemma GetBytes_stored:
  assumes s: "stored p a bs" and a: "a < 2 ^ 32"
  shows "GetBytes p (of_nat a) = Some bs"
proof -
  define b where "b = bb_buffers p ! (a div 32768)"
  define ofs where "ofs = a mod 32768"
  have b: "a div 32768 < length (bb_buffers p)" "length b = 32768" "ofs + length (enc bs) \<le> 32768"
    "take (length (enc bs)) (drop ofs b) = enc bs"
    using s by (simp_all add: stored_def b_def ofs_def)
  have ua: "unat (of_nat a :: u32) = a"
    using a by (simp add: unsigned_of_nat take_bit_nat_eq_self)
  have i: "unat (drop_bit BYTE_BLOCK_SHIFT (of_nat a :: u32)) = a div 32768"
    unfolding BYTE_BLOCK_SHIFT_def unsigned_drop_bit_eq ua using a by (simp add: take_bit_nat_eq_self drop_bit_eq_div)
  have pos: "(of_nat a :: u32) AND word_of_int BYTE_BLOCK_MASK = of_nat ofs"
  proof -
    have "(of_nat a :: u32) AND word_of_int BYTE_BLOCK_MASK = take_bit 15 (of_nat a)"
      unfolding byte_block_consts(2) by (simp add: take_bit_eq_mask of_int_mask_eq)
    also have "\<dots> = of_nat (take_bit 15 a)"
      by (rule take_bit_of_nat)
    finally show ?thesis
      by (simp add: take_bit_eq_mod ofs_def)
  qed
  have small: "unat (of_nat x :: u32) = x" "uint (of_nat x :: u32) = int x" if "x \<le> 32768" for x
    using that by (simp_all add: unsigned_of_nat take_bit_nat_eq_self take_bit_int_eq_self)
  have nth: "b ! (ofs + j) = enc bs ! j" if "j < length (enc bs)" for j
    using take_drop_nth [OF b(4) that] b(2,3) by simp
  show ?thesis
  proof (cases "length bs < 128")
    case True
    have e: "enc bs = of_nat (length bs) # bs"
      using True by (simp add: enc_def)
    have b0: "b ! ofs = of_nat (length bs)"
      using nth [of 0] by (simp add: e)
    have z: "(of_nat (length bs) :: u8) AND 0x80 = 0"
    proof -
      have "take_bit 7 (of_nat (length bs) :: u8) = of_nat (length bs)"
        using True by (simp add: take_bit_of_nat take_bit_nat_eq_self)
      then have m: "of_nat (length bs) AND 0x7F = (of_nat (length bs) :: u8)"
        by (simp add: take_bit_eq_mask mask_eq_exp_minus_1)
      have "(of_nat (length bs) AND 0x7F) AND (0x80 :: u8) = 0"
        unfolding and.assoc by simp
      then show ?thesis
        unfolding m .
    qed
    have u: "ucast (of_nat (length bs) :: u8) = (of_nat (length bs) :: u32)"
      using True by (simp add: word_uint_eq_iff unsigned_ucast_eq unsigned_of_nat take_bit_nat_eq_self take_bit_int_eq_self)
    have ot: "ofs + 1 \<le> 32768" "ofs + 1 + length bs \<le> 32768"
      using b(3) by (simp_all add: e)
    have w: "(of_nat ofs :: u32) + 1 = of_nat (ofs + 1)" "(of_nat ofs :: u32) + 1 + of_nat (length bs) = of_nat (ofs + 1 + length bs)"
      by simp_all
    have "sub_slice b (int (ofs + 1)) (int (ofs + 1 + length bs)) = Some bs"
      using sub_slice_after [of "[of_nat (length bs)]" bs ofs b] b(2-4) by (simp add: e)
    moreover have "slice_get b ofs = Some (of_nat (length bs))"
      using ot b(2) b0 by (simp add: slice_get_in)
    moreover have "unat (of_nat ofs :: u32) = ofs" "uint (of_nat (ofs + 1) :: u32) = int (ofs + 1)"
      "uint (of_nat (ofs + 1 + length bs) :: u32) = int (ofs + 1 + length bs)"
      using small [of ofs] small [of "ofs + 1"] small [of "ofs + 1 + length bs"] ot by linarith+
    moreover have "(of_nat (ofs + 1) :: u32) + of_nat (length bs) = of_nat (ofs + 1 + length bs)"
      by simp
    ultimately show ?thesis
      unfolding GetBytes_def i slice_get_in [OF b(1)] b_def [symmetric] Option.bind.simps Let_def pos
      by (simp only: z u w(1) if_True simp_thms Option.bind.simps prod.case)
  next
    case False
    have L: "length bs < 32768"
      using b(3) False by (auto simp: enc_def)
    note two = two_byte_length [of "int (length bs)", simplified, OF L]
    let ?h0 = "word_of_int (0x80 OR (int (length bs) AND 0x7F)) :: u8"
    let ?h1 = "word_of_int (drop_bit 7 (int (length bs))) :: u8"
    have e: "enc bs = ?h0 # ?h1 # bs"
      using False by (simp add: enc_def)
    have b01: "b ! ofs = ?h0" "b ! (ofs + 1) = ?h1"
      using nth [of 0] nth [of 1] by (simp_all add: e)
    have ot: "ofs + 2 + length bs \<le> 32768"
      using b(3) by (simp add: e)
    have w: "(of_nat ofs :: u32) + 1 = of_nat (ofs + 1)" "(of_nat ofs :: u32) + 2 = of_nat (ofs + 2)"
      "(of_nat (ofs + 2) :: u32) + of_nat (length bs) = of_nat (ofs + 2 + length bs)"
      by simp_all
    have "sub_slice b (int (ofs + 2)) (int (ofs + 2 + length bs)) = Some bs"
      using sub_slice_after [of "[?h0, ?h1]" bs ofs b] b(2-4) by (simp add: e)
    moreover have "slice_get b ofs = Some ?h0" "slice_get b (ofs + 1) = Some ?h1"
      using ot b(2) b01 by (simp_all add: slice_get_in)
    moreover have "unat (of_nat ofs :: u32) = ofs" "unat (of_nat (ofs + 1) :: u32) = ofs + 1"
      "uint (of_nat (ofs + 2) :: u32) = int (ofs + 2)" "uint (of_nat (ofs + 2 + length bs) :: u32) = int (ofs + 2 + length bs)"
      using small [of ofs] small [of "ofs + 1"] small [of "ofs + 2"] small [of "ofs + 2 + length bs"] ot by linarith+
    ultimately show ?thesis
      unfolding GetBytes_def i slice_get_in [OF b(1)] b_def [symmetric] Option.bind.simps Let_def pos
      by (simp only: two if_False w Option.bind.simps prod.case of_int_of_nat_eq)
  qed
qed


subsection \<open>The pool\<close>

definition bb_ok :: "BlockPool \<Rightarrow> bool" where
  "bb_ok p \<longleftrightarrow> bb_allocator p = DirectAllocator 32768 \<and> (\<forall>b \<in> set (bb_buffers p). length b = 32768) \<and>
     bb_bufferUpto p = int (length (bb_buffers p)) - 1 \<and> bb_byteOffset p = 32768 * bb_bufferUpto p \<and>
     0 \<le> bb_byteUpto p \<and> bb_byteUpto p \<le> 32768 \<and> (bb_buffers p = [] \<longrightarrow> bb_byteUpto p = 32768) \<and>
     bb_buffer p = (if bb_buffers p = [] then None else Some (length (bb_buffers p) - 1))"

definition bb_top :: "BlockPool \<Rightarrow> nat" where
  "bb_top p = nat (bb_byteOffset p + bb_byteUpto p)"

lemma bb_ok_new: "bb_ok (NewBlockPool (DirectAllocator 32768))"
  by (simp add: bb_ok_def NewBlockPool_def byte_block_consts)

lemma bb_top_eq:
  assumes "bb_ok p" and "bb_buffers p \<noteq> []"
  shows "bb_top p = 32768 * (length (bb_buffers p) - 1) + nat (bb_byteUpto p)"
    "bb_byteUpto p + bb_byteOffset p = int (bb_top p)"
proof -
  have l: "1 \<le> length (bb_buffers p)"
    using assms(2) by (cases "bb_buffers p") auto
  have o: "bb_byteOffset p = int (32768 * (length (bb_buffers p) - 1))"
    using assms(1) l by (simp add: bb_ok_def of_nat_diff)
  have u: "0 \<le> bb_byteUpto p"
    using assms(1) by (simp add: bb_ok_def)
  show "bb_top p = 32768 * (length (bb_buffers p) - 1) + nat (bb_byteUpto p)"
    unfolding bb_top_def o using u by (simp add: nat_add_distrib del: of_nat_mult)
  show "bb_byteUpto p + bb_byteOffset p = int (bb_top p)"
    unfolding bb_top_def using u o by simp
qed

lemma NextBuffer_ok:
  assumes "bb_ok p"
  obtains q where "NextBuffer p = Some q" "bb_ok q" "bb_buffers q = bb_buffers p @ [replicate 32768 0]" "bb_byteUpto q = 0"
    "bb_top p \<le> bb_top q"
proof -
  let ?n = "length (bb_buffers p)"
  let ?q = "p\<lparr>bb_buffers := bb_buffers p @ [replicate 32768 0], bb_allocator := DirectAllocator 32768,
    bb_buffer := Some ?n, bb_bufferUpto := int ?n, bb_byteUpto := 0, bb_byteOffset := bb_byteOffset p + 32768\<rparr>"
  have i: "1 + bb_bufferUpto p = int ?n" "bb_bufferUpto p + 1 = int ?n"
    using assms by (simp_all add: bb_ok_def)
  have a: "GetByteBlock (bb_allocator p) = Some (replicate 32768 0, DirectAllocator 32768)"
    using assms by (simp add: bb_ok_def)
  have 1: "NextBuffer p = Some ?q"
    unfolding NextBuffer_def a i by (simp add: byte_block_consts)
  have 2: "bb_ok ?q"
    using assms by (auto simp: bb_ok_def)
  have "bb_top p \<le> bb_top ?q"
    using assms by (auto simp: bb_top_def bb_ok_def)
  then show ?thesis
    using that [OF 1 2] by simp
qed

text \<open>Room for \<open>len\<close> bytes in the current block\<close>

lemma bb_room:
  assumes "bb_ok p" and "len \<le> 32768"
  obtains q where "(if int len + bb_byteUpto p > BYTE_BLOCK_SIZE then NextBuffer p else Some p) = Some q" "bb_ok q"
    "bb_buffers q \<noteq> [] \<or> len = 0" "bb_byteUpto q + int len \<le> 32768" "length (bb_buffers q) \<le> Suc (length (bb_buffers p))"
    "\<And>i. i < length (bb_buffers p) \<Longrightarrow> i < length (bb_buffers q) \<and> bb_buffers q ! i = bb_buffers p ! i"
    "bb_top p \<le> bb_top q"
proof (cases "int len + bb_byteUpto p > BYTE_BLOCK_SIZE")
  case True
  obtain q where q: "NextBuffer p = Some q" "bb_ok q" "bb_buffers q = bb_buffers p @ [replicate 32768 0]" "bb_byteUpto q = 0"
    "bb_top p \<le> bb_top q"
    using NextBuffer_ok [OF assms(1)] .
  show ?thesis
    by (rule that [of q]) (use True q assms(2) in \<open>simp_all add: nth_append\<close>)
next
  case False
  show ?thesis
    by (rule that [of p]) (use False assms in \<open>auto simp: byte_block_consts bb_ok_def\<close>)
qed

lemma take_drop_write_block:
  assumes "k + n \<le> off" and "off + length ys \<le> length xs"
  shows "take n (drop k (write_block xs off ys)) = take n (drop k xs)"
proof -
  have "take n (drop k (take off xs)) = take n (drop k xs)"
    using assms(1) by (simp add: drop_take)
  moreover have "k + n \<le> length (take off xs)"
    using assms by simp
  ultimately show ?thesis
    by (simp add: write_block_def)
qed

lemma take_drop_written: "off + length ys \<le> length xs \<Longrightarrow> take (length ys) (drop off (write_block xs off ys)) = ys"
  by (simp add: write_block_def)

lemma length_enc: "length (enc bs) = length bs + (if length bs < 128 then 1 else 2)"
  by (simp add: enc_def)

lemma bb_ok_len: "bb_ok p \<Longrightarrow> i < length (bb_buffers p) \<Longrightarrow> length (bb_buffers p ! i) = 32768"
  by (simp add: bb_ok_def)

lemma store_term:
  assumes ok: "bb_ok p" and len: "length bs \<le> 32766"
  obtains q i q' a where
    "(if 2 + int (length bs) + bb_byteUpto p > BYTE_BLOCK_SIZE then NextBuffer p else Some p) = Some q"
    "bb_buffer q = Some i" "bb_update q i (put_term bs (bb_byteUpto q)) = Some q'"
    "bb_byteUpto q + bb_byteOffset q = int a" "bb_top p \<le> a"
    "bb_ok (q'\<lparr>bb_byteUpto := bb_byteUpto q + int (length bs) + (if length bs < 128 then 1 else 2)\<rparr>)"
    "bb_top (q'\<lparr>bb_byteUpto := bb_byteUpto q + int (length bs) + (if length bs < 128 then 1 else 2)\<rparr>) = a + length (enc bs)"
    "stored q' a bs" "\<forall>c t. stored p c t \<longrightarrow> c + length (enc t) \<le> bb_top p \<longrightarrow> stored q' c t"
    "length (bb_buffers q') \<le> Suc (length (bb_buffers p))" "a < 32768 * length (bb_buffers q')"
proof -
  obtain q where q: "(if int (2 + length bs) + bb_byteUpto p > BYTE_BLOCK_SIZE then NextBuffer p else Some p) = Some q"
    "bb_ok q" "bb_buffers q \<noteq> []" "bb_byteUpto q + int (2 + length bs) \<le> 32768"
    "length (bb_buffers q) \<le> Suc (length (bb_buffers p))"
    "\<And>i. i < length (bb_buffers p) \<Longrightarrow> i < length (bb_buffers q) \<and> bb_buffers q ! i = bb_buffers p ! i" "bb_top p \<le> bb_top q"
    using bb_room [OF ok, of "2 + length bs"] len by auto
  define i where "i = length (bb_buffers q) - 1"
  define k where "k = nat (bb_byteUpto q)"
  have i: "i < length (bb_buffers q)" "bb_buffer q = Some i"
    using q(2,3) by (auto simp: i_def bb_ok_def)
  have k: "bb_byteUpto q = int k" "k + 2 + length bs \<le> 32768"
    using q(2,4) by (auto simp: k_def bb_ok_def)
  have top: "bb_top q = 32768 * i + k"
    using bb_top_eq(1) [OF q(2,3)] by (simp add: i_def k_def)
  have div: "bb_top q div 32768 = i" "bb_top q mod 32768 = k"
    unfolding top using k(2) by simp_all
  let ?b = "bb_buffers q ! i"
  have b: "length ?b = 32768"
    using bb_ok_len [OF q(2) i(1)] .
  have e: "k + length (enc bs) \<le> length ?b"
    unfolding b length_enc using k(2) by simp
  let ?b' = "write_block ?b k (enc bs)"
  let ?q' = "q\<lparr>bb_buffers := (bb_buffers q)[i := ?b']\<rparr>"
  let ?r = "?q'\<lparr>bb_byteUpto := bb_byteUpto q + int (length bs) + (if length bs < 128 then 1 else 2)\<rparr>"
  have b': "length ?b' = 32768"
    using e b by simp
  have upd: "bb_update q i (put_term bs (bb_byteUpto q)) = Some ?q'"
    using i(1) put_term_enc [OF e] by (simp add: bb_update_def k(1) slice_get_in)
  have ru: "bb_byteUpto ?r = int (k + length (enc bs))"
    by (simp add: k(1) length_enc)
  have "\<forall>b \<in> set ((bb_buffers q)[i := ?b']). length b = 32768"
    using q(2) b' set_update_subset_insert [of "bb_buffers q" i ?b'] unfolding bb_ok_def by blast
  moreover have "0 \<le> bb_byteUpto ?r \<and> bb_byteUpto ?r \<le> 32768"
    unfolding ru using e b by simp
  ultimately have okr: "bb_ok ?r"
    using q(2,3) by (simp add: bb_ok_def)
  have topr: "bb_top ?r = bb_top q + length (enc bs)"
  proof -
    have "nat (bb_byteUpto ?r) = k + length (enc bs)"
      unfolding ru by (rule nat_int)
    moreover have "bb_buffers ?r \<noteq> []"
      using q(3) by simp
    ultimately have "bb_top ?r = 32768 * (length (bb_buffers ?r) - 1) + (k + length (enc bs))"
      using bb_top_eq(1) [OF okr] by simp
    then show ?thesis
      unfolding top by (simp add: i_def)
  qed
  have new: "stored ?q' (bb_top q) bs"
    unfolding stored_def div using i(1) b b' e take_drop_written [OF e] by simp
  have old: "stored ?q' c t" if s: "stored p c t" and c: "c + length (enc t) \<le> bb_top p" for c t
  proof -
    have c': "c div 32768 < length (bb_buffers q)" "bb_buffers q ! (c div 32768) = bb_buffers p ! (c div 32768)"
      using s q(6) by (auto simp: stored_def)
    show ?thesis
    proof (cases "c div 32768 = i")
      case False
      then show ?thesis
        using s c' by (simp add: stored_def)
    next
      case True
      have "c = 32768 * i + c mod 32768"
        using True by (metis mult_div_mod_eq)
      then have "c mod 32768 + length (enc t) \<le> k"
        using c q(7) unfolding top by linarith
      then have "take (length (enc t)) (drop (c mod 32768) ?b') = take (length (enc t)) (drop (c mod 32768) ?b)"
        using e by (rule take_drop_write_block)
      then show ?thesis
        using s c' True i(1) b' by (simp add: stored_def)
    qed
  qed
  show ?thesis
  proof (rule that [of q i ?q' "bb_top q"])
    show "(if 2 + int (length bs) + bb_byteUpto p > BYTE_BLOCK_SIZE then NextBuffer p else Some p) = Some q"
      using q(1) by simp
    show "bb_byteUpto q + bb_byteOffset q = int (bb_top q)"
      by (rule bb_top_eq(2) [OF q(2,3)])
    show "bb_top q < 32768 * length (bb_buffers ?q')"
      using i(1) k(2) top by simp
  qed (use i(2) upd q(5,7) okr topr new old in simp_all)
qed


subsection \<open>The hash table\<close>

text \<open>The terms \<open>ts\<close> are in the pool, and the start array says where.\<close>

definition hash_terms :: "BytesHash \<Rightarrow> u8 list list \<Rightarrow> bool" where
  "hash_terms r ts \<longleftrightarrow> bb_ok (bh_pool r) \<and> bh_count r = length ts \<and> distinct ts \<and>
     length ts \<le> length (bh_bytesStart r) \<and> length (bb_buffers (bh_pool r)) \<le> length ts \<and>
     (\<forall>k < length ts. \<exists>a. bh_bytesStart r ! k = of_nat a \<and> a + length (enc (ts ! k)) \<le> bb_top (bh_pool r) \<and>
        a < 32768 * length (bb_buffers (bh_pool r)) \<and> stored (bh_pool r) a (ts ! k))"

definition hash_inv :: "(u8 list \<Rightarrow> u32) \<Rightarrow> BytesHash \<Rightarrow> u8 list list \<Rightarrow> bool" where
  "hash_inv hasher r ts \<longleftrightarrow> hash_terms r ts \<and>
     (\<exists>m. 1 \<le> m \<and> m \<le> 32 \<and> bh_hashSize r = 2 ^ m \<and> bh_hashHalfSize r = 2 ^ (m - 1) \<and> bh_hashMask r = mask m \<and>
        length ts < 2 ^ (m - 1) \<and> table m (\<lambda>k. hasher (ts ! k)) (bh_ids r) {..<length ts})"

lemma hash_inv_new:
  assumes "1 \<le> m" and "m \<le> 32"
  shows "hash_inv hasher (NewBytesHash (NewBlockPool (DirectAllocator 32768)) (2 ^ m) init) []"
proof -
  have "(2 :: nat) ^ m div 2 = 2 ^ (m - 1)"
    using assms(1) by (cases m) simp_all
  then have "\<exists>m'. 1 \<le> m' \<and> m' \<le> 32 \<and> (2 :: nat) ^ m = 2 ^ m' \<and> (2 :: nat) ^ m div 2 = 2 ^ (m' - 1) \<and>
      of_nat (2 ^ m) - 1 = (mask m' :: u32) \<and> (0 :: nat) < 2 ^ (m' - 1) \<and>
      table m' (\<lambda>k. hasher ([] ! k)) (replicate (2 ^ m) (- 1)) {}"
    using assms table_empty by (intro exI [of _ m]) (simp add: mask_eq_exp_minus_1)
  then show ?thesis
    unfolding hash_inv_def using bb_ok_new by (simp add: hash_terms_def NewBytesHash_def NewBlockPool_def lessThan_0)
qed

lemma Hash_Get_inv:
  assumes "hash_terms r ts" and "k < length ts" and "length ts \<le> 131072"
  shows "Hash_Get r k = Some (ts ! k)"
proof -
  obtain a where a: "bh_bytesStart r ! k = of_nat a" "a < 32768 * length (bb_buffers (bh_pool r))" "stored (bh_pool r) a (ts ! k)"
    using assms(1,2) unfolding hash_terms_def by blast
  have "a < 32768 * 131072"
    using a(2) assms(1,3) by (auto simp: hash_terms_def)
  then have "GetBytes (bh_pool r) (of_nat a) = Some (ts ! k)"
    using GetBytes_stored [OF a(3)] by simp
  moreover have "k < length (bh_bytesStart r)"
    using assms(1,2) by (simp add: hash_terms_def)
  ultimately show ?thesis
    by (simp add: Hash_Get_def slice_get_in a(1))
qed

lemma hash_equals_inv:
  assumes "hash_terms r ts" and "k < length ts" and "length ts \<le> 131072"
  shows "hash_equals r (int k) bs = Some (ts ! k = bs)"
  by (simp add: hash_equals_def Hash_Get_inv [OF assms])

lemma hash_inv_table:
  assumes "hash_inv hasher r ts"
  obtains m where "1 \<le> m" "m \<le> 32" "bh_hashSize r = 2 ^ m" "bh_hashHalfSize r = 2 ^ (m - 1)" "bh_hashMask r = mask m"
    "length ts < 2 ^ (m - 1)" "table m (\<lambda>k. hasher (ts ! k)) (bh_ids r) {..<length ts}" "length (bh_ids r) = 2 ^ m"
    "length ts < 2 ^ m"
proof -
  obtain m where m: "1 \<le> m" "m \<le> 32" "bh_hashSize r = 2 ^ m" "bh_hashHalfSize r = 2 ^ (m - 1)" "bh_hashMask r = mask m"
    "length ts < 2 ^ (m - 1)" "table m (\<lambda>k. hasher (ts ! k)) (bh_ids r) {..<length ts}"
    using assms unfolding hash_inv_def by blast
  have "(2 :: nat) ^ (m - 1) \<le> 2 ^ m"
    by (intro power_increasing) simp_all
  then have "length ts < 2 ^ m"
    using m(6) by linarith
  then show ?thesis
    using that [OF m] m(7) by (simp add: table_def)
qed

lemma findHash_hit:
  assumes inv: "hash_inv hasher r ts" and k: "k < length ts" and len: "length ts \<le> 131072"
  obtains i where "findHash hasher r (ts ! k) = Some i" "i < length (bh_ids r)" "bh_ids r ! i = int k"
proof -
  obtain m where m: "m \<le> 32" "bh_hashMask r = mask m" "table m (\<lambda>k. hasher (ts ! k)) (bh_ids r) {..<length ts}"
    "length (bh_ids r) = 2 ^ m"
    using hash_inv_table [OF inv] by metis
  have terms: "hash_terms r ts" and d: "distinct ts"
    using inv by (simp_all add: hash_inv_def hash_terms_def)
  show ?thesis
  proof (rule table_find [OF m(3,1), of k "\<lambda>k'. ts ! k' = ts ! k" "hasher (ts ! k)" "\<lambda>k'. hash_equals r k' (ts ! k)"])
    show "\<forall>k' \<in> {..<length ts}. hash_equals r (int k') (ts ! k) = Some (ts ! k' = ts ! k)"
      using hash_equals_inv [OF terms _ len] by simp
    show "\<forall>k' \<in> {..<length ts}. ts ! k' = ts ! k \<longrightarrow> k' = k"
      using d k by (simp add: nth_eq_iff_index_eq)
    fix i assume "probe (\<lambda>k'. hash_equals r k' (ts ! k)) (bh_ids r) (mask m) (hasher (ts ! k)) = Some i"
      "i < 2 ^ m" "bh_ids r ! i = int k"
    then show thesis
      using that m(2,4) by (simp add: findHash_def)
  qed (use k in simp_all)
qed

lemma findHash_miss:
  assumes inv: "hash_inv hasher r ts" and new: "bs \<notin> set ts" and len: "length ts \<le> 131072"
  obtains m n where "1 \<le> m" "m \<le> 32" "bh_hashSize r = 2 ^ m" "bh_hashHalfSize r = 2 ^ (m - 1)" "bh_hashMask r = mask m"
    "length ts < 2 ^ (m - 1)" "table m (\<lambda>k. hasher (ts ! k)) (bh_ids r) {..<length ts}" "length (bh_ids r) = 2 ^ m"
    "findHash hasher r bs = Some (slot m (hasher bs + of_nat n))" "bh_ids r ! slot m (hasher bs + of_nat n) = - 1"
    "\<forall>j < n. bh_ids r ! slot m (hasher bs + of_nat j) \<noteq> - 1"
proof -
  obtain m where m: "1 \<le> m" "m \<le> 32" "bh_hashSize r = 2 ^ m" "bh_hashHalfSize r = 2 ^ (m - 1)" "bh_hashMask r = mask m"
    "length ts < 2 ^ (m - 1)" "table m (\<lambda>k. hasher (ts ! k)) (bh_ids r) {..<length ts}" "length (bh_ids r) = 2 ^ m"
    "length ts < 2 ^ m"
    using hash_inv_table [OF inv] .
  have terms: "hash_terms r ts"
    using inv by (simp add: hash_inv_def)
  have "\<forall>k \<in> {..<length ts}. hash_equals r (int k) bs = Some False"
    using hash_equals_inv [OF terms _ len] new by (auto simp: set_conv_nth)
  then obtain n where "probe (\<lambda>k. hash_equals r k bs) (bh_ids r) (mask m) (hasher bs) = Some (slot m (hasher bs + of_nat n))"
    "bh_ids r ! slot m (hasher bs + of_nat n) = - 1" "\<forall>j < n. bh_ids r ! slot m (hasher bs + of_nat j) \<noteq> - 1"
    using table_miss [OF m(7) _ m(2), of "\<lambda>k. hash_equals r k bs" "hasher bs"] m(9) by (auto simp: lessThan_def [symmetric])
  then show ?thesis
    using that [OF m(1-8)] by (simp add: findHash_def m(5))
qed

subsection \<open>Growing the table\<close>

definition stored_code :: "(u8 list \<Rightarrow> u32) \<Rightarrow> BytesHash \<Rightarrow> bool \<Rightarrow> nat \<Rightarrow> u32 option" where
  "stored_code hasher r hashOnData k = do {
     off \<leftarrow> slice_get (bh_bytesStart r) k;
     if hashOnData then map_option hasher (GetBytes (bh_pool r) off) else Some off
   }"

lemma rehash_loop_table:
  assumes t: "table m cd (bh_ids r) K" and m: "m \<le> 32" and m': "m' \<le> 32" "card K < 2 ^ m'"
    and code: "\<forall>k \<in> K. stored_code hasher r d k = Some (cd k)"
    and start: "table m' cd new {k \<in> K. \<exists>j < i. bh_ids r ! j = int k}" and i: "i + n = 2 ^ m"
  shows "\<exists>h. rehash_loop hasher r d (mask m') i n new = Some h \<and> table m' cd h K"
  using start i
proof (induction n arbitrary: i new)
  case 0
  have "\<exists>j < 2 ^ m. bh_ids r ! j = int k" if k: "k \<in> K" for k
    using t k slot_less [OF m] unfolding table_def by blast
  then have "{k \<in> K. \<exists>j < 2 ^ m. bh_ids r ! j = int k} = K"
    by blast
  then show ?case
    using 0 by simp
next
  case (Suc n)
  let ?K = "\<lambda>i. {k \<in> K. \<exists>j < i. bh_ids r ! j = int k}"
  have i: "i < 2 ^ m" "i < length (bh_ids r)" "Suc i + n = 2 ^ m"
    using Suc.prems(2) t by (simp_all add: table_def)
  consider (free) "bh_ids r ! i = - 1" | (used) k where "k \<in> K" "bh_ids r ! i = int k"
    using t i(1) unfolding table_def by blast
  then show ?case
  proof cases
    case free
    have "?K (Suc i) = ?K i"
      using free by (auto simp: less_Suc_eq)
    then have "\<exists>h. rehash_loop hasher r d (mask m') (Suc i) n new = Some h \<and> table m' cd h K"
      using Suc.IH [of new "Suc i"] Suc.prems(1) i(3) by simp
    then show ?thesis
      using free i(2) by (simp add: slice_get_in)
  next
    case used
    have "k \<notin> ?K i"
    proof
      assume "k \<in> ?K i"
      then obtain j where j: "j < i" "bh_ids r ! j = int k"
        by blast
      then have "bh_ids r ! j = bh_ids r ! i" "bh_ids r ! j \<noteq> - 1" "j < 2 ^ m"
        using used i(1) by auto
      then have "j = i"
        using t i(1) unfolding table_def by blast
      then show False
        using j(1) by simp
    qed
    note new = this
    have "finite K"
      using t by (simp add: table_def)
    then have "card (?K i) \<le> card K"
      by (intro card_mono) auto
    then obtain l where l: "probe (\<lambda>_. Some False) new (mask m') (cd k) = Some (slot m' (cd k + of_nat l))"
      "new ! slot m' (cd k + of_nat l) = - 1" "\<forall>j < l. new ! slot m' (cd k + of_nat j) \<noteq> - 1"
      using table_miss [OF Suc.prems(1) _ m'(1), of "\<lambda>_. Some False" "cd k"] m'(2) by auto
    let ?s = "slot m' (cd k + of_nat l)"
    have "insert k (?K i) = ?K (Suc i)"
      using used by (auto simp: less_Suc_eq)
    then have "table m' cd (new[?s := int k]) (?K (Suc i))"
      using table_insert [OF Suc.prems(1) m'(1) new l(2,3)] by simp
    then have IH: "\<exists>h. rehash_loop hasher r d (mask m') (Suc i) n (new[?s := int k]) = Some h \<and> table m' cd h K"
      using Suc.IH [of "new[?s := int k]" "Suc i"] i(3) by simp
    obtain off where off: "slice_get (bh_bytesStart r) k = Some off"
      "(if d then map_option hasher (GetBytes (bh_pool r) off) else Some off) = Some (cd k)"
      using code used(1) unfolding stored_code_def bind_eq_Some_conv by blast
    have s: "?s < length new"
      using Suc.prems(1) slot_less [OF m'(1)] by (simp add: table_def)
    have get: "slice_get (bh_ids r) i = Some (int k)"
      using i(2) used(2) by simp
    have set: "slice_set new ?s (int k) = Some (new[?s := int k])"
      using s by simp
    have "rehash_loop hasher r d (mask m') i (Suc n) new = rehash_loop hasher r d (mask m') (Suc i) n (new[?s := int k])"
      unfolding rehash_loop.simps get Option.bind.simps int_index_int off l(1) set by simp
    then show ?thesis
      using IH by simp
  qed
qed

lemma table_cong:
  assumes "table m cd ids K" and "\<And>k. k \<in> K \<Longrightarrow> cd' k = cd k"
  shows "table m cd' ids K"
  using assms unfolding table_def by simp


lemma rehash_inv:
  assumes terms: "hash_terms r ts" and len: "length ts \<le> 131072"
    and m: "1 \<le> m" "m \<le> 31" "bh_hashSize r = 2 ^ m" "length ts < 2 ^ m"
    and t: "table m (\<lambda>k. hasher (ts ! k)) (bh_ids r) {..<length ts}"
  shows "\<exists>r'. rehash hasher r (2 * bh_hashSize r) True = Some r' \<and> hash_inv hasher r' ts"
proof -
  have mask: "of_nat (2 * 2 ^ m) - 1 = (mask (Suc m) :: u32)"
    by (simp add: mask_eq_exp_minus_1)
  have lt: "length ts < 2 ^ Suc m"
    using m(4) by simp
  have code: "stored_code hasher r True k = Some (hasher (ts ! k))" if "k < length ts" for k
    using Hash_Get_inv [OF terms that len] by (auto simp: stored_code_def Hash_Get_def bind_eq_Some_conv)
  have none: "{k \<in> {..<length ts}. \<exists>j < 0. bh_ids r ! j = int k} = {}"
    by simp
  have m32: "m \<le> 32" "Suc m \<le> 32"
    using m(2) by simp_all
  obtain h where h: "rehash_loop hasher r True (mask (Suc m)) 0 (2 ^ m) (replicate (2 * 2 ^ m) (- 1)) = Some h"
    "table (Suc m) (\<lambda>k. hasher (ts ! k)) h {..<length ts}"
    using rehash_loop_table [OF t m32(1,2), of hasher True "replicate (2 ^ Suc m) (- 1)" 0 "2 ^ m"] lt code
      table_empty [of "Suc m" "\<lambda>k. hasher (ts ! k)"] unfolding none by auto
  let ?r = "r\<lparr>bh_hashMask := mask (Suc m), bh_ids := h, bh_hashSize := 2 * 2 ^ m, bh_hashHalfSize := 2 * 2 ^ m div 2\<rparr>"
  have "rehash hasher r (2 * bh_hashSize r) True = Some ?r"
    unfolding rehash_def Let_def m(3) mask h(1) Option.bind.simps ..
  moreover have "hash_terms ?r ts"
    using terms by (simp add: hash_terms_def)
  moreover have "1 \<le> Suc m \<and> Suc m \<le> 32 \<and> bh_hashSize ?r = 2 ^ Suc m \<and> bh_hashHalfSize ?r = 2 ^ (Suc m - 1) \<and>
      bh_hashMask ?r = mask (Suc m) \<and> length ts < 2 ^ (Suc m - 1) \<and>
      table (Suc m) (\<lambda>k. hasher (ts ! k)) (bh_ids ?r) {..<length ts}"
    using m32(2) m(4) h(2) by simp
  ultimately show ?thesis
    unfolding hash_inv_def by blast
qed

lemma Hash_Add_new:
  assumes inv: "hash_inv hasher r ts" and new: "bs \<notin> set ts" and short: "length bs \<le> 32766" and len: "length ts < 131072"
  shows "\<exists>r'. Hash_Add hasher r bs = Some (Inr (int (length ts)), r') \<and> hash_inv hasher r' (ts @ [bs])"
proof -
  have terms: "hash_terms r ts"
    using inv by (simp add: hash_inv_def)
  then have ok: "bb_ok (bh_pool r)" and count: "bh_count r = length ts" and dist: "distinct ts"
    and starts: "length ts \<le> length (bh_bytesStart r)" and bufs: "length (bb_buffers (bh_pool r)) \<le> length ts"
    by (simp_all add: hash_terms_def)
  obtain m n where m: "1 \<le> m" "m \<le> 32" "bh_hashSize r = 2 ^ m" "bh_hashHalfSize r = 2 ^ (m - 1)" "bh_hashMask r = mask m"
    "length ts < 2 ^ (m - 1)" "table m (\<lambda>k. hasher (ts ! k)) (bh_ids r) {..<length ts}" "length (bh_ids r) = 2 ^ m"
    and find: "findHash hasher r bs = Some (slot m (hasher bs + of_nat n))"
    and free: "bh_ids r ! slot m (hasher bs + of_nat n) = - 1" "\<forall>j < n. bh_ids r ! slot m (hasher bs + of_nat j) \<noteq> - 1"
    using findHash_miss [OF inv new less_imp_le [OF len]] .
  let ?s = "slot m (hasher bs + of_nat n)"
  obtain q i q' a where q:
    "(if 2 + int (length bs) + bb_byteUpto (bh_pool r) > BYTE_BLOCK_SIZE then NextBuffer (bh_pool r) else Some (bh_pool r)) = Some q"
    "bb_buffer q = Some i" "bb_update q i (put_term bs (bb_byteUpto q)) = Some q'"
    "bb_byteUpto q + bb_byteOffset q = int a" "bb_top (bh_pool r) \<le> a"
    "bb_ok (q'\<lparr>bb_byteUpto := bb_byteUpto q + int (length bs) + (if length bs < 128 then 1 else 2)\<rparr>)"
    "bb_top (q'\<lparr>bb_byteUpto := bb_byteUpto q + int (length bs) + (if length bs < 128 then 1 else 2)\<rparr>) = a + length (enc bs)"
    "stored q' a bs" "\<forall>c t. stored (bh_pool r) c t \<longrightarrow> c + length (enc t) \<le> bb_top (bh_pool r) \<longrightarrow> stored q' c t"
    "length (bb_buffers q') \<le> Suc (length (bb_buffers (bh_pool r)))" "a < 32768 * length (bb_buffers q')"
    using store_term [OF ok short] .
  define pool where "pool = q'\<lparr>bb_byteUpto := bb_byteUpto q + int (length bs) + (if length bs < 128 then 1 else 2)\<rparr>"
  define st where "st = (if length ts \<ge> length (bh_bytesStart r) then StartArray_Grow (bh_bytesStart r) else bh_bytesStart r)"
  define r1 where "r1 = r\<lparr>bh_pool := pool, bh_bytesStart := st[length ts := of_nat a], bh_count := length ts + 1,
    bh_ids := (bh_ids r)[?s := int (length ts)]\<rparr>"
  have stlen: "length ts < length st" "\<And>k. k < length ts \<Longrightarrow> st ! k = bh_bytesStart r ! k"
    using starts by (auto simp: st_def StartArray_Grow_def nth_append)
  have same: "stored pool c t = stored q' c t" for c t
    by (simp add: pool_def stored_def)
  have slen: "?s < length (bh_ids r)"
    using slot_less [OF m(2)] m(8) by simp
  have terms1: "hash_terms r1 (ts @ [bs])"
    unfolding hash_terms_def
  proof (intro conjI allI impI)
    show "bb_ok (bh_pool r1)"
      using q(6) by (simp add: r1_def pool_def)
    show "length (bb_buffers (bh_pool r1)) \<le> length (ts @ [bs])"
      using q(10) bufs by (simp add: r1_def pool_def)
    fix k assume k: "k < length (ts @ [bs])"
    show "\<exists>b. bh_bytesStart r1 ! k = of_nat b \<and> b + length (enc ((ts @ [bs]) ! k)) \<le> bb_top (bh_pool r1) \<and>
        b < 32768 * length (bb_buffers (bh_pool r1)) \<and> stored (bh_pool r1) b ((ts @ [bs]) ! k)"
    proof (cases "k = length ts")
      case True
      then show ?thesis
        using q(7,8,11) stlen(1) by (intro exI [of _ a]) (simp add: r1_def same, simp add: pool_def)
    next
      case False
      then have k': "k < length ts"
        using k by simp
      obtain b where b: "bh_bytesStart r ! k = of_nat b" "b + length (enc (ts ! k)) \<le> bb_top (bh_pool r)"
        "b < 32768 * length (bb_buffers (bh_pool r))" "stored (bh_pool r) b (ts ! k)"
        using terms k' unfolding hash_terms_def by blast
      have st': "stored q' b (ts ! k)"
        using q(9) b(2,4) by blast
      then have "b < 32768 * length (bb_buffers q')"
        unfolding stored_def by (simp add: div_less_iff_less_mult mult.commute)
      then show ?thesis
        using k' b(1,2) st' q(5,7) stlen
        by (intro exI [of _ b]) (simp add: r1_def same nth_append, simp add: pool_def)
    qed
  qed (use dist new stlen(1) in \<open>simp_all add: r1_def\<close>)
  have tab1: "table m (\<lambda>k. hasher ((ts @ [bs]) ! k)) (bh_ids r1) {..<length (ts @ [bs])}"
  proof -
    have "table m (\<lambda>k. hasher ((ts @ [bs]) ! k)) (bh_ids r) {..<length ts}"
      by (rule table_cong [OF m(7)]) (simp add: nth_append)
    from table_insert [OF this m(2), of "length ts" n] free
    show ?thesis
      by (simp add: r1_def lessThan_Suc)
  qed
  have half: "(2 :: nat) ^ m = 2 * 2 ^ (m - 1)"
    using m(1) by (cases m) simp_all
  have "\<exists>r2. (if bh_count r1 = bh_hashHalfSize r1 then rehash hasher r1 (2 * bh_hashSize r1) True else Some r1) = Some r2 \<and>
      hash_inv hasher r2 (ts @ [bs])"
  proof (cases "bh_count r1 = bh_hashHalfSize r1")
    case True
    then have eq: "Suc (length ts) = 2 ^ (m - 1)"
      by (simp add: r1_def m(4))
    then have "(2 :: nat) ^ (m - 1) \<le> 2 ^ 17"
      using len by simp
    then have "m - 1 \<le> 17"
      by (rule power_le_imp_le_exp [rotated]) simp
    then have m31: "m \<le> 31"
      by simp
    have "\<exists>r'. rehash hasher r1 (2 * bh_hashSize r1) True = Some r' \<and> hash_inv hasher r' (ts @ [bs])"
      by (rule rehash_inv [OF terms1 _ m(1) m31 _ _ tab1]) (use len m(3) eq half in \<open>simp_all add: r1_def\<close>)
    then show ?thesis
      using True by simp
  next
    case False
    then have "length (ts @ [bs]) < 2 ^ (m - 1)"
      using m(6) by (simp add: r1_def m(4))
    then have "1 \<le> m \<and> m \<le> 32 \<and> bh_hashSize r1 = 2 ^ m \<and> bh_hashHalfSize r1 = 2 ^ (m - 1) \<and> bh_hashMask r1 = mask m \<and>
        length (ts @ [bs]) < 2 ^ (m - 1) \<and> table m (\<lambda>k. hasher ((ts @ [bs]) ! k)) (bh_ids r1) {..<length (ts @ [bs])}"
      using m(1-5) tab1 by (simp add: r1_def)
    then show ?thesis
      using False terms1 unfolding hash_inv_def by auto
  qed
  then obtain r2 where r2: "(if bh_count r1 = bh_hashHalfSize r1 then rehash hasher r1 (2 * bh_hashSize r1) True else Some r1) = Some r2"
    "hash_inv hasher r2 (ts @ [bs])"
    by blast
  have cond: "\<not> (2 + int (length bs) + bb_byteUpto (bh_pool r) > BYTE_BLOCK_SIZE \<and> 2 + int (length bs) > BYTE_BLOCK_SIZE)"
    using short by (simp add: byte_block_consts(1))
  have get: "slice_get (bh_ids r) ?s = Some (- 1)"
    using slen free(1) by simp
  have set: "slice_set st (length ts) (word_of_int (int a)) = Some (st[length ts := of_nat a])"
    "slice_set (bh_ids r) ?s (int (length ts)) = Some ((bh_ids r)[?s := int (length ts)])"
    using stlen(1) slen by simp_all
  have "Hash_Add hasher r bs = Some (Inr (int (length ts)), r2)"
    unfolding Hash_Add_def find Option.bind.simps get if_P [OF refl] Let_def if_not_P [OF cond] q(1) count q(2,3,4)
      st_def [symmetric] set pool_def [symmetric] r1_def [symmetric] r2(1) ..
  then show ?thesis
    using r2(2) by blast
qed

lemma Hash_Add_old:
  assumes "hash_inv hasher r ts" and "k < length ts" and "length ts \<le> 131072"
  shows "Hash_Add hasher r (ts ! k) = Some (Inr (- (int k + 1)), r)"
proof -
  obtain i where "findHash hasher r (ts ! k) = Some i" "i < length (bh_ids r)" "bh_ids r ! i = int k"
    using findHash_hit [OF assms] .
  then show ?thesis
    by (simp add: Hash_Add_def slice_get_in)
qed

lemma Hash_Add_long:
  assumes inv: "hash_inv hasher r ts" and new: "bs \<notin> set ts" and long: "32766 < length bs" and len: "length ts \<le> 131072"
  shows "Hash_Add hasher r bs = Some (Inl (Err ''bytes can be at most %d in length; got %d''), r)"
proof -
  obtain m n where m: "m \<le> 32" "length (bh_ids r) = 2 ^ m" and f: "findHash hasher r bs = Some (slot m (hasher bs + of_nat n))"
    "bh_ids r ! slot m (hasher bs + of_nat n) = - 1"
    using findHash_miss [OF inv new len] .
  have "slot m (hasher bs + of_nat n) < length (bh_ids r)"
    using slot_less [OF m(1)] m(2) by simp
  moreover have "0 \<le> bb_byteUpto (bh_pool r)"
    using inv by (simp add: hash_inv_def hash_terms_def bb_ok_def)
  ultimately show ?thesis
    using long by (simp add: Hash_Add_def f slice_get_in byte_block_consts(1))
qed


subsection \<open>A list of terms\<close>

text \<open>The place of a term in the list\<close>

definition position :: "'a \<Rightarrow> 'a list \<Rightarrow> nat" where
  "position x xs = length (takeWhile (\<lambda>y. y \<noteq> x) xs)"

lemma position_nth: "x \<in> set xs \<Longrightarrow> position x xs < length xs \<and> xs ! position x xs = x"
  unfolding position_def by (induction xs) auto

text \<open>What \<open>Add\<close> promises: the number of a new term, or minus the number of an old one, minus one.\<close>

definition spec_add :: "u8 list list \<Rightarrow> u8 list \<Rightarrow> (go_error + int) \<times> u8 list list" where
  "spec_add ts bs =
     (if bs \<in> set ts then (Inr (- (int (position bs ts) + 1)), ts)
      else if 32766 < length bs then (Inl (Err ''bytes can be at most %d in length; got %d''), ts)
      else (Inr (int (length ts)), ts @ [bs]))"

primrec spec_adds :: "u8 list list \<Rightarrow> u8 list list \<Rightarrow> (go_error + int) list \<times> u8 list list" where
  "spec_adds ts [] = ([], ts)"
| "spec_adds ts (bs # bss) =
     (case spec_add ts bs of (x, ts') \<Rightarrow> case spec_adds ts' bss of (xs, ts'') \<Rightarrow> (x # xs, ts''))"

primrec run_adds :: "(u8 list \<Rightarrow> u32) \<Rightarrow> BytesHash \<Rightarrow> u8 list list \<Rightarrow> ((go_error + int) list \<times> BytesHash) option" where
  "run_adds hasher r [] = Some ([], r)"
| "run_adds hasher r (bs # bss) = do {
     (x, r) \<leftarrow> Hash_Add hasher r bs;
     (xs, r) \<leftarrow> run_adds hasher r bss;
     Some (x # xs, r)
   }"

lemma Hash_Add_spec:
  assumes inv: "hash_inv hasher r ts" and len: "length ts < 131072"
  shows "\<exists>r'. Hash_Add hasher r bs = Some (fst (spec_add ts bs), r') \<and> hash_inv hasher r' (snd (spec_add ts bs))"
proof (cases "bs \<in> set ts")
  case True
  then show ?thesis
    using Hash_Add_old [OF inv conjunct1 [OF position_nth [OF True]]] position_nth [OF True] inv len
    by (simp add: spec_add_def)
next
  case False
  then show ?thesis
    using Hash_Add_long [OF inv False] Hash_Add_new [OF inv False] inv len
    by (cases "32766 < length bs") (auto simp: spec_add_def)
qed

lemma spec_add_length: "length (snd (spec_add ts bs)) \<le> Suc (length ts)"
  by (simp add: spec_add_def)

lemma run_adds_spec:
  assumes "hash_inv hasher r ts" and "length ts + length bss \<le> 131072"
  shows "\<exists>r'. run_adds hasher r bss = Some (fst (spec_adds ts bss), r') \<and> hash_inv hasher r' (snd (spec_adds ts bss)) \<and>
    length (snd (spec_adds ts bss)) \<le> 131072"
  using assms
proof (induction bss arbitrary: r ts)
  case (Cons bs bss)
  obtain r1 where r1: "Hash_Add hasher r bs = Some (fst (spec_add ts bs), r1)" "hash_inv hasher r1 (snd (spec_add ts bs))"
    using Hash_Add_spec [OF Cons.prems(1), of bs] Cons.prems(2) by auto
  have "length (snd (spec_add ts bs)) + length bss \<le> 131072"
    using spec_add_length [of ts bs] Cons.prems(2) by simp
  from Cons.IH [OF r1(2) this] show ?case
    using r1(1) by (auto simp: case_prod_beta)
qed simp

lemma Find_spec:
  assumes inv: "hash_inv hasher r ts" and len: "length ts \<le> 131072"
  shows "Find hasher r bs = Some (if bs \<in> set ts then int (position bs ts) else - 1)"
proof (cases "bs \<in> set ts")
  case True
  note p = position_nth [OF True]
  obtain i where "findHash hasher r (ts ! position bs ts) = Some i" "i < length (bh_ids r)" "bh_ids r ! i = int (position bs ts)"
    using findHash_hit [OF inv conjunct1 [OF p] len] .
  then show ?thesis
    using True p by (simp add: Find_def slice_get_in)
next
  case False
  obtain m n where m: "m \<le> 32" "length (bh_ids r) = 2 ^ m" and f: "findHash hasher r bs = Some (slot m (hasher bs + of_nat n))"
    "bh_ids r ! slot m (hasher bs + of_nat n) = - 1"
    using findHash_miss [OF inv False len] .
  have "slot m (hasher bs + of_nat n) < length (bh_ids r)"
    using slot_less [OF m(1)] m(2) by simp
  then show ?thesis
    using False f by (simp add: Find_def slice_get_in)
qed

subsection \<open>Streams of bytes\<close>

text \<open>The bytes after the head of the current block are zero.\<close>

definition bb_zero :: "BlockPool \<Rightarrow> bool" where
  "bb_zero p \<longleftrightarrow> (bb_buffers p \<noteq> [] \<longrightarrow>
     (\<forall>k < 32768. bb_byteUpto p \<le> int k \<longrightarrow> bb_buffers p ! (length (bb_buffers p) - 1) ! k = 0))"

lemma NewSlice_first:
  assumes ok: "bb_ok p" and zero: "bb_zero p"
  obtains q i k where "NewSlice p 5 = Some (int k, q)" "int k + bb_byteOffset q = int (32768 * i + k)" "k + 5 \<le> 32768"
    "i < length (bb_buffers q)" "length (bb_buffers q ! i) = 32768" "\<forall>j < 4. bb_buffers q ! i ! (k + j) = 0"
    "bb_buffers q ! i ! (k + 4) = 16"
proof -
  obtain q where q: "(if bb_byteUpto p > BYTE_BLOCK_SIZE - int 5 then NextBuffer p else Some p) = Some q" "bb_ok q" "bb_zero q"
    "bb_buffers q \<noteq> []" "bb_byteUpto q + 5 \<le> 32768"
  proof (cases "bb_byteUpto p > BYTE_BLOCK_SIZE - int 5")
    case True
    obtain q where q: "NextBuffer p = Some q" "bb_ok q" "bb_buffers q = bb_buffers p @ [replicate 32768 0]" "bb_byteUpto q = 0"
      using NextBuffer_ok [OF ok] by blast
    then show thesis
      using True by (intro that [of q]) (simp_all add: bb_zero_def)
  next
    case False
    then show thesis
      using ok zero by (intro that [of p]) (auto simp: bb_ok_def byte_block_consts)
  qed
  define i where "i = length (bb_buffers q) - 1"
  define k where "k = nat (bb_byteUpto q)"
  have k: "bb_byteUpto q = int k" "k + 5 \<le> 32768"
    using q(2,5) by (auto simp: k_def bb_ok_def)
  have i: "i < length (bb_buffers q)" "bb_buffer q = Some i" "bb_byteOffset q = int (32768 * i)"
    using q(2,4) by (auto simp: i_def bb_ok_def of_nat_diff Suc_le_eq)
  let ?b = "bb_buffers q ! i"
  have b: "length ?b = 32768"
    by (rule bb_ok_len [OF q(2) i(1)])
  let ?q = "q\<lparr>bb_byteUpto := int k + 5, bb_buffers := (bb_buffers q)[i := ?b[k + 4 := 16]]\<rparr>"
  have e: "int k + 5 - 1 = int (k + 4)"
    by simp
  have "bb_update (q\<lparr>bb_byteUpto := int k + 5\<rparr>) i (bb_set (int k + 5 - 1) 16) = Some ?q"
    unfolding e bb_update_def using i(1) k b by (simp add: bb_set_nat slice_get_in slice_set_in del: of_nat_add)
  then have "NewSlice p 5 = Some (int k, ?q)"
    using q(1) i(2) by (simp add: NewSlice_def k(1))
  moreover have "\<forall>j < 4. ?b ! (k + j) = 0"
    using q(3,4) k unfolding bb_zero_def i_def by simp
  ultimately show ?thesis
    using k(2) i(1,3) b by (intro that [of k ?q i]) simp_all
qed

lemma writeBytes_first:
  assumes "i < length (bb_buffers p)" and "length (bb_buffers p ! i) = 32768" and "k + 5 \<le> 32768" and "j \<le> 4"
    and "\<forall>j'. j \<le> j' \<and> j' < 4 \<longrightarrow> bb_buffers p ! i ! (k + j') = 0" and "bb_buffers p ! i ! (k + 4) = 16"
  shows "writeBytes p (int (32768 * i + k + j)) bs = None \<longleftrightarrow> 4 < j + length bs"
  using assms
proof (induction bs arbitrary: p j)
  case Nil
  then show ?case
    by simp
next
  case (Cons b bs)
  let ?at = "32768 * i + k + j"
  have kj: "k + j < 32768"
    using Cons.prems(3,4) by simp
  have at: "?at div 32768 = i" "?at mod 32768 = k + j"
    using kj by (simp_all add: add.assoc)
  have dv: "drop_bit BYTE_BLOCK_SHIFT (int ?at) = int i" "int ?at AND BYTE_BLOCK_MASK = int (k + j)"
    unfolding byte_block_consts(3,4) at by (rule refl)+
  have get: "slice_get (bb_buffers p) i = Some (bb_buffers p ! i)"
    "slice_get (bb_buffers p ! i) (k + j) = Some (bb_buffers p ! i ! (k + j))"
    using Cons.prems(1,2) kj by simp_all
  show ?case
  proof (cases "j = 4")
    case True
    have m: "bb_buffers p ! i ! (k + j) = 16"
      using Cons.prems(6) True by simp
    have "AllocSlice p i (int (k + j)) = None"
      unfolding AllocSlice_def get(1) Option.bind.simps int_index_int get(2) m
      by (simp add: NEXT_LEVEL_ARRAY_def slice_get_def)
    then have "writeByte p (int ?at) b = None"
      unfolding writeByte_def dv Option.bind.simps int_index_int get(1) Let_def get(2) m by simp
    then show ?thesis
      using True by simp
  next
    case False
    then have j: "j < 4"
      using Cons.prems(4) by simp
    then have m: "bb_buffers p ! i ! (k + j) = 0"
      using Cons.prems(5) by simp
    let ?p = "p\<lparr>bb_buffers := (bb_buffers p)[i := (bb_buffers p ! i)[k + j := b]]\<rparr>"
    have upd: "bb_update p i (bb_set (int (k + j)) b) = Some ?p"
      unfolding bb_update_def get(1) bb_set_nat using Cons.prems(2) kj by (simp add: slice_set_in)
    have "writeByte p (int ?at) b = Some (int ?at + 1, ?p)"
      unfolding writeByte_def dv Option.bind.simps int_index_int get(1) Let_def get(2) m using upd by simp
    moreover have "int ?at + 1 = int (32768 * i + k + Suc j)"
      by simp
    moreover have "writeBytes ?p (int (32768 * i + k + Suc j)) bs = None \<longleftrightarrow> 4 < Suc j + length bs"
      by (rule Cons.IH) (use Cons.prems j in auto)
    ultimately show ?thesis
      by (simp del: of_nat_add of_nat_mult)
  qed
qed

subsection \<open>Properties\<close>

text \<open>
  C31. The hash table of terms is a list of distinct terms, whatever the hash function: a run of \<open>Add\<close>
  returns what the list promises (a new number, or the complement of the old one, or the error for a
  term that is too long), \<open>Get\<close> returns the bytes of each number and \<open>Find\<close> its number or -1. The table
  grows as needed and the probing always ends.
\<close>

theorem bytes_hash_refines:
  assumes "1 \<le> m" and "m \<le> 32" and "length bss \<le> 131072"
  shows "\<exists>r. run_adds hasher (NewBytesHash (NewBlockPool (DirectAllocator 32768)) (2 ^ m) initSize) bss =
      Some (fst (spec_adds [] bss), r) \<and>
    (\<forall>k < length (snd (spec_adds [] bss)). Hash_Get r k = Some (snd (spec_adds [] bss) ! k)) \<and>
    (\<forall>bs. Find hasher r bs =
      Some (if bs \<in> set (snd (spec_adds [] bss)) then int (position bs (snd (spec_adds [] bss))) else - 1))"
proof -
  have "length ([] :: u8 list list) + length bss \<le> 131072"
    using assms(3) by simp
  from run_adds_spec [OF hash_inv_new [OF assms(1,2)] this]
  obtain r where r: "run_adds hasher (NewBytesHash (NewBlockPool (DirectAllocator 32768)) (2 ^ m) initSize) bss =
      Some (fst (spec_adds [] bss), r)" "hash_inv hasher r (snd (spec_adds [] bss))"
    "length (snd (spec_adds [] bss)) \<le> 131072"
    by blast
  have "hash_terms r (snd (spec_adds [] bss))"
    using r(2) by (simp add: hash_inv_def)
  then show ?thesis
    using r(1) Hash_Get_inv [OF _ _ r(3)] Find_spec [OF r(2,3)] by blast
qed

theorem bytes_hash_refines_witness:
  "\<exists>r. run_adds (\<lambda>_. 5) (NewBytesHash (NewBlockPool (DirectAllocator 32768)) (2 ^ 1) 0) [[1, 2], [3], [1, 2]] =
      Some ([Inr 0, Inr 1, Inr (- 1)], r) \<and> Find (\<lambda>_. 5) r [3] = Some 1 \<and> Find (\<lambda>_. 5) r [] = Some (- 1)"
  using bytes_hash_refines [of 1 "[[1, 2], [3], [1, 2]]" "\<lambda>_. 5" 0] by (auto simp: spec_add_def position_def)

text \<open>
  C32. A stream takes four bytes: the level in the mark at the end of a slice is used with the mark still
  in it, so \<open>AllocSlice\<close> indexes its table of levels out of range and the fifth byte of every stream
  panics.
\<close>

theorem stream_fifth_byte_panics:
  assumes "bb_ok p" and "bb_zero p"
  shows "\<exists>at q. NewSlice p FIRST_LEVEL_SIZE = Some (at, q) \<and>
    (\<forall>bs. writeBytes q (at + bb_byteOffset q) bs = None \<longleftrightarrow> 4 < length bs)"
proof -
  have five: "FIRST_LEVEL_SIZE = 5"
    by (simp add: FIRST_LEVEL_SIZE_def LEVEL_SIZE_ARRAY_def)
  obtain q i k where q: "NewSlice p 5 = Some (int k, q)" "int k + bb_byteOffset q = int (32768 * i + k)" "k + 5 \<le> 32768"
    "i < length (bb_buffers q)" "length (bb_buffers q ! i) = 32768" "\<forall>j < 4. bb_buffers q ! i ! (k + j) = 0"
    "bb_buffers q ! i ! (k + 4) = 16"
    using NewSlice_first [OF assms] .
  have "writeBytes q (int (32768 * i + k + 0)) bs = None \<longleftrightarrow> 4 < 0 + length bs" for bs
    by (rule writeBytes_first [OF q(4,5,3)]) (use q(6,7) in auto)
  then show ?thesis
    unfolding five q(2) [symmetric] using q(1) by (auto simp: q(2))
qed

theorem stream_fifth_byte_panics_witness:
  "\<exists>at q. NewSlice (NewBlockPool (DirectAllocator 32768)) FIRST_LEVEL_SIZE = Some (at, q) \<and>
    writeBytes q (at + bb_byteOffset q) [1, 2, 3, 4, 5] = None"
proof -
  have "bb_zero (NewBlockPool (DirectAllocator 32768))"
    by (simp add: bb_zero_def NewBlockPool_def)
  then obtain at q where q: "NewSlice (NewBlockPool (DirectAllocator 32768)) FIRST_LEVEL_SIZE = Some (at, q)"
    "\<forall>bs. writeBytes q (at + bb_byteOffset q) bs = None \<longleftrightarrow> 4 < length bs"
    using stream_fifth_byte_panics [OF bb_ok_new] by blast
  moreover have "4 < length [1 :: u8, 2, 3, 4, 5]"
    by simp
  ultimately show ?thesis
    by blast
qed

end
