(* ===== verification/Priority_Queue.thy ===== *)
theory Priority_Queue
  imports Prelude
begin

text \<open>
  core/util/structure/priority_queue.go: the bounded binary heap, 1-based in an array of
  \<open>maxSize + 1\<close> elements. \<open>none\<close> is the zero value of the element type.
\<close>

subsection \<open>State and operations\<close>

record 'a PriorityQueue =
  pq_size :: nat
  pq_maxSize :: nat
  pq_heap :: "'a list"
  pq_none :: 'a

text \<open>\<open>NewPriorityQueueV1\<close>: a requested size below 2 is raised to 2.\<close>

definition NewPriorityQueueV1 :: "'a \<Rightarrow> nat \<Rightarrow> 'a \<Rightarrow> 'a PriorityQueue" where
  "NewPriorityQueueV1 none maxSize supplied =
     (let maxSize = (if maxSize < 2 then 2 else maxSize) in
      \<lparr>pq_size = 0, pq_maxSize = maxSize, pq_heap = replicate (maxSize + 1) supplied, pq_none = none\<rparr>)"

definition NewPriorityQueue :: "'a \<Rightarrow> nat \<Rightarrow> 'a PriorityQueue" where
  "NewPriorityQueue none maxSize = NewPriorityQueueV1 none maxSize none"

text \<open>The loop of \<open>upHeap\<close>: parents move down until \<open>node\<close> fits at the hole \<open>i\<close>.\<close>

fun upHeap_loop :: "('a \<Rightarrow> 'a \<Rightarrow> bool) \<Rightarrow> 'a \<Rightarrow> 'a list \<Rightarrow> nat \<Rightarrow> 'a list \<times> nat" where
  "upHeap_loop lt node heap i =
     (let j = i div 2 in
      if 0 < j \<and> lt node (heap ! j) then upHeap_loop lt node (heap[i := heap ! j]) j
      else (heap, i))"

declare upHeap_loop.simps [simp del]

definition upHeap :: "('a \<Rightarrow> 'a \<Rightarrow> bool) \<Rightarrow> 'a list \<Rightarrow> nat \<Rightarrow> 'a list \<times> bool" where
  "upHeap lt heap origPos =
     (let node = heap ! origPos; (heap, i) = upHeap_loop lt node heap origPos in
      (heap[i := node], i \<noteq> origPos))"

definition smaller_child :: "('a \<Rightarrow> 'a \<Rightarrow> bool) \<Rightarrow> 'a list \<Rightarrow> nat \<Rightarrow> nat \<Rightarrow> nat" where
  "smaller_child lt heap size' i =
     (let j = 2 * i; k = j + 1 in if k \<le> size' \<and> lt (heap ! k) (heap ! j) then k else j)"

lemma smaller_child_cases: "smaller_child lt heap n i = 2 * i \<or> smaller_child lt heap n i = 2 * i + 1"
  by (simp add: smaller_child_def Let_def)

text \<open>The loop of \<open>downHeap\<close>; it is only ever entered with \<open>i >= 1\<close>.\<close>

function downHeap_loop :: "('a \<Rightarrow> 'a \<Rightarrow> bool) \<Rightarrow> nat \<Rightarrow> 'a \<Rightarrow> 'a list \<Rightarrow> nat \<Rightarrow> 'a list \<times> nat" where
  "downHeap_loop lt size' node heap i =
     (let j = smaller_child lt heap size' i in
      if 0 < i \<and> j \<le> size' \<and> lt (heap ! j) node then downHeap_loop lt size' node (heap[i := heap ! j]) j
      else (heap, i))"
  by pat_completeness auto
termination
proof (relation "measure (\<lambda>(lt, size', node, heap, i). size' - i)")
  fix lt :: "'a \<Rightarrow> 'a \<Rightarrow> bool" and size' node heap i j
  assume "j = smaller_child lt heap size' i" "0 < i \<and> j \<le> size' \<and> lt (heap ! j) node"
  then show "((lt, size', node, heap[i := heap ! j], j), (lt, size', node, heap, i))
    \<in> measure (\<lambda>(lt, size', node, heap, i). size' - i)"
    using smaller_child_cases [of lt heap size' i] by auto
qed auto

declare downHeap_loop.simps [simp del]

definition downHeap :: "('a \<Rightarrow> 'a \<Rightarrow> bool) \<Rightarrow> nat \<Rightarrow> 'a list \<Rightarrow> nat \<Rightarrow> 'a list" where
  "downHeap lt size' heap i =
     (let node = heap ! i; (heap, i) = downHeap_loop lt size' node heap i in heap[i := node])"

text \<open>\<open>Add\<close> panics when the array is full; \<open>Top\<close> reads the array whatever the size is.\<close>

definition pq_Add :: "('a \<Rightarrow> 'a \<Rightarrow> bool) \<Rightarrow> 'a PriorityQueue \<Rightarrow> 'a \<Rightarrow> ('a \<times> 'a PriorityQueue) option" where
  "pq_Add lt p element = do {
     let n = pq_size p + 1;
     heap \<leftarrow> slice_set (pq_heap p) n element;
     let heap = fst (upHeap lt heap n);
     Some (heap ! 1, p\<lparr>pq_size := n, pq_heap := heap\<rparr>)
   }"

definition pq_Top :: "'a PriorityQueue \<Rightarrow> 'a" where
  "pq_Top p = pq_heap p ! 1"

definition pq_UpdateTop :: "('a \<Rightarrow> 'a \<Rightarrow> bool) \<Rightarrow> 'a PriorityQueue \<Rightarrow> 'a \<times> 'a PriorityQueue" where
  "pq_UpdateTop lt p =
     (let heap = downHeap lt (pq_size p) (pq_heap p) 1 in (heap ! 1, p\<lparr>pq_heap := heap\<rparr>))"

definition pq_UpdateTopByNewTop :: "('a \<Rightarrow> 'a \<Rightarrow> bool) \<Rightarrow> 'a PriorityQueue \<Rightarrow> 'a \<Rightarrow> 'a \<times> 'a PriorityQueue" where
  "pq_UpdateTopByNewTop lt p newTop = pq_UpdateTop lt (p\<lparr>pq_heap := (pq_heap p)[1 := newTop]\<rparr>)"

definition pq_InsertWithOverflow ::
  "('a \<Rightarrow> 'a \<Rightarrow> bool) \<Rightarrow> 'a PriorityQueue \<Rightarrow> 'a \<Rightarrow> ('a \<times> 'a PriorityQueue) option" where
  "pq_InsertWithOverflow lt p element =
     (if pq_size p < pq_maxSize p then map_option (\<lambda>(_, p). (pq_none p, p)) (pq_Add lt p element)
      else if 0 < pq_size p \<and> \<not> lt element (pq_heap p ! 1) then
        Some (pq_heap p ! 1, snd (pq_UpdateTop lt (p\<lparr>pq_heap := (pq_heap p)[1 := element]\<rparr>)))
      else Some (element, p))"

text \<open>\<open>Pop\<close> on an empty queue returns the EOF error and leaves the queue.\<close>

definition pq_Pop :: "('a \<Rightarrow> 'a \<Rightarrow> bool) \<Rightarrow> 'a PriorityQueue \<Rightarrow> (go_error + 'a) \<times> 'a PriorityQueue" where
  "pq_Pop lt p =
     (if 0 < pq_size p then
        let n = pq_size p;
            result = pq_heap p ! 1;
            heap = (pq_heap p)[1 := pq_heap p ! n];
            heap = heap[n := pq_none p] in
        (Inr result, p\<lparr>pq_size := n - 1, pq_heap := downHeap lt (n - 1) heap 1\<rparr>)
      else (Inl EOF, p))"

definition pq_SetSize :: "'a PriorityQueue \<Rightarrow> nat \<Rightarrow> 'a PriorityQueue" where
  "pq_SetSize p n = p\<lparr>pq_size := n\<rparr>"

definition pq_Clear :: "'a PriorityQueue \<Rightarrow> 'a PriorityQueue" where
  "pq_Clear p = p\<lparr>pq_size := 0,
     pq_heap := replicate (pq_size p + 1) (pq_none p) @ drop (pq_size p + 1) (pq_heap p)\<rparr>"

text \<open>\<open>Remove\<close>: the first position in \<open>1..size\<close> that holds the element.\<close>

primrec find_position :: "'a list \<Rightarrow> 'a \<Rightarrow> nat \<Rightarrow> nat \<Rightarrow> nat option" where
  "find_position heap element i 0 = None"
| "find_position heap element i (Suc n) =
     (if heap ! i = element then Some i else find_position heap element (i + 1) n)"

definition pq_Remove :: "('a \<Rightarrow> 'a \<Rightarrow> bool) \<Rightarrow> 'a PriorityQueue \<Rightarrow> 'a \<Rightarrow> bool \<times> 'a PriorityQueue" where
  "pq_Remove lt p element =
     (case find_position (pq_heap p) element 1 (pq_size p) of
        None \<Rightarrow> (False, p)
      | Some i \<Rightarrow>
          let n = pq_size p;
              heap = (pq_heap p)[i := pq_heap p ! n];
              heap = heap[n := pq_none p];
              heap = (if i \<le> n - 1 then
                        let (heap', moved) = upHeap lt heap i in
                        if moved then heap' else downHeap lt (n - 1) heap' i
                      else heap) in
          (True, p\<lparr>pq_size := n - 1, pq_heap := heap\<rparr>))"

text \<open>The iterator yields the elements in array order.\<close>

definition pq_elements :: "'a PriorityQueue \<Rightarrow> 'a list" where
  "pq_elements p = map (\<lambda>i. pq_heap p ! i) [1..<pq_size p + 1]"


subsection \<open>The order of the elements\<close>

locale element_order =
  fixes lt :: "'a \<Rightarrow> 'a \<Rightarrow> bool"
  assumes asym: "lt a b \<Longrightarrow> \<not> lt b a"
    and not_trans: "\<not> lt b a \<Longrightarrow> \<not> lt c b \<Longrightarrow> \<not> lt c a"
begin

lemma irrefl: "\<not> lt a a"
  using asym by blast

lemma trans: "lt a b \<Longrightarrow> lt b c \<Longrightarrow> lt a c"
  using asym not_trans by blast

lemma lt_not_trans: "lt a b \<Longrightarrow> \<not> lt c b \<Longrightarrow> \<not> lt c a"
  using asym not_trans by blast

end

text \<open>The elements of a heap of \<open>n\<close>, and its order: no element is less than its parent.\<close>

definition heap_elems :: "'a list \<Rightarrow> nat \<Rightarrow> 'a multiset" where
  "heap_elems heap n = mset (map (\<lambda>i. heap ! i) [1..<n + 1])"

definition heap_ordered :: "('a \<Rightarrow> 'a \<Rightarrow> bool) \<Rightarrow> 'a list \<Rightarrow> nat \<Rightarrow> bool" where
  "heap_ordered lt heap n \<longleftrightarrow> (\<forall>k. 2 \<le> k \<and> k \<le> n \<longrightarrow> \<not> lt (heap ! k) (heap ! (k div 2)))"

text \<open>The heap but for position \<open>i\<close>, which may have to move up, or down.\<close>

definition ordered_but_up :: "('a \<Rightarrow> 'a \<Rightarrow> bool) \<Rightarrow> 'a list \<Rightarrow> nat \<Rightarrow> nat \<Rightarrow> bool" where
  "ordered_but_up lt heap n i \<longleftrightarrow>
     (\<forall>k. 2 \<le> k \<and> k \<le> n \<and> k \<noteq> i \<longrightarrow> \<not> lt (heap ! k) (heap ! (k div 2))) \<and>
     (\<forall>k. 2 \<le> k \<and> k \<le> n \<and> k div 2 = i \<and> 2 \<le> i \<longrightarrow> \<not> lt (heap ! k) (heap ! (i div 2)))"

definition ordered_but_down :: "('a \<Rightarrow> 'a \<Rightarrow> bool) \<Rightarrow> 'a list \<Rightarrow> nat \<Rightarrow> nat \<Rightarrow> bool" where
  "ordered_but_down lt heap n i \<longleftrightarrow>
     (\<forall>k. 2 \<le> k \<and> k \<le> n \<and> k div 2 \<noteq> i \<longrightarrow> \<not> lt (heap ! k) (heap ! (k div 2))) \<and>
     (\<forall>k. 2 \<le> k \<and> k \<le> n \<and> k div 2 = i \<and> 2 \<le> i \<longrightarrow> \<not> lt (heap ! k) (heap ! (i div 2)))"

lemma heap_elems_take:
  assumes "n < length heap"
  shows "heap_elems heap n = mset (take n (drop 1 heap))"
proof -
  have "map (\<lambda>i. heap ! i) [1..<n + 1] = take n (drop 1 heap)"
    using assms by (intro nth_equalityI) (auto simp del: upt_Suc)
  then show ?thesis
    by (simp only: heap_elems_def)
qed

lemma heap_elems_swap:
  assumes "1 \<le> i" "i \<le> n" "1 \<le> j" "j \<le> n" "n < length heap"
  shows "heap_elems (heap[i := heap ! j, j := heap ! i]) n = heap_elems heap n"
proof -
  let ?t = "take n (drop 1 heap)"
  have "take n (drop 1 (heap[i := heap ! j, j := heap ! i])) = ?t[i - 1 := ?t ! (j - 1), j - 1 := ?t ! (i - 1)]"
    using assms by (intro nth_equalityI) (auto simp: nth_list_update)
  moreover have "mset (?t[i - 1 := ?t ! (j - 1), j - 1 := ?t ! (i - 1)]) = mset ?t"
    using assms by (intro mset_swap) auto
  ultimately show ?thesis
    using assms(5) by (simp add: heap_elems_take)
qed

lemma heap_elems_update:
  assumes "1 \<le> i" "i \<le> n" "n < length heap"
  shows "heap_elems (heap[i := x]) n = heap_elems heap n - {#heap ! i#} + {#x#}"
proof -
  let ?t = "take n (drop 1 heap)"
  have "take n (drop 1 (heap[i := x])) = ?t[i - 1 := x]"
    using assms by (intro nth_equalityI) (auto simp: nth_list_update)
  moreover have "mset (?t[i - 1 := x]) = mset ?t - {#heap ! i#} + {#x#}"
    using assms mset_update [of "i - 1" ?t x] by auto
  ultimately show ?thesis
    using assms(3) by (simp add: heap_elems_take)
qed

lemma heap_elems_Suc: "heap_elems heap (Suc n) = heap_elems heap n + {#heap ! Suc n#}"
  by (simp add: heap_elems_def)

lemma heap_elems_cong: "(\<And>i. 1 \<le> i \<Longrightarrow> i \<le> n \<Longrightarrow> h ! i = h' ! i) \<Longrightarrow> heap_elems h n = heap_elems h' n"
  unfolding heap_elems_def by (intro arg_cong [of _ _ mset] map_cong) auto

lemma heap_elems_iff: "x \<in># heap_elems heap n \<longleftrightarrow> (\<exists>i. 1 \<le> i \<and> i \<le> n \<and> x = heap ! i)"
  by (auto simp: heap_elems_def)

context element_order
begin

lemma ordered_up_step:
  assumes ord: "ordered_but_up lt H n i" and i: "i \<le> n" "n < length H"
    and j: "j = i div 2" "0 < j" and l: "lt (H ! i) (H ! j)"
  shows "ordered_but_up lt (H[i := H ! j, j := H ! i]) n j"
proof -
  let ?H = "H[i := H ! j, j := H ! i]"
  have ij: "j \<noteq> i" "2 \<le> i"
    using j by auto
  have p1: "\<not> lt (H ! k) (H ! (k div 2))" if "2 \<le> k" "k \<le> n" "k \<noteq> i" for k
    using ord that by (simp add: ordered_but_up_def)
  have p2: "\<not> lt (H ! k) (H ! j)" if "2 \<le> k" "k \<le> n" "k div 2 = i" for k
    using ord that ij unfolding j(1) by (simp add: ordered_but_up_def)
  have nth: "?H ! k = (if k = j then H ! i else if k = i then H ! j else H ! k)" if "k \<le> n" for k
    using that i by (simp add: nth_list_update)
  have half: "k div 2 \<le> n" if "k \<le> n" for k
    using that by linarith
  have "\<not> lt (?H ! k) (?H ! (k div 2))" if k: "2 \<le> k" "k \<le> n" "k \<noteq> j" for k
  proof (cases "k = i")
    case True
    then show ?thesis
      using asym [OF l] i j by (simp add: nth half)
  next
    case False
    then show ?thesis
      using k p1 [of k] p2 [of k] lt_not_trans [OF l, of "H ! k"] ij by (auto simp: nth half)
  qed
  moreover have "\<not> lt (?H ! k) (?H ! (j div 2))" if k: "2 \<le> k" "k \<le> n" "k div 2 = j" "2 \<le> j" for k
  proof -
    have jj: "?H ! (j div 2) = H ! (j div 2)" "\<not> lt (H ! j) (H ! (j div 2))"
      using p1 [of j] k i j ij by (auto simp: nth)
    show ?thesis
    proof (cases "k = i")
      case True
      then show ?thesis
        using jj k ij i by (simp add: nth_list_update)
    next
      case False
      then have "\<not> lt (H ! k) (H ! j)"
        using p1 [of k] k by simp
      then show ?thesis
        using not_trans [OF jj(2)] jj(1) False k by (simp add: nth)
    qed
  qed
  ultimately show ?thesis
    unfolding ordered_but_up_def by blast
qed

lemma upHeap_loop_ordered:
  assumes "ordered_but_up lt (heap[i := node]) n i" and "1 \<le> i" "i \<le> n" "n < length heap"
    and "upHeap_loop lt node heap i = (heap', i')"
  shows "heap_ordered lt (heap'[i' := node]) n \<and> length heap' = length heap \<and>
    heap_elems (heap'[i' := node]) n = heap_elems (heap[i := node]) n"
  using assms
proof (induction i arbitrary: heap heap' i' rule: less_induct)
  case (less i)
  define j where "j = i div 2"
  have ji: "j < i"
    using less.prems(2) by (simp add: j_def)
  show ?case
  proof (cases "0 < j \<and> lt node (heap ! j)")
    case True
    let ?h = "heap[i := heap ! j]"
    have "?h[j := node] = (heap[i := node])[i := heap[i := node] ! j, j := heap[i := node] ! i]"
      using ji less.prems(3,4) by simp
    then have sw: "?h[j := node] = (heap[i := node])[i := heap[i := node] ! j, j := heap[i := node] ! i]" .
    have "ordered_but_up lt (?h[j := node]) n j"
      unfolding sw using True ji less.prems by (intro ordered_up_step) (simp_all add: j_def)
    moreover have "heap_elems (?h[j := node]) n = heap_elems (heap[i := node]) n"
      unfolding sw using True ji less.prems by (intro heap_elems_swap) simp_all
    moreover have "upHeap_loop lt node ?h j = (heap', i')"
      using less.prems(5) True upHeap_loop.simps [of lt node heap i] by (simp add: Let_def j_def)
    moreover have "1 \<le> j" "j \<le> n" "n < length ?h"
      using True ji less.prems(3,4) by simp_all
    ultimately show ?thesis
      using less.IH [OF ji, of ?h heap' i'] by (metis length_list_update)
  next
    case False
    then have r: "heap' = heap" "i' = i"
      using less.prems(5) upHeap_loop.simps [of lt node heap i] by (auto simp: Let_def j_def split: if_splits)
    have "\<not> lt (heap[i := node] ! k) (heap[i := node] ! (k div 2))" if "2 \<le> k" "k \<le> n" for k
    proof (cases "k = i")
      case True
      then show ?thesis
        using False that ji less.prems(3,4) by (auto simp: j_def)
    next
      case False
      then show ?thesis
        using less.prems(1) that by (simp add: ordered_but_up_def)
    qed
    then show ?thesis
      by (simp add: r heap_ordered_def)
  qed
qed

lemma ordered_down_step:
  assumes ord: "ordered_but_down lt H n i" and i: "1 \<le> i" "n < length H"
    and j: "j = smaller_child lt H n i" "j \<le> n" and l: "lt (H ! j) (H ! i)"
  shows "ordered_but_down lt (H[i := H ! j, j := H ! i]) n j"
proof -
  let ?H = "H[i := H ! j, j := H ! i]"
  have ij: "j div 2 = i" "i < j"
    using smaller_child_cases [of lt H n i] i(1) unfolding j(1) [symmetric] by auto
  have il: "i < length H"
    using ij j(2) i by simp
  have min: "\<not> lt (H ! k) (H ! j)" if "k div 2 = i" "k \<le> n" for k
  proof -
    have "k = 2 * i \<or> k = 2 * i + 1"
      using that(1) by auto
    then show ?thesis
      using that(2) asym irrefl by (auto simp: j(1) smaller_child_def Let_def)
  qed
  have p1: "\<not> lt (H ! k) (H ! (k div 2))" if "2 \<le> k" "k \<le> n" "k div 2 \<noteq> i" for k
    using ord that by (simp add: ordered_but_down_def)
  have p2: "\<not> lt (H ! k) (H ! (i div 2))" if "k \<le> n" "k div 2 = i" "2 \<le> i" for k
    using ord that by (auto simp: ordered_but_down_def)
  have nth: "?H ! k = (if k = j then H ! i else if k = i then H ! j else H ! k)" if "k \<le> n" for k
    using that i j(2) ij by (simp add: nth_list_update)
  have half: "k div 2 \<le> n" if "k \<le> n" for k
    using that by linarith
  have "\<not> lt (?H ! k) (?H ! (k div 2))" if k: "2 \<le> k" "k \<le> n" "k div 2 \<noteq> j" for k
  proof (cases "k div 2 = i")
    case True
    then have hi: "?H ! (k div 2) = H ! j"
      using ij j(2) il by (simp add: nth_list_update)
    show ?thesis
    proof (cases "k = j")
      case True
      then show ?thesis
        using asym [OF l] hi k by (simp add: nth)
    next
      case False
      then have "k \<noteq> i"
        using \<open>k div 2 = i\<close> i(1) by auto
      then show ?thesis
        using min [OF \<open>k div 2 = i\<close> k(2)] hi False k by (simp add: nth)
    qed
  next
    case False
    then have "k \<noteq> j"
      using ij by auto
    show ?thesis
    proof (cases "k = i")
      case True
      then have "\<not> lt (H ! j) (H ! (i div 2))" "i div 2 \<noteq> i"
        using p2 [OF j(2) ij(1)] k i by auto
      then show ?thesis
        using True k ij il by (auto simp: nth_list_update)
    next
      case False
      then show ?thesis
        using p1 [of k] k \<open>k div 2 \<noteq> i\<close> \<open>k \<noteq> j\<close> by (simp add: nth half)
    qed
  qed
  moreover have "\<not> lt (?H ! k) (?H ! (j div 2))" if k: "2 \<le> k" "k \<le> n" "k div 2 = j" for k
  proof -
    have "k \<noteq> j" "k \<noteq> i"
      using k(3) ij by auto
    then show ?thesis
      using p1 [of k] k ij j(2) il by (auto simp: nth_list_update)
  qed
  ultimately show ?thesis
    unfolding ordered_but_down_def by blast
qed

lemma smaller_child_update:
  assumes "1 \<le> i"
  shows "smaller_child lt (H[i := x]) n i = smaller_child lt H n i"
  using assms by (simp add: smaller_child_def Let_def)

lemma downHeap_loop_ordered:
  assumes "ordered_but_down lt (heap[i := node]) n i" and "1 \<le> i" "i \<le> n" "n < length heap"
    and "downHeap_loop lt n node heap i = (heap', i')"
  shows "heap_ordered lt (heap'[i' := node]) n \<and> length heap' = length heap \<and>
    heap_elems (heap'[i' := node]) n = heap_elems (heap[i := node]) n"
  using assms
proof (induction "n - i" arbitrary: i heap heap' i' rule: less_induct)
  case less
  define j where "j = smaller_child lt heap n i"
  have ij: "i < j" "j div 2 = i" "j = 2 * i \<or> j = 2 * i + 1"
    using smaller_child_cases [of lt heap n i] less.prems(2) by (auto simp: j_def)
  show ?case
  proof (cases "j \<le> n \<and> lt (heap ! j) node")
    case True
    let ?h = "heap[i := heap ! j]"
    have sw: "?h[j := node] = (heap[i := node])[i := heap[i := node] ! j, j := heap[i := node] ! i]"
      using ij less.prems(3,4) by simp
    have "ordered_but_down lt (?h[j := node]) n j"
      unfolding sw using True ij less.prems
      by (intro ordered_down_step) (simp_all add: smaller_child_update j_def [symmetric])
    moreover have "heap_elems (?h[j := node]) n = heap_elems (heap[i := node]) n"
      unfolding sw using True ij less.prems by (intro heap_elems_swap) simp_all
    moreover have "downHeap_loop lt n node ?h j = (heap', i')"
      using less.prems(2,5) True downHeap_loop.simps [of lt n node heap i] by (simp add: Let_def j_def)
    moreover have "1 \<le> j" "j \<le> n" "n < length ?h" "n - j < n - i"
      using True ij(1) less.prems(3,4) by auto
    ultimately show ?thesis
      using less.hyps [of j ?h heap' i'] by (metis length_list_update)
  next
    case False
    then have r: "heap' = heap" "i' = i"
      using less.prems(5) downHeap_loop.simps [of lt n node heap i] by (auto simp: Let_def j_def split: if_splits)
    let ?H = "heap[i := node]"
    have ni: "?H ! i = node"
      using less.prems(3,4) by simp
    have "\<not> lt (?H ! k) (?H ! (k div 2))" if k: "2 \<le> k" "k \<le> n" for k
    proof (cases "k div 2 = i")
      case True
      then have "k = 2 * i \<or> k = 2 * i + 1" "k \<noteq> i"
        using less.prems(2) by auto
      moreover have "j \<le> n"
        using True k ij(3) calculation by (auto simp: j_def smaller_child_def Let_def split: if_splits)
      then have "\<not> lt (heap ! j) node"
        using False by simp
      moreover have "\<not> lt (heap ! k) (heap ! j)"
        using calculation(1) k asym irrefl by (auto simp: j_def smaller_child_def Let_def)
      ultimately show ?thesis
        using not_trans ni True by simp
    next
      case False
      then show ?thesis
        using less.prems(1) k by (simp add: ordered_but_down_def)
    qed
    then show ?thesis
      by (simp add: r heap_ordered_def)
  qed
qed

lemma heap_ordered_top:
  assumes "heap_ordered lt heap n" and "1 \<le> k" and "k \<le> n"
  shows "\<not> lt (heap ! k) (heap ! 1)"
  using assms(2,3)
proof (induction k rule: less_induct)
  case (less k)
  show ?case
  proof (cases "k = 1")
    case True
    then show ?thesis
      by (simp add: irrefl)
  next
    case False
    then have "\<not> lt (heap ! k) (heap ! (k div 2))" "\<not> lt (heap ! (k div 2)) (heap ! 1)"
      using assms(1) less by (auto simp: heap_ordered_def)
    then show ?thesis
      using not_trans by blast
  qed
qed

end


subsection \<open>The queue\<close>

definition pq_elems :: "'a PriorityQueue \<Rightarrow> 'a multiset" where
  "pq_elems p = heap_elems (pq_heap p) (pq_size p)"

definition pq_shape :: "'a PriorityQueue \<Rightarrow> bool" where
  "pq_shape p \<longleftrightarrow> 2 \<le> pq_maxSize p \<and> pq_size p \<le> pq_maxSize p \<and> length (pq_heap p) = pq_maxSize p + 1"

definition pq_wf :: "('a \<Rightarrow> 'a \<Rightarrow> bool) \<Rightarrow> 'a PriorityQueue \<Rightarrow> bool" where
  "pq_wf lt p \<longleftrightarrow> pq_shape p \<and> heap_ordered lt (pq_heap p) (pq_size p)"

lemma pq_wfD:
  assumes "pq_wf lt p"
  shows "2 \<le> pq_maxSize p" "pq_size p \<le> pq_maxSize p" "length (pq_heap p) = pq_maxSize p + 1"
    "heap_ordered lt (pq_heap p) (pq_size p)" "pq_size p < length (pq_heap p)"
  using assms by (simp_all add: pq_wf_def pq_shape_def)

lemma size_heap_elems [simp]: "size (heap_elems heap n) = n"
  by (simp add: heap_elems_def del: upt_Suc)

lemma size_pq_elems [simp]: "size (pq_elems p) = pq_size p"
  by (simp add: pq_elems_def)

lemma mset_pq_elements: "mset (pq_elements p) = pq_elems p"
  by (simp only: pq_elements_def pq_elems_def heap_elems_def)

lemma NewPriorityQueueV1_wf: "pq_wf lt (NewPriorityQueueV1 none n x) \<and> pq_elems (NewPriorityQueueV1 none n x) = {#}"
  by (simp add: NewPriorityQueueV1_def pq_wf_def pq_shape_def heap_ordered_def pq_elems_def heap_elems_def Let_def)

lemma heap_ordered_mono: "heap_ordered lt h n \<Longrightarrow> m \<le> n \<Longrightarrow> heap_ordered lt h m"
  by (simp add: heap_ordered_def)

lemma heap_elems_pred:
  assumes "0 < n" and "n < length heap"
  shows "heap_elems heap (n - 1) = heap_elems heap n - {#heap ! n#}"
  using heap_elems_Suc [of heap "n - 1"] assms by simp

context element_order
begin

lemma upHeap_ordered:
  assumes "ordered_but_up lt heap n i" and "1 \<le> i" "i \<le> n" "n < length heap"
  shows "heap_ordered lt (fst (upHeap lt heap i)) n \<and> length (fst (upHeap lt heap i)) = length heap \<and>
    heap_elems (fst (upHeap lt heap i)) n = heap_elems heap n"
proof -
  obtain h j where r: "upHeap_loop lt (heap ! i) heap i = (h, j)"
    by (cases "upHeap_loop lt (heap ! i) heap i") auto
  then show ?thesis
    using upHeap_loop_ordered [of heap i "heap ! i" n h j] assms by (simp add: upHeap_def)
qed

lemma downHeap_ordered:
  assumes "ordered_but_down lt heap n i" and "1 \<le> i" "i \<le> n" "n < length heap"
  shows "heap_ordered lt (downHeap lt n heap i) n \<and> length (downHeap lt n heap i) = length heap \<and>
    heap_elems (downHeap lt n heap i) n = heap_elems heap n"
proof -
  obtain h j where r: "downHeap_loop lt n (heap ! i) heap i = (h, j)"
    by (cases "downHeap_loop lt n (heap ! i) heap i") auto
  then show ?thesis
    using downHeap_loop_ordered [of heap i "heap ! i" n h j] assms by (simp add: downHeap_def)
qed

lemma top_minimal:
  assumes "pq_wf lt p" and "y \<in># pq_elems p"
  shows "\<not> lt y (pq_Top p)" "pq_Top p \<in># pq_elems p"
proof -
  show "\<not> lt y (pq_Top p)"
    using assms heap_ordered_top [OF pq_wfD(4) [OF assms(1)]]
    by (auto simp: pq_elems_def heap_elems_iff pq_Top_def)
  show "pq_Top p \<in># pq_elems p"
    using assms(2) by (auto simp: pq_elems_def heap_elems_iff pq_Top_def intro: exI [of _ 1])
qed

lemma add_elems:
  assumes "pq_wf lt p" and "pq_size p < pq_maxSize p"
  shows "\<exists>p'. pq_Add lt p x = Some (pq_Top p', p') \<and> pq_wf lt p' \<and> pq_maxSize p' = pq_maxSize p \<and>
    pq_none p' = pq_none p \<and> pq_elems p' = pq_elems p + {#x#}"
proof -
  note wf = pq_wfD [OF assms(1)]
  define n where "n = pq_size p + 1"
  define heap where "heap = (pq_heap p)[n := x]"
  have n: "n < length (pq_heap p)" "1 \<le> n"
    using assms(2) wf by (simp_all add: n_def)
  have nth: "heap ! k = pq_heap p ! k" if "k < n" for k
    using that by (simp add: heap_def)
  have "ordered_but_up lt heap n n"
    using wf(4) unfolding ordered_but_up_def heap_ordered_def
    by (auto simp: nth n_def)
  from upHeap_ordered [OF this n(2) order_refl] have u: "heap_ordered lt (fst (upHeap lt heap n)) n"
    "length (fst (upHeap lt heap n)) = length heap" "heap_elems (fst (upHeap lt heap n)) n = heap_elems heap n"
    using n(1) by (simp_all add: heap_def)
  have "heap_elems heap n = pq_elems p + {#x#}"
    using heap_elems_Suc [of heap "pq_size p"] n(1) heap_elems_cong [of "pq_size p" heap "pq_heap p"] nth
    by (simp add: n_def pq_elems_def heap_def)
  moreover define p' where "p' = p\<lparr>pq_size := n, pq_heap := fst (upHeap lt heap n)\<rparr>"
  moreover have "pq_Add lt p x = Some (pq_Top p', p')"
    using n(1) by (simp add: pq_Add_def n_def p'_def heap_def pq_Top_def slice_set_def Let_def)
  moreover have "length heap = length (pq_heap p)"
    by (simp add: heap_def)
  ultimately show ?thesis
    using u n wf by (intro exI [of _ p']) (simp add: pq_wf_def pq_shape_def pq_elems_def)
qed

lemma update_top_elems:
  assumes "pq_shape p" and "1 \<le> pq_size p" and "ordered_but_down lt (pq_heap p) (pq_size p) 1"
  shows "\<exists>p'. pq_UpdateTop lt p = (pq_Top p', p') \<and> pq_wf lt p' \<and> pq_maxSize p' = pq_maxSize p \<and>
    pq_none p' = pq_none p \<and> pq_size p' = pq_size p \<and> pq_elems p' = pq_elems p"
  using downHeap_ordered [OF assms(3) order_refl assms(2)] assms(1)
  by (simp add: pq_UpdateTop_def Let_def pq_wf_def pq_shape_def pq_Top_def pq_elems_def)

lemma replace_top_ordered:
  assumes "heap_ordered lt heap n"
  shows "ordered_but_down lt (heap[1 := x]) n 1"
  using assms by (auto simp: ordered_but_down_def heap_ordered_def)

lemma replace_top_elems:
  assumes "pq_wf lt p" and "1 \<le> pq_size p"
  shows "\<exists>p'. pq_UpdateTop lt (p\<lparr>pq_heap := (pq_heap p)[1 := x]\<rparr>) = (pq_Top p', p') \<and> pq_wf lt p' \<and>
    pq_maxSize p' = pq_maxSize p \<and> pq_none p' = pq_none p \<and> pq_size p' = pq_size p \<and>
    pq_elems p' = pq_elems p - {#pq_Top p#} + {#x#}"
proof -
  note wf = pq_wfD [OF assms(1)]
  let ?p = "p\<lparr>pq_heap := (pq_heap p)[1 := x]\<rparr>"
  have "pq_shape ?p" "ordered_but_down lt (pq_heap ?p) (pq_size ?p) 1" "1 \<le> pq_size ?p"
    using assms replace_top_ordered [OF wf(4), of x] by (simp_all add: pq_wf_def pq_shape_def)
  moreover have "pq_elems ?p = pq_elems p - {#pq_Top p#} + {#x#}"
    using heap_elems_update [of 1 "pq_size p" "pq_heap p" x] assms(2) wf(5) by (simp add: pq_elems_def pq_Top_def)
  ultimately show ?thesis
    using update_top_elems [of ?p] by auto
qed

lemma insert_elems:
  assumes "pq_wf lt p"
  shows "\<exists>r p'. pq_InsertWithOverflow lt p x = Some (r, p') \<and> pq_wf lt p' \<and> pq_maxSize p' = pq_maxSize p \<and>
    pq_none p' = pq_none p \<and> pq_size p' = min (pq_size p + 1) (pq_maxSize p) \<and>
    (if pq_size p < pq_maxSize p then r = pq_none p \<and> pq_elems p' = pq_elems p + {#x#}
     else pq_elems p' + {#r#} = pq_elems p + {#x#} \<and> (\<forall>y \<in># pq_elems p'. \<not> lt y r))"
proof (cases "pq_size p < pq_maxSize p")
  case True
  obtain p' where "pq_Add lt p x = Some (pq_Top p', p')" "pq_wf lt p'" "pq_maxSize p' = pq_maxSize p"
    "pq_none p' = pq_none p" "pq_elems p' = pq_elems p + {#x#}"
    using add_elems [OF assms True] by auto
  moreover from this have "pq_size p' = pq_size p + 1"
    by (metis size_pq_elems size_union size_single)
  ultimately show ?thesis
    using True by (simp add: pq_InsertWithOverflow_def)
next
  case False
  note wf = pq_wfD [OF assms]
  have full: "pq_size p = pq_maxSize p" "1 \<le> pq_size p"
    using False wf by simp_all
  then have top: "pq_Top p \<in># pq_elems p"
    by (auto simp: pq_elems_def heap_elems_iff pq_Top_def intro: exI [of _ 1])
  note min = top_minimal(1) [OF assms]
  show ?thesis
  proof (cases "lt x (pq_Top p)")
    case True
    then have "\<forall>y \<in># pq_elems p. \<not> lt y x"
      using min lt_not_trans by blast
    then show ?thesis
      using True False full assms by (simp add: pq_InsertWithOverflow_def pq_Top_def)
  next
    case ge: False
    obtain p' where p': "pq_UpdateTop lt (p\<lparr>pq_heap := (pq_heap p)[1 := x]\<rparr>) = (pq_Top p', p')" "pq_wf lt p'"
      "pq_maxSize p' = pq_maxSize p" "pq_none p' = pq_none p" "pq_size p' = pq_size p"
      "pq_elems p' = pq_elems p - {#pq_Top p#} + {#x#}"
      using replace_top_elems [OF assms full(2), of x] by auto
    have "\<forall>y \<in># pq_elems p'. \<not> lt y (pq_Top p)"
      using p'(6) min ge by (auto dest: in_diffD)
    then show ?thesis
      using ge False full p' top by (simp add: pq_InsertWithOverflow_def pq_Top_def)
  qed
qed

lemma pop_elems:
  assumes "pq_wf lt p" and "0 < pq_size p"
  shows "\<exists>p'. pq_Pop lt p = (Inr (pq_Top p), p') \<and> pq_wf lt p' \<and> pq_maxSize p' = pq_maxSize p \<and>
    pq_none p' = pq_none p \<and> pq_size p' = pq_size p - 1 \<and> pq_elems p' = pq_elems p - {#pq_Top p#}"
proof -
  note wf = pq_wfD [OF assms(1)]
  define n where "n = pq_size p"
  define heap where "heap = (pq_heap p)[1 := pq_heap p ! n, n := pq_none p]"
  define h where "h = downHeap lt (n - 1) heap 1"
  have n: "0 < n" "n < length (pq_heap p)"
    using assms(2) wf(5) by (simp_all add: n_def)
  have e: "heap_elems heap (n - 1) = pq_elems p - {#pq_Top p#}"
  proof -
    have "heap_elems heap (n - 1) = heap_elems ((pq_heap p)[1 := pq_heap p ! n]) (n - 1)"
      by (rule heap_elems_cong) (simp add: heap_def)
    also have "\<dots> = heap_elems ((pq_heap p)[1 := pq_heap p ! n]) n - {#pq_heap p ! n#}"
      using n heap_elems_pred [of n "(pq_heap p)[1 := pq_heap p ! n]"] by (cases "n = 1") simp_all
    also have "\<dots> = pq_elems p - {#pq_Top p#}"
      using heap_elems_update [of 1 n "pq_heap p" "pq_heap p ! n"] n by (simp add: pq_elems_def n_def pq_Top_def)
    finally show ?thesis .
  qed
  have h: "heap_ordered lt h (n - 1) \<and> length h = length heap \<and> heap_elems h (n - 1) = heap_elems heap (n - 1)"
  proof (cases "n = 1")
    case True
    have "downHeap lt 0 heap 1 = heap"
      by (simp add: downHeap_def downHeap_loop.simps smaller_child_def Let_def)
    then show ?thesis
      using True by (simp add: h_def heap_ordered_def)
  next
    case False
    have "heap_ordered lt ((pq_heap p)[n := pq_none p]) (n - 1)"
      using wf(4) by (auto simp: heap_ordered_def n_def)
    from replace_top_ordered [OF this, of "pq_heap p ! n"] have "ordered_but_down lt heap (n - 1) 1"
      using False by (simp add: heap_def list_update_swap)
    then show ?thesis
      unfolding h_def using False n by (intro downHeap_ordered) (simp_all add: heap_def)
  qed
  have "pq_Pop lt p = (Inr (pq_Top p), p\<lparr>pq_size := n - 1, pq_heap := h\<rparr>)"
    using assms(2) by (simp add: pq_Pop_def Let_def n_def [symmetric] heap_def h_def pq_Top_def)
  then show ?thesis
    using h e wf by (simp add: pq_wf_def pq_shape_def pq_elems_def heap_def n_def)
qed

end


lemma upHeap_loop_le: "snd (upHeap_loop lt node heap i) \<le> i"
proof (induction i arbitrary: heap rule: less_induct)
  case (less i)
  define j where "j = i div 2"
  show ?case
  proof (cases "0 < j \<and> lt node (heap ! j)")
    case True
    then have "j < i"
      by (auto simp: j_def)
    then show ?thesis
      using less.IH [of j "heap[i := heap ! j]"] True upHeap_loop.simps [of lt node heap i]
      by (simp add: Let_def j_def)
  next
    case False
    then show ?thesis
      using upHeap_loop.simps [of lt node heap i] by (auto simp: Let_def j_def)
  qed
qed

lemma upHeap_moved:
  "snd (upHeap lt heap i) \<longleftrightarrow> 0 < i div 2 \<and> lt (heap ! i) (heap ! (i div 2))"
  "\<not> snd (upHeap lt heap i) \<Longrightarrow> fst (upHeap lt heap i) = heap"
proof -
  note u = upHeap_loop.simps [of lt "heap ! i" heap i]
  note le = upHeap_loop_le [of lt "heap ! i" "heap[i := heap ! (i div 2)]" "i div 2"]
  show m: "snd (upHeap lt heap i) \<longleftrightarrow> 0 < i div 2 \<and> lt (heap ! i) (heap ! (i div 2))"
  proof (cases "0 < i div 2 \<and> lt (heap ! i) (heap ! (i div 2))")
    case True
    then have "i div 2 < i"
      by auto
    then show ?thesis
      using True u le by (auto simp: upHeap_def Let_def split: prod.splits)
  next
    case False
    then show ?thesis
      using u by (auto simp: upHeap_def Let_def)
  qed
  assume "\<not> snd (upHeap lt heap i)"
  then show "fst (upHeap lt heap i) = heap"
    using u m by (auto simp: upHeap_def Let_def)
qed

lemma find_position_Some:
  assumes "find_position heap x i n = Some k"
  shows "i \<le> k \<and> k < i + n \<and> heap ! k = x"
  using assms by (induction n arbitrary: i) (fastforce split: if_splits)+

lemma find_position_None:
  assumes "find_position heap x i n = None" and "i \<le> k" and "k < i + n"
  shows "heap ! k \<noteq> x"
  using assms
proof (induction n arbitrary: i)
  case (Suc n)
  then show ?case
    by (cases "k = i") (auto split: if_splits)
qed simp

context element_order
begin

text \<open>Replacing an inner element: up if it is less than its parent, down otherwise.\<close>

lemma replaced_ordered:
  assumes ord: "heap_ordered lt heap n" and i: "1 \<le> i" "i \<le> n"
  shows "i \<noteq> 1 \<and> lt x (heap ! (i div 2)) \<Longrightarrow> i < length heap \<Longrightarrow> ordered_but_up lt (heap[i := x]) n i"
    and "i = 1 \<or> \<not> lt x (heap ! (i div 2)) \<Longrightarrow> i < length heap \<Longrightarrow> ordered_but_down lt (heap[i := x]) n i"
proof -
  have p: "\<not> lt (heap ! k) (heap ! (k div 2))" if "2 \<le> k" "k \<le> n" for k
    using ord that by (simp add: heap_ordered_def)
  have gp: "\<not> lt (heap ! k) (heap ! (i div 2))" if "2 \<le> i" "k \<le> n" "k div 2 = i" for k
    using p [of k] p [of i] that i not_trans [of "heap ! i" "heap ! (i div 2)" "heap ! k"] by auto
  have hi: "i div 2 \<noteq> i"
    using i by auto
  {
    assume a: "i \<noteq> 1 \<and> lt x (heap ! (i div 2))" and l: "i < length heap"
    have "2 \<le> i"
      using a i by auto
    have "\<not> lt (heap[i := x] ! k) (heap[i := x] ! (k div 2))" if "2 \<le> k" "k \<le> n" "k \<noteq> i" for k
    proof (cases "k div 2 = i")
      case True
      then have "\<not> lt (heap ! k) x"
        using gp [OF \<open>2 \<le> i\<close> that(2)] a lt_not_trans by blast
      then show ?thesis
        using True that l by simp
    qed (use p that in simp)
    moreover have "\<not> lt (heap[i := x] ! k) (heap[i := x] ! (i div 2))" if "2 \<le> k" "k \<le> n" "k div 2 = i" for k
    proof -
      have "k \<noteq> i"
        using that i by auto
      then show ?thesis
        using gp [OF \<open>2 \<le> i\<close> that(2,3)] hi by simp
    qed
    ultimately show "ordered_but_up lt (heap[i := x]) n i"
      unfolding ordered_but_up_def by blast
  }
  {
    assume a: "i = 1 \<or> \<not> lt x (heap ! (i div 2))" and l: "i < length heap"
    have "\<not> lt (heap[i := x] ! k) (heap[i := x] ! (k div 2))" if "2 \<le> k" "k \<le> n" "k div 2 \<noteq> i" for k
      using p [OF that(1,2)] a that hi l by (cases "k = i") auto
    moreover have "\<not> lt (heap[i := x] ! k) (heap[i := x] ! (i div 2))" if "k \<le> n" "k div 2 = i" "2 \<le> i" for k
    proof -
      have "k \<noteq> i"
        using that i by auto
      then show ?thesis
        using gp [OF that(3,1,2)] hi by simp
    qed
    ultimately show "ordered_but_down lt (heap[i := x]) n i"
      unfolding ordered_but_down_def by blast
  }
qed

lemma remove_elems:
  assumes "pq_wf lt p"
  shows "\<exists>p'. pq_Remove lt p x = (x \<in># pq_elems p, p') \<and> pq_wf lt p' \<and> pq_maxSize p' = pq_maxSize p \<and>
    pq_elems p' = pq_elems p - {#x#}"
proof (cases "find_position (pq_heap p) x 1 (pq_size p)")
  case None
  have "pq_heap p ! i \<noteq> x" if "1 \<le> i" "i \<le> pq_size p" for i
    using find_position_None [OF None, of i] that by simp
  then have "x \<notin># pq_elems p"
    by (auto simp: pq_elems_def heap_elems_iff)
  then show ?thesis
    using None assms by (simp add: pq_Remove_def diff_single_trivial)
next
  case (Some i)
  note wf = pq_wfD [OF assms]
  define n where "n = pq_size p"
  have i: "1 \<le> i" "i \<le> n" "pq_heap p ! i = x"
    using find_position_Some [OF Some] by (simp_all add: n_def)
  have n: "n < length (pq_heap p)" "0 < n"
    using wf(5) i by (simp_all add: n_def)
  define g where "g = (pq_heap p)[n := pq_none p]"
  define heap where "heap = (pq_heap p)[i := pq_heap p ! n, n := pq_none p]"
  have mem: "x \<in># pq_elems p"
    using i by (auto simp: pq_elems_def heap_elems_iff n_def)
  have elems: "heap_elems heap (n - 1) = pq_elems p - {#x#}"
  proof -
    have "heap_elems heap (n - 1) = heap_elems ((pq_heap p)[i := pq_heap p ! n]) (n - 1)"
      by (rule heap_elems_cong) (use n in \<open>auto simp: heap_def nth_list_update\<close>)
    also have "\<dots> = heap_elems ((pq_heap p)[i := pq_heap p ! n]) n - {#pq_heap p ! n#}"
      using n i heap_elems_pred [of n "(pq_heap p)[i := pq_heap p ! n]"] by (cases "i = n") simp_all
    also have "\<dots> = pq_elems p - {#x#}"
      using heap_elems_update [of i n "pq_heap p" "pq_heap p ! n"] n i by (simp add: pq_elems_def n_def)
    finally show ?thesis .
  qed
  define h where "h = (if i \<le> n - 1 then
      if snd (upHeap lt heap i) then fst (upHeap lt heap i) else downHeap lt (n - 1) (fst (upHeap lt heap i)) i
    else heap)"
  have h: "heap_ordered lt h (n - 1) \<and> length h = length heap \<and> heap_elems h (n - 1) = heap_elems heap (n - 1)"
  proof (cases "i \<le> n - 1")
    case True
    have g: "heap_ordered lt g (n - 1)" "i < length g" "heap = g[i := pq_heap p ! n]"
      "g ! (i div 2) = pq_heap p ! (i div 2)" "heap ! i = pq_heap p ! n" "heap ! (i div 2) = g ! (i div 2)"
      using wf(4) True n i unfolding g_def heap_def heap_ordered_def n_def
      by (auto simp: list_update_swap)
    show ?thesis
    proof (cases "0 < i div 2 \<and> lt (heap ! i) (heap ! (i div 2))")
      case True
      then have "i \<noteq> 1"
        by auto
      then have "ordered_but_up lt heap (n - 1) i"
        unfolding g(3) using True g \<open>i \<le> n - 1\<close> i(1) by (intro replaced_ordered(1)) auto
      from upHeap_ordered [OF this i(1) \<open>i \<le> n - 1\<close>] show ?thesis
        using True upHeap_moved(1) [of lt heap i] n \<open>i \<le> n - 1\<close> by (simp add: h_def heap_def)
    next
      case False
      then have m: "\<not> snd (upHeap lt heap i)" "fst (upHeap lt heap i) = heap"
        using upHeap_moved [of lt heap i] by simp_all
      have "i = 1 \<or> \<not> lt (pq_heap p ! n) (g ! (i div 2))"
        using False g i(1) by (cases "i div 2 = 0") auto
      then have "ordered_but_down lt heap (n - 1) i"
        unfolding g(3) using g \<open>i \<le> n - 1\<close> i(1) by (intro replaced_ordered(2)) auto
      from downHeap_ordered [OF this i(1) \<open>i \<le> n - 1\<close>] show ?thesis
        using m n \<open>i \<le> n - 1\<close> by (simp add: h_def heap_def)
    qed
  next
    case False
    then have "i = n"
      using i n by simp
    then have "heap_ordered lt heap (n - 1)"
      using wf(4) by (auto simp: heap_def heap_ordered_def n_def)
    then show ?thesis
      using False by (simp add: h_def)
  qed
  have "pq_Remove lt p x = (True, p\<lparr>pq_size := n - 1, pq_heap := h\<rparr>)"
    using Some by (simp add: pq_Remove_def Let_def n_def [symmetric] heap_def h_def case_prod_beta)
  then show ?thesis
    using h elems wf mem by (simp add: pq_wf_def pq_shape_def pq_elems_def heap_def n_def)
qed

end


subsection \<open>Properties\<close>

lemma element_orderI:
  assumes "\<forall>a b. lt a b \<longrightarrow> \<not> lt b a" and "\<forall>a b c. \<not> lt b a \<and> \<not> lt c b \<longrightarrow> \<not> lt c a"
  shows "element_order lt"
proof
  show "lt a b \<Longrightarrow> \<not> lt b a" for a b
    using assms(1) by blast
  show "\<not> lt b a \<Longrightarrow> \<not> lt c b \<Longrightarrow> \<not> lt c a" for a b c
    using assms(2) by blast
qed

definition example_queue :: "nat PriorityQueue" where
  "example_queue = \<lparr>pq_size = 3, pq_maxSize = 3, pq_heap = [0, 1, 5, 2], pq_none = 0\<rparr>"

lemma example_queue_wf: "pq_wf (<) example_queue"
proof -
  have "heap_ordered (<) [0, 1, 5, 2::nat] 3"
    unfolding heap_ordered_def
  proof (intro allI impI, elim conjE)
    fix k :: nat
    assume "2 \<le> k" "k \<le> 3"
    then have "k = 2 \<or> k = 3"
      by auto
    then show "\<not> [0, 1, 5, 2] ! k < [0, 1, 5, 2::nat] ! (k div 2)"
      by auto
  qed
  then show ?thesis
    by (simp add: example_queue_def pq_wf_def pq_shape_def)
qed

lemma example_queue_elems: "pq_elems example_queue = {#1, 5, 2#}"
  by (simp add: example_queue_def pq_elems_def heap_elems_def upt_rec)

lemma nat_order:
  "\<forall>a b :: nat. a < b \<longrightarrow> \<not> b < a" "\<forall>a b c :: nat. \<not> b < a \<and> \<not> c < b \<longrightarrow> \<not> c < a"
  by auto

text \<open>
  C10. \<open>Pop\<close> on an empty queue is the EOF error and changes nothing; on any other queue it returns an
  element that no element is less than, takes exactly that element out, and keeps the queue
  well-formed. The order is any strict weak order.
\<close>

theorem queue_pop_least:
  assumes "\<forall>a b. lt a b \<longrightarrow> \<not> lt b a" and "\<forall>a b c. \<not> lt b a \<and> \<not> lt c b \<longrightarrow> \<not> lt c a"
    and "pq_wf lt p" and "pq_Pop lt p = (r, p')"
  shows "case r of
      Inl e \<Rightarrow> e = EOF \<and> pq_elems p = {#} \<and> p' = p
    | Inr x \<Rightarrow> x \<in># pq_elems p \<and> (\<forall>y \<in># pq_elems p. \<not> lt y x) \<and>
        pq_elems p' = pq_elems p - {#x#} \<and> pq_wf lt p'"
proof (cases "pq_size p = 0")
  case True
  then have "pq_elems p = {#}"
    by (simp flip: size_eq_0_iff_empty)
  then show ?thesis
    using True assms(4) by (auto simp: pq_Pop_def)
next
  case False
  note order = element_orderI [OF assms(1,2)]
  have "pq_elems p \<noteq> {#}"
    using False by (metis size_empty size_pq_elems)
  then show ?thesis
    using element_order.pop_elems [OF order assms(3)] element_order.top_minimal [OF order assms(3)] False assms(4)
    by (auto dest: multiset_nonemptyE)
qed

theorem queue_pop_least_witness:
  "case fst (pq_Pop (<) example_queue) of
      Inl e \<Rightarrow> False
    | Inr x \<Rightarrow> x \<in># {#1, 5, 2#} \<and> (\<forall>y \<in># {#1, 5, 2#}. \<not> y < x)"
  using queue_pop_least [OF nat_order example_queue_wf prod.collapse [symmetric]]
  by (auto simp: example_queue_elems not_less split: sum.splits)

text \<open>
  C11. \<open>Remove\<close> reports whether the queue held the element, takes out one occurrence of it and no
  other, and keeps the queue well-formed: the element that fills the hole is moved up or down.
\<close>

theorem queue_remove_one:
  assumes "\<forall>a b. lt a b \<longrightarrow> \<not> lt b a" and "\<forall>a b c. \<not> lt b a \<and> \<not> lt c b \<longrightarrow> \<not> lt c a"
    and "pq_wf lt p" and "pq_Remove lt p x = (found, p')"
  shows "found = (x \<in># pq_elems p) \<and> pq_elems p' = pq_elems p - {#x#} \<and> pq_wf lt p'"
  using element_order.remove_elems [OF element_orderI [OF assms(1,2)] assms(3), of x] assms(4) by auto

theorem queue_remove_one_witness:
  "fst (pq_Remove (<) example_queue 5) \<and> pq_elems (snd (pq_Remove (<) example_queue 5)) = {#1, 2#}"
  using queue_remove_one [OF nat_order example_queue_wf prod.collapse [symmetric], of 5]
  by (simp add: example_queue_elems)

text \<open>
  C12. \<open>InsertWithOverflow\<close> never panics. Below the maximal size it adds the element and returns
  nothing; on a full queue the element it drops and returns is one that no kept element is less
  than, so that the queue keeps the greatest elements.
\<close>

theorem queue_insert_overflow:
  assumes "\<forall>a b. lt a b \<longrightarrow> \<not> lt b a" and "\<forall>a b c. \<not> lt b a \<and> \<not> lt c b \<longrightarrow> \<not> lt c a"
    and "pq_wf lt p"
  shows "\<exists>r p'. pq_InsertWithOverflow lt p x = Some (r, p') \<and> pq_wf lt p' \<and>
    pq_size p' = min (pq_size p + 1) (pq_maxSize p) \<and>
    (if pq_size p < pq_maxSize p then r = pq_none p \<and> pq_elems p' = pq_elems p + {#x#}
     else pq_elems p' + {#r#} = pq_elems p + {#x#} \<and> (\<forall>y \<in># pq_elems p'. \<not> lt y r))"
  using element_order.insert_elems [OF element_orderI [OF assms(1,2)] assms(3), of x] by blast

theorem queue_insert_overflow_witness:
  "\<exists>r p'. pq_InsertWithOverflow (<) example_queue 4 = Some (r, p') \<and> pq_wf (<) p' \<and>
    pq_size p' = min (pq_size example_queue + 1) (pq_maxSize example_queue) \<and>
    (if pq_size example_queue < pq_maxSize example_queue
     then r = pq_none example_queue \<and> pq_elems p' = pq_elems example_queue + {#4#}
     else pq_elems p' + {#r#} = pq_elems example_queue + {#4#} \<and> (\<forall>y \<in># pq_elems p'. \<not> y < r))"
  by (rule queue_insert_overflow [OF nat_order example_queue_wf])

end
