(* ===== verification/Top_Docs.thy ===== *)
theory Top_Docs
  imports Priority_Queue
begin

text \<open>
  Two clients of the priority queue in core/search: \<open>costWithMinShouldMatch\<close> (scorerutil.go), and
  the collector of the best hits (topscoredoccollector.go with its base topdocscollector.go and the
  local checker of hitsthresholdchecker.go).
\<close>

subsection \<open>The cost of a disjunction\<close>

text \<open>Addition of two Go \<open>int64\<close>.\<close>

definition add_int64 :: "int \<Rightarrow> int \<Rightarrow> int" where
  "add_int64 a b = signed_take_bit 63 (a + b)"

definition cost_less :: "int \<Rightarrow> int \<Rightarrow> bool" where
  "cost_less a b \<longleftrightarrow> b < a"

primrec insert_all :: "('a \<Rightarrow> 'a \<Rightarrow> bool) \<Rightarrow> 'a list \<Rightarrow> 'a PriorityQueue \<Rightarrow> 'a PriorityQueue option" where
  "insert_all lt [] p = Some p"
| "insert_all lt (x # xs) p = do {
     (_, p) \<leftarrow> pq_InsertWithOverflow lt p x;
     insert_all lt xs p
   }"

definition costWithMinShouldMatch :: "int list \<Rightarrow> nat \<Rightarrow> nat \<Rightarrow> int option" where
  "costWithMinShouldMatch costs numScorers minShouldMatch = do {
     let maxSize = numScorers + 1 - minShouldMatch;
     pq \<leftarrow> insert_all cost_less costs (NewPriorityQueue 0 maxSize);
     Some (foldl add_int64 0 (pq_elements pq))
   }"

subsection \<open>The collector of the best hits\<close>

text \<open>
  A hit is a score and a document. The scores (\<open>float64\<close> without NaN) are elements of a linear
  order; \<open>ninf\<close> stands for minus infinity and \<open>zero\<close> for 0.
\<close>

type_synonym 's ScoreDoc = "'s \<times> int"

text \<open>The order of the queue in \<open>newTopScoreDocCollector\<close>.\<close>

definition hit_less :: "'s::linorder ScoreDoc \<Rightarrow> 's ScoreDoc \<Rightarrow> bool" where
  "hit_less hitA hitB =
     (if fst hitA = fst hitB then snd hitB < snd hitA else fst hitA < fst hitB)"

datatype TotalHitsRelation = EQUAL_TO | GREATER_THAN_OR_EQUAL_TO

text \<open>
  \<open>pqTop\<close> is always the object at the top of the queue, so it is read there. The scorer keeps the
  last value of \<open>SetMinCompetitiveScore\<close> (\<open>scorer_min\<close>). \<open>minScoreAcc\<close> is nil.
\<close>

record 's Collector =
  col_pq :: "'s ScoreDoc PriorityQueue"
  col_totalHits :: nat
  col_relation :: TotalHitsRelation
  col_docBase :: int
  col_minCompetitiveScore :: 's
  col_totalHitsThreshold :: nat
  col_hitCount :: nat
  col_scorer_min :: "'s option"

definition MaxInt32 :: int where
  "MaxInt32 = 2 ^ 31 - 1"

definition newTopScoreDocCollector :: "'s::linorder \<Rightarrow> 's \<Rightarrow> nat \<Rightarrow> nat \<Rightarrow> 's Collector" where
  "newTopScoreDocCollector ninf zero numHits totalHitsThreshold =
     \<lparr>col_pq = pq_SetSize (NewPriorityQueueV1 (ninf, 0) numHits (ninf, MaxInt32)) numHits,
      col_totalHits = 0, col_relation = EQUAL_TO, col_docBase = 0, col_minCompetitiveScore = zero,
      col_totalHitsThreshold = totalHitsThreshold, col_hitCount = 0, col_scorer_min = None\<rparr>"

definition IsThresholdReached :: "'s Collector \<Rightarrow> bool" where
  "IsThresholdReached c \<longleftrightarrow> col_totalHitsThreshold c < col_hitCount c"

definition updateMinCompetitiveScore :: "'s::linorder \<Rightarrow> 's Collector \<Rightarrow> 's Collector" where
  "updateMinCompetitiveScore ninf c =
     (let localMinScore = fst (pq_Top (col_pq c)) in
      if IsThresholdReached c \<and> localMinScore \<noteq> ninf \<and> col_minCompetitiveScore c < localMinScore then
        c\<lparr>col_scorer_min := Some localMinScore, col_relation := GREATER_THAN_OR_EQUAL_TO,
          col_minCompetitiveScore := localMinScore\<rparr>
      else c)"

definition GetLeafCollector :: "'s \<Rightarrow> int \<Rightarrow> 's Collector \<Rightarrow> 's Collector" where
  "GetLeafCollector zero docBase c = c\<lparr>col_minCompetitiveScore := zero, col_docBase := docBase\<rparr>"

text \<open>A leaf comes with a new scorer.\<close>

definition SetScorer :: "'s::linorder \<Rightarrow> 's Collector \<Rightarrow> 's Collector" where
  "SetScorer ninf c = updateMinCompetitiveScore ninf (c\<lparr>col_scorer_min := None\<rparr>)"

definition Collect :: "'s::linorder \<Rightarrow> int \<Rightarrow> 's \<Rightarrow> 's Collector \<Rightarrow> 's Collector" where
  "Collect ninf doc score c =
     (let c = c\<lparr>col_totalHits := col_totalHits c + 1, col_hitCount := col_hitCount c + 1\<rparr> in
      if score \<le> fst (pq_Top (col_pq c)) then
        if col_relation c = EQUAL_TO then updateMinCompetitiveScore ninf c else c
      else
        let pq = col_pq c;
            pq = pq\<lparr>pq_heap := (pq_heap pq)[1 := (score, doc + col_docBase c)]\<rparr>;
            (_, pq) = pq_UpdateTop hit_less pq in
        updateMinCompetitiveScore ninf (c\<lparr>col_pq := pq\<rparr>))"

definition TopDocsSize :: "'s Collector \<Rightarrow> nat" where
  "TopDocsSize c = (if col_totalHits c < pq_size (col_pq c) then col_totalHits c else pq_size (col_pq c))"

text \<open>\<open>PopulateResults\<close> fills \<open>results\<close> from the end; the error of \<open>Pop\<close> ends it.\<close>

primrec PopulateResults ::
  "'s::linorder ScoreDoc PriorityQueue \<Rightarrow> nat \<Rightarrow> 's ScoreDoc list \<Rightarrow> (go_error + 's ScoreDoc list) \<times> 's ScoreDoc PriorityQueue" where
  "PopulateResults pq 0 results = (Inr results, pq)"
| "PopulateResults pq (Suc i) results =
     (case pq_Pop hit_less pq of
        (Inl e, pq) \<Rightarrow> (Inl e, pq)
      | (Inr n, pq) \<Rightarrow> PopulateResults pq i (results[i := n]))"

primrec discard_pops :: "nat \<Rightarrow> 's::linorder ScoreDoc PriorityQueue \<Rightarrow> 's ScoreDoc PriorityQueue" where
  "discard_pops 0 pq = pq"
| "discard_pops (Suc n) pq = discard_pops n (snd (pq_Pop hit_less pq))"

text \<open>
  The result: total hits, their relation and the hits. \<open>NewTopDocs\<close> of no results is
  \<open>EMPTY_TOPDOCS\<close>, whose total is 0.
\<close>

definition NewTopDocs ::
  "'s Collector \<Rightarrow> 's ScoreDoc list \<Rightarrow> nat \<times> TotalHitsRelation \<times> 's ScoreDoc list" where
  "NewTopDocs c results =
     (if results = [] then (0, EQUAL_TO, []) else (col_totalHits c, col_relation c, results))"

definition TopDocsRange ::
  "'s::linorder Collector \<Rightarrow> int \<Rightarrow> int \<Rightarrow>
    (go_error + nat \<times> TotalHitsRelation \<times> 's ScoreDoc list) \<times> 's Collector" where
  "TopDocsRange c start howMany =
     (let size' = TopDocsSize c in
      if start < 0 \<or> int size' \<le> start \<or> howMany \<le> 0 then (Inr (NewTopDocs c []), c)
      else
        let howMany = nat (min (int size' - start) howMany);
            results = replicate howMany (pq_none (col_pq c));
            pq = discard_pops (pq_size (col_pq c) - nat start - howMany) (col_pq c);
            (r, pq) = PopulateResults pq howMany results;
            c = c\<lparr>col_pq := pq\<rparr> in
        case r of Inl e \<Rightarrow> (Inl e, c) | Inr results \<Rightarrow> (Inr (NewTopDocs c results), c))"

definition TopDocsFrom ::
  "'s::linorder Collector \<Rightarrow> int \<Rightarrow>
    (go_error + nat \<times> TotalHitsRelation \<times> 's ScoreDoc list) \<times> 's Collector" where
  "TopDocsFrom c start = TopDocsRange c start (int (TopDocsSize c))"

definition TopDocs ::
  "'s::linorder Collector \<Rightarrow>
    (go_error + nat \<times> TotalHitsRelation \<times> 's ScoreDoc list) \<times> 's Collector" where
  "TopDocs c = TopDocsRange c 0 (int (TopDocsSize c))"

subsection \<open>A run of the collector\<close>

datatype 's Event = Leaf int | Scorer | Hit int 's

primrec run_event :: "'s::linorder \<Rightarrow> 's \<Rightarrow> 's Event \<Rightarrow> 's Collector \<Rightarrow> 's Collector" where
  "run_event ninf zero (Leaf docBase) = GetLeafCollector zero docBase"
| "run_event ninf zero Scorer = SetScorer ninf"
| "run_event ninf zero (Hit doc score) = Collect ninf doc score"

text \<open>The hits of a run, with their global document numbers.\<close>

primrec run_hits :: "int \<Rightarrow> 's Event list \<Rightarrow> 's ScoreDoc list" where
  "run_hits base [] = []"
| "run_hits base (e # es) =
     (case e of Leaf docBase \<Rightarrow> run_hits docBase es | Scorer \<Rightarrow> run_hits base es
      | Hit doc score \<Rightarrow> (score, doc + base) # run_hits base es)"

context element_order
begin

text \<open>
  Inserting a list: what the queue does not keep (\<open>D\<close>) is not greater than anything it keeps.
\<close>

lemma insert_all_elems:
  assumes "pq_wf lt p" and "\<And>d e. d \<in># D \<Longrightarrow> e \<in># pq_elems p \<Longrightarrow> \<not> lt e d"
    and "D \<noteq> {#} \<Longrightarrow> pq_size p = pq_maxSize p"
  shows "\<exists>p' D'. insert_all lt xs p = Some p' \<and> pq_wf lt p' \<and>
    pq_elems p' + D' = pq_elems p + D + mset xs \<and>
    (\<forall>d \<in># D'. \<forall>e \<in># pq_elems p'. \<not> lt e d) \<and>
    pq_size p' = min (pq_size p + length xs) (pq_maxSize p)"
  using assms
proof (induction xs arbitrary: p D)
  case Nil
  then show ?case
    using pq_wfD(2) [OF Nil.prems(1)] by (intro exI [of _ p] exI [of _ D]) simp
next
  case (Cons x xs)
  obtain r q where q: "pq_InsertWithOverflow lt p x = Some (r, q)" "pq_wf lt q" "pq_maxSize q = pq_maxSize p"
    "pq_size q = min (pq_size p + 1) (pq_maxSize p)" and
    r: "if pq_size p < pq_maxSize p then r = pq_none p \<and> pq_elems q = pq_elems p + {#x#}
      else pq_elems q + {#r#} = pq_elems p + {#x#} \<and> (\<forall>y \<in># pq_elems q. \<not> lt y r)"
    using insert_elems [OF Cons.prems(1), of x] by blast
  define D' where "D' = (if pq_size p < pq_maxSize p then D else D + {#r#})"
  have full: "pq_size q = pq_maxSize q" if "D' \<noteq> {#}"
    using that q(3,4) Cons.prems(3) pq_wfD(2) [OF Cons.prems(1)] by (auto simp: D'_def split: if_splits)
  have keep: "\<not> lt e d" if "d \<in># D'" "e \<in># pq_elems q" for d e
  proof (cases "pq_size p < pq_maxSize p")
    case True
    then have "D = {#}"
      using Cons.prems(3) by auto
    then show ?thesis
      using True that by (simp add: D'_def)
  next
    case False
    then have e: "add_mset r (pq_elems q) = add_mset x (pq_elems p)" "\<not> lt e r"
      using r that(2) by auto
    show ?thesis
    proof (cases "d \<in># D \<and> e \<notin># pq_elems p")
      case True
      then have "e = x" "r \<in># pq_elems p"
        using e(1) that(2) by (metis union_single_eq_member add_mset_add_single insert_noteq_member add_mset_remove_trivial_eq add_eq_conv_diff insert_iff)+
      then show ?thesis
        using True e(2) Cons.prems(2) not_trans by blast
    next
      case F: False
      then show ?thesis
        using that False e(2) Cons.prems(2) by (auto simp: D'_def)
    qed
  qed
  have elems: "pq_elems q + D' = pq_elems p + D + {#x#}"
    using r by (auto simp: D'_def split: if_splits)
  from Cons.IH [OF q(2) keep full] obtain p' E where
    "insert_all lt xs q = Some p'" "pq_wf lt p'" "pq_elems p' + E = pq_elems q + D' + mset xs"
    "\<forall>d \<in># E. \<forall>e \<in># pq_elems p'. \<not> lt e d" "pq_size p' = min (pq_size q + length xs) (pq_maxSize q)"
    by blast
  then show ?case
    using q elems by (intro exI [of _ p'] exI [of _ E]) simp
qed

end

interpretation costs: element_order cost_less
  by unfold_locales (auto simp: cost_less_def)

text \<open>The smaller part of a list is a prefix of the sorted list.\<close>

lemma sorted_smaller_part:
  fixes xs :: "'a::linorder list"
  assumes "mset as + B = mset xs" and "\<And>a b. a \<in> set as \<Longrightarrow> b \<in># B \<Longrightarrow> a \<le> b"
  shows "mset as = mset (take (length as) (sort xs))"
proof -
  have "sort xs = sort as @ sorted_list_of_multiset B"
  proof (rule properties_for_sort)
    show "mset (sort as @ sorted_list_of_multiset B) = mset xs"
      using assms(1) by simp
    show "sorted (sort as @ sorted_list_of_multiset B)"
      using assms(2) by (simp add: sorted_append)
  qed
  then show ?thesis
    by simp
qed

lemma signed_take_bit_add_left: "signed_take_bit n (signed_take_bit n a + x) = signed_take_bit n (a + x)" for x :: int
proof -
  have "signed_take_bit n (signed_take_bit n a + x) =
      signed_take_bit n (signed_take_bit n (signed_take_bit n a) + signed_take_bit n x)"
    by (rule signed_take_bit_add [symmetric])
  also have "\<dots> = signed_take_bit n (signed_take_bit n a + signed_take_bit n x)"
    by (simp only: signed_take_bit_signed_take_bit min.idem)
  finally show ?thesis
    by (simp only: signed_take_bit_add)
qed

lemma foldl_add_int64: "foldl add_int64 (signed_take_bit 63 a) xs = signed_take_bit 63 (a + sum_list xs)"
proof (induction xs arbitrary: a)
  case (Cons x xs)
  then show ?case
    by (simp only: foldl_Cons add_int64_def signed_take_bit_add_left sum_list.Cons add.assoc)
qed (simp only: foldl_Nil sum_list.Nil add.right_neutral)

lemma cost_eq:
  "costWithMinShouldMatch costs n m =
     Some (signed_take_bit 63 (sum_list (take (max 2 (n + 1 - m)) (sort costs))))"
proof -
  define k where "k = max 2 (n + 1 - m)"
  define p where "p = NewPriorityQueue (0::int) (n + 1 - m)"
  have p: "pq_wf cost_less p" "pq_elems p = {#}" "pq_maxSize p = k" "pq_size p = 0"
    using NewPriorityQueueV1_wf [of cost_less 0 "n + 1 - m" 0]
    by (auto simp: p_def NewPriorityQueue_def NewPriorityQueueV1_def k_def Let_def)
  obtain q D where q: "insert_all cost_less costs p = Some q" "pq_elems q + D = mset costs"
    "\<forall>d \<in># D. \<forall>e \<in># pq_elems q. \<not> cost_less e d" "pq_size q = min (length costs) k"
    using costs.insert_all_elems [OF p(1), of "{#}" costs] p by auto
  define es where "es = pq_elements q"
  have es: "mset es = pq_elems q"
    by (simp add: es_def mset_pq_elements)
  then have "length es = min (length costs) k"
    using q(4) by (metis size_mset size_pq_elems)
  then have len: "take (length es) (sort costs) = take k (sort costs)"
    by (simp add: min_def)
  have "mset es = mset (take (length es) (sort costs))"
  proof (rule sorted_smaller_part)
    show "mset es + D = mset costs"
      using q(2) es by simp
    show "a \<le> b" if "a \<in> set es" "b \<in># D" for a b
    proof -
      have "a \<in># pq_elems q"
        using that(1) by (simp add: es [symmetric])
      then show ?thesis
        using q(3) that(2) by (auto simp: cost_less_def not_less)
    qed
  qed
  then have "sum_list es = sum_list (take k (sort costs))"
    unfolding len by (metis sum_mset_sum_list)
  moreover have "costWithMinShouldMatch costs n m = Some (foldl add_int64 0 es)"
    using q(1) by (simp add: costWithMinShouldMatch_def p_def es_def)
  moreover have "foldl add_int64 0 es = signed_take_bit 63 (sum_list es)"
    using foldl_add_int64 [of 0 es] by (simp only: signed_take_bit_of_0 add_0)
  ultimately show ?thesis
    by (simp only: k_def)
qed

interpretation hits: element_order hit_less
  by unfold_locales (auto simp: hit_less_def split: if_splits)

lemma hit_less_total: "\<not> hit_less a b \<Longrightarrow> \<not> hit_less b a \<Longrightarrow> a = b"
  by (cases a; cases b) (auto simp: hit_less_def split: if_splits)

text \<open>The hits from the best to the worst.\<close>

primrec insert_hit :: "'s::linorder ScoreDoc \<Rightarrow> 's ScoreDoc list \<Rightarrow> 's ScoreDoc list" where
  "insert_hit x [] = [x]"
| "insert_hit x (y # ys) = (if hit_less y x then x # y # ys else y # insert_hit x ys)"

definition ranked :: "'s::linorder ScoreDoc list \<Rightarrow> 's ScoreDoc list" where
  "ranked hs = foldr insert_hit hs []"

text \<open>Ascending lists, as the queue pops them.\<close>

definition ascending :: "'s::linorder ScoreDoc list \<Rightarrow> bool" where
  "ascending xs \<longleftrightarrow> sorted_wrt (\<lambda>a b. \<not> hit_less b a) xs"

lemma mset_insert_hit [simp]: "mset (insert_hit x ys) = add_mset x (mset ys)"
  by (induction ys) auto

lemma mset_ranked [simp]: "mset (ranked hs) = mset hs"
  by (induction hs) (simp_all add: ranked_def)

lemma length_ranked [simp]: "length (ranked hs) = length hs"
  by (metis mset_ranked size_mset)

lemma insert_hit_sorted:
  "sorted_wrt (\<lambda>a b. \<not> hit_less a b) ys \<Longrightarrow> sorted_wrt (\<lambda>a b. \<not> hit_less a b) (insert_hit x ys)"
proof (induction ys)
  case (Cons y ys)
  have "set (insert_hit x ys) = insert x (set ys)"
    by (metis mset_insert_hit set_mset_mset set_mset_add_mset_insert)
  moreover have "\<not> hit_less x z" if "hit_less y x" "z = y \<or> \<not> hit_less y z" for z
    using that hits.asym [of y x] hits.trans [of y x z] by auto
  ultimately show ?case
    using Cons by simp
qed simp

lemma ascending_ranked: "ascending (rev (ranked hs))"
proof -
  have "sorted_wrt (\<lambda>a b. \<not> hit_less a b) (ranked hs)"
    by (induction hs) (simp_all add: ranked_def insert_hit_sorted)
  then show ?thesis
    by (simp add: ascending_def sorted_wrt_rev)
qed

lemma ascending_unique:
  assumes "mset xs = mset ys" and "ascending xs" and "ascending ys"
  shows "xs = ys"
  using assms
proof (induction xs arbitrary: ys)
  case (Cons x xs)
  then obtain y zs where ys: "ys = y # zs"
    by (cases ys) auto
  have "x \<in> set ys" "y \<in> set (x # xs)"
    using Cons.prems(1) ys by (metis list.set_intros(1) set_mset_mset)+
  then have "x = y"
    using Cons.prems(2,3) ys hit_less_total [of x y] by (auto simp: ascending_def)
  then show ?case
    using Cons ys by (simp add: ascending_def)
qed simp

text \<open>Popping a queue yields its elements in ascending order.\<close>

lemma pop_ascending:
  assumes "pq_wf hit_less p" and "pq_elems p = mset (x # xs)" and "ascending (x # xs)"
  shows "\<exists>p'. pq_Pop hit_less p = (Inr x, p') \<and> pq_wf hit_less p' \<and> pq_elems p' = mset xs"
proof -
  have n: "0 < pq_size p"
    using arg_cong [OF assms(2), of size] by simp
  have m: "x \<in># pq_elems p" "pq_Top p \<in># pq_elems p" "\<not> hit_less x (pq_Top p)"
    using assms(2) hits.top_minimal [OF assms(1), of x] by auto
  then have "pq_Top p = x"
    using assms(2,3) hit_less_total [of x "pq_Top p"] by (auto simp: ascending_def)
  then show ?thesis
    using hits.pop_elems [OF assms(1) n] assms(2) by auto
qed

lemma discard_ascending:
  assumes "pq_wf hit_less p" and "pq_elems p = mset xs" and "ascending xs" and "n \<le> length xs"
  shows "pq_wf hit_less (discard_pops n p) \<and> pq_elems (discard_pops n p) = mset (drop n xs)"
  using assms
proof (induction n arbitrary: p xs)
  case (Suc n)
  then obtain x ys where xs: "xs = x # ys"
    by (cases xs) auto
  then obtain p' where "pq_Pop hit_less p = (Inr x, p')" "pq_wf hit_less p'" "pq_elems p' = mset ys"
    using pop_ascending [of p x ys] Suc.prems by auto
  then show ?case
    using Suc.IH [of p' ys] Suc.prems xs by (simp add: ascending_def)
qed simp

lemma populate_ascending:
  assumes "pq_wf hit_less p" and "pq_elems p = mset xs" and "ascending xs" and "n \<le> length xs"
    and "n \<le> length results"
  shows "\<exists>p'. PopulateResults p n results = (Inr (rev (take n xs) @ drop n results), p')"
  using assms
proof (induction n arbitrary: p xs results)
  case (Suc n)
  then obtain x ys where xs: "xs = x # ys"
    by (cases xs) auto
  then obtain p' where p': "pq_Pop hit_less p = (Inr x, p')" "pq_wf hit_less p'" "pq_elems p' = mset ys"
    using pop_ascending [of p x ys] Suc.prems by auto
  have "drop n (results[n := x]) = x # drop (Suc n) results"
    using Suc.prems(5) by (metis Cons_nth_drop_Suc Suc_le_lessD drop_update_cancel length_list_update lessI nth_list_update_eq)
  then show ?case
    using Suc.IH [of p' ys "results[n := x]"] Suc.prems xs p' by (auto simp: ascending_def)
qed simp

text \<open>
  The invariant of a run that has collected \<open>hs\<close>: the queue holds the best \<open>numHits\<close> of the
  sentinels and the hits, and a minimum competitive score is set only above the threshold, and
  never above the score of the worst hit of the queue.
\<close>

definition sentinel :: "'s \<Rightarrow> 's ScoreDoc" where
  "sentinel ninf = (ninf, MaxInt32)"

definition keeps_best :: "'s::linorder \<Rightarrow> nat \<Rightarrow> 's ScoreDoc list \<Rightarrow> 's ScoreDoc multiset \<Rightarrow> bool" where
  "keeps_best ninf numHits hs E \<longleftrightarrow>
     (\<exists>D. E + D = replicate_mset numHits (sentinel ninf) + mset hs \<and> size E = numHits \<and>
       (\<forall>d \<in># D. \<forall>e \<in># E. \<not> hit_less e d))"

definition col_wf :: "'s::linorder \<Rightarrow> nat \<Rightarrow> nat \<Rightarrow> 's ScoreDoc list \<Rightarrow> 's Collector \<Rightarrow> bool" where
  "col_wf ninf numHits threshold hs c \<longleftrightarrow>
     1 \<le> numHits \<and> (\<forall>h \<in> set hs. ninf < fst h) \<and>
     pq_wf hit_less (col_pq c) \<and> col_totalHits c = length hs \<and> col_hitCount c = length hs \<and>
     col_totalHitsThreshold c = threshold \<and> keeps_best ninf numHits hs (pq_elems (col_pq c)) \<and>
     (col_relation c = GREATER_THAN_OR_EQUAL_TO \<longrightarrow> threshold < length hs) \<and>
     (\<forall>m. col_scorer_min c = Some m \<longrightarrow> col_relation c = GREATER_THAN_OR_EQUAL_TO \<and>
       ninf < m \<and> m \<le> fst (pq_Top (col_pq c)))"

lemma keeps_best_add:
  assumes k: "keeps_best ninf numHits hs E" and t: "t \<in># E" "\<And>e. e \<in># E \<Longrightarrow> \<not> hit_less e t"
  shows "\<not> hit_less t x \<Longrightarrow> keeps_best ninf numHits (hs @ [x]) E"
    and "hit_less t x \<Longrightarrow> keeps_best ninf numHits (hs @ [x]) (E - {#t#} + {#x#})"
proof -
  obtain D where D: "E + D = replicate_mset numHits (sentinel ninf) + mset hs" "size E = numHits"
    "\<And>d e. d \<in># D \<Longrightarrow> e \<in># E \<Longrightarrow> \<not> hit_less e d"
    using k by (auto simp: keeps_best_def)
  {
    assume x: "\<not> hit_less t x"
    then have "\<not> hit_less e x" if "e \<in># E" for e
      using t(2) [OF that] hits.not_trans by blast
    then show "keeps_best ninf numHits (hs @ [x]) E"
      using D unfolding keeps_best_def by (intro exI [of _ "add_mset x D"]) auto
  next
    assume x: "hit_less t x"
    have "\<not> hit_less e d" if "d \<in># add_mset t D" "e \<in># E - {#t#} + {#x#}" for d e
    proof (cases "e = x")
      case True
      then show ?thesis
        using that x D(3) t(1) hits.asym hits.trans by (metis insert_iff set_mset_add_mset_insert)
    next
      case False
      then have "e \<in># E"
        using that(2) by (auto dest: in_diffD)
      then show ?thesis
        using that(1) D(3) t(2) by (metis insert_iff set_mset_add_mset_insert)
    qed
    moreover have "E - {#t#} + {#x#} + add_mset t D = replicate_mset numHits (sentinel ninf) + mset (hs @ [x])"
    proof -
      obtain F where "E = add_mset t F"
        using t(1) by (metis multi_member_split)
      then show ?thesis
        using D(1) by simp
    qed
    moreover have "size (E - {#t#} + {#x#}) = numHits"
      using t(1) D(2) by (auto dest: multi_member_split)
    ultimately show "keeps_best ninf numHits (hs @ [x]) (E - {#t#} + {#x#})"
      unfolding keeps_best_def by blast
  }
qed

text \<open>The queue is the list of sentinels that are left, and the best hits.\<close>

lemma keeps_best_eq:
  assumes k: "keeps_best ninf numHits hs E" and s: "\<And>h. h \<in> set hs \<Longrightarrow> ninf < fst h"
  shows "E = mset (replicate (numHits - length hs) (sentinel ninf) @ rev (take numHits (ranked hs)))"
    and "ascending (replicate (numHits - length hs) (sentinel ninf) @ rev (take numHits (ranked hs)))"
proof -
  let ?r = "\<lambda>n. replicate n (sentinel ninf)"
  define all where "all = ?r numHits @ rev (ranked hs)"
  obtain D where D: "E + D = replicate_mset numHits (sentinel ninf) + mset hs" "size E = numHits"
    "\<And>d e. d \<in># D \<Longrightarrow> e \<in># E \<Longrightarrow> \<not> hit_less e d"
    using k by (auto simp: keeps_best_def)
  have "\<not> hit_less h (sentinel ninf)" if "h \<in> set hs" for h
    using s [OF that] by (auto simp: hit_less_def sentinel_def)
  moreover have "set (ranked hs) = set hs"
    by (metis mset_ranked set_mset_mset)
  moreover have "ascending (?r n)" for n
    by (induction n) (simp_all add: ascending_def hits.irrefl)
  ultimately have asc: "ascending (?r n @ rev (ranked hs))" for n
    using ascending_ranked [of hs] by (simp add: ascending_def sorted_wrt_append)
  obtain es ds where l: "mset es = E" "mset ds = D"
    by (metis ex_mset)
  have "\<not> hit_less e d" if "d \<in> set (ranked ds)" "e \<in> set (ranked es)" for d e
    using that D(3) l by (metis mset_ranked set_mset_mset)
  then have "ascending (rev (ranked ds) @ rev (ranked es))"
    using ascending_ranked [of ds] ascending_ranked [of es] by (simp add: ascending_def sorted_wrt_append)
  moreover have "mset (rev (ranked ds) @ rev (ranked es)) = mset all"
    using D(1) l by (simp add: all_def add.commute)
  ultimately have eq: "rev (ranked ds) @ rev (ranked es) = all"
    using asc [of numHits] by (intro ascending_unique) (simp_all add: all_def)
  have "length ds = length hs"
    using arg_cong [OF D(1), of size] D(2) size_mset [of ds] unfolding l(2) by simp
  moreover have "drop (length ds) (rev (ranked ds) @ rev (ranked es)) = rev (ranked es)"
    by simp
  ultimately have es: "rev (ranked es) = drop (length hs) all"
    unfolding eq by simp
  also have all: "drop (length hs) all = ?r (numHits - length hs) @ rev (take numHits (ranked hs))"
    by (cases "numHits \<le> length hs") (simp_all add: all_def drop_rev)
  finally have list: "rev (ranked es) = ?r (numHits - length hs) @ rev (take numHits (ranked hs))" .
  show "ascending (?r (numHits - length hs) @ rev (take numHits (ranked hs)))"
    using ascending_ranked [of es] unfolding list .
  have "mset (rev (ranked es)) = E"
    by (simp add: l)
  then show "E = mset (?r (numHits - length hs) @ rev (take numHits (ranked hs)))"
    unfolding list by simp
qed

lemma keeps_bestD:
  assumes "keeps_best ninf numHits hs E" and "e \<in># E"
  shows "e = sentinel ninf \<or> e \<in> set hs"
proof -
  obtain D where "E + D = replicate_mset numHits (sentinel ninf) + mset hs"
    using assms(1) by (auto simp: keeps_best_def)
  then have "e \<in># replicate_mset numHits (sentinel ninf) + mset hs"
    using assms(2) by (metis union_iff)
  then show ?thesis
    by (auto split: if_splits)
qed

lemma col_wf_top:
  assumes "col_wf ninf numHits threshold hs c"
  shows "1 \<le> pq_size (col_pq c)" "pq_Top (col_pq c) \<in># pq_elems (col_pq c)"
    "e \<in># pq_elems (col_pq c) \<Longrightarrow> \<not> hit_less e (pq_Top (col_pq c))"
proof -
  have wf: "pq_wf hit_less (col_pq c)" "size (pq_elems (col_pq c)) = numHits" "1 \<le> numHits"
    using assms by (auto simp: col_wf_def keeps_best_def)
  then show "1 \<le> pq_size (col_pq c)"
    by simp
  then obtain y where "y \<in># pq_elems (col_pq c)"
    by (metis not_one_le_zero size_empty size_pq_elems multiset_nonemptyE)
  then show "pq_Top (col_pq c) \<in># pq_elems (col_pq c)"
    by (rule hits.top_minimal(2) [OF wf(1)])
  show "e \<in># pq_elems (col_pq c) \<Longrightarrow> \<not> hit_less e (pq_Top (col_pq c))"
    by (rule hits.top_minimal(1) [OF wf(1)])
qed

lemma updateMin_wf:
  assumes "col_wf ninf numHits threshold hs c"
  shows "col_wf ninf numHits threshold hs (updateMinCompetitiveScore ninf c) \<and>
    col_docBase (updateMinCompetitiveScore ninf c) = col_docBase c"
proof -
  let ?t = "pq_Top (col_pq c)"
  have "?t = sentinel ninf \<or> ?t \<in> set hs"
    using keeps_bestD [OF _ col_wf_top(2) [OF assms]] assms unfolding col_wf_def by blast
  then have "fst ?t \<noteq> ninf \<Longrightarrow> ninf < fst ?t"
    using assms by (auto simp: col_wf_def sentinel_def)
  then show ?thesis
    using assms by (simp add: updateMinCompetitiveScore_def Let_def col_wf_def IsThresholdReached_def)
qed

lemma Collect_wf:
  assumes wf: "col_wf ninf numHits threshold hs c"
    and doc: "\<And>h. h \<in> set hs \<Longrightarrow> snd h < doc + col_docBase c" and score: "ninf < score"
  shows "col_wf ninf numHits threshold (hs @ [(score, doc + col_docBase c)]) (Collect ninf doc score c) \<and>
    col_docBase (Collect ninf doc score c) = col_docBase c"
proof -
  define x where "x = (score, doc + col_docBase c)"
  define d where "d = c\<lparr>col_totalHits := col_totalHits c + 1, col_hitCount := col_hitCount c + 1\<rparr>"
  define t where "t = pq_Top (col_pq c)"
  note top = col_wf_top [OF wf, folded t_def]
  note w = wf [unfolded col_wf_def]
  have tcases: "t = sentinel ninf \<or> t \<in> set hs"
    using keeps_bestD [OF _ top(2)] w by blast
  have upd: "col_wf ninf numHits threshold (hs @ [x]) (updateMinCompetitiveScore ninf e) \<and>
      col_docBase (updateMinCompetitiveScore ninf e) = col_docBase c"
    if "col_wf ninf numHits threshold (hs @ [x]) e" "col_docBase e = col_docBase c" for e
    using updateMin_wf [OF that(1)] that(2) by simp
  show ?thesis
  proof (cases "score \<le> fst t")
    case True
    have "\<not> hit_less t x"
      using True tcases doc [of t] score by (auto simp: hit_less_def x_def sentinel_def)
    then have "keeps_best ninf numHits (hs @ [x]) (pq_elems (col_pq c))"
      using w top by (intro keeps_best_add(1)) auto
    then have "col_wf ninf numHits threshold (hs @ [x]) d" "col_docBase d = col_docBase c"
      using w score by (auto simp: col_wf_def d_def x_def)
    moreover have "Collect ninf doc score c = (if col_relation d = EQUAL_TO then updateMinCompetitiveScore ninf d else d)"
      using True by (simp add: Collect_def t_def d_def)
    ultimately show ?thesis
      using upd [of d] by (simp add: x_def)
  next
    case False
    then have less: "hit_less t x"
      by (auto simp: hit_less_def x_def not_le)
    obtain q where q: "pq_UpdateTop hit_less ((col_pq c)\<lparr>pq_heap := (pq_heap (col_pq c))[1 := x]\<rparr>) = (pq_Top q, q)"
      "pq_wf hit_less q" "pq_elems q = pq_elems (col_pq c) - {#t#} + {#x#}" "pq_size q = pq_size (col_pq c)"
      using hits.replace_top_elems [of "col_pq c" x] top(1) w t_def by blast
    have "keeps_best ninf numHits (hs @ [x]) (pq_elems q)"
      unfolding q(3) using w top less by (intro keeps_best_add(2)) auto
    moreover have "fst t \<le> fst (pq_Top q)"
    proof -
      have "pq_Top q \<in># pq_elems q"
        by (rule hits.top_minimal(2) [OF q(2), of x]) (simp add: q(3))
      then have "pq_Top q \<in># pq_elems (col_pq c) \<or> pq_Top q = x"
        by (auto simp: q(3) dest: in_diffD)
      then show ?thesis
        using top(3) [of "pq_Top q"] False by (auto simp: hit_less_def x_def not_less split: if_splits)
    qed
    ultimately have "col_wf ninf numHits threshold (hs @ [x]) (d\<lparr>col_pq := q\<rparr>)"
      using w q(2) score unfolding t_def by (auto simp: col_wf_def d_def x_def intro: order_trans)
    moreover have "Collect ninf doc score c = updateMinCompetitiveScore ninf (d\<lparr>col_pq := q\<rparr>)"
      using False q(1) by (simp add: Collect_def t_def d_def x_def)
    ultimately show ?thesis
      using upd [of "d\<lparr>col_pq := q\<rparr>"] by (simp add: d_def x_def)
  qed
qed

lemma run_wf:
  assumes "col_wf ninf numHits threshold hs c"
    and "sorted_wrt (<) (map snd (hs @ run_hits (col_docBase c) es))"
    and "\<And>h. h \<in> set (run_hits (col_docBase c) es) \<Longrightarrow> ninf < fst h"
  shows "col_wf ninf numHits threshold (hs @ run_hits (col_docBase c) es) (fold (run_event ninf zero) es c)"
  using assms
proof (induction es arbitrary: hs c)
  case (Cons e es)
  show ?case
  proof (cases e)
    case (Leaf b)
    have "col_wf ninf numHits threshold hs (GetLeafCollector zero b c)" "col_docBase (GetLeafCollector zero b c) = b"
      using Cons.prems(1) by (simp_all add: col_wf_def GetLeafCollector_def)
    then show ?thesis
      using Cons.IH [of hs "GetLeafCollector zero b c"] Cons.prems Leaf by simp
  next
    case Scorer
    have "col_wf ninf numHits threshold hs (c\<lparr>col_scorer_min := None\<rparr>)"
      using Cons.prems(1) by (simp add: col_wf_def)
    from updateMin_wf [OF this] show ?thesis
      using Cons.IH [of hs "SetScorer ninf c"] Cons.prems Scorer by (simp add: SetScorer_def)
  next
    case (Hit doc score)
    let ?x = "(score, doc + col_docBase c)"
    have "col_wf ninf numHits threshold (hs @ [?x]) (Collect ninf doc score c) \<and>
        col_docBase (Collect ninf doc score c) = col_docBase c"
      using Cons.prems(3) [of ?x] Cons.prems(1,2) Hit by (intro Collect_wf) (auto simp: sorted_wrt_append)
    then show ?thesis
      using Cons.IH [of "hs @ [?x]" "Collect ninf doc score c"] Cons.prems Hit by simp
  qed
qed simp

lemma newTopScoreDocCollector_wf:
  assumes "1 \<le> numHits"
  shows "col_wf ninf numHits threshold [] (newTopScoreDocCollector ninf zero numHits threshold)"
proof -
  define m where "m = (if numHits < 2 then 2 else numHits)"
  define p where "p = pq_SetSize (NewPriorityQueueV1 (ninf, 0) numHits (sentinel ninf)) numHits"
  have heap: "pq_heap p = replicate (m + 1) (sentinel ninf)" "pq_size p = numHits" "pq_maxSize p = m" "numHits \<le> m" "2 \<le> m"
    by (simp_all add: p_def pq_SetSize_def NewPriorityQueueV1_def Let_def m_def)
  have "k div 2 \<le> m" if "k \<le> numHits" for k
    using that heap(4) by linarith
  then have "pq_wf hit_less p"
    using heap by (auto simp: pq_wf_def pq_shape_def heap_ordered_def hits.irrefl simp del: replicate.simps)
  moreover have "pq_elems p = replicate_mset numHits (sentinel ninf)"
    using heap by (simp add: pq_elems_def heap_elems_take min_def del: replicate.simps)
  ultimately show ?thesis
    unfolding col_wf_def newTopScoreDocCollector_def sentinel_def [symmetric] p_def [symmetric]
    using assms by (simp add: keeps_best_def)
qed

lemma page_of_pops:
  assumes "length best = min l N" and "h + s \<le> length best"
  shows "rev (take h (drop (N - s - h) (replicate (N - l) x @ rev best))) = take h (drop s best)"
proof -
  have d: "N - s - h = N - l + (length best - s - h)"
    using assms by simp
  have "drop (N - s - h) (replicate (N - l) x @ rev best) = drop (length best - s - h) (rev best)"
    unfolding d by (simp add: drop_append)
  also have "\<dots> = rev (take (s + h) best)"
    using assms(2) by (simp add: drop_rev)
  also have "take h (rev (take (s + h) best)) = rev (take h (drop s best))"
  proof -
    have "length (take (s + h) best) = s + h"
      using assms(2) by simp
    then have "take h (rev (take (s + h) best)) = rev (drop s (take (s + h) best))"
      by (simp only: take_rev) simp
    then show ?thesis
      by (simp add: drop_take)
  qed
  finally show ?thesis
    by simp
qed

lemma TopDocsRange_eq:
  assumes wf: "col_wf ninf numHits threshold hs c" and s: "\<And>h. h \<in> set hs \<Longrightarrow> ninf < fst h"
    and p: "page = (if start < 0 \<or> howMany \<le> 0 then []
      else take (nat howMany) (drop (nat start) (take numHits (ranked hs))))"
  shows "fst (TopDocsRange c start howMany) = Inr (NewTopDocs c page)"
proof -
  define n where "n = TopDocsSize c"
  define best where "best = take numHits (ranked hs)"
  define xs where "xs = replicate (numHits - length hs) (sentinel ninf) @ rev best"
  have w: "pq_wf hit_less (col_pq c)" "keeps_best ninf numHits hs (pq_elems (col_pq c))" "col_totalHits c = length hs"
    using wf by (simp_all add: col_wf_def)
  have sz: "pq_size (col_pq c) = numHits"
    using w(2) by (auto simp: keeps_best_def)
  have n: "n = length best" "n = min (length hs) numHits"
    by (simp_all add: n_def TopDocsSize_def w(3) sz best_def)
  have elems: "pq_elems (col_pq c) = mset xs" "ascending xs" and len: "length xs = numHits"
    using keeps_best_eq [OF w(2) s] n by (simp_all add: xs_def best_def)
  show ?thesis
  proof (cases "start < 0 \<or> int n \<le> start \<or> howMany \<le> 0")
    case True
    then have "page = []"
      using n(1) by (auto simp: p best_def [symmetric])
    then show ?thesis
      using True by (simp add: TopDocsRange_def n_def Let_def)
  next
    case False
    define h where "h = nat (min (int n - start) howMany)"
    define d where "d = numHits - nat start - h"
    have h: "h + nat start \<le> n" "n \<le> numHits" "h + d + nat start = numHits" "0 < h"
      using False n(2) by (auto simp: h_def d_def)
    have pg: "page = take h (drop (nat start) best)"
      using False n(1) by (auto simp: p h_def best_def [symmetric] min_def nat_diff_distrib)
    obtain q where q: "PopulateResults (discard_pops d (col_pq c)) h (replicate h (pq_none (col_pq c)))
        = (Inr (rev (take h (drop d xs)) @ []), q)"
      using discard_ascending [OF w(1) elems, of d] h len elems(2)
        populate_ascending [of "discard_pops d (col_pq c)" "drop d xs" h "replicate h (pq_none (col_pq c))"]
      by (auto simp: ascending_def sorted_wrt_drop)
    have "rev (take h (drop d xs)) = page"
      using page_of_pops [of best "length hs" numHits h "nat start" "sentinel ninf"] h n
      by (simp add: pg xs_def d_def)
    then show ?thesis
      using False q by (simp add: TopDocsRange_def Let_def sz NewTopDocs_def n_def [symmetric] h_def [symmetric] d_def)
  qed
qed

lemma collector_wf:
  assumes "1 \<le> numHits" and "hs = run_hits 0 es" and "sorted_wrt (<) (map snd hs)"
    and "\<forall>h \<in> set hs. ninf < fst h"
  shows "col_wf ninf numHits threshold hs
    (fold (run_event ninf zero) es (newTopScoreDocCollector ninf zero numHits threshold))"
proof -
  let ?c = "newTopScoreDocCollector ninf zero numHits threshold"
  have "col_docBase ?c = 0"
    by (simp add: newTopScoreDocCollector_def)
  then show ?thesis
    using run_wf [OF newTopScoreDocCollector_wf [OF assms(1), of ninf threshold zero], of es zero] assms(2-)
    by simp
qed

text \<open>
  C13. The collector returns the best hits. After any run whose global documents increase and whose
  scores are above minus infinity, every page of the results (\<open>TopDocsRange\<close>) is that page of the
  best \<open>numHits\<close> of all hits, by score and then by document, and the total counts every hit.
\<close>

theorem collector_best_hits:
  assumes "1 \<le> numHits" and "hs = run_hits 0 es" and "sorted_wrt (<) (map snd hs)"
    and "\<forall>h \<in> set hs. ninf < fst h"
    and "c = fold (run_event ninf zero) es (newTopScoreDocCollector ninf zero numHits threshold)"
    and "page = (if start < 0 \<or> howMany \<le> 0 then []
      else take (nat howMany) (drop (nat start) (take numHits (ranked hs))))"
  shows "fst (TopDocsRange c start howMany) =
      Inr (if page = [] then (0, EQUAL_TO, []) else (length hs, col_relation c, page))"
proof -
  have wf: "col_wf ninf numHits threshold hs c"
    unfolding assms(5) by (rule collector_wf [OF assms(1-4)])
  have "fst (TopDocsRange c start howMany) = Inr (NewTopDocs c page)"
    using assms(4) by (intro TopDocsRange_eq [OF wf _ assms(6)]) blast
  moreover have "col_totalHits c = length hs"
    using wf by (simp add: col_wf_def)
  ultimately show ?thesis
    by (simp add: NewTopDocs_def)
qed

lemma collector_wf_TopDocs:
  assumes "col_wf ninf numHits threshold hs c"
  shows "fst (TopDocs c) = Inr (NewTopDocs c (take numHits (ranked hs)))"
proof -
  have "TopDocsSize c = min (length hs) numHits" "1 \<le> numHits"
    using assms by (auto simp: TopDocsSize_def col_wf_def keeps_best_def)
  moreover from this have "take (min (length hs) numHits) (take numHits (ranked hs)) = take numHits (ranked hs)"
    by (simp add: min_def)
  moreover have "min (length hs) numHits = 0 \<Longrightarrow> take numHits (ranked hs) = []"
    using assms by (auto simp: min_def ranked_def split: if_splits)
  ultimately show ?thesis
    unfolding TopDocs_def using assms
    by (intro TopDocsRange_eq [OF assms]) (auto simp: col_wf_def)
qed

lemma competitive_hits:
  assumes wf: "col_wf ninf numHits threshold hs c" and m: "col_scorer_min c = Some m"
  shows "numHits \<le> length (filter (\<lambda>h. m \<le> fst h) hs)"
proof -
  let ?E = "pq_elems (col_pq c)"
  have w: "ninf < m" "m \<le> fst (pq_Top (col_pq c))" "keeps_best ninf numHits hs ?E"
    using wf m by (simp_all add: col_wf_def)
  then obtain D where D: "?E + D = replicate_mset numHits (sentinel ninf) + mset hs" "size ?E = numHits"
    by (auto simp: keeps_best_def)
  have "m \<le> fst e" if "e \<in># ?E" for e
    using col_wf_top(3) [OF wf that] w(2) by (auto simp: hit_less_def not_less split: if_splits)
  then have "filter_mset (\<lambda>h. m \<le> fst h) ?E = ?E"
    by (simp add: filter_mset_eq_conv)
  moreover have "filter_mset (\<lambda>h. m \<le> fst h) (replicate_mset numHits (sentinel ninf)) = {#}"
    using w(1) by (auto simp: filter_mset_eq_conv sentinel_def split: if_splits)
  ultimately have "?E + filter_mset (\<lambda>h. m \<le> fst h) D = mset (filter (\<lambda>h. m \<le> fst h) hs)"
    using arg_cong [OF D(1), of "filter_mset (\<lambda>h. m \<le> fst h)"] by simp
  then have "numHits + size (filter_mset (\<lambda>h. m \<le> fst h) D) = length (filter (\<lambda>h. m \<le> fst h) hs)"
    using D(2) by (metis size_mset size_union)
  then show ?thesis
    by simp
qed

text \<open>
  C14. The minimum competitive score is safe. When the collector has told the scorer to skip
  documents below \<open>m\<close>, more hits than the threshold were counted, the total is already marked as a
  lower bound, and \<open>numHits\<close> hits with a score of at least \<open>m\<close> were collected before, so that no
  skipped document could be among the best.
\<close>

theorem collector_competitive_score:
  assumes "1 \<le> numHits" and "hs = run_hits 0 es" and "sorted_wrt (<) (map snd hs)"
    and "\<forall>h \<in> set hs. ninf < fst h"
    and "c = fold (run_event ninf zero) es (newTopScoreDocCollector ninf zero numHits threshold)"
    and "col_scorer_min c = Some m"
  shows "threshold < length hs \<and> col_relation c = GREATER_THAN_OR_EQUAL_TO \<and>
    numHits \<le> length (filter (\<lambda>h. m \<le> fst h) hs)"
proof -
  have wf: "col_wf ninf numHits threshold hs c"
    unfolding assms(5) by (rule collector_wf [OF assms(1-4)])
  then show ?thesis
    using competitive_hits [OF wf assms(6)] assms(6) by (simp add: col_wf_def)
qed

definition example_events :: "int Event list" where
  "example_events = [Leaf 0, Scorer, Hit 0 5, Hit 1 7, Leaf 10, Scorer, Hit 0 6, Hit 1 7]"

definition example_collector :: "int Collector" where
  "example_collector = fold (run_event (- 1) 0) example_events (newTopScoreDocCollector (- 1) 0 2 1)"

lemma example_hits: "run_hits 0 example_events = [(5, 0), (7, 1), (6, 10), (7, 11)]"
  by (simp add: example_events_def)

lemma example_ranked: "ranked [(5, 0), (7, 1), (6, 10), (7::int, 11)] = [(7, 1), (7, 11), (6, 10), (5, 0)]"
  by (simp add: ranked_def hit_less_def)

lemma example_scorer_min: "col_scorer_min example_collector = Some 7"
  by code_simp

theorem collector_competitive_score_witness:
  "1 < length (run_hits 0 example_events) \<and> col_relation example_collector = GREATER_THAN_OR_EQUAL_TO \<and>
    2 \<le> length (filter (\<lambda>h. 7 \<le> fst h) (run_hits 0 example_events))"
  using collector_competitive_score [of 2 _ example_events "- 1" example_collector 0 1 7]
  by (simp add: example_hits example_scorer_min flip: example_collector_def One_nat_def)

theorem collector_best_hits_witness:
  "fst (TopDocsRange example_collector 0 2) =
    Inr (4, col_relation example_collector, [(7, 1), (7, 11)])"
  using collector_best_hits [of 2 _ example_events "- 1" example_collector 0 1 _ 0 2]
  by (simp add: example_ranked example_hits take_Cons' flip: example_collector_def One_nat_def)

text \<open>
  C15. The cost of a disjunction with a minimum number of clauses is the (wrapped) sum of the least
  costs, as many as the queue holds: one more than the clauses that may be missing, but never fewer
  than two, since the queue raises its size to two. So for a conjunction, where
  \<open>minShouldMatch = numScorers\<close>, it is the sum of the two least costs, not the least cost.
\<close>

theorem cost_of_least_clauses:
  "costWithMinShouldMatch costs numScorers minShouldMatch =
     Some (signed_take_bit 63 (sum_list (take (max 2 (numScorers + 1 - minShouldMatch)) (sort costs))))"
  by (rule cost_eq)


end
