(* ===== verification/Data_IO.thy ===== *)
theory Data_IO
  imports Prelude
begin

text \<open>
  The byte-level encoding of core/store: dataio.go over the readers and writers of bytes.go and
  buffer.go, and core/util/zigzag/zigzag.go. \<open>encoding/binary\<close>, \<open>bytes.Buffer\<close> and \<open>[]rune(s)\<close> of
  Go's library are modelled as far as they are used.
\<close>

subsection \<open>Operations with state, errors and panics\<close>

text \<open>\<^const>\<open>None\<close> is a panic; otherwise a value or an error, and the state after it.\<close>

type_synonym ('s, 'a) io = "'s \<Rightarrow> ((go_error + 'a) \<times> 's) option"

definition io_return :: "'a \<Rightarrow> ('s, 'a) io" where
  "io_return x s = Some (Inr x, s)"

definition io_fail :: "go_error \<Rightarrow> ('s, 'a) io" where
  "io_fail e s = Some (Inl e, s)"

definition io_panic :: "('s, 'a) io" where
  "io_panic s = None"

definition io_bind :: "('s, 'a) io \<Rightarrow> ('a \<Rightarrow> ('s, 'b) io) \<Rightarrow> ('s, 'b) io" where
  "io_bind m f s =
     (case m s of None \<Rightarrow> None
      | Some (Inl e, s) \<Rightarrow> Some (Inl e, s)
      | Some (Inr x, s) \<Rightarrow> f x s)"

named_theorems io_simps \<open>execution of input and output steps\<close>

lemma io_bind_ok [io_simps]: "m s = Some (Inr x, s') \<Longrightarrow> io_bind m f s = f x s'"
  by (simp add: io_bind_def)

lemma io_bind_error [io_simps]: "m s = Some (Inl e, s') \<Longrightarrow> io_bind m f s = Some (Inl e, s')"
  by (simp add: io_bind_def)

lemma io_bind_panic [io_simps]: "m s = None \<Longrightarrow> io_bind m f s = None"
  by (simp add: io_bind_def)

lemma io_return_apply [io_simps]: "io_return x s = Some (Inr x, s)"
  by (simp add: io_return_def)

subsection \<open>Zig-zag encoding\<close>

text \<open>An \<open>int64\<close> is the 64-bit word of its two's complement; \<open>>>\<close> on it is arithmetic.\<close>

definition zigzag_Encode :: "u64 \<Rightarrow> u64" where
  "zigzag_Encode x = push_bit 1 x XOR signed_drop_bit 63 x"

definition zigzag_Decode :: "u64 \<Rightarrow> u64" where
  "zigzag_Decode x = drop_bit 1 x XOR signed_drop_bit 63 (push_bit 63 x)"

subsection \<open>Fixed-width and variable-length integers\<close>

text \<open>\<open>binary.BigEndian\<close>: the highest byte first.\<close>

definition put_uint :: "nat \<Rightarrow> 'a::len word \<Rightarrow> u8 list" where
  "put_uint n w = map (\<lambda>i. ucast (drop_bit (8 * (n - 1 - i)) w)) [0..<n]"

definition get_uint :: "u8 list \<Rightarrow> 'a::len word" where
  "get_uint bs = foldl (\<lambda>v b. push_bit 8 v OR ucast b) 0 bs"

text \<open>\<open>binary.PutUvarint\<close>\<close>

function put_uvarint :: "u64 \<Rightarrow> u8 list" where
  "put_uvarint x = (if x < 0x80 then [ucast x] else (ucast x OR 0x80) # put_uvarint (drop_bit 7 x))"
  by pat_completeness auto
termination
proof (relation "measure unat")
  fix x :: u64
  assume "\<not> x < 0x80"
  then have "0x80 \<le> unat x"
    by (simp add: word_less_nat_alt not_less)
  then show "(drop_bit 7 x, x) \<in> measure unat"
    by (simp add: drop_bit_eq_div unat_div)
qed simp

declare put_uvarint.simps [simp del]

subsection \<open>Input\<close>

text \<open>
  \<open>BaseDataInput\<close> over a reader: \<open>read k\<close> is a call of \<open>Read\<close> with a slice of \<open>k\<close> bytes, and
  yields the bytes it stored. The number of bytes read is not looked at, so that a short read leaves
  what \<open>buff\<close> held before.
\<close>

record 'r DataInput =
  in_reader :: 'r
  in_buff :: "u8 list"

definition NewBaseDataInput :: "'r \<Rightarrow> 'r DataInput" where
  "NewBaseDataInput r = \<lparr>in_reader = r, in_buff = replicate 48 0\<rparr>"

definition read_slice :: "(nat \<Rightarrow> ('r, u8 list) io) \<Rightarrow> nat \<Rightarrow> ('r DataInput, u8 list) io" where
  "read_slice read k d =
     (case read k (in_reader d) of None \<Rightarrow> None | Some (x, r) \<Rightarrow> Some (x, d\<lparr>in_reader := r\<rparr>))"

definition read_buff :: "(nat \<Rightarrow> ('r, u8 list) io) \<Rightarrow> nat \<Rightarrow> ('r DataInput, u8 list) io" where
  "read_buff read k d =
     io_bind (read_slice read k) (\<lambda>bs d.
       let buff = bs @ drop (length bs) (in_buff d) in
       Some (Inr (take k buff), d\<lparr>in_buff := buff\<rparr>)) d"

definition ReadByte :: "(nat \<Rightarrow> ('r, u8 list) io) \<Rightarrow> ('r DataInput, u8) io" where
  "ReadByte read = io_bind (read_buff read 1) (\<lambda>bs. io_return (hd bs))"

definition ReadUint16 :: "(nat \<Rightarrow> ('r, u8 list) io) \<Rightarrow> ('r DataInput, u16) io" where
  "ReadUint16 read = io_bind (read_buff read 2) (\<lambda>bs. io_return (get_uint bs))"

definition ReadUint32 :: "(nat \<Rightarrow> ('r, u8 list) io) \<Rightarrow> ('r DataInput, u32) io" where
  "ReadUint32 read = io_bind (read_buff read 4) (\<lambda>bs. io_return (get_uint bs))"

definition ReadUint64 :: "(nat \<Rightarrow> ('r, u8 list) io) \<Rightarrow> ('r DataInput, u64) io" where
  "ReadUint64 read = io_bind (read_buff read 8) (\<lambda>bs. io_return (get_uint bs))"

text \<open>\<open>binary.ReadUvarint\<close>: at most ten bytes; \<open>n\<close> counts the bytes that are left.\<close>

definition ErrUnexpectedEOF :: go_error where
  "ErrUnexpectedEOF = Err ''unexpected EOF''"

definition errOverflow :: go_error where
  "errOverflow = Err ''binary: varint overflows a 64-bit integer''"

primrec read_uvarint_loop ::
  "(nat \<Rightarrow> ('r, u8 list) io) \<Rightarrow> nat \<Rightarrow> u64 \<Rightarrow> nat \<Rightarrow> ('r DataInput, u64) io" where
  "read_uvarint_loop read 0 x s d = io_fail errOverflow d"
| "read_uvarint_loop read (Suc n) x s d =
     (case ReadByte read d of None \<Rightarrow> None
      | Some (Inl e, d) \<Rightarrow> Some (Inl (if n < 9 \<and> e = EOF then ErrUnexpectedEOF else e), d)
      | Some (Inr b, d) \<Rightarrow>
          if b < 0x80 then
            if n = 0 \<and> 1 < b then io_fail errOverflow d
            else io_return (x OR push_bit s (ucast b)) d
          else read_uvarint_loop read n (x OR push_bit s (ucast (b AND 0x7f))) (s + 7) d)"

definition ReadUvarint :: "(nat \<Rightarrow> ('r, u8 list) io) \<Rightarrow> ('r DataInput, u64) io" where
  "ReadUvarint read = read_uvarint_loop read 10 0 0"

definition ReadZInt32 :: "('r DataInput, u64) io" where
  "ReadZInt32 = io_panic"

definition ReadZInt64 :: "(nat \<Rightarrow> ('r, u8 list) io) \<Rightarrow> ('r DataInput, u64) io" where
  "ReadZInt64 read = io_bind (ReadUvarint read) (\<lambda>num. io_return (zigzag_Decode num))"

text \<open>
  \<open>ReadString\<close> reads into \<open>buff\<close> or, for a string that fills it, into a new slice; the result is
  the first \<open>length\<close> bytes of \<open>buff\<close> in both cases.
\<close>

definition ReadString :: "(nat \<Rightarrow> ('r, u8 list) io) \<Rightarrow> ('r DataInput, u8 list) io" where
  "ReadString read =
     io_bind (ReadUvarint read) (\<lambda>num d.
       if sint num < 0 then None
       else
         let len = unat num in
         if len < length (in_buff d) then read_buff read len d
         else
           io_bind (read_slice read len) (\<lambda>_ d.
             if length (in_buff d) < len then None else io_return (take len (in_buff d)) d) d)"

primrec read_map_loop ::
  "(nat \<Rightarrow> ('r, u8 list) io) \<Rightarrow> nat \<Rightarrow> (u8 list \<rightharpoonup> u8 list) \<Rightarrow> ('r DataInput, u8 list \<rightharpoonup> u8 list) io" where
  "read_map_loop read 0 m = io_return m"
| "read_map_loop read (Suc n) m =
     io_bind (ReadString read) (\<lambda>k. io_bind (ReadString read) (\<lambda>v. read_map_loop read n (m(k \<mapsto> v))))"

definition ReadMapOfStrings :: "(nat \<Rightarrow> ('r, u8 list) io) \<Rightarrow> ('r DataInput, u8 list \<rightharpoonup> u8 list) io" where
  "ReadMapOfStrings read =
     io_bind (ReadUvarint read) (\<lambda>n.
       if n = 0 then io_return Map.empty else read_map_loop read (nat (sint n)) Map.empty)"

primrec read_set_loop ::
  "(nat \<Rightarrow> ('r, u8 list) io) \<Rightarrow> nat \<Rightarrow> u8 list set \<Rightarrow> ('r DataInput, u8 list set) io" where
  "read_set_loop read 0 m = io_return m"
| "read_set_loop read (Suc n) m = io_bind (ReadString read) (\<lambda>k. read_set_loop read n (insert k m))"

definition ReadSetOfStrings :: "(nat \<Rightarrow> ('r, u8 list) io) \<Rightarrow> ('r DataInput, u8 list set) io" where
  "ReadSetOfStrings read =
     io_bind (ReadUvarint read) (\<lambda>n.
       if n = 0 then io_return {} else read_set_loop read (nat (sint n)) {})"

text \<open>\<open>SkipBytes\<close> reads and drops chunks of at most 1024 bytes.\<close>

function skip_loop :: "(nat \<Rightarrow> ('r, u8 list) io) \<Rightarrow> nat \<Rightarrow> ('r DataInput, unit) io" where
  "skip_loop read n =
     (if n = 0 then io_return ()
      else io_bind (read_slice read (min 1024 n)) (\<lambda>_. skip_loop read (n - min 1024 n)))"
  by pat_completeness auto
termination by (relation "measure (\<lambda>(read, n). n)") auto

declare skip_loop.simps [simp del]

definition SkipBytes :: "(nat \<Rightarrow> ('r, u8 list) io) \<Rightarrow> int \<Rightarrow> ('r DataInput, unit) io" where
  "SkipBytes read numBytes =
     (if numBytes < 0 then io_fail (Err ''numBytes must be >= 0'') else skip_loop read (nat numBytes))"

subsection \<open>Output\<close>

text \<open>
  \<open>BaseDataOutput\<close> over a writer: \<open>write bs\<close> is a call of \<open>Write\<close>. The bytes of \<open>buffer\<close> are
  always stored before they are written, so the buffer is not part of the state.
\<close>

definition WriteByte :: "(u8 list \<Rightarrow> ('w, unit) io) \<Rightarrow> u8 \<Rightarrow> ('w, unit) io" where
  "WriteByte write c = write [c]"

definition WriteUint16 :: "(u8 list \<Rightarrow> ('w, unit) io) \<Rightarrow> u16 \<Rightarrow> ('w, unit) io" where
  "WriteUint16 write i = write (put_uint 2 i)"

definition WriteUint32 :: "(u8 list \<Rightarrow> ('w, unit) io) \<Rightarrow> u32 \<Rightarrow> ('w, unit) io" where
  "WriteUint32 write i = write (put_uint 4 i)"

definition WriteUint64 :: "(u8 list \<Rightarrow> ('w, unit) io) \<Rightarrow> u64 \<Rightarrow> ('w, unit) io" where
  "WriteUint64 write i = write (put_uint 8 i)"

definition WriteUvarint :: "(u8 list \<Rightarrow> ('w, unit) io) \<Rightarrow> u64 \<Rightarrow> ('w, unit) io" where
  "WriteUvarint write i = write (put_uvarint i)"

definition WriteZInt32 :: "u32 \<Rightarrow> ('w, unit) io" where
  "WriteZInt32 i = io_panic"

definition WriteZInt64 :: "(u8 list \<Rightarrow> ('w, unit) io) \<Rightarrow> u64 \<Rightarrow> ('w, unit) io" where
  "WriteZInt64 write i = WriteUvarint write (zigzag_Encode i)"

text \<open>
  \<open>len([]rune(s))\<close>: the number of UTF-8 sequences of the bytes of \<open>s\<close>; a byte that does not start
  a valid sequence is a rune of its own.
\<close>

definition continues :: "u8 list \<Rightarrow> nat \<Rightarrow> bool" where
  "continues bs n \<longleftrightarrow> n \<le> length bs \<and> (\<forall>b \<in> set (take n bs). 0x80 \<le> b \<and> b \<le> 0xBF)"

definition second_byte_ok :: "u8 \<Rightarrow> u8 \<Rightarrow> bool" where
  "second_byte_ok b c \<longleftrightarrow>
     (if b = 0xE0 then 0xA0 \<le> c else if b = 0xED then c \<le> 0x9F
      else if b = 0xF0 then 0x90 \<le> c else if b = 0xF4 then c \<le> 0x8F else True)"

definition rune_size :: "u8 \<Rightarrow> u8 list \<Rightarrow> nat" where
  "rune_size b bs =
     (let n = (if 0xC2 \<le> b \<and> b \<le> 0xDF then 1 else if 0xE0 \<le> b \<and> b \<le> 0xEF then 2
               else if 0xF0 \<le> b \<and> b \<le> 0xF4 then 3 else 0) in
      if 0 < n \<and> continues bs n \<and> second_byte_ok b (hd bs) then n + 1 else 1)"

function rune_count :: "u8 list \<Rightarrow> nat" where
  "rune_count [] = 0"
| "rune_count (b # bs) = 1 + rune_count (drop (rune_size b bs - 1) bs)"
  by pat_completeness auto
termination by (relation "measure length") auto

definition WriteString :: "(u8 list \<Rightarrow> ('w, unit) io) \<Rightarrow> u8 list \<Rightarrow> ('w, unit) io" where
  "WriteString write s =
     io_bind (WriteUvarint write (of_nat (rune_count s))) (\<lambda>_. write s)"

text \<open>The order in which \<open>range\<close> visits a map is up to the run; \<open>kvs\<close> lists the entries in it.\<close>

primrec write_map_loop :: "(u8 list \<Rightarrow> ('w, unit) io) \<Rightarrow> (u8 list \<times> u8 list) list \<Rightarrow> ('w, unit) io" where
  "write_map_loop write [] = io_return ()"
| "write_map_loop write (kv # kvs) =
     io_bind (WriteString write (fst kv)) (\<lambda>_.
       io_bind (WriteString write (snd kv)) (\<lambda>_. write_map_loop write kvs))"

definition WriteMapOfStrings :: "(u8 list \<Rightarrow> ('w, unit) io) \<Rightarrow> (u8 list \<times> u8 list) list \<Rightarrow> ('w, unit) io" where
  "WriteMapOfStrings write kvs =
     io_bind (WriteUvarint write (of_nat (length kvs))) (\<lambda>_. write_map_loop write kvs)"

primrec write_set_loop :: "(u8 list \<Rightarrow> ('w, unit) io) \<Rightarrow> u8 list list \<Rightarrow> ('w, unit) io" where
  "write_set_loop write [] = io_return ()"
| "write_set_loop write (k # ks) = io_bind (WriteString write k) (\<lambda>_. write_set_loop write ks)"

definition WriteSetOfStrings :: "(u8 list \<Rightarrow> ('w, unit) io) \<Rightarrow> u8 list list \<Rightarrow> ('w, unit) io" where
  "WriteSetOfStrings write ks =
     io_bind (WriteUvarint write (of_nat (length ks))) (\<lambda>_. write_set_loop write ks)"

text \<open>
  \<open>CopyBytes\<close>: chunks of at most 16384 bytes through \<open>copyBuffer\<close>, of which a short read leaves the
  tail as it was. The state is the input, the writer and the buffer.
\<close>

function copy_loop ::
  "(nat \<Rightarrow> ('r, u8 list) io) \<Rightarrow> (u8 list \<Rightarrow> ('w, unit) io) \<Rightarrow> nat \<Rightarrow> ('r \<times> 'w \<times> u8 list, unit) io" where
  "copy_loop read write left (r, w, copyBuffer) =
     (if left = 0 then Some (Inr (), (r, w, copyBuffer))
      else
        let toCopy = (if 16384 < left then 16384 else left) in
        case read toCopy r of None \<Rightarrow> None
        | Some (Inl e, r) \<Rightarrow> Some (Inl e, (r, w, copyBuffer))
        | Some (Inr bs, r) \<Rightarrow>
            let copyBuffer = bs @ drop (length bs) copyBuffer in
            case write (take toCopy copyBuffer) w of None \<Rightarrow> None
            | Some (Inl e, w) \<Rightarrow> Some (Inl e, (r, w, copyBuffer))
            | Some (Inr _, w) \<Rightarrow> copy_loop read write (left - toCopy) (r, w, copyBuffer))"
  by pat_completeness auto
termination by (relation "measure (\<lambda>(read, write, left, s). left)") auto

declare copy_loop.simps [simp del]

definition CopyBytes ::
  "(nat \<Rightarrow> ('r, u8 list) io) \<Rightarrow> (u8 list \<Rightarrow> ('w, unit) io) \<Rightarrow> int \<Rightarrow> ('r \<times> 'w \<times> u8 list, unit) io" where
  "CopyBytes read write numBytes s =
     (case s of (r, w, copyBuffer) \<Rightarrow>
        copy_loop read write (nat numBytes)
          (r, w, if copyBuffer = [] then replicate 16384 0 else copyBuffer))"

subsection \<open>Readers and writers\<close>

record BytesInput =
  bi_bs :: "u8 list"
  bi_pos :: int

definition NewBytesInput :: "u8 list \<Rightarrow> BytesInput" where
  "NewBytesInput bs = \<lparr>bi_bs = bs, bi_pos = 0\<rparr>"

text \<open>
  The capacity of a slice is taken to be its length, so that slicing outside of it panics. A read at the end
  stores nothing and is no error.
\<close>

definition BytesInput_Read :: "nat \<Rightarrow> (BytesInput, u8 list) io" where
  "BytesInput_Read k b =
     (let less = int (length (bi_bs b)) - bi_pos b;
          copySize = (if less < int k then less else int k) in
      if bi_pos b < 0 \<or> copySize < 0 then None
      else Some (Inr (take (nat copySize) (drop (nat (bi_pos b)) (bi_bs b))), b\<lparr>bi_pos := bi_pos b + copySize\<rparr>))"

datatype Whence = SeekStart | SeekCurrent | SeekEnd

definition BytesInput_Seek :: "int \<Rightarrow> Whence \<Rightarrow> BytesInput \<Rightarrow> int \<times> BytesInput" where
  "BytesInput_Seek offset whence b =
     (let pos = (case whence of SeekStart \<Rightarrow> offset | SeekCurrent \<Rightarrow> bi_pos b + offset
                 | SeekEnd \<Rightarrow> int (length (bi_bs b)) - offset - 1) in
      (pos, b\<lparr>bi_pos := pos\<rparr>))"

definition BytesInput_Slice :: "int \<Rightarrow> int \<Rightarrow> BytesInput \<Rightarrow> BytesInput option" where
  "BytesInput_Slice offset len b =
     (if 0 \<le> offset \<and> 0 \<le> len \<and> offset + len \<le> int (length (bi_bs b))
      then Some (NewBytesInput (take (nat len) (drop (nat offset) (bi_bs b)))) else None)"

record BytesOutput =
  bo_bytes :: "u8 list"
  bo_pos :: nat

definition NewBytesDataOutput :: "u8 list \<Rightarrow> BytesOutput" where
  "NewBytesDataOutput bs = \<lparr>bo_bytes = bs, bo_pos = 0\<rparr>"

definition BytesOutput_Write :: "u8 list \<Rightarrow> (BytesOutput, unit) io" where
  "BytesOutput_Write b r =
     (if length (bo_bytes r) < bo_pos r + length b then Some (Inl (Err ''input data too long''), r)
      else Some (Inr (), r\<lparr>bo_bytes := write_block (bo_bytes r) (bo_pos r) b, bo_pos := bo_pos r + length b\<rparr>))"

definition BytesOutput_ResetAt :: "u8 list \<Rightarrow> nat \<Rightarrow> nat \<Rightarrow> (BytesOutput, unit) io" where
  "BytesOutput_ResetAt bs offset len r =
     (if length bs \<le> offset then Some (Inl (Err ''offset over len(bytes)''), r)
      else if length bs < offset + len then None
      else Some (Inr (), \<lparr>bo_bytes = take len (drop offset bs), bo_pos = 0\<rparr>))"

text \<open>\<open>bytes.Buffer\<close> as the unread bytes: a read of an empty buffer is EOF, a write appends.\<close>

definition Buffer_Read :: "nat \<Rightarrow> (u8 list, u8 list) io" where
  "Buffer_Read k b =
     (if b = [] \<and> 0 < k then Some (Inl EOF, b) else Some (Inr (take k b), drop k b))"

definition Buffer_Write :: "u8 list \<Rightarrow> (u8 list, unit) io" where
  "Buffer_Write p b = Some (Inr (), b @ p)"

end
