(* ===== verification/Data_IO_Correct.thy ===== *)
theory Data_IO_Correct
  imports Data_IO
begin

text \<open>
  Correctness of the byte-level encoding: the laws of the readers and writers as the locales
  \<open>data_source\<close> and \<open>data_sink\<close>, the round trip of every type of value, and the limits of
  strings and of the end of the input.
\<close>

subsection \<open>Zig-zag\<close>

lemma bit_sign_word: "bit (signed_drop_bit 63 (x :: u64)) n \<longleftrightarrow> n < 64 \<and> bit x 63"
proof (cases "n = 0 \<or> 64 \<le> n")
  case True
  then show ?thesis
    using bit_u64_less [of "signed_drop_bit 63 x" n] by (auto simp: bit_signed_drop_bit_iff)
next
  case False
  then show ?thesis
    using bit_u64_less [of x "63 + n"] by (auto simp: bit_signed_drop_bit_iff)
qed

lemma bit_zigzag_Encode:
  "bit (zigzag_Encode x) n \<longleftrightarrow> n < 64 \<and> (if n = 0 then bit x 63 else bit x (n - 1) \<noteq> bit x 63)"
  unfolding zigzag_Encode_def bit_xor_iff bit_sign_word bit_push_bit_iff by (auto simp: not_less)

lemma bit_zigzag_Decode:
  "bit (zigzag_Decode x) n \<longleftrightarrow> n < 64 \<and> (if n = 63 then bit x 0 else bit x (Suc n) \<noteq> bit x 0)"
proof -
  have "bit (push_bit 63 x) 63 \<longleftrightarrow> bit x 0"
    by (simp add: bit_push_bit_iff)
  moreover have "\<not> bit x (Suc n)" if "63 \<le> n"
    using that bit_u64_less [of x "Suc n"] by auto
  ultimately show ?thesis
    unfolding zigzag_Decode_def bit_xor_iff bit_sign_word bit_drop_bit_eq o_def
    by (cases "n < 63") (auto simp: not_less)
qed

lemma zigzag_Decode_Encode: "zigzag_Decode (zigzag_Encode x) = x"
  by (rule bit_word_eqI) (auto simp: bit_zigzag_Encode bit_zigzag_Decode split: if_splits)

lemma zigzag_Encode_Decode: "zigzag_Encode (zigzag_Decode x) = x"
  by (rule bit_word_eqI) (auto simp: bit_zigzag_Encode bit_zigzag_Decode split: if_splits)

lemma zigzag_Encode_uint:
  "uint (zigzag_Encode x) = (if 0 \<le> sint x then 2 * sint x else - 2 * sint x - 1)"
proof -
  have dbl: "uint (push_bit 1 x) = (2 * uint x) mod 2 ^ 64"
    by (simp only: unsigned_push_bit_eq) (simp add: push_bit_eq_mult take_bit_eq_mod mult.commute)
  have u: "0 \<le> uint x" "uint x < 2 ^ 64"
    using uint_lt2p [of x] by simp_all
  have msb: "bit x 63 \<longleftrightarrow> 2 ^ 63 \<le> uint x"
  proof -
    have "uint x div 2 ^ 63 = (if 2 ^ 63 \<le> uint x then 1 else 0)"
      using u by (auto intro: int_div_pos_eq [of _ _ _ "uint x - 2 ^ 63"] div_pos_pos_trivial)
    moreover have "bit x 63 \<longleftrightarrow> odd (uint x div 2 ^ 63)"
      unfolding bit_iff_odd [symmetric] by (simp add: bit_uint_iff)
    ultimately show ?thesis
      by simp
  qed
  have t: "take_bit 64 (uint y) = uint y" for y :: u64
    using uint_lt2p [of y] by (simp add: take_bit_int_eq_self)
  show ?thesis
  proof (cases "bit x 63")
    case False
    have "zigzag_Encode x = push_bit 1 x"
      using False by (intro bit_word_eqI) (simp add: zigzag_Encode_def bit_xor_iff bit_sign_word)
    moreover have "sint x = uint x"
      using False by (simp add: sint_uint signed_take_bit_eq_take_bit_minus bit_uint_iff t)
    ultimately show ?thesis
      using dbl u False msb by simp
  next
    case True
    have "zigzag_Encode x = NOT (push_bit 1 x)"
      using True by (intro bit_word_eqI) (simp add: zigzag_Encode_def bit_xor_iff bit_sign_word bit_not_iff)
    moreover have "uint (NOT (push_bit 1 x)) = 2 ^ 64 - 1 - uint (push_bit 1 x)"
      by (simp add: uint_word_of_int_eq unsigned_not_eq take_bit_not_eq_mask_diff mask_eq_exp_minus_1 t)
    moreover have "sint x = uint x - 2 ^ 64"
      using True by (simp add: sint_uint signed_take_bit_eq_take_bit_minus bit_uint_iff t)
    moreover have "(2 * uint x) mod 2 ^ 64 = 2 * uint x - 2 ^ 64"
      using u True msb by (intro int_mod_pos_eq [of _ _ 1]) simp_all
    ultimately show ?thesis
      using dbl u True msb by simp
  qed
qed

subsection \<open>Integers\<close>

lemma length_put_uint [simp]: "length (put_uint n w) = n"
  by (simp add: put_uint_def)

lemma bit_get_uint:
  "bit (get_uint bs :: 'a::len word) j \<longleftrightarrow>
     j < LENGTH('a) \<and> j < 8 * length bs \<and> bit (bs ! (length bs - 1 - j div 8)) (j mod 8)"
proof (induction bs arbitrary: j rule: rev_induct)
  case Nil
  then show ?case
    by (simp add: get_uint_def)
next
  case (snoc b bs)
  have "bit (get_uint (bs @ [b]) :: 'a word) j \<longleftrightarrow>
      j < LENGTH('a) \<and> (8 \<le> j \<and> bit (get_uint bs :: 'a word) (j - 8) \<or> bit b j)"
    by (auto simp: get_uint_def bit_simps)
  also have "\<dots> \<longleftrightarrow> j < LENGTH('a) \<and> j < 8 * length (bs @ [b]) \<and>
      bit ((bs @ [b]) ! (length (bs @ [b]) - 1 - j div 8)) (j mod 8)"
  proof (cases "j < 8")
    case True
    then show ?thesis
      by simp
  next
    case False
    define q n where "q = j div 8" and "n = length bs"
    have q: "(j - 8) div 8 = q - 1" "(j - 8) mod 8 = j mod 8" "1 \<le> q"
      using False by (simp_all add: q_def le_div_geq le_mod_geq)
    have "bit (get_uint bs :: 'a word) (j - 8) \<longleftrightarrow>
        j - 8 < LENGTH('a) \<and> j - 8 < 8 * n \<and> bit (bs ! (n - 1 - (q - 1))) (j mod 8)"
      unfolding snoc.IH [of "j - 8"] q n_def ..
    moreover have "n - 1 - (q - 1) = n - q"
      using q(3) by simp
    moreover have "(bs @ [b]) ! (n - q) = bs ! (n - q)" if "j - 8 < 8 * n"
      using that q(3) by (cases n) (auto simp: nth_append n_def)
    moreover have "\<not> bit b j"
      using False bit_u8_less [of b j] by auto
    moreover have "j - 8 < 8 * n \<longleftrightarrow> j < 8 * length (bs @ [b])"
      using False by (auto simp: n_def)
    moreover have "length (bs @ [b]) - 1 - j div 8 = n - q"
      by (simp add: n_def q_def)
    ultimately show ?thesis
      using False by auto
  qed
  finally show ?case .
qed

lemma get_put_uint:
  assumes "LENGTH('a) = 8 * n"
  shows "get_uint (put_uint n (w :: 'a::len word)) = w"
proof (rule bit_word_eqI)
  fix j
  assume "j < LENGTH('a)"
  then have j: "j < 8 * n" "j div 8 < n"
    using assms by auto
  then have "n - Suc (n - Suc (j div 8)) = j div 8"
    by simp
  then have "put_uint n w ! (n - 1 - j div 8) = ucast (drop_bit (8 * (j div 8)) w)"
    using j by (simp add: put_uint_def)
  moreover have "8 * (j div 8) + j mod 8 = j"
    by simp
  ultimately show "bit (get_uint (put_uint n w) :: 'a word) j = bit w j"
    using j assms by (simp add: bit_get_uint bit_simps)
qed


subsection \<open>Variable-length integers\<close>

lemma put_uvarint_small: "x < 0x80 \<Longrightarrow> put_uvarint x = [ucast x]"
  by (simp add: put_uvarint.simps)

lemma put_uvarint_large:
  "\<not> x < 0x80 \<Longrightarrow> put_uvarint x = (ucast x OR 0x80) # put_uvarint (drop_bit 7 x)"
  by (subst put_uvarint.simps) simp

lemma put_uvarint_ne [simp]: "put_uvarint x \<noteq> []"
  by (cases "x < 0x80") (simp_all add: put_uvarint_small put_uvarint_large)

lemma unat_drop_bit_7: "unat (drop_bit 7 (x :: u64)) = unat x div 128"
  by (simp add: drop_bit_eq_div unat_div)

lemma length_put_uvarint_le: "length (put_uvarint x) \<le> Suc k \<longleftrightarrow> unat x < 2 ^ (7 * Suc k)"
proof (induction k arbitrary: x)
  case 0
  then show ?case
    by (cases "x < 0x80") (auto simp: put_uvarint_small put_uvarint_large word_less_nat_alt)
next
  case (Suc k)
  have e: "unat x < 2 ^ (7 * Suc (Suc k)) \<longleftrightarrow> unat x div 128 < 2 ^ (7 * Suc k)"
    by (simp add: div_less_iff_less_mult power_add)
  show ?case
  proof (cases "x < 0x80")
    case True
    then have "unat x < 128"
      by (simp add: word_less_nat_alt)
    moreover have "(128 :: nat) \<le> 2 ^ (7 * Suc (Suc k))"
      using power_increasing [of 7 "7 * Suc (Suc k)" "2 :: nat"] by simp
    ultimately show ?thesis
      using True by (simp add: put_uvarint_small)
  next
    case False
    then show ?thesis
      using Suc.IH [of "drop_bit 7 x"] unfolding e by (simp add: put_uvarint_large unat_drop_bit_7)
  qed
qed

text \<open>The first byte of a long encoding, and the seven bits it carries.\<close>

lemma bit_0x80: "bit (0x80 :: u8) j \<longleftrightarrow> j = 7"
proof -
  have "(0x80 :: u8) = push_bit 7 1"
    by (simp add: push_bit_eq_mult)
  then show ?thesis
    unfolding \<open>0x80 = push_bit 7 1\<close> by (simp only: bit_push_bit_iff bit_1_iff) auto
qed

lemma uvarint_first_byte:
  fixes x :: u64
  defines "b \<equiv> ucast x OR 0x80 :: u8"
  shows "\<not> b < 0x80" "ucast (b AND 0x7f) = take_bit 7 x"
proof -
  have "bit b 7"
    by (simp add: b_def bit_or_iff bit_0x80)
  show "\<not> b < 0x80"
  proof
    assume "b < 0x80"
    then have "unat b < 2 ^ 7"
      by (simp add: word_less_nat_alt)
    then show False
      using bit_high_zero [of b 7 7] \<open>bit b 7\<close> by simp
  qed
  have m: "(0x7f :: u8) = mask 7"
    by (simp add: mask_eq_exp_minus_1)
  show "ucast (b AND 0x7f) = take_bit 7 x"
    unfolding m b_def
    by (rule bit_word_eqI, unfold bit_ucast_iff bit_and_iff bit_or_iff bit_mask_iff bit_0x80 bit_take_bit_iff) auto
qed

lemma uvarint_split:
  fixes v x :: u64
  shows "(x OR push_bit s (take_bit 7 v)) OR push_bit (s + 7) (drop_bit 7 v) = x OR push_bit s v"
proof (rule bit_word_eqI)
  fix n
  assume "n < LENGTH(64)"
  have "7 + (n - (s + 7)) = n - s" if "s + 7 \<le> n"
    using that by simp
  then show "bit ((x OR push_bit s (take_bit 7 v)) OR push_bit (s + 7) (drop_bit 7 v)) n = bit (x OR push_bit s v) n"
    by (cases "s + 7 \<le> n") (auto simp: bit_or_iff bit_push_bit_iff bit_take_bit_iff bit_drop_bit_eq)
qed

subsection \<open>Sources of bytes\<close>

text \<open>
  What the input relies on: as long as enough bytes are left, a read delivers exactly the next ones.
\<close>

locale data_source =
  fixes read :: "nat \<Rightarrow> ('r, u8 list) io"
    and stream :: "'r \<Rightarrow> u8 list"
    and ok :: "'r \<Rightarrow> bool"
  assumes read_prefix: "ok r \<Longrightarrow> k \<le> length (stream r) \<Longrightarrow>
      \<exists>r'. read k r = Some (Inr (take k (stream r)), r') \<and> ok r' \<and> stream r' = drop k (stream r)"
begin

text \<open>An input in a good state, with \<open>bs\<close> still to be read.\<close>

definition holds :: "'r DataInput \<Rightarrow> u8 list \<Rightarrow> bool" where
  "holds d bs \<longleftrightarrow> ok (in_reader d) \<and> stream (in_reader d) = bs \<and> length (in_buff d) = 48"

text \<open>\<open>decodes f bs x\<close>: on an input that starts with \<open>bs\<close>, \<open>f\<close> consumes \<open>bs\<close> and returns \<open>x\<close>.\<close>

definition decodes :: "('r DataInput, 'b) io \<Rightarrow> u8 list \<Rightarrow> 'b \<Rightarrow> bool" where
  "decodes f bs x \<longleftrightarrow> (\<forall>d rest. holds d (bs @ rest) \<longrightarrow> (\<exists>d'. f d = Some (Inr x, d') \<and> holds d' rest))"

lemma decodesD:
  assumes "decodes f bs x" and "holds d (bs @ rest)"
  obtains d' where "f d = Some (Inr x, d')" and "holds d' rest"
  using assms unfolding decodes_def by blast

lemma decodes_return [simp]: "decodes (io_return x) [] x"
  by (simp add: decodes_def io_return_def)

lemma decodes_bind:
  assumes "decodes f bs x" and "decodes (g x) cs y"
  shows "decodes (io_bind f g) (bs @ cs) y"
  unfolding decodes_def
proof (intro allI impI)
  fix d rest
  assume "holds d ((bs @ cs) @ rest)"
  then have "holds d (bs @ cs @ rest)"
    by simp
  from decodesD [OF assms(1) this] obtain d1 where d1: "f d = Some (Inr x, d1)" "holds d1 (cs @ rest)" .
  from decodesD [OF assms(2) d1(2)] obtain d2 where "g x d1 = Some (Inr y, d2)" "holds d2 rest" .
  then show "\<exists>d'. io_bind f g d = Some (Inr y, d') \<and> holds d' rest"
    using d1 by (simp add: io_simps)
qed

lemma decodes_map: "decodes f bs x \<Longrightarrow> decodes (io_bind f (\<lambda>x. io_return (h x))) bs (h x)"
  using decodes_bind [of f bs x "\<lambda>x. io_return (h x)" "[]"] by simp

lemma read_slice_holds:
  assumes "holds d (bs @ rest)"
  shows "\<exists>d'. read_slice read (length bs) d = Some (Inr bs, d') \<and> holds d' rest \<and> in_buff d' = in_buff d"
proof -
  obtain r where "read (length bs) (in_reader d) = Some (Inr bs, r)" "ok r" "stream r = rest"
    using read_prefix [of "in_reader d" "length bs"] assms by (auto simp: holds_def)
  then show ?thesis
    using assms by (simp add: read_slice_def holds_def)
qed

lemma read_buff_decodes:
  assumes "length bs \<le> 48"
  shows "decodes (read_buff read (length bs)) bs bs"
  unfolding decodes_def
proof (intro allI impI)
  fix d rest
  assume "holds d (bs @ rest)"
  from read_slice_holds [OF this] obtain d' where
    "read_slice read (length bs) d = Some (Inr bs, d')" "holds d' rest"
    by blast
  then show "\<exists>d'. read_buff read (length bs) d = Some (Inr bs, d') \<and> holds d' rest"
    using assms by (simp add: read_buff_def io_simps Let_def holds_def)
qed

lemma ReadByte_decodes: "decodes (ReadByte read) [b] b"
  using decodes_map [OF read_buff_decodes, of "[b]" hd] by (simp add: ReadByte_def)

lemma read_uint_decodes:
  assumes "LENGTH('b::len) = 8 * n" and "n \<le> 48"
  shows "decodes (io_bind (read_buff read n) (\<lambda>bs. io_return (get_uint bs))) (put_uint n w) (w :: 'b word)"
  using decodes_map [OF read_buff_decodes, of "put_uint n w" "get_uint :: u8 list \<Rightarrow> 'b word"] assms get_put_uint [OF assms(1), of w]
  by simp

lemma ReadUint16_decodes: "decodes (ReadUint16 read) (put_uint 2 w) w"
  unfolding ReadUint16_def by (rule read_uint_decodes) simp_all

lemma ReadUint32_decodes: "decodes (ReadUint32 read) (put_uint 4 w) w"
  unfolding ReadUint32_def by (rule read_uint_decodes) simp_all

lemma ReadUint64_decodes: "decodes (ReadUint64 read) (put_uint 8 w) w"
  unfolding ReadUint64_def by (rule read_uint_decodes) simp_all

lemma read_uvarint_loop_decodes:
  assumes "unat v < 2 ^ (64 - s)" and "s + 7 * n = 70" and "0 < n"
  shows "decodes (read_uvarint_loop read n x s) (put_uvarint v) (x OR push_bit s v)"
  using assms
proof (induction n arbitrary: x s v)
  case (Suc n)
  show ?case
    unfolding decodes_def
  proof (intro allI impI)
    fix d rest
    assume h: "holds d (put_uvarint v @ rest)"
    show "\<exists>d'. read_uvarint_loop read (Suc n) x s d = Some (Inr (x OR push_bit s v), d') \<and> holds d' rest"
    proof (cases "v < 0x80")
      case True
      then have "holds d ([ucast v] @ rest)"
        using h by (simp add: put_uvarint_small)
      from decodesD [OF ReadByte_decodes this] obtain d' where
        d': "ReadByte read d = Some (Inr (ucast v), d')" "holds d' rest" .
      have u: "unat (ucast v :: u8) = unat v"
        using True by (simp add: word_less_nat_alt unsigned_ucast_eq take_bit_nat_eq_self)
      moreover have "take_bit 8 v = v"
        using True unat_less_exp_iff_take_bit [of 8 v] by (simp add: word_less_nat_alt)
      ultimately have v: "(ucast v :: u8) < 0x80" "ucast (ucast v :: u8) = v"
        using True by (simp_all add: word_less_nat_alt unsigned_ucast_eq)
      have "\<not> 1 < (ucast v :: u8)" if "n = 0"
        using Suc.prems(1,2) u that by (simp add: word_less_nat_alt)
      then show ?thesis
        using d' v by (auto simp: io_return_def)
    next
      case False
      define b where "b = (ucast v OR 0x80 :: u8)"
      have n: "0 < n" "s + 7 + 7 * n = 70"
        using False Suc.prems by (auto simp: word_less_nat_alt intro!: Nat.gr0I)
      have "64 - s = 7 + (64 - (s + 7))"
        using n by simp
      then have "unat v < 128 * 2 ^ (64 - (s + 7))"
        using Suc.prems(1) by (simp only: power_add) simp
      then have v: "unat (drop_bit 7 v) < 2 ^ (64 - (s + 7))"
        by (simp only: unat_drop_bit_7 div_less_iff_less_mult zero_less_numeral mult.commute)
      have "holds d ([b] @ put_uvarint (drop_bit 7 v) @ rest)"
        using h False by (simp add: put_uvarint_large b_def)
      from decodesD [OF ReadByte_decodes this] obtain d1 where
        d1: "ReadByte read d = Some (Inr b, d1)" "holds d1 (put_uvarint (drop_bit 7 v) @ rest)" .
      from decodesD [OF Suc.IH [OF v n(2,1), of "x OR push_bit s (take_bit 7 v)"] d1(2)]
      obtain d' where d': "read_uvarint_loop read n (x OR push_bit s (take_bit 7 v)) (s + 7) d1 =
          Some (Inr (x OR push_bit s v), d')" "holds d' rest"
        unfolding uvarint_split .
      have "read_uvarint_loop read (Suc n) x s d =
          read_uvarint_loop read n (x OR push_bit s (take_bit 7 v)) (s + 7) d1"
        using d1(1) uvarint_first_byte [of v, folded b_def] by simp
      then show ?thesis
        using d' by simp
    qed
  qed
qed simp

end


subsection \<open>Strings, maps and sets\<close>

definition ascii :: "u8 list \<Rightarrow> bool" where
  "ascii s \<longleftrightarrow> (\<forall>b \<in> set s. b < 0x80)"

text \<open>The strings that fit \<open>buff\<close>, and whose length is the number of their runes.\<close>

definition short_ascii :: "u8 list \<Rightarrow> bool" where
  "short_ascii s \<longleftrightarrow> ascii s \<and> length s < 48"

definition put_string :: "u8 list \<Rightarrow> u8 list" where
  "put_string s = put_uvarint (of_nat (rune_count s)) @ s"

lemma rune_count_ascii: "ascii s \<Longrightarrow> rune_count s = length s"
proof (induction s)
  case (Cons b s)
  have "b < 0x80"
    using Cons.prems by (simp add: ascii_def)
  then have "\<not> 0xC2 \<le> b" "\<not> 0xE0 \<le> b" "\<not> 0xF0 \<le> b"
    by (simp_all add: word_less_nat_alt word_le_nat_alt)
  then have "rune_size b s = 1"
    by (simp add: rune_size_def)
  then show ?case
    using Cons by (simp add: ascii_def)
qed simp

definition put_strings :: "u8 list list \<Rightarrow> u8 list" where
  "put_strings ss = concat (map put_string ss)"

definition put_entries :: "(u8 list \<times> u8 list) list \<Rightarrow> u8 list" where
  "put_entries kvs = concat (map (\<lambda>kv. put_string (fst kv) @ put_string (snd kv)) kvs)"

lemma unat_of_nat_u64: "n < 2 ^ 63 \<Longrightarrow> unat (of_nat n :: u64) = n"
  by (simp add: unsigned_of_nat take_bit_nat_eq_self)

lemma sint_of_nat_u64: "n < 2 ^ 63 \<Longrightarrow> sint (of_nat n :: u64) = int n"
  by (simp add: signed_of_nat signed_take_bit_int_eq_self)

lemma of_nat_u64_eq_0: "n < 2 ^ 63 \<Longrightarrow> (of_nat n :: u64) = 0 \<longleftrightarrow> n = 0"
  using unat_of_nat_u64 [of n] by auto

context data_source
begin

lemma ReadUvarint_decodes: "decodes (ReadUvarint read) (put_uvarint v) v"
  using read_uvarint_loop_decodes [of v 0 10 0] unsigned_less [of v] by (simp add: ReadUvarint_def)

lemma ReadZInt64_decodes: "decodes (ReadZInt64 read) (put_uvarint (zigzag_Encode v)) v"
  using decodes_map [OF ReadUvarint_decodes [of "zigzag_Encode v"], of zigzag_Decode]
  by (simp add: ReadZInt64_def zigzag_Decode_Encode)

lemma ReadString_decodes:
  assumes "short_ascii s"
  shows "decodes (ReadString read) (put_string s) s"
proof -
  have len: "rune_count s = length s" "length s < 48"
    using assms by (simp_all add: short_ascii_def rune_count_ascii)
  have "decodes (\<lambda>d. if sint (of_nat (length s) :: u64) < 0 then None
      else
        let len = unat (of_nat (length s) :: u64) in
        if len < length (in_buff d) then read_buff read len d
        else
          io_bind (read_slice read len) (\<lambda>_ d.
            if length (in_buff d) < len then None else io_return (take len (in_buff d)) d) d) s s"
    using read_buff_decodes [of s] len sint_of_nat_u64 [of "length s"] unat_of_nat_u64 [of "length s"]
    by (simp add: decodes_def holds_def)
  then show ?thesis
    unfolding ReadString_def put_string_def len by (rule decodes_bind [OF ReadUvarint_decodes])
qed

lemma read_map_loop_decodes:
  assumes "\<And>k v. (k, v) \<in> set kvs \<Longrightarrow> short_ascii k \<and> short_ascii v"
  shows "decodes (read_map_loop read (length kvs) m) (put_entries kvs) (m ++ map_of (rev kvs))"
  using assms
proof (induction kvs arbitrary: m)
  case Nil
  then show ?case
    by (simp add: put_entries_def)
next
  case (Cons kv kvs)
  obtain k v where kv: "kv = (k, v)"
    by (cases kv)
  have k: "short_ascii k" "short_ascii v"
    using Cons.prems [of k v] by (simp_all add: kv)
  have rest: "decodes (read_map_loop read (length kvs) (m(k \<mapsto> v))) (put_entries kvs) (m(k \<mapsto> v) ++ map_of (rev kvs))"
    by (intro Cons.IH Cons.prems) simp
  have "m(k \<mapsto> v) ++ map_of (rev kvs) = m ++ map_of (rev (kv # kvs))"
    by (simp add: kv map_add_upd_left)
  moreover have "decodes (read_map_loop read (Suc (length kvs)) m)
      (put_string k @ put_string v @ put_entries kvs) (m(k \<mapsto> v) ++ map_of (rev kvs))"
    unfolding read_map_loop.simps
    by (rule decodes_bind, rule ReadString_decodes [OF k(1)], rule decodes_bind,
      rule ReadString_decodes [OF k(2)], rule rest)
  ultimately show ?case
    by (simp add: put_entries_def kv)
qed

lemma read_set_loop_decodes:
  assumes "\<And>k. k \<in> set ks \<Longrightarrow> short_ascii k"
  shows "decodes (read_set_loop read (length ks) S) (put_strings ks) (S \<union> set ks)"
  using assms
proof (induction ks arbitrary: S)
  case Nil
  then show ?case
    by (simp add: put_strings_def)
next
  case (Cons k ks)
  have "decodes (read_set_loop read (length ks) (insert k S)) (put_strings ks) (insert k S \<union> set ks)"
    using Cons.prems by (intro Cons.IH) simp
  moreover have "short_ascii k"
    using Cons.prems by simp
  ultimately have "decodes (read_set_loop read (Suc (length ks)) S) (put_string k @ put_strings ks) (insert k S \<union> set ks)"
    unfolding read_set_loop.simps by (intro decodes_bind [OF ReadString_decodes])
  then show ?case
    by (simp add: put_strings_def)
qed

lemma ReadMapOfStrings_decodes:
  assumes "\<And>k v. (k, v) \<in> set kvs \<Longrightarrow> short_ascii k \<and> short_ascii v" and "length kvs < 2 ^ 63"
  shows "decodes (ReadMapOfStrings read) (put_uvarint (of_nat (length kvs)) @ put_entries kvs) (map_of (rev kvs))"
proof -
  have "decodes (if (of_nat (length kvs) :: u64) = 0 then io_return Map.empty
      else read_map_loop read (nat (sint (of_nat (length kvs) :: u64))) Map.empty)
    (put_entries kvs) (map_of (rev kvs))"
    using read_map_loop_decodes [of kvs Map.empty] assms sint_of_nat_u64 [OF assms(2)] of_nat_u64_eq_0 [OF assms(2)]
    by (auto simp: put_entries_def)
  then show ?thesis
    unfolding ReadMapOfStrings_def by (rule decodes_bind [OF ReadUvarint_decodes])
qed

lemma ReadSetOfStrings_decodes:
  assumes "\<And>k. k \<in> set ks \<Longrightarrow> short_ascii k" and "length ks < 2 ^ 63"
  shows "decodes (ReadSetOfStrings read) (put_uvarint (of_nat (length ks)) @ put_strings ks) (set ks)"
proof -
  have "decodes (if (of_nat (length ks) :: u64) = 0 then io_return {}
      else read_set_loop read (nat (sint (of_nat (length ks) :: u64))) {})
    (put_strings ks) (set ks)"
    using read_set_loop_decodes [of ks "{}"] assms sint_of_nat_u64 [OF assms(2)] of_nat_u64_eq_0 [OF assms(2)]
    by (auto simp: put_strings_def)
  then show ?thesis
    unfolding ReadSetOfStrings_def by (rule decodes_bind [OF ReadUvarint_decodes])
qed

end


subsection \<open>Sinks of bytes\<close>

text \<open>What the output relies on: while there is room, a write appends exactly the bytes it is given.\<close>

locale data_sink =
  fixes wr :: "u8 list \<Rightarrow> ('w, unit) io"
    and written :: "'w \<Rightarrow> u8 list"
    and room :: "'w \<Rightarrow> nat \<Rightarrow> bool"
  assumes write_append: "room w (length bs + n) \<Longrightarrow>
      \<exists>w'. wr bs w = Some (Inr (), w') \<and> written w' = written w @ bs \<and> room w' n"
begin

text \<open>\<open>encodes f bs\<close>: \<open>f\<close> succeeds while there is room, and appends \<open>bs\<close>.\<close>

definition encodes :: "('w, unit) io \<Rightarrow> u8 list \<Rightarrow> bool" where
  "encodes f bs \<longleftrightarrow> (\<forall>w n. room w (length bs + n) \<longrightarrow>
     (\<exists>w'. f w = Some (Inr (), w') \<and> written w' = written w @ bs \<and> room w' n))"

lemma write_encodes: "encodes (wr bs) bs"
  by (simp add: encodes_def write_append)

lemma encodes_return: "encodes (io_return ()) []"
  by (simp add: encodes_def io_return_def)

lemma encodes_bind:
  assumes "encodes f bs" and "encodes g cs"
  shows "encodes (io_bind f (\<lambda>_. g)) (bs @ cs)"
  unfolding encodes_def
proof (intro allI impI)
  fix w n
  assume "room w (length (bs @ cs) + n)"
  then have "room w (length bs + (length cs + n))"
    by (simp add: add.assoc)
  then obtain w1 where w1: "f w = Some (Inr (), w1)" "written w1 = written w @ bs" "room w1 (length cs + n)"
    using assms(1) unfolding encodes_def by blast
  then obtain w2 where "g w1 = Some (Inr (), w2)" "written w2 = written w1 @ cs" "room w2 n"
    using assms(2) unfolding encodes_def by blast
  then show "\<exists>w'. io_bind f (\<lambda>_. g) w = Some (Inr (), w') \<and> written w' = written w @ bs @ cs \<and> room w' n"
    using w1 by (simp add: io_simps)
qed

lemma WriteByte_encodes: "encodes (WriteByte wr b) [b]"
  by (simp add: WriteByte_def write_encodes)

lemma WriteUint16_encodes: "encodes (WriteUint16 wr i) (put_uint 2 i)"
  by (simp add: WriteUint16_def write_encodes)

lemma WriteUint32_encodes: "encodes (WriteUint32 wr j) (put_uint 4 j)"
  by (simp add: WriteUint32_def write_encodes)

lemma WriteUint64_encodes: "encodes (WriteUint64 wr k) (put_uint 8 k)"
  by (simp add: WriteUint64_def write_encodes)

lemma WriteUvarint_encodes: "encodes (WriteUvarint wr k) (put_uvarint k)"
  by (simp add: WriteUvarint_def write_encodes)

lemma WriteZInt64_encodes: "encodes (WriteZInt64 wr k) (put_uvarint (zigzag_Encode k))"
  by (simp add: WriteZInt64_def WriteUvarint_encodes)

lemma WriteString_encodes: "encodes (WriteString wr s) (put_string s)"
  unfolding WriteString_def put_string_def by (intro encodes_bind WriteUvarint_encodes write_encodes)

lemma write_map_loop_encodes: "encodes (write_map_loop wr kvs) (put_entries kvs)"
proof (induction kvs)
  case (Cons kv kvs)
  have "put_entries (kv # kvs) = put_string (fst kv) @ put_string (snd kv) @ put_entries kvs"
    by (simp add: put_entries_def)
  then show ?case
    using encodes_bind [OF WriteString_encodes encodes_bind [OF WriteString_encodes Cons.IH]]
    by (simp only: write_map_loop.simps)
qed (simp add: put_entries_def encodes_return)

lemma write_set_loop_encodes: "encodes (write_set_loop wr ks) (put_strings ks)"
proof (induction ks)
  case (Cons k ks)
  have "put_strings (k # ks) = put_string k @ put_strings ks"
    by (simp add: put_strings_def)
  then show ?case
    using encodes_bind [OF WriteString_encodes Cons.IH] by (simp only: write_set_loop.simps)
qed (simp add: put_strings_def encodes_return)

lemma WriteMapOfStrings_encodes:
  "encodes (WriteMapOfStrings wr kvs) (put_uvarint (of_nat (length kvs)) @ put_entries kvs)"
  unfolding WriteMapOfStrings_def by (intro encodes_bind WriteUvarint_encodes write_map_loop_encodes)

lemma WriteSetOfStrings_encodes:
  "encodes (WriteSetOfStrings wr ks) (put_uvarint (of_nat (length ks)) @ put_strings ks)"
  unfolding WriteSetOfStrings_def by (intro encodes_bind WriteUvarint_encodes write_set_loop_encodes)

end

subsection \<open>The readers and writers of the store\<close>

definition bytes_input_stream :: "BytesInput \<Rightarrow> u8 list" where
  "bytes_input_stream b = drop (nat (bi_pos b)) (bi_bs b)"

definition bytes_input_ok :: "BytesInput \<Rightarrow> bool" where
  "bytes_input_ok b \<longleftrightarrow> 0 \<le> bi_pos b \<and> bi_pos b \<le> int (length (bi_bs b))"

interpretation bytes_input: data_source BytesInput_Read bytes_input_stream bytes_input_ok
proof
  fix r k
  assume "bytes_input_ok r" "k \<le> length (bytes_input_stream r)"
  then show "\<exists>r'. BytesInput_Read k r = Some (Inr (take k (bytes_input_stream r)), r') \<and> bytes_input_ok r' \<and>
      bytes_input_stream r' = drop k (bytes_input_stream r)"
    by (auto simp: BytesInput_Read_def bytes_input_ok_def bytes_input_stream_def Let_def nat_add_distrib add.commute)
qed

interpretation buffer_input: data_source Buffer_Read "\<lambda>b. b" "\<lambda>_. True"
  by unfold_locales (auto simp: Buffer_Read_def)

definition bytes_output_written :: "BytesOutput \<Rightarrow> u8 list" where
  "bytes_output_written w = take (bo_pos w) (bo_bytes w)"

definition bytes_output_room :: "BytesOutput \<Rightarrow> nat \<Rightarrow> bool" where
  "bytes_output_room w n \<longleftrightarrow> bo_pos w + n \<le> length (bo_bytes w)"

interpretation bytes_output: data_sink BytesOutput_Write bytes_output_written bytes_output_room
  by unfold_locales
    (simp add: BytesOutput_Write_def bytes_output_written_def bytes_output_room_def write_block_def)

interpretation buffer_output: data_sink Buffer_Write "\<lambda>b. b" "\<lambda>_ _. True"
  by unfold_locales (simp add: Buffer_Write_def)


subsection \<open>Sequences of values\<close>

text \<open>A value of each type, with the operation that writes it and the one that reads it.\<close>

datatype Value = VByte u8 | VUint16 u16 | VUint32 u32 | VUint64 u64 | VUvarint u64 | VZInt64 u64
  | VString "u8 list" | VMap "(u8 list \<times> u8 list) list" | VSet "u8 list list"

text \<open>What is read back: a map or a set, whatever the order in which it was written.\<close>

datatype Result = RByte u8 | RUint16 u16 | RUint32 u32 | RUint64 u64 | RUvarint u64 | RZInt64 u64
  | RString "u8 list" | RMap "u8 list \<rightharpoonup> u8 list" | RSet "u8 list set"

primrec write_value :: "(u8 list \<Rightarrow> ('w, unit) io) \<Rightarrow> Value \<Rightarrow> ('w, unit) io" where
  "write_value wr (VByte b) = WriteByte wr b"
| "write_value wr (VUint16 i) = WriteUint16 wr i"
| "write_value wr (VUint32 i) = WriteUint32 wr i"
| "write_value wr (VUint64 i) = WriteUint64 wr i"
| "write_value wr (VUvarint i) = WriteUvarint wr i"
| "write_value wr (VZInt64 i) = WriteZInt64 wr i"
| "write_value wr (VString s) = WriteString wr s"
| "write_value wr (VMap kvs) = WriteMapOfStrings wr kvs"
| "write_value wr (VSet ks) = WriteSetOfStrings wr ks"

primrec read_value :: "(nat \<Rightarrow> ('r, u8 list) io) \<Rightarrow> Value \<Rightarrow> ('r DataInput, Result) io" where
  "read_value rd (VByte b) = io_bind (ReadByte rd) (\<lambda>x. io_return (RByte x))"
| "read_value rd (VUint16 i) = io_bind (ReadUint16 rd) (\<lambda>x. io_return (RUint16 x))"
| "read_value rd (VUint32 i) = io_bind (ReadUint32 rd) (\<lambda>x. io_return (RUint32 x))"
| "read_value rd (VUint64 i) = io_bind (ReadUint64 rd) (\<lambda>x. io_return (RUint64 x))"
| "read_value rd (VUvarint i) = io_bind (ReadUvarint rd) (\<lambda>x. io_return (RUvarint x))"
| "read_value rd (VZInt64 i) = io_bind (ReadZInt64 rd) (\<lambda>x. io_return (RZInt64 x))"
| "read_value rd (VString s) = io_bind (ReadString rd) (\<lambda>x. io_return (RString x))"
| "read_value rd (VMap kvs) = io_bind (ReadMapOfStrings rd) (\<lambda>x. io_return (RMap x))"
| "read_value rd (VSet ks) = io_bind (ReadSetOfStrings rd) (\<lambda>x. io_return (RSet x))"

primrec result_of :: "Value \<Rightarrow> Result" where
  "result_of (VByte b) = RByte b"
| "result_of (VUint16 i) = RUint16 i"
| "result_of (VUint32 i) = RUint32 i"
| "result_of (VUint64 i) = RUint64 i"
| "result_of (VUvarint i) = RUvarint i"
| "result_of (VZInt64 i) = RZInt64 i"
| "result_of (VString s) = RString s"
| "result_of (VMap kvs) = RMap (map_of kvs)"
| "result_of (VSet ks) = RSet (set ks)"

primrec value_ok :: "Value \<Rightarrow> bool" where
  "value_ok (VByte b) = True"
| "value_ok (VUint16 i) = True"
| "value_ok (VUint32 i) = True"
| "value_ok (VUint64 i) = True"
| "value_ok (VUvarint i) = True"
| "value_ok (VZInt64 i) = True"
| "value_ok (VString s) = short_ascii s"
| "value_ok (VMap kvs) = (distinct (map fst kvs) \<and> length kvs < 2 ^ 63 \<and>
    (\<forall>kv \<in> set kvs. short_ascii (fst kv) \<and> short_ascii (snd kv)))"
| "value_ok (VSet ks) = (distinct ks \<and> length ks < 2 ^ 63 \<and> (\<forall>k \<in> set ks. short_ascii k))"

primrec value_bytes :: "Value \<Rightarrow> u8 list" where
  "value_bytes (VByte b) = [b]"
| "value_bytes (VUint16 i) = put_uint 2 i"
| "value_bytes (VUint32 i) = put_uint 4 i"
| "value_bytes (VUint64 i) = put_uint 8 i"
| "value_bytes (VUvarint i) = put_uvarint i"
| "value_bytes (VZInt64 i) = put_uvarint (zigzag_Encode i)"
| "value_bytes (VString s) = put_string s"
| "value_bytes (VMap kvs) = put_uvarint (of_nat (length kvs)) @ put_entries kvs"
| "value_bytes (VSet ks) = put_uvarint (of_nat (length ks)) @ put_strings ks"

primrec write_values :: "(u8 list \<Rightarrow> ('w, unit) io) \<Rightarrow> Value list \<Rightarrow> ('w, unit) io" where
  "write_values wr [] = io_return ()"
| "write_values wr (v # vs) = io_bind (write_value wr v) (\<lambda>_. write_values wr vs)"

primrec read_values :: "(nat \<Rightarrow> ('r, u8 list) io) \<Rightarrow> Value list \<Rightarrow> ('r DataInput, Result list) io" where
  "read_values rd [] = io_return []"
| "read_values rd (v # vs) =
     io_bind (read_value rd v) (\<lambda>x. io_bind (read_values rd vs) (\<lambda>xs. io_return (x # xs)))"

definition values_bytes :: "Value list \<Rightarrow> u8 list" where
  "values_bytes vs = concat (map value_bytes vs)"

context data_sink
begin

lemma write_value_encodes: "encodes (write_value wr v) (value_bytes v)"
  by (cases v)
    (simp_all add: WriteByte_encodes WriteUint16_encodes WriteUint32_encodes WriteUint64_encodes
      WriteUvarint_encodes WriteZInt64_encodes WriteString_encodes WriteMapOfStrings_encodes
      WriteSetOfStrings_encodes)

lemma write_values_encodes: "encodes (write_values wr vs) (values_bytes vs)"
proof (induction vs)
  case (Cons v vs)
  show ?case
    using encodes_bind [OF write_value_encodes Cons.IH, of v] by (simp add: values_bytes_def)
qed (simp add: values_bytes_def encodes_return)

end

lemma map_of_rev_distinct: "distinct (map fst kvs) \<Longrightarrow> map_of (rev kvs) = map_of kvs"
proof (induction kvs)
  case (Cons kv kvs)
  then have "map_of kvs (fst kv) = None"
    by (simp add: map_of_eq_None_iff)
  then show ?case
    using Cons by (auto simp: map_add_def fun_eq_iff split: option.split)
qed simp

context data_source
begin

lemma read_value_decodes: "value_ok v \<Longrightarrow> decodes (read_value read v) (value_bytes v) (result_of v)"
proof (cases v)
  case (VMap kvs)
  assume "value_ok v"
  then have "decodes (ReadMapOfStrings read) (value_bytes v) (map_of (rev kvs))"
    unfolding VMap value_bytes.simps by (intro ReadMapOfStrings_decodes) force+
  then show ?thesis
    using \<open>value_ok v\<close> decodes_map [where h = RMap] unfolding VMap
    by (fastforce simp: map_of_rev_distinct)
next
  case (VSet ks)
  assume "value_ok v"
  then have "decodes (ReadSetOfStrings read) (value_bytes v) (set ks)"
    unfolding VSet value_bytes.simps by (intro ReadSetOfStrings_decodes) force+
  then show ?thesis
    using decodes_map [where h = RSet] unfolding VSet by simp
qed (simp_all add: decodes_map ReadByte_decodes ReadUint16_decodes ReadUint32_decodes ReadUint64_decodes
    ReadUvarint_decodes ReadZInt64_decodes ReadString_decodes)

lemma read_values_decodes:
  "\<forall>v \<in> set vs. value_ok v \<Longrightarrow> decodes (read_values read vs) (values_bytes vs) (map result_of vs)"
proof (induction vs)
  case (Cons v vs)
  have "decodes (io_bind (read_values read vs) (\<lambda>xs. io_return (result_of v # xs)))
      (values_bytes vs) (result_of v # map result_of vs)"
    using Cons by (intro decodes_map) simp
  then have "decodes (read_values read (v # vs)) (value_bytes v @ values_bytes vs) (result_of v # map result_of vs)"
    unfolding read_values.simps using Cons.prems by (intro decodes_bind [OF read_value_decodes]) simp_all
  then show ?case
    by (simp add: values_bytes_def)
qed (simp add: values_bytes_def)

end


subsection \<open>Skipping and copying\<close>

context data_source
begin

lemma skip_loop_decodes: "decodes (skip_loop read (length bs)) bs ()"
proof (induction "length bs" arbitrary: bs rule: less_induct)
  case less
  show ?case
  proof (cases "bs = []")
    case True
    then show ?thesis
      by (simp add: skip_loop.simps)
  next
    case False
    define k where "k = min 1024 (length bs)"
    have k: "0 < k" "k \<le> length bs"
      using False by (simp_all add: k_def)
    have "decodes (skip_loop read (length (drop k bs))) (drop k bs) ()"
      using k by (intro less) simp
    moreover have "decodes (read_slice read (length (take k bs))) (take k bs) (take k bs)"
      using read_slice_holds unfolding decodes_def by blast
    ultimately have "decodes (io_bind (read_slice read (length (take k bs))) (\<lambda>_. skip_loop read (length (drop k bs))))
        (take k bs @ drop k bs) ()"
      by (intro decodes_bind)
    then show ?thesis
      using False k by (subst skip_loop.simps) (simp add: k_def [symmetric] min_absorb2)
  qed
qed

lemma SkipBytes_decodes: "decodes (SkipBytes read (int (length bs))) bs ()"
  by (simp add: SkipBytes_def skip_loop_decodes)

end

text \<open>\<open>CopyBytes\<close> from a source to a sink.\<close>

locale data_copy = data_source read stream ok + data_sink wr written room
  for read :: "nat \<Rightarrow> ('r, u8 list) io" and stream ok
    and wr :: "u8 list \<Rightarrow> ('w, unit) io" and written room
begin

lemma copy_loop_copies:
  assumes "ok r" and "stream r = bs @ rest" and "room w (length bs + n)" and "length buf = 16384"
  shows "\<exists>r' w' buf'. copy_loop read wr (length bs) (r, w, buf) = Some (Inr (), (r', w', buf')) \<and>
    ok r' \<and> stream r' = rest \<and> written w' = written w @ bs \<and> room w' n"
  using assms
proof (induction "length bs" arbitrary: bs r w buf rule: less_induct)
  case less
  show ?case
  proof (cases "bs = []")
    case True
    then show ?thesis
      using less.prems by (simp add: copy_loop.simps)
  next
    case False
    define k where "k = (if 16384 < length bs then 16384 else length bs)"
    have k: "0 < k" "k \<le> length bs" "k \<le> 16384"
      using False by (simp_all add: k_def)
    obtain r1 where r1: "read k r = Some (Inr (take k bs), r1)" "ok r1" "stream r1 = drop k bs @ rest"
      using read_prefix [of r k] less.prems(1,2) k by auto
    define buf1 where "buf1 = take k bs @ drop k buf"
    have buf1: "take k buf1 = take k bs" "length buf1 = 16384"
      using k less.prems(4) by (simp_all add: buf1_def)
    have "room w (length (take k bs) + (length (drop k bs) + n))"
      using less.prems(3) k by simp
    then obtain w1 where w1: "wr (take k bs) w = Some (Inr (), w1)" "written w1 = written w @ take k bs"
      "room w1 (length (drop k bs) + n)"
      using write_append by blast
    have "length (drop k bs) < length bs"
      using k by simp
    from less.hyps [OF this r1(2,3) w1(3) buf1(2)] obtain r2 w2 buf2 where
      "copy_loop read wr (length bs - k) (r1, w1, buf1) = Some (Inr (), (r2, w2, buf2))"
      "ok r2" "stream r2 = rest" "written w2 = written w1 @ drop k bs" "room w2 n"
      by auto
    moreover have "copy_loop read wr (length bs) (r, w, buf) = copy_loop read wr (length bs - k) (r1, w1, buf1)"
      using False r1(1) w1(1) k
      by (subst copy_loop.simps) (simp add: k_def [symmetric] buf1(1) buf1_def [symmetric] min_absorb2 Let_def)
    ultimately show ?thesis
      using w1(2) by (metis append.assoc append_take_drop_id)
  qed
qed

lemma CopyBytes_copies:
  assumes "ok r" and "stream r = bs @ rest" and "room w (length bs)" and "buf = [] \<or> length buf = 16384"
  shows "\<exists>r' w' buf'. CopyBytes read wr (int (length bs)) (r, w, buf) = Some (Inr (), (r', w', buf')) \<and>
    ok r' \<and> stream r' = rest \<and> written w' = written w @ bs"
proof -
  have "length (if buf = [] then replicate 16384 0 else buf) = 16384"
    using assms(4) by auto
  then obtain r' w' buf' where
    "copy_loop read wr (length bs) (r, w, if buf = [] then replicate 16384 0 else buf) = Some (Inr (), (r', w', buf'))"
    "ok r'" "stream r' = rest" "written w' = written w @ bs"
    using copy_loop_copies [OF assms(1,2), of w 0] assms(3) by (metis add_0_right)
  then show ?thesis
    by (simp add: CopyBytes_def)
qed

end

interpretation buffer_copy: data_copy BytesInput_Read bytes_input_stream bytes_input_ok Buffer_Write "\<lambda>b. b" "\<lambda>_ _. True"
  by unfold_locales

subsection \<open>Properties\<close>

lemma NewBytesInput_holds: "bytes_input.holds (NewBaseDataInput (NewBytesInput bs)) bs"
  by (simp add: bytes_input.holds_def NewBaseDataInput_def NewBytesInput_def bytes_input_ok_def bytes_input_stream_def)

text \<open>
  C16. Writing any sequence of values that \<open>value_ok\<close> admits to a \<open>BytesOutput\<close> with room for
  their encoding, and reading them from its bytes with the operations of the same types, gives the values back, one
  after the other, with nothing consumed beyond them. Numbers of all types are admitted without restriction. Strings
  are restricted to ASCII of fewer than the 48 bytes of the buffer, also those inside of maps and sets: longer ones
  do not come back, and the length of others is counted in runes. Maps have distinct keys and sets distinct elements,
  fewer than \<open>2 ^ 63\<close>, in whatever order they are iterated.
\<close>

theorem data_roundtrip:
  assumes "\<forall>v \<in> set vs. value_ok v"
    and "w = NewBytesDataOutput bs" and "length (values_bytes vs) \<le> length bs"
  shows "\<exists>w' d. write_values BytesOutput_Write vs w = Some (Inr (), w') \<and>
    read_values BytesInput_Read vs (NewBaseDataInput (NewBytesInput (bo_bytes w'))) =
      Some (Inr (map result_of vs), d) \<and>
    bytes_input_stream (in_reader d) = drop (length (values_bytes vs)) (bo_bytes w') \<and>
    bo_pos w' = length (values_bytes vs)"
proof -
  have "bytes_output_room w (length (values_bytes vs) + 0)"
    using assms(2,3) by (simp add: bytes_output_room_def NewBytesDataOutput_def)
  then obtain w' where w': "write_values BytesOutput_Write vs w = Some (Inr (), w')"
    "bytes_output_written w' = bytes_output_written w @ values_bytes vs" "bytes_output_room w' 0"
    using bytes_output.write_values_encodes [of vs] unfolding bytes_output.encodes_def by blast
  then have p: "take (bo_pos w') (bo_bytes w') = values_bytes vs" "bo_pos w' \<le> length (bo_bytes w')"
    using assms(2) by (simp_all add: bytes_output_written_def bytes_output_room_def NewBytesDataOutput_def)
  then have pos: "bo_pos w' = length (values_bytes vs)"
    by (metis length_take min.absorb2)
  define rest where "rest = drop (bo_pos w') (bo_bytes w')"
  have all: "bo_bytes w' = values_bytes vs @ rest"
    using p(1) by (metis append_take_drop_id rest_def)
  have "bytes_input.holds (NewBaseDataInput (NewBytesInput (bo_bytes w'))) (values_bytes vs @ rest)"
    unfolding all by (rule NewBytesInput_holds)
  then obtain d where "read_values BytesInput_Read vs (NewBaseDataInput (NewBytesInput (bo_bytes w'))) =
      Some (Inr (map result_of vs), d)" "bytes_input.holds d rest"
    using bytes_input.read_values_decodes [OF assms(1)] unfolding bytes_input.decodes_def by blast
  then show ?thesis
    using w'(1) pos by (simp add: bytes_input.holds_def rest_def)
qed

definition example_values :: "Value list" where
  "example_values = [VUvarint 300, VZInt64 (- 5), VString [104, 105], VUint32 7, VMap [([97], [98]), ([99], [])]]"

lemma example_values_ok: "\<forall>v \<in> set example_values. value_ok v"
  by (simp add: example_values_def short_ascii_def ascii_def)

lemma example_values_length: "length (values_bytes example_values) = 18"
  by code_simp

lemma example_results:
  "map result_of example_values = [RUvarint 300, RZInt64 (- 5), RString [104, 105], RUint32 7,
    RMap [[99] \<mapsto> [], [97] \<mapsto> [98]]]"
  by (simp add: example_values_def)

theorem data_roundtrip_witness:
  "\<exists>w' d. write_values BytesOutput_Write example_values (NewBytesDataOutput (replicate 20 0)) = Some (Inr (), w') \<and>
    read_values BytesInput_Read example_values (NewBaseDataInput (NewBytesInput (bo_bytes w'))) =
      Some (Inr [RUvarint 300, RZInt64 (- 5), RString [104, 105], RUint32 7,
        RMap [[99] \<mapsto> [], [97] \<mapsto> [98]]], d) \<and> bo_pos w' = 18"
  using data_roundtrip [OF example_values_ok refl, of "replicate 20 0"]
  by (auto simp: example_values_length example_results)

text \<open>
  C17. Zig-zag encoding maps the signed 64-bit integers onto the unsigned ones: \<open>Encode\<close> and
  \<open>Decode\<close> are inverse to each other, and \<open>x\<close> becomes \<open>2 x\<close>, or \<open>- 2 x - 1\<close> when it is negative,
  without overflow even at the ends of the range.
\<close>

theorem zigzag_bijection:
  "zigzag_Decode (zigzag_Encode x) = x \<and> zigzag_Encode (zigzag_Decode y) = y \<and>
    uint (zigzag_Encode x) = (if 0 \<le> sint x then 2 * sint x else - 2 * sint x - 1)"
  by (simp add: zigzag_Decode_Encode zigzag_Encode_Decode zigzag_Encode_uint)

text \<open>
  C18. \<open>WriteUvarint\<close> uses the fewest bytes: at most \<open>k\<close> bytes (\<open>k > 0\<close>) exactly for the values below
  \<open>2 ^ (7 k)\<close>, so never more than ten. The interface documents one to five bytes, which holds for the values
  below \<open>2 ^ 35\<close> only.
\<close>

theorem uvarint_length:
  "\<exists>bs. WriteUvarint Buffer_Write x w = Some (Inr (), w @ bs) \<and>
    (length bs \<le> Suc k \<longleftrightarrow> unat x < 2 ^ (7 * Suc k)) \<and> length bs \<le> 10"
proof -
  have "unat x < 2 ^ 64"
    using unsigned_less [of x] by simp
  then have "unat x < 2 ^ (7 * Suc 9)"
    by simp
  then have "length (put_uvarint x) \<le> 10"
    unfolding length_put_uvarint_le [symmetric] by simp
  then show ?thesis
    by (intro exI [of _ "put_uvarint x"]) (simp add: WriteUvarint_def Buffer_Write_def length_put_uvarint_le del: power_Suc mult_Suc_right)
qed

text \<open>
  C19. \<open>CopyBytes\<close> returns after copying exactly the bytes asked for, in chunks of any number, from
  the position of the input to the end of the buffer, and moves the input behind them.
\<close>

theorem copy_bytes:
  assumes "bytes_input_ok r" and "bytes_input_stream r = bs @ rest" and "buf = [] \<or> length buf = 16384"
  shows "\<exists>r' buf'. CopyBytes BytesInput_Read Buffer_Write (int (length bs)) (r, w, buf) =
      Some (Inr (), (r', w @ bs, buf')) \<and> bytes_input_stream r' = rest"
  using buffer_copy.CopyBytes_copies [OF assms(1,2) TrueI assms(3), of w] by auto

theorem copy_bytes_witness:
  "\<exists>r' buf'. CopyBytes BytesInput_Read Buffer_Write 2 (\<lparr>bi_bs = [1, 2, 3, 4], bi_pos = 1\<rparr>, [9], []) =
      Some (Inr (), (r', [9, 2, 3], buf')) \<and> bytes_input_stream r' = [4]"
  using copy_bytes [of "\<lparr>bi_bs = [1, 2, 3, 4], bi_pos = 1\<rparr>" "[2, 3]" "[4]" "[]" "[9]"]
  by (simp add: bytes_input_ok_def bytes_input_stream_def)

text \<open>
  C20. A string that does not fit the 48 bytes of the buffer cannot be read back: \<open>ReadString\<close> reads
  it into a slice of its own and then slices the buffer beyond its capacity, which panics.
\<close>

theorem long_string_panics:
  assumes "48 < length s" and "length s < 2 ^ 63"
  shows "ReadString BytesInput_Read (NewBaseDataInput (NewBytesInput (put_uvarint (of_nat (length s)) @ s))) = None"
proof -
  have "bytes_input.holds (NewBaseDataInput (NewBytesInput (put_uvarint (of_nat (length s)) @ s)))
      (put_uvarint (of_nat (length s)) @ s)"
    by (rule NewBytesInput_holds)
  from bytes_input.decodesD [OF bytes_input.ReadUvarint_decodes this] obtain d where
    d: "ReadUvarint BytesInput_Read (NewBaseDataInput (NewBytesInput (put_uvarint (of_nat (length s)) @ s))) =
      Some (Inr (of_nat (length s)), d)" "bytes_input.holds d (s @ [])"
    by auto
  obtain d' where d': "read_slice BytesInput_Read (length s) d = Some (Inr s, d')" "length (in_buff d') = 48"
    using bytes_input.read_slice_holds [OF d(2)] d(2) by (auto simp: bytes_input.holds_def)
  show ?thesis
    using assms d d' unfolding ReadString_def
    by (simp add: io_simps sint_of_nat_u64 unat_of_nat_u64 bytes_input.holds_def Let_def)
qed

theorem long_string_panics_witness:
  "ReadString BytesInput_Read (NewBaseDataInput (NewBytesInput (put_uvarint 49 @ replicate 49 97))) = None"
  using long_string_panics [of "replicate 49 97"] by simp

text \<open>
  A \<open>BytesInput\<close> never reports its end: at the last byte and beyond it in the sense of \<open>Read\<close>,
  \<open>ReadByte\<close> succeeds, leaves the position, and returns the first byte of the buffer, which is
  whatever was read last.
\<close>

theorem bytes_input_no_eof:
  assumes "bi_pos (in_reader d) = int (length (bi_bs (in_reader d)))" and "in_buff d = b # bs"
  shows "ReadByte BytesInput_Read d = Some (Inr b, d)"
  using assms
  by (simp add: ReadByte_def read_buff_def read_slice_def BytesInput_Read_def io_simps Let_def io_return_def)

theorem bytes_input_no_eof_witness:
  "ReadByte BytesInput_Read \<lparr>in_reader = \<lparr>bi_bs = [], bi_pos = 0\<rparr>, in_buff = [7, 0]\<rparr> =
    Some (Inr 7, \<lparr>in_reader = \<lparr>bi_bs = [], bi_pos = 0\<rparr>, in_buff = [7, 0]\<rparr>)"
  using bytes_input_no_eof [of "\<lparr>in_reader = \<lparr>bi_bs = [], bi_pos = 0\<rparr>, in_buff = [7, 0]\<rparr>" 7 "[0]"] by simp

end
