(* ===== verification/Direct_IO.thy ===== *)
theory Direct_IO
  imports Bulk_Codec Data_IO Packed64
begin

text \<open>
  core/util/packed: directwriter.go, packedwriter.go, directreader.go, the choice of the buffer size of
  bulkoperationpacked.go, and \<open>BytesRandomAccessInput\<close> of core/store/randomaccessinput.go: values
  written through a buffer, and read one by one at their position.
\<close>

subsection \<open>Writers\<close>

text \<open>
  A value count of -1 (unbounded) is not treated apart: the count is rounded up to a multiple of
  \<open>ByteValueCount\<close>, which is 0 or -1 then. Ratios are exact.
\<close>

definition ComputeIterations :: "BulkOperation \<Rightarrow> int \<Rightarrow> nat \<Rightarrow> int" where
  "ComputeIterations op valueCount ramBudget =
     (let byteValueCount = bop_ByteValueCount op;
          iterations = int (ramBudget div (bop_ByteBlockCount op + 8 * byteValueCount)) in
      if iterations = 0 then 1
      else if (iterations - 1) * int byteValueCount \<ge> valueCount then - (- valueCount div int byteValueCount)
      else iterations)"

text \<open>
  The output is what was written to it, in memory; its \<open>Write\<close> does not fail. For the format PACKED
  \<open>Of\<close> returns no error: it panics outside its table.
\<close>

record DirectWriter =
  dw_bitsPerValue :: nat
  dw_numValues :: nat
  dw_output :: "u8 list"
  dw_count :: nat
  dw_finished :: bool
  dw_off :: nat
  dw_nextBlocks :: "u8 list"
  dw_nextValues :: "u64 list"
  dw_encoder :: BulkOperation
  dw_iterations :: nat

definition NewDirectWriter :: "u8 list \<Rightarrow> nat \<Rightarrow> nat \<Rightarrow> DirectWriter option" where
  "NewDirectWriter output numValues bitsPerValue = do {
     encoder \<leftarrow> Of FormatPacked bitsPerValue;
     encoder \<leftarrow> encoder;
     iterations \<leftarrow> int_index (ComputeIterations encoder (min (int numValues) 2147483647) 1024);
     Some \<lparr>dw_bitsPerValue = bitsPerValue, dw_numValues = numValues, dw_output = output, dw_count = 0,
       dw_finished = False, dw_off = 0, dw_nextBlocks = replicate (iterations * bop_ByteBlockCount encoder) 0,
       dw_nextValues = replicate (iterations * bop_ByteValueCount encoder) 0, dw_encoder = encoder,
       dw_iterations = iterations\<rparr>
   }"

definition DirectWriter_flush :: "DirectWriter \<Rightarrow> DirectWriter option" where
  "DirectWriter_flush d = do {
     nextBlocks \<leftarrow> bop_EncodeBytes (dw_encoder d) (dw_nextValues d) (dw_nextBlocks d) (dw_iterations d);
     let blockCount = FormatPacked_ByteCount (length (dw_nextValues d)) (dw_bitsPerValue d);
     if length nextBlocks < blockCount then None
     else Some (d\<lparr>dw_nextBlocks := nextBlocks, dw_output := dw_output d @ take blockCount nextBlocks, dw_off := 0\<rparr>)
   }"

definition DirectWriter_Add :: "DirectWriter \<Rightarrow> u64 \<Rightarrow> ((go_error + unit) \<times> DirectWriter) option" where
  "DirectWriter_Add d v =
     (if dw_count d \<ge> dw_numValues d then Some (Inl (Err ''writing past end of stream''), d)
      else do {
        nextValues \<leftarrow> slice_set (dw_nextValues d) (dw_off d) v;
        let d = d\<lparr>dw_nextValues := nextValues, dw_off := dw_off d + 1\<rparr>;
        d \<leftarrow> (if length (dw_nextValues d) = dw_off d then DirectWriter_flush d else Some d);
        Some (Inr (), d\<lparr>dw_count := dw_count d + 1\<rparr>)
      })"

definition DirectWriter_Finish :: "DirectWriter \<Rightarrow> ((go_error + unit) \<times> DirectWriter) option" where
  "DirectWriter_Finish d =
     (if dw_count d \<noteq> dw_numValues d then Some (Inl (Err ''wrong number of values added''), d)
      else do {
        d \<leftarrow> DirectWriter_flush d;
        Some (Inr (), d\<lparr>dw_output := dw_output d @ [0, 0, 0], dw_finished := True\<rparr>)
      })"

text \<open>\<open>PackedWriter\<close> for the format PACKED: a value count of -1 is unbounded; the buffer is cleared after every flush.\<close>

record PackedWriter =
  pw_bitsPerValue :: nat
  pw_valueCount :: int
  pw_out :: "u8 list"
  pw_written :: nat
  pw_finished :: bool
  pw_off :: nat
  pw_nextBlocks :: "u8 list"
  pw_nextValues :: "u64 list"
  pw_encoder :: BulkOperation
  pw_iterations :: nat

definition NewPackedWriter :: "u8 list \<Rightarrow> int \<Rightarrow> nat \<Rightarrow> nat \<Rightarrow> PackedWriter option" where
  "NewPackedWriter out valueCount bitsPerValue mem = do {
     encoder \<leftarrow> Of FormatPacked bitsPerValue;
     encoder \<leftarrow> encoder;
     iterations \<leftarrow> int_index (ComputeIterations encoder valueCount mem);
     Some \<lparr>pw_bitsPerValue = bitsPerValue, pw_valueCount = valueCount, pw_out = out, pw_written = 0,
       pw_finished = False, pw_off = 0, pw_nextBlocks = replicate (iterations * bop_ByteBlockCount encoder) 0,
       pw_nextValues = replicate (iterations * bop_ByteValueCount encoder) 0, pw_encoder = encoder,
       pw_iterations = iterations\<rparr>
   }"

definition PackedWriter_flush :: "PackedWriter \<Rightarrow> PackedWriter option" where
  "PackedWriter_flush p = do {
     nextBlocks \<leftarrow> bop_EncodeBytes (pw_encoder p) (pw_nextValues p) (pw_nextBlocks p) (pw_iterations p);
     let blockCount = FormatPacked_ByteCount (pw_off p) (pw_bitsPerValue p);
     if length nextBlocks < blockCount then None
     else Some (p\<lparr>pw_nextBlocks := nextBlocks, pw_out := pw_out p @ take blockCount nextBlocks,
       pw_nextValues := replicate (length (pw_nextValues p)) 0, pw_off := 0\<rparr>)
   }"

definition PackedWriter_Add :: "PackedWriter \<Rightarrow> u64 \<Rightarrow> ((go_error + unit) \<times> PackedWriter) option" where
  "PackedWriter_Add p v =
     (if pw_valueCount p \<noteq> - 1 \<and> int (pw_written p) \<ge> pw_valueCount p
      then Some (Inl (Err ''writing past end of stream''), p)
      else do {
        nextValues \<leftarrow> slice_set (pw_nextValues p) (pw_off p) v;
        let p = p\<lparr>pw_nextValues := nextValues, pw_off := pw_off p + 1\<rparr>;
        p \<leftarrow> (if pw_off p = length (pw_nextValues p) then PackedWriter_flush p else Some p);
        Some (Inr (), p\<lparr>pw_written := pw_written p + 1\<rparr>)
      })"

text \<open>The missing values are zeros; while there are some, \<open>Add\<close> reports no error.\<close>

primrec finish_loop :: "nat \<Rightarrow> PackedWriter \<Rightarrow> PackedWriter option" where
  "finish_loop 0 p = Some p"
| "finish_loop (Suc n) p = Option.bind (PackedWriter_Add p 0) (\<lambda>(_, p). finish_loop n p)"

definition PackedWriter_Finish :: "PackedWriter \<Rightarrow> PackedWriter option" where
  "PackedWriter_Finish p = do {
     p \<leftarrow> (if pw_valueCount p \<noteq> - 1 then finish_loop (nat (pw_valueCount p - int (pw_written p))) p else Some p);
     p \<leftarrow> PackedWriter_flush p;
     Some (p\<lparr>pw_finished := True\<rparr>)
   }"

subsection \<open>Reading at a position\<close>

text \<open>
  \<open>BytesRandomAccessInput\<close> with \<open>binary.BigEndian\<close>. A number of more than one byte is refused unless
  a byte follows it. Positions are not negative.
\<close>

definition ReadU8 :: "u8 list \<Rightarrow> nat \<Rightarrow> go_error + u8" where
  "ReadU8 bs pos = (if pos \<ge> length bs then Inl (Err ''unexpected EOF'') else Inr (bs ! pos))"

definition ReadU16 :: "u8 list \<Rightarrow> nat \<Rightarrow> go_error + u16" where
  "ReadU16 bs pos = (if pos + 2 \<ge> length bs then Inl (Err ''unexpected EOF'') else Inr (get_uint (take 2 (drop pos bs))))"

definition ReadU32 :: "u8 list \<Rightarrow> nat \<Rightarrow> go_error + u32" where
  "ReadU32 bs pos = (if pos + 4 \<ge> length bs then Inl (Err ''unexpected EOF'') else Inr (get_uint (take 4 (drop pos bs))))"

definition ReadU64 :: "u8 list \<Rightarrow> nat \<Rightarrow> go_error + u64" where
  "ReadU64 bs pos = (if pos + 8 \<ge> length bs then Inl (Err ''unexpected EOF'') else Inr (get_uint (take 8 (drop pos bs))))"

subsection \<open>DirectReader\<close>

text \<open>The readers of the fourteen widths: the bytes, the offset of the first value, the index.\<close>

definition DirectPackedReader1_Get :: "u8 list \<Rightarrow> nat \<Rightarrow> nat \<Rightarrow> go_error + u64" where
  "DirectPackedReader1_Get bs off index =
     (let shift = 7 - index mod 8 in
      map_sum id (\<lambda>b. ucast (drop_bit shift b) AND 0x1) (ReadU8 bs (off + index div 8)))"

definition DirectPackedReader2_Get :: "u8 list \<Rightarrow> nat \<Rightarrow> nat \<Rightarrow> go_error + u64" where
  "DirectPackedReader2_Get bs off index =
     (let shift = push_bit 1 (3 - index mod 4) in
      map_sum id (\<lambda>b. ucast (drop_bit shift b) AND 0x3) (ReadU8 bs (off + index div 4)))"

definition DirectPackedReader4_Get :: "u8 list \<Rightarrow> nat \<Rightarrow> nat \<Rightarrow> go_error + u64" where
  "DirectPackedReader4_Get bs off index =
     (let shift = push_bit 2 ((index + 1) mod 2) in
      map_sum id (\<lambda>b. ucast (drop_bit shift b) AND 0xF) (ReadU8 bs (off + index div 2)))"

definition DirectPackedReader8_Get :: "u8 list \<Rightarrow> nat \<Rightarrow> nat \<Rightarrow> go_error + u64" where
  "DirectPackedReader8_Get bs off index = map_sum id ucast (ReadU8 bs (off + index))"

definition DirectPackedReader12_Get :: "u8 list \<Rightarrow> nat \<Rightarrow> nat \<Rightarrow> go_error + u64" where
  "DirectPackedReader12_Get bs off index =
     (let pos = index * 12 div 8; shift = push_bit 2 ((index + 1) mod 2) in
      map_sum id (\<lambda>b. ucast (drop_bit shift b) AND 0xFFF) (ReadU16 bs (off + pos)))"

definition DirectPackedReader16_Get :: "u8 list \<Rightarrow> nat \<Rightarrow> nat \<Rightarrow> go_error + u64" where
  "DirectPackedReader16_Get bs off index = map_sum id ucast (ReadU16 bs (off + push_bit 1 index))"

definition DirectPackedReader20_Get :: "u8 list \<Rightarrow> nat \<Rightarrow> nat \<Rightarrow> go_error + u64" where
  "DirectPackedReader20_Get bs off index =
     (let pos = index * 20 div 8; shift = push_bit 2 ((index + 1) mod 2) in
      map_sum id (\<lambda>w. ucast (drop_bit shift (drop_bit 8 w)) AND 0xFFFFF) (ReadU32 bs (off + pos)))"

definition DirectPackedReader24_Get :: "u8 list \<Rightarrow> nat \<Rightarrow> nat \<Rightarrow> go_error + u64" where
  "DirectPackedReader24_Get bs off index = map_sum id (\<lambda>w. drop_bit 8 (ucast w)) (ReadU32 bs (off + index * 3))"

definition DirectPackedReader28_Get :: "u8 list \<Rightarrow> nat \<Rightarrow> nat \<Rightarrow> go_error + u64" where
  "DirectPackedReader28_Get bs off index =
     (let pos = index * 28 div 8; shift = push_bit 2 ((index + 1) mod 2) in
      map_sum id (\<lambda>w. drop_bit shift (ucast w) AND 0xFFFFFFF) (ReadU32 bs (off + pos)))"

definition DirectPackedReader32_Get :: "u8 list \<Rightarrow> nat \<Rightarrow> nat \<Rightarrow> go_error + u64" where
  "DirectPackedReader32_Get bs off index = map_sum id (\<lambda>w. ucast w AND 0xFFFFFFFF) (ReadU32 bs (off + push_bit 2 index))"

definition DirectPackedReader40_Get :: "u8 list \<Rightarrow> nat \<Rightarrow> nat \<Rightarrow> go_error + u64" where
  "DirectPackedReader40_Get bs off index = map_sum id (drop_bit 24) (ReadU64 bs (off + index * 5))"

definition DirectPackedReader48_Get :: "u8 list \<Rightarrow> nat \<Rightarrow> nat \<Rightarrow> go_error + u64" where
  "DirectPackedReader48_Get bs off index = map_sum id (drop_bit 16) (ReadU64 bs (off + index * 6))"

definition DirectPackedReader56_Get :: "u8 list \<Rightarrow> nat \<Rightarrow> nat \<Rightarrow> go_error + u64" where
  "DirectPackedReader56_Get bs off index = map_sum id (drop_bit 8) (ReadU64 bs (off + index * 7))"

definition DirectPackedReader64_Get :: "u8 list \<Rightarrow> nat \<Rightarrow> nat \<Rightarrow> go_error + u64" where
  "DirectPackedReader64_Get bs off index = ReadU64 bs (off + push_bit 3 index)"

text \<open>\<open>DirectReader.GetInstance\<close>: the reader of a width\<close>

definition GetInstance :: "nat \<Rightarrow> (go_error + (u8 list \<Rightarrow> nat \<Rightarrow> nat \<Rightarrow> go_error + u64))" where
  "GetInstance bitsPerValue =
     (if bitsPerValue = 1 then Inr DirectPackedReader1_Get
      else if bitsPerValue = 2 then Inr DirectPackedReader2_Get
      else if bitsPerValue = 4 then Inr DirectPackedReader4_Get
      else if bitsPerValue = 8 then Inr DirectPackedReader8_Get
      else if bitsPerValue = 12 then Inr DirectPackedReader12_Get
      else if bitsPerValue = 16 then Inr DirectPackedReader16_Get
      else if bitsPerValue = 20 then Inr DirectPackedReader20_Get
      else if bitsPerValue = 24 then Inr DirectPackedReader24_Get
      else if bitsPerValue = 28 then Inr DirectPackedReader28_Get
      else if bitsPerValue = 32 then Inr DirectPackedReader32_Get
      else if bitsPerValue = 40 then Inr DirectPackedReader40_Get
      else if bitsPerValue = 48 then Inr DirectPackedReader48_Get
      else if bitsPerValue = 56 then Inr DirectPackedReader56_Get
      else if bitsPerValue = 64 then Inr DirectPackedReader64_Get
      else Inl (Err ''unsupported bitsPerValue''))"

end
