(* ===== verification/Direct_IO_Correct.thy ===== *)
theory Direct_IO_Correct
  imports Direct_IO Data_IO_Correct
begin

text \<open>
  Values written by a direct writer and read back one by one: what a read of two, four or eight bytes
  holds of the stream of bits, the fourteen readers, the invariant of the writer, and the round trip.
\<close>

subsection \<open>Reading a value at its position\<close>

text \<open>The number read at byte \<open>p\<close> holds the bits of the stream from \<open>8 * p\<close> on.\<close>

lemma bit_read:
  assumes "pos + n \<le> length bs" and "8 * n = LENGTH('a::len)"
  shows "bit (get_uint (take n (drop pos bs)) :: 'a word) j \<longleftrightarrow> j < 8 * n \<and> stream_bit bs (8 * pos + (8 * n - 1 - j))"
proof (cases "j < 8 * n")
  case True
  then have d: "j div 8 < n"
    by (simp add: less_mult_imp_div_less mult.commute)
  obtain m where m: "n = j div 8 + 1 + m"
    using d by (metis less_eq_Suc_le le_Suc_ex Suc_eq_plus1)
  define a r where "a = j div 8" and "r = j mod 8"
  then have j: "j = 8 * a + r" and r: "r < 8"
    by simp_all
  have "8 * n - 1 - j = 8 * m + (7 - r)"
    unfolding m a_def [symmetric] unfolding j using r by simp
  then have "8 * pos + (8 * n - 1 - j) + j mod 8 = 8 * (pos + (n - 1 - j div 8)) + 7"
    using r m unfolding a_def [symmetric] r_def [symmetric] by simp
  moreover have "j mod 8 < 8"
    by simp
  ultimately have "stream_bit bs (8 * pos + (8 * n - 1 - j)) = bit (bs ! (pos + (n - 1 - j div 8))) (j mod 8)"
    by (rule stream_bit8)
  then show ?thesis
    using True d assms by (simp add: bit_get_uint)
qed (use assms in \<open>simp add: bit_get_uint\<close>)

lemma stream_bit_append:
  fixes xs ys :: "'a::len word list"
  shows "stream_bit (xs @ ys) (LENGTH('a) * length xs + k) = stream_bit ys k"
  by (simp add: stream_bit_def nth_append)

text \<open>What a reader makes of the number: the value at \<open>index\<close>.\<close>

lemma read_value:
  fixes w :: "'a::len word"
  assumes w: "\<And>j. bit w j \<longleftrightarrow> j < n \<and> stream_bit bl (8 * p + (n - 1 - j))"
    and r: "\<And>j. j < 64 \<Longrightarrow> bit r j \<longleftrightarrow> j < bpv \<and> bit w (sh + j)"
    and "bpv \<le> 64" and "sh + bpv \<le> n" and at: "8 * p + n = index * bpv + bpv + sh"
  shows "r = packed_value bpv bl index"
proof (rule packed_value_eqI [symmetric, OF assms(3)])
  fix j :: nat assume "j < 64"
  have "8 * p + (n - 1 - (sh + j)) = index * bpv + (bpv - 1 - j)" if "j < bpv"
    using at assms(4) that by linarith
  then show "bit r j \<longleftrightarrow> j < bpv \<and> stream_bit bl (index * bpv + (bpv - 1 - j))"
    using r [OF \<open>j < 64\<close>] assms(4) by (auto simp: w)
qed

lemma bit_read_after:
  assumes "length pre + p + n \<le> length (pre @ bl)" and "8 * n = LENGTH('a::len)"
  shows "bit (get_uint (take n (drop (length pre + p) (pre @ bl))) :: 'a word) j \<longleftrightarrow>
    j < 8 * n \<and> stream_bit bl (8 * p + (8 * n - 1 - j))"
proof -
  have "8 * (length pre + p) + (8 * n - 1 - j) = LENGTH(8) * length pre + (8 * p + (8 * n - 1 - j))"
    by simp
  then show ?thesis
    unfolding bit_read [OF assms] by (simp only: stream_bit_append)
qed


subsection \<open>The readers\<close>

text \<open>A read of two, four or eight bytes inside the bytes, one byte before their end at the latest.\<close>

lemma ReadU8_at:
  assumes "p < length bl"
  obtains w where "ReadU8 (pre @ bl) (length pre + p) = Inr w"
    and "\<And>j. bit w j \<longleftrightarrow> j < 8 \<and> stream_bit bl (8 * p + (7 - j))"
proof
  show "ReadU8 (pre @ bl) (length pre + p) = Inr (bl ! p)"
    using assms by (simp add: ReadU8_def nth_append)
  show "bit (bl ! p) j \<longleftrightarrow> j < 8 \<and> stream_bit bl (8 * p + (7 - j))" for j
    using stream_bit8 [of "8 * p + (7 - j)" j p bl] bit_u8_less [of "bl ! p" j] by auto
qed

lemma ReadU16_at:
  assumes "p + 2 < length bl"
  obtains w where "ReadU16 (pre @ bl) (length pre + p) = Inr w"
    and "\<And>j. bit w j \<longleftrightarrow> j < 16 \<and> stream_bit bl (8 * p + (15 - j))"
proof
  show "ReadU16 (pre @ bl) (length pre + p) = Inr (get_uint (take 2 (drop (length pre + p) (pre @ bl))))"
    using assms by (simp add: ReadU16_def)
  show "bit (get_uint (take 2 (drop (length pre + p) (pre @ bl))) :: u16) j \<longleftrightarrow>
      j < 16 \<and> stream_bit bl (8 * p + (15 - j))" for j
    using bit_read_after [of pre p 2 bl j, where 'a = 16] assms by simp
qed

lemma ReadU32_at:
  assumes "p + 4 < length bl"
  obtains w where "ReadU32 (pre @ bl) (length pre + p) = Inr w"
    and "\<And>j. bit w j \<longleftrightarrow> j < 32 \<and> stream_bit bl (8 * p + (31 - j))"
proof
  show "ReadU32 (pre @ bl) (length pre + p) = Inr (get_uint (take 4 (drop (length pre + p) (pre @ bl))))"
    using assms by (simp add: ReadU32_def)
  show "bit (get_uint (take 4 (drop (length pre + p) (pre @ bl))) :: u32) j \<longleftrightarrow>
      j < 32 \<and> stream_bit bl (8 * p + (31 - j))" for j
    using bit_read_after [of pre p 4 bl j, where 'a = 32] assms by simp
qed

lemma ReadU64_at:
  assumes "p + 8 < length bl"
  obtains w where "ReadU64 (pre @ bl) (length pre + p) = Inr w"
    and "\<And>j. bit w j \<longleftrightarrow> j < 64 \<and> stream_bit bl (8 * p + (63 - j))"
proof
  show "ReadU64 (pre @ bl) (length pre + p) = Inr (get_uint (take 8 (drop (length pre + p) (pre @ bl))))"
    using assms by (simp add: ReadU64_def)
  show "bit (get_uint (take 8 (drop (length pre + p) (pre @ bl))) :: u64) j \<longleftrightarrow>
      j < 64 \<and> stream_bit bl (8 * p + (63 - j))" for j
    using bit_read_after [of pre p 8 bl j, where 'a = 64] assms by simp
qed

lemma push_bit_small: "push_bit 1 n = 2 * n" "push_bit 2 n = 4 * n" "push_bit 3 n = 8 * n" for n :: nat
  by (simp_all add: push_bit_eq_mult)

text \<open>The position of a value of half a byte more or less than whole bytes\<close>

lemma odd_nibbles:
  fixes i :: nat
  assumes "odd c"
  shows "8 * (i * (4 * c) div 8) + 4 = i * (4 * c) + push_bit 2 ((i + 1) mod 2)"
proof -
  have "i * (4 * c) div 8 = i * c div 2"
    using div_mult_mult1 [of 4 "i * c" 2] by (simp add: ac_simps)
  moreover have "2 * (i * c div 2) + i mod 2 = i * c"
    using assms by (metis mult_div_mod_eq mod2_eq_if even_mult_iff)
  moreover have "i mod 2 + (i + 1) mod 2 = 1"
    by (cases "even i") (simp_all add: mod2_eq_if)
  ultimately show ?thesis
    by (simp add: push_bit_small)
qed

lemmas read_bits = bit_and_iff bit_mask_iff bit_ucast_iff bit_drop_bit_eq add.assoc [symmetric]

lemma read1:
  assumes "i * 1 + 26 \<le> 8 * length bl"
  shows "DirectPackedReader1_Get (pre @ bl) (length pre) i = Inr (packed_value 1 bl i)"
proof -
  define sh where "sh = 7 - i mod 8"
  then have sh: "sh \<le> 7"
    by (simp add: push_bit_small)
  have at: "8 * (i div 8) + 8 = i * 1 + 1 + (sh)"
    unfolding sh_def push_bit_small by presburger
  then have p: "i div 8 + 1 \<le> length bl"
    using assms sh by linarith
  obtain w where w: "ReadU8 (pre @ bl) (length pre + i div 8) = Inr w"
    "\<And>j. bit w j \<longleftrightarrow> j < 8 \<and> stream_bit bl (8 * (i div 8) + (8 - 1 - j))"
    using ReadU8_at [of "i div 8" bl pre] p by auto
  have m: "(0x1 :: u64) = mask 1"
    by (simp add: mask_eq_exp_minus_1)
  have "ucast (drop_bit sh w) AND mask 1 = packed_value 1 bl i"
    by (rule read_value [OF w(2) _ _ _ at]) (use sh in \<open>auto simp: read_bits w(2) bit_1_iff\<close>)
  then show ?thesis
    unfolding DirectPackedReader1_Get_def Let_def m sh_def [symmetric] w(1) by simp
qed

lemma read2:
  assumes "i * 2 + 28 \<le> 8 * length bl"
  shows "DirectPackedReader2_Get (pre @ bl) (length pre) i = Inr (packed_value 2 bl i)"
proof -
  define sh where "sh = push_bit 1 (3 - i mod 4)"
  then have sh: "sh \<le> 6"
    by (simp add: push_bit_small)
  have at: "8 * (i div 4) + 8 = i * 2 + 2 + (sh)"
    unfolding sh_def push_bit_small by presburger
  then have p: "i div 4 + 1 \<le> length bl"
    using assms sh by linarith
  obtain w where w: "ReadU8 (pre @ bl) (length pre + i div 4) = Inr w"
    "\<And>j. bit w j \<longleftrightarrow> j < 8 \<and> stream_bit bl (8 * (i div 4) + (8 - 1 - j))"
    using ReadU8_at [of "i div 4" bl pre] p by auto
  have m: "(0x3 :: u64) = mask 2"
    by (simp add: mask_eq_exp_minus_1)
  have "ucast (drop_bit sh w) AND mask 2 = packed_value 2 bl i"
    by (rule read_value [OF w(2) _ _ _ at]) (use sh in \<open>auto simp: read_bits w(2)\<close>)
  then show ?thesis
    unfolding DirectPackedReader2_Get_def Let_def m sh_def [symmetric] w(1) by simp
qed

lemma read4:
  assumes "i * 4 + 32 \<le> 8 * length bl"
  shows "DirectPackedReader4_Get (pre @ bl) (length pre) i = Inr (packed_value 4 bl i)"
proof -
  define sh where "sh = push_bit 2 ((i + 1) mod 2)"
  then have sh: "sh \<le> 4"
    by (simp add: push_bit_small)
  have at: "8 * (i div 2) + 8 = i * 4 + 4 + (sh)"
    using odd_nibbles [of 1 i] by (simp add: sh_def)
  then have p: "i div 2 + 1 \<le> length bl"
    using assms sh by linarith
  obtain w where w: "ReadU8 (pre @ bl) (length pre + i div 2) = Inr w"
    "\<And>j. bit w j \<longleftrightarrow> j < 8 \<and> stream_bit bl (8 * (i div 2) + (8 - 1 - j))"
    using ReadU8_at [of "i div 2" bl pre] p by auto
  have m: "(0xf :: u64) = mask 4"
    by (simp add: mask_eq_exp_minus_1)
  have "ucast (drop_bit sh w) AND mask 4 = packed_value 4 bl i"
    by (rule read_value [OF w(2) _ _ _ at]) (use sh in \<open>auto simp: read_bits w(2)\<close>)
  then show ?thesis
    unfolding DirectPackedReader4_Get_def Let_def m sh_def [symmetric] w(1) by simp
qed

lemma read8:
  assumes "i * 8 + 40 \<le> 8 * length bl"
  shows "DirectPackedReader8_Get (pre @ bl) (length pre) i = Inr (packed_value 8 bl i)"
proof -
  have at: "8 * (i) + 8 = i * 8 + 8 + 0"
    by (simp add: push_bit_small)
  then have p: "i + 1 \<le> length bl"
    using assms by linarith
  obtain w where w: "ReadU8 (pre @ bl) (length pre + i) = Inr w"
    "\<And>j. bit w j \<longleftrightarrow> j < 8 \<and> stream_bit bl (8 * (i) + (8 - 1 - j))"
    using ReadU8_at [of "i" bl pre] p by auto
  have "ucast w = packed_value 8 bl i"
    by (rule read_value [OF w(2) _ _ _ at]) (auto simp: read_bits w(2))
  then show ?thesis
    unfolding DirectPackedReader8_Get_def Let_def w(1) by simp
qed

lemma read12:
  assumes "i * 12 + 48 \<le> 8 * length bl"
  shows "DirectPackedReader12_Get (pre @ bl) (length pre) i = Inr (packed_value 12 bl i)"
proof -
  define sh where "sh = push_bit 2 ((i + 1) mod 2)"
  then have sh: "sh \<le> 4"
    by (simp add: push_bit_small)
  have at: "8 * (i * 12 div 8) + 16 = i * 12 + 12 + (sh)"
    using odd_nibbles [of 3 i] by (simp add: sh_def)
  then have p: "i * 12 div 8 + 2 < length bl"
    using assms sh by linarith
  obtain w where w: "ReadU16 (pre @ bl) (length pre + i * 12 div 8) = Inr w"
    "\<And>j. bit w j \<longleftrightarrow> j < 16 \<and> stream_bit bl (8 * (i * 12 div 8) + (16 - 1 - j))"
    using ReadU16_at [of "i * 12 div 8" bl pre] p by auto
  have m: "(0xfff :: u64) = mask 12"
    by (simp add: mask_eq_exp_minus_1)
  have "ucast (drop_bit sh w) AND mask 12 = packed_value 12 bl i"
    by (rule read_value [OF w(2) _ _ _ at]) (use sh in \<open>auto simp: read_bits w(2)\<close>)
  then show ?thesis
    unfolding DirectPackedReader12_Get_def Let_def m sh_def [symmetric] w(1) by simp
qed

lemma read16:
  assumes "i * 16 + 56 \<le> 8 * length bl"
  shows "DirectPackedReader16_Get (pre @ bl) (length pre) i = Inr (packed_value 16 bl i)"
proof -
  have at: "8 * (push_bit 1 i) + 16 = i * 16 + 16 + 0"
    by (simp add: push_bit_small)
  then have p: "push_bit 1 i + 2 < length bl"
    using assms by linarith
  obtain w where w: "ReadU16 (pre @ bl) (length pre + push_bit 1 i) = Inr w"
    "\<And>j. bit w j \<longleftrightarrow> j < 16 \<and> stream_bit bl (8 * (push_bit 1 i) + (16 - 1 - j))"
    using ReadU16_at [of "push_bit 1 i" bl pre] p by auto
  have "ucast w = packed_value 16 bl i"
    by (rule read_value [OF w(2) _ _ _ at]) (auto simp: read_bits w(2))
  then show ?thesis
    unfolding DirectPackedReader16_Get_def Let_def w(1) by simp
qed

lemma read20:
  assumes "i * 20 + 64 \<le> 8 * length bl"
  shows "DirectPackedReader20_Get (pre @ bl) (length pre) i = Inr (packed_value 20 bl i)"
proof -
  define sh where "sh = push_bit 2 ((i + 1) mod 2)"
  then have sh: "sh \<le> 4"
    by (simp add: push_bit_small)
  have at: "8 * (i * 20 div 8) + 32 = i * 20 + 20 + (8 + sh)"
    using odd_nibbles [of 5 i] by (simp add: sh_def)
  then have p: "i * 20 div 8 + 4 < length bl"
    using assms sh by linarith
  obtain w where w: "ReadU32 (pre @ bl) (length pre + i * 20 div 8) = Inr w"
    "\<And>j. bit w j \<longleftrightarrow> j < 32 \<and> stream_bit bl (8 * (i * 20 div 8) + (32 - 1 - j))"
    using ReadU32_at [of "i * 20 div 8" bl pre] p by auto
  have m: "(0xfffff :: u64) = mask 20"
    by (simp add: mask_eq_exp_minus_1)
  have "ucast (drop_bit sh (drop_bit 8 w)) AND mask 20 = packed_value 20 bl i"
    by (rule read_value [OF w(2) _ _ _ at]) (use sh in \<open>auto simp: read_bits w(2)\<close>)
  then show ?thesis
    unfolding DirectPackedReader20_Get_def Let_def m sh_def [symmetric] w(1) by simp
qed

lemma read24:
  assumes "i * 24 + 72 \<le> 8 * length bl"
  shows "DirectPackedReader24_Get (pre @ bl) (length pre) i = Inr (packed_value 24 bl i)"
proof -
  have at: "8 * (i * 3) + 32 = i * 24 + 24 + 8"
    by (simp add: push_bit_small)
  then have p: "i * 3 + 4 < length bl"
    using assms by linarith
  obtain w where w: "ReadU32 (pre @ bl) (length pre + i * 3) = Inr w"
    "\<And>j. bit w j \<longleftrightarrow> j < 32 \<and> stream_bit bl (8 * (i * 3) + (32 - 1 - j))"
    using ReadU32_at [of "i * 3" bl pre] p by auto
  have "drop_bit 8 (ucast w) = packed_value 24 bl i"
    by (rule read_value [OF w(2) _ _ _ at]) (auto simp: read_bits w(2))
  then show ?thesis
    unfolding DirectPackedReader24_Get_def Let_def w(1) by simp
qed

lemma read28:
  assumes "i * 28 + 80 \<le> 8 * length bl"
  shows "DirectPackedReader28_Get (pre @ bl) (length pre) i = Inr (packed_value 28 bl i)"
proof -
  define sh where "sh = push_bit 2 ((i + 1) mod 2)"
  then have sh: "sh \<le> 4"
    by (simp add: push_bit_small)
  have at: "8 * (i * 28 div 8) + 32 = i * 28 + 28 + (sh)"
    using odd_nibbles [of 7 i] by (simp add: sh_def)
  then have p: "i * 28 div 8 + 4 < length bl"
    using assms sh by linarith
  obtain w where w: "ReadU32 (pre @ bl) (length pre + i * 28 div 8) = Inr w"
    "\<And>j. bit w j \<longleftrightarrow> j < 32 \<and> stream_bit bl (8 * (i * 28 div 8) + (32 - 1 - j))"
    using ReadU32_at [of "i * 28 div 8" bl pre] p by auto
  have m: "(0xfffffff :: u64) = mask 28"
    by (simp add: mask_eq_exp_minus_1)
  have "drop_bit sh (ucast w) AND mask 28 = packed_value 28 bl i"
    by (rule read_value [OF w(2) _ _ _ at]) (use sh in \<open>auto simp: read_bits w(2)\<close>)
  then show ?thesis
    unfolding DirectPackedReader28_Get_def Let_def m sh_def [symmetric] w(1) by simp
qed

lemma read32:
  assumes "i * 32 + 88 \<le> 8 * length bl"
  shows "DirectPackedReader32_Get (pre @ bl) (length pre) i = Inr (packed_value 32 bl i)"
proof -
  have at: "8 * (push_bit 2 i) + 32 = i * 32 + 32 + 0"
    by (simp add: push_bit_small)
  then have p: "push_bit 2 i + 4 < length bl"
    using assms by linarith
  obtain w where w: "ReadU32 (pre @ bl) (length pre + push_bit 2 i) = Inr w"
    "\<And>j. bit w j \<longleftrightarrow> j < 32 \<and> stream_bit bl (8 * (push_bit 2 i) + (32 - 1 - j))"
    using ReadU32_at [of "push_bit 2 i" bl pre] p by auto
  have m: "(0xffffffff :: u64) = mask 32"
    by (simp add: mask_eq_exp_minus_1)
  have "ucast w AND mask 32 = packed_value 32 bl i"
    by (rule read_value [OF w(2) _ _ _ at]) (auto simp: read_bits w(2))
  then show ?thesis
    unfolding DirectPackedReader32_Get_def Let_def m w(1) by simp
qed

lemma read40:
  assumes "i * 40 + 104 \<le> 8 * length bl"
  shows "DirectPackedReader40_Get (pre @ bl) (length pre) i = Inr (packed_value 40 bl i)"
proof -
  have at: "8 * (i * 5) + 64 = i * 40 + 40 + 24"
    by (simp add: push_bit_small)
  then have p: "i * 5 + 8 < length bl"
    using assms by linarith
  obtain w where w: "ReadU64 (pre @ bl) (length pre + i * 5) = Inr w"
    "\<And>j. bit w j \<longleftrightarrow> j < 64 \<and> stream_bit bl (8 * (i * 5) + (64 - 1 - j))"
    using ReadU64_at [of "i * 5" bl pre] p by auto
  have "drop_bit 24 w = packed_value 40 bl i"
    by (rule read_value [OF w(2) _ _ _ at]) (auto simp: read_bits w(2))
  then show ?thesis
    unfolding DirectPackedReader40_Get_def Let_def w(1) by simp
qed

lemma read48:
  assumes "i * 48 + 120 \<le> 8 * length bl"
  shows "DirectPackedReader48_Get (pre @ bl) (length pre) i = Inr (packed_value 48 bl i)"
proof -
  have at: "8 * (i * 6) + 64 = i * 48 + 48 + 16"
    by (simp add: push_bit_small)
  then have p: "i * 6 + 8 < length bl"
    using assms by linarith
  obtain w where w: "ReadU64 (pre @ bl) (length pre + i * 6) = Inr w"
    "\<And>j. bit w j \<longleftrightarrow> j < 64 \<and> stream_bit bl (8 * (i * 6) + (64 - 1 - j))"
    using ReadU64_at [of "i * 6" bl pre] p by auto
  have "drop_bit 16 w = packed_value 48 bl i"
    by (rule read_value [OF w(2) _ _ _ at]) (auto simp: read_bits w(2))
  then show ?thesis
    unfolding DirectPackedReader48_Get_def Let_def w(1) by simp
qed

lemma read56:
  assumes "i * 56 + 136 \<le> 8 * length bl"
  shows "DirectPackedReader56_Get (pre @ bl) (length pre) i = Inr (packed_value 56 bl i)"
proof -
  have at: "8 * (i * 7) + 64 = i * 56 + 56 + 8"
    by (simp add: push_bit_small)
  then have p: "i * 7 + 8 < length bl"
    using assms by linarith
  obtain w where w: "ReadU64 (pre @ bl) (length pre + i * 7) = Inr w"
    "\<And>j. bit w j \<longleftrightarrow> j < 64 \<and> stream_bit bl (8 * (i * 7) + (64 - 1 - j))"
    using ReadU64_at [of "i * 7" bl pre] p by auto
  have "drop_bit 8 w = packed_value 56 bl i"
    by (rule read_value [OF w(2) _ _ _ at]) (auto simp: read_bits w(2))
  then show ?thesis
    unfolding DirectPackedReader56_Get_def Let_def w(1) by simp
qed

lemma read64:
  assumes "i * 64 + 152 \<le> 8 * length bl"
  shows "DirectPackedReader64_Get (pre @ bl) (length pre) i = Inr (packed_value 64 bl i)"
proof -
  have at: "8 * (push_bit 3 i) + 64 = i * 64 + 64 + 0"
    by (simp add: push_bit_small)
  then have p: "push_bit 3 i + 8 < length bl"
    using assms by linarith
  obtain w where w: "ReadU64 (pre @ bl) (length pre + push_bit 3 i) = Inr w"
    "\<And>j. bit w j \<longleftrightarrow> j < 64 \<and> stream_bit bl (8 * (push_bit 3 i) + (64 - 1 - j))"
    using ReadU64_at [of "push_bit 3 i" bl pre] p by auto
  have "w = packed_value 64 bl i"
    by (rule read_value [OF w(2) _ _ _ at]) (auto simp: read_bits w(2))
  then show ?thesis
    unfolding DirectPackedReader64_Get_def Let_def w(1) by simp
qed


lemma GetInstance_reads:
  assumes "bpv \<in> {1, 2, 4, 8, 12, 16, 20, 24, 28, 32, 40, 48, 56, 64}"
    and "i * bpv + (2 * bpv + 24) \<le> 8 * length bl"
  shows "\<exists>get. GetInstance bpv = Inr get \<and> get (pre @ bl) (length pre) i = Inr (packed_value bpv bl i)"
  using assms by (elim insertE emptyE)
    (simp_all add: GetInstance_def read1 read2 read4 read8 read12 read16 read20 read24 read28 read32 read40 read48 read56 read64)

subsection \<open>The bytes of the values\<close>

definition encoded :: "nat \<Rightarrow> u64 list \<Rightarrow> u8 list" where
  "encoded bpv xs = map (stream_block bpv xs) [0..<length xs * bpv div 8]"

lemma encoded_append:
  assumes "length xs * bpv = 8 * m" and "0 < bpv"
  shows "encoded bpv (xs @ ys) = encoded bpv xs @ encoded bpv ys"
proof -
  define n where "n = length ys * bpv div 8"
  have l: "length (xs @ ys) * bpv div 8 = m + n"
    using assms(1) by (simp add: add_mult_distrib n_def)
  have v1: "values_bit bpv (xs @ ys) k = values_bit bpv xs k" if "k < 8 * m" for k
    using that assms(1) by (simp add: values_bit_def nth_append less_mult_imp_div_less)
  have v2: "values_bit bpv (xs @ ys) (8 * m + k) = values_bit bpv ys k" for k
    using assms(2) by (simp add: values_bit_def nth_append assms(1) [symmetric])
  have b1: "(stream_block bpv (xs @ ys) q :: u8) = stream_block bpv xs q" if "q < m" for q
    using that v1 by (intro bit_word_eqI) (simp add: bit_stream_block)
  have b2: "(stream_block bpv (xs @ ys) (m + q) :: u8) = stream_block bpv ys q" for q
  proof (intro bit_word_eqI)
    fix j :: nat
    show "bit (stream_block bpv (xs @ ys) (m + q) :: u8) j = bit (stream_block bpv ys q :: u8) j"
      using v2 [of "q * 8 + (7 - j)"] by (simp add: bit_stream_block add_mult_distrib add.assoc mult.commute)
  qed
  have b2': "(stream_block bpv (xs @ ys) i :: u8) = stream_block bpv ys (i - m)" if "\<not> i < m" for i
    using that b2 [of "i - m"] by simp
  have "(map (stream_block bpv (xs @ ys)) [0..<m + n] :: u8 list) = map (stream_block bpv xs) [0..<m] @ map (stream_block bpv ys) [0..<n]"
    by (intro nth_equalityI) (auto simp: nth_append b1 b2')
  then show ?thesis
    unfolding encoded_def l n_def [symmetric] assms(1) by simp
qed


lemma length_encoded [simp]: "length (encoded bpv xs) = length xs * bpv div 8"
  by (simp add: encoded_def)

lemma packed_value_encoded:
  assumes "bpv \<le> 64" and "take_bit bpv (xs ! i) = xs ! i" and "length xs * bpv = 8 * m" and "i < length xs"
  shows "packed_value bpv (encoded bpv xs @ t) i = xs ! i"
proof -
  have "packed_value bpv (encoded bpv xs @ t) i = take_bit bpv (xs ! i)"
  proof (rule packed_value_of_values [OF assms(1)])
    fix k
    assume "i * bpv \<le> k" and k: "k < (i + 1) * bpv"
    have "(i + 1) * bpv \<le> length xs * bpv"
      using assms(4) by (intro mult_le_mono1) simp
    then have "k < m * LENGTH(8)"
      using k assms(3) by simp
    then show "stream_bit (encoded bpv xs @ t) k = values_bit bpv xs k"
      using assms(3) by (intro stream_bit_of_blocks) (auto simp: encoded_def nth_append)
  qed
  then show ?thesis
    using assms(2) by simp
qed

subsection \<open>The state of the writer\<close>

text \<open>
  \<open>dw_inv bpv pre L vs d\<close>: the writer has been given the values \<open>vs\<close>: whole buffers of them follow \<open>pre\<close>
  on the output, and the others are at the start of the buffer of \<open>L\<close> values.
\<close>

definition dw_inv :: "nat \<Rightarrow> u8 list \<Rightarrow> nat \<Rightarrow> u64 list \<Rightarrow> u64 list \<Rightarrow> DirectWriter \<Rightarrow> bool" where
  "dw_inv bpv pre L out vs d \<longleftrightarrow>
     Of FormatPacked bpv = Some (Some (dw_encoder d)) \<and> dw_bitsPerValue d = bpv \<and> dw_count d = length vs \<and>
     dw_output d = pre @ encoded bpv out \<and> L dvd length out \<and> out @ take (dw_off d) (dw_nextValues d) = vs \<and>
     dw_off d < L \<and> length (dw_nextValues d) = L \<and> fits_width bpv (dw_nextValues d) \<and>
     dw_iterations d * bop_ByteValueCount (dw_encoder d) = L \<and>
     length (dw_nextBlocks d) = dw_iterations d * bop_ByteBlockCount (dw_encoder d)"

lemma byte_counts:
  assumes "Of FormatPacked bpv = Some (Some op)"
  shows "n * bop_ByteValueCount op * bpv = 8 * (n * bop_ByteBlockCount op)" and "0 < bop_ByteValueCount op" and "0 < bpv" and "bpv \<le> 64"
proof -
  obtain b where b: "packed_width bpv" "NewPacked bpv = Some b" "bp_wf b"
    using Of_packed_cases [OF assms] by blast
  show "n * bop_ByteValueCount op * bpv = 8 * (n * bop_ByteBlockCount op)"
    using packed_counts(2) [OF b(1)] by (simp add: Of_packed_methods [OF assms] mult.assoc)
  show "0 < bop_ByteValueCount op"
    using b by (intro gr0I) (auto simp: Of_packed_methods [OF assms] packed_count_def bp_wf_def)
  show "0 < bpv" "bpv \<le> 64"
    using b(1) by auto
qed

lemma flush_writes:
  assumes "Of FormatPacked bpv = Some (Some (dw_encoder d))" and "dw_bitsPerValue d = bpv"
    and L: "length (dw_nextValues d) = dw_iterations d * bop_ByteValueCount (dw_encoder d)"
    and B: "length (dw_nextBlocks d) = dw_iterations d * bop_ByteBlockCount (dw_encoder d)"
    and "fits_width bpv (dw_nextValues d)"
  shows "DirectWriter_flush d = Some (d\<lparr>dw_nextBlocks := encoded bpv (dw_nextValues d),
    dw_output := dw_output d @ encoded bpv (dw_nextValues d), dw_off := 0\<rparr>)"
proof -
  note m = Of_packed_methods [OF assms(1)]
  note c = byte_counts [OF assms(1)]
  have l: "length (dw_nextValues d) * bpv = 8 * length (dw_nextBlocks d)"
    using c(1) [of "dw_iterations d"] L B by simp
  have e: "length (encoded bpv (dw_nextValues d)) = length (dw_nextBlocks d)"
    using l by simp
  have q: "length (dw_nextValues d) * bpv div 8 = dw_iterations d * packed_count bp_byteBlockCount bpv"
    using l B by (simp add: m)
  have "bop_EncodeBytes (dw_encoder d) (dw_nextValues d) (dw_nextBlocks d) (dw_iterations d) =
      Some (encoded bpv (dw_nextValues d))"
    using packed_EncodeBytes_eq [OF m(1) assms(5), of "dw_nextBlocks d" "dw_iterations d"] L B
    by (simp add: m encoded_def q [unfolded L m] write_block_def)
  moreover have "FormatPacked_ByteCount (length (dw_nextValues d)) bpv = length (dw_nextBlocks d)"
    using l by (simp add: FormatPacked_ByteCount_def)
  ultimately show ?thesis
    using e assms(2) by (simp add: DirectWriter_flush_def)
qed


lemma dw_inv_Add:
  assumes inv: "dw_inv bpv pre L out vs d" and "length vs < dw_numValues d" and v: "take_bit bpv v = v"
  shows "\<exists>d' out'. DirectWriter_Add d v = Some (Inr (), d') \<and> dw_inv bpv pre L out' (vs @ [v]) d' \<and>
    dw_numValues d' = dw_numValues d"
proof -
  let ?vals = "(dw_nextValues d)[dw_off d := v]"
  define d1 where "d1 = d\<lparr>dw_nextValues := ?vals, dw_off := dw_off d + 1\<rparr>"
  have off: "dw_off d < length (dw_nextValues d)"
    using inv by (simp add: dw_inv_def)
  have taken: "out @ take (dw_off d + 1) ?vals = vs @ [v]"
    using inv off by (simp add: dw_inv_def take_Suc_conv_app_nth)
  have fits: "fits_width bpv ?vals"
    using inv v set_update_subset_insert [of "dw_nextValues d" "dw_off d" v]
    by (auto simp: dw_inv_def fits_width_def)
  show ?thesis
  proof (cases "length ?vals = dw_off d + 1")
    case False
    then have "DirectWriter_Add d v = Some (Inr (), d1\<lparr>dw_count := dw_count d + 1\<rparr>)"
      using assms(2) off inv by (simp add: DirectWriter_Add_def slice_set_def d1_def dw_inv_def)
    moreover have "dw_inv bpv pre L out (vs @ [v]) (d1\<lparr>dw_count := dw_count d + 1\<rparr>)"
      using inv taken fits off False by (simp add: dw_inv_def d1_def)
    ultimately show ?thesis
      by (auto simp: d1_def)
  next
    case True
    have f: "DirectWriter_flush d1 = Some (d1\<lparr>dw_nextBlocks := encoded bpv ?vals,
        dw_output := dw_output d @ encoded bpv ?vals, dw_off := 0\<rparr>)" (is "_ = Some ?d2")
      using flush_writes [of bpv d1] inv fits by (simp add: dw_inv_def d1_def)
    have "DirectWriter_Add d v = Some (Inr (), ?d2\<lparr>dw_count := dw_count d + 1\<rparr>)"
      using assms(2) off True f inv by (simp add: DirectWriter_Add_def slice_set_def d1_def dw_inv_def)
    moreover have "dw_inv bpv pre L (out @ ?vals) (vs @ [v]) (?d2\<lparr>dw_count := dw_count d + 1\<rparr>)"
    proof -
      note c = byte_counts [of bpv "dw_encoder d"]
      have op: "Of FormatPacked bpv = Some (Some (dw_encoder d))" and L: "L dvd length out" "length ?vals = L"
        "dw_iterations d * bop_ByteValueCount (dw_encoder d) = L"
        using inv by (simp_all add: dw_inv_def)
      obtain t where "length out = L * t"
        using L(1) by (elim dvdE)
      then have "length out * bpv = 8 * (t * (dw_iterations d * bop_ByteBlockCount (dw_encoder d)))"
        using c(1) [OF op, of "t * dw_iterations d"] L(3) by (simp add: ac_simps)
      then have "encoded bpv (out @ ?vals) = encoded bpv out @ encoded bpv ?vals"
        using c(3) [OF op] by (intro encoded_append)
      moreover have "L * bpv div 8 = dw_iterations d * bop_ByteBlockCount (dw_encoder d)"
        using c(1) [OF op, of "dw_iterations d"] L(3) by simp
      moreover have "out @ ?vals = vs @ [v]" "0 < L"
        using taken True L off inv by (simp_all add: dw_inv_def del: length_list_update)
      moreover have "L dvd length (out @ ?vals)"
        unfolding length_append L(2) using L(1) by simp
      ultimately show ?thesis
        using inv fits L by (simp add: dw_inv_def d1_def)
    qed
    ultimately show ?thesis
      by (auto simp: d1_def)
  qed
qed

text \<open>The values added one after the other\<close>

primrec DirectWriter_addAll :: "DirectWriter \<Rightarrow> u64 list \<Rightarrow> ((go_error + unit) \<times> DirectWriter) option" where
  "DirectWriter_addAll d [] = Some (Inr (), d)"
| "DirectWriter_addAll d (v # vs) = Option.bind (DirectWriter_Add d v) (\<lambda>(r, d').
     case r of Inl e \<Rightarrow> Some (Inl e, d') | Inr _ \<Rightarrow> DirectWriter_addAll d' vs)"

lemma dw_inv_addAll:
  "dw_inv bpv pre L out us d \<Longrightarrow> length us + length vs \<le> dw_numValues d \<Longrightarrow> fits_width bpv vs \<Longrightarrow>
   \<exists>d' out'. DirectWriter_addAll d vs = Some (Inr (), d') \<and> dw_inv bpv pre L out' (us @ vs) d' \<and>
    dw_numValues d' = dw_numValues d"
proof (induction vs arbitrary: d us out)
  case (Cons v vs)
  then obtain d1 out1 where d1: "DirectWriter_Add d v = Some (Inr (), d1)" "dw_inv bpv pre L out1 (us @ [v]) d1"
      "dw_numValues d1 = dw_numValues d"
    using dw_inv_Add [OF Cons.prems(1), of v] by (auto simp: fits_width_def)
  have "length (us @ [v]) + length vs \<le> dw_numValues d1" "fits_width bpv vs"
    using Cons.prems d1(3) by (simp_all add: fits_width_def)
  from Cons.IH [OF d1(2) this] show ?case
    using d1 by simp
qed auto

lemma dw_inv_Finish:
  assumes inv: "dw_inv bpv pre L out vs d" and "dw_numValues d = length vs"
  obtains d' all where "DirectWriter_Finish d = Some (Inr (), d')" and "dw_output d' = pre @ encoded bpv all @ [0, 0, 0]"
    and "length all * bpv mod 8 = 0" "length vs < length all" "take (length vs) all = vs"
proof -
  note c = byte_counts [of bpv "dw_encoder d"]
  have op: "Of FormatPacked bpv = Some (Some (dw_encoder d))" and L: "L dvd length out" "length (dw_nextValues d) = L"
    "dw_iterations d * bop_ByteValueCount (dw_encoder d) = L" and off: "dw_off d < L"
    and vs: "vs = out @ take (dw_off d) (dw_nextValues d)"
    using inv by (simp_all add: dw_inv_def)
  obtain t where t: "length out = L * t"
    using L(1) by (elim dvdE)
  then have m: "length out * bpv = 8 * (t * (dw_iterations d * bop_ByteBlockCount (dw_encoder d)))"
    using c(1) [OF op, of "t * dw_iterations d"] L(3) by (simp add: ac_simps)
  have e: "encoded bpv (out @ dw_nextValues d) = encoded bpv out @ encoded bpv (dw_nextValues d)"
    using m c(3) [OF op] by (intro encoded_append)
  show thesis
  proof
    show "DirectWriter_Finish d = Some (Inr (), d\<lparr>dw_nextBlocks := encoded bpv (dw_nextValues d),
        dw_output := dw_output d @ encoded bpv (dw_nextValues d) @ [0, 0, 0], dw_off := 0, dw_finished := True\<rparr>)" (is "_ = Some (_, ?d)")
      using flush_writes [of bpv d] inv assms(2) by (simp add: DirectWriter_Finish_def dw_inv_def)
    show "dw_output ?d = pre @ encoded bpv (out @ dw_nextValues d) @ [0, 0, 0]"
      using inv by (simp add: dw_inv_def e)
    have "L * bpv = 8 * (dw_iterations d * bop_ByteBlockCount (dw_encoder d))"
      using c(1) [OF op, of "dw_iterations d"] L(3) by simp
    then show "length (out @ dw_nextValues d) * bpv mod 8 = 0"
      using m L(2) by (simp add: add_mult_distrib)
    show "length vs < length (out @ dw_nextValues d)"
      using off L(2) by (simp add: vs)
    show "take (length vs) (out @ dw_nextValues d) = vs"
      using off L(2) by (simp add: vs)
  qed
qed


lemma bop_ByteCounts_positive:
  assumes "Of FormatPacked bpv = Some (Some op)"
  shows "0 < bop_ByteValueCount op"
  using byte_counts(2) [OF assms] .

lemma Of_packed_total: "1 \<le> bpv \<Longrightarrow> bpv \<le> 64 \<Longrightarrow> \<exists>op. Of FormatPacked bpv = Some (Some op)"
  using packedBulkOps_eq [of bpv] by (auto simp: Of_def) 

lemma ComputeIterations_positive:
  assumes "0 < bop_ByteValueCount op" and "0 < n"
  shows "0 < ComputeIterations op (int n) ram"
proof -
  have "(- int n) div int (bop_ByteValueCount op) < 0"
    using assms by (intro div_neg_pos_less0) simp_all
  then show ?thesis
    by (simp add: ComputeIterations_def Let_def)
qed

lemma dw_inv_New:
  assumes "Of FormatPacked bpv = Some (Some op)" and "0 < n"
  obtains d L where "NewDirectWriter pre n bpv = Some d" and "dw_inv bpv pre L [] [] d" and "dw_numValues d = n"
proof -
  have c: "0 < bop_ByteValueCount op"
    using byte_counts(2) [OF assms(1)] .
  define it where "it = ComputeIterations op (min (int n) 2147483647) 1024"
  have "min (int n) 2147483647 = int (min n 2147483647)"
    by simp
  then have it: "0 < it"
    using ComputeIterations_positive [OF c, of "min n 2147483647" 1024] assms(2) by (simp add: it_def)
  have "int_index it = Some (nat it)"
    using it by (simp add: int_index_def)
  then obtain d where d: "NewDirectWriter pre n bpv = Some d" "dw_encoder d = op" "dw_bitsPerValue d = bpv" "dw_numValues d = n"
      "dw_output d = pre" "dw_count d = 0" "dw_off d = 0" "dw_iterations d = nat it"
      "dw_nextBlocks d = replicate (nat it * bop_ByteBlockCount op) 0" "dw_nextValues d = replicate (nat it * bop_ByteValueCount op) 0"
    using assms(1) by (simp add: NewDirectWriter_def it_def [symmetric])
  moreover have "dw_inv bpv pre (nat it * bop_ByteValueCount op) [] [] d"
    using assms(1) it c by (simp add: dw_inv_def d encoded_def fits_width_def)
  ultimately show thesis
    using that by blast
qed

text \<open>
  C33. Values of a width the reader supports, written by a direct writer behind any bytes, are read back one
  by one, each at its index, from the position where the writer began: the writer accepts exactly the
  announced number of values, flushes its buffer whenever it is full, and \<open>Finish\<close> leaves enough
  bytes behind the last value for the reader of every width.
\<close>

theorem direct_roundtrip:
  assumes "bpv \<in> {1, 2, 4, 8, 12, 16, 20, 24, 28, 32, 40, 48, 56, 64}" and "fits_width bpv vs" and "vs \<noteq> []"
  shows "\<exists>d d' d'' get. NewDirectWriter pre (length vs) bpv = Some d \<and> DirectWriter_addAll d vs = Some (Inr (), d') \<and>
    DirectWriter_Finish d' = Some (Inr (), d'') \<and> take (length pre) (dw_output d'') = pre \<and>
    GetInstance bpv = Inr get \<and> (\<forall>i<length vs. get (dw_output d'') (length pre) i = Inr (vs ! i))"
proof -
  have "1 \<le> bpv" "bpv \<le> 64"
    using assms(1) by auto
  then obtain op where op: "Of FormatPacked bpv = Some (Some op)"
    using Of_packed_total by blast
  obtain d L where d: "NewDirectWriter pre (length vs) bpv = Some d" "dw_inv bpv pre L [] [] d" "dw_numValues d = length vs"
    using dw_inv_New [OF op, of "length vs" pre] assms(3) by auto
  obtain d' out where d': "DirectWriter_addAll d vs = Some (Inr (), d')" "dw_inv bpv pre L out vs d'" "dw_numValues d' = length vs"
    using dw_inv_addAll [OF d(2), of vs] assms(2) d(3) by auto
  obtain d'' all where d'': "DirectWriter_Finish d' = Some (Inr (), d'')" "dw_output d'' = pre @ encoded bpv all @ [0, 0, 0]"
      and all: "length all * bpv mod 8 = 0" "length vs < length all" "take (length vs) all = vs"
    using dw_inv_Finish [OF d'(2,3)] .
  obtain m where m: "length all * bpv = 8 * m"
    using all(1) by auto
  have "\<exists>get. GetInstance bpv = Inr get"
    using assms(1) by (auto simp: GetInstance_def)
  then obtain get where get: "GetInstance bpv = Inr get" ..
  have "get (dw_output d'') (length pre) i = Inr (vs ! i)" if i: "i < length vs" for i
  proof -
    have "(i + 2) * bpv \<le> length all * bpv"
      using i all(2) by (intro mult_le_mono1) simp
    then have "i * bpv + (2 * bpv + 24) \<le> 8 * length (encoded bpv all @ [0, 0, 0])"
      using m by (simp add: add_mult_distrib)
    then have "get (dw_output d'') (length pre) i = Inr (packed_value bpv (encoded bpv all @ [0, 0, 0]) i)"
      using GetInstance_reads [OF assms(1), of i "encoded bpv all @ [0, 0, 0]" pre] get by (auto simp: d''(2))
    moreover have eq: "all ! i = vs ! i"
      using all(3) i by (metis nth_take)
    moreover have "packed_value bpv (encoded bpv all @ [0, 0, 0]) i = all ! i"
      using fits_width_nth [OF assms(2) i] i all(2) by (intro packed_value_encoded [OF \<open>bpv \<le> 64\<close> _ m]) (simp_all add: eq)
    ultimately show ?thesis
      by simp
  qed
  then show ?thesis
    using d(1) d'(1) d'' get by auto
qed

theorem direct_roundtrip_witness:
  "\<exists>d d' d'' get. NewDirectWriter [7] 3 20 = Some d \<and> DirectWriter_addAll d [0xABCDE, 1, 0xFFFFF] = Some (Inr (), d') \<and>
    DirectWriter_Finish d' = Some (Inr (), d'') \<and> GetInstance 20 = Inr get \<and>
    get (dw_output d'') 1 0 = Inr 0xABCDE \<and> get (dw_output d'') 1 1 = Inr 1 \<and> get (dw_output d'') 1 2 = Inr 0xFFFFF"
proof -
  have "fits_width 20 [0xABCDE, 1, 0xFFFFF]"
    by (simp add: fits_width_def take_bit_eq_mask mask_eq_exp_minus_1)
  from direct_roundtrip [of 20, OF _ this, of "[7]"] show ?thesis
    by (fastforce simp: numeral_2_eq_2 numeral_3_eq_3)
qed

end
