(* ===== verification/Selectors.thy ===== *)
theory Selectors
  imports Prelude "HOL-Library.Log_Nat"
begin

text \<open>
  core/util/selector: \<open>introSelector\<close> (introselector.go), which finds the \<open>k\<close>-th element by quick
  select and falls back to medians of medians, and \<open>radixSelector\<close> (radixselector.go), which
  finds it byte by byte. What is selected is reached through an interface: the state of its provider,
  with \<open>Swap\<close>, \<open>Compare\<close> and \<open>ByteAt\<close>, which panic out of range.
\<close>

type_synonym 's Swap = "'s \<Rightarrow> nat \<Rightarrow> nat \<Rightarrow> 's option"
type_synonym 's Compare = "'s \<Rightarrow> nat \<Rightarrow> nat \<Rightarrow> int option"
type_synonym 's ByteAt = "'s \<Rightarrow> nat \<Rightarrow> nat \<Rightarrow> int option"

subsection \<open>Quick select\<close>

text \<open>The two inner loops of \<open>quickSelect\<close>, and the loop around them; the pivot is at \<open>idx\<close>.\<close>

partial_function (option) pass_less :: "(nat \<Rightarrow> nat \<Rightarrow> int option) \<Rightarrow> nat \<Rightarrow> nat \<Rightarrow> nat option" where
  [code]: "pass_less cmp idx left = do {
     c \<leftarrow> cmp idx left;
     if c > 0 then pass_less cmp idx (left + 1) else Some left
   }"

partial_function (option) pass_greater :: "(nat \<Rightarrow> nat \<Rightarrow> int option) \<Rightarrow> nat \<Rightarrow> nat \<Rightarrow> nat \<Rightarrow> nat option" where
  [code]: "pass_greater cmp idx left right =
     (if left < right then do {
        c \<leftarrow> cmp idx right;
        if c \<le> 0 then pass_greater cmp idx left (right - 1) else Some right
      } else Some right)"

partial_function (option) quick_loop ::
  "'s Compare \<Rightarrow> 's Swap \<Rightarrow> 's \<Rightarrow> nat \<Rightarrow> nat \<Rightarrow> nat \<Rightarrow> ('s \<times> nat) option" where
  [code]: "quick_loop cmp sw s idx left right = do {
     left \<leftarrow> pass_less (cmp s) idx left;
     right \<leftarrow> pass_greater (cmp s) idx left right;
     if left < right then do {
       s \<leftarrow> sw s left right;
       quick_loop cmp sw s idx left (right - 1)
     } else Some (s, left)
   }"

text \<open>The median of the first, the last and the middle element goes last.\<close>

definition swap_if_greater :: "'s Compare \<Rightarrow> 's Swap \<Rightarrow> 's \<Rightarrow> nat \<Rightarrow> nat \<Rightarrow> 's option" where
  "swap_if_greater cmp sw s i j = do { c \<leftarrow> cmp s i j; if c > 0 then sw s i j else Some s }"

definition choose_pivot :: "'s Compare \<Rightarrow> 's Swap \<Rightarrow> 's \<Rightarrow> nat \<Rightarrow> nat \<Rightarrow> 's option" where
  "choose_pivot cmp sw s from to = do {
     let mid = (from + to) div 2;
     s \<leftarrow> swap_if_greater cmp sw s from (to - 1);
     c \<leftarrow> cmp s (to - 1) mid;
     if c > 0 then do {
       s \<leftarrow> sw s (to - 1) mid;
       swap_if_greater cmp sw s from (to - 1)
     } else Some s
   }"

subsection \<open>Medians of medians\<close>

partial_function (option) insert_down :: "'s Compare \<Rightarrow> 's Swap \<Rightarrow> 's \<Rightarrow> nat \<Rightarrow> nat \<Rightarrow> 's option" where
  [code]: "insert_down cmp sw s left j =
     (if j > left then do {
        c \<leftarrow> cmp s (j - 1) j;
        if c > 0 then do {
          s \<leftarrow> sw s (j - 1) j;
          insert_down cmp sw s left (j - 1)
        } else Some s
      } else Some s)"

partial_function (option) partition5_loop :: "'s Compare \<Rightarrow> 's Swap \<Rightarrow> 's \<Rightarrow> nat \<Rightarrow> nat \<Rightarrow> nat \<Rightarrow> 's option" where
  [code]: "partition5_loop cmp sw s left right i =
     (if i \<le> right then do {
        s \<leftarrow> insert_down cmp sw s left i;
        partition5_loop cmp sw s left right (i + 1)
      } else Some s)"

definition partition5 :: "'s Compare \<Rightarrow> 's Swap \<Rightarrow> 's \<Rightarrow> nat \<Rightarrow> nat \<Rightarrow> ('s \<times> nat) option" where
  "partition5 cmp sw s left right = do {
     s \<leftarrow> partition5_loop cmp sw s left right (left + 1);
     Some (s, (left + right) div 2)
   }"

partial_function (option) medians_loop :: "'s Compare \<Rightarrow> 's Swap \<Rightarrow> 's \<Rightarrow> nat \<Rightarrow> nat \<Rightarrow> nat \<Rightarrow> 's option" where
  [code]: "medians_loop cmp sw s left right i =
     (if i \<le> right then do {
        (s, median5) \<leftarrow> partition5 cmp sw s i (min (i + 4) right);
        s \<leftarrow> sw s median5 (left + (i - left) div 5);
        medians_loop cmp sw s left right (i + 5)
      } else Some s)"

text \<open>The elements that compare less than the pivot at \<open>right\<close>, then those that compare equal\<close>

partial_function (option) move_less :: "'s Compare \<Rightarrow> 's Swap \<Rightarrow> 's \<Rightarrow> nat \<Rightarrow> nat \<Rightarrow> nat \<Rightarrow> ('s \<times> nat) option" where
  [code]: "move_less cmp sw s right i storeIndex =
     (if i < right then do {
        c \<leftarrow> cmp s right i;
        if c > 0 then do {
          s \<leftarrow> sw s storeIndex i;
          move_less cmp sw s right (i + 1) (storeIndex + 1)
        } else move_less cmp sw s right (i + 1) storeIndex
      } else Some (s, storeIndex))"

partial_function (option) move_equal :: "'s Compare \<Rightarrow> 's Swap \<Rightarrow> 's \<Rightarrow> nat \<Rightarrow> nat \<Rightarrow> nat \<Rightarrow> ('s \<times> nat) option" where
  [code]: "move_equal cmp sw s right i storeIndexEq =
     (if i < right then do {
        c \<leftarrow> cmp s right i;
        if c = 0 then do {
          s \<leftarrow> sw s storeIndexEq i;
          move_equal cmp sw s right (i + 1) (storeIndexEq + 1)
        } else move_equal cmp sw s right (i + 1) storeIndexEq
      } else Some (s, storeIndexEq))"

definition sel_partition :: "'s Compare \<Rightarrow> 's Swap \<Rightarrow> 's \<Rightarrow> nat \<Rightarrow> nat \<Rightarrow> nat \<Rightarrow> nat \<Rightarrow> ('s \<times> nat) option" where
  "sel_partition cmp sw s left right k pivotIndex = do {
     s \<leftarrow> sw s pivotIndex right;
     (s, storeIndex) \<leftarrow> move_less cmp sw s right left left;
     (s, storeIndexEq) \<leftarrow> move_equal cmp sw s right storeIndex storeIndex;
     s \<leftarrow> sw s right storeIndexEq;
     Some (s, if k < storeIndex then storeIndex else if k \<le> storeIndexEq then k else storeIndexEq)
   }"

text \<open>
  \<open>medianOfMediansSelect\<close> and \<open>pivot\<close>, which call each other. The first argument bounds the rounds and
  the calls one inside another; it is never reached from \<open>slowSelect\<close>, which starts with the number of
  elements.
\<close>

primrec medianOfMediansSelect ::
  "nat \<Rightarrow> 's Compare \<Rightarrow> 's Swap \<Rightarrow> 's \<Rightarrow> nat \<Rightarrow> nat \<Rightarrow> nat \<Rightarrow> ('s \<times> nat) option" where
  "medianOfMediansSelect 0 cmp sw s left right k = None"
| "medianOfMediansSelect (Suc n) cmp sw s left right k =
     (if left = right then Some (s, left)
      else do {
        (s, pivotIndex) \<leftarrow>
          (if right - left < 5 then partition5 cmp sw s left right
           else do {
             s \<leftarrow> medians_loop cmp sw s left right left;
             medianOfMediansSelect n cmp sw s left (left + (right - left) div 5) ((right - left) div 10 + left + 1)
           });
        (s, pivotIndex) \<leftarrow> sel_partition cmp sw s left right k pivotIndex;
        if k = pivotIndex then Some (s, k)
        else if k < pivotIndex then medianOfMediansSelect n cmp sw s left (pivotIndex - 1) k
        else medianOfMediansSelect n cmp sw s (pivotIndex + 1) right k
      })"

definition slowSelect :: "'s Compare \<Rightarrow> 's Swap \<Rightarrow> 's \<Rightarrow> nat \<Rightarrow> nat \<Rightarrow> nat \<Rightarrow> ('s \<times> nat) option" where
  "slowSelect cmp sw s from to k = medianOfMediansSelect (to - from) cmp sw s from (to - 1) k"

primrec quickSelect :: "nat \<Rightarrow> 's Compare \<Rightarrow> 's Swap \<Rightarrow> 's \<Rightarrow> nat \<Rightarrow> nat \<Rightarrow> nat \<Rightarrow> 's option" where
  "quickSelect 0 cmp sw s from to k =
     (if to - from = 1 then Some s else do { (s, _) \<leftarrow> slowSelect cmp sw s from to k; Some s })"
| "quickSelect (Suc maxDepth) cmp sw s from to k =
     (if to - from = 1 then Some s
      else do {
        s \<leftarrow> choose_pivot cmp sw s from to;
        (s, left) \<leftarrow> quick_loop cmp sw s (to - 1) (from + 1) (to - 2);
        s \<leftarrow> sw s left (to - 1);
        if left = k then Some s
        else if left < k then quickSelect maxDepth cmp sw s (left + 1) to k
        else quickSelect maxDepth cmp sw s from left k
      })"

text \<open>The depth is \<open>2 * math.Log2(to - from)\<close> cut to an integer.\<close>

definition intro_SelectK :: "'s Compare \<Rightarrow> 's Swap \<Rightarrow> 's \<Rightarrow> nat \<Rightarrow> nat \<Rightarrow> nat \<Rightarrow> 's option" where
  "intro_SelectK cmp sw s from to k = quickSelect (floorlog 2 ((to - from) * (to - from)) - 1) cmp sw s from to k"


subsection \<open>Radix select\<close>

text \<open>
  The buffers \<open>histogram\<close> and \<open>commonPrefix\<close> are overwritten before they are read, so they are values here.
  \<open>ByteAt\<close> is -1 behind the end of a key; \<open>getBucket\<close> adds one to it.
\<close>

definition getBucket :: "'s ByteAt \<Rightarrow> 's \<Rightarrow> nat \<Rightarrow> nat \<Rightarrow> int option" where
  "getBucket byteAt s i k = do { b \<leftarrow> byteAt s i k; Some (b + 1) }"

definition histogram_add :: "nat list \<Rightarrow> int \<Rightarrow> nat list option" where
  "histogram_add histogram bucket = do {
     j \<leftarrow> int_index bucket;
     n \<leftarrow> slice_get histogram j;
     slice_set histogram j (n + 1)
   }"

definition histogram_put :: "nat list \<Rightarrow> int \<Rightarrow> nat \<Rightarrow> nat list option" where
  "histogram_put histogram bucket n = do { j \<leftarrow> int_index bucket; slice_set histogram j n }"

partial_function (option) buildHistogram :: "'s ByteAt \<Rightarrow> 's \<Rightarrow> nat \<Rightarrow> nat \<Rightarrow> nat \<Rightarrow> nat list \<Rightarrow> nat list option" where
  [code]: "buildHistogram byteAt s i to idx histogram =
     (if i < to then do {
        b \<leftarrow> getBucket byteAt s i idx;
        histogram \<leftarrow> histogram_add histogram b;
        buildHistogram byteAt s (i + 1) to idx histogram
      } else Some histogram)"

text \<open>The bytes of the first key, up to its end; how far another key agrees with them, and the byte where it does not\<close>

primrec first_prefix :: "'s ByteAt \<Rightarrow> 's \<Rightarrow> nat \<Rightarrow> nat \<Rightarrow> nat \<Rightarrow> int list option" where
  "first_prefix byteAt s from idx 0 = Some []"
| "first_prefix byteAt s from idx (Suc n) = do {
     b \<leftarrow> byteAt s from idx;
     if b = - 1 then Some [b]
     else do { bs \<leftarrow> first_prefix byteAt s from (idx + 1) n; Some (b # bs) }
   }"

primrec match_prefix :: "'s ByteAt \<Rightarrow> 's \<Rightarrow> nat \<Rightarrow> nat \<Rightarrow> int list \<Rightarrow> (nat \<times> int option) option" where
  "match_prefix byteAt s i idx [] = Some (0, None)"
| "match_prefix byteAt s i idx (c # cs) = do {
     b \<leftarrow> byteAt s i idx;
     if b \<noteq> c then Some (0, Some b)
     else do { (n, m) \<leftarrow> match_prefix byteAt s i (idx + 1) cs; Some (n + 1, m) }
   }"

text \<open>The loop \<open>OUTER\<close>: the common prefix and, when there is none, the key and the byte that broke it\<close>

partial_function (option) prefix_loop ::
  "'s ByteAt \<Rightarrow> 's \<Rightarrow> nat \<Rightarrow> nat \<Rightarrow> nat \<Rightarrow> int list \<Rightarrow> (int list \<times> (nat \<times> int) option) option" where
  [code]: "prefix_loop byteAt s i to idx prefix =
     (if i < to then do {
        (n, m) \<leftarrow> match_prefix byteAt s i idx prefix;
        case m of
          None \<Rightarrow> prefix_loop byteAt s (i + 1) to idx prefix
        | Some b \<Rightarrow>
            if n = 0 then Some ([], Some (i, b)) else prefix_loop byteAt s (i + 1) to idx (take n prefix)
      } else Some (prefix, None))"

definition computeCommonPrefix :: "'s ByteAt \<Rightarrow> nat \<Rightarrow> 's \<Rightarrow> nat \<Rightarrow> nat \<Rightarrow> nat \<Rightarrow> (nat \<times> nat list) option" where
  "computeCommonPrefix byteAt maxLength s from to idx = do {
     commonPrefix \<leftarrow> first_prefix byteAt s from idx (min (min 24 maxLength) (maxLength - idx));
     (prefix, broken) \<leftarrow> prefix_loop byteAt s (from + 1) to idx commonPrefix;
     c0 \<leftarrow> slice_get commonPrefix 0;
     case broken of
       Some (i, b) \<Rightarrow> do {
         histogram \<leftarrow> histogram_put (replicate 257 0) (c0 + 1) (i - from);
         histogram \<leftarrow> histogram_put histogram (b + 1) 1;
         histogram \<leftarrow> buildHistogram byteAt s (i + 1) to idx histogram;
         Some (0, histogram)
       }
     | None \<Rightarrow> do {
         histogram \<leftarrow> histogram_put (replicate 257 0) (c0 + 1) (to - from);
         Some (length prefix, histogram)
       }
   }"

text \<open>\<open>partition\<close>: its two inner loops, with the buckets at \<open>left\<close> and \<open>right\<close>, and the loop around them\<close>

partial_function (option) partition_left ::
  "'s ByteAt \<Rightarrow> 's Swap \<Rightarrow> 's \<Rightarrow> nat \<Rightarrow> nat \<Rightarrow> nat \<Rightarrow> nat \<Rightarrow> nat \<Rightarrow> int \<Rightarrow> ('s \<times> nat \<times> nat) option" where
  [code]: "partition_left byteAt sw s bucket bucketFrom d left slot leftBucket =
     (if leftBucket \<le> int bucket \<and> left < bucketFrom
      then if leftBucket = int bucket then do {
        s \<leftarrow> sw s left slot;
        b \<leftarrow> getBucket byteAt s left d;
        partition_left byteAt sw s bucket bucketFrom d left (slot + 1) b
      } else do {
        b \<leftarrow> getBucket byteAt s (left + 1) d;
        partition_left byteAt sw s bucket bucketFrom d (left + 1) slot b
      }
      else Some (s, left, slot))"

partial_function (option) partition_right ::
  "'s ByteAt \<Rightarrow> 's Swap \<Rightarrow> 's \<Rightarrow> nat \<Rightarrow> nat \<Rightarrow> nat \<Rightarrow> nat \<Rightarrow> nat \<Rightarrow> int \<Rightarrow> ('s \<times> nat \<times> nat) option" where
  [code]: "partition_right byteAt sw s bucket bucketTo d right slot rightBucket =
     (if int bucket \<le> rightBucket \<and> bucketTo \<le> right
      then if rightBucket = int bucket then do {
        s \<leftarrow> sw s right slot;
        b \<leftarrow> getBucket byteAt s right d;
        partition_right byteAt sw s bucket bucketTo d right (slot + 1) b
      } else do {
        b \<leftarrow> getBucket byteAt s (right - 1) d;
        partition_right byteAt sw s bucket bucketTo d (right - 1) slot b
      }
      else Some (s, right, slot))"

partial_function (option) partition_loop ::
  "'s ByteAt \<Rightarrow> 's Swap \<Rightarrow> 's \<Rightarrow> nat \<Rightarrow> nat \<Rightarrow> nat \<Rightarrow> nat \<Rightarrow> nat \<Rightarrow> nat \<Rightarrow> nat \<Rightarrow> 's option" where
  [code]: "partition_loop byteAt sw s bucket bucketFrom bucketTo d left right slot = do {
     leftBucket \<leftarrow> getBucket byteAt s left d;
     rightBucket \<leftarrow> getBucket byteAt s right d;
     (s, left, slot) \<leftarrow> partition_left byteAt sw s bucket bucketFrom d left slot leftBucket;
     (s, right, slot) \<leftarrow> partition_right byteAt sw s bucket bucketTo d right slot rightBucket;
     if left < bucketFrom \<and> bucketTo \<le> right then do {
       s \<leftarrow> sw s left right;
       partition_loop byteAt sw s bucket bucketFrom bucketTo d (left + 1) (right - 1) slot
     } else Some s
   }"

definition radix_partition ::
  "'s ByteAt \<Rightarrow> 's Swap \<Rightarrow> 's \<Rightarrow> nat \<Rightarrow> nat \<Rightarrow> nat \<Rightarrow> nat \<Rightarrow> nat \<Rightarrow> nat \<Rightarrow> 's option" where
  "radix_partition byteAt sw s from to bucket bucketFrom bucketTo d =
     partition_loop byteAt sw s bucket bucketFrom bucketTo d from (to - 1) bucketFrom"

text \<open>\<open>fallbackSelector\<close> compares the keys from byte \<open>skipBytes\<close> on, and takes a key that ends for equal.\<close>

partial_function (option) fallback_Compare :: "'s ByteAt \<Rightarrow> nat \<Rightarrow> nat \<Rightarrow> 's Compare" where
  [code]: "fallback_Compare byteAt maxLength idx s i j =
     (if idx < maxLength then do {
        b1 \<leftarrow> byteAt s i idx;
        b2 \<leftarrow> byteAt s j idx;
        if b1 = - 1 then Some 0
        else if b1 \<noteq> b2 then Some (b1 - b2)
        else fallback_Compare byteAt maxLength (idx + 1) s i j
      } else Some 0)"

definition fallback_SelectK :: "'s ByteAt \<Rightarrow> 's Swap \<Rightarrow> nat \<Rightarrow> 's \<Rightarrow> nat \<Rightarrow> nat \<Rightarrow> nat \<Rightarrow> nat \<Rightarrow> 's option" where
  "fallback_SelectK byteAt sw maxLength s from to k d = intro_SelectK (fallback_Compare byteAt maxLength d) sw s from to k"

text \<open>The loop over the buckets: the one that holds \<open>k\<close>, with its bounds\<close>

primrec bucket_of :: "nat list \<Rightarrow> nat \<Rightarrow> nat \<Rightarrow> nat \<Rightarrow> (nat \<times> nat \<times> nat) option" where
  "bucket_of [] k bucket bucketFrom = None"
| "bucket_of (h # hs) k bucket bucketFrom =
     (if bucketFrom + h > k then Some (bucket, bucketFrom, bucketFrom + h) else bucket_of hs k (bucket + 1) (bucketFrom + h))"

text \<open>\<open>radixSelect\<close>, with its call of \<open>selectK\<close> written out\<close>

partial_function (option) radixSelect :: "'s ByteAt \<Rightarrow> 's Swap \<Rightarrow> nat \<Rightarrow> 's \<Rightarrow> nat \<Rightarrow> nat \<Rightarrow> nat \<Rightarrow> nat \<Rightarrow> nat \<Rightarrow> 's option" where
  [code]: "radixSelect byteAt sw maxLength s from to k idx level = do {
     (commonPrefixLength, histogram) \<leftarrow> computeCommonPrefix byteAt maxLength s from to idx;
     if commonPrefixLength > 0 then do {
       h0 \<leftarrow> slice_get histogram 0;
       if idx + commonPrefixLength < maxLength \<and> h0 < to - from
       then radixSelect byteAt sw maxLength s from to k (idx + commonPrefixLength) level
       else Some s
     } else case bucket_of histogram k 0 from of
       None \<Rightarrow> Some s
     | Some (bucket, bucketFrom, bucketTo) \<Rightarrow> do {
         s \<leftarrow> radix_partition byteAt sw s from to bucket bucketFrom bucketTo idx;
         if bucket \<noteq> 0 \<and> idx + 1 < maxLength
         then if bucketTo - bucketFrom \<le> 100 \<or> level + 1 \<ge> 8
           then fallback_SelectK byteAt sw maxLength s bucketFrom bucketTo k (idx + 1)
           else radixSelect byteAt sw maxLength s bucketFrom bucketTo k (idx + 1) (level + 1)
         else Some s
       }
   }"

definition radix_selectK :: "'s ByteAt \<Rightarrow> 's Swap \<Rightarrow> nat \<Rightarrow> 's \<Rightarrow> nat \<Rightarrow> nat \<Rightarrow> nat \<Rightarrow> nat \<Rightarrow> nat \<Rightarrow> 's option" where
  "radix_selectK byteAt sw maxLength s from to k d l =
     (if to - from \<le> 100 \<or> l \<ge> 8 then fallback_SelectK byteAt sw maxLength s from to k d
      else radixSelect byteAt sw maxLength s from to k d l)"

definition radix_SelectK :: "'s ByteAt \<Rightarrow> 's Swap \<Rightarrow> nat \<Rightarrow> 's \<Rightarrow> nat \<Rightarrow> nat \<Rightarrow> nat \<Rightarrow> 's option" where
  "radix_SelectK byteAt sw maxLength s from to k = radix_selectK byteAt sw maxLength s from to k 0 0"

end
