(* ===== verification/Radix_Sort.thy ===== *)
theory Radix_Sort
  imports Selectors
begin

text \<open>
  core/util/sorter: the sorter by bytes, most significant first (radixsort.go). A provider has
  \<open>Compare\<close> with a number of bytes to skip, \<open>Swap\<close> and \<open>ByteAt\<close>.
\<close>

subsection \<open>Sorting with the standard library\<close>

text \<open>
  \<open>sort.Sort\<close> over \<open>introSorterKPrefix\<close>: \<open>Less\<close> and \<open>Swap\<close> of the part from \<open>from\<close> on. The library is
  modelled by its insertion sort, the one it runs on short slices; on longer ones the order of equal
  elements may be another, on which nothing below depends.
\<close>

type_synonym 's SkipCompare = "'s \<Rightarrow> nat \<Rightarrow> nat \<Rightarrow> nat \<Rightarrow> int option"

definition KPrefix_Less :: "'s SkipCompare \<Rightarrow> nat \<Rightarrow> nat \<Rightarrow> 's \<Rightarrow> nat \<Rightarrow> nat \<Rightarrow> bool option" where
  "KPrefix_Less cmp from k s i j = do { c \<leftarrow> cmp s (from + i) (from + j) k; Some (c < 0) }"

definition KPrefix_Swap :: "'s Swap \<Rightarrow> nat \<Rightarrow> 's Swap" where
  "KPrefix_Swap sw from s i j = sw s (from + i) (from + j)"

primrec sort_insert :: "('s \<Rightarrow> nat \<Rightarrow> nat \<Rightarrow> bool option) \<Rightarrow> 's Swap \<Rightarrow> 's \<Rightarrow> nat \<Rightarrow> 's option" where
  "sort_insert lt sw s 0 = Some s"
| "sort_insert lt sw s (Suc j) = do {
     b \<leftarrow> lt s (Suc j) j;
     if b then do { s \<leftarrow> sw s (Suc j) j; sort_insert lt sw s j } else Some s
   }"

primrec sort_Sort :: "('s \<Rightarrow> nat \<Rightarrow> nat \<Rightarrow> bool option) \<Rightarrow> 's Swap \<Rightarrow> 's \<Rightarrow> nat \<Rightarrow> 's option" where
  "sort_Sort lt sw s 0 = Some s"
| "sort_Sort lt sw s (Suc n) = do { s \<leftarrow> sort_Sort lt sw s n; sort_insert lt sw s n }"

definition pdqSort :: "'s SkipCompare \<Rightarrow> 's Swap \<Rightarrow> 's \<Rightarrow> nat \<Rightarrow> nat \<Rightarrow> nat \<Rightarrow> 's option" where
  "pdqSort cmp sw s from to k = sort_Sort (KPrefix_Less cmp from k) (KPrefix_Swap sw from) s (to - from)"

subsection \<open>Sorting by bytes\<close>

text \<open>The prefix and the histogram are computed as for the selector, line by line.\<close>

definition prefixLengthAndBuildHistogram :: "'s ByteAt \<Rightarrow> nat \<Rightarrow> 's \<Rightarrow> nat \<Rightarrow> nat \<Rightarrow> nat \<Rightarrow> (nat \<times> nat list) option" where
  "prefixLengthAndBuildHistogram byteAt maxLength s from to k = computeCommonPrefix byteAt maxLength s from to k"

text \<open>The start and end offsets of the buckets\<close>

primrec sumHistogram :: "nat list \<Rightarrow> nat \<Rightarrow> nat list \<times> nat list" where
  "sumHistogram [] accum = ([], [])"
| "sumHistogram (n # hs) accum =
     (let (starts, ends) = sumHistogram hs (accum + n) in (accum # starts, (accum + n) # ends))"

partial_function (option) reorder_bucket ::
  "'s ByteAt \<Rightarrow> 's Swap \<Rightarrow> 's \<Rightarrow> nat \<Rightarrow> nat \<Rightarrow> nat \<Rightarrow> nat \<Rightarrow> nat list \<Rightarrow> ('s \<times> nat list) option" where
  [code]: "reorder_bucket byteAt sw s from k i limit startOffsets = do {
     h1 \<leftarrow> slice_get startOffsets i;
     if h1 < limit then do {
       b \<leftarrow> getBucket byteAt s (from + h1) k;
       b \<leftarrow> int_index b;
       h2 \<leftarrow> slice_get startOffsets b;
       startOffsets \<leftarrow> slice_set startOffsets b (h2 + 1);
       s \<leftarrow> sw s (from + h1) (from + h2);
       reorder_bucket byteAt sw s from k i limit startOffsets
     } else Some (s, startOffsets)
   }"

partial_function (option) reorder ::
  "'s ByteAt \<Rightarrow> 's Swap \<Rightarrow> 's \<Rightarrow> nat \<Rightarrow> nat \<Rightarrow> nat \<Rightarrow> nat list \<Rightarrow> nat list \<Rightarrow> ('s \<times> nat list) option" where
  [code]: "reorder byteAt sw s from k i startOffsets endOffsets =
     (if i < 257 then do {
        limit \<leftarrow> slice_get endOffsets i;
        (s, startOffsets) \<leftarrow> reorder_bucket byteAt sw s from k i limit startOffsets;
        reorder byteAt sw s from k (i + 1) startOffsets endOffsets
      } else Some (s, startOffsets))"

text \<open>
  \<open>sortKthAndLevel\<close>, \<open>radixSort\<close> and its loop over the buckets call each other; every call from the loop
  is one byte further. The first argument bounds the calls one inside another, and \<open>Sort\<close> starts with
  \<open>maxLength + 1\<close>, which is never used up.
\<close>

primrec bucket_loop :: "('s \<Rightarrow> nat \<Rightarrow> nat \<Rightarrow> 's option) \<Rightarrow> 's \<Rightarrow> nat \<Rightarrow> nat \<Rightarrow> nat list \<Rightarrow> 's option" where
  "bucket_loop rec s from prev [] = Some s"
| "bucket_loop rec s from prev (h # hs) = do {
     s \<leftarrow> (if h - prev > 1 then rec s (from + prev) (from + h) else Some s);
     bucket_loop rec s from h hs
   }"

primrec radixSort :: "nat \<Rightarrow> 's SkipCompare \<Rightarrow> 's Swap \<Rightarrow> 's ByteAt \<Rightarrow> nat \<Rightarrow> 's \<Rightarrow> nat \<Rightarrow> nat \<Rightarrow> nat \<Rightarrow> nat \<Rightarrow> 's option" where
  "radixSort 0 cmp sw byteAt maxLength s from to k level = None"
| "radixSort (Suc n) cmp sw byteAt maxLength s from to k level = do {
     (commonPrefixLength, histogram) \<leftarrow> prefixLengthAndBuildHistogram byteAt maxLength s from to k;
     if commonPrefixLength > 0 then do {
       h0 \<leftarrow> slice_get histogram 0;
       if k + commonPrefixLength < maxLength \<and> h0 < to - from
       then radixSort n cmp sw byteAt maxLength s from to (k + commonPrefixLength) level
       else Some s
     } else do {
       let (startOffsets, endOffsets) = sumHistogram histogram 0;
       (s, endOffsets) \<leftarrow> reorder byteAt sw s from k 0 startOffsets endOffsets;
       case endOffsets of [] \<Rightarrow> None | e0 # es \<Rightarrow>
         if k + 1 < maxLength then
           bucket_loop (\<lambda>s from to.
               if to - from \<le> 100 \<or> level + 1 \<ge> 8 then pdqSort cmp sw s from to (k + 1)
               else radixSort n cmp sw byteAt maxLength s from to (k + 1) (level + 1))
             s from e0 es
         else Some s
     }
   }"

definition sortKthAndLevel :: "'s SkipCompare \<Rightarrow> 's Swap \<Rightarrow> 's ByteAt \<Rightarrow> nat \<Rightarrow> 's \<Rightarrow> nat \<Rightarrow> nat \<Rightarrow> nat \<Rightarrow> nat \<Rightarrow> 's option" where
  "sortKthAndLevel cmp sw byteAt maxLength s from to kth level =
     (if to - from \<le> 100 \<or> level \<ge> 8 then pdqSort cmp sw s from to kth
      else radixSort (maxLength + 1) cmp sw byteAt maxLength s from to kth level)"

definition msb_Sort :: "'s SkipCompare \<Rightarrow> 's Swap \<Rightarrow> 's ByteAt \<Rightarrow> nat \<Rightarrow> 's \<Rightarrow> nat \<Rightarrow> nat \<Rightarrow> 's option" where
  "msb_Sort cmp sw byteAt maxLength s from to = sortKthAndLevel cmp sw byteAt maxLength s from to 0 0"

end
