(* ===== verification/Heap_Points.thy ===== *)
theory Heap_Points
  imports Radix_Sort Data_IO "HOL-Library.List_Lexorder"
begin

text \<open>
  core/util/bkd: the points of a tree while they are in memory. A point is its packed value (the bytes of all
  dimensions, those that are indexed first) and its document, one after the other in a block of bytes
  (heappointwriter.go, heappointreader.go, config.go); \<open>RadixSelector\<close> (radixselector.go) finds the
  point around which a node is split, and sorts the points of a leaf. What it does with points in files is
  not modelled.
\<close>

subsection \<open>The configuration\<close>

definition MAX_DIMS :: int where "MAX_DIMS = 16"
definition MAX_INDEX_DIMS :: int where "MAX_INDEX_DIMS = 8"

record Config =
  cf_numDims :: nat
  cf_numIndexDims :: nat
  cf_bytesPerDim :: nat
  cf_maxPointsInLeafNode :: nat
  cf_packedBytesLength :: nat
  cf_packedIndexBytesLength :: nat
  cf_bytesPerDoc :: nat

text \<open>The messages are given without the numbers formatted into them; \<open>Inr\<close> is \<open>nil\<close>.\<close>

definition verifyParams :: "int \<Rightarrow> int \<Rightarrow> int \<Rightarrow> int \<Rightarrow> go_error + unit" where
  "verifyParams numDims numIndexDims bytesPerDim maxPointsInLeafNode =
     (if numDims < 1 \<or> numDims > MAX_DIMS then Inl (Err ''numDims must be 1 .. MAX_DIMS'')
      else if numIndexDims < 1 \<or> numIndexDims > MAX_INDEX_DIMS then Inl (Err ''numIndexDims must be 1 .. MAX_INDEX_DIMS'')
      else if numIndexDims > numDims then Inl (Err ''numIndexDims cannot exceed numDims'')
      else if bytesPerDim \<le> 0 then Inl (Err ''bytesPerDim must be > 0'')
      else if maxPointsInLeafNode \<le> 0 then Inl (Err ''maxPointsInLeafNode must be > 0'')
      else Inr ())"

definition NewConfig :: "int \<Rightarrow> int \<Rightarrow> int \<Rightarrow> int \<Rightarrow> go_error + Config" where
  "NewConfig numDims numIndexDims bytesPerDim maxPointsInLeafNode =
     (case verifyParams numDims numIndexDims bytesPerDim maxPointsInLeafNode of
        Inl e \<Rightarrow> Inl e
      | Inr _ \<Rightarrow> Inr \<lparr>cf_numDims = nat numDims, cf_numIndexDims = nat numIndexDims, cf_bytesPerDim = nat bytesPerDim,
          cf_maxPointsInLeafNode = nat maxPointsInLeafNode, cf_packedBytesLength = nat (numDims * bytesPerDim),
          cf_packedIndexBytesLength = nat (numIndexDims * bytesPerDim), cf_bytesPerDoc = nat (numDims * bytesPerDim) + 4\<rparr>)"

subsection \<open>Points\<close>

record HeapPointValue =
  pv_config :: Config
  pv_bytes :: "u8 list"
  pv_offset :: int

definition PackedValue :: "HeapPointValue \<Rightarrow> u8 list option" where
  "PackedValue h = sub_slice (pv_bytes h) (pv_offset h) (pv_offset h + int (cf_packedBytesLength (pv_config h)))"

definition PackedValueDocIDBytes :: "HeapPointValue \<Rightarrow> u8 list option" where
  "PackedValueDocIDBytes h = sub_slice (pv_bytes h) (pv_offset h) (pv_offset h + int (cf_bytesPerDoc (pv_config h)))"

definition DocID :: "HeapPointValue \<Rightarrow> nat option" where
  "DocID h = do {
     bs \<leftarrow> sub_slice (pv_bytes h) (pv_offset h + int (cf_packedBytesLength (pv_config h))) (int (length (pv_bytes h)));
     bs \<leftarrow> sub_slice bs 0 4;
     Some (unat (get_uint bs :: u32))
   }"

record HeapPointWriter =
  hp_block :: "u8 list"
  hp_size :: nat
  hp_config :: Config
  hp_scratch :: "u8 list"
  hp_nextWrite :: nat
  hp_closed :: bool

definition NewHeapPointWriter :: "Config \<Rightarrow> nat \<Rightarrow> HeapPointWriter" where
  "NewHeapPointWriter config n =
     \<lparr>hp_block = replicate (cf_bytesPerDoc config * n) 0, hp_size = n, hp_config = config,
      hp_scratch = replicate (cf_bytesPerDoc config) 0, hp_nextWrite = 0, hp_closed = False\<rparr>"

definition Writer_Close :: "HeapPointWriter \<Rightarrow> HeapPointWriter" where
  "Writer_Close h = h\<lparr>hp_closed := True\<rparr>"

definition Writer_Count :: "HeapPointWriter \<Rightarrow> nat" where
  "Writer_Count h = hp_nextWrite h"

text \<open>\<open>copy(bs[a:], xs)\<close>\<close>

definition copy_to :: "'a list \<Rightarrow> nat \<Rightarrow> 'a list \<Rightarrow> 'a list option" where
  "copy_to bs a xs = copy_into bs (int a) (int (length bs)) xs"

definition Points_Swap :: "HeapPointWriter \<Rightarrow> nat \<Rightarrow> nat \<Rightarrow> HeapPointWriter option" where
  "Points_Swap h i j = do {
     let n = cf_bytesPerDoc (hp_config h);
     let indexI = i * n;
     let indexJ = j * n;
     pi \<leftarrow> sub_slice (hp_block h) (int indexI) (int (indexI + n));
     scratch \<leftarrow> copy_to (hp_scratch h) 0 pi;
     pj \<leftarrow> sub_slice (hp_block h) (int indexJ) (int (indexJ + n));
     block \<leftarrow> copy_to (hp_block h) indexI pj;
     ps \<leftarrow> sub_slice scratch 0 (int n);
     block \<leftarrow> copy_to block indexJ ps;
     Some (h\<lparr>hp_block := block, hp_scratch := scratch\<rparr>)
   }"

definition Append :: "HeapPointWriter \<Rightarrow> u8 list \<Rightarrow> u64 \<Rightarrow> HeapPointWriter option" where
  "Append h packedValue docID = do {
     let n = cf_bytesPerDoc (hp_config h);
     let m = cf_packedBytesLength (hp_config h);
     value \<leftarrow> sub_slice packedValue 0 (int m);
     block \<leftarrow> copy_to (hp_block h) (hp_nextWrite h * n) value;
     let position = hp_nextWrite h * n + m;
     block \<leftarrow> copy_into block (int position) (int (position + 4)) (put_uint 4 (ucast docID :: u32));
     Some (h\<lparr>hp_block := block, hp_nextWrite := hp_nextWrite h + 1\<rparr>)
   }"

definition AppendPoint :: "HeapPointWriter \<Rightarrow> HeapPointValue \<Rightarrow> HeapPointWriter option" where
  "AppendPoint h pointValue = do {
     packedValueDocID \<leftarrow> PackedValueDocIDBytes pointValue;
     let n = cf_bytesPerDoc (hp_config h);
     bs \<leftarrow> sub_slice packedValueDocID 0 (int n);
     block \<leftarrow> copy_to (hp_block h) (hp_nextWrite h * n) bs;
     Some (h\<lparr>hp_block := block, hp_nextWrite := hp_nextWrite h + 1\<rparr>)
   }"

definition GetPackedValueSlice :: "HeapPointWriter \<Rightarrow> nat \<Rightarrow> HeapPointValue" where
  "GetPackedValueSlice h index = \<lparr>pv_config = hp_config h, pv_bytes = hp_block h, pv_offset = int (index * cf_bytesPerDoc (hp_config h))\<rparr>"

subsection \<open>The number of different values\<close>

definition Mismatch :: "u8 list \<Rightarrow> u8 list \<Rightarrow> int" where
  "Mismatch a b =
     (let n = min (length a) (length b) in
      case find (\<lambda>i. a ! i \<noteq> b ! i) [0..<n] of
        Some i \<Rightarrow> int i
      | None \<Rightarrow> if length a = length b then - 1 else int n)"

primrec cardinality_dims :: "HeapPointWriter \<Rightarrow> nat list \<Rightarrow> nat \<Rightarrow> nat list \<Rightarrow> bool option" where
  "cardinality_dims h commonPrefixLengths i [] = Some False"
| "cardinality_dims h commonPrefixLengths i (dimension # dims) = do {
     let n = cf_bytesPerDoc (hp_config h);
     c \<leftarrow> slice_get commonPrefixLengths dimension;
     let start = dimension * cf_bytesPerDim (hp_config h) + c;
     let stop = dimension * cf_bytesPerDim (hp_config h) + cf_bytesPerDim (hp_config h);
     a \<leftarrow> sub_slice (hp_block h) (int (i * n + start)) (int (i * n + stop));
     b \<leftarrow> sub_slice (hp_block h) (int ((i - 1) * n + start)) (int ((i - 1) * n + stop));
     if Mismatch a b \<noteq> - 1 then Some True else cardinality_dims h commonPrefixLengths i dims
   }"

primrec cardinality_loop :: "HeapPointWriter \<Rightarrow> nat list \<Rightarrow> nat \<Rightarrow> nat list \<Rightarrow> nat option" where
  "cardinality_loop h commonPrefixLengths leafCardinality [] = Some leafCardinality"
| "cardinality_loop h commonPrefixLengths leafCardinality (i # is) = do {
     b \<leftarrow> cardinality_dims h commonPrefixLengths i [0..<cf_numDims (hp_config h)];
     cardinality_loop h commonPrefixLengths (if b then leafCardinality + 1 else leafCardinality) is
   }"

definition ComputeCardinality :: "HeapPointWriter \<Rightarrow> nat \<Rightarrow> nat \<Rightarrow> nat list \<Rightarrow> nat option" where
  "ComputeCardinality h form to commonPrefixLengths = cardinality_loop h commonPrefixLengths 1 [form + 1..<to]"

subsection \<open>Reading points\<close>

text \<open>\<open>PointValue\<close> hands out the same value each time, at a new offset; with no bytes there is none.\<close>

record HeapPointReader =
  pr_curRead :: int
  pr_block :: "u8 list"
  pr_config :: Config
  pr_end :: nat
  pr_pointValue :: "HeapPointValue option"

definition NewHeapPointReader :: "Config \<Rightarrow> u8 list \<Rightarrow> nat \<Rightarrow> nat \<Rightarrow> HeapPointReader" where
  "NewHeapPointReader config block start stop =
     \<lparr>pr_curRead = int start - 1, pr_block = block, pr_config = config, pr_end = stop,
      pr_pointValue = (if length block > 0 then Some \<lparr>pv_config = config, pv_bytes = block, pv_offset = 0\<rparr> else None)\<rparr>"

definition GetReader :: "HeapPointWriter \<Rightarrow> nat \<Rightarrow> nat \<Rightarrow> HeapPointReader" where
  "GetReader h start n = NewHeapPointReader (hp_config h) (hp_block h) start (start + n)"

definition Reader_Next :: "HeapPointReader \<Rightarrow> bool \<times> HeapPointReader" where
  "Reader_Next h = (let c = pr_curRead h + 1 in (c < int (pr_end h), h\<lparr>pr_curRead := c\<rparr>))"

definition Reader_PointValue :: "HeapPointReader \<Rightarrow> (HeapPointValue \<times> HeapPointReader) option" where
  "Reader_PointValue h = do {
     v \<leftarrow> pr_pointValue h;
     let v = v\<lparr>pv_offset := pr_curRead h * int (cf_bytesPerDoc (pr_config h))\<rparr>;
     Some (v, h\<lparr>pr_pointValue := Some v\<rparr>)
   }"


subsection \<open>Selecting and sorting points\<close>

text \<open>
  \<open>RadixSelector\<close> with what it keeps for points in files left out, beside the buffers. \<open>Swap\<close> of
  \<open>radixSelector\<close> and of \<open>msbRadixSorter\<close> is \<^const>\<open>Points_Swap\<close>; the writer they share is the state.
\<close>

definition MAX_SIZE_OFFLINE_BUFFER :: nat where "MAX_SIZE_OFFLINE_BUFFER = 1024 * 8"
definition INTEGER_BYTES :: nat where "INTEGER_BYTES = 4"

record RadixSelector =
  rs_histogram :: "nat list"
  rs_bytesSorted :: nat
  rs_maxPointsSortInHeap :: nat
  rs_offlineBuffer :: "u8 list"
  rs_partitionBucket :: "nat list"
  rs_scratch :: "u8 list"
  rs_config :: Config

definition NewRadixSelector :: "Config \<Rightarrow> nat \<Rightarrow> RadixSelector" where
  "NewRadixSelector config maxPointsSortInHeap =
     (let numberOfPointsOffline = MAX_SIZE_OFFLINE_BUFFER div cf_bytesPerDoc config;
          bytesSorted = cf_bytesPerDim config + (cf_numDims config - cf_numIndexDims config) * cf_bytesPerDim config + INTEGER_BYTES in
      \<lparr>rs_histogram = replicate 256 0, rs_bytesSorted = bytesSorted, rs_maxPointsSortInHeap = maxPointsSortInHeap,
       rs_offlineBuffer = replicate (numberOfPointsOffline * cf_bytesPerDoc config) 0,
       rs_partitionBucket = replicate bytesSorted 0, rs_scratch = replicate bytesSorted 0, rs_config = config\<rparr>)"

text \<open>The offsets both providers are made with\<close>

record PointKeys =
  pk_dimOffset :: int
  pk_dimCmpBytes :: int
  pk_dataOffset :: int
  pk_config :: Config

definition point_keys :: "RadixSelector \<Rightarrow> nat \<Rightarrow> nat \<Rightarrow> PointKeys" where
  "point_keys b dimension commonPrefixLength =
     (let dimCmpBytes = int (cf_bytesPerDim (rs_config b)) - int commonPrefixLength in
      \<lparr>pk_dimOffset = int (dimension * cf_bytesPerDim (rs_config b) + commonPrefixLength), pk_dimCmpBytes = dimCmpBytes,
       pk_dataOffset = int (cf_packedIndexBytesLength (rs_config b)) - dimCmpBytes, pk_config = rs_config b\<rparr>)"

definition selector_ByteAt :: "PointKeys \<Rightarrow> HeapPointWriter ByteAt" where
  "selector_ByteAt r points i k =
     (if int k < pk_dimCmpBytes r then do {
        idx \<leftarrow> int_index (int (i * cf_bytesPerDoc (pk_config r)) + pk_dimOffset r + int k);
        if idx \<ge> length (hp_block points) then Some (- 1)
        else do { b \<leftarrow> slice_get (hp_block points) idx; Some (uint b) }
      } else do {
        idx \<leftarrow> int_index (int (i * cf_bytesPerDoc (pk_config r)) + pk_dataOffset r + int k);
        b \<leftarrow> slice_get (hp_block points) idx;
        Some (uint b)
      })"

definition sorter_ByteAt :: "PointKeys \<Rightarrow> HeapPointWriter ByteAt" where
  "sorter_ByteAt m points i k = do {
     idx \<leftarrow> int_index (int (i * cf_bytesPerDoc (pk_config m)) + (if int k < pk_dimCmpBytes m then pk_dimOffset m else pk_dataOffset m) + int k);
     b \<leftarrow> slice_get (hp_block points) idx;
     Some (uint b)
   }"

definition sorter_Value :: "PointKeys \<Rightarrow> HeapPointWriter \<Rightarrow> nat \<Rightarrow> u8 list option" where
  "sorter_Value m points i =
     (let from = int (i * cf_bytesPerDoc (pk_config m)) + pk_dimOffset m in
      sub_slice (hp_block points) from (from + pk_dimCmpBytes m))"

text \<open>\<open>bytes.Compare\<close>\<close>

definition bytes_Compare :: "u8 list \<Rightarrow> u8 list \<Rightarrow> int" where
  "bytes_Compare a b = (if a = b then 0 else if a < b then - 1 else 1)"

definition sorter_Compare :: "PointKeys \<Rightarrow> HeapPointWriter SkipCompare" where
  "sorter_Compare m points i j skipBytes = do {
     valueI \<leftarrow> sorter_Value m points i;
     valueJ \<leftarrow> sorter_Value m points j;
     let cmp = (if skipBytes < length valueI \<and> skipBytes \<le> length valueJ
                then bytes_Compare (drop skipBytes valueI) (drop skipBytes valueJ) else 0);
     if cmp \<noteq> 0 then Some cmp
     else do {
       let sliceI = GetPackedValueSlice points i;
       let sliceJ = GetPackedValueSlice points j;
       let dataOffset = cf_numIndexDims (pk_config m) * cf_bytesPerDim (pk_config m);
       packedI \<leftarrow> PackedValue sliceI;
       packedJ \<leftarrow> PackedValue sliceJ;
       dataI \<leftarrow> sub_slice packedI (int dataOffset) (int (cf_packedBytesLength (pk_config m)));
       dataJ \<leftarrow> sub_slice packedJ (int dataOffset) (int (cf_packedBytesLength (pk_config m)));
       let cmp = bytes_Compare dataI dataJ;
       if cmp \<noteq> 0 then Some cmp
       else do {
         docIdI \<leftarrow> DocID sliceI;
         docIdJ \<leftarrow> DocID sliceJ;
         Some (if docIdI > docIdJ then 1 else if docIdI < docIdJ then - 1 else 0)
       }
     }
   }"

definition getDimValues :: "RadixSelector \<Rightarrow> u8 list \<Rightarrow> nat \<Rightarrow> u8 list option" where
  "getDimValues b bs dimension =
     (let fromIndex = dimension * cf_bytesPerDim (rs_config b) in
      sub_slice bs (int fromIndex) (int (fromIndex + cf_bytesPerDim (rs_config b))))"

definition heapRadixSelect ::
  "RadixSelector \<Rightarrow> HeapPointWriter \<Rightarrow> nat \<Rightarrow> nat \<Rightarrow> nat \<Rightarrow> nat \<Rightarrow> nat \<Rightarrow> (u8 list \<times> HeapPointWriter) option" where
  "heapRadixSelect b points dimension from to partitionPoint commonPrefixLength = do {
     maxLength \<leftarrow> int_index (int (rs_bytesSorted b) - int commonPrefixLength);
     points \<leftarrow> radix_SelectK (selector_ByteAt (point_keys b dimension commonPrefixLength)) Points_Swap maxLength points from to partitionPoint;
     packedValue \<leftarrow> PackedValue (GetPackedValueSlice points partitionPoint);
     v \<leftarrow> getDimValues b packedValue dimension;
     v \<leftarrow> sub_slice v 0 (int (cf_bytesPerDim (rs_config b)));
     Some (v, points)
   }"

definition HeapRadixSort ::
  "RadixSelector \<Rightarrow> HeapPointWriter \<Rightarrow> nat \<Rightarrow> nat \<Rightarrow> nat \<Rightarrow> nat \<Rightarrow> HeapPointWriter option" where
  "HeapRadixSort b points from to dimension commonPrefixLength = do {
     maxLength \<leftarrow> int_index (int (rs_bytesSorted b) - int commonPrefixLength);
     let m = point_keys b dimension commonPrefixLength;
     msb_Sort (sorter_Compare m) Points_Swap (sorter_ByteAt m) maxLength points from to
   }"

text \<open>A part of a writer: its first point, and how many there are\<close>

record PathSlice =
  ps_start :: nat
  ps_count :: nat

definition checkArgs :: "nat \<Rightarrow> nat \<Rightarrow> nat \<Rightarrow> go_error + unit" where
  "checkArgs from to partitionPoint =
     (if partitionPoint < from then Inl (Err ''partitionPoint must be >= from'')
      else if partitionPoint \<ge> to then Inl (Err ''partitionPoint must be < to'')
      else Inr ())"

text \<open>\<open>Select\<close> of points in memory\<close>

definition Select ::
  "RadixSelector \<Rightarrow> HeapPointWriter \<Rightarrow> nat \<Rightarrow> nat \<Rightarrow> nat \<Rightarrow> nat \<Rightarrow> nat \<Rightarrow>
   ((go_error + u8 list \<times> PathSlice \<times> PathSlice) \<times> HeapPointWriter) option" where
  "Select b points from to partitionPoint dimension dimCommonPrefix =
     (case checkArgs from to partitionPoint of
        Inl e \<Rightarrow> Some (Inl e, points)
      | Inr _ \<Rightarrow> do {
          (partition, points) \<leftarrow> heapRadixSelect b points dimension from to partitionPoint dimCommonPrefix;
          Some (Inr (partition, \<lparr>ps_start = from, ps_count = partitionPoint - from\<rparr>,
                     \<lparr>ps_start = partitionPoint, ps_count = to - partitionPoint\<rparr>), points)
        })"

text \<open>\<open>heapPartition\<close>: what is before the partition point goes to \<open>left\<close>, the rest to \<open>right\<close>.\<close>

primrec partition_points ::
  "HeapPointWriter \<Rightarrow> nat \<Rightarrow> nat list \<Rightarrow> HeapPointWriter \<Rightarrow> HeapPointWriter \<Rightarrow> (HeapPointWriter \<times> HeapPointWriter) option" where
  "partition_points points partitionPoint [] left right = Some (left, right)"
| "partition_points points partitionPoint (i # is) left right = do {
     let point = GetPackedValueSlice points i;
     (left, right) \<leftarrow> (if i < partitionPoint
        then do { left \<leftarrow> AppendPoint left point; Some (left, right) }
        else do { right \<leftarrow> AppendPoint right point; Some (left, right) });
     partition_points points partitionPoint is left right
   }"

definition heapPartition ::
  "RadixSelector \<Rightarrow> HeapPointWriter \<Rightarrow> HeapPointWriter \<Rightarrow> HeapPointWriter \<Rightarrow> nat \<Rightarrow> nat \<Rightarrow> nat \<Rightarrow> nat \<Rightarrow> nat \<Rightarrow>
   (u8 list \<times> HeapPointWriter \<times> HeapPointWriter \<times> HeapPointWriter) option" where
  "heapPartition b points left right dimension from to partitionPoint commonPrefix = do {
     (partition, points) \<leftarrow> heapRadixSelect b points dimension from to partitionPoint commonPrefix;
     (left, right) \<leftarrow> partition_points points partitionPoint [from..<to] left right;
     Some (partition, points, left, right)
   }"

end
