(* ===== verification/Rearranged.thy ===== *)
theory Rearranged
  imports Prelude
begin

text \<open>
  Lists of which a part is rearranged: the permutations inside a range that sorting and selecting make, and
  what a selected element is.
\<close>

subsection \<open>Rearranging a part of a list\<close>

definition swapped :: "'a list \<Rightarrow> nat \<Rightarrow> nat \<Rightarrow> 'a list" where
  "swapped xs i j = xs[i := xs ! j, j := xs ! i]"

text \<open>The elements of \<open>ys\<close> between \<open>lo\<close> and \<open>hi\<close> are those of \<open>xs\<close>, and the others are unchanged.\<close>

definition rearranged :: "nat \<Rightarrow> nat \<Rightarrow> 'a list \<Rightarrow> 'a list \<Rightarrow> bool" where
  "rearranged lo hi xs ys \<longleftrightarrow>
     mset ys = mset xs \<and> (\<forall>i<length xs. i < lo \<or> hi \<le> i \<longrightarrow> ys ! i = xs ! i)"

lemma rearranged_length: "rearranged lo hi xs ys \<Longrightarrow> length ys = length xs"
  by (metis rearranged_def size_mset)

lemma rearranged_refl [simp, intro]: "rearranged lo hi xs xs"
  by (simp add: rearranged_def)

lemma rearranged_trans [trans]:
  "rearranged lo hi xs ys \<Longrightarrow> rearranged lo hi ys zs \<Longrightarrow> rearranged lo hi xs zs"
  using rearranged_length [of lo hi xs ys] by (simp add: rearranged_def)

lemma rearranged_mono:
  "rearranged lo' hi' xs ys \<Longrightarrow> lo \<le> lo' \<Longrightarrow> hi' \<le> hi \<Longrightarrow> rearranged lo hi xs ys"
  by (auto simp: rearranged_def)

lemma rearranged_swapped:
  "lo \<le> i \<Longrightarrow> i < hi \<Longrightarrow> lo \<le> j \<Longrightarrow> j < hi \<Longrightarrow> i < length xs \<Longrightarrow> j < length xs \<Longrightarrow> rearranged lo hi xs (swapped xs i j)"
  by (auto simp: rearranged_def swapped_def mset_swap nth_list_update)

lemma rearranged_outside: "rearranged lo hi xs ys \<Longrightarrow> i < lo \<or> hi \<le> i \<Longrightarrow> i < length xs \<Longrightarrow> ys ! i = xs ! i"
  by (auto simp: rearranged_def)

lemma length_swapped [simp]: "length (swapped xs i j) = length xs"
  by (simp add: swapped_def)

lemma nth_swapped:
  "i < length xs \<Longrightarrow> j < length xs \<Longrightarrow> m < length xs \<Longrightarrow>
   swapped xs i j ! m = (if m = i then xs ! j else if m = j then xs ! i else xs ! m)"
  by (auto simp: swapped_def nth_list_update)

lemma swapped_commute: "i < length xs \<Longrightarrow> j < length xs \<Longrightarrow> swapped xs i j = swapped xs j i"
  by (cases "i = j") (simp_all add: swapped_def list_update_swap)

definition part :: "nat \<Rightarrow> nat \<Rightarrow> 'a list \<Rightarrow> 'a list" where
  "part lo hi xs = take (hi - lo) (drop lo xs)"

lemma set_part: "hi \<le> length xs \<Longrightarrow> set (part lo hi xs) = {xs ! i |i. lo \<le> i \<and> i < hi}"
proof -
  assume "hi \<le> length xs"
  then have "length (part lo hi xs) = hi - lo" and "\<And>m. m < hi - lo \<Longrightarrow> part lo hi xs ! m = xs ! (lo + m)"
    by (auto simp: part_def)
  then have "set (part lo hi xs) = {xs ! (lo + m) |m. m < hi - lo}"
    by (auto simp: set_conv_nth) metis
  also have "\<dots> = {xs ! i |i. lo \<le> i \<and> i < hi}"
    by (auto intro: exI [of _ "m - lo" for m])
      (metis add.commute add_diff_inverse_nat diff_less_mono linorder_not_le)
  finally show ?thesis .
qed

lemma rearranged_part:
  assumes "rearranged lo hi xs ys" and "lo \<le> hi"
  shows "mset (part lo hi ys) = mset (part lo hi xs)"
proof -
  have len: "length ys = length xs"
    using rearranged_length [OF assms(1)] .
  have t: "take lo ys = take lo xs"
    using assms(1) len by (intro nth_equalityI) (auto simp: rearranged_def)
  have d: "drop hi ys = drop hi xs"
    using assms(1) len by (intro nth_equalityI) (auto simp: rearranged_def)
  have split: "mset zs = mset (take lo zs) + mset (part lo hi zs) + mset (drop hi zs)" for zs :: "'a list"
  proof -
    have "zs = take lo zs @ part lo hi zs @ drop hi zs"
      using assms(2) by (metis append_take_drop_id drop_drop le_add_diff_inverse2 part_def)
    then have "mset zs = mset (take lo zs @ part lo hi zs @ drop hi zs)"
      by simp
    then show ?thesis
      by simp
  qed
  have "mset ys = mset xs"
    using assms(1) by (simp add: rearranged_def)
  then show ?thesis
    using split [of xs] split [of ys] t d by simp
qed

text \<open>What holds of all elements of the part holds of them after rearranging.\<close>

lemma rearranged_all:
  assumes "rearranged lo hi xs ys" and "hi \<le> length xs" and "\<And>i. lo \<le> i \<Longrightarrow> i < hi \<Longrightarrow> P (xs ! i)"
    and "lo \<le> i" and "i < hi"
  shows "P (ys ! i)"
proof -
  have "set (part lo hi ys) = set (part lo hi xs)"
    using rearranged_part [OF assms(1)] assms(4,5) by (metis le_trans less_imp_le mset_eq_setD)
  then have "ys ! i \<in> {xs ! i |i. lo \<le> i \<and> i < hi}"
    using set_part [of hi ys lo] set_part [OF assms(2), of lo] rearranged_length [OF assms(1)] assms(2,4,5) by auto
  then show ?thesis
    using assms(3) by auto
qed

text \<open>\<open>selected\<close>: the element at \<open>k\<close> is where sorting would put it.\<close>

definition selected :: "('a \<Rightarrow> 'a \<Rightarrow> bool) \<Rightarrow> nat \<Rightarrow> nat \<Rightarrow> nat \<Rightarrow> 'a list \<Rightarrow> bool" where
  "selected le lo hi k xs \<longleftrightarrow>
     (\<forall>i. lo \<le> i \<and> i < k \<longrightarrow> le (xs ! i) (xs ! k)) \<and> (\<forall>j. k < j \<and> j < hi \<longrightarrow> le (xs ! k) (xs ! j))"

text \<open>Selecting in one of the parts of a list whose parts are in order\<close>

lemma selected_right:
  assumes "rearranged m hi xs ys" and "selected le m hi k ys" and "hi \<le> length xs" and "lo \<le> m" and "m \<le> k" and "k < hi"
    and le: "\<And>i j. lo \<le> i \<Longrightarrow> i < m \<Longrightarrow> m \<le> j \<Longrightarrow> j < hi \<Longrightarrow> le (xs ! i) (xs ! j)"
  shows "selected le lo hi k ys"
proof -
  have "le (ys ! i) (ys ! k)" if "lo \<le> i" "i < m" for i
  proof -
    have "ys ! i = xs ! i"
      using assms(1,3,5,6) that by (auto intro: rearranged_outside)
    moreover have "le (xs ! i) (ys ! k)"
      using le that assms(5,6) by (intro rearranged_all [OF assms(1,3), of "le (xs ! i)"]) auto
    ultimately show ?thesis
      by simp
  qed
  moreover have "le (ys ! i) (ys ! k)" if "m \<le> i" "i < k" for i
    using assms(2) that by (simp add: selected_def)
  moreover have "le (ys ! k) (ys ! j)" if "k < j" "j < hi" for j
    using assms(2) that by (simp add: selected_def)
  ultimately show ?thesis
    by (simp add: selected_def) (meson not_le)
qed

lemma selected_left:
  assumes "rearranged lo m xs ys" and "selected le lo m k ys" and "hi \<le> length xs" and "lo \<le> k" and "k < m" and "m \<le> hi"
    and le: "\<And>i j. lo \<le> i \<Longrightarrow> i < m \<Longrightarrow> m \<le> j \<Longrightarrow> j < hi \<Longrightarrow> le (xs ! i) (xs ! j)"
  shows "selected le lo hi k ys"
proof -
  have m: "m \<le> length xs"
    using assms(3,6) by simp
  have "le (ys ! k) (ys ! j)" if "m \<le> j" "j < hi" for j
  proof -
    have "ys ! j = xs ! j"
      using assms(1,3) that by (auto intro: rearranged_outside)
    moreover have "le (ys ! k) (xs ! j)"
      using le that assms(4,5) by (intro rearranged_all [OF assms(1) m, of "\<lambda>x. le x (xs ! j)"]) auto
    ultimately show ?thesis
      by simp
  qed
  moreover have "le (ys ! k) (ys ! j)" if "k < j" "j < m" for j
    using assms(2) that by (simp add: selected_def)
  moreover have "le (ys ! i) (ys ! k)" if "lo \<le> i" "i < k" for i
    using assms(2) that by (simp add: selected_def)
  ultimately show ?thesis
    by (simp add: selected_def) (meson not_le)
qed

end
