(* ===== verification/Selectors_Intro.thy ===== *)
theory Selectors_Intro
  imports Rearranged Selectors
begin

text \<open>
  What an \<open>IntroSelector\<close> needs of its provider, as a locale, and in it the proof that quick select and the
  medians of medians put the \<open>k\<close>-th element in its place, whatever the pivots.
\<close>

subsection \<open>What the providers of the selectors promise\<close>

text \<open>The state shows a list of slots, and \<open>Swap\<close> exchanges two of them without a panic in range.\<close>

locale swap_slots =
  fixes ok :: "'s \<Rightarrow> bool"
    and slots :: "'s \<Rightarrow> 'a list"
    and sw :: "'s Swap"
  assumes swap: "ok s \<Longrightarrow> i < length (slots s) \<Longrightarrow> j < length (slots s) \<Longrightarrow>
      \<exists>s'. sw s i j = Some s' \<and> ok s' \<and> slots s' = swapped (slots s) i j"
begin

definition stepped :: "nat \<Rightarrow> nat \<Rightarrow> 's \<Rightarrow> 's \<Rightarrow> bool" where
  "stepped lo hi s s' \<longleftrightarrow> ok s' \<and> rearranged lo hi (slots s) (slots s')"

lemma stepped_refl: "ok s \<Longrightarrow> stepped lo hi s s"
  by (simp add: stepped_def)

lemma stepped_trans: "stepped lo hi s s' \<Longrightarrow> stepped lo hi s' s'' \<Longrightarrow> stepped lo hi s s''"
  by (auto simp: stepped_def intro: rearranged_trans)

lemma stepped_mono: "stepped lo' hi' s s' \<Longrightarrow> lo \<le> lo' \<Longrightarrow> hi' \<le> hi \<Longrightarrow> stepped lo hi s s'"
  by (auto simp: stepped_def intro: rearranged_mono)

lemma stepped_ok: "stepped lo hi s s' \<Longrightarrow> ok s'"
  by (simp add: stepped_def)

lemma stepped_length: "stepped lo hi s s' \<Longrightarrow> length (slots s') = length (slots s)"
  by (auto simp: stepped_def dest: rearranged_length)

lemma swap_step:
  assumes "ok s" and "lo \<le> i" "i < hi" "lo \<le> j" "j < hi" "hi \<le> length (slots s)"
  obtains s' where "sw s i j = Some s'" and "stepped lo hi s s'" and "slots s' = swapped (slots s) i j"
proof -
  obtain s' where "sw s i j = Some s'" "ok s'" "slots s' = swapped (slots s) i j"
    using swap [of s i j] assms by auto
  moreover have "rearranged lo hi (slots s) (swapped (slots s) i j)"
    using assms by (intro rearranged_swapped) auto
  ultimately show thesis
    using that by (simp add: stepped_def)
qed

end

text \<open>\<open>Compare\<close> compares two slots by a total preorder.\<close>

locale selection = swap_slots ok slots sw
  for ok :: "'s \<Rightarrow> bool" and slots :: "'s \<Rightarrow> 'a list" and sw :: "'s Swap" +
  fixes cmp :: "'s Compare"
    and le :: "'a \<Rightarrow> 'a \<Rightarrow> bool"
  assumes compare: "ok s \<Longrightarrow> i < length (slots s) \<Longrightarrow> j < length (slots s) \<Longrightarrow>
      \<exists>c. cmp s i j = Some c \<and> (c \<le> 0 \<longleftrightarrow> le (slots s ! i) (slots s ! j)) \<and> (0 \<le> c \<longleftrightarrow> le (slots s ! j) (slots s ! i))"
    and le_trans: "le a b \<Longrightarrow> le b c \<Longrightarrow> le a c"
    and le_total: "le a b \<or> le b a"
begin

lemma le_refl: "le a a"
  using le_total [of a a] by simp

subsection \<open>Quick select\<close>

lemma pass_less_ok:
  assumes "ok s" and "idx < length (slots s)" and "left \<le> idx"
  shows "\<exists>l. pass_less (cmp s) idx left = Some l \<and> left \<le> l \<and> l \<le> idx \<and>
    le (slots s ! idx) (slots s ! l) \<and> (\<forall>i. left \<le> i \<and> i < l \<longrightarrow> le (slots s ! i) (slots s ! idx))"
  using assms(3)
proof (induction "idx - left" arbitrary: left)
  case 0
  obtain c where "cmp s idx left = Some c" "c \<le> 0"
    using compare [OF assms(1,2,2)] 0 le_refl by auto
  then show ?case
    using 0 le_refl by (subst pass_less.simps) auto
next
  case (Suc n)
  obtain c where c: "cmp s idx left = Some c" "c \<le> 0 \<longleftrightarrow> le (slots s ! idx) (slots s ! left)"
    "0 \<le> c \<longleftrightarrow> le (slots s ! left) (slots s ! idx)"
    using compare [OF assms(1,2), of left] assms(2) Suc.prems by auto
  show ?case
  proof (cases "c > 0")
    case True
    have "n = idx - (left + 1)" "left + 1 \<le> idx"
      using Suc.hyps(2) by simp_all
    from Suc.hyps(1) [OF this]
    obtain l where "pass_less (cmp s) idx (left + 1) = Some l" "left + 1 \<le> l" "l \<le> idx"
      "le (slots s ! idx) (slots s ! l)" "\<forall>i. left + 1 \<le> i \<and> i < l \<longrightarrow> le (slots s ! i) (slots s ! idx)"
      by blast
    moreover from this have "\<forall>i. left \<le> i \<and> i < l \<longrightarrow> le (slots s ! i) (slots s ! idx)"
      using True c(3) by (metis Suc_eq_plus1 le_antisym less_imp_le not_less_eq_eq)
    ultimately show ?thesis
      using True c(1) by (auto simp: pass_less.simps [of _ idx left])
  next
    case False
    then show ?thesis
      using c Suc.prems by (auto simp: pass_less.simps [of _ idx left])
  qed
qed

lemma pass_greater_ok:
  assumes "ok s" and "idx < length (slots s)" and "right < length (slots s)"
  shows "\<exists>r. pass_greater (cmp s) idx left right = Some r \<and> r \<le> right \<and>
    (left < r \<longrightarrow> le (slots s ! r) (slots s ! idx)) \<and> (left < right \<longrightarrow> left \<le> r) \<and>
    (\<forall>i. left < i \<and> r < i \<and> i \<le> right \<longrightarrow> le (slots s ! idx) (slots s ! i))"
  using assms(3)
proof (induction "right - left" arbitrary: right)
  case 0
  then show ?case
    by (auto simp: pass_greater.simps [of _ idx left right])
next
  case (Suc n)
  obtain c where c: "cmp s idx right = Some c" "c \<le> 0 \<longleftrightarrow> le (slots s ! idx) (slots s ! right)"
    "0 \<le> c \<longleftrightarrow> le (slots s ! right) (slots s ! idx)"
    using compare [OF assms(1,2) Suc.prems] by auto
  have lr: "left < right"
    using Suc.hyps(2) by simp
  show ?case
  proof (cases "c \<le> 0")
    case True
    have "n = right - 1 - left" "right - 1 < length (slots s)"
      using Suc.hyps(2) Suc.prems by simp_all
    from Suc.hyps(1) [OF this]
    obtain r where r: "pass_greater (cmp s) idx left (right - 1) = Some r" "r \<le> right - 1"
      "left < r \<longrightarrow> le (slots s ! r) (slots s ! idx)" "left < right - 1 \<longrightarrow> left \<le> r"
      "\<forall>i. left < i \<and> r < i \<and> i \<le> right - 1 \<longrightarrow> le (slots s ! idx) (slots s ! i)"
      by blast
    moreover have "left \<le> r"
    proof (cases "left < right - 1")
      case False
      then show ?thesis
        using r(1) [unfolded pass_greater.simps [of _ idx left "right - 1"]] lr by simp
    qed (use r(4) in simp)
    moreover have "le (slots s ! idx) (slots s ! i)" if "left < i" "r < i" "i \<le> right" for i
      using that r(5) True c(2) by (cases "i = right") auto
    ultimately show ?thesis
      using True c(1) lr by (auto simp: pass_greater.simps [of _ idx left right])
  next
    case False
    then show ?thesis
      using c lr by (auto simp: pass_greater.simps [of _ idx left right])
  qed
qed

text \<open>The loop leaves what is at most the pivot before \<open>left\<close>, and what is at least the pivot from there on.\<close>

lemma quick_loop_ok:
  assumes "ok s" and "idx < length (slots s)" and "lo \<le> left" "left \<le> idx" "right < idx"
    and "\<forall>i. lo \<le> i \<and> i < left \<longrightarrow> le (slots s ! i) (slots s ! idx)"
    and "\<forall>i. left \<le> i \<and> right < i \<and> i < idx \<longrightarrow> le (slots s ! idx) (slots s ! i)"
  shows "\<exists>s' l. quick_loop cmp sw s idx left right = Some (s', l) \<and> stepped lo idx s s' \<and> left \<le> l \<and> l \<le> idx \<and>
    (\<forall>i. lo \<le> i \<and> i < l \<longrightarrow> le (slots s' ! i) (slots s' ! idx)) \<and>
    (\<forall>i. l \<le> i \<and> i < idx \<longrightarrow> le (slots s' ! idx) (slots s' ! i))"
  using assms
proof (induction "right - left" arbitrary: s left right rule: less_induct)
  case less
  obtain l where l: "pass_less (cmp s) idx left = Some l" "left \<le> l" "l \<le> idx"
    "le (slots s ! idx) (slots s ! l)" "\<forall>i. left \<le> i \<and> i < l \<longrightarrow> le (slots s ! i) (slots s ! idx)"
    using pass_less_ok [OF less.prems(1,2,4)] by auto
  have rl: "right < length (slots s)"
    using less.prems(2,5) by simp
  obtain r where r: "pass_greater (cmp s) idx l right = Some r" "r \<le> right" "l < r \<longrightarrow> le (slots s ! r) (slots s ! idx)"
    "l < right \<longrightarrow> l \<le> r" "\<forall>i. l < i \<and> r < i \<and> i \<le> right \<longrightarrow> le (slots s ! idx) (slots s ! i)"
    using pass_greater_ok [OF less.prems(1,2) rl, of l] by auto
  have below: "\<forall>i. lo \<le> i \<and> i < l \<longrightarrow> le (slots s ! i) (slots s ! idx)"
    using l(5) less.prems(6) by (meson not_le)
  have above: "le (slots s ! idx) (slots s ! i)" if "l \<le> i" "r < i" "i < idx" for i
    using that l(2,4) r(5) less.prems(7) by (cases "i = l"; cases "i \<le> right") auto
  show ?case
  proof (cases "l < r")
    case False
    have "le (slots s ! idx) (slots s ! i)" if "l \<le> i" "i < idx" for i
      using above [of i] that False l(4) by (cases "i = l") auto
    then show ?thesis
      using False l r below less.prems(1) by (auto simp: quick_loop.simps [of _ _ s] stepped_refl)
  next
    case True
    have idx: "idx \<le> length (slots s)"
      using less.prems(2) by simp
    obtain s1 where s1: "sw s l r = Some s1" "stepped lo idx s s1" "slots s1 = swapped (slots s) l r"
      using swap_step [OF less.prems(1), of lo l idx r] l(2) less.prems(3,5) r(2) True idx by auto
    have n: "slots s1 ! i = (if i = l then slots s ! r else if i = r then slots s ! l else slots s ! i)" if "i < length (slots s)" for i
      using that True l(3) r(2) rl less.prems(2) by (simp add: s1(3) nth_swapped)
    have idx1: "slots s1 ! idx = slots s ! idx"
      using n [OF less.prems(2)] True r(2) less.prems(5) by auto
    have "\<exists>s' m. quick_loop cmp sw s1 idx l (r - 1) = Some (s', m) \<and> stepped lo idx s1 s' \<and> l \<le> m \<and> m \<le> idx \<and>
        (\<forall>i. lo \<le> i \<and> i < m \<longrightarrow> le (slots s' ! i) (slots s' ! idx)) \<and>
        (\<forall>i. m \<le> i \<and> i < idx \<longrightarrow> le (slots s' ! idx) (slots s' ! i))"
    proof (rule less.hyps)
      show "r - 1 - l < right - left"
        using True r(2) l(2) by linarith
      show "ok s1"
        using s1(2) by (rule stepped_ok)
      show "\<forall>i. lo \<le> i \<and> i < l \<longrightarrow> le (slots s1 ! i) (slots s1 ! idx)"
        using below True less.prems(2) l(3) by (simp add: idx1 n)
      show "\<forall>i. l \<le> i \<and> r - 1 < i \<and> i < idx \<longrightarrow> le (slots s1 ! idx) (slots s1 ! i)"
        using above l(4) True less.prems(2) by (auto simp: idx1 n)
    qed (use less.prems l r True s1(3) in auto)
    then show ?thesis
      using l(1,2) r(1) True s1(1,2) by (auto simp: quick_loop.simps [of _ _ s] intro: stepped_trans)
  qed
qed

end


context selection begin

lemma swap_if_greater_ok:
  assumes "ok s" and "lo \<le> i" "i < hi" "lo \<le> j" "j < hi" "hi \<le> length (slots s)"
  obtains s' where "swap_if_greater cmp sw s i j = Some s'" and "stepped lo hi s s'" and "le (slots s' ! i) (slots s' ! j)"
proof -
  have ij: "i < length (slots s)" "j < length (slots s)"
    using assms by simp_all
  obtain c where c: "cmp s i j = Some c" "c \<le> 0 \<longleftrightarrow> le (slots s ! i) (slots s ! j)" "0 \<le> c \<longleftrightarrow> le (slots s ! j) (slots s ! i)"
    using compare [OF assms(1) ij] by auto
  obtain s' where s': "sw s i j = Some s'" "stepped lo hi s s'" "slots s' = swapped (slots s) i j"
    using swap_step [OF assms] .
  show thesis
  proof (cases "c > 0")
    case True
    then have "le (slots s' ! i) (slots s' ! j)"
      using c(3) ij le_refl by (simp add: s'(3) nth_swapped)
    then show thesis
      using that [of s'] c(1) s' True by (simp add: swap_if_greater_def)
  next
    case False
    then show thesis
      using that [of s] c assms(1) stepped_refl by (simp add: swap_if_greater_def)
  qed
qed

lemma choose_pivot_ok:
  assumes "ok s" and "lo + 1 < hi" "hi \<le> length (slots s)"
  obtains s' where "choose_pivot cmp sw s lo hi = Some s'" and "stepped lo hi s s'" and "le (slots s' ! lo) (slots s' ! (hi - 1))"
proof -
  define mid where "mid = (lo + hi) div 2"
  have mid: "lo \<le> mid" "mid < hi"
    using assms(2) by (simp_all add: mid_def)
  have hi: "lo \<le> lo" "lo < hi" "lo \<le> hi - 1" "hi - 1 < hi"
    using assms(2) by simp_all
  obtain s1 where s1: "swap_if_greater cmp sw s lo (hi - 1) = Some s1" "stepped lo hi s s1" "le (slots s1 ! lo) (slots s1 ! (hi - 1))"
    using swap_if_greater_ok [OF assms(1) hi assms(3)] .
  have ok1: "ok s1" "hi \<le> length (slots s1)"
    using stepped_ok [OF s1(2)] stepped_length [OF s1(2)] assms(3) by simp_all
  have "hi - 1 < length (slots s1)" "mid < length (slots s1)"
    using ok1(2) assms(2) mid(2) by simp_all
  from compare [OF ok1(1) this] obtain c where c: "cmp s1 (hi - 1) mid = Some c"
    by auto
  show thesis
  proof (cases "c > 0")
    case True
    obtain s2 where s2: "sw s1 (hi - 1) mid = Some s2" "stepped lo hi s1 s2"
      using swap_step [OF ok1(1) hi(3,4) mid ok1(2)] .
    have ok2: "ok s2" "hi \<le> length (slots s2)"
      using stepped_ok [OF s2(2)] stepped_length [OF s2(2)] ok1(2) by simp_all
    obtain s3 where "swap_if_greater cmp sw s2 lo (hi - 1) = Some s3" "stepped lo hi s2 s3" "le (slots s3 ! lo) (slots s3 ! (hi - 1))"
      using swap_if_greater_ok [OF ok2(1) hi ok2(2)] .
    then show thesis
      using that [of s3] s1(1,2) c s2 True by (auto simp: choose_pivot_def mid_def [symmetric] intro: stepped_trans)
  next
    case False
    then show thesis
      using that [of s1] s1 c by (simp add: choose_pivot_def mid_def [symmetric])
  qed
qed

subsection \<open>Medians of medians\<close>

lemma insert_down_ok:
  "ok s \<Longrightarrow> lo \<le> left \<Longrightarrow> j < hi \<Longrightarrow> hi \<le> length (slots s) \<Longrightarrow> \<exists>s'. insert_down cmp sw s left j = Some s' \<and> stepped lo hi s s'"
proof (induction j arbitrary: s)
  case 0
  then show ?case
    by (auto simp: insert_down.simps [of _ _ s] stepped_refl)
next
  case (Suc j)
  obtain c where c: "cmp s j (Suc j) = Some c"
    using compare [OF Suc.prems(1), of j "Suc j"] Suc.prems(3,4) by auto
  show ?case
  proof (cases "left < Suc j \<and> c > 0")
    case True
    obtain s1 where s1: "sw s j (Suc j) = Some s1" "stepped lo hi s s1"
      using swap_step [OF Suc.prems(1), of lo j hi "Suc j"] True Suc.prems by auto
    have "ok s1" "hi \<le> length (slots s1)"
      using stepped_ok [OF s1(2)] stepped_length [OF s1(2)] Suc.prems(4) by simp_all
    then obtain s2 where "insert_down cmp sw s1 left j = Some s2" "stepped lo hi s1 s2"
      using Suc.IH [of s1] Suc.prems by auto
    then show ?thesis
      using True c s1 by (auto simp: insert_down.simps [of _ _ s] intro: stepped_trans)
  next
    case False
    then show ?thesis
      using c Suc.prems(1) by (auto simp: insert_down.simps [of _ _ s] stepped_refl)
  qed
qed

lemma partition5_loop_ok:
  "ok s \<Longrightarrow> lo \<le> left \<Longrightarrow> right < hi \<Longrightarrow> hi \<le> length (slots s) \<Longrightarrow>
   \<exists>s'. partition5_loop cmp sw s left right i = Some s' \<and> stepped lo hi s s'"
proof (induction "right + 1 - i" arbitrary: i s)
  case 0
  then show ?case
    by (auto simp: partition5_loop.simps [of _ _ s] stepped_refl)
next
  case (Suc n)
  have "i < hi"
    using Suc.hyps(2) Suc.prems(3) by simp
  from insert_down_ok [OF Suc.prems(1,2) this Suc.prems(4)]
  obtain s1 where s1: "insert_down cmp sw s left i = Some s1" "stepped lo hi s s1"
    by auto
  have "ok s1" "hi \<le> length (slots s1)"
    using stepped_ok [OF s1(2)] stepped_length [OF s1(2)] Suc.prems(4) by simp_all
  moreover have "n = right + 1 - (i + 1)"
    using Suc.hyps(2) by simp
  ultimately obtain s2 where "partition5_loop cmp sw s1 left right (i + 1) = Some s2" "stepped lo hi s1 s2"
    using Suc.hyps(1) Suc.prems(2,3) by blast
  then show ?case
    using s1 Suc.hyps(2) by (auto simp: partition5_loop.simps [of _ _ s] intro: stepped_trans)
qed

lemma partition5_ok:
  "ok s \<Longrightarrow> lo \<le> left \<Longrightarrow> right < hi \<Longrightarrow> hi \<le> length (slots s) \<Longrightarrow>
   \<exists>s'. partition5 cmp sw s left right = Some (s', (left + right) div 2) \<and> stepped lo hi s s'"
  using partition5_loop_ok [of s lo left right hi "left + 1"] by (auto simp: partition5_def)

lemma medians_loop_ok:
  "ok s \<Longrightarrow> left \<le> i \<Longrightarrow> right < hi \<Longrightarrow> hi \<le> length (slots s) \<Longrightarrow>
   \<exists>s'. medians_loop cmp sw s left right i = Some s' \<and> stepped left hi s s'"
proof (induction "right + 1 - i" arbitrary: i s rule: less_induct)
  case less
  show ?case
  proof (cases "i \<le> right")
    case False
    then show ?thesis
      using less.prems(1) by (auto simp: medians_loop.simps [of _ _ s] stepped_refl)
  next
    case True
    define m where "m = (i + min (i + 4) right) div 2"
    have m: "left \<le> m" "m < hi"
      using True less.prems(2,3) by (cases "i + 4 \<le> right"; simp add: m_def min_def; linarith)+
    have t: "left + (i - left) div 5 < hi"
      using True less.prems(2,3) div_le_dividend [of "i - left" 5] by linarith
    obtain s1 where s1: "partition5 cmp sw s i (min (i + 4) right) = Some (s1, m)" "stepped left hi s s1"
      using partition5_ok [OF less.prems(1,2) _ less.prems(4), of "min (i + 4) right"] less.prems(3) unfolding m_def
      by (metis min.strict_coboundedI2)
    have ok1: "ok s1" "hi \<le> length (slots s1)"
      using stepped_ok [OF s1(2)] stepped_length [OF s1(2)] less.prems(4) by simp_all
    obtain s2 where s2: "sw s1 m (left + (i - left) div 5) = Some s2" "stepped left hi s1 s2"
      using swap_step [OF ok1(1) m _ t ok1(2)] by auto
    have ok2: "ok s2" "hi \<le> length (slots s2)"
      using stepped_ok [OF s2(2)] stepped_length [OF s2(2)] ok1(2) by simp_all
    have "right + 1 - (i + 5) < right + 1 - i" "left \<le> i + 5"
      using True less.prems(2) by simp_all
    from less.hyps [OF this(1) ok2(1) this(2) less.prems(3) ok2(2)]
    obtain s3 where "medians_loop cmp sw s2 left right (i + 5) = Some s3" "stepped left hi s2 s3"
      by auto
    then show ?thesis
      using True s1 s2 by (auto simp: medians_loop.simps [of _ _ s] intro: stepped_trans)
  qed
qed

text \<open>The elements before \<open>st\<close> are at most the pivot, those from \<open>st\<close> on are at least the pivot.\<close>

lemma move_less_ok:
  "ok s \<Longrightarrow> lo \<le> st \<Longrightarrow> st \<le> i \<Longrightarrow> i \<le> right \<Longrightarrow> right < length (slots s) \<Longrightarrow>
   \<forall>j. lo \<le> j \<and> j < st \<longrightarrow> le (slots s ! j) (slots s ! right) \<Longrightarrow>
   \<forall>j. st \<le> j \<and> j < i \<longrightarrow> le (slots s ! right) (slots s ! j) \<Longrightarrow>
   \<exists>s' a. move_less cmp sw s right i st = Some (s', a) \<and> stepped lo right s s' \<and> st \<le> a \<and> a \<le> right \<and>
     (\<forall>j. lo \<le> j \<and> j < a \<longrightarrow> le (slots s' ! j) (slots s' ! right)) \<and>
     (\<forall>j. a \<le> j \<and> j < right \<longrightarrow> le (slots s' ! right) (slots s' ! j))"
proof (induction "right - i" arbitrary: s i st)
  case 0
  then show ?case
    by (auto simp: move_less.simps [of _ _ s] stepped_refl)
next
  case (Suc n)
  have i: "i < right" "i < length (slots s)" and n: "n = right - (i + 1)"
    using Suc.hyps(2) Suc.prems(5) by simp_all
  obtain c where c: "cmp s right i = Some c" "c \<le> 0 \<longleftrightarrow> le (slots s ! right) (slots s ! i)" "0 \<le> c \<longleftrightarrow> le (slots s ! i) (slots s ! right)"
    using compare [OF Suc.prems(1,5) i(2)] by auto
  show ?case
  proof (cases "c > 0")
    case True
    obtain s1 where s1: "sw s st i = Some s1" "stepped lo right s s1" "slots s1 = swapped (slots s) st i"
      using swap_step [OF Suc.prems(1), of lo st right i] Suc.prems i by auto
    have nth: "slots s1 ! j = (if j = st then slots s ! i else if j = i then slots s ! st else slots s ! j)" if "j < length (slots s)" for j
      using that i Suc.prems(3) by (simp add: s1(3) nth_swapped)
    have r: "slots s1 ! right = slots s ! right"
      using nth [OF Suc.prems(5)] i(1) Suc.prems(3) by simp
    have below: "\<forall>j. lo \<le> j \<and> j < st + 1 \<longrightarrow> le (slots s1 ! j) (slots s1 ! right)"
      using Suc.prems(3,6) i(2) True c(3) by (auto simp: r nth less_Suc_eq)
    have above: "\<forall>j. st + 1 \<le> j \<and> j < i + 1 \<longrightarrow> le (slots s1 ! right) (slots s1 ! j)"
      using Suc.prems(7) i(2) by (auto simp: r nth less_Suc_eq)
    have "\<exists>s' a. move_less cmp sw s1 right (i + 1) (st + 1) = Some (s', a) \<and> stepped lo right s1 s' \<and> st + 1 \<le> a \<and> a \<le> right \<and>
     (\<forall>j. lo \<le> j \<and> j < a \<longrightarrow> le (slots s' ! j) (slots s' ! right)) \<and>
     (\<forall>j. a \<le> j \<and> j < right \<longrightarrow> le (slots s' ! right) (slots s' ! j))"
      by (rule Suc.hyps(1) [OF n stepped_ok [OF s1(2)] _ _ _ _ below above]) (use Suc.prems i s1(3) in auto)
    then show ?thesis
      using True c(1) s1(1,2) i(1) by (auto simp: move_less.simps [of _ _ s] intro: stepped_trans)
  next
    case False
    have above: "\<forall>j. st \<le> j \<and> j < i + 1 \<longrightarrow> le (slots s ! right) (slots s ! j)"
      using Suc.prems(7) False c(2) by (auto simp: less_Suc_eq)
    have "\<exists>s' a. move_less cmp sw s right (i + 1) st = Some (s', a) \<and> stepped lo right s s' \<and> st \<le> a \<and> a \<le> right \<and>
     (\<forall>j. lo \<le> j \<and> j < a \<longrightarrow> le (slots s' ! j) (slots s' ! right)) \<and>
     (\<forall>j. a \<le> j \<and> j < right \<longrightarrow> le (slots s' ! right) (slots s' ! j))"
      by (rule Suc.hyps(1) [OF n Suc.prems(1,2) _ _ Suc.prems(5,6) above]) (use Suc.prems i in auto)
    then show ?thesis
      using False c(1) i(1) by (auto simp: move_less.simps [of _ _ s])
  qed
qed

lemma move_equal_ok:
  "ok s \<Longrightarrow> lo \<le> e \<Longrightarrow> e \<le> i \<Longrightarrow> i \<le> right \<Longrightarrow> right < length (slots s) \<Longrightarrow>
   \<forall>j. lo \<le> j \<and> j < e \<longrightarrow> le (slots s ! j) (slots s ! right) \<Longrightarrow>
   \<forall>j. lo \<le> j \<and> j < right \<longrightarrow> le (slots s ! right) (slots s ! j) \<Longrightarrow>
   \<exists>s' b. move_equal cmp sw s right i e = Some (s', b) \<and> stepped lo right s s' \<and> e \<le> b \<and> b \<le> right \<and>
     (\<forall>j. lo \<le> j \<and> j < b \<longrightarrow> le (slots s' ! j) (slots s' ! right)) \<and>
     (\<forall>j. lo \<le> j \<and> j < right \<longrightarrow> le (slots s' ! right) (slots s' ! j))"
proof (induction "right - i" arbitrary: s i e)
  case 0
  then show ?case
    by (auto simp: move_equal.simps [of _ _ s] stepped_refl)
next
  case (Suc n)
  have i: "i < right" "i < length (slots s)" and n: "n = right - (i + 1)"
    using Suc.hyps(2) Suc.prems(5) by simp_all
  obtain c where c: "cmp s right i = Some c" "0 \<le> c \<longleftrightarrow> le (slots s ! i) (slots s ! right)"
    using compare [OF Suc.prems(1,5) i(2)] by auto
  show ?case
  proof (cases "c = 0")
    case True
    obtain s1 where s1: "sw s e i = Some s1" "stepped lo right s s1" "slots s1 = swapped (slots s) e i"
      using swap_step [OF Suc.prems(1), of lo e right i] Suc.prems i by auto
    have nth: "slots s1 ! j = (if j = e then slots s ! i else if j = i then slots s ! e else slots s ! j)" if "j < length (slots s)" for j
      using that i Suc.prems(3) by (simp add: s1(3) nth_swapped)
    have r: "slots s1 ! right = slots s ! right"
      using nth [OF Suc.prems(5)] i(1) Suc.prems(3) by simp
    have below: "\<forall>j. lo \<le> j \<and> j < e + 1 \<longrightarrow> le (slots s1 ! j) (slots s1 ! right)"
      using Suc.prems(3,6) i(2) True c(2) by (auto simp: r nth less_Suc_eq)
    have above: "\<forall>j. lo \<le> j \<and> j < right \<longrightarrow> le (slots s1 ! right) (slots s1 ! j)"
      using Suc.prems(2,3,5,7) i by (auto simp: r nth)
    have "\<exists>s' b. move_equal cmp sw s1 right (i + 1) (e + 1) = Some (s', b) \<and> stepped lo right s1 s' \<and> e + 1 \<le> b \<and> b \<le> right \<and>
     (\<forall>j. lo \<le> j \<and> j < b \<longrightarrow> le (slots s' ! j) (slots s' ! right)) \<and>
     (\<forall>j. lo \<le> j \<and> j < right \<longrightarrow> le (slots s' ! right) (slots s' ! j))"
      by (rule Suc.hyps(1) [OF n stepped_ok [OF s1(2)] _ _ _ _ below above]) (use Suc.prems i s1(3) in auto)
    then show ?thesis
      using True c(1) s1(1,2) i(1) by (auto simp: move_equal.simps [of _ _ s] intro: stepped_trans)
  next
    case False
    have "\<exists>s' b. move_equal cmp sw s right (i + 1) e = Some (s', b) \<and> stepped lo right s s' \<and> e \<le> b \<and> b \<le> right \<and>
     (\<forall>j. lo \<le> j \<and> j < b \<longrightarrow> le (slots s' ! j) (slots s' ! right)) \<and>
     (\<forall>j. lo \<le> j \<and> j < right \<longrightarrow> le (slots s' ! right) (slots s' ! j))"
      by (rule Suc.hyps(1) [OF n Suc.prems(1,2) _ _ Suc.prems(5,6,7)]) (use Suc.prems i in auto)
    then show ?thesis
      using False c(1) i(1) by (auto simp: move_equal.simps [of _ _ s])
  qed
qed


text \<open>\<open>partition\<close> leaves everything up to \<open>b\<close> at most the pivot, everything from \<open>a\<close> on at least the pivot.\<close>

lemma sel_partition_ok:
  assumes "ok s" and "left \<le> p" "p \<le> right" "right < length (slots s)"
  shows "\<exists>s' a b x. sel_partition cmp sw s left right k p = Some (s', if k < a then a else if k \<le> b then k else b) \<and>
    stepped left (right + 1) s s' \<and> left \<le> a \<and> a \<le> b \<and> b \<le> right \<and>
    (\<forall>j. left \<le> j \<and> j \<le> b \<longrightarrow> le (slots s' ! j) x) \<and> (\<forall>j. a \<le> j \<and> j \<le> right \<longrightarrow> le x (slots s' ! j))"
proof -
  obtain s1 where s1: "sw s p right = Some s1" "stepped left (right + 1) s s1"
    using swap_step [OF assms(1), of left p "right + 1" right] assms by auto
  have ok1: "ok s1" "right < length (slots s1)"
    using stepped_ok [OF s1(2)] stepped_length [OF s1(2)] assms(4) by simp_all
  obtain s2 a where s2: "move_less cmp sw s1 right left left = Some (s2, a)" "stepped left right s1 s2" "left \<le> a" "a \<le> right"
    "\<forall>j. left \<le> j \<and> j < a \<longrightarrow> le (slots s2 ! j) (slots s2 ! right)" "\<forall>j. a \<le> j \<and> j < right \<longrightarrow> le (slots s2 ! right) (slots s2 ! j)"
    using move_less_ok [OF ok1(1) order_refl order_refl _ ok1(2), of left] assms(2,3) by (auto dest: le_less_trans)
  have ok2: "ok s2" "right < length (slots s2)"
    using stepped_ok [OF s2(2)] stepped_length [OF s2(2)] ok1(2) by simp_all
  obtain s3 b where s3: "move_equal cmp sw s2 right a a = Some (s3, b)" "stepped a right s2 s3" "a \<le> b" "b \<le> right"
    "\<forall>j. a \<le> j \<and> j < b \<longrightarrow> le (slots s3 ! j) (slots s3 ! right)" "\<forall>j. a \<le> j \<and> j < right \<longrightarrow> le (slots s3 ! right) (slots s3 ! j)"
    using move_equal_ok [OF ok2(1) order_refl order_refl s2(4) ok2(2) _ s2(6)] by (auto dest: le_less_trans)
  have ok3: "ok s3" "right < length (slots s3)"
    using stepped_ok [OF s3(2)] stepped_length [OF s3(2)] ok2(2) by simp_all
  have same: "slots s3 ! j = slots s2 ! j" if "j < a \<or> j = right" for j
    using s3(2) that ok2(2) s2(4) by (intro rearranged_outside [of a right]) (auto simp: stepped_def)
  define x where "x = slots s3 ! right"
  obtain s4 where s4: "sw s3 right b = Some s4" "stepped left (right + 1) s3 s4" "slots s4 = swapped (slots s3) right b"
    using swap_step [OF ok3(1), of left right "right + 1" b] ok3(2) s2(3) s3(3,4) assms(2,3) by auto
  have nth: "slots s4 ! j = (if j = right then slots s3 ! b else if j = b then x else slots s3 ! j)" if "j \<le> right" for j
    using that ok3(2) s3(4) by (simp add: s4(3) nth_swapped x_def)
  have below: "le (slots s4 ! j) x" if "left \<le> j" "j \<le> b" for j
  proof -
    have "le (slots s3 ! j) x" if "j < b"
      using s2(5) s3(5) same that \<open>left \<le> j\<close> by (cases "j < a") (auto simp: x_def)
    then show ?thesis
      using that s3(4) le_refl [of x] by (cases "j = b") (auto simp: nth x_def)
  qed
  have above: "le x (slots s4 ! j)" if "a \<le> j" "j \<le> right" for j
  proof -
    have "le x (slots s3 ! i)" if "a \<le> i" "i \<le> right" for i
      using s3(6) that le_refl [of x] by (cases "i = right") (auto simp: x_def)
    then show ?thesis
      using that s3(3,4) le_refl [of x] by (simp add: nth)
  qed
  have "stepped left (right + 1) s s4"
    using s1(2) s2(2,3) s3(2) s4(2) by (meson le_add1 order_refl stepped_mono stepped_trans)
  then show ?thesis
    using s1(1) s2(1,3) s3(1,3,4) s4(1) below above
    by (intro exI [of _ s4] exI [of _ a] exI [of _ b] exI [of _ x]) (simp add: sel_partition_def)
qed

theorem medianOfMediansSelect_ok:
  "ok s \<Longrightarrow> left \<le> k \<Longrightarrow> k \<le> right \<Longrightarrow> right < length (slots s) \<Longrightarrow> right - left < n \<Longrightarrow>
   \<exists>s'. medianOfMediansSelect n cmp sw s left right k = Some (s', k) \<and> stepped left (right + 1) s s' \<and>
     selected le left (right + 1) k (slots s')"
proof (induction n arbitrary: s left right k)
  case (Suc n)
  show ?case
  proof (cases "left = right")
    case True
    then have "k = left"
      using Suc.prems(2,3) by simp
    then show ?thesis
      using True Suc.prems(1) by (auto simp: stepped_refl selected_def)
  next
    case False
    have lr: "left < right"
      using False Suc.prems(2,3) by simp
    have r: "right < right + 1" "right + 1 \<le> length (slots s)" "left \<le> left"
      using Suc.prems(4) by simp_all
    let ?pivot = "if right - left < 5 then partition5 cmp sw s left right
      else do {
        s \<leftarrow> medians_loop cmp sw s left right left;
        medianOfMediansSelect n cmp sw s left (left + (right - left) div 5) ((right - left) div 10 + left + 1)
      }"
    obtain s1 p where s1: "?pivot = Some (s1, p)" "stepped left (right + 1) s s1" "left \<le> p" "p \<le> right"
    proof (cases "right - left < 5")
      case True
      then show thesis
        using that partition5_ok [OF Suc.prems(1) r(3,1,2)] lr by auto
    next
      case five: False
      obtain s1 where s1: "medians_loop cmp sw s left right left = Some s1" "stepped left (right + 1) s s1"
        using medians_loop_ok [OF Suc.prems(1) r(3,1,2)] by auto
      define top where "top = left + (right - left) div 5"
      define mid where "mid = (right - left) div 10 + left + 1"
      define m where "m = right - left"
      have "5 \<le> m" "m div 10 + 1 \<le> m div 5" "m div 5 < m"
          using five unfolding m_def [symmetric] by (simp, presburger, simp)
      moreover have "right = left + m" "m < Suc n"
        using lr Suc.prems(5) by (simp_all add: m_def)
      ultimately have t: "left \<le> mid" "mid \<le> top" "top < right" "top - left < n"
        unfolding top_def mid_def m_def [symmetric] by linarith+
      obtain s2 where s2: "medianOfMediansSelect n cmp sw s1 left top mid = Some (s2, mid)" "stepped left (top + 1) s1 s2"
        using Suc.IH [OF stepped_ok [OF s1(2)] t(1,2) _ t(4)] t(3) stepped_length [OF s1(2)] Suc.prems(4) by auto
      have "stepped left (right + 1) s1 s2"
        using s2(2) t(3) by (auto intro: stepped_mono)
      then have "stepped left (right + 1) s s2"
        using s1(2) stepped_trans by blast
      moreover have "medianOfMediansSelect n cmp sw s1 left (left + (right - left) div 5) ((right - left) div 10 + left + 1) = Some (s2, mid)"
        using s2(1) by (simp add: top_def mid_def)
      ultimately show thesis
        using that [of s2 mid] five s1(1) t by simp
    qed
    have ok1: "ok s1" "right < length (slots s1)"
      using stepped_ok [OF s1(2)] stepped_length [OF s1(2)] Suc.prems(4) by simp_all
    obtain s2 a b x where s2: "sel_partition cmp sw s1 left right k p = Some (s2, if k < a then a else if k \<le> b then k else b)"
      "stepped left (right + 1) s1 s2" "left \<le> a" "a \<le> b" "b \<le> right"
      and x: "\<forall>j. left \<le> j \<and> j \<le> b \<longrightarrow> le (slots s2 ! j) x" "\<forall>j. a \<le> j \<and> j \<le> right \<longrightarrow> le x (slots s2 ! j)"
      using sel_partition_ok [OF ok1(1) s1(3,4) ok1(2), of k] by blast
    have ok2: "ok s2" "right < length (slots s2)"
      using stepped_ok [OF s2(2)] stepped_length [OF s2(2)] ok1(2) by simp_all
    have ordered: "le (slots s2 ! i) (slots s2 ! j)" if "left \<le> i" "i \<le> b" "a \<le> j" "j \<le> right" for i j
      using x that by (meson le_trans)
    have steps: "stepped left (right + 1) s s2"
      using s1(2) s2(2) by (rule stepped_trans)
    have eq: "medianOfMediansSelect (Suc n) cmp sw s left right k =
      (if k < a then medianOfMediansSelect n cmp sw s2 left (a - 1) k
       else if k \<le> b then Some (s2, k) else medianOfMediansSelect n cmp sw s2 (b + 1) right k)"
      using False s2(4) unfolding medianOfMediansSelect.simps s1(1) by (simp add: s2(1) )
    consider "k < a" | "a \<le> k" "k \<le> b" | "b < k"
      using not_le by blast
    then show ?thesis
    proof cases
      case 1
      have lim: "a - 1 < length (slots s2)" "a - 1 - left < n" "k \<le> a - 1" "a - 1 + 1 = a"
        using 1 s2(4,5) ok2(2) Suc.prems(5) lr by simp_all
      obtain s3 where s3: "medianOfMediansSelect n cmp sw s2 left (a - 1) k = Some (s3, k)" "stepped left a s2 s3"
        "selected le left a k (slots s3)"
        using Suc.IH [OF ok2(1) Suc.prems(2) lim(3,1,2)] unfolding lim(4) by auto
      have "selected le left (right + 1) k (slots s3)"
        by (rule selected_left [of left a "slots s2"]) (use s3 1 s2 ok2 Suc.prems(2) ordered in \<open>auto simp: stepped_def\<close>)
      moreover have "stepped left (right + 1) s2 s3"
        using s3(2) s2(4,5) by (auto intro: stepped_mono)
      ultimately show ?thesis
        using 1 s3(1) steps unfolding eq by (auto intro: stepped_trans)
    next
      case 2
      have "selected le left (right + 1) k (slots s2)"
        using ordered 2 Suc.prems(2,3) by (auto simp: selected_def)
      then show ?thesis
        using 2 steps unfolding eq by simp
    next
      case 3
      have lim: "b + 1 \<le> k" "right - (b + 1) < n"
        using 3 s2(3,4) Suc.prems(3,5) by simp_all
      obtain s3 where s3: "medianOfMediansSelect n cmp sw s2 (b + 1) right k = Some (s3, k)" "stepped (b + 1) (right + 1) s2 s3"
        "selected le (b + 1) (right + 1) k (slots s3)"
        using Suc.IH [OF ok2(1) lim(1) Suc.prems(3) ok2(2) lim(2)] by auto
      have "selected le left (right + 1) k (slots s3)"
        by (rule selected_right [of "b + 1" "right + 1" "slots s2"])
          (use s3 3 s2 ok2 Suc.prems(3) ordered in \<open>auto simp: stepped_def\<close>)
      moreover have "stepped left (right + 1) s2 s3"
        using s3(2) s2(3,4) by (auto intro: stepped_mono)
      ultimately show ?thesis
        using 3 s3(1) steps s2(4) unfolding eq by (auto intro: stepped_trans)
    qed
  qed
qed simp

theorem quickSelect_ok:
  "ok s \<Longrightarrow> lo \<le> k \<Longrightarrow> k < hi \<Longrightarrow> hi \<le> length (slots s) \<Longrightarrow>
   \<exists>s'. quickSelect d cmp sw s lo hi k = Some s' \<and> stepped lo hi s s' \<and> selected le lo hi k (slots s')"
proof (induction d arbitrary: s lo hi)
  case 0
  have "k \<le> hi - 1" "hi - 1 < length (slots s)" "hi - 1 - lo < hi - lo" "hi - 1 + 1 = hi"
    using 0 by simp_all
  then obtain s' where "medianOfMediansSelect (hi - lo) cmp sw s lo (hi - 1) k = Some (s', k)"
    "stepped lo (hi - 1 + 1) s s'" "selected le lo (hi - 1 + 1) k (slots s')"
    using medianOfMediansSelect_ok [OF 0(1,2), of "hi - 1" "hi - lo"] by blast
  moreover have "selected le lo hi k (slots s)" if "hi - lo = 1"
    using that 0 by (auto simp: selected_def)
  ultimately show ?case
    using 0 by (auto simp: slowSelect_def stepped_refl)
next
  case (Suc d)
  show ?case
  proof (cases "hi - lo = 1")
    case True
    then have "selected le lo hi k (slots s)"
      using Suc.prems by (auto simp: selected_def)
    then show ?thesis
      using True Suc.prems(1) by (simp add: stepped_refl)
  next
    case False
    then have lohi: "lo + 1 < hi"
      using Suc.prems(2,3) by simp
    obtain s1 where s1: "choose_pivot cmp sw s lo hi = Some s1" "stepped lo hi s s1" "le (slots s1 ! lo) (slots s1 ! (hi - 1))"
      using choose_pivot_ok [OF Suc.prems(1) lohi Suc.prems(4)] .
    have ok1: "ok s1" "hi \<le> length (slots s1)"
      using stepped_ok [OF s1(2)] stepped_length [OF s1(2)] Suc.prems(4) by simp_all
    have "\<exists>s' l. quick_loop cmp sw s1 (hi - 1) (lo + 1) (hi - 2) = Some (s', l) \<and> stepped lo (hi - 1) s1 s' \<and> lo + 1 \<le> l \<and> l \<le> hi - 1 \<and>
        (\<forall>i. lo \<le> i \<and> i < l \<longrightarrow> le (slots s' ! i) (slots s' ! (hi - 1))) \<and>
        (\<forall>i. l \<le> i \<and> i < hi - 1 \<longrightarrow> le (slots s' ! (hi - 1)) (slots s' ! i))"
      using lohi ok1(2) s1(3) by (intro quick_loop_ok [OF ok1(1)]) (auto simp: less_Suc_eq)
    then obtain s2 l where s2: "quick_loop cmp sw s1 (hi - 1) (lo + 1) (hi - 2) = Some (s2, l)" "stepped lo (hi - 1) s1 s2"
      "lo + 1 \<le> l" "l \<le> hi - 1" and below: "\<forall>i. lo \<le> i \<and> i < l \<longrightarrow> le (slots s2 ! i) (slots s2 ! (hi - 1))"
      and above: "\<forall>i. l \<le> i \<and> i < hi - 1 \<longrightarrow> le (slots s2 ! (hi - 1)) (slots s2 ! i)"
      by auto
    have ok2: "ok s2" "hi \<le> length (slots s2)"
      using stepped_ok [OF s2(2)] stepped_length [OF s2(2)] ok1(2) by simp_all
    have l: "lo \<le> l" "l < hi" "lo \<le> hi - 1" "hi - 1 < hi"
      using s2(3,4) lohi by simp_all
    obtain s3 where s3: "sw s2 l (hi - 1) = Some s3" "stepped lo hi s2 s3" "slots s3 = swapped (slots s2) l (hi - 1)"
      using swap_step [OF ok2(1) l ok2(2)] .
    have ok3: "ok s3" "hi \<le> length (slots s3)"
      using stepped_ok [OF s3(2)] stepped_length [OF s3(2)] ok2(2) by simp_all
    have nth: "slots s3 ! j = (if j = l then slots s2 ! (hi - 1) else if j = hi - 1 then slots s2 ! l else slots s2 ! j)" if "j < hi" for j
      using that l ok2(2) by (simp add: s3(3) nth_swapped)
    have low: "le (slots s3 ! i) (slots s3 ! l)" if "lo \<le> i" "i \<le> l" for i
      using that below l le_refl by (cases "i = l") (auto simp: nth)
    have high: "le (slots s3 ! l) (slots s3 ! j)" if "l \<le> j" "j < hi" for j
    proof -
      have "le (slots s2 ! (hi - 1)) (slots s2 ! i)" if "l \<le> i" "i < hi" for i
        using above that le_refl by (cases "i = hi - 1") auto
      then show ?thesis
        using that l le_refl by (simp add: nth)
    qed
    have ordered: "le (slots s3 ! i) (slots s3 ! j)" if "lo \<le> i" "i \<le> l" "l \<le> j" "j < hi" for i j
      using low high that by (meson le_trans)
    have "stepped lo hi s1 s2"
      using s2(2) by (rule stepped_mono) simp_all
    then have steps: "stepped lo hi s s3"
      using s1(2) s3(2) stepped_trans by blast
    have eq: "quickSelect (Suc d) cmp sw s lo hi k = (if l = k then Some s3
        else if l < k then quickSelect d cmp sw s3 (l + 1) hi k else quickSelect d cmp sw s3 lo l k)"
      using False s1(1) s2(1) s3(1) by simp
    consider "k = l" | "l < k" | "k < l"
      using linorder_cases by blast
    then show ?thesis
    proof cases
      case 1
      then show ?thesis
        using steps low high unfolding eq by (auto simp: selected_def)
    next
      case 2
      obtain s4 where s4: "quickSelect d cmp sw s3 (l + 1) hi k = Some s4" "stepped (l + 1) hi s3 s4" "selected le (l + 1) hi k (slots s4)"
        using Suc.IH [OF ok3(1), of "l + 1" hi] 2 Suc.prems(3) ok3(2) by auto
      have "selected le lo hi k (slots s4)"
        by (rule selected_right [of "l + 1" hi "slots s3"]) (use s4 2 l ok3 Suc.prems(3) ordered in \<open>auto simp: stepped_def\<close>)
      moreover have "stepped lo hi s3 s4"
        using s4(2) l by (auto intro: stepped_mono)
      ultimately show ?thesis
        using 2 s4(1) steps unfolding eq by (auto intro: stepped_trans)
    next
      case 3
      obtain s4 where s4: "quickSelect d cmp sw s3 lo l k = Some s4" "stepped lo l s3 s4" "selected le lo l k (slots s4)"
        using Suc.IH [OF ok3(1) Suc.prems(2) 3] l ok3(2) by auto
      have "selected le lo hi k (slots s4)"
        by (rule selected_left [of lo l "slots s3"]) (use s4 3 l ok3 Suc.prems(2) ordered in \<open>auto simp: stepped_def\<close>)
      moreover have "stepped lo hi s3 s4"
        using s4(2) l by (auto intro: stepped_mono)
      ultimately show ?thesis
        using 3 s4(1) steps unfolding eq by (auto intro: stepped_trans)
    qed
  qed
qed

end

end
