(* ===== verification/Selectors_Radix.thy ===== *)
theory Selectors_Radix
  imports Selectors_Intro "HOL-Library.List_Lexorder"
begin

text \<open>
  What a \<open>RadixSelector\<close> needs of its provider, as a locale that extends the one of the selectors, and in it the
  proof that radix select puts the \<open>k\<close>-th element in its place.
\<close>

subsection \<open>Counting in a range\<close>

definition occurs :: "nat \<Rightarrow> nat \<Rightarrow> ('a \<Rightarrow> bool) \<Rightarrow> 'a list \<Rightarrow> nat set" where
  "occurs lo hi P xs = {i. lo \<le> i \<and> i < hi \<and> P (xs ! i)}"

lemma finite_occurs [simp]: "finite (occurs lo hi P xs)"
  by (rule finite_subset [of _ "{..<hi}"]) (auto simp: occurs_def)

lemma card_occurs:
  assumes "hi \<le> length xs"
  shows "card (occurs lo hi P xs) = length (filter P (part lo hi xs))"
proof -
  have "length (filter P (part lo hi xs)) = card {i. i < hi - lo \<and> P (xs ! (lo + i))}"
    using assms by (auto simp: length_filter_conv_card part_def intro!: arg_cong [of _ _ card])
  also have "\<dots> = card ((+) lo ` {i. i < hi - lo \<and> P (xs ! (lo + i))})"
    by (simp add: card_image)
  also have "(+) lo ` {i. i < hi - lo \<and> P (xs ! (lo + i))} = occurs lo hi P xs"
  proof -
    have "i \<in> (+) lo ` {i. i < hi - lo \<and> P (xs ! (lo + i))}" if "lo \<le> i" "i < hi" "P (xs ! i)" for i
      using that by (intro image_eqI [of _ _ "i - lo"]) auto
    then show ?thesis
      by (auto simp: occurs_def)
  qed
  finally show ?thesis ..
qed

lemma rearranged_occurs:
  assumes "rearranged lo hi xs ys" and "hi \<le> length xs" and "lo \<le> hi"
  shows "card (occurs lo hi P ys) = card (occurs lo hi P xs)"
proof -
  have "mset (filter P (part lo hi ys)) = mset (filter P (part lo hi xs))"
    using rearranged_part [OF assms(1,3)] by simp
  then have "length (filter P (part lo hi ys)) = length (filter P (part lo hi xs))"
    by (rule mset_eq_length)
  then show ?thesis
    using assms(2) rearranged_length [OF assms(1)] by (simp add: card_occurs)
qed

subsection \<open>What the provider of a \<open>RadixSelector\<close> promises\<close>

text \<open>Its keys all have \<open>maxLength\<close> bytes: only then does the fallback compare by a total order.\<close>

locale radix_slots = swap_slots ok slots sw
  for ok :: "'s \<Rightarrow> bool" and slots :: "'s \<Rightarrow> 'a list" and sw :: "'s Swap" +
  fixes byteAt :: "'s ByteAt"
    and maxLength :: nat
    and byte :: "'a \<Rightarrow> nat \<Rightarrow> nat"
  assumes byteAt: "ok s \<Longrightarrow> i < length (slots s) \<Longrightarrow> k < maxLength \<Longrightarrow> byteAt s i k = Some (int (byte (slots s ! i) k))"
    and byte_range: "byte a k < 256"
    and maxLength: "ok s \<Longrightarrow> 0 < maxLength"
begin

definition key :: "nat \<Rightarrow> 'a \<Rightarrow> nat list" where
  "key d a = map (byte a) [d..<maxLength]"

definition key_le :: "nat \<Rightarrow> 'a \<Rightarrow> 'a \<Rightarrow> bool" where
  "key_le d a b \<longleftrightarrow> key d a \<le> key d b"

lemma key_Cons: "d < maxLength \<Longrightarrow> key d a = byte a d # key (d + 1) a"
  by (simp add: key_def upt_conv_Cons)

lemma key_Nil: "maxLength \<le> d \<Longrightarrow> key d a = []"
  by (simp add: key_def)

lemma key_le_Cons:
  "d < maxLength \<Longrightarrow> key_le d a b \<longleftrightarrow> byte a d < byte b d \<or> byte a d = byte b d \<and> key_le (d + 1) a b"
  by (simp add: key_le_def key_Cons)

lemma fallback_Compare_ok:
  assumes "ok s" and "i < length (slots s)" and "j < length (slots s)"
  shows "\<exists>c. fallback_Compare byteAt maxLength d s i j = Some c \<and>
    (c \<le> 0 \<longleftrightarrow> key_le d (slots s ! i) (slots s ! j)) \<and> (0 \<le> c \<longleftrightarrow> key_le d (slots s ! j) (slots s ! i))"
proof (induction "maxLength - d" arbitrary: d)
  case 0
  then show ?case
    by (auto simp: fallback_Compare.simps [of _ _ d] key_le_def key_Nil)
next
  case (Suc n)
  have d: "d < maxLength" "n = maxLength - (d + 1)"
    using Suc.hyps(2) by simp_all
  show ?case
  proof (cases "byte (slots s ! i) d = byte (slots s ! j) d")
    case True
    then show ?thesis
      using Suc.hyps(1) [OF d(2)] d(1) assms by (simp add: fallback_Compare.simps [of _ _ d] byteAt key_le_Cons)
  next
    case False
    then show ?thesis
      using d(1) assms by (auto simp: fallback_Compare.simps [of _ _ d] byteAt key_le_Cons)
  qed
qed

lemma fallback_selection: "selection ok slots sw (fallback_Compare byteAt maxLength d) (key_le d)"
  by unfold_locales (use fallback_Compare_ok in \<open>auto simp: key_le_def\<close>)

lemma fallback_SelectK_ok:
  assumes "ok s" and "lo \<le> k" "k < hi" "hi \<le> length (slots s)"
  shows "\<exists>s'. fallback_SelectK byteAt sw maxLength s lo hi k d = Some s' \<and> stepped lo hi s s' \<and>
    selected (key_le d) lo hi k (slots s')"
  using selection.quickSelect_ok [OF fallback_selection assms]
  by (simp add: fallback_SelectK_def intro_SelectK_def)

end


context radix_slots begin

definition buckets :: "nat \<Rightarrow> nat \<Rightarrow> nat \<Rightarrow> 's \<Rightarrow> nat \<Rightarrow> nat set" where
  "buckets lo hi d s b = occurs lo hi (\<lambda>a. byte a d + 1 = b) (slots s)"

lemma getBucket_ok:
  "ok s \<Longrightarrow> i < length (slots s) \<Longrightarrow> d < maxLength \<Longrightarrow> getBucket byteAt s i d = Some (int (byte (slots s ! i) d + 1))"
  by (simp add: getBucket_def byteAt)

lemma histogram_add_ok:
  "length h = 257 \<Longrightarrow> b < 257 \<Longrightarrow> histogram_add h (int b) = Some (h[b := h ! b + 1])"
  by (simp add: histogram_add_def slice_get_in slice_set_in)

lemma histogram_put_ok:
  "length h = 257 \<Longrightarrow> b < 257 \<Longrightarrow> histogram_put h (int b) n = Some (h[b := n])"
  by (simp add: histogram_put_def slice_set_in)

lemma buckets_Cons:
  assumes "lo < hi"
  shows "card (buckets lo hi d s b) = (if byte (slots s ! lo) d + 1 = b then 1 else 0) + card (buckets (lo + 1) hi d s b)"
proof -
  have "buckets lo hi d s b = (if byte (slots s ! lo) d + 1 = b then insert lo (buckets (lo + 1) hi d s b) else buckets (lo + 1) hi d s b)"
    using assms by (auto simp: buckets_def occurs_def) (metis Suc_leI le_neq_implies_less)+
  moreover have "lo \<notin> buckets (lo + 1) hi d s b" "finite (buckets (lo + 1) hi d s b)"
    by (auto simp: buckets_def occurs_def [of "lo + 1"] simp del: One_nat_def intro: finite_occurs)
  ultimately show ?thesis
    by simp
qed

lemma buildHistogram_ok:
  assumes "ok s" and "hi \<le> length (slots s)" and "d < maxLength"
  shows "length h = 257 \<Longrightarrow> \<exists>h'. buildHistogram byteAt s i hi d h = Some h' \<and> length h' = 257 \<and>
    (\<forall>b<257. h' ! b = h ! b + card (buckets i hi d s b))"
proof (induction "hi - i" arbitrary: i h)
  case 0
  then show ?case
    by (auto simp: buildHistogram.simps [of _ _ i] buckets_def occurs_def)
next
  case (Suc n)
  let ?b = "byte (slots s ! i) d + 1"
  have i: "i < hi" "i < length (slots s)" "n = hi - (i + 1)"
    using Suc.hyps(2) assms(2) by simp_all
  have b: "?b < 257"
    using byte_range [of "slots s ! i" d] by simp
  have len: "length (h[?b := h ! ?b + 1]) = 257"
    using Suc.prems by simp
  obtain h' where h': "buildHistogram byteAt s (i + 1) hi d (h[?b := h ! ?b + 1]) = Some h'" "length h' = 257"
    "\<forall>b<257. h' ! b = h[?b := h ! ?b + 1] ! b + card (buckets (i + 1) hi d s b)"
    using Suc.hyps(1) [OF i(3) len] by blast
  have "buildHistogram byteAt s i hi d h = Some h'"
    using h'(1) getBucket_ok [OF assms(1) i(2) assms(3)] histogram_add_ok [OF Suc.prems b] i(1)
    by (simp add: buildHistogram.simps [of _ _ i])
  moreover have "h' ! b = h ! b + card (buckets i hi d s b)" if "b < 257" for b
    using h'(3) that Suc.prems buckets_Cons [OF i(1), of d s b] by (auto simp: nth_list_update)
  ultimately show ?case
    using h'(2) by blast
qed

subsection \<open>The common prefix\<close>

definition agree :: "nat \<Rightarrow> nat \<Rightarrow> 'a \<Rightarrow> 'a \<Rightarrow> bool" where
  "agree d n a b \<longleftrightarrow> (\<forall>j<n. byte a (d + j) = byte b (d + j))"

definition prefix_of :: "'a \<Rightarrow> nat \<Rightarrow> nat \<Rightarrow> int list" where
  "prefix_of a d n = map (\<lambda>j. int (byte a (d + j))) [0..<n]"

lemma prefix_of_Suc: "prefix_of a d (Suc n) = int (byte a d) # prefix_of a (d + 1) n"
  by (simp add: prefix_of_def upt_conv_Cons map_Suc_upt [symmetric] del: upt_Suc)

lemma first_prefix_ok:
  "ok s \<Longrightarrow> i < length (slots s) \<Longrightarrow> d + n \<le> maxLength \<Longrightarrow> first_prefix byteAt s i d n = Some (prefix_of (slots s ! i) d n)"
proof (induction n arbitrary: d)
  case (Suc n)
  have "first_prefix byteAt s i (d + 1) n = Some (prefix_of (slots s ! i) (d + 1) n)"
    using Suc by simp
  moreover have "byteAt s i d = Some (int (byte (slots s ! i) d))"
    using Suc.prems by (intro byteAt) simp_all
  ultimately show ?case
    by (simp add: prefix_of_Suc)
qed (simp add: prefix_of_def)

lemma match_prefix_ok:
  assumes "ok s" and "i < length (slots s)"
  shows "d + n \<le> maxLength \<Longrightarrow> \<exists>m r. match_prefix byteAt s i d (prefix_of a d n) = Some (m, r) \<and>
    m \<le> n \<and> agree d m a (slots s ! i) \<and> (r = None \<longleftrightarrow> m = n) \<and>
    (m < n \<longrightarrow> r = Some (int (byte (slots s ! i) (d + m))) \<and> byte (slots s ! i) (d + m) \<noteq> byte a (d + m))"
proof (induction n arbitrary: d)
  case 0
  then show ?case
    by (simp add: prefix_of_def agree_def)
next
  case (Suc n)
  have b: "byteAt s i d = Some (int (byte (slots s ! i) d))"
    using Suc.prems assms by (intro byteAt) simp_all
  show ?case
  proof (cases "byte (slots s ! i) d = byte a d")
    case False
    then show ?thesis
      by (intro exI [of _ 0]) (simp add: prefix_of_Suc b agree_def)
  next
    case True
    obtain m r where mr: "match_prefix byteAt s i (d + 1) (prefix_of a (d + 1) n) = Some (m, r)"
      "m \<le> n" "agree (d + 1) m a (slots s ! i)" "r = None \<longleftrightarrow> m = n"
      "m < n \<longrightarrow> r = Some (int (byte (slots s ! i) (d + 1 + m))) \<and> byte (slots s ! i) (d + 1 + m) \<noteq> byte a (d + 1 + m)"
      using Suc.IH [of "d + 1"] Suc.prems by auto
    have "agree d (m + 1) a (slots s ! i)"
      using mr(3) True by (auto simp: agree_def less_Suc_eq_0_disj)
    then show ?thesis
      using mr True by (intro exI [of _ "m + 1"] exI [of _ r]) (simp add: prefix_of_Suc b)
  qed
qed

lemma take_prefix_of: "m \<le> n \<Longrightarrow> take m (prefix_of a d n) = prefix_of a d m"
  by (simp add: prefix_of_def take_map)

lemma prefix_loop_ok:
  assumes "ok s" and "hi \<le> length (slots s)" and "d < maxLength"
  shows "0 < n \<Longrightarrow> d + n \<le> maxLength \<Longrightarrow> \<exists>p r. prefix_loop byteAt s i hi d (prefix_of a d n) = Some (p, r) \<and>
    (case r of
       None \<Rightarrow> \<exists>m. 0 < m \<and> m \<le> n \<and> p = prefix_of a d m \<and> (\<forall>q. i \<le> q \<and> q < hi \<longrightarrow> agree d m a (slots s ! q))
     | Some (q, b) \<Rightarrow> p = [] \<and> i \<le> q \<and> q < hi \<and> b = int (byte (slots s ! q) d) \<and> byte (slots s ! q) d \<noteq> byte a d \<and>
         (\<forall>q'. i \<le> q' \<and> q' < q \<longrightarrow> byte (slots s ! q') d = byte a d))"
proof (induction "hi - i" arbitrary: i n)
  case 0
  then show ?case
    by (auto simp: prefix_loop.simps [of _ _ i])
next
  case (Suc k)
  have i: "i < hi" "i < length (slots s)" "k = hi - (i + 1)"
    using Suc.hyps(2) assms(2) by simp_all
  obtain m r where mr: "match_prefix byteAt s i d (prefix_of a d n) = Some (m, r)" "m \<le> n" "agree d m a (slots s ! i)"
    "r = None \<longleftrightarrow> m = n"
    "m < n \<longrightarrow> r = Some (int (byte (slots s ! i) (d + m))) \<and> byte (slots s ! i) (d + m) \<noteq> byte a (d + m)"
    using match_prefix_ok [OF assms(1) i(2) Suc.prems(2)] by blast
  show ?case
  proof (cases "m = 0")
    case True
    then have "prefix_loop byteAt s i hi d (prefix_of a d n) = Some ([], Some (i, int (byte (slots s ! i) d)))"
      using i(1) mr Suc.prems(1) by (simp add: prefix_loop.simps [of _ _ i])
    then show ?thesis
      using True i(1) mr(5) Suc.prems(1) by auto
  next
    case False
    then have m: "0 < m" "d + m \<le> maxLength"
      using mr(2) Suc.prems(2) by simp_all
    have eq: "prefix_loop byteAt s i hi d (prefix_of a d n) = prefix_loop byteAt s (i + 1) hi d (prefix_of a d m)"
      using i(1) mr False by (cases "m = n") (simp_all add: prefix_loop.simps [of _ _ i] take_prefix_of)
    obtain p r' where pr: "prefix_loop byteAt s (i + 1) hi d (prefix_of a d m) = Some (p, r')"
      "case r' of
       None \<Rightarrow> \<exists>m'. 0 < m' \<and> m' \<le> m \<and> p = prefix_of a d m' \<and> (\<forall>q. i + 1 \<le> q \<and> q < hi \<longrightarrow> agree d m' a (slots s ! q))
     | Some (q, b) \<Rightarrow> p = [] \<and> i + 1 \<le> q \<and> q < hi \<and> b = int (byte (slots s ! q) d) \<and> byte (slots s ! q) d \<noteq> byte a d \<and>
         (\<forall>q'. i + 1 \<le> q' \<and> q' < q \<longrightarrow> byte (slots s ! q') d = byte a d)"
      using Suc.hyps(1) [OF i(3) m] by blast
    show ?thesis
    proof (cases r')
      case None
      then obtain m' where m': "0 < m'" "m' \<le> m" "p = prefix_of a d m'" "\<forall>q. i + 1 \<le> q \<and> q < hi \<longrightarrow> agree d m' a (slots s ! q)"
        using pr(2) by auto
      have "agree d m' a (slots s ! q)" if "i \<le> q" "q < hi" for q
        using that m'(2,4) mr(3) by (cases "q = i") (auto simp: agree_def)
      then show ?thesis
        using None eq pr(1) m' mr(2) by (auto intro!: exI [of _ m'])
    next
      case (Some qb)
      obtain q b where qb: "qb = (q, b)"
        by (cases qb)
      have first: "byte (slots s ! i) d = byte a d"
        using mr(3) m(1) by (auto simp: agree_def dest: spec [of _ 0])
      have "byte (slots s ! q') d = byte a d" if "i \<le> q'" "q' < q" for q'
        using that first pr(2) Some qb by (cases "q' = i") auto
      then show ?thesis
        using Some qb eq pr by auto
    qed
  qed
qed

lemma computeCommonPrefix_ok:
  assumes "ok s" and "lo < hi" "hi \<le> length (slots s)" and "d < maxLength"
  shows "\<exists>m h. computeCommonPrefix byteAt maxLength s lo hi d = Some (m, h) \<and> d + m \<le> maxLength \<and> length h = 257 \<and>
    (0 < m \<longrightarrow> h ! 0 = 0 \<and> (\<forall>i. lo \<le> i \<and> i < hi \<longrightarrow> agree d m (slots s ! lo) (slots s ! i))) \<and>
    (m = 0 \<longrightarrow> (\<forall>b<257. h ! b = card (buckets lo hi d s b)))"
proof -
  define n where "n = min (min 24 maxLength) (maxLength - d)"
  define a where "a = slots s ! lo"
  have n: "0 < n" "d + n \<le> maxLength"
    using assms(4) by (auto simp: n_def)
  have lo: "lo < length (slots s)"
    using assms(2,3) by simp
  have c0: "slice_get (prefix_of a d n) 0 = Some (int (byte a d))"
    using n(1) by (simp add: prefix_of_def slice_get_def)
  have ba: "byte a d + 1 < 257"
    using byte_range [of a d] by simp
  define h0 where "h0 = replicate 257 (0 :: nat)"
  have h0: "length h0 = 257" "\<And>b. b < 257 \<Longrightarrow> h0 ! b = 0"
    by (simp_all only: h0_def length_replicate nth_replicate)
  obtain p r where pr: "prefix_loop byteAt s (lo + 1) hi d (prefix_of a d n) = Some (p, r)"
    "case r of
       None \<Rightarrow> \<exists>m. 0 < m \<and> m \<le> n \<and> p = prefix_of a d m \<and> (\<forall>q. lo + 1 \<le> q \<and> q < hi \<longrightarrow> agree d m a (slots s ! q))
     | Some (q, b) \<Rightarrow> p = [] \<and> lo + 1 \<le> q \<and> q < hi \<and> b = int (byte (slots s ! q) d) \<and> byte (slots s ! q) d \<noteq> byte a d \<and>
         (\<forall>q'. lo + 1 \<le> q' \<and> q' < q \<longrightarrow> byte (slots s ! q') d = byte a d)"
    using prefix_loop_ok [OF assms(1,3,4) n] by blast
  show ?thesis
  proof (cases r)
    case None
    then obtain m where m: "0 < m" "m \<le> n" "p = prefix_of a d m" "\<forall>q. lo + 1 \<le> q \<and> q < hi \<longrightarrow> agree d m a (slots s ! q)"
      using pr(2) by auto
    have "computeCommonPrefix byteAt maxLength s lo hi d = Some (m, h0[byte a d + 1 := hi - lo])"
      using None pr(1) first_prefix_ok [OF assms(1) lo n(2)] c0 m(3) histogram_put_ok [OF h0(1) ba, of "hi - lo"]
      by (simp add: computeCommonPrefix_def n_def [symmetric] a_def [symmetric] h0_def [symmetric] prefix_of_def [of _ _ m] slice_get_def add.commute)
    moreover have "agree d m a (slots s ! i)" if "lo \<le> i" "i < hi" for i
      using that m(4) by (cases "i = lo") (auto simp: agree_def a_def)
    ultimately show ?thesis
      using m(1,2) n(2) h0 by (auto simp: a_def)
  next
    case (Some qb)
    then obtain q where q: "r = Some (q, int (byte (slots s ! q) d))" "p = []" "lo + 1 \<le> q" "q < hi"
      "byte (slots s ! q) d \<noteq> byte a d" "\<forall>q'. lo + 1 \<le> q' \<and> q' < q \<longrightarrow> byte (slots s ! q') d = byte a d"
      using pr(2) by (cases qb) auto
    have bq: "byte (slots s ! q) d + 1 < 257"
      using byte_range [of "slots s ! q" d] by simp
    define h1 where "h1 = h0[byte a d + 1 := q - lo, byte (slots s ! q) d + 1 := 1]"
    have h1: "length h1 = 257"
      by (simp add: h1_def h0(1))
    obtain h2 where h2: "buildHistogram byteAt s (q + 1) hi d h1 = Some h2" "length h2 = 257"
      "\<forall>b<257. h2 ! b = h1 ! b + card (buckets (q + 1) hi d s b)"
      using buildHistogram_ok [OF assms(1,3,4) h1] by blast
    have "computeCommonPrefix byteAt maxLength s lo hi d = Some (0, h2)"
      using q(1) pr(1) first_prefix_ok [OF assms(1) lo n(2)] c0 histogram_put_ok [OF h0(1) ba, of "q - lo"]
        histogram_put_ok [of "h0[byte a d + 1 := q - lo]" "byte (slots s ! q) d + 1" 1] h0(1) bq h2(1)
      by (simp add: computeCommonPrefix_def n_def [symmetric] a_def [symmetric] h0_def [symmetric] h1_def slice_get_def add.commute)
    moreover have "h2 ! b = card (buckets lo hi d s b)" if b: "b < 257" for b
    proof -
      have before: "card (buckets lo hi d s b) = (if byte a d + 1 = b then q' - lo else 0) + card (buckets q' hi d s b)"
        if "lo \<le> q'" "q' \<le> q" for q'
        using that
      proof (induction q' rule: dec_induct)
        case (step k)
        have "byte (slots s ! k) d = byte a d"
          using step q(6) by (cases "k = lo") (auto simp: a_def)
        then show ?case
          using step q(4) buckets_Cons [of k hi d s b] by auto
      qed simp
      have "card (buckets lo hi d s b) =
          (if byte a d + 1 = b then q - lo else 0) + ((if byte (slots s ! q) d + 1 = b then 1 else 0) + card (buckets (q + 1) hi d s b))"
        using before [of q] buckets_Cons [OF q(4), of d s b] q(3) by simp
      then show ?thesis
        using h2(3) b q(5) h0 by (auto simp: h1_def nth_list_update)
    qed
    ultimately show ?thesis
      using h2(2) assms(4) by auto
  qed
qed

end


context radix_slots begin

text \<open>\<open>bucket_of\<close> finds the bucket of the \<open>k\<close>-th key.\<close>

lemma bucket_of_ok:
  "bf \<le> k \<Longrightarrow> k < bf + sum_list h \<Longrightarrow>
   \<exists>b<length h. bucket_of h k b0 bf = Some (b0 + b, bf + sum_list (take b h), bf + sum_list (take (b + 1) h)) \<and>
     bf + sum_list (take b h) \<le> k \<and> k < bf + sum_list (take (b + 1) h)"
proof (induction h arbitrary: bf b0)
  case (Cons n h)
  show ?case
  proof (cases "k < bf + n")
    case True
    then show ?thesis
      using Cons.prems by (intro exI [of _ 0]) simp
  next
    case False
    then obtain b where "b < length h" "bucket_of h k (b0 + 1) (bf + n) =
        Some (b0 + 1 + b, bf + n + sum_list (take b h), bf + n + sum_list (take (b + 1) h))"
        "bf + n + sum_list (take b h) \<le> k" "k < bf + n + sum_list (take (b + 1) h)"
      using Cons.IH [of "bf + n" "b0 + 1"] Cons.prems by (auto simp: add.assoc)
    then show ?thesis
      using False by (intro exI [of _ "b + 1"]) (simp add: add.assoc)
  qed
qed simp

lemma sum_take_buckets:
  "\<forall>b<257. h ! b = card (buckets lo hi d s b) \<Longrightarrow> length h = 257 \<Longrightarrow> b \<le> 257 \<Longrightarrow>
   sum_list (take b h) = card (occurs lo hi (\<lambda>a. byte a d + 1 < b) (slots s))"
proof (induction b)
  case (Suc b)
  have "occurs lo hi (\<lambda>a. byte a d + 1 < Suc b) (slots s) =
      occurs lo hi (\<lambda>a. byte a d + 1 < b) (slots s) \<union> buckets lo hi d s b"
    "occurs lo hi (\<lambda>a. byte a d + 1 < b) (slots s) \<inter> buckets lo hi d s b = {}"
    by (auto simp: occurs_def buckets_def less_Suc_eq)
  then have "card (occurs lo hi (\<lambda>a. byte a d + 1 < Suc b) (slots s)) =
      card (occurs lo hi (\<lambda>a. byte a d + 1 < b) (slots s)) + card (buckets lo hi d s b)"
    by (simp add: card_Un_disjoint buckets_def)
  then show ?case
    using Suc by (simp add: take_Suc_conv_app_nth)
qed (simp add: occurs_def)

subsection \<open>Partition\<close>

text \<open>
  The numbers of keys below, in and above the bucket, and what the loops have put in place: keys below the
  bucket before \<open>left\<close>, keys above it behind \<open>right\<close>, keys of it from \<open>bf\<close> to \<open>slot\<close>.
\<close>

definition placed :: "nat \<Rightarrow> nat \<Rightarrow> nat \<Rightarrow> nat \<Rightarrow> nat \<Rightarrow> nat \<Rightarrow> 's \<Rightarrow> nat \<Rightarrow> nat \<Rightarrow> nat \<Rightarrow> bool" where
  "placed lo hi bf bt B d s left right slot \<longleftrightarrow> ok s \<and> hi \<le> length (slots s) \<and> d < maxLength \<and>
     lo \<le> left \<and> left \<le> bf \<and> bf < bt \<and> bt \<le> right + 1 \<and> right < hi \<and> bf \<le> slot \<and> slot \<le> bt \<and>
     card (occurs lo hi (\<lambda>a. byte a d + 1 < B) (slots s)) = bf - lo \<and>
     card (occurs lo hi (\<lambda>a. byte a d + 1 = B) (slots s)) = bt - bf \<and>
     card (occurs lo hi (\<lambda>a. B < byte a d + 1) (slots s)) = hi - bt \<and>
     (\<forall>i. lo \<le> i \<and> i < left \<longrightarrow> byte (slots s ! i) d + 1 < B) \<and>
     (\<forall>i. right < i \<and> i < hi \<longrightarrow> B < byte (slots s ! i) d + 1) \<and>
     (\<forall>i. bf \<le> i \<and> i < slot \<longrightarrow> byte (slots s ! i) d + 1 = B)"

lemma placed_counts:
  assumes "placed lo hi bf bt B d s left right slot" and "stepped lo hi s s'"
  shows "card (occurs lo hi (\<lambda>a. byte a d + 1 < B) (slots s')) = bf - lo"
    and "card (occurs lo hi (\<lambda>a. byte a d + 1 = B) (slots s')) = bt - bf"
    and "card (occurs lo hi (\<lambda>a. B < byte a d + 1) (slots s')) = hi - bt"
    and "ok s'" and "hi \<le> length (slots s')"
proof -
  have r: "rearranged lo hi (slots s) (slots s')" and l: "hi \<le> length (slots s)" "lo \<le> hi"
    using assms by (simp_all add: placed_def stepped_def)
  then show "ok s'" "hi \<le> length (slots s')"
    using assms(2) rearranged_length [OF r] by (simp_all add: stepped_def)
  show "card (occurs lo hi (\<lambda>a. byte a d + 1 < B) (slots s')) = bf - lo"
    "card (occurs lo hi (\<lambda>a. byte a d + 1 = B) (slots s')) = bt - bf"
    "card (occurs lo hi (\<lambda>a. B < byte a d + 1) (slots s')) = hi - bt"
    using assms(1) unfolding rearranged_occurs [OF r l] by (simp_all add: placed_def)
qed

text \<open>A key of the bucket outside its place leaves room in the place.\<close>

lemma placed_room:
  assumes "placed lo hi bf bt B d s left right slot" and "byte (slots s ! i) d + 1 = B"
    and "lo \<le> i" "i < hi" "i < bf \<or> bt \<le> i"
  shows "slot < bt"
proof (rule ccontr)
  assume "\<not> slot < bt"
  then have "slot = bt"
    using assms(1) by (simp add: placed_def)
  then have "insert i {bf..<bt} \<subseteq> occurs lo hi (\<lambda>a. byte a d + 1 = B) (slots s)"
    using assms by (auto simp: placed_def occurs_def)
  then have "card (insert i {bf..<bt}) \<le> bt - bf"
    using assms(1) card_mono [OF finite_occurs] by (metis placed_def)
  moreover have "card (insert i {bf..<bt}) = bt - bf + 1"
    using assms(5) by auto
  ultimately show False
    by simp
qed

lemma partition_left_ok:
  assumes "placed lo hi bf bt B d s left right slot"
  shows "\<exists>s' left' slot'. partition_left byteAt sw s B bf d left slot (int (byte (slots s ! left) d + 1)) = Some (s', left', slot') \<and>
    placed lo hi bf bt B d s' left' right slot' \<and> stepped lo bt s s' \<and> left \<le> left' \<and>
    (left' = bf \<or> B < byte (slots s' ! left') d + 1)"
  using assms
proof (induction "(bf - left) + (bt - slot)" arbitrary: s left slot rule: less_induct)
  case less
  note p = less.prems [unfolded placed_def]
  let ?b = "byte (slots s ! left) d + 1"
  show ?case
  proof (cases "?b \<le> B \<and> left < bf")
    case False
    then show ?thesis
      using less.prems p by (auto simp: partition_left.simps [of _ _ s] stepped_refl)
  next
    case True
    show ?thesis
    proof (cases "?b = B")
      case same: True
      have slot: "slot < bt"
        by (rule placed_room [OF less.prems same]) (use p True in auto)
      obtain s1 where s1: "sw s left slot = Some s1" "stepped lo bt s s1" "slots s1 = swapped (slots s) left slot"
        using swap_step [of s lo left bt slot] p True slot by auto
      have nth: "slots s1 ! i = (if i = left then slots s ! slot else if i = slot then slots s ! left else slots s ! i)" if "i < hi" for i
        using that p True slot by (simp add: s1(3) nth_swapped)
      have step: "stepped lo hi s s1"
        using s1(2) p by (auto intro: stepped_mono)
      have pl: "placed lo hi bf bt B d s1 left right (slot + 1)"
        using p True slot same placed_counts [OF less.prems step] by (auto simp: placed_def nth less_Suc_eq)
      have "bf - left + (bt - (slot + 1)) < bf - left + (bt - slot)"
        using slot by simp
      from less.hyps [OF this pl] obtain s2 l2 sl2 where ih:
        "partition_left byteAt sw s1 B bf d left (slot + 1) (int (byte (slots s1 ! left) d + 1)) = Some (s2, l2, sl2)"
        "placed lo hi bf bt B d s2 l2 right sl2" "stepped lo bt s1 s2" "left \<le> l2" "l2 = bf \<or> B < byte (slots s2 ! l2) d + 1"
        by blast
      have "getBucket byteAt s1 left d = Some (int (byte (slots s1 ! left) d + 1))"
        using pl by (intro getBucket_ok) (auto simp: placed_def)
      then have "partition_left byteAt sw s B bf d left slot (int ?b) = Some (s2, l2, sl2)"
        using True same s1(1) ih(1) by (simp add: partition_left.simps [of _ _ s])
      then show ?thesis
        using ih(2-5) s1(2) stepped_trans by blast
    next
      case other: False
      have pl: "placed lo hi bf bt B d s (left + 1) right slot"
        using p True other by (auto simp: placed_def less_Suc_eq)
      have "bf - (left + 1) + (bt - slot) < bf - left + (bt - slot)"
        using True by linarith
      from less.hyps [OF this pl] obtain s2 l2 sl2 where ih:
        "partition_left byteAt sw s B bf d (left + 1) slot (int (byte (slots s ! (left + 1)) d + 1)) = Some (s2, l2, sl2)"
        "placed lo hi bf bt B d s2 l2 right sl2" "stepped lo bt s s2" "left + 1 \<le> l2" "l2 = bf \<or> B < byte (slots s2 ! l2) d + 1"
        by blast
      have "getBucket byteAt s (left + 1) d = Some (int (byte (slots s ! (left + 1)) d + 1))"
        using pl by (intro getBucket_ok) (auto simp: placed_def)
      then have "partition_left byteAt sw s B bf d left slot (int ?b) = Some (s2, l2, sl2)"
        using True other ih(1) by (simp add: partition_left.simps [of _ _ s])
      then show ?thesis
        using ih(2-5) by auto
    qed
  qed
qed

lemma partition_right_ok:
  assumes "placed lo hi bf bt B d s left right slot" and "bt \<le> right \<longrightarrow> rb = int (byte (slots s ! right) d + 1)"
  shows "\<exists>s' right' slot'. partition_right byteAt sw s B bt d right slot rb = Some (s', right', slot') \<and>
    placed lo hi bf bt B d s' left right' slot' \<and> stepped bf hi s s' \<and> right' \<le> right \<and>
    (right' + 1 = bt \<or> byte (slots s' ! right') d + 1 < B)"
  using assms
proof (induction "(right - bt) + (bt - slot) + (if bt \<le> right then 1 else 0)" arbitrary: s right slot rb rule: less_induct)
  case less
  note p = less.prems(1) [unfolded placed_def]
  let ?b = "byte (slots s ! right) d + 1"
  show ?case
  proof (cases "int B \<le> rb \<and> bt \<le> right")
    case False
    then show ?thesis
      using less.prems p by (auto simp: partition_right.simps [of _ _ s] stepped_refl)
  next
    case True
    then have rb: "rb = int ?b" "B \<le> ?b" "bt \<le> right"
      using less.prems(2) by auto
    show ?thesis
    proof (cases "?b = B")
      case same: True
      have slot: "slot < bt"
        by (rule placed_room [OF less.prems(1) same]) (use p rb(3) in auto)
      obtain s1 where s1: "sw s right slot = Some s1" "stepped bf hi s s1" "slots s1 = swapped (slots s) right slot"
        using swap_step [of s bf right hi slot] p rb(3) slot by auto
      have nth: "slots s1 ! i = (if i = right then slots s ! slot else if i = slot then slots s ! right else slots s ! i)" if "i < hi" for i
        using that p rb(3) slot by (simp add: s1(3) nth_swapped)
      have step: "stepped lo hi s s1"
        using s1(2) p by (auto intro: stepped_mono)
      have pl: "placed lo hi bf bt B d s1 left right (slot + 1)"
        using p rb(3) slot same placed_counts [OF less.prems(1) step] by (auto simp: placed_def nth less_Suc_eq)
      have "right - bt + (bt - (slot + 1)) + (if bt \<le> right then 1 else 0) < right - bt + (bt - slot) + (if bt \<le> right then 1 else 0)"
        using slot by simp
      from less.hyps [OF this pl] obtain s2 r2 sl2 where ih:
        "partition_right byteAt sw s1 B bt d right (slot + 1) (int (byte (slots s1 ! right) d + 1)) = Some (s2, r2, sl2)"
        "placed lo hi bf bt B d s2 left r2 sl2" "stepped bf hi s1 s2" "r2 \<le> right" "r2 + 1 = bt \<or> byte (slots s2 ! r2) d + 1 < B"
        by blast
      have "getBucket byteAt s1 right d = Some (int (byte (slots s1 ! right) d + 1))"
        using pl by (intro getBucket_ok) (auto simp: placed_def)
      then have "partition_right byteAt sw s B bt d right slot rb = Some (s2, r2, sl2)"
        using rb same s1(1) ih(1) by (simp add: partition_right.simps [of _ _ s])
      then show ?thesis
        using ih(2-5) s1(2) stepped_trans by blast
    next
      case other: False
      have r0: "0 < right"
        using p rb(3) by simp
      have "B < byte (slots s ! i) d + 1" if "right - 1 < i" "i < hi" for i
        using that p rb(2) other by (cases "i = right") auto
      then have pl: "placed lo hi bf bt B d s left (right - 1) slot"
        using p rb(3) r0 by (auto simp: placed_def)
      have "right - 1 - bt + (bt - slot) + (if bt \<le> right - 1 then 1 else 0) < right - bt + (bt - slot) + (if bt \<le> right then 1 else 0)"
        using rb(3) r0 by auto
      from less.hyps [OF this pl] obtain s2 r2 sl2 where ih:
        "partition_right byteAt sw s B bt d (right - 1) slot (int (byte (slots s ! (right - 1)) d + 1)) = Some (s2, r2, sl2)"
        "placed lo hi bf bt B d s2 left r2 sl2" "stepped bf hi s s2" "r2 \<le> right - 1" "r2 + 1 = bt \<or> byte (slots s2 ! r2) d + 1 < B"
        by blast
      have "getBucket byteAt s (right - 1) d = Some (int (byte (slots s ! (right - 1)) d + 1))"
        using pl by (intro getBucket_ok) (auto simp: placed_def)
      then have "partition_right byteAt sw s B bt d right slot rb = Some (s2, r2, sl2)"
        using rb other ih(1) by (simp add: partition_right.simps [of _ _ s])
      then show ?thesis
        using ih(2-5) by auto
    qed
  qed
qed

lemma placed_all_less:
  assumes "placed lo hi bf bt B d s bf right slot" and "bf \<le> i" "i < hi"
  shows "B \<le> byte (slots s ! i) d + 1"
proof (rule ccontr)
  assume "\<not> B \<le> byte (slots s ! i) d + 1"
  then have "i \<in> occurs lo hi (\<lambda>a. byte a d + 1 < B) (slots s)"
    using assms by (auto simp: placed_def occurs_def)
  moreover have "{lo..<bf} = occurs lo hi (\<lambda>a. byte a d + 1 < B) (slots s)"
    using assms(1) by (intro card_subset_eq finite_occurs) (auto simp: placed_def occurs_def)
  ultimately have "i \<in> {lo..<bf}"
    by (rule subst [OF sym, rotated])
  then show False
    using assms(2) by simp
qed

lemma placed_all_greater:
  assumes "placed lo hi bf bt B d s left right slot" and "right + 1 = bt" and "lo \<le> i" "i < bt"
  shows "byte (slots s ! i) d + 1 \<le> B"
proof (rule ccontr)
  assume "\<not> byte (slots s ! i) d + 1 \<le> B"
  then have "i \<in> occurs lo hi (\<lambda>a. B < byte a d + 1) (slots s)"
    using assms by (auto simp: placed_def occurs_def)
  moreover have "{bt..<hi} = occurs lo hi (\<lambda>a. B < byte a d + 1) (slots s)"
    using assms(1,2) by (intro card_subset_eq finite_occurs) (auto simp: placed_def occurs_def)
  ultimately have "i \<in> {bt..<hi}"
    by (rule subst [OF sym, rotated])
  then show False
    using assms(4) by simp
qed

text \<open>The range in order of the buckets\<close>

definition split_at :: "nat \<Rightarrow> nat \<Rightarrow> nat \<Rightarrow> nat \<Rightarrow> nat \<Rightarrow> nat \<Rightarrow> 's \<Rightarrow> bool" where
  "split_at lo hi bf bt B d s \<longleftrightarrow>
     (\<forall>i. lo \<le> i \<and> i < bf \<longrightarrow> byte (slots s ! i) d + 1 < B) \<and>
     (\<forall>i. bf \<le> i \<and> i < bt \<longrightarrow> byte (slots s ! i) d + 1 = B) \<and>
     (\<forall>i. bt \<le> i \<and> i < hi \<longrightarrow> B < byte (slots s ! i) d + 1)"

lemma partition_loop_ok:
  assumes "placed lo hi bf bt B d s left right slot"
  shows "\<exists>s'. partition_loop byteAt sw s B bf bt d left right slot = Some s' \<and> stepped lo hi s s' \<and> split_at lo hi bf bt B d s'"
  using assms
proof (induction "bf - left" arbitrary: s left right slot rule: less_induct)
  case less
  note p = less.prems [unfolded placed_def]
  have "left < length (slots s)" "right < length (slots s)"
    using p by simp_all
  then have g: "getBucket byteAt s left d = Some (int (byte (slots s ! left) d + 1))"
    "getBucket byteAt s right d = Some (int (byte (slots s ! right) d + 1))"
    using p by (simp_all only: getBucket_ok)
  obtain s1 l1 sl1 where s1:
    "partition_left byteAt sw s B bf d left slot (int (byte (slots s ! left) d + 1)) = Some (s1, l1, sl1)"
    "placed lo hi bf bt B d s1 l1 right sl1" "stepped lo bt s s1" "left \<le> l1" "l1 = bf \<or> B < byte (slots s1 ! l1) d + 1"
    using partition_left_ok [OF less.prems] by blast
  have "bt \<le> right \<longrightarrow> int (byte (slots s ! right) d + 1) = int (byte (slots s1 ! right) d + 1)"
    using s1(3) p rearranged_outside [of lo bt "slots s" "slots s1" right] by (auto simp: stepped_def)
  from partition_right_ok [OF s1(2) this] obtain s2 r2 sl2 where s2:
    "partition_right byteAt sw s1 B bt d right sl1 (int (byte (slots s ! right) d + 1)) = Some (s2, r2, sl2)"
    "placed lo hi bf bt B d s2 l1 r2 sl2" "stepped bf hi s1 s2" "r2 \<le> right" "r2 + 1 = bt \<or> byte (slots s2 ! r2) d + 1 < B"
    by blast
  note p2 = s2(2) [unfolded placed_def]
  have l2: "l1 = bf \<or> B < byte (slots s2 ! l1) d + 1"
    using s1(5) s2(3) p2 rearranged_outside [of bf hi "slots s1" "slots s2" l1] stepped_length [OF s2(3)] by (auto simp: stepped_def)
  have "stepped lo hi s s1" "stepped lo hi s1 s2"
    using s1(3) s2(3) p2 by (auto intro: stepped_mono)
  then have step: "stepped lo hi s s2"
    by (rule stepped_trans)
  have eq: "partition_loop byteAt sw s B bf bt d left right slot =
     (if l1 < bf \<and> bt \<le> r2 then do { s \<leftarrow> sw s2 l1 r2; partition_loop byteAt sw s B bf bt d (l1 + 1) (r2 - 1) sl2 } else Some s2)"
    by (subst partition_loop.simps) (simp only: g s1(1) s2(1) Option.bind.simps prod.case)
  show ?case
  proof (cases "l1 < bf \<and> bt \<le> r2")
    case True
    have big: "B < byte (slots s2 ! l1) d + 1" and small: "byte (slots s2 ! r2) d + 1 < B"
      using True l2 s2(5) by auto
    obtain s3 where s3: "sw s2 l1 r2 = Some s3" "stepped lo hi s2 s3" "slots s3 = swapped (slots s2) l1 r2"
      using swap_step [of s2 lo l1 hi r2] p2 True by auto
    have nth: "slots s3 ! i = (if i = l1 then slots s2 ! r2 else if i = r2 then slots s2 ! l1 else slots s2 ! i)" if "i < hi" for i
      using that p2 True by (simp add: s3(3) nth_swapped)
    have "byte (slots s3 ! i) d + 1 < B" if "lo \<le> i" "i < l1 + 1" for i
      using that small p2 True by (cases "i = l1") (auto simp: nth)
    moreover have "B < byte (slots s3 ! i) d + 1" if "r2 - 1 < i" "i < hi" for i
      using that big p2 True by (cases "i = r2") (auto simp: nth)
    moreover have "byte (slots s3 ! i) d + 1 = B" if "bf \<le> i" "i < sl2" for i
      using that p2 True by (auto simp: nth)
    ultimately have pl: "placed lo hi bf bt B d s3 (l1 + 1) (r2 - 1) sl2"
      using p2 True placed_counts [OF s2(2) s3(2)] by (auto simp: placed_def)
    have "bf - (l1 + 1) < bf - left"
      using True s1(4) by linarith
    from less.hyps [OF this pl] show ?thesis
      using True s3(1,2) step by (auto simp: eq intro: stepped_trans)
  next
    case False
    have ends: "l1 = bf \<and> r2 + 1 = bt"
    proof (cases "l1 = bf")
      case True
      then have "B \<le> byte (slots s2 ! r2) d + 1" if "bt \<le> r2"
        using placed_all_less [of lo hi bf bt B d s2 r2 sl2 r2] s2(2) p2 that by simp
      then show ?thesis
        using True s2(5) p2 by fastforce
    next
      case False
      then have r: "r2 + 1 = bt"
        using \<open>\<not> (l1 < bf \<and> bt \<le> r2)\<close> p2 by simp
      then show ?thesis
        using placed_all_greater [OF s2(2) r, of l1] p2 l2 by fastforce
    qed
    have "byte (slots s2 ! i) d + 1 = B" if "bf \<le> i" "i < bt" for i
      using placed_all_less [of lo hi bf bt B d s2 r2 sl2 i] placed_all_greater [OF s2(2), of i] ends s2(2) p2 that by auto
    then have "split_at lo hi bf bt B d s2"
      using ends p2 by (auto simp: split_at_def)
    then show ?thesis
      using False step unfolding eq by auto
  qed
qed

end


lemma append_le_append [simp]: "zs @ xs \<le> zs @ ys \<longleftrightarrow> xs \<le> ys" for xs ys :: "'a::order list"
  by (induction zs) simp_all

context radix_slots begin

subsection \<open>Radix select\<close>

lemma occurs_complement:
  assumes "hi \<le> length xs" and "lo \<le> hi"
  shows "card (occurs lo hi P xs) + card (occurs lo hi (\<lambda>a. \<not> P a) xs) = hi - lo"
proof -
  have "occurs lo hi P xs \<union> occurs lo hi (\<lambda>a. \<not> P a) xs = {lo..<hi}" "occurs lo hi P xs \<inter> occurs lo hi (\<lambda>a. \<not> P a) xs = {}"
    by (auto simp: occurs_def)
  then show ?thesis
    by (metis card_Un_disjoint card_atLeastLessThan finite_occurs)
qed

lemma bucket_bounds:
  assumes s: "ok s" "hi \<le> length (slots s)" "d < maxLength" and k: "lo \<le> k" "k < hi"
    and h: "length h = 257" "\<forall>b<257. h ! b = card (buckets lo hi d s b)"
  shows "\<exists>B bf bt. bucket_of h k 0 lo = Some (B, bf, bt) \<and> 0 < B \<and> bf \<le> k \<and> k < bt \<and> placed lo hi bf bt B d s lo (hi - 1) bf"
proof -
  have lohi: "lo \<le> hi"
    using k by simp
  note sums = sum_take_buckets [OF h(2,1)]
  have "occurs lo hi (\<lambda>a. byte a d + 1 < 257) (slots s) = {lo..<hi}"
    using byte_range by (auto simp: occurs_def)
  then have total: "sum_list h = hi - lo"
    using sums [of 257] h(1) by simp
  obtain B where B: "B < 257" "bucket_of h k 0 lo = Some (B, lo + sum_list (take B h), lo + sum_list (take (B + 1) h))"
    "lo + sum_list (take B h) \<le> k" "k < lo + sum_list (take (B + 1) h)"
    using bucket_of_ok [of lo k h 0] total k h(1) by auto
  define bf bt where "bf = lo + sum_list (take B h)" and "bt = lo + sum_list (take (B + 1) h)"
  have bt: "bt = bf + h ! B"
    using B(1) h(1) by (simp add: bf_def bt_def take_Suc_conv_app_nth)
  have less: "card (occurs lo hi (\<lambda>a. byte a d + 1 < B) (slots s)) = bf - lo"
    using sums [of B] B(1) by (simp add: bf_def)
  have less1: "card (occurs lo hi (\<lambda>a. byte a d + 1 < B + 1) (slots s)) = bt - lo"
    using sums [of "B + 1"] B(1) by (simp add: bt_def)
  have same: "card (occurs lo hi (\<lambda>a. byte a d + 1 = B) (slots s)) = bt - bf"
    using h(2) B(1) bt by (simp add: buckets_def)
  have "occurs lo hi (\<lambda>a. B < byte a d + 1) (slots s) = occurs lo hi (\<lambda>a. \<not> byte a d + 1 < B + 1) (slots s)"
    by (auto simp: occurs_def)
  then have greater: "card (occurs lo hi (\<lambda>a. B < byte a d + 1) (slots s)) = hi - lo - (bt - lo)"
    using occurs_complement [OF s(2) lohi, of "\<lambda>a. byte a d + 1 < B + 1"] less1 by simp
  have le: "lo \<le> bf" "bf < bt" "bt \<le> hi"
  proof -
    show "lo \<le> bf" "bf < bt"
      using B(3,4) by (simp_all add: bf_def bt_def)
    have "bt - lo \<le> hi - lo"
      using occurs_complement [OF s(2) lohi, of "\<lambda>a. byte a d + 1 < B + 1"] less1 by simp
    then show "bt \<le> hi"
      using lohi k by (simp add: bt_def)
  qed
  then have "placed lo hi bf bt B d s lo (hi - 1) bf"
    using s k less same greater by (auto simp: placed_def)
  moreover have "0 < B"
  proof (rule ccontr)
    assume "\<not> 0 < B"
    then show False
      using same le(2) by (simp add: occurs_def)
  qed
  ultimately show ?thesis
    using B by (auto simp: bf_def bt_def)
qed

lemma selected_within:
  assumes "rearranged bf bt xs ys" and "selected le bf bt k ys" and "hi \<le> length xs" and "lo \<le> bf" "bf \<le> k" "k < bt" "bt \<le> hi"
    and le: "\<And>i j. lo \<le> i \<Longrightarrow> i < bf \<Longrightarrow> bf \<le> j \<Longrightarrow> j < hi \<Longrightarrow> le (xs ! i) (xs ! j)"
      "\<And>i j. lo \<le> i \<Longrightarrow> i < bt \<Longrightarrow> bt \<le> j \<Longrightarrow> j < hi \<Longrightarrow> le (xs ! i) (xs ! j)"
  shows "selected le lo hi k ys"
proof -
  have "selected le lo bt k ys"
    by (rule selected_right [OF assms(1,2)]) (use assms in auto)
  moreover have "rearranged lo bt xs ys"
    using assms(1,4) by (auto intro: rearranged_mono)
  ultimately show ?thesis
    using assms by (intro selected_left [of lo bt xs ys le k hi]) auto
qed

lemma radixSelect_ok:
  "ok s \<Longrightarrow> lo \<le> k \<Longrightarrow> k < hi \<Longrightarrow> hi \<le> length (slots s) \<Longrightarrow> d < maxLength \<Longrightarrow>
   \<exists>s'. radixSelect byteAt sw maxLength s lo hi k d level = Some s' \<and> stepped lo hi s s' \<and> selected (key_le d) lo hi k (slots s')"
proof (induction "maxLength - d" arbitrary: s lo hi d level rule: less_induct)
  case less
  have lohi: "lo < hi"
    using less.prems(2,3) by simp
  obtain m h where mh: "computeCommonPrefix byteAt maxLength s lo hi d = Some (m, h)" "d + m \<le> maxLength" "length h = 257"
    "0 < m \<longrightarrow> h ! 0 = 0 \<and> (\<forall>i. lo \<le> i \<and> i < hi \<longrightarrow> agree d m (slots s ! lo) (slots s ! i))"
    "m = 0 \<longrightarrow> (\<forall>b<257. h ! b = card (buckets lo hi d s b))"
    using computeCommonPrefix_ok [OF less.prems(1) lohi less.prems(4,5)] by blast
  show ?case
  proof (cases "0 < m")
    case True
    have agree: "agree d m (slots s ! i) (slots s ! j)" if "lo \<le> i" "i < hi" "lo \<le> j" "j < hi" for i j
    proof -
      have "agree d m (slots s ! lo) (slots s ! i)" "agree d m (slots s ! lo) (slots s ! j)"
        using mh(4) True that by simp_all
      then show ?thesis
        by (simp add: agree_def)
    qed
    have key: "key_le d a b \<longleftrightarrow> key_le (d + m) a b" if "agree d m a b" for a b
    proof -
      have "key d x = map (byte x) [d..<d + m] @ key (d + m) x" for x
      proof -
        have "[d..<maxLength] = [d..<d + m] @ [d + m..<maxLength]"
          using mh(2) by (metis le_add1 le_add_diff_inverse upt_add_eq_append)
        then show ?thesis
          by (simp add: key_def)
      qed
      moreover have "map (byte a) [d..<d + m] = map (byte b) [d..<d + m]"
        using that by (intro nth_equalityI) (auto simp: agree_def)
      ultimately show ?thesis
        by (simp only: key_le_def append_le_append)
    qed
    have h0: "slice_get h 0 = Some 0"
      using mh(3,4) True by (simp add: slice_get_def)
    show ?thesis
    proof (cases "d + m < maxLength")
      case more: True
      have "maxLength - (d + m) < maxLength - d"
        using True more by simp
      from less.hyps [OF this less.prems(1-4) more]
      obtain s' where s': "radixSelect byteAt sw maxLength s lo hi k (d + m) level = Some s'" "stepped lo hi s s'"
        "selected (key_le (d + m)) lo hi k (slots s')"
        by blast
      have r: "rearranged lo hi (slots s) (slots s')"
        using s'(2) by (simp add: stepped_def)
      have "agree d m (slots s ! lo) (slots s' ! i)" if "lo \<le> i" "i < hi" for i
        using that lohi agree by (intro rearranged_all [OF r less.prems(4), of "agree d m (slots s ! lo)"]) auto
      then have "agree d m (slots s' ! i) (slots s' ! j)" if "lo \<le> i" "i < hi" "lo \<le> j" "j < hi" for i j
        using that by (metis (no_types, lifting) agree_def)
      then have "selected (key_le d) lo hi k (slots s')"
        using s'(3) key less.prems(2,3) by (auto simp: selected_def)
      moreover have "radixSelect byteAt sw maxLength s lo hi k d level = Some s'"
        unfolding radixSelect.simps [of _ _ _ s lo hi k d] using True more mh(1) h0 s'(1) lohi by (simp add: slice_get_def)
      ultimately show ?thesis
        using s'(2) by blast
    next
      case False
      then have "d + m = maxLength"
        using mh(2) by simp
      then have "key_le d (slots s ! i) (slots s ! j)" if "lo \<le> i" "i < hi" "lo \<le> j" "j < hi" for i j
        using key [OF agree [OF that]] by (simp add: key_le_def key_Nil)
      then have "selected (key_le d) lo hi k (slots s)"
        using less.prems(2,3) by (auto simp: selected_def)
      moreover have "radixSelect byteAt sw maxLength s lo hi k d level = Some s"
        unfolding radixSelect.simps [of _ _ _ s lo hi k d] using True False mh(1) h0 by (simp add: slice_get_def)
      ultimately show ?thesis
        using less.prems(1) by (auto simp: stepped_refl)
    qed
  next
    case False
    then have hist: "\<forall>b<257. h ! b = card (buckets lo hi d s b)"
      using mh(5) by simp
    obtain B bf bt where B: "bucket_of h k 0 lo = Some (B, bf, bt)" "0 < B" "bf \<le> k" "k < bt" "placed lo hi bf bt B d s lo (hi - 1) bf"
      using bucket_bounds [OF less.prems(1,4,5,2,3) mh(3) hist] by blast
    obtain s1 where s1: "radix_partition byteAt sw s lo hi B bf bt d = Some s1" "stepped lo hi s s1" "split_at lo hi bf bt B d s1"
      using partition_loop_ok [OF B(5)] by (auto simp: radix_partition_def)
    have ok1: "ok s1" "hi \<le> length (slots s1)"
      using stepped_ok [OF s1(2)] stepped_length [OF s1(2)] less.prems(4) by simp_all
    have bounds: "lo \<le> bf" "bt \<le> hi"
      using B(5) by (simp_all add: placed_def)
    have below: "key_le d (slots s1 ! i) (slots s1 ! j)" if "lo \<le> i" "i < bf" "bf \<le> j" "j < hi" for i j
    proof -
      have "byte (slots s1 ! i) d + 1 < B"
        using s1(3) that by (simp add: split_at_def)
      moreover have "B \<le> byte (slots s1 ! j) d + 1"
        using s1(3) that by (cases "j < bt") (simp_all add: split_at_def less_imp_le)
      ultimately show ?thesis
        using less.prems(5) by (simp add: key_le_Cons)
    qed
    have above: "key_le d (slots s1 ! i) (slots s1 ! j)" if "lo \<le> i" "i < bt" "bt \<le> j" "j < hi" for i j
    proof -
      have "byte (slots s1 ! i) d + 1 \<le> B"
        using s1(3) that by (cases "i < bf") (simp_all add: split_at_def less_imp_le)
      moreover have "B < byte (slots s1 ! j) d + 1"
        using s1(3) that by (simp add: split_at_def)
      ultimately show ?thesis
        using less.prems(5) by (simp add: key_le_Cons)
    qed
    let ?rest = "if d + 1 < maxLength
         then if bt - bf \<le> 100 \<or> level + 1 \<ge> 8
           then fallback_SelectK byteAt sw maxLength s1 bf bt k (d + 1)
           else radixSelect byteAt sw maxLength s1 bf bt k (d + 1) (level + 1)
         else Some s1"
    have eq: "radixSelect byteAt sw maxLength s lo hi k d level = ?rest"
      unfolding radixSelect.simps [of _ _ _ s lo hi k d] using False B(1,2) mh(1) s1(1) by simp
    have ok_bt: "bt \<le> length (slots s1)"
      using bounds(2) ok1(2) by simp
    have "\<exists>s2. ?rest = Some s2 \<and> stepped bf bt s1 s2 \<and> selected (key_le (d + 1)) bf bt k (slots s2)"
    proof (cases "d + 1 < maxLength")
      case more: True
      then have "maxLength - (d + 1) < maxLength - d"
        by simp
      note rec = less.hyps [OF this ok1(1) B(3,4) ok_bt more, of "level + 1"]
      note fall = fallback_SelectK_ok [OF ok1(1) B(3,4) ok_bt, of "d + 1"]
      show ?thesis
      proof (cases "bt - bf \<le> 100 \<or> level + 1 \<ge> 8")
        case True
        show ?thesis
          unfolding if_P [OF more] if_P [OF True] by (rule fall)
      next
        case False
        show ?thesis
          unfolding if_P [OF more] if_not_P [OF False] by (rule rec)
      qed
    next
      case False
      then show ?thesis
        unfolding if_not_P [OF False] using ok1(1) by (auto simp: stepped_refl selected_def key_le_def key_Nil)
    qed
    then obtain s2 where s2: "?rest = Some s2" "stepped bf bt s1 s2" "selected (key_le (d + 1)) bf bt k (slots s2)"
      by blast
    have r: "rearranged bf bt (slots s1) (slots s2)"
      using s2(2) by (simp add: stepped_def)
    have eqB: "byte (slots s2 ! i) d + 1 = B" if "bf \<le> i" "i < bt" for i
      using s1(3) that by (intro rearranged_all [OF r ok_bt, of "\<lambda>a. byte a d + 1 = B"]) (auto simp: split_at_def)
    have same: "byte (slots s2 ! i) d = byte (slots s2 ! j) d" if "bf \<le> i" "i < bt" "bf \<le> j" "j < bt" for i j
      using eqB [OF that(1,2)] eqB [OF that(3,4)] by simp
    have keys: "key_le d (slots s2 ! i) (slots s2 ! j)"
      if "key_le (d + 1) (slots s2 ! i) (slots s2 ! j)" "bf \<le> i" "i < bt" "bf \<le> j" "j < bt" for i j
      using that(1) same [OF that(2-5)] by (simp add: key_le_Cons less.prems(5))
    have "selected (key_le d) bf bt k (slots s2)"
      using s2(3) keys B(3,4) unfolding selected_def by simp
    then have "selected (key_le d) lo hi k (slots s2)"
      using B(3,4) bounds below above by (intro selected_within [OF r _ ok1(2)]) auto
    moreover have "stepped lo hi s1 s2"
      using s2(2) bounds by (auto intro: stepped_mono)
    ultimately show ?thesis
      using s1(2) s2(1) eq by (auto intro: stepped_trans)
  qed
qed

lemma radix_SelectK_ok:
  assumes "ok s" and "lo \<le> k" "k < hi" "hi \<le> length (slots s)"
  shows "\<exists>s'. radix_SelectK byteAt sw maxLength s lo hi k = Some s' \<and> stepped lo hi s s' \<and> selected (key_le 0) lo hi k (slots s')"
  using fallback_SelectK_ok [OF assms, of 0] radixSelect_ok [OF assms maxLength [OF assms(1)], of 0]
  by (simp add: radix_SelectK_def radix_selectK_def)

end

end
