(* ===== verification/Radix_Sort_Correct.thy ===== *)
theory Radix_Sort_Correct
  imports Selectors_Radix Radix_Sort
begin

text \<open>
  What an \<open>MSBRadixInterface\<close> needs of its provider, as a locale, and in it the proof that the sorter by bytes
  sorts: the insertion sort of short parts, the buckets, and their reordering in place.
\<close>

subsection \<open>Sorted ranges\<close>

definition sorted_part :: "('a \<Rightarrow> 'a \<Rightarrow> bool) \<Rightarrow> nat \<Rightarrow> nat \<Rightarrow> 'a list \<Rightarrow> bool" where
  "sorted_part le lo hi xs \<longleftrightarrow> (\<forall>i j. lo \<le> i \<and> i < j \<and> j < hi \<longrightarrow> le (xs ! i) (xs ! j))"

text \<open>What the provider of an \<open>MSBRadixInterface\<close> promises: keys that agree in the skipped bytes are compared as a whole.\<close>

locale msb_slots = radix_slots ok slots sw byteAt maxLength byte
  for ok :: "'s \<Rightarrow> bool" and slots :: "'s \<Rightarrow> 'a list" and sw :: "'s Swap" and byteAt :: "'s ByteAt"
    and maxLength :: nat and byte :: "'a \<Rightarrow> nat \<Rightarrow> nat" +
  fixes cmp :: "'s SkipCompare"
  assumes skip_compare: "ok s \<Longrightarrow> i < length (slots s) \<Longrightarrow> j < length (slots s) \<Longrightarrow> skip \<le> maxLength \<Longrightarrow>
      (\<And>m. m < skip \<Longrightarrow> byte (slots s ! i) m = byte (slots s ! j) m) \<Longrightarrow>
      \<exists>c. cmp s i j skip = Some c \<and> (c < 0 \<longleftrightarrow> \<not> key_le 0 (slots s ! j) (slots s ! i))"
begin

lemma key_le_trans: "key_le d a b \<Longrightarrow> key_le d b c \<Longrightarrow> key_le d a c"
  by (simp add: key_le_def)

lemma key_le_linear: "key_le d a b \<or> key_le d b a"
  by (auto simp: key_le_def)

definition alike :: "nat \<Rightarrow> nat \<Rightarrow> nat \<Rightarrow> 's \<Rightarrow> bool" where
  "alike lo hi d s \<longleftrightarrow> (\<forall>i j m. lo \<le> i \<and> i < hi \<and> lo \<le> j \<and> j < hi \<and> m < d \<longrightarrow> byte (slots s ! i) m = byte (slots s ! j) m)"

lemma alike_stepped:
  assumes "alike lo hi d s" and "stepped lo hi s s'" and "hi \<le> length (slots s)"
  shows "alike lo hi d s'"
proof -
  have r: "rearranged lo hi (slots s) (slots s')"
    using assms(2) by (simp add: stepped_def)
  have eq: "byte (slots s ! lo) m = byte (slots s' ! i) m" if "lo \<le> i" "i < hi" "m < d" for i m
  proof (rule rearranged_all [OF r assms(3) _ that(1,2)])
    fix i assume i: "lo \<le> i" "i < hi"
    then have "lo \<le> lo \<and> lo < hi \<and> lo \<le> i \<and> i < hi \<and> m < d"
      using that(3) by simp
    then show "byte (slots s ! lo) m = byte (slots s ! i) m"
      using assms(1) unfolding alike_def by blast
  qed
  have "byte (slots s' ! i) m = byte (slots s' ! j) m" if "lo \<le> i \<and> i < hi \<and> lo \<le> j \<and> j < hi \<and> m < d" for i j m
    using eq [of i m] eq [of j m] that by simp
  then show ?thesis
    unfolding alike_def by blast
qed

subsection \<open>The insertion sort\<close>

lemma sort_insert_ok:
  assumes "k \<le> maxLength"
  shows "ok s \<Longrightarrow> alike lo hi k s \<Longrightarrow> hi \<le> length (slots s) \<Longrightarrow> lo + j < hi \<Longrightarrow>
    (\<forall>a b. lo \<le> a \<and> a < b \<and> b < lo + n \<and> a \<noteq> lo + j \<and> b \<noteq> lo + j \<longrightarrow> key_le 0 (slots s ! a) (slots s ! b)) \<Longrightarrow>
    (\<forall>b. lo + j < b \<and> b < lo + n \<longrightarrow> key_le 0 (slots s ! (lo + j)) (slots s ! b)) \<Longrightarrow> j < n \<Longrightarrow> lo + n \<le> hi \<Longrightarrow>
    \<exists>s'. sort_insert (KPrefix_Less cmp lo k) (KPrefix_Swap sw lo) s j = Some s' \<and> stepped lo hi s s' \<and>
      sorted_part (key_le 0) lo (lo + n) (slots s')"
proof (induction j arbitrary: s)
  case 0
  have "key_le 0 (slots s ! i) (slots s ! j)" if "lo \<le> i" "i < j" "j < lo + n" for i j
    using 0(5,6) that by (cases "i = lo") auto
  then have "sorted_part (key_le 0) lo (lo + n) (slots s)"
    by (simp add: sorted_part_def)
  then show ?case
    using 0(1) by (simp add: stepped_refl)
next
  case (Suc j)
  have ij: "lo + Suc j < length (slots s)" "lo + j < length (slots s)" "lo + Suc j < hi" "lo + j < hi"
    using Suc.prems(3,4) by simp_all
  have agree: "byte (slots s ! (lo + Suc j)) m = byte (slots s ! (lo + j)) m" if "m < k" for m
    using Suc.prems(2) ij that by (simp add: alike_def)
  obtain c where c: "cmp s (lo + Suc j) (lo + j) k = Some c" "c < 0 \<longleftrightarrow> \<not> key_le 0 (slots s ! (lo + j)) (slots s ! (lo + Suc j))"
    using skip_compare [OF Suc.prems(1) ij(1,2) assms agree] by auto
  have less: "KPrefix_Less cmp lo k s (Suc j) j = Some (c < 0)"
    using c(1) by (simp add: KPrefix_Less_def)
  show ?case
  proof (cases "c < 0")
    case False
    then have le: "key_le 0 (slots s ! (lo + j)) (slots s ! (lo + Suc j))"
      using c(2) by simp
    have "key_le 0 (slots s ! a) (slots s ! b)" if ab: "lo \<le> a" "a < b" "b < lo + n" for a b
    proof -
      consider "a = lo + Suc j" | "a \<noteq> lo + Suc j" "b \<noteq> lo + Suc j" | "b = lo + Suc j" "a = lo + j" | "b = lo + Suc j" "a < lo + j"
        using ab by linarith
      then show ?thesis
      proof cases
        case 4
        then have "key_le 0 (slots s ! a) (slots s ! (lo + j))"
          using Suc.prems(5,7) ab by simp
        then show ?thesis
          using 4 le key_le_trans by blast
      qed (use Suc.prems(5,6) le ab in auto)
    qed
    then have "sorted_part (key_le 0) lo (lo + n) (slots s)"
      by (simp add: sorted_part_def)
    moreover have "sort_insert (KPrefix_Less cmp lo k) (KPrefix_Swap sw lo) s (Suc j) = Some s"
      using False less by simp
    ultimately show ?thesis
      using Suc.prems(1) stepped_refl by blast
  next
    case True
    obtain s1 where s1: "sw s (lo + Suc j) (lo + j) = Some s1" "stepped lo hi s s1" "slots s1 = swapped (slots s) (lo + Suc j) (lo + j)"
      using swap_step [OF Suc.prems(1), of lo "lo + Suc j" hi "lo + j"] Suc.prems(3) ij by auto
    have nth: "slots s1 ! i = (if i = lo + Suc j then slots s ! (lo + j) else if i = lo + j then slots s ! (lo + Suc j) else slots s ! i)"
      if "i < length (slots s)" for i
      using that ij by (simp add: s1(3) nth_swapped)
    have ok1: "ok s1" "hi \<le> length (slots s1)"
      using stepped_ok [OF s1(2)] stepped_length [OF s1(2)] Suc.prems(3) by simp_all
    have lt: "key_le 0 (slots s ! (lo + Suc j)) (slots s ! (lo + j))"
      using True c(2) key_le_linear by blast
    have 1: "key_le 0 (slots s1 ! a) (slots s1 ! b)" if "lo \<le> a" "a < b" "b < lo + n" "a \<noteq> lo + j" "b \<noteq> lo + j" for a b
    proof -
      have len: "a < length (slots s)" "b < length (slots s)"
        using that Suc.prems(3,8) by simp_all
      show ?thesis
        using that Suc.prems(5,7) by (auto simp: nth [OF len(1)] nth [OF len(2)])
    qed
    have 2: "key_le 0 (slots s1 ! (lo + j)) (slots s1 ! b)" if "lo + j < b" "b < lo + n" for b
    proof -
      have len: "b < length (slots s)"
        using that Suc.prems(3,8) by simp
      show ?thesis
        using that Suc.prems(6) lt nth [OF len] nth [OF ij(2)] nth [OF ij(1)] by (cases "b = lo + Suc j") auto
    qed
    have swap1: "KPrefix_Swap sw lo s (Suc j) j = Some s1"
      using s1(1) by (simp add: KPrefix_Swap_def)
    have "\<exists>s'. sort_insert (KPrefix_Less cmp lo k) (KPrefix_Swap sw lo) s1 j = Some s' \<and> stepped lo hi s1 s' \<and>
      sorted_part (key_le 0) lo (lo + n) (slots s')"
      by (rule Suc.IH [OF ok1(1) alike_stepped [OF Suc.prems(2) s1(2) Suc.prems(3)] ok1(2) ij(4)])
        (use 1 2 Suc.prems(7,8) in auto)
    then show ?thesis
      using True less swap1 s1(2) by (auto intro: stepped_trans)
  qed
qed

lemma pdqSort_ok:
  assumes "ok s" and "alike lo hi k s" and "hi \<le> length (slots s)" and "k \<le> maxLength"
  shows "\<exists>s'. pdqSort cmp sw s lo hi k = Some s' \<and> stepped lo hi s s' \<and> sorted_part (key_le 0) lo hi (slots s')"
proof -
  have "lo + n \<le> hi \<Longrightarrow> \<exists>s'. sort_Sort (KPrefix_Less cmp lo k) (KPrefix_Swap sw lo) s n = Some s' \<and> stepped lo hi s s' \<and>
      sorted_part (key_le 0) lo (lo + n) (slots s')" for n
  proof (induction n)
    case 0
    then show ?case
      using assms(1) by (auto simp: stepped_refl sorted_part_def)
  next
    case (Suc n)
    then obtain s1 where s1: "sort_Sort (KPrefix_Less cmp lo k) (KPrefix_Swap sw lo) s n = Some s1" "stepped lo hi s s1"
      "sorted_part (key_le 0) lo (lo + n) (slots s1)"
      by auto
    have ok1: "ok s1" "hi \<le> length (slots s1)"
      using stepped_ok [OF s1(2)] stepped_length [OF s1(2)] assms(3) by simp_all
    have "\<exists>s'. sort_insert (KPrefix_Less cmp lo k) (KPrefix_Swap sw lo) s1 n = Some s' \<and> stepped lo hi s1 s' \<and>
      sorted_part (key_le 0) lo (lo + Suc n) (slots s')"
      by (rule sort_insert_ok [OF assms(4) ok1(1) alike_stepped [OF assms(2) s1(2) assms(3)] ok1(2)])
        (use s1(3) Suc.prems in \<open>auto simp: sorted_part_def less_Suc_eq\<close>)
    then show ?case
      using s1(1,2) by (auto intro: stepped_trans)
  qed
  from this [of "hi - lo"] show ?thesis
  proof (cases "lo \<le> hi")
    case False
    then show ?thesis
      using assms(1) by (auto simp: pdqSort_def stepped_refl sorted_part_def)
  qed (simp add: pdqSort_def)
qed

end


subsection \<open>Offsets of the buckets\<close>

definition offset :: "nat list \<Rightarrow> nat \<Rightarrow> nat" where
  "offset h b = sum_list (take b h)"

lemma offset_0 [simp]: "offset h 0 = 0"
  by (simp add: offset_def)

lemma offset_Suc: "b < length h \<Longrightarrow> offset h (Suc b) = offset h b + h ! b"
  by (simp add: offset_def take_Suc_conv_app_nth)

lemma offset_mono: "a \<le> b \<Longrightarrow> offset h a \<le> offset h b"
proof -
  assume "a \<le> b"
  then have "take b h = take a h @ take (b - a) (drop a h)"
    by (metis le_add_diff_inverse take_add)
  then show ?thesis
    by (simp add: offset_def)
qed

text \<open>A position lies in one bucket only.\<close>

lemma offset_unique:
  assumes "offset h a \<le> x" "x < offset h (Suc a)" "offset h b \<le> x" "x < offset h (Suc b)"
  shows "a = b"
  using assms offset_mono [of "Suc a" b h] offset_mono [of "Suc b" a h] by (meson leD le_less_trans linorder_neqE_nat not_less_eq_eq order_less_le_trans)

lemma sumHistogram_eq:
  "sumHistogram h accum = (map (\<lambda>b. accum + offset h b) [0..<length h], map (\<lambda>b. accum + offset h (Suc b)) [0..<length h])"
proof (induction h arbitrary: accum)
  case (Cons n h)
  have "[0..<length (n # h)] = 0 # map Suc [0..<length h]"
    by (simp add: upt_conv_Cons map_Suc_upt del: upt_Suc)
  then show ?case
    by (simp add: Cons.IH Let_def offset_def add.assoc del: upt_Suc)
qed simp

context msb_slots begin

subsection \<open>Reordering\<close>

text \<open>
  \<open>start ! b\<close> of the keys at the offset of bucket \<open>b\<close> are keys of this bucket, and there are as many keys of
  every bucket as it has places.
\<close>

definition ordering :: "nat \<Rightarrow> nat \<Rightarrow> nat \<Rightarrow> nat list \<Rightarrow> 's \<Rightarrow> nat list \<Rightarrow> bool" where
  "ordering lo hi d h s starts \<longleftrightarrow> ok s \<and> hi \<le> length (slots s) \<and> lo \<le> hi \<and> d < maxLength \<and> length h = 257 \<and> length starts = 257 \<and>
     offset h 257 = hi - lo \<and>
     (\<forall>b<257. card (occurs lo hi (\<lambda>a. byte a d + 1 = b) (slots s)) = h ! b) \<and>
     (\<forall>b<257. offset h b \<le> starts ! b \<and> starts ! b \<le> offset h (Suc b)) \<and>
     (\<forall>b<257. \<forall>i. lo + offset h b \<le> i \<and> i < lo + starts ! b \<longrightarrow> byte (slots s ! i) d + 1 = b)"

lemma ordering_bounds:
  assumes "ordering lo hi d h s starts" and "b < 257"
  shows "offset h b \<le> starts ! b" "starts ! b \<le> offset h (Suc b)" "offset h (Suc b) \<le> hi - lo"
    "card (occurs lo hi (\<lambda>a. byte a d + 1 = b) (slots s)) = h ! b"
proof -
  show "offset h b \<le> starts ! b" "starts ! b \<le> offset h (Suc b)" "card (occurs lo hi (\<lambda>a. byte a d + 1 = b) (slots s)) = h ! b"
    using assms unfolding ordering_def by blast+
  have "offset h 257 = hi - lo"
    using assms unfolding ordering_def by blast
  then show "offset h (Suc b) \<le> hi - lo"
    using offset_mono [of "Suc b" 257 h] assms(2) by simp
qed

lemma ordering_byte:
  assumes "ordering lo hi d h s starts" and "b < 257" and "lo + offset h b \<le> i" "i < lo + starts ! b"
  shows "byte (slots s ! i) d + 1 = b"
  using assms unfolding ordering_def by blast

lemma ordering_lengths:
  assumes "ordering lo hi d h s starts"
  shows "ok s" "hi \<le> length (slots s)" "lo \<le> hi" "d < maxLength" "length h = 257" "length starts = 257"
  using assms unfolding ordering_def by blast+

lemma ordering_room:
  assumes J: "ordering lo hi d h s starts" and i: "i < 257" "starts ! i < offset h (Suc i)"
    and B: "B = byte (slots s ! (lo + starts ! i)) d + 1"
  shows "B < 257" and "starts ! B < offset h (Suc B)"
proof -
  show B257: "B < 257"
    using byte_range [of "slots s ! (lo + starts ! i)" d] B by simp
  note j = ordering_bounds [OF J] ordering_lengths [OF J]
  show "starts ! B < offset h (Suc B)"
  proof (rule ccontr)
    assume "\<not> starts ! B < offset h (Suc B)"
    then have full: "starts ! B = offset h (Suc B)"
      using j(2) [OF B257] by linarith
    let ?occ = "occurs lo hi (\<lambda>a. byte a d + 1 = B) (slots s)"
    have "x \<in> ?occ" if "x \<in> {lo + offset h B..<lo + offset h (Suc B)}" for x
    proof -
      have "byte (slots s ! x) d + 1 = B"
        using that full by (intro ordering_byte [OF J B257]) simp_all
      moreover have "lo \<le> x" "x < hi"
        using that j(3) [OF B257] j(7) unfolding atLeastLessThan_iff by linarith+
      ultimately show ?thesis
        unfolding occurs_def by blast
    qed
    moreover have "card ?occ = card {lo + offset h B..<lo + offset h (Suc B)}"
      unfolding j(4) [OF B257] using B257 j(9) by (simp add: offset_Suc)
    ultimately have eq: "{lo + offset h B..<lo + offset h (Suc B)} = ?occ"
      by (intro card_subset_eq finite_occurs subsetI) simp_all
    have "lo + starts ! i < hi"
      using i(2) j(3) [OF i(1)] j(7) by linarith
    then have "lo + starts ! i \<in> ?occ"
      using B unfolding occurs_def by simp
    then have "lo + starts ! i \<in> {lo + offset h B..<lo + offset h (Suc B)}"
      unfolding eq .
    then have "i = B"
      using i(2) j(1) [OF i(1)] by (intro offset_unique [of h i "starts ! i" B]) simp_all
    then show False
      using full i(2) by simp
  qed
qed

lemma ordering_step:
  assumes J: "ordering lo hi d h s starts" and i: "i < 257" "starts ! i < offset h (Suc i)"
    and B: "B = byte (slots s ! (lo + starts ! i)) d + 1"
  obtains s' where "sw s (lo + starts ! i) (lo + starts ! B) = Some s'" and "stepped lo hi s s'"
    and "ordering lo hi d h s' (starts[B := starts ! B + 1])"
proof -
  note room = ordering_room [OF J i B]
  note j = ordering_bounds [OF J] ordering_lengths [OF J]
  let ?p = "lo + starts ! i" and ?q = "lo + starts ! B" and ?starts' = "starts[B := starts ! B + 1]"
  have pq: "?p < hi" "?q < hi"
    using i(2) room(2) j(3) [OF i(1)] j(3) [OF room(1)] j(7) by linarith+
  then have pql: "?p < length (slots s)" "?q < length (slots s)"
    using j(6) by simp_all
  obtain s' where s': "sw s ?p ?q = Some s'" "stepped lo hi s s'" "slots s' = swapped (slots s) ?p ?q"
    using swap_step [of s lo ?p hi ?q] j(5-7) pq by auto
  have nth: "slots s' ! x = (if x = ?p then slots s ! ?q else if x = ?q then slots s ! ?p else slots s ! x)" if "x < hi" for x
    using that j(6) pql by (simp add: s'(3) nth_swapped)
  have r: "rearranged lo hi (slots s) (slots s')"
    using s'(2) by (simp add: stepped_def)
  have starts': "?starts' ! b = (if b = B then starts ! b + 1 else starts ! b)" for b
    using room(1) j(10) by simp
  have "byte (slots s' ! x) d + 1 = b" if b: "b < 257" and x: "lo + offset h b \<le> x" "x < lo + ?starts' ! b" for b x
  proof (cases "x = ?q")
    case True
    have "starts ! B < offset h (Suc b)"
      using x(2) True room(2) j(2) [OF b] unfolding starts' by (cases "b = B") simp_all
    then have "b = B"
      using x(1) True j(1) [OF room(1)] room(2) by (intro offset_unique [of h b "starts ! B" B]) simp_all
    moreover have "slots s' ! x = slots s ! ?p"
      unfolding True nth [OF pq(2)] by (cases "?q = ?p") (simp_all only: if_True if_False refl)
    ultimately show ?thesis
      by (simp only: B)
  next
    case False
    then have xb: "x < lo + starts ! b"
      using x(2) unfolding starts' by (cases "b = B") simp_all
    have "x \<noteq> ?p"
    proof
      assume "x = ?p"
      then have "b = i"
        using x(1) xb i j(1) [OF i(1)] j(2) [OF b] by (intro offset_unique [of h b "starts ! i" i]) simp_all
      then show False
        using xb \<open>x = ?p\<close> by simp
    qed
    moreover have "x < hi"
      using xb j(2) [OF b] j(3) [OF b] j(7) by linarith
    ultimately have "slots s' ! x = slots s ! x"
      using False nth by simp
    then show ?thesis
      using ordering_byte [OF J b x(1) xb] by simp
  qed
  moreover have "offset h b \<le> ?starts' ! b \<and> ?starts' ! b \<le> offset h (Suc b)" if "b < 257" for b
    using j(1,2) [OF that] room(2) unfolding starts' by (cases "b = B") simp_all
  moreover have "card (occurs lo hi (\<lambda>a. byte a d + 1 = b) (slots s')) = h ! b" if "b < 257" for b
    using j(4) [OF that] rearranged_occurs [OF r j(6,7)] by simp
  ultimately have
    all: "\<forall>b<257. card (occurs lo hi (\<lambda>a. byte a d + 1 = b) (slots s')) = h ! b"
      "\<forall>b<257. offset h b \<le> ?starts' ! b \<and> ?starts' ! b \<le> offset h (Suc b)"
      "\<forall>b<257. \<forall>x. lo + offset h b \<le> x \<and> x < lo + ?starts' ! b \<longrightarrow> byte (slots s' ! x) d + 1 = b"
    by blast+
  have "offset h 257 = hi - lo"
    using J unfolding ordering_def by blast
  moreover have "ok s'" "hi \<le> length (slots s')" "length ?starts' = 257"
    using j(6,10) stepped_ok [OF s'(2)] stepped_length [OF s'(2)] by simp_all
  ultimately have "ordering lo hi d h s' ?starts'"
    unfolding ordering_def using j(7-9) all by blast
  then show thesis
    using that s'(1,2) by blast
qed

lemma sum_list_update_Suc: "b < length xs \<Longrightarrow> sum_list (xs[b := xs ! b + 1]) = sum_list xs + (1 :: nat)"
  by (simp add: sum_list_update)

lemma ordering_sum:
  assumes "ordering lo hi d h s starts"
  shows "sum_list starts \<le> sum_list (map (\<lambda>b. offset h (Suc b)) [0..<257])"
proof -
  have "starts = map ((!) starts) [0..<257]"
    using assms map_nth [of starts] by (simp add: ordering_def)
  then have "sum_list starts = sum_list (map ((!) starts) [0..<257])"
    by simp
  also have "\<dots> \<le> sum_list (map (\<lambda>b. offset h (Suc b)) [0..<257])"
    using assms by (intro sum_list_mono) (simp add: ordering_def)
  finally show ?thesis .
qed

lemma reorder_bucket_ok:
  assumes "ordering lo hi d h s starts" and "i < 257"
  shows "\<exists>s' starts'. reorder_bucket byteAt sw s lo d i (offset h (Suc i)) starts = Some (s', starts') \<and> stepped lo hi s s' \<and>
    ordering lo hi d h s' starts' \<and> starts' ! i = offset h (Suc i) \<and> (\<forall>b<257. starts ! b \<le> starts' ! b)"
  using assms(1)
proof (induction "sum_list (map (\<lambda>b. offset h (Suc b)) [0..<257]) - sum_list starts" arbitrary: s starts rule: less_induct)
  case less
  note j = ordering_bounds [OF less.prems] ordering_lengths [OF less.prems]
  have g: "slice_get starts i = Some (starts ! i)"
    using j(10) assms(2) by (simp add: slice_get_def)
  show ?case
  proof (cases "starts ! i < offset h (Suc i)")
    case False
    moreover have "starts ! i \<le> offset h (Suc i)"
      using j(2) [OF assms(2)] .
    moreover have "reorder_bucket byteAt sw s lo d i (offset h (Suc i)) starts = Some (s, starts)"
      by (subst reorder_bucket.simps) (simp only: g Option.bind.simps False if_False)
    ultimately show ?thesis
      using less.prems j(5) by (intro exI [of _ s] exI [of _ starts]) (simp add: stepped_refl)
  next
    case True
    define B where "B = byte (slots s ! (lo + starts ! i)) d + 1"
    note room = ordering_room [OF less.prems assms(2) True B_def]
    obtain s1 where s1: "sw s (lo + starts ! i) (lo + starts ! B) = Some s1" "stepped lo hi s s1"
      "ordering lo hi d h s1 (starts[B := starts ! B + 1])"
      using ordering_step [OF less.prems assms(2) True B_def] .
    have sum: "sum_list (starts[B := starts ! B + 1]) = sum_list starts + 1"
      using room(1) j(10) by (intro sum_list_update_Suc) simp
    then have "sum_list (map (\<lambda>b. offset h (Suc b)) [0..<257]) - sum_list (starts[B := starts ! B + 1]) <
        sum_list (map (\<lambda>b. offset h (Suc b)) [0..<257]) - sum_list starts"
      using ordering_sum [OF s1(3)] by linarith
    from less.hyps [OF this s1(3)] obtain s2 starts2 where s2:
      "reorder_bucket byteAt sw s1 lo d i (offset h (Suc i)) (starts[B := starts ! B + 1]) = Some (s2, starts2)" "stepped lo hi s1 s2"
      "ordering lo hi d h s2 starts2" "starts2 ! i = offset h (Suc i)" "\<forall>b<257. (starts[B := starts ! B + 1]) ! b \<le> starts2 ! b"
      by blast
    have "lo + starts ! i < length (slots s)"
      using True j(3) [OF assms(2)] j(6,7) by linarith
    then have bucket: "getBucket byteAt s (lo + starts ! i) d = Some (int B)"
      using getBucket_ok [OF j(5) _ j(8)] unfolding B_def by simp
    have gB: "slice_get starts B = Some (starts ! B)" "slice_set starts B (starts ! B + 1) = Some (starts[B := starts ! B + 1])"
      using room(1) j(10) by (simp_all add: slice_get_def slice_set_def)
    have "reorder_bucket byteAt sw s lo d i (offset h (Suc i)) starts = Some (s2, starts2)"
      by (subst reorder_bucket.simps) (simp only: g Option.bind.simps True if_True bucket int_index_int gB s1(1) s2(1))
    moreover have "starts ! b \<le> starts2 ! b" if "b < 257" for b
    proof -
      have "(starts[B := starts ! B + 1]) ! b \<le> starts2 ! b"
        using s2(5) that by blast
      then show ?thesis
        using room(1) j(10) by (cases "b = B") simp_all
    qed
    ultimately show ?thesis
      using s1(2) s2(2-4) stepped_trans by blast
  qed
qed

lemma reorder_ok:
  assumes "ordering lo hi d h s starts" and "\<forall>b<i. starts ! b = offset h (Suc b)" and "i \<le> 257"
  shows "\<exists>s'. reorder byteAt sw s lo d i starts (map (\<lambda>b. offset h (Suc b)) [0..<257]) = Some (s', map (\<lambda>b. offset h (Suc b)) [0..<257]) \<and>
    stepped lo hi s s' \<and> ordering lo hi d h s' (map (\<lambda>b. offset h (Suc b)) [0..<257])"
  using assms
proof (induction "257 - i" arbitrary: s starts i)
  case 0
  then have "starts = map (\<lambda>b. offset h (Suc b)) [0..<257]"
    by (intro list_eq_map_nth) (simp_all add: ordering_def)
  then show ?case
    using 0 by (subst reorder.simps) (auto simp: ordering_def stepped_refl simp del: upt_Suc)
next
  case (Suc n)
  define ends where "ends = map (\<lambda>b. offset h (Suc b)) [0..<257]"
  have i: "i < 257" "n = 257 - (i + 1)" "i + 1 \<le> 257"
    using Suc.hyps(2) by simp_all
  obtain s1 starts1 where s1: "reorder_bucket byteAt sw s lo d i (offset h (Suc i)) starts = Some (s1, starts1)" "stepped lo hi s s1"
    "ordering lo hi d h s1 starts1" "starts1 ! i = offset h (Suc i)" "\<forall>b<257. starts ! b \<le> starts1 ! b"
    using reorder_bucket_ok [OF Suc.prems(1) i(1)] by blast
  have fin: "starts1 ! b = offset h (Suc b)" if "b < i + 1" for b
  proof (cases "b = i")
    case False
    then have "starts ! b = offset h (Suc b)" "b < 257"
      using that Suc.prems(2) i(1) by simp_all
    moreover have "starts1 ! b \<le> offset h (Suc b)"
      using s1(3) \<open>b < 257\<close> by (simp add: ordering_def)
    ultimately show ?thesis
      using s1(5) by (metis le_antisym)
  qed (use s1(4) in simp)
  obtain s2 where s2: "reorder byteAt sw s1 lo d (i + 1) starts1 ends = Some (s2, ends)" "stepped lo hi s1 s2" "ordering lo hi d h s2 ends"
    using Suc.hyps(1) [OF i(2) s1(3) _ i(3)] fin unfolding ends_def by blast
  have "slice_get ends i = Some (offset h (Suc i))"
    using i(1) by (simp add: ends_def slice_get_def del: upt_Suc)
  then have "reorder byteAt sw s lo d i starts ends = Some (s2, ends)"
    by (subst reorder.simps) (simp only: i(1) if_True Option.bind.simps s1(1) s2(1) prod.case)
  then show ?case
    using s1(2) s2(2,3) stepped_trans unfolding ends_def by blast
qed

end


lemma offset_bucket:
  assumes "x < offset h n"
  shows "\<exists>b<n. offset h b \<le> x \<and> x < offset h (Suc b)"
  using assms
proof (induction n)
  case (Suc n)
  show ?case
  proof (cases "x < offset h n")
    case True
    then show ?thesis
      using Suc.IH less_SucI by blast
  next
    case False
    then show ?thesis
      using Suc.prems by (auto intro!: exI [of _ n])
  qed
qed simp

context msb_slots begin

lemma key_le_agree:
  "d \<le> maxLength \<Longrightarrow> (\<And>m. m < d \<Longrightarrow> byte a m = byte b m) \<Longrightarrow> key_le 0 a b \<longleftrightarrow> key_le d a b"
proof (induction d)
  case (Suc d)
  then have "key_le 0 a b \<longleftrightarrow> key_le d a b"
    by simp
  also have "\<dots> \<longleftrightarrow> key_le (Suc d) a b"
    using Suc.prems by (simp add: key_le_Cons [of d])
  finally show ?case .
qed simp

lemma alike_key_le:
  assumes "alike lo hi d s" and "d \<le> maxLength" and "lo \<le> i" "i < hi" "lo \<le> j" "j < hi"
  shows "key_le 0 (slots s ! i) (slots s ! j) \<longleftrightarrow> key_le d (slots s ! i) (slots s ! j)"
proof (rule key_le_agree [OF assms(2)])
  fix m assume "m < d"
  then have "lo \<le> i \<and> i < hi \<and> lo \<le> j \<and> j < hi \<and> m < d"
    using assms(3-) by simp
  then show "byte (slots s ! i) m = byte (slots s ! j) m"
    using assms(1) unfolding alike_def by blast
qed

lemma alike_sorted:
  assumes "alike lo hi maxLength s"
  shows "sorted_part (key_le 0) lo hi (slots s)"
  using alike_key_le [OF assms] by (auto simp: sorted_part_def key_le_def key_Nil)

text \<open>The keys between two offsets have the byte of their bucket.\<close>

definition bucketed :: "nat \<Rightarrow> nat \<Rightarrow> (nat \<Rightarrow> nat) \<Rightarrow> nat \<Rightarrow> 's \<Rightarrow> bool" where
  "bucketed lo N c d s \<longleftrightarrow> (\<forall>i x. i < N \<and> lo + c i \<le> x \<and> x < lo + c (i + 1) \<longrightarrow> byte (slots s ! x) d + 1 = i)"

lemma bucketed_byte: "bucketed lo N c d s \<Longrightarrow> i < N \<Longrightarrow> lo + c i \<le> x \<Longrightarrow> x < lo + c (i + 1) \<Longrightarrow> byte (slots s ! x) d + 1 = i"
  unfolding bucketed_def by blast

lemma bucketed_stepped:
  assumes "mono c" and B: "bucketed lo N c d s" and st: "stepped (lo + c a) (lo + c (a + 1)) s s'" and "a < N" and len: "lo + c N \<le> length (slots s)"
  shows "bucketed lo N c d s'"
proof -
  have r: "rearranged (lo + c a) (lo + c (a + 1)) (slots s) (slots s')"
    using st by (simp add: stepped_def)
  have top: "c (i + 1) \<le> c N" if "i < N" for i
    using assms(1) that by (simp add: monoD)
  have "byte (slots s' ! x) d + 1 = i" if i: "i < N" "lo + c i \<le> x" "x < lo + c (i + 1)" for i x
  proof (cases "lo + c a \<le> x \<and> x < lo + c (a + 1)")
    case True
    have "\<not> i < a" "\<not> a < i"
      using i True monoD [OF assms(1), of "i + 1" a] monoD [OF assms(1), of "a + 1" i] by auto
    then have "i = a"
      by simp
    moreover have "byte (slots s' ! x) d + 1 = a"
    proof (rule rearranged_all [OF r])
      show "lo + c (a + 1) \<le> length (slots s)"
        using top [OF assms(4)] len by simp
    qed (use True bucketed_byte [OF B assms(4)] in auto)
    ultimately show ?thesis
      by simp
  next
    case False
    have "x < length (slots s)"
      using i(3) top [OF i(1)] len by linarith
    then have "slots s' ! x = slots s ! x"
      using False by (intro rearranged_outside [OF r]) auto
    then show ?thesis
      using bucketed_byte [OF B i] by simp
  qed
  then show ?thesis
    unfolding bucketed_def by blast
qed

lemma bucketed_alike:
  assumes "bucketed lo N c d s" and "alike lo (lo + c N) d s" and "i < N" and "mono c"
  shows "alike (lo + c i) (lo + c (i + 1)) (d + 1) s"
proof -
  have top: "c (i + 1) \<le> c N"
    using assms(3,4) by (simp add: monoD)
  have "byte (slots s ! x) m = byte (slots s ! y) m"
    if "lo + c i \<le> x" "x < lo + c (i + 1)" "lo + c i \<le> y" "y < lo + c (i + 1)" "m < d + 1" for x y m
  proof (cases "m = d")
    case True
    then show ?thesis
      using bucketed_byte [OF assms(1,3) that(1,2)] bucketed_byte [OF assms(1,3) that(3,4)] by simp
  next
    case False
    then have "lo \<le> x \<and> x < lo + c N \<and> lo \<le> y \<and> y < lo + c N \<and> m < d"
      using that top by simp
    then show ?thesis
      using assms(2) unfolding alike_def by blast
  qed
  then show ?thesis
    unfolding alike_def by blast
qed

lemma bucket_loop_ok:
  assumes "mono c" and "a \<le> N"
    and rec: "\<And>s i. ok s \<Longrightarrow> lo + c N \<le> length (slots s) \<Longrightarrow> i < N \<Longrightarrow> c i + 1 < c (i + 1) \<Longrightarrow>
      alike (lo + c i) (lo + c (i + 1)) (d + 1) s \<Longrightarrow>
      \<exists>s'. rec s (lo + c i) (lo + c (i + 1)) = Some s' \<and> stepped (lo + c i) (lo + c (i + 1)) s s' \<and>
        sorted_part (key_le 0) (lo + c i) (lo + c (i + 1)) (slots s')"
    and "ok s" and "lo + c N \<le> length (slots s)" and "bucketed lo N c d s" and "alike lo (lo + c N) d s"
  shows "\<exists>s'. bucket_loop rec s lo (c a) (map c [a + 1..<N + 1]) = Some s' \<and> stepped (lo + c a) (lo + c N) s s' \<and> bucketed lo N c d s' \<and>
    (\<forall>i. a \<le> i \<and> i < N \<longrightarrow> sorted_part (key_le 0) (lo + c i) (lo + c (i + 1)) (slots s'))"
  using assms(2,4-)
proof (induction "N - a" arbitrary: a s)
  case 0
  then have "a = N"
    by simp
  then show ?case
    using 0 by (auto simp: stepped_refl)
next
  case (Suc n)
  have a: "a < N" "n = N - (a + 1)" "a + 1 \<le> N"
    using Suc.hyps(2) by simp_all
  have mono: "c a \<le> c (a + 1)" "c (a + 1) \<le> c N"
    using monoD [OF assms(1)] a by simp_all
  let ?bucket = "\<lambda>s. if c (a + 1) - c a > 1 then rec s (lo + c a) (lo + c (a + 1)) else Some s"
  have "\<exists>s1. ?bucket s = Some s1 \<and> stepped (lo + c a) (lo + c (a + 1)) s s1 \<and> sorted_part (key_le 0) (lo + c a) (lo + c (a + 1)) (slots s1)"
  proof (cases "c (a + 1) - c a > 1")
    case True
    then have "c a + 1 < c (a + 1)"
      by simp
    from rec [OF Suc.prems(2,3) a(1) this bucketed_alike [OF Suc.prems(4,5) a(1) assms(1)]] True
    show ?thesis
      by simp
  next
    case False
    then have "sorted_part (key_le 0) (lo + c a) (lo + c (a + 1)) (slots s)"
      by (auto simp: sorted_part_def)
    then show ?thesis
      using False Suc.prems(2) by (auto simp: stepped_refl)
  qed
  then obtain s1 where s1: "?bucket s = Some s1" "stepped (lo + c a) (lo + c (a + 1)) s s1"
    "sorted_part (key_le 0) (lo + c a) (lo + c (a + 1)) (slots s1)"
    by blast
  have wide: "stepped lo (lo + c N) s s1"
    using s1(2) mono by (auto intro: stepped_mono)
  have ok1: "ok s1" "lo + c N \<le> length (slots s1)"
    using stepped_ok [OF s1(2)] stepped_length [OF s1(2)] Suc.prems(3) by simp_all
  obtain s2 where s2: "bucket_loop rec s1 lo (c (a + 1)) (map c [a + 1 + 1..<N + 1]) = Some s2"
    "stepped (lo + c (a + 1)) (lo + c N) s1 s2" "bucketed lo N c d s2"
    "\<forall>i. a + 1 \<le> i \<and> i < N \<longrightarrow> sorted_part (key_le 0) (lo + c i) (lo + c (i + 1)) (slots s2)"
    using Suc.hyps(1) [OF a(2,3) ok1 bucketed_stepped [OF assms(1) Suc.prems(4) s1(2) a(1) Suc.prems(3)]
      alike_stepped [OF Suc.prems(5) wide Suc.prems(3)]] by blast
  have "[a + 1..<N + 1] = (a + 1) # [a + 1 + 1..<N + 1]"
    using a(1) by (simp add: upt_conv_Cons del: upt_Suc)
  then have "bucket_loop rec s lo (c a) (map c [a + 1..<N + 1]) = Some s2"
    by (simp only: list.map bucket_loop.simps s1(1) Option.bind.simps s2(1))
  moreover have "stepped (lo + c a) (lo + c N) s s2"
    using stepped_mono [OF s1(2), of "lo + c a" "lo + c N"] stepped_mono [OF s2(2), of "lo + c a" "lo + c N"] mono
    by (auto intro: stepped_trans)
  moreover have "sorted_part (key_le 0) (lo + c a) (lo + c (a + 1)) (slots s2)"
  proof -
    have r: "rearranged (lo + c (a + 1)) (lo + c N) (slots s1) (slots s2)"
      using s2(2) by (simp add: stepped_def)
    have "slots s2 ! x = slots s1 ! x" if "x < lo + c (a + 1)" for x
      using that mono ok1(2) by (intro rearranged_outside [OF r]) simp_all
    then show ?thesis
      using s1(3) unfolding sorted_part_def by simp
  qed
  ultimately show ?case
    using s2(3,4) by (metis Suc_eq_plus1 Suc_leI le_neq_implies_less)
qed

end


context msb_slots begin

subsection \<open>Radix sort\<close>

lemma total_buckets:
  assumes "\<forall>b<257. h ! b = card (buckets lo hi d s b)" and "length h = 257"
  shows "offset h 257 = hi - lo" and "offset h 1 = 0"
proof -
  have "byte a d + 1 < 257" for a
    using byte_range [of a d] by simp
  then have "occurs lo hi (\<lambda>a. byte a d + 1 < 257) (slots s) = {lo..<hi}"
    unfolding occurs_def by auto
  then show "offset h 257 = hi - lo"
    using sum_take_buckets [OF assms, of 257] unfolding offset_def by simp
  show "offset h 1 = 0"
    using sum_take_buckets [OF assms, of 1] unfolding offset_def by (simp add: occurs_def)
qed

lemma ordering_start:
  assumes "\<forall>b<257. h ! b = card (buckets lo hi d s b)" and "length h = 257"
    and "ok s" "hi \<le> length (slots s)" "lo \<le> hi" "d < maxLength"
  shows "ordering lo hi d h s (map (\<lambda>b. 0 + offset h b) [0..<length h])"
proof -
  have nth: "map (\<lambda>b. 0 + offset h b) [0..<length h] ! b = offset h b" if "b < 257" for b
    using that assms(2) by (simp del: upt_Suc)
  have "offset h b \<le> offset h (Suc b)" for b
    by (rule offset_mono) simp
  moreover have "\<forall>b<257. card (occurs lo hi (\<lambda>a. byte a d + 1 = b) (slots s)) = h ! b"
    using assms(1) unfolding buckets_def by simp
  ultimately show ?thesis
    unfolding ordering_def using assms(2-6) total_buckets(1) [OF assms(1,2)] nth by simp
qed

lemma buckets_sorted:
  assumes B: "bucketed lo 257 (offset h) d s" and A: "alike lo hi d s" and "d < maxLength" and "offset h 257 = hi - lo" "offset h 1 = 0" "lo \<le> hi"
    and sorted: "\<forall>i. 1 \<le> i \<and> i < 257 \<longrightarrow> sorted_part (key_le 0) (lo + offset h i) (lo + offset h (i + 1)) (slots s)"
  shows "sorted_part (key_le 0) lo hi (slots s)"
proof -
  have bucket: "\<exists>b. 1 \<le> b \<and> b < 257 \<and> lo + offset h b \<le> x \<and> x < lo + offset h (b + 1)" if "lo \<le> x" "x < hi" for x
  proof -
    have "x - lo < offset h 257"
      using that assms(4) by simp
    then obtain b where b: "b < 257" "offset h b \<le> x - lo" "x - lo < offset h (Suc b)"
      using offset_bucket by blast
    have "b \<noteq> 0"
    proof
      assume "b = 0"
      then show False
        using b(3) assms(5) by simp
    qed
    moreover have "lo + offset h b \<le> x" "x < lo + offset h (b + 1)"
      using b(2,3) that(1) by simp_all
    ultimately show ?thesis
      using b(1) by (intro exI [of _ b]) simp
  qed
  have "key_le 0 (slots s ! x) (slots s ! y)" if xy: "lo \<le> x" "x < y" "y < hi" for x y
  proof -
    obtain b where b: "1 \<le> b" "b < 257" "lo + offset h b \<le> x" "x < lo + offset h (b + 1)"
      using bucket [of x] xy by auto
    obtain b' where b': "1 \<le> b'" "b' < 257" "lo + offset h b' \<le> y" "y < lo + offset h (b' + 1)"
      using bucket [of y] xy by auto
    have "\<not> b' < b"
    proof
      assume "b' < b"
      then have "offset h (b' + 1) \<le> offset h b"
        by (intro offset_mono) simp
      then show False
        using b(3) b'(4) xy(2) by linarith
    qed
    then consider "b = b'" | "b < b'"
      by linarith
    then show ?thesis
    proof cases
      case 1
      then show ?thesis
        using sorted b b' xy(2) unfolding sorted_part_def by blast
    next
      case 2
      have "byte (slots s ! x) d + 1 = b" "byte (slots s ! y) d + 1 = b'"
        using bucketed_byte [OF B b(2,3,4)] bucketed_byte [OF B b'(2,3,4)] .
      then have "key_le d (slots s ! x) (slots s ! y)"
        using 2 assms(3) by (simp add: key_le_Cons)
      then show ?thesis
        using alike_key_le [OF A, of x y] assms(3) xy by simp
    qed
  qed
  then show ?thesis
    unfolding sorted_part_def by blast
qed

lemma mono_offset: "mono (offset h)"
  by (rule monoI) (rule offset_mono)

lemma radixSort_ok:
  "ok s \<Longrightarrow> lo < hi \<Longrightarrow> hi \<le> length (slots s) \<Longrightarrow> d < maxLength \<Longrightarrow> alike lo hi d s \<Longrightarrow> maxLength - d < n \<Longrightarrow>
   \<exists>s'. radixSort n cmp sw byteAt maxLength s lo hi d level = Some s' \<and> stepped lo hi s s' \<and> sorted_part (key_le 0) lo hi (slots s')"
proof (induction n arbitrary: s lo hi d level)
  case (Suc n)
  note prems = Suc.prems
  obtain m h where mh: "computeCommonPrefix byteAt maxLength s lo hi d = Some (m, h)" "d + m \<le> maxLength" "length h = 257"
    "0 < m \<longrightarrow> h ! 0 = 0 \<and> (\<forall>i. lo \<le> i \<and> i < hi \<longrightarrow> agree d m (slots s ! lo) (slots s ! i))"
    "m = 0 \<longrightarrow> (\<forall>b<257. h ! b = card (buckets lo hi d s b))"
    using computeCommonPrefix_ok [OF prems(1-4)] by blast
  have prefix: "prefixLengthAndBuildHistogram byteAt maxLength s lo hi d = Some (m, h)"
    using mh(1) by (simp add: prefixLengthAndBuildHistogram_def)
  show ?case
  proof (cases "0 < m")
    case True
    have "byte (slots s ! i) p = byte (slots s ! j) p" if "lo \<le> i" "i < hi" "lo \<le> j" "j < hi" "p < d + m" for i j p
    proof (cases "p < d")
      case less: True
      then have "lo \<le> i \<and> i < hi \<and> lo \<le> j \<and> j < hi \<and> p < d"
        using that by simp
      then show ?thesis
        using prems(5) unfolding alike_def by blast
    next
      case False
      then have "p = d + (p - d)" "p - d < m"
        using that(5) by simp_all
      moreover have "agree d m (slots s ! lo) (slots s ! i)" "agree d m (slots s ! lo) (slots s ! j)"
        using mh(4) True that by simp_all
      ultimately show ?thesis
        unfolding agree_def by metis
    qed
    then have more: "alike lo hi (d + m) s"
      unfolding alike_def by blast
    have h0: "slice_get h 0 = Some 0"
      using mh(3,4) True by (simp add: slice_get_def)
    show ?thesis
    proof (cases "d + m < maxLength")
      case less: True
      have "maxLength - (d + m) < n"
        using prems(6) True less by linarith
      from Suc.IH [OF prems(1-3) less more this, of level] show ?thesis
        using True less prems(2) h0 by (simp add: prefix slice_get_def)
    next
      case False
      then have "radixSort (Suc n) cmp sw byteAt maxLength s lo hi d level = Some s"
        using True False h0 by (simp add: prefix slice_get_def)
      moreover have "sorted_part (key_le 0) lo hi (slots s)"
        using False mh(2) more by (intro alike_sorted) simp
      ultimately show ?thesis
        using prems(1) by (auto simp: stepped_refl)
    qed
  next
    case False
    then have m: "m = 0"
      by simp
    then have hist: "\<forall>b<257. h ! b = card (buckets lo hi d s b)"
      using mh(5) by simp
    have lohi: "lo \<le> hi"
      using prems(2) by simp
    note total = total_buckets [OF hist mh(3)]
    define ends where "ends = map (\<lambda>b. offset h (Suc b)) [0..<257]"
    have sum: "sumHistogram h 0 = (map (\<lambda>b. 0 + offset h b) [0..<length h], ends)"
      unfolding sumHistogram_eq ends_def mh(3) by (simp only: add_0)
    obtain s1 where s1: "reorder byteAt sw s lo d 0 (map (\<lambda>b. 0 + offset h b) [0..<length h]) ends = Some (s1, ends)"
      "stepped lo hi s s1" "ordering lo hi d h s1 ends"
      using reorder_ok [OF ordering_start [OF hist mh(3) prems(1,3) lohi prems(4)], of 0] unfolding ends_def by auto
    have ends: "ends = offset h 1 # map (offset h) [1 + 1..<257 + 1]"
    proof -
      have "ends = map (offset h) (map Suc [0..<257])"
        by (simp only: ends_def map_map comp_def)
      also have "map Suc [0..<257] = 1 # [1 + 1..<257 + 1]"
        by (simp only: map_Suc_upt) (simp add: upt_conv_Cons del: upt_Suc)
      finally show ?thesis
        by simp
    qed
    have ok1: "ok s1" "hi \<le> length (slots s1)" "alike lo hi d s1"
      using stepped_ok [OF s1(2)] stepped_length [OF s1(2)] prems(3) alike_stepped [OF prems(5) s1(2) prems(3)] by simp_all
    have hi: "lo + offset h 257 = hi"
      using total(1) lohi by simp
    have "byte (slots s1 ! x) d + 1 = i" if "i < 257 \<and> lo + offset h i \<le> x \<and> x < lo + offset h (i + 1)" for i x
      using that by (intro ordering_byte [OF s1(3)]) (simp_all add: ends_def del: upt_Suc)
    then have B1: "bucketed lo 257 (offset h) d s1"
      unfolding bucketed_def by blast
    let ?rec = "\<lambda>s from to.
               if to - from \<le> 100 \<or> level + 1 \<ge> 8 then pdqSort cmp sw s from to (d + 1)
               else radixSort n cmp sw byteAt maxLength s from to (d + 1) (level + 1)"
    let ?rest = "if d + 1 < maxLength then bucket_loop ?rec s1 lo (offset h 1) (map (offset h) [1 + 1..<257 + 1]) else Some s1"
    have "\<exists>s2. ?rest = Some s2 \<and> stepped (lo + offset h 1) (lo + offset h 257) s1 s2 \<and> bucketed lo 257 (offset h) d s2 \<and>
      (\<forall>i. 1 \<le> i \<and> i < 257 \<longrightarrow> sorted_part (key_le 0) (lo + offset h i) (lo + offset h (i + 1)) (slots s2))"
    proof (cases "d + 1 < maxLength")
      case True
      have rec: "\<exists>t'. ?rec t l u = Some t' \<and> stepped l u t t' \<and> sorted_part (key_le 0) l u (slots t')"
        if "ok t" "u \<le> length (slots t)" "l < u" "alike l u (d + 1) t" for t l u
      proof (cases "u - l \<le> 100 \<or> level + 1 \<ge> 8")
        case small: True
        show ?thesis
          unfolding if_P [OF small] using True by (intro pdqSort_ok [OF that(1,4,2)]) simp
      next
        case False
        show ?thesis
          unfolding if_not_P [OF False] using prems(6) True by (intro Suc.IH [OF that(1,3,2) _ that(4)]) simp_all
      qed
      show ?thesis
        unfolding if_P [OF True]
      proof (rule bucket_loop_ok [OF mono_offset])
        fix t i
        assume t: "ok t" "lo + offset h 257 \<le> length (slots t)" "i < 257" "offset h i + 1 < offset h (i + 1)"
          "alike (lo + offset h i) (lo + offset h (i + 1)) (d + 1) t"
        have "lo + offset h (i + 1) \<le> length (slots t)"
          using t(2,3) offset_mono [of "i + 1" 257 h] by simp
        then show "\<exists>s'. ?rec t (lo + offset h i) (lo + offset h (i + 1)) = Some s' \<and>
            stepped (lo + offset h i) (lo + offset h (i + 1)) t s' \<and>
            sorted_part (key_le 0) (lo + offset h i) (lo + offset h (i + 1)) (slots s')"
          using t(4) by (intro rec [OF t(1) _ _ t(5)]) simp_all
      qed (use ok1 B1 hi in simp_all)
    next
      case False
      then have last: "d + 1 = maxLength"
        using prems(4) by simp
      have "sorted_part (key_le 0) (lo + offset h i) (lo + offset h (i + 1)) (slots s1)" if "i < 257" for i
        using bucketed_alike [OF B1 _ that mono_offset] ok1(3) unfolding hi last by (intro alike_sorted) simp
      then show ?thesis
        unfolding if_not_P [OF False] using B1 ok1(1) by (auto simp: stepped_refl)
    qed
    then obtain s2 where s2: "?rest = Some s2" "stepped (lo + offset h 1) (lo + offset h 257) s1 s2" "bucketed lo 257 (offset h) d s2"
      "\<forall>i. 1 \<le> i \<and> i < 257 \<longrightarrow> sorted_part (key_le 0) (lo + offset h i) (lo + offset h (i + 1)) (slots s2)"
      by blast
    have st: "stepped lo hi s1 s2"
      using s2(2) unfolding hi total(2) by simp
    have "radixSort (Suc n) cmp sw byteAt maxLength s lo hi d level = ?rest"
      by (simp only: radixSort.simps prefix Option.bind.simps prod.case False if_False Let_def sum s1(1))
        (simp only: ends list.case)
    moreover have "sorted_part (key_le 0) lo hi (slots s2)"
      by (rule buckets_sorted [OF s2(3) alike_stepped [OF ok1(3) st ok1(2)] prems(4) total lohi s2(4)])
    ultimately show ?thesis
      using s2(1) stepped_trans [OF s1(2) st] by simp
  qed
qed simp

lemma msb_Sort_ok:
  assumes "ok s" and "hi \<le> length (slots s)"
  shows "\<exists>s'. msb_Sort cmp sw byteAt maxLength s lo hi = Some s' \<and> stepped lo hi s s' \<and> sorted_part (key_le 0) lo hi (slots s')"
proof -
  have start: "alike lo hi 0 s"
    by (simp add: alike_def)
  show ?thesis
  proof (cases "hi - lo \<le> 100")
    case True
    then show ?thesis
      using pdqSort_ok [OF assms(1) start assms(2)] by (simp add: msb_Sort_def sortKthAndLevel_def)
  next
    case False
    then show ?thesis
      using radixSort_ok [OF assms(1) _ assms(2) maxLength [OF assms(1)] start, of "maxLength + 1" 0]
      by (simp add: msb_Sort_def sortKthAndLevel_def)
  qed
qed

end

end
