(* ===== verification/Heap_Points_Order.thy ===== *)
theory Heap_Points_Order
  imports Heap_Points Radix_Sort_Correct
begin

text \<open>
  A block as a list of points, the order of points, and the promises of the providers made from them: the
  interpretations of the locales of the selector and of the sorter.
\<close>

subsection \<open>Blocks as lists of points\<close>

definition chunks :: "nat \<Rightarrow> 'a list \<Rightarrow> 'a list list" where
  "chunks n bs = map (\<lambda>i. take n (drop (i * n) bs)) [0..<length bs div n]"

lemma length_chunks [simp]: "length (chunks n bs) = length bs div n"
  by (simp add: chunks_def)

lemma nth_chunks: "i < length bs div n \<Longrightarrow> chunks n bs ! i = take n (drop (i * n) bs)"
  by (simp add: chunks_def)

lemma chunk_inside:
  assumes "i < length bs div n"
  shows "i * n + n \<le> length bs"
proof -
  have "(i + 1) * n \<le> length bs div n * n"
    using assms by (intro mult_right_mono) simp_all
  also have "\<dots> \<le> length bs"
    by simp
  finally show ?thesis
    by simp
qed

lemma length_chunk: "i < length bs div n \<Longrightarrow> length (chunks n bs ! i) = n"
  using chunk_inside [of i bs n] by (simp add: nth_chunks)

lemma nth_chunk: "i < length bs div n \<Longrightarrow> k < n \<Longrightarrow> chunks n bs ! i ! k = bs ! (i * n + k)"
  using chunk_inside [of i bs n] by (simp add: nth_chunks)

lemma chunks_write_block:
  assumes "i < length bs div n" and "length xs = n"
  shows "chunks n (write_block bs (i * n) xs) = (chunks n bs)[i := xs]"
proof (rule nth_equalityI)
  have len: "length (write_block bs (i * n) xs) = length bs"
    using chunk_inside [OF assms(1)] assms(2) by simp
  then show "length (chunks n (write_block bs (i * n) xs)) = length ((chunks n bs)[i := xs])"
    by simp
  fix j assume "j < length (chunks n (write_block bs (i * n) xs))"
  then have j: "j < length bs div n"
    using len by simp
  show "chunks n (write_block bs (i * n) xs) ! j = (chunks n bs)[i := xs] ! j"
  proof (rule nth_equalityI)
    show lj: "length (chunks n (write_block bs (i * n) xs) ! j) = length ((chunks n bs)[i := xs] ! j)"
      using j len assms by (cases "i = j") (simp_all add: length_chunk)
    fix k assume "k < length (chunks n (write_block bs (i * n) xs) ! j)"
    then have k: "k < n"
      using j len by (simp add: length_chunk)
    have jk: "j * n + k < length bs"
      using chunk_inside [OF j] k by simp
    have "i * n \<le> j * n + k \<and> j * n + k < i * n + n \<longleftrightarrow> i = j"
    proof
      assume "i * n \<le> j * n + k \<and> j * n + k < i * n + n"
      then have "(j * n + k) div n = i"
        by (intro div_nat_eqI) (simp_all add: ac_simps)
      then show "i = j"
        using k by simp
    qed (use k in simp)
    then have "write_block bs (i * n) xs ! (j * n + k) = (if i = j then xs ! (j * n + k - i * n) else bs ! (j * n + k))"
      using nth_write_block [of "i * n" xs bs "j * n + k"] chunk_inside [OF assms(1)] assms(2) jk by simp
    then show "chunks n (write_block bs (i * n) xs) ! j ! k = (chunks n bs)[i := xs] ! j ! k"
      using assms j k len by (cases "i = j") (simp_all add: nth_chunk)
  qed
qed

lemma sub_slice_chunk: "i < length bs div n \<Longrightarrow> sub_slice bs (int (i * n)) (int (i * n + n)) = Some (chunks n bs ! i)"
  using sub_slice_nat [of "i * n" n bs] chunk_inside [of i bs n] by (simp add: nth_chunks)

lemma sub_slice_inside:
  assumes "i < length bs div n" and "a + m \<le> n"
  shows "sub_slice bs (int (i * n + a)) (int (i * n + a + m)) = Some (take m (drop a (chunks n bs ! i)))"
  using sub_slice_nat [of "i * n + a" m bs] chunk_inside [of i bs n] assms by (simp add: nth_chunks drop_take ac_simps)

lemma copy_to_nat: "a + length xs \<le> length bs \<Longrightarrow> copy_to bs a xs = Some (write_block bs a xs)"
  using sub_slice_nat [of a "length bs - a" bs] by (simp add: copy_to_def copy_into_def del: of_nat_add)

lemma write_block_all: "length xs = length bs \<Longrightarrow> write_block bs 0 xs = xs"
  by (simp add: write_block_def)

subsection \<open>The order of points\<close>

lemma unat_list_le: "map unat xs \<le> map unat ys \<longleftrightarrow> xs \<le> ys" for xs ys :: "u8 list"
proof (induction xs arbitrary: ys)
  case (Cons x xs)
  then show ?case
    by (cases ys) (auto simp: word_less_nat_alt word_unat_eq_iff)
qed simp

lemma append_less:
  "length xs = length ys \<Longrightarrow> xs @ us < ys @ vs \<longleftrightarrow> xs < ys \<or> xs = ys \<and> us < vs" for xs ys :: "'a::linorder list"
  by (induction xs ys rule: list_induct2) auto

lemma append_le:
  "length xs = length ys \<Longrightarrow> xs @ us \<le> ys @ vs \<longleftrightarrow> xs < ys \<or> xs = ys \<and> us \<le> vs" for xs ys :: "'a::linorder list"
  by (induction xs ys rule: list_induct2) auto

lemma bytes_Compare_less [simp]: "bytes_Compare a b < 0 \<longleftrightarrow> a < b" "bytes_Compare a b = 0 \<longleftrightarrow> a = b"
  by (auto simp: bytes_Compare_def)

text \<open>Numbers of four bytes, the highest first, have the order of their bytes.\<close>

definition be_value :: "u8 list \<Rightarrow> nat" where
  "be_value bs = foldl (\<lambda>v b. v * 256 + unat b) 0 bs"

lemma be_value_snoc: "be_value (bs @ [b]) = be_value bs * 256 + unat b"
  by (simp add: be_value_def)

lemma unat_u8: "unat (b :: u8) < 256"
  using unsigned_less [of b] by simp

lemma unat_get_uint: "length bs \<le> 4 \<Longrightarrow> unat (get_uint bs :: u32) = be_value bs \<and> be_value bs < 256 ^ length bs"
proof (induction bs rule: rev_induct)
  case Nil
  then show ?case
    by (simp add: get_uint_def be_value_def)
next
  case (snoc b bs)
  let ?v = "get_uint bs :: u32"
  have IH: "unat ?v = be_value bs" "be_value bs < 256 ^ length bs"
    using snoc by simp_all
  have "256 ^ length bs \<le> (256 :: nat) ^ 3"
    using snoc.prems by (intro power_increasing) simp_all
  then have small: "unat ?v < 2 ^ 24"
    using IH by simp
  have "push_bit 8 ?v AND ucast b = 0"
    by (rule bit_word_eqI) (auto simp: bit_simps dest: bit_imp_le_length)
  then have "push_bit 8 ?v OR ucast b = push_bit 8 ?v + ucast b"
    by (simp add: disjunctive_add_eq_or)
  moreover have "unat (push_bit 8 ?v) = unat ?v * 256"
    using small by (simp add: push_bit_eq_mult unat_word_ariths)
  moreover have "unat (ucast b :: u32) = unat b"
    using unat_u8 [of b] by (simp add: unsigned_ucast_eq take_bit_nat_eq_self)
  ultimately have "unat (get_uint (bs @ [b]) :: u32) = unat ?v * 256 + unat b"
    using small unat_u8 [of b] by (simp add: get_uint_def unat_word_ariths)
  moreover have "be_value bs * 256 + unat b < 256 ^ length (bs @ [b])"
    using IH(2) unat_u8 [of b] by simp
  ultimately show ?case
    by (simp add: IH(1) be_value_snoc)
qed

lemma foldl_bytes_less:
  "length xs = length ys \<Longrightarrow>
   foldl (\<lambda>v b. v * 256 + unat b) v xs < foldl (\<lambda>v b. v * 256 + unat b) w ys \<longleftrightarrow> v < w \<or> v = w \<and> xs < ys"
  for xs ys :: "u8 list"
proof (induction xs ys arbitrary: v w rule: list_induct2)
  case (Cons x xs y ys)
  have "v * 256 + unat x < w * 256 + unat y \<longleftrightarrow> v < w \<or> v = w \<and> unat x < unat y"
    using unat_u8 [of x] unat_u8 [of y] by linarith
  moreover have "v * 256 + unat x = w * 256 + unat y \<longleftrightarrow> v = w \<and> unat x = unat y"
  proof
    assume "v * 256 + unat x = w * 256 + unat y"
    then have "v \<le> w" "w \<le> v"
      using unat_u8 [of x] unat_u8 [of y] by linarith+
    then show "v = w \<and> unat x = unat y"
      using \<open>v * 256 + unat x = w * 256 + unat y\<close> by simp
  qed simp
  ultimately show ?case
    by (auto simp: Cons.IH word_less_nat_alt word_unat_eq_iff)
qed simp

lemma docID_less:
  assumes "length xs = 4" and "length ys = 4"
  shows "unat (get_uint xs :: u32) < unat (get_uint ys :: u32) \<longleftrightarrow> xs < ys"
  using unat_get_uint [of xs] unat_get_uint [of ys] foldl_bytes_less [of xs ys 0 0] assms by (simp add: be_value_def)


subsection \<open>The provider's promises\<close>

definition valid_config :: "Config \<Rightarrow> bool" where
  "valid_config c \<longleftrightarrow> 0 < cf_numIndexDims c \<and> cf_numIndexDims c \<le> cf_numDims c \<and> 0 < cf_bytesPerDim c \<and>
     cf_packedBytesLength c = cf_numDims c * cf_bytesPerDim c \<and> cf_packedIndexBytesLength c = cf_numIndexDims c * cf_bytesPerDim c \<and>
     cf_bytesPerDoc c = cf_packedBytesLength c + 4"

lemma NewConfig_valid: "NewConfig a b c d = Inr cfg \<Longrightarrow> valid_config cfg"
  by (auto simp: NewConfig_def verifyParams_def valid_config_def nat_mult_distrib split: if_splits)

text \<open>A selector made for the configuration of the writer, a dimension, and a prefix of the bytes that are compared\<close>

definition points_ok :: "RadixSelector \<Rightarrow> nat \<Rightarrow> nat \<Rightarrow> HeapPointWriter \<Rightarrow> bool" where
  "points_ok b dimension cpl h \<longleftrightarrow>
     valid_config (rs_config b) \<and> hp_config h = rs_config b \<and> dimension < cf_numDims (rs_config b) \<and> cpl < rs_bytesSorted b \<and>
     rs_bytesSorted b = cf_bytesPerDim (rs_config b) + (cf_numDims (rs_config b) - cf_numIndexDims (rs_config b)) * cf_bytesPerDim (rs_config b) + 4 \<and>
     length (hp_scratch h) = cf_bytesPerDoc (rs_config b)"

definition points :: "HeapPointWriter \<Rightarrow> u8 list list" where
  "points h = chunks (cf_bytesPerDoc (hp_config h)) (hp_block h)"

text \<open>The bytes of a point that are compared, in their order: those of the dimension, the data dimensions, the document\<close>

definition dim_bytes :: "Config \<Rightarrow> nat \<Rightarrow> u8 list \<Rightarrow> u8 list" where
  "dim_bytes c dimension a = take (cf_bytesPerDim c) (drop (dimension * cf_bytesPerDim c) a)"

definition data_bytes :: "Config \<Rightarrow> u8 list \<Rightarrow> u8 list" where
  "data_bytes c a = drop (cf_packedIndexBytesLength c) a"

definition point_order :: "Config \<Rightarrow> nat \<Rightarrow> u8 list \<Rightarrow> u8 list" where
  "point_order c dimension a = dim_bytes c dimension a @ data_bytes c a"

text \<open>The place in a point of the byte \<open>k\<close> behind the prefix\<close>

definition key_place :: "Config \<Rightarrow> nat \<Rightarrow> nat \<Rightarrow> nat \<Rightarrow> nat" where
  "key_place c dimension cpl k =
     (if cpl + k < cf_bytesPerDim c then dimension * cf_bytesPerDim c + cpl + k
      else cf_packedIndexBytesLength c + (cpl + k - cf_bytesPerDim c))"

definition point_byte :: "RadixSelector \<Rightarrow> nat \<Rightarrow> nat \<Rightarrow> u8 list \<Rightarrow> nat \<Rightarrow> nat" where
  "point_byte b dimension cpl a k = unat (a ! key_place (rs_config b) dimension cpl k)"

lemma config_sizes:
  assumes "valid_config c" and "dimension < cf_numDims c"
  shows "dimension * cf_bytesPerDim c + cf_bytesPerDim c \<le> cf_packedBytesLength c"
    and "cf_packedIndexBytesLength c \<le> cf_packedBytesLength c"
    and "cf_packedBytesLength c - cf_packedIndexBytesLength c = (cf_numDims c - cf_numIndexDims c) * cf_bytesPerDim c"
    and "cf_bytesPerDoc c = cf_packedBytesLength c + 4"
proof -
  have "(dimension + 1) * cf_bytesPerDim c \<le> cf_numDims c * cf_bytesPerDim c"
    using assms(2) by (intro mult_right_mono) simp_all
  then show "dimension * cf_bytesPerDim c + cf_bytesPerDim c \<le> cf_packedBytesLength c"
    using assms(1) by (simp add: valid_config_def)
qed (use assms(1) in \<open>simp_all add: valid_config_def diff_mult_distrib\<close>)

lemma points_okD:
  assumes "points_ok b dimension cpl h"
  shows "valid_config (rs_config b)" "dimension < cf_numDims (rs_config b)" "cpl < rs_bytesSorted b"
    "rs_bytesSorted b = cf_bytesPerDim (rs_config b) + (cf_bytesPerDoc (rs_config b) - cf_packedIndexBytesLength (rs_config b))"
    "hp_config h = rs_config b" "length (hp_scratch h) = cf_bytesPerDoc (rs_config b)"
proof -
  show ok: "valid_config (rs_config b)" "dimension < cf_numDims (rs_config b)" "cpl < rs_bytesSorted b"
    "hp_config h = rs_config b" "length (hp_scratch h) = cf_bytesPerDoc (rs_config b)"
    using assms by (simp_all add: points_ok_def)
  show "rs_bytesSorted b = cf_bytesPerDim (rs_config b) + (cf_bytesPerDoc (rs_config b) - cf_packedIndexBytesLength (rs_config b))"
    using assms config_sizes [OF ok(1,2)] by (simp add: points_ok_def)
qed

lemma points_lengths:
  assumes "points_ok b dimension cpl h"
  shows "length (points h) = length (hp_block h) div cf_bytesPerDoc (rs_config b)"
    and "i < length (points h) \<Longrightarrow> length (points h ! i) = cf_bytesPerDoc (rs_config b)"
  using points_okD(5) [OF assms] by (simp_all add: points_def length_chunk)

text \<open>The place of a byte of the key in its point, and in the block\<close>

lemma key_offset:
  assumes "points_ok b dimension cpl h"
  shows "(if int k < pk_dimCmpBytes (point_keys b dimension cpl) then pk_dimOffset (point_keys b dimension cpl)
      else pk_dataOffset (point_keys b dimension cpl)) + int k = int (key_place (rs_config b) dimension cpl k)"
  using points_okD(3) [OF assms] config_sizes(1) [OF points_okD(1,2) [OF assms]]
  by (auto simp: point_keys_def Let_def key_place_def)

lemma key_place_less:
  assumes "points_ok b dimension cpl h" and "k < rs_bytesSorted b - cpl"
  shows "key_place (rs_config b) dimension cpl k < cf_bytesPerDoc (rs_config b)"
  using points_okD(3,4) [OF assms(1)] config_sizes [OF points_okD(1,2) [OF assms(1)]] assms(2) by (auto simp: key_place_def)

lemma block_byte:
  assumes "points_ok b dimension cpl h" and "i < length (points h)" and "k < rs_bytesSorted b - cpl"
  shows "i * cf_bytesPerDoc (rs_config b) + key_place (rs_config b) dimension cpl k < length (hp_block h)"
    and "hp_block h ! (i * cf_bytesPerDoc (rs_config b) + key_place (rs_config b) dimension cpl k) =
      points h ! i ! key_place (rs_config b) dimension cpl k"
proof -
  have i: "i < length (hp_block h) div cf_bytesPerDoc (rs_config b)"
    using assms(2) points_lengths(1) [OF assms(1)] by simp
  note k = key_place_less [OF assms(1,3)]
  show "i * cf_bytesPerDoc (rs_config b) + key_place (rs_config b) dimension cpl k < length (hp_block h)"
    using chunk_inside [OF i] k by simp
  show "hp_block h ! (i * cf_bytesPerDoc (rs_config b) + key_place (rs_config b) dimension cpl k) =
      points h ! i ! key_place (rs_config b) dimension cpl k"
    using nth_chunk [OF i k] points_okD(5) [OF assms(1)] by (simp add: points_def)
qed

lemma sorter_ByteAt_ok:
  assumes "points_ok b dimension cpl h" and "i < length (points h)" and "k < rs_bytesSorted b - cpl"
  shows "sorter_ByteAt (point_keys b dimension cpl) h i k = Some (int (point_byte b dimension cpl (points h ! i) k))"
proof -
  have cfg: "pk_config (point_keys b dimension cpl) = rs_config b"
    by (simp add: point_keys_def Let_def)
  have "int (i * cf_bytesPerDoc (rs_config b)) + (if int k < pk_dimCmpBytes (point_keys b dimension cpl)
      then pk_dimOffset (point_keys b dimension cpl) else pk_dataOffset (point_keys b dimension cpl)) + int k =
      int (i * cf_bytesPerDoc (rs_config b) + key_place (rs_config b) dimension cpl k)"
    using key_offset [OF assms(1), of k] by (simp only: of_nat_add add.assoc)
  then show ?thesis
    using block_byte [OF assms] unfolding sorter_ByteAt_def cfg
    by (simp only: int_index_int Option.bind.simps slice_get_in point_byte_def uint_nat)
qed

lemma selector_ByteAt_ok:
  assumes "points_ok b dimension cpl h" and "i < length (points h)" and "k < rs_bytesSorted b - cpl"
  shows "selector_ByteAt (point_keys b dimension cpl) h i k = Some (int (point_byte b dimension cpl (points h ! i) k))"
proof -
  have cfg: "pk_config (point_keys b dimension cpl) = rs_config b"
    by (simp add: point_keys_def Let_def)
  note at = block_byte [OF assms]
  have "int (i * cf_bytesPerDoc (rs_config b)) + (if int k < pk_dimCmpBytes (point_keys b dimension cpl)
      then pk_dimOffset (point_keys b dimension cpl) else pk_dataOffset (point_keys b dimension cpl)) + int k =
      int (i * cf_bytesPerDoc (rs_config b) + key_place (rs_config b) dimension cpl k)"
    using key_offset [OF assms(1), of k] by (simp only: of_nat_add add.assoc)
  then show ?thesis
    using at unfolding selector_ByteAt_def cfg
    by (cases "int k < pk_dimCmpBytes (point_keys b dimension cpl)")
      (simp_all only: if_True if_False int_index_int Option.bind.simps slice_get_in point_byte_def uint_nat not_le [symmetric] simp_thms)
qed

lemma Points_Swap_ok:
  assumes "points_ok b dimension cpl h" and "i < length (points h)" and "j < length (points h)"
  shows "\<exists>h'. Points_Swap h i j = Some h' \<and> points_ok b dimension cpl h' \<and> points h' = swapped (points h) i j"
proof -
  define n where "n = cf_bytesPerDoc (rs_config b)"
  define bs where "bs = hp_block h"
  have ij: "i < length bs div n" "j < length bs div n"
    using assms points_lengths(1) [OF assms(1)] by (simp_all add: n_def bs_def)
  have cfg: "hp_config h = rs_config b"
    using points_okD(5) [OF assms(1)] .
  have scratch: "copy_to (hp_scratch h) 0 (chunks n bs ! i) = Some (chunks n bs ! i)"
    using points_okD(6) [OF assms(1)] ij(1) by (subst copy_to_nat) (simp_all add: length_chunk write_block_all n_def)
  define bs1 where "bs1 = write_block bs (i * n) (chunks n bs ! j)"
  have bs1: "copy_to bs (i * n) (chunks n bs ! j) = Some bs1" "length bs1 = length bs" "chunks n bs1 = (chunks n bs)[i := chunks n bs ! j]"
    using chunk_inside [OF ij(1)] ij by (simp_all add: bs1_def copy_to_nat length_chunk chunks_write_block)
  define bs2 where "bs2 = write_block bs1 (j * n) (chunks n bs ! i)"
  have bs2: "copy_to bs1 (j * n) (chunks n bs ! i) = Some bs2" "chunks n bs2 = swapped (chunks n bs) i j"
    using chunk_inside [OF ij(2)] ij bs1(2,3) by (simp_all add: bs2_def copy_to_nat length_chunk chunks_write_block swapped_def)
  have "sub_slice (chunks n bs ! i) 0 (int n) = Some (chunks n bs ! i)"
    using length_chunk [OF ij(1)] sub_slice_nat [of 0 n "chunks n bs ! i"] by simp
  then have "Points_Swap h i j = Some (h\<lparr>hp_block := bs2, hp_scratch := chunks n bs ! i\<rparr>)"
    unfolding Points_Swap_def cfg n_def [symmetric] bs_def [symmetric]
    by (simp only: Let_def sub_slice_chunk ij scratch bs1(1) bs2(1) Option.bind.simps)
  moreover have "points_ok b dimension cpl (h\<lparr>hp_block := bs2, hp_scratch := chunks n bs ! i\<rparr>)"
    using assms(1) length_chunk [OF ij(1)] by (simp add: points_ok_def n_def)
  moreover have "points (h\<lparr>hp_block := bs2, hp_scratch := chunks n bs ! i\<rparr>) = swapped (points h) i j"
    using bs2(2) cfg by (simp add: points_def n_def bs_def)
  ultimately show ?thesis
    by blast
qed

interpretation select_points: radix_slots "points_ok b dimension cpl" points Points_Swap "selector_ByteAt (point_keys b dimension cpl)"
  "rs_bytesSorted b - cpl" "point_byte b dimension cpl"
proof
  show "point_byte b dimension cpl a k < 256" for a k
    by (simp add: point_byte_def unat_u8)
  show "0 < rs_bytesSorted b - cpl" if "points_ok b dimension cpl s" for s
    using points_okD(3) [OF that] by simp
qed (rule Points_Swap_ok selector_ByteAt_ok; assumption)+


subsection \<open>The order\<close>

definition point_key :: "RadixSelector \<Rightarrow> nat \<Rightarrow> nat \<Rightarrow> u8 list \<Rightarrow> u8 list" where
  "point_key b dimension cpl a = drop cpl (point_order (rs_config b) dimension a)"

abbreviation "point_le b dimension cpl \<equiv> radix_slots.key_le (rs_bytesSorted b - cpl) (point_byte b dimension cpl)"

lemma point_key_lengths:
  assumes "points_ok b dimension cpl h" and "length a = cf_bytesPerDoc (rs_config b)"
  shows "length (dim_bytes (rs_config b) dimension a) = cf_bytesPerDim (rs_config b)"
    and "length (data_bytes (rs_config b) a) = cf_bytesPerDoc (rs_config b) - cf_packedIndexBytesLength (rs_config b)"
  using config_sizes [OF points_okD(1,2) [OF assms(1)]] assms(2) by (simp_all add: dim_bytes_def data_bytes_def)

lemma length_point_order:
  assumes "points_ok b dimension cpl h" and "length a = cf_bytesPerDoc (rs_config b)"
  shows "length (point_order (rs_config b) dimension a) = rs_bytesSorted b"
  using point_key_lengths [OF assms] points_okD(4) [OF assms(1)] by (simp add: point_order_def)

lemma nth_point_key:
  assumes "points_ok b dimension cpl h" and "length a = cf_bytesPerDoc (rs_config b)" and "k < rs_bytesSorted b - cpl"
  shows "point_key b dimension cpl a ! k = a ! key_place (rs_config b) dimension cpl k"
proof -
  note len = point_key_lengths [OF assms(1,2)]
  note sizes = config_sizes [OF points_okD(1,2) [OF assms(1)]]
  have "point_key b dimension cpl a ! k = point_order (rs_config b) dimension a ! (cpl + k)"
    using length_point_order [OF assms(1,2)] assms(3) by (simp add: point_key_def)
  also have "\<dots> = a ! key_place (rs_config b) dimension cpl k"
    using len sizes(1,2,4) assms(2) by (simp add: point_order_def nth_append key_place_def dim_bytes_def data_bytes_def ac_simps)
  finally show ?thesis .
qed

lemma key_eq:
  assumes "points_ok b dimension cpl h" and "length a = cf_bytesPerDoc (rs_config b)"
  shows "radix_slots.key (rs_bytesSorted b - cpl) (point_byte b dimension cpl) 0 a = map unat (point_key b dimension cpl a)"
proof (rule nth_equalityI)
  have len: "length (point_key b dimension cpl a) = rs_bytesSorted b - cpl"
    using length_point_order [OF assms] by (simp add: point_key_def)
  then show "length (radix_slots.key (rs_bytesSorted b - cpl) (point_byte b dimension cpl) 0 a) = length (map unat (point_key b dimension cpl a))"
    by (simp add: select_points.key_def)
  fix k assume "k < length (radix_slots.key (rs_bytesSorted b - cpl) (point_byte b dimension cpl) 0 a)"
  then have "k < rs_bytesSorted b - cpl"
    by (simp add: select_points.key_def)
  then show "radix_slots.key (rs_bytesSorted b - cpl) (point_byte b dimension cpl) 0 a ! k = map unat (point_key b dimension cpl a) ! k"
    using len nth_point_key [OF assms] by (simp add: select_points.key_def point_byte_def)
qed

lemma point_le_iff:
  assumes "points_ok b dimension cpl h" and "i < length (points h)" and "j < length (points h)"
  shows "point_le b dimension cpl 0 (points h ! i) (points h ! j) \<longleftrightarrow>
    point_key b dimension cpl (points h ! i) \<le> point_key b dimension cpl (points h ! j)"
  using assms by (simp add: select_points.key_le_def key_eq points_lengths(2) unat_list_le)

subsection \<open>Comparing\<close>

text \<open>The sorter compares what is behind the prefix in the dimension: the prefix must not go beyond it.\<close>

definition sort_ok :: "RadixSelector \<Rightarrow> nat \<Rightarrow> nat \<Rightarrow> HeapPointWriter \<Rightarrow> bool" where
  "sort_ok b dimension cpl h \<longleftrightarrow> points_ok b dimension cpl h \<and> cpl \<le> cf_bytesPerDim (rs_config b)"

lemma sorter_Value_ok:
  assumes "points_ok b dimension cpl h" and "cpl \<le> cf_bytesPerDim (rs_config b)" and "i < length (points h)"
  shows "sorter_Value (point_keys b dimension cpl) h i = Some (drop cpl (dim_bytes (rs_config b) dimension (points h ! i)))"
proof -
  define n c where "n = cf_bytesPerDoc (rs_config b)" and "c = rs_config b"
  note sizes = config_sizes [OF points_okD(1,2) [OF assms(1)]]
  have cfg: "hp_config h = c"
    using points_okD(5) [OF assms(1)] by (simp add: c_def)
  have i: "i < length (hp_block h) div n"
    using assms(3) points_lengths(1) [OF assms(1)] by (simp add: n_def)
  define m where "m = cf_bytesPerDim c - cpl"
  have m: "cf_bytesPerDim c = cpl + m"
    using assms(2) by (simp add: m_def c_def)
  have "sub_slice (hp_block h) (int (i * n + (dimension * cf_bytesPerDim c + cpl))) (int (i * n + (dimension * cf_bytesPerDim c + cpl) + m)) =
      Some (take m (drop (dimension * cf_bytesPerDim c + cpl) (chunks n (hp_block h) ! i)))"
    using sizes m by (intro sub_slice_inside [OF i]) (simp add: n_def c_def)
  moreover have "take m (drop (dimension * cf_bytesPerDim c + cpl) a) = drop cpl (dim_bytes c dimension a)" for a :: "u8 list"
    using m by (simp add: dim_bytes_def drop_take ac_simps)
  moreover have "int (i * cf_bytesPerDoc (pk_config (point_keys b dimension cpl))) + pk_dimOffset (point_keys b dimension cpl) =
      int (i * n + (dimension * cf_bytesPerDim c + cpl))"
    by (simp add: point_keys_def Let_def n_def c_def)
  moreover have "pk_dimCmpBytes (point_keys b dimension cpl) = int m"
    using m by (simp add: point_keys_def Let_def c_def)
  ultimately show ?thesis
    using cfg by (simp add: sorter_Value_def points_def n_def c_def)
qed

lemma slice_parts_ok:
  assumes "points_ok b dimension cpl h" and "i < length (points h)"
  defines "c \<equiv> rs_config b"
  shows "PackedValue (GetPackedValueSlice h i) = Some (take (cf_packedBytesLength c) (points h ! i))"
    and "sub_slice (take (cf_packedBytesLength c) (points h ! i)) (int (cf_numIndexDims c * cf_bytesPerDim c)) (int (cf_packedBytesLength c)) =
      Some (take (cf_packedBytesLength c - cf_packedIndexBytesLength c) (data_bytes c (points h ! i)))"
    and "DocID (GetPackedValueSlice h i) = Some (unat (get_uint (drop (cf_packedBytesLength c) (points h ! i)) :: u32))"
proof -
  note ok = points_okD(1,2) [OF assms(1), folded c_def]
  note sizes = config_sizes [OF ok]
  define n where "n = cf_bytesPerDoc c"
  have cfg: "hp_config h = c"
    using points_okD(5) [OF assms(1)] by (simp add: c_def)
  have i: "i < length (hp_block h) div n"
    using assms(2) points_lengths(1) [OF assms(1)] by (simp add: n_def c_def)
  have pt: "points h ! i = chunks n (hp_block h) ! i" "length (points h ! i) = n"
    using cfg points_lengths(2) [OF assms(1,2)] by (simp_all add: points_def n_def c_def)
  have m: "cf_packedBytesLength c \<le> n"
    using sizes(4) by (simp add: n_def)
  show "PackedValue (GetPackedValueSlice h i) = Some (take (cf_packedBytesLength c) (points h ! i))"
    using sub_slice_inside [OF i, of 0 "cf_packedBytesLength c"] m pt(1) cfg
    by (simp add: PackedValue_def GetPackedValueSlice_def n_def)
  have idx: "cf_numIndexDims c * cf_bytesPerDim c = cf_packedIndexBytesLength c"
    using ok(1) by (simp add: valid_config_def)
  show "sub_slice (take (cf_packedBytesLength c) (points h ! i)) (int (cf_numIndexDims c * cf_bytesPerDim c)) (int (cf_packedBytesLength c)) =
      Some (take (cf_packedBytesLength c - cf_packedIndexBytesLength c) (data_bytes c (points h ! i)))"
    using sub_slice_nat [of "cf_packedIndexBytesLength c" "cf_packedBytesLength c - cf_packedIndexBytesLength c"
        "take (cf_packedBytesLength c) (points h ! i)"] sizes(2) m pt(2) unfolding idx
    by (simp add: data_bytes_def drop_take)
  have "i * n + n \<le> length (hp_block h)"
    using chunk_inside [OF i] .
  then have 1: "sub_slice (hp_block h) (int (i * n + cf_packedBytesLength c)) (int (length (hp_block h))) =
      Some (drop (i * n + cf_packedBytesLength c) (hp_block h))"
    using sub_slice_nat [of "i * n + cf_packedBytesLength c" "length (hp_block h) - (i * n + cf_packedBytesLength c)" "hp_block h"] m by simp
  have "length (drop (i * n + cf_packedBytesLength c) (hp_block h)) \<ge> 4"
    using chunk_inside [OF i] sizes(4) by (simp add: n_def)
  then have 2: "sub_slice (drop (i * n + cf_packedBytesLength c) (hp_block h)) 0 4 = Some (take 4 (drop (i * n + cf_packedBytesLength c) (hp_block h)))"
    using sub_slice_nat [of 0 4 "drop (i * n + cf_packedBytesLength c) (hp_block h)"] by simp
  have "take 4 (drop (i * n + cf_packedBytesLength c) (hp_block h)) = drop (cf_packedBytesLength c) (points h ! i)"
    using i sizes(4) by (simp add: pt(1) nth_chunks drop_take n_def ac_simps)
  then show "DocID (GetPackedValueSlice h i) = Some (unat (get_uint (drop (cf_packedBytesLength c) (points h ! i)) :: u32))"
    using 1 2 cfg by (simp add: DocID_def GetPackedValueSlice_def n_def)
qed

lemma sorter_Compare_ok:
  assumes "sort_ok b dimension cpl h" and "i < length (points h)" and "j < length (points h)" and "skip \<le> rs_bytesSorted b - cpl"
    and agree: "\<And>m. m < skip \<Longrightarrow> point_byte b dimension cpl (points h ! i) m = point_byte b dimension cpl (points h ! j) m"
  shows "\<exists>r. sorter_Compare (point_keys b dimension cpl) h i j skip = Some r \<and>
    (r < 0 \<longleftrightarrow> \<not> point_le b dimension cpl 0 (points h ! j) (points h ! i))"
proof -
  have ok: "points_ok b dimension cpl h" and cpl: "cpl \<le> cf_bytesPerDim (rs_config b)"
    using assms(1) by (simp_all add: sort_ok_def)
  define c where "c = rs_config b"
  define vi vj where "vi = drop cpl (dim_bytes c dimension (points h ! i))" and "vj = drop cpl (dim_bytes c dimension (points h ! j))"
  define q where "q = cf_packedBytesLength c - cf_packedIndexBytesLength c"
  define di dj where "di = take q (data_bytes c (points h ! i))" and "dj = take q (data_bytes c (points h ! j))"
  define xi xj where "xi = drop (cf_packedBytesLength c) (points h ! i)" and "xj = drop (cf_packedBytesLength c) (points h ! j)"
  note sizes = config_sizes [OF points_okD(1,2) [OF ok], folded c_def]
  note leni = points_lengths(2) [OF ok assms(2), folded c_def] and lenj = points_lengths(2) [OF ok assms(3), folded c_def]
  note keyi = point_key_lengths [OF ok leni [unfolded c_def], folded c_def]
    and keyj = point_key_lengths [OF ok lenj [unfolded c_def], folded c_def]
  have split: "data_bytes c a = take q (data_bytes c a) @ drop (cf_packedBytesLength c) a" for a
    using sizes(2) by (metis append_take_drop_id data_bytes_def drop_drop le_add_diff_inverse2 q_def)
  have key: "point_key b dimension cpl (points h ! i) = vi @ di @ xi" "point_key b dimension cpl (points h ! j) = vj @ dj @ xj"
    using cpl keyi(1) keyj(1) split [of "points h ! i"] split [of "points h ! j"]
    by (simp_all add: point_key_def point_order_def vi_def di_def xi_def vj_def dj_def xj_def flip: c_def)
  have len: "length vi = length vj" "length di = length dj" "length xi = 4" "length xj = 4"
    using keyi keyj leni lenj sizes(2,4) by (simp_all add: vi_def vj_def di_def dj_def xi_def xj_def)
  have less: "\<not> point_le b dimension cpl 0 (points h ! j) (points h ! i) \<longleftrightarrow> vi < vj \<or> vi = vj \<and> (di < dj \<or> di = dj \<and> xi < xj)"
    using point_le_iff [OF ok assms(3,2)] len(1,2) by (simp add: key not_le append_less)
  have same: "vi ! m = vj ! m" if "m < skip" "m < length vi" for m
  proof -
    have "m < rs_bytesSorted b - cpl"
      using assms(4) that(1) by simp
    then have "point_key b dimension cpl (points h ! i) ! m = point_key b dimension cpl (points h ! j) ! m"
      using nth_point_key [OF ok leni [unfolded c_def]] nth_point_key [OF ok lenj [unfolded c_def]] agree [OF that(1)]
      by (simp add: point_byte_def word_unat_eq_iff)
    then show ?thesis
      using that(2) len(1) by (simp add: key nth_append)
  qed
  let ?cmp = "if skip < length vi \<and> skip \<le> length vj then bytes_Compare (drop skip vi) (drop skip vj) else 0"
  have cmp: "?cmp < 0 \<longleftrightarrow> vi < vj" "?cmp = 0 \<longleftrightarrow> vi = vj"
  proof -
    have take: "take skip vi = take skip vj"
      using same len(1) by (intro nth_equalityI) simp_all
    have eq: "vi < vj \<longleftrightarrow> drop skip vi < drop skip vj"
    proof -
      have "take skip vi @ drop skip vi < take skip vj @ drop skip vj \<longleftrightarrow> drop skip vi < drop skip vj"
        by (simp only: take append_less) simp
      then show ?thesis
        by (simp only: append_take_drop_id)
    qed
    have eq2: "vi = vj \<longleftrightarrow> drop skip vi = drop skip vj"
      by (metis append_take_drop_id take)
    show "?cmp < 0 \<longleftrightarrow> vi < vj" "?cmp = 0 \<longleftrightarrow> vi = vj"
      using len(1) by (auto simp: eq eq2)
  qed
  note cfg = refl [of "pk_config (point_keys b dimension cpl)", unfolded point_keys_def Let_def PointKeys.simps]
  have pk: "pk_config (point_keys b dimension cpl) = c"
    by (simp add: point_keys_def Let_def c_def)
  note vals = sorter_Value_ok [OF ok cpl assms(2), folded c_def, folded vi_def] sorter_Value_ok [OF ok cpl assms(3), folded c_def, folded vj_def]
  note parts = slice_parts_ok [OF ok assms(2), folded c_def, folded q_def, folded di_def xi_def]
    slice_parts_ok [OF ok assms(3), folded c_def, folded q_def, folded dj_def xj_def]
  have eq: "sorter_Compare (point_keys b dimension cpl) h i j skip =
    (if ?cmp \<noteq> 0 then Some ?cmp
     else if bytes_Compare di dj \<noteq> 0 then Some (bytes_Compare di dj)
     else Some (if unat (get_uint xi :: u32) > unat (get_uint xj :: u32) then 1
       else if unat (get_uint xi :: u32) < unat (get_uint xj :: u32) then - 1 else 0))"
    unfolding sorter_Compare_def pk vals Option.bind.simps Let_def parts ..
  show ?thesis
    unfolding eq using cmp less docID_less [OF len(3,4)] by auto
qed

lemma sort_ok_laws:
  assumes "sort_ok b dimension cpl h"
  shows "0 < rs_bytesSorted b - cpl"
    and "i < length (points h) \<Longrightarrow> j < length (points h) \<Longrightarrow>
      \<exists>h'. Points_Swap h i j = Some h' \<and> sort_ok b dimension cpl h' \<and> points h' = swapped (points h) i j"
    and "i < length (points h) \<Longrightarrow> k < rs_bytesSorted b - cpl \<Longrightarrow>
      sorter_ByteAt (point_keys b dimension cpl) h i k = Some (int (point_byte b dimension cpl (points h ! i) k))"
  using assms points_okD(3) Points_Swap_ok sorter_ByteAt_ok by (fastforce simp: sort_ok_def)+

interpretation sort_points: msb_slots "sort_ok b dimension cpl" points Points_Swap "sorter_ByteAt (point_keys b dimension cpl)"
  "rs_bytesSorted b - cpl" "point_byte b dimension cpl" "sorter_Compare (point_keys b dimension cpl)"
proof
  show "point_byte b dimension cpl a k < 256" for a k
    by (simp add: point_byte_def unat_u8)
qed (rule sort_ok_laws sorter_Compare_ok; assumption)+

end
