(* ===== verification/Heap_Points_Correct.thy ===== *)
theory Heap_Points_Correct
  imports Heap_Points_Order Data_IO_Correct
begin

text \<open>
  Points in memory: selecting, sorting, dividing, counting and reading them.
\<close>

subsection \<open>Selecting and sorting\<close>

text \<open>
  The points of a writer for the configuration, and the order they are sorted by: a dimension, then the data
  dimensions and the document. \<open>shared\<close>: the points in a range have the first \<open>cpl\<close> of these
  bytes in common; up to \<open>bytesPerDim\<close> they are bytes of the dimension.
\<close>

definition writer_of :: "Config \<Rightarrow> HeapPointWriter \<Rightarrow> bool" where
  "writer_of c h \<longleftrightarrow> hp_config h = c \<and> length (hp_scratch h) = cf_bytesPerDoc c"

definition shared :: "Config \<Rightarrow> nat \<Rightarrow> nat \<Rightarrow> nat \<Rightarrow> nat \<Rightarrow> u8 list list \<Rightarrow> bool" where
  "shared c dimension cpl lo hi ps \<longleftrightarrow>
     (\<forall>i. lo \<le> i \<and> i < hi \<longrightarrow> take cpl (point_order c dimension (ps ! i)) = take cpl (point_order c dimension (ps ! lo)))"

lemma points_okI:
  assumes "valid_config c" and "writer_of c h" and "dimension < cf_numDims c" and "cpl < rs_bytesSorted (NewRadixSelector c m)"
  shows "points_ok (NewRadixSelector c m) dimension cpl h"
  using assms by (simp add: points_ok_def writer_of_def NewRadixSelector_def Let_def INTEGER_BYTES_def)

lemma inside_dimension: "cpl \<le> cf_bytesPerDim c \<Longrightarrow> cpl < rs_bytesSorted (NewRadixSelector c m)"
  by (simp add: NewRadixSelector_def Let_def INTEGER_BYTES_def)

lemma points_ok_writer: "points_ok b dimension cpl h \<Longrightarrow> writer_of (rs_config b) h"
  by (simp add: points_ok_def writer_of_def)

lemma shared_rearranged:
  assumes "shared c dimension cpl lo hi ps" and "rearranged lo hi ps qs" and "hi \<le> length ps"
    and "lo \<le> i" "i < hi" "lo \<le> j" "j < hi"
  shows "take cpl (point_order c dimension (qs ! i)) = take cpl (point_order c dimension (qs ! j))"
proof -
  have start: "take cpl (point_order c dimension (ps ! i)) = take cpl (point_order c dimension (ps ! lo))" if "lo \<le> i" "i < hi" for i
    using assms(1) that unfolding shared_def by blast
  have all: "take cpl (point_order c dimension (qs ! i)) = take cpl (point_order c dimension (ps ! lo))" if "lo \<le> i" "i < hi" for i
    by (rule rearranged_all [OF assms(2,3), of "\<lambda>a. take cpl (point_order c dimension a) = take cpl (point_order c dimension (ps ! lo))", OF start that])
  show ?thesis
    by (rule trans [OF all [OF assms(4,5)] sym [OF all [OF assms(6,7)]]])
qed

lemma point_order_le:
  assumes ok: "points_ok b dimension cpl h'" and len: "length (points h') = length (points h)" and "hi \<le> length (points h)"
    and sh: "shared (rs_config b) dimension cpl lo hi (points h)" and r: "rearranged lo hi (points h) (points h')"
    and "lo \<le> i" "i < hi" "lo \<le> j" "j < hi"
  shows "point_le b dimension cpl 0 (points h' ! i) (points h' ! j) \<longleftrightarrow>
    point_order (rs_config b) dimension (points h' ! i) \<le> point_order (rs_config b) dimension (points h' ! j)"
proof -
  let ?o = "point_order (rs_config b) dimension"
  have ij: "i < length (points h')" "j < length (points h')"
    using assms by simp_all
  have same: "take cpl (?o (points h' ! i)) = take cpl (?o (points h' ! j))"
    using shared_rearranged [OF sh r assms(3,6-9)] .
  have "?o (points h' ! i) \<le> ?o (points h' ! j) \<longleftrightarrow>
      take cpl (?o (points h' ! i)) @ drop cpl (?o (points h' ! i)) \<le> take cpl (?o (points h' ! j)) @ drop cpl (?o (points h' ! j))"
    by (simp only: append_take_drop_id)
  also have "\<dots> \<longleftrightarrow> drop cpl (?o (points h' ! i)) \<le> drop cpl (?o (points h' ! j))"
    unfolding same by (simp add: append_le del: append_take_drop_id)
  finally show ?thesis
    unfolding point_le_iff [OF ok ij] point_key_def by (rule sym)
qed

lemma shared_dimension:
  assumes "take cpl (point_order c dimension p) = take cpl (point_order c dimension q)" and "cpl \<le> cf_bytesPerDim c"
    and "length (dim_bytes c dimension p) = cf_bytesPerDim c" "length (dim_bytes c dimension q) = cf_bytesPerDim c"
  shows "take cpl (dim_bytes c dimension p) = take cpl (dim_bytes c dimension q)"
  using assms by (simp add: point_order_def)

lemma dim_value_ok:
  assumes "points_ok b dimension cpl h" and "i < length (points h)"
  shows "do { packedValue \<leftarrow> PackedValue (GetPackedValueSlice h i); v \<leftarrow> getDimValues b packedValue dimension;
      v \<leftarrow> sub_slice v 0 (int (cf_bytesPerDim (rs_config b))); Some (v, h) } = Some (dim_bytes (rs_config b) dimension (points h ! i), h)"
proof -
  define c where "c = rs_config b"
  note sizes = config_sizes [OF points_okD(1,2) [OF assms(1)], folded c_def]
  note len = points_lengths(2) [OF assms, folded c_def]
  define v where "v = dim_bytes c dimension (points h ! i)"
  have "take (cf_bytesPerDim c) (drop (dimension * cf_bytesPerDim c) (take (cf_packedBytesLength c) (points h ! i))) = v"
    using sizes(1,2) by (simp add: v_def dim_bytes_def drop_take min_absorb1)
  then have "sub_slice (take (cf_packedBytesLength c) (points h ! i)) (int (dimension * cf_bytesPerDim c)) (int (dimension * cf_bytesPerDim c + cf_bytesPerDim c)) = Some v"
    using sub_slice_nat [of "dimension * cf_bytesPerDim c" "cf_bytesPerDim c" "take (cf_packedBytesLength c) (points h ! i)"] sizes(1,2,4) len by simp
  then have 1: "getDimValues b (take (cf_packedBytesLength c) (points h ! i)) dimension = Some v"
    by (simp add: getDimValues_def Let_def c_def)
  have "length v = cf_bytesPerDim c"
    using sizes(1,2,4) len by (simp add: v_def dim_bytes_def)
  then have "sub_slice v 0 (int (cf_bytesPerDim c)) = Some v"
    using sub_slice_nat [of 0 "cf_bytesPerDim c" v] by simp
  then show ?thesis
    using slice_parts_ok(1) [OF assms] 1 by (simp add: c_def v_def)
qed

lemma bytesSorted_index:
  assumes "points_ok b dimension cpl h"
  shows "int_index (int (rs_bytesSorted b) - int cpl) = Some (rs_bytesSorted b - cpl)"
proof -
  have "cpl \<le> rs_bytesSorted b"
    using points_okD(3) [OF assms] by simp
  then have "int (rs_bytesSorted b) - int cpl = int (rs_bytesSorted b - cpl)"
    by simp
  then show ?thesis
    by (simp only: int_index_int)
qed

lemma heapRadixSelect_ok:
  assumes ok: "points_ok b dimension cpl h" and k: "lo \<le> k" "k < hi" and hi: "hi \<le> length (points h)"
    and sh: "shared (rs_config b) dimension cpl lo hi (points h)"
  shows "\<exists>h'. heapRadixSelect b h dimension lo hi k cpl = Some (dim_bytes (rs_config b) dimension (points h' ! k), h') \<and>
    points_ok b dimension cpl h' \<and> rearranged lo hi (points h) (points h') \<and>
    selected (\<lambda>p q. point_order (rs_config b) dimension p \<le> point_order (rs_config b) dimension q) lo hi k (points h')"
proof -
  obtain h' where h': "radix_SelectK (selector_ByteAt (point_keys b dimension cpl)) Points_Swap (rs_bytesSorted b - cpl) h lo hi k = Some h'"
    "select_points.stepped b dimension cpl lo hi h h'" "selected (point_le b dimension cpl 0) lo hi k (points h')"
    using select_points.radix_SelectK_ok [OF ok k hi] by blast
  have ok': "points_ok b dimension cpl h'" and r: "rearranged lo hi (points h) (points h')"
    using h'(2) by (simp_all add: select_points.stepped_def)
  have len: "length (points h') = length (points h)"
    using rearranged_length [OF r] .
  note le = point_order_le [OF ok' len hi sh r]
  have "selected (\<lambda>p q. point_order (rs_config b) dimension p \<le> point_order (rs_config b) dimension q) lo hi k (points h')"
    using h'(3) le k unfolding selected_def by simp
  moreover have "heapRadixSelect b h dimension lo hi k cpl = Some (dim_bytes (rs_config b) dimension (points h' ! k), h')"
    unfolding heapRadixSelect_def bytesSorted_index [OF ok] Option.bind.simps h'(1)
    by (rule dim_value_ok [OF ok']) (use k hi len in simp)
  ultimately show ?thesis
    using ok' r by blast
qed

lemma HeapRadixSort_ok:
  assumes sort: "sort_ok b dimension cpl h" and hi: "hi \<le> length (points h)" and sh: "shared (rs_config b) dimension cpl lo hi (points h)"
  shows "\<exists>h'. HeapRadixSort b h lo hi dimension cpl = Some h' \<and> points_ok b dimension cpl h' \<and> rearranged lo hi (points h) (points h') \<and>
    sorted_part (\<lambda>p q. point_order (rs_config b) dimension p \<le> point_order (rs_config b) dimension q) lo hi (points h')"
proof -
  have ok: "points_ok b dimension cpl h"
    using sort by (simp add: sort_ok_def)
  obtain h' where h': "msb_Sort (sorter_Compare (point_keys b dimension cpl)) Points_Swap (sorter_ByteAt (point_keys b dimension cpl))
      (rs_bytesSorted b - cpl) h lo hi = Some h'"
    "sort_points.stepped b dimension cpl lo hi h h'" "sorted_part (point_le b dimension cpl 0) lo hi (points h')"
    using sort_points.msb_Sort_ok [OF sort hi] by blast
  have ok': "points_ok b dimension cpl h'" and r: "rearranged lo hi (points h) (points h')"
    using h'(2) by (simp_all add: sort_points.stepped_def sort_ok_def)
  have len: "length (points h') = length (points h)"
    using rearranged_length [OF r] .
  note le = point_order_le [OF ok' len hi sh r]
  have "sorted_part (\<lambda>p q. point_order (rs_config b) dimension p \<le> point_order (rs_config b) dimension q) lo hi (points h')"
    using h'(3) le unfolding sorted_part_def by simp
  moreover have "HeapRadixSort b h lo hi dimension cpl = Some h'"
    unfolding HeapRadixSort_def bytesSorted_index [OF ok] Option.bind.simps Let_def by (rule h'(1))
  ultimately show ?thesis
    using ok' r by blast
qed

text \<open>
  C34. \<open>RadixSelector.Select\<close> on points in memory splits a node: for a valid configuration and a prefix the
  points have in common, it returns the value of the dimension at the partition point and the two parts; the
  points are the same in another order, those outside of the range are not moved, and none before the
  partition point is greater, none behind it smaller, than the point there. With the partition point out of
  the range nothing is moved and an error is returned.
\<close>

theorem select_splits:
  assumes "NewConfig dims index_dims bytes leaf = Inr c" and "writer_of c h" and "dimension < cf_numDims c" and "cpl \<le> cf_bytesPerDim c"
    and "hi \<le> length (points h)" and "shared c dimension cpl lo hi (points h)"
  shows "(lo \<le> k \<and> k < hi \<longrightarrow> (\<exists>h'.
      Select (NewRadixSelector c m) h lo hi k dimension cpl =
        Some (Inr (dim_bytes c dimension (points h' ! k), \<lparr>ps_start = lo, ps_count = k - lo\<rparr>, \<lparr>ps_start = k, ps_count = hi - k\<rparr>), h') \<and>
      writer_of c h' \<and> rearranged lo hi (points h) (points h') \<and>
      (\<forall>i. lo \<le> i \<and> i < k \<longrightarrow> point_order c dimension (points h' ! i) \<le> point_order c dimension (points h' ! k)) \<and>
      (\<forall>i. k < i \<and> i < hi \<longrightarrow> point_order c dimension (points h' ! k) \<le> point_order c dimension (points h' ! i)))) \<and>
    (k < lo \<or> hi \<le> k \<longrightarrow> (\<exists>e. Select (NewRadixSelector c m) h lo hi k dimension cpl = Some (Inl e, h)))"
proof (intro conjI impI)
  let ?b = "NewRadixSelector c m"
  have cfg: "rs_config ?b = c"
    by (simp add: NewRadixSelector_def Let_def)
  have ok: "points_ok ?b dimension cpl h"
    using NewConfig_valid [OF assms(1)] assms(2,3) inside_dimension [OF assms(4)] by (rule points_okI)
  assume k: "lo \<le> k \<and> k < hi"
  then obtain h' where h': "heapRadixSelect ?b h dimension lo hi k cpl = Some (dim_bytes c dimension (points h' ! k), h')"
    "points_ok ?b dimension cpl h'" "rearranged lo hi (points h) (points h')"
    "selected (\<lambda>p q. point_order c dimension p \<le> point_order c dimension q) lo hi k (points h')"
    using heapRadixSelect_ok [OF ok _ _ assms(5)] assms(6) unfolding cfg by blast
  have "checkArgs lo hi k = Inr ()"
    using k by (simp add: checkArgs_def)
  then have "Select ?b h lo hi k dimension cpl =
      Some (Inr (dim_bytes c dimension (points h' ! k), \<lparr>ps_start = lo, ps_count = k - lo\<rparr>, \<lparr>ps_start = k, ps_count = hi - k\<rparr>), h')"
    using h'(1) by (simp add: Select_def)
  then show "\<exists>h'. Select ?b h lo hi k dimension cpl =
        Some (Inr (dim_bytes c dimension (points h' ! k), \<lparr>ps_start = lo, ps_count = k - lo\<rparr>, \<lparr>ps_start = k, ps_count = hi - k\<rparr>), h') \<and>
      writer_of c h' \<and> rearranged lo hi (points h) (points h') \<and>
      (\<forall>i. lo \<le> i \<and> i < k \<longrightarrow> point_order c dimension (points h' ! i) \<le> point_order c dimension (points h' ! k)) \<and>
      (\<forall>i. k < i \<and> i < hi \<longrightarrow> point_order c dimension (points h' ! k) \<le> point_order c dimension (points h' ! i))"
    using h'(2-4) points_ok_writer [OF h'(2)] unfolding cfg selected_def by blast
next
  assume "k < lo \<or> hi \<le> k"
  then show "\<exists>e. Select (NewRadixSelector c m) h lo hi k dimension cpl = Some (Inl e, h)"
    by (auto simp: Select_def checkArgs_def)
qed

text \<open>
  C35. \<open>HeapRadixSort\<close> sorts the points of a leaf by a dimension, then by the data dimensions and the
  document, whatever number of points and of bytes: the points in the range are the same in another order,
  and sorted, and the others are not moved.
\<close>

theorem heap_radix_sort_sorts:
  assumes "NewConfig dims index_dims bytes leaf = Inr c" and "writer_of c h" and "dimension < cf_numDims c" and "cpl \<le> cf_bytesPerDim c"
    and "hi \<le> length (points h)" and "shared c dimension cpl lo hi (points h)"
  shows "\<exists>h'. HeapRadixSort (NewRadixSelector c m) h lo hi dimension cpl = Some h' \<and> writer_of c h' \<and>
    rearranged lo hi (points h) (points h') \<and>
    (\<forall>i j. lo \<le> i \<and> i < j \<and> j < hi \<longrightarrow> point_order c dimension (points h' ! i) \<le> point_order c dimension (points h' ! j))"
proof -
  let ?b = "NewRadixSelector c m"
  have cfg: "rs_config ?b = c"
    by (simp add: NewRadixSelector_def Let_def)
  have ok: "sort_ok ?b dimension cpl h"
    using points_okI [OF NewConfig_valid [OF assms(1)] assms(2,3) inside_dimension [OF assms(4)]] assms(4) by (simp add: sort_ok_def cfg)
  show ?thesis
    using HeapRadixSort_ok [OF ok assms(5)] assms(6) points_ok_writer [of ?b] unfolding cfg sorted_part_def by metis
qed


subsection \<open>Writing and reading points\<close>

text \<open>The points a writer holds: those written so far, at the start of its block.\<close>

definition holds_points :: "Config \<Rightarrow> HeapPointWriter \<Rightarrow> u8 list list \<Rightarrow> bool" where
  "holds_points c h ps \<longleftrightarrow> writer_of c h \<and> hp_nextWrite h = length ps \<and> length ps \<le> length (points h) \<and> take (length ps) (points h) = ps"

definition point_bytes :: "u8 list \<Rightarrow> u64 \<Rightarrow> u8 list" where
  "point_bytes val doc = val @ put_uint 4 (ucast doc :: u32)"

lemma NewHeapPointWriter_holds:
  assumes "valid_config c"
  shows "holds_points c (NewHeapPointWriter c n) []" and "length (points (NewHeapPointWriter c n)) = n"
  using assms by (simp_all add: holds_points_def writer_of_def NewHeapPointWriter_def points_def valid_config_def)

lemma points_update: "points (h\<lparr>hp_nextWrite := n\<rparr>) = points h"
  by (simp add: points_def)

lemma holds_append:
  assumes "holds_points c h ps" and "length ps < length (points h)" and "length p = cf_bytesPerDoc c"
  defines "h' \<equiv> h\<lparr>hp_block := write_block (hp_block h) (length ps * cf_bytesPerDoc c) p, hp_nextWrite := hp_nextWrite h + 1\<rparr>"
  shows "holds_points c h' (ps @ [p])" and "length (points h') = length (points h)"
proof -
  have cfg: "hp_config h = c"
    using assms(1) by (simp add: holds_points_def writer_of_def)
  have i: "length ps < length (hp_block h) div cf_bytesPerDoc c"
    using assms(2) cfg by (simp add: points_def)
  have pts: "points h' = (points h)[length ps := p]"
    using chunks_write_block [OF i assms(3)] cfg by (simp add: points_def h'_def)
  then show len: "length (points h') = length (points h)"
    by simp
  have "take (length ps + 1) (points h') = ps @ [p]"
    using assms(1,2) unfolding pts by (simp add: take_Suc_conv_app_nth holds_points_def)
  then show "holds_points c h' (ps @ [p])"
    using assms(1,2) len by (simp add: holds_points_def writer_of_def h'_def)
qed

lemma Append_ok:
  assumes "valid_config c" and "holds_points c h ps" and "length ps < length (points h)" and "length val = cf_packedBytesLength c"
  shows "\<exists>h'. Append h val doc = Some h' \<and> holds_points c h' (ps @ [point_bytes val doc]) \<and> length (points h') = length (points h)"
proof -
  define n m bs i where "n = cf_bytesPerDoc c" and "m = cf_packedBytesLength c" and "bs = hp_block h" and "i = length ps"
  have cfg: "hp_config h = c" "hp_nextWrite h = i"
    using assms(2) by (simp_all add: holds_points_def writer_of_def i_def)
  have n: "n = m + 4"
    using assms(1) by (simp add: valid_config_def n_def m_def)
  have inside: "i * n + n \<le> length bs"
    using assms(3) cfg by (intro chunk_inside) (simp add: points_def n_def bs_def i_def)
  have 1: "sub_slice val 0 (int m) = Some val"
    using sub_slice_nat [of 0 m val] assms(4) by (simp add: m_def)
  have 2: "copy_to bs (i * n) val = Some (write_block bs (i * n) val)"
    using inside n assms(4) by (intro copy_to_nat) (simp add: m_def)
  have len: "length (write_block bs (i * n) val) = length bs"
    using inside n assms(4) by (simp add: m_def)
  have 3: "copy_into (write_block bs (i * n) val) (int (i * n + m)) (int (i * n + m + 4)) (put_uint 4 (ucast doc :: u32)) =
      Some (write_block (write_block bs (i * n) val) (i * n + m) (put_uint 4 (ucast doc :: u32)))"
    using copy_into_nat [of "i * n + m" "put_uint 4 (ucast doc :: u32)" "write_block bs (i * n) val"] inside n len by simp
  have 4: "write_block (write_block bs (i * n) val) (i * n + m) (put_uint 4 (ucast doc :: u32)) = write_block bs (i * n) (point_bytes val doc)"
    using write_block_append [of "i * n" val "put_uint 4 (ucast doc :: u32)" bs] inside n assms(4) by (simp add: m_def point_bytes_def)
  have "Append h val doc = Some (h\<lparr>hp_block := write_block bs (i * n) (point_bytes val doc), hp_nextWrite := i + 1\<rparr>)"
    unfolding Append_def cfg Let_def n_def [symmetric] m_def [symmetric] bs_def [symmetric] by (simp only: 1 2 3 4 Option.bind.simps)
  moreover have "length (point_bytes val doc) = cf_bytesPerDoc c"
    using assms(4) n by (simp add: point_bytes_def n_def m_def)
  ultimately show ?thesis
    using holds_append [OF assms(2,3)] cfg(2) by (simp add: bs_def i_def n_def)
qed

lemma AppendPoint_ok:
  assumes "holds_points c h ps" and "length ps < length (points h)"
    and "PackedValueDocIDBytes v = Some p" and "length p = cf_bytesPerDoc c"
  shows "\<exists>h'. AppendPoint h v = Some h' \<and> holds_points c h' (ps @ [p]) \<and> length (points h') = length (points h)"
proof -
  have cfg: "hp_config h = c" "hp_nextWrite h = length ps"
    using assms(1) by (simp_all add: holds_points_def writer_of_def)
  have inside: "length ps * cf_bytesPerDoc c + length p \<le> length (hp_block h)"
    using assms(2) cfg unfolding assms(4) by (intro chunk_inside) (simp add: points_def)
  have "sub_slice p 0 (int (cf_bytesPerDoc c)) = Some p"
    using sub_slice_nat [of 0 "length p" p] assms(4) by simp
  then have "AppendPoint h v = Some (h\<lparr>hp_block := write_block (hp_block h) (length ps * cf_bytesPerDoc c) p, hp_nextWrite := length ps + 1\<rparr>)"
    unfolding AppendPoint_def cfg Let_def assms(3) by (simp only: Option.bind.simps copy_to_nat [OF inside])
  then show ?thesis
    using holds_append [OF assms(1,2,4)] cfg(2) by simp
qed

text \<open>All points written one after the other, and read until \<open>Next\<close> says there are no more\<close>

primrec write_points :: "HeapPointWriter \<Rightarrow> (u8 list \<times> u64) list \<Rightarrow> HeapPointWriter option" where
  "write_points h [] = Some h"
| "write_points h (p # ps) = do { h \<leftarrow> Append h (fst p) (snd p); write_points h ps }"

primrec read_points :: "nat \<Rightarrow> HeapPointReader \<Rightarrow> (u8 list \<times> nat) list option" where
  "read_points 0 r = None"
| "read_points (Suc n) r =
     (let (more, r) = Reader_Next r in
      if more then do {
        (v, r) \<leftarrow> Reader_PointValue r;
        val \<leftarrow> PackedValue v;
        doc \<leftarrow> DocID v;
        rest \<leftarrow> read_points n r;
        Some ((val, doc) # rest)
      } else Some [])"

lemma write_points_ok:
  assumes "valid_config c"
  shows "holds_points c h ps \<Longrightarrow> length ps + length qs \<le> length (points h) \<Longrightarrow> \<forall>q \<in> set qs. length (fst q) = cf_packedBytesLength c \<Longrightarrow>
    \<exists>h'. write_points h qs = Some h' \<and> holds_points c h' (ps @ map (\<lambda>q. point_bytes (fst q) (snd q)) qs)"
proof (induction qs arbitrary: h ps)
  case (Cons q qs)
  then obtain h1 where h1: "Append h (fst q) (snd q) = Some h1" "holds_points c h1 (ps @ [point_bytes (fst q) (snd q)])"
    "length (points h1) = length (points h)"
    using Append_ok [OF assms Cons.prems(1), of "fst q" "snd q"] by auto
  then show ?case
    using Cons.IH [OF h1(2)] Cons.prems(2,3) by simp
qed simp

lemma GetPackedValueSlice_eq:
  "GetPackedValueSlice h i = \<lparr>pv_config = hp_config h, pv_bytes = hp_block h, pv_offset = int i * int (cf_bytesPerDoc (hp_config h))\<rparr>"
  by (simp add: GetPackedValueSlice_def)

text \<open>A reader whose next point is the one at \<open>i\<close>\<close>

definition reader_at :: "HeapPointWriter \<Rightarrow> nat \<Rightarrow> nat \<Rightarrow> HeapPointReader \<Rightarrow> bool" where
  "reader_at h i stop r \<longleftrightarrow> pr_curRead r = int i - 1 \<and> pr_config r = hp_config h \<and> pr_end r = stop \<and>
     (i < stop \<longrightarrow> (\<exists>v. pr_pointValue r = Some v \<and> pv_config v = hp_config h \<and> pv_bytes v = hp_block h))"

lemma reader_step:
  assumes "reader_at h i stop r" and "i < stop"
  obtains r1 r2 where "Reader_Next r = (True, r1)" and "Reader_PointValue r1 = Some (GetPackedValueSlice h i, r2)" and "reader_at h (i + 1) stop r2"
proof -
  obtain v where v: "pr_pointValue r = Some v" "pv_config v = hp_config h" "pv_bytes v = hp_block h"
    using assms by (auto simp: reader_at_def)
  have eq: "v\<lparr>pv_offset := int i * int (cf_bytesPerDoc (hp_config h))\<rparr> = GetPackedValueSlice h i"
    using v(2,3) by (cases v) (simp add: GetPackedValueSlice_eq)
  have "Reader_Next r = (True, r\<lparr>pr_curRead := int i\<rparr>)"
    using assms by (simp add: Reader_Next_def reader_at_def)
  moreover have "Reader_PointValue (r\<lparr>pr_curRead := int i\<rparr>) =
      Some (GetPackedValueSlice h i, r\<lparr>pr_curRead := int i, pr_pointValue := Some (GetPackedValueSlice h i)\<rparr>)"
    using v(1) assms(1) by (simp add: Reader_PointValue_def Let_def eq reader_at_def)
  moreover have "reader_at h (i + 1) stop (r\<lparr>pr_curRead := int i, pr_pointValue := Some (GetPackedValueSlice h i)\<rparr>)"
    using assms(1) by (simp add: reader_at_def GetPackedValueSlice_def)
  ultimately show thesis
    using that by blast
qed

lemma read_points_ok:
  assumes "valid_config c" and "writer_of c h" and "stop \<le> length (points h)"
  shows "reader_at h i stop r \<Longrightarrow> i \<le> stop \<Longrightarrow> stop - i < n \<Longrightarrow>
    read_points n r = Some (map (\<lambda>j. (take (cf_packedBytesLength c) (points h ! j), unat (get_uint (drop (cf_packedBytesLength c) (points h ! j)) :: u32))) [i..<stop])"
proof (induction n arbitrary: i r)
  case (Suc n)
  show ?case
  proof (cases "i < stop")
    case True
    obtain r1 r2 where r: "Reader_Next r = (True, r1)" "Reader_PointValue r1 = Some (GetPackedValueSlice h i, r2)" "reader_at h (i + 1) stop r2"
      using reader_step [OF Suc.prems(1) True] .
    have ok: "points_ok (NewRadixSelector c 0) 0 0 h"
      using assms by (intro points_okI inside_dimension) (simp_all add: valid_config_def)
    have cfg: "rs_config (NewRadixSelector c 0) = c"
      by (simp add: NewRadixSelector_def Let_def)
    have i: "i < length (points h)"
      using True assms(3) by simp
    note parts = slice_parts_ok(1,3) [OF ok i, unfolded cfg]
    have "[i..<stop] = i # [i + 1..<stop]"
      using True by (simp add: upt_conv_Cons)
    then show ?thesis
      using r(1,2) parts Suc.IH [OF r(3)] True Suc.prems(3) by simp
  next
    case False
    then show ?thesis
      using Suc.prems by (simp add: Reader_Next_def reader_at_def)
  qed
qed simp

text \<open>
  C36. Points come back from a writer in memory as they went in: as many as it was made for, in their order,
  each with its packed value and its document (\<open>HeapPointWriter.Append\<close>, \<open>Count\<close>, \<open>GetReader\<close>, and
  \<open>Next\<close>, \<open>PointValue\<close> of the reader until it ends).
\<close>

theorem heap_points_roundtrip:
  assumes "NewConfig dims index_dims bytes leaf = Inr c" and "length qs \<le> n"
    and "\<forall>q \<in> set qs. length (fst q) = cf_packedBytesLength c \<and> unat (snd q) < 2 ^ 32"
  shows "\<exists>h. write_points (NewHeapPointWriter c n) qs = Some h \<and> Writer_Count h = length qs \<and>
    read_points (length qs + 1) (GetReader h 0 (Writer_Count h)) = Some (map (\<lambda>q. (fst q, unat (snd q))) qs)"
proof -
  have valid: "valid_config c"
    using assms(1) by (rule NewConfig_valid)
  obtain h where h: "write_points (NewHeapPointWriter c n) qs = Some h" "holds_points c h (map (\<lambda>q. point_bytes (fst q) (snd q)) qs)"
    using write_points_ok [OF valid NewHeapPointWriter_holds(1) [OF valid, of n], of qs] NewHeapPointWriter_holds(2) [OF valid, of n] assms(2,3) by auto
  have cnt: "Writer_Count h = length qs" and wr: "writer_of c h" and len: "length qs \<le> length (points h)"
    and pts: "\<And>j. j < length qs \<Longrightarrow> points h ! j = point_bytes (fst (qs ! j)) (snd (qs ! j))"
  proof -
    show "Writer_Count h = length qs" "writer_of c h" "length qs \<le> length (points h)"
      using h(2) by (simp_all add: holds_points_def Writer_Count_def)
    fix j assume "j < length qs"
    then show "points h ! j = point_bytes (fst (qs ! j)) (snd (qs ! j))"
      using h(2) by (metis (no_types, lifting) holds_points_def length_map nth_map nth_take)
  qed
  have "hp_block h \<noteq> []" if "0 < length qs"
    using that len by (auto simp: points_def)
  then have "reader_at h 0 (length qs) (GetReader h 0 (length qs))"
    by (simp add: reader_at_def GetReader_def NewHeapPointReader_def)
  then have "read_points (length qs + 1) (GetReader h 0 (length qs)) =
      Some (map (\<lambda>j. (take (cf_packedBytesLength c) (points h ! j), unat (get_uint (drop (cf_packedBytesLength c) (points h ! j)) :: u32))) [0..<length qs])"
    by (intro read_points_ok [OF valid wr len]) simp_all
  also have "map (\<lambda>j. (take (cf_packedBytesLength c) (points h ! j), unat (get_uint (drop (cf_packedBytesLength c) (points h ! j)) :: u32))) [0..<length qs] =
      map (\<lambda>q. (fst q, unat (snd q))) qs"
  proof (rule nth_equalityI)
    fix j assume "j < length (map (\<lambda>j. (take (cf_packedBytesLength c) (points h ! j), unat (get_uint (drop (cf_packedBytesLength c) (points h ! j)) :: u32))) [0..<length qs])"
    then have j: "j < length qs"
      by simp
    then have q: "length (fst (qs ! j)) = cf_packedBytesLength c" "unat (snd (qs ! j)) < 2 ^ 32"
      using assms(3) nth_mem by blast+
    have "unat (ucast (snd (qs ! j)) :: u32) = unat (snd (qs ! j))"
      using q(2) by (simp add: unsigned_ucast_eq take_bit_nat_eq_self)
    then show "map (\<lambda>j. (take (cf_packedBytesLength c) (points h ! j), unat (get_uint (drop (cf_packedBytesLength c) (points h ! j)) :: u32))) [0..<length qs] ! j =
        map (\<lambda>q. (fst q, unat (snd q))) qs ! j"
      using j q(1) by (simp add: pts point_bytes_def get_put_uint)
  qed simp
  finally show ?thesis
    using h(1) cnt by simp
qed


subsection \<open>Counting the different values\<close>

lemma Mismatch_same: "Mismatch a b = - 1 \<longleftrightarrow> a = b"
proof (cases "find (\<lambda>i. a ! i \<noteq> b ! i) [0..<min (length a) (length b)]")
  case None
  then have "a ! i = b ! i" if "i < length a" "i < length b" for i
    using that by (auto simp: find_None_iff)
  then have "a = b \<longleftrightarrow> length a = length b"
    by (auto intro: nth_equalityI)
  then show ?thesis
    using None by (simp add: Mismatch_def Let_def)
next
  case (Some i)
  then have "a ! i \<noteq> b ! i"
    by (auto simp: find_Some_iff)
  then have "a \<noteq> b"
    by blast
  moreover have "Mismatch a b = int i"
    unfolding Mismatch_def Let_def Some by simp
  ultimately show ?thesis
    by simp
qed

text \<open>The packed value is determined by its dimensions.\<close>

lemma packed_eq_iff:
  assumes "valid_config c" and "length p = cf_bytesPerDoc c" and "length q = cf_bytesPerDoc c"
  shows "take (cf_packedBytesLength c) p = take (cf_packedBytesLength c) q \<longleftrightarrow> (\<forall>d<cf_numDims c. dim_bytes c d p = dim_bytes c d q)"
proof
  assume eq: "take (cf_packedBytesLength c) p = take (cf_packedBytesLength c) q"
  have "dim_bytes c d a = take (cf_bytesPerDim c) (drop (d * cf_bytesPerDim c) (take (cf_packedBytesLength c) a))" if "d < cf_numDims c" for d and a :: "u8 list"
    using config_sizes(1) [OF assms(1) that] by (simp add: dim_bytes_def drop_take min_absorb1)
  then show "\<forall>d<cf_numDims c. dim_bytes c d p = dim_bytes c d q"
    using eq by simp
next
  assume dims: "\<forall>d<cf_numDims c. dim_bytes c d p = dim_bytes c d q"
  define n where "n = cf_bytesPerDim c"
  have len: "cf_packedBytesLength c = cf_numDims c * n" "cf_packedBytesLength c \<le> cf_bytesPerDoc c" "0 < n"
    using assms(1) by (simp_all add: valid_config_def n_def)
  show "take (cf_packedBytesLength c) p = take (cf_packedBytesLength c) q"
  proof (rule nth_equalityI)
    fix k assume "k < length (take (cf_packedBytesLength c) p)"
    then have k: "k < cf_numDims c * n" "k < cf_bytesPerDoc c"
      using len assms(2) by simp_all
    then have d: "k div n < cf_numDims c" "k mod n < n"
      using len(3) by (simp_all add: less_mult_imp_div_less)
    have at: "dim_bytes c (k div n) a ! (k mod n) = a ! k" if "length a = cf_bytesPerDoc c" for a :: "u8 list"
      using that k d(2) config_sizes(1) [OF assms(1) d(1)] len(2) by (simp add: dim_bytes_def n_def)
    have "dim_bytes c (k div n) p = dim_bytes c (k div n) q"
      using dims d(1) by blast
    then have "p ! k = q ! k"
      using at [OF assms(2)] at [OF assms(3)] by metis
    then show "take (cf_packedBytesLength c) p ! k = take (cf_packedBytesLength c) q ! k"
      using k len(1) by simp
  qed (use assms in simp)
qed

lemma dim_slice:
  assumes "valid_config c" and "hp_config h = c" and "i < length (points h)" and "d < cf_numDims c" and "k \<le> cf_bytesPerDim c"
  shows "sub_slice (hp_block h) (int (i * cf_bytesPerDoc c + (d * cf_bytesPerDim c + k))) (int (i * cf_bytesPerDoc c + (d * cf_bytesPerDim c + cf_bytesPerDim c))) =
    Some (drop k (dim_bytes c d (points h ! i)))"
proof -
  obtain m where m: "cf_bytesPerDim c = k + m"
    using assms(5) le_Suc_ex by blast
  have i: "i < length (hp_block h) div cf_bytesPerDoc c"
    using assms(2,3) by (simp add: points_def)
  have "sub_slice (hp_block h) (int (i * cf_bytesPerDoc c + (d * cf_bytesPerDim c + k))) (int (i * cf_bytesPerDoc c + (d * cf_bytesPerDim c + k) + m)) =
      Some (take m (drop (d * cf_bytesPerDim c + k) (chunks (cf_bytesPerDoc c) (hp_block h) ! i)))"
    using config_sizes(1) [OF assms(1,4)] assms(1) m by (intro sub_slice_inside [OF i]) (simp add: valid_config_def)
  moreover have "i * cf_bytesPerDoc c + (d * cf_bytesPerDim c + cf_bytesPerDim c) = i * cf_bytesPerDoc c + (d * cf_bytesPerDim c + k) + m"
    using m by simp
  moreover have "take m (drop (d * cf_bytesPerDim c + k) a) = drop k (dim_bytes c d a)" for a :: "u8 list"
    using m by (simp add: dim_bytes_def drop_take ac_simps)
  ultimately show ?thesis
    using assms(2) by (simp only: points_def)
qed

lemma cardinality_dims_ok:
  assumes "valid_config c" and "hp_config h = c" and "0 < i" "i < length (points h)"
    and "length cpls = cf_numDims c" "\<forall>d<cf_numDims c. cpls ! d \<le> cf_bytesPerDim c"
  shows "set ds \<subseteq> {..<cf_numDims c} \<Longrightarrow> cardinality_dims h cpls i ds =
    Some (\<exists>d\<in>set ds. drop (cpls ! d) (dim_bytes c d (points h ! i)) \<noteq> drop (cpls ! d) (dim_bytes c d (points h ! (i - 1))))"
proof (induction ds)
  case (Cons d ds)
  have d: "d < cf_numDims c" "cpls ! d \<le> cf_bytesPerDim c"
    using Cons.prems assms(6) by simp_all
  have i1: "i - 1 < length (points h)"
    using assms(4) by simp
  note slices = dim_slice [OF assms(1,2,4) d] dim_slice [OF assms(1,2) i1 d]
  have "slice_get cpls d = Some (cpls ! d)"
    using d(1) assms(5) by (simp add: slice_get_def)
  then have "cardinality_dims h cpls i (d # ds) =
      (if Mismatch (drop (cpls ! d) (dim_bytes c d (points h ! i))) (drop (cpls ! d) (dim_bytes c d (points h ! (i - 1)))) \<noteq> - 1
       then Some True else cardinality_dims h cpls i ds)"
    by (simp only: cardinality_dims.simps Let_def assms(2) slices Option.bind.simps)
  then show ?case
    using Cons by (simp add: Mismatch_same)
qed simp

lemma cardinality_loop_ok:
  assumes "\<And>i. i \<in> set is \<Longrightarrow> cardinality_dims h cpls i [0..<cf_numDims (hp_config h)] = Some (P i)"
  shows "cardinality_loop h cpls n is = Some (n + length (filter P is))"
  using assms by (induction "is" arbitrary: n) auto

text \<open>
  C37. \<open>HeapPointWriter.ComputeCardinality\<close> counts the runs of equal values in a range: the places where a
  point has another packed value than the one before it, and one. The prefixes only save work: they may be
  any that the points have in common in their dimension.
\<close>

theorem cardinality_counts_runs:
  assumes "NewConfig dims index_dims bytes leaf = Inr c" and "writer_of c h" and "hi \<le> length (points h)"
    and "length cpls = cf_numDims c" "\<forall>d<cf_numDims c. cpls ! d \<le> cf_bytesPerDim c \<and> shared c d (cpls ! d) lo hi (points h)"
  shows "ComputeCardinality h lo hi cpls = Some (1 + card {i. lo < i \<and> i < hi \<and>
    take (cf_packedBytesLength c) (points h ! i) \<noteq> take (cf_packedBytesLength c) (points h ! (i - 1))})"
proof -
  have valid: "valid_config c"
    using assms(1) by (rule NewConfig_valid)
  have cfg: "hp_config h = c"
    using assms(2) by (simp add: writer_of_def)
  let ?P = "\<lambda>i. take (cf_packedBytesLength c) (points h ! i) \<noteq> take (cf_packedBytesLength c) (points h ! (i - 1))"
  have "cardinality_dims h cpls i [0..<cf_numDims c] = Some (?P i)" if i: "i \<in> set [lo + 1..<hi]" for i
  proof -
    have r: "lo < i" "i < hi" "lo \<le> i - 1" "i - 1 < hi" "0 < i" "i < length (points h)"
      using i assms(3) by auto
    have len: "length (points h ! j) = cf_bytesPerDoc c" if "j < length (points h)" for j
      using that cfg by (simp add: points_def length_chunk)
    have same: "take (cpls ! d) (dim_bytes c d (points h ! i)) = take (cpls ! d) (dim_bytes c d (points h ! (i - 1)))" if d: "d < cf_numDims c" for d
    proof (rule shared_dimension)
      show "take (cpls ! d) (point_order c d (points h ! i)) = take (cpls ! d) (point_order c d (points h ! (i - 1)))"
        using assms(5) d r(1-4) unfolding shared_def by (metis less_imp_le)
    qed (use assms(5) d config_sizes(1,4) [OF valid d] len r(6) in \<open>simp_all add: dim_bytes_def\<close>)
    have eq: "drop (cpls ! d) (dim_bytes c d (points h ! i)) = drop (cpls ! d) (dim_bytes c d (points h ! (i - 1))) \<longleftrightarrow>
        dim_bytes c d (points h ! i) = dim_bytes c d (points h ! (i - 1))" if "d < cf_numDims c" for d
      using same [OF that] by (metis append_take_drop_id)
    have "?P i \<longleftrightarrow> (\<exists>d<cf_numDims c. dim_bytes c d (points h ! i) \<noteq> dim_bytes c d (points h ! (i - 1)))"
      using packed_eq_iff [OF valid len len, of i "i - 1"] r(6) by auto
    also have "\<dots> \<longleftrightarrow> (\<exists>d\<in>set [0..<cf_numDims c]. drop (cpls ! d) (dim_bytes c d (points h ! i)) \<noteq> drop (cpls ! d) (dim_bytes c d (points h ! (i - 1))))"
      using eq by auto
    finally show ?thesis
      using assms(5) by (subst cardinality_dims_ok [OF valid cfg r(5,6) assms(4)]) auto
  qed
  then have "cardinality_loop h cpls 1 [lo + 1..<hi] = Some (1 + length (filter ?P [lo + 1..<hi]))"
    by (intro cardinality_loop_ok) (simp only: cfg)
  moreover have "length (filter ?P [lo + 1..<hi]) = card {i. lo < i \<and> i < hi \<and> ?P i}"
  proof -
    have "length (filter ?P [lo + 1..<hi]) = card (set (filter ?P [lo + 1..<hi]))"
      by (rule distinct_card [symmetric]) simp
    also have "set (filter ?P [lo + 1..<hi]) = {i. lo < i \<and> i < hi \<and> ?P i}"
      by auto
    finally show ?thesis .
  qed
  ultimately show ?thesis
    by (simp only: ComputeCardinality_def)
qed

subsection \<open>Dividing points between two writers\<close>

lemma GetPackedValueSlice_bytes:
  assumes "writer_of c h" and "i < length (points h)"
  shows "PackedValueDocIDBytes (GetPackedValueSlice h i) = Some (points h ! i)"
  using sub_slice_chunk [of i "hp_block h" "cf_bytesPerDoc c"] assms
  by (simp add: PackedValueDocIDBytes_def GetPackedValueSlice_def points_def writer_of_def)

lemma partition_points_ok:
  assumes "writer_of c h" and "valid_config c"
  shows "holds_points c l ls \<Longrightarrow> holds_points c r rs \<Longrightarrow> \<forall>i \<in> set is. i < length (points h) \<Longrightarrow>
    length ls + length (filter (\<lambda>i. i < k) is) \<le> length (points l) \<Longrightarrow>
    length rs + length (filter (\<lambda>i. \<not> i < k) is) \<le> length (points r) \<Longrightarrow>
    \<exists>l' r'. partition_points h k is l r = Some (l', r') \<and>
      holds_points c l' (ls @ map ((!) (points h)) (filter (\<lambda>i. i < k) is)) \<and>
      holds_points c r' (rs @ map ((!) (points h)) (filter (\<lambda>i. \<not> i < k) is))"
proof (induction "is" arbitrary: l r ls rs)
  case (Cons i "is")
  have i: "i < length (points h)"
    using Cons.prems(3) by simp
  note bytes = GetPackedValueSlice_bytes [OF assms(1) i]
  have len: "length (points h ! i) = cf_bytesPerDoc c"
    using i assms(1) by (simp add: points_def length_chunk writer_of_def)
  show ?case
  proof (cases "i < k")
    case True
    obtain l1 where l1: "AppendPoint l (GetPackedValueSlice h i) = Some l1" "holds_points c l1 (ls @ [points h ! i])" "length (points l1) = length (points l)"
      using AppendPoint_ok [OF Cons.prems(1) _ bytes len] Cons.prems(4) True by auto
    show ?thesis
      using Cons.IH [OF l1(2) Cons.prems(2)] Cons.prems(3-5) l1(1,3) True by (simp add: Let_def)
  next
    case False
    obtain r1 where r1: "AppendPoint r (GetPackedValueSlice h i) = Some r1" "holds_points c r1 (rs @ [points h ! i])" "length (points r1) = length (points r)"
      using AppendPoint_ok [OF Cons.prems(2) _ bytes len] Cons.prems(5) False by auto
    show ?thesis
      using Cons.IH [OF Cons.prems(1) r1(2)] Cons.prems(3-5) r1(1,3) False by (simp add: Let_def)
  qed
qed simp

lemma filter_range: "lo \<le> k \<Longrightarrow> k \<le> hi \<Longrightarrow> filter (\<lambda>i. i < k) [lo..<hi] = [lo..<k] \<and> filter (\<lambda>i. \<not> i < k) [lo..<hi] = [k..<hi]"
proof -
  assume k: "lo \<le> k" "k \<le> hi"
  then have "[lo..<hi] = [lo..<k] @ [k..<hi]"
    by (metis le_add_diff_inverse upt_add_eq_append)
  then show ?thesis
    by (auto simp: filter_empty_conv intro!: filter_True)
qed

lemma map_nth_part: "hi \<le> length xs \<Longrightarrow> map ((!) xs) [lo..<hi] = part lo hi xs"
  by (rule nth_equalityI) (simp_all add: part_def)

text \<open>
  C38. \<open>RadixSelector.heapPartition\<close> empties a range of a writer into two other writers in memory with room for
  it. It is given the number \<open>cpl\<close> of leading bytes, of those that are compared (the dimension, the data
  dimensions, the document: \<open>bytesSorted\<close> in all), that the points in the range have in common; this may be any
  number below \<open>bytesSorted\<close>, so that points which tie on the dimension are covered. The points it has
  selected before the partition point go behind those of the left writer, the rest behind those of the right one,
  no point is lost, and none on the left is greater than any on the right.
\<close>

theorem heap_partition_divides:
  assumes "NewConfig dims index_dims bytes leaf = Inr c" and "writer_of c h" and "dimension < cf_numDims c" and "cpl < rs_bytesSorted (NewRadixSelector c m)"
    and "hi \<le> length (points h)" and "shared c dimension cpl lo hi (points h)" and "lo \<le> k" "k < hi"
    and "holds_points c l ls" "length ls + (k - lo) \<le> length (points l)"
    and "holds_points c r rs" "length rs + (hi - k) \<le> length (points r)"
  shows "\<exists>pv h' l' r' ps qs. heapPartition (NewRadixSelector c m) h l r dimension lo hi k cpl = Some (pv, h', l', r') \<and>
    holds_points c l' (ls @ ps) \<and> holds_points c r' (rs @ qs) \<and> length ps = k - lo \<and>
    mset (ps @ qs) = mset (part lo hi (points h)) \<and>
    (\<forall>p\<in>set ps. \<forall>q\<in>set qs. point_order c dimension p \<le> point_order c dimension q)"
proof -
  let ?b = "NewRadixSelector c m"
  have cfg: "rs_config ?b = c"
    by (simp add: NewRadixSelector_def Let_def)
  note valid = NewConfig_valid [OF assms(1)]
  have ok: "points_ok ?b dimension cpl h"
    using valid assms(2-4) by (rule points_okI)
  obtain h' where h': "heapRadixSelect ?b h dimension lo hi k cpl = Some (dim_bytes c dimension (points h' ! k), h')"
    "points_ok ?b dimension cpl h'" "rearranged lo hi (points h) (points h')"
    "selected (\<lambda>p q. point_order c dimension p \<le> point_order c dimension q) lo hi k (points h')"
    using heapRadixSelect_ok [OF ok assms(7,8,5)] assms(6) unfolding cfg by blast
  have wr: "writer_of c h'" and len: "length (points h') = length (points h)"
    using points_ok_writer [OF h'(2)] rearranged_length [OF h'(3)] by (simp_all add: cfg)
  define ps qs where "ps = part lo k (points h')" and "qs = part k hi (points h')"
  note split = filter_range [OF assms(7) less_imp_le [OF assms(8)]]
  obtain l' r' where lr: "partition_points h' k [lo..<hi] l r = Some (l', r')" "holds_points c l' (ls @ ps)" "holds_points c r' (rs @ qs)"
    using partition_points_ok [OF wr valid assms(9,11), of "[lo..<hi]" k] assms(5,8,10,12) len split
    by (auto simp: ps_def qs_def map_nth_part)
  have "heapPartition ?b h l r dimension lo hi k cpl = Some (dim_bytes c dimension (points h' ! k), h', l', r')"
    unfolding heapPartition_def h'(1) by (simp add: lr(1))
  moreover have "length ps = k - lo"
    using assms(5,8) len by (simp add: ps_def part_def)
  moreover have "mset (ps @ qs) = mset (part lo hi (points h))"
  proof -
    have "ps @ qs = part lo hi (points h')"
    proof -
      have "hi - lo = (k - lo) + (hi - k)" "lo + (k - lo) = k"
        using assms(7,8) by simp_all
      then show ?thesis
        unfolding ps_def qs_def part_def by (metis drop_drop take_add add.commute)
    qed
    then show ?thesis
      using rearranged_part [OF h'(3)] assms(7,8) by simp
  qed
  moreover have "point_order c dimension p \<le> point_order c dimension q" if "p \<in> set ps" "q \<in> set qs" for p q
  proof -
    have "k \<le> length (points h')" "hi \<le> length (points h')"
      using assms(5,8) len by simp_all
    then have "p \<in> {points h' ! i |i. lo \<le> i \<and> i < k}" "q \<in> {points h' ! i |i. k \<le> i \<and> i < hi}"
      using that unfolding ps_def qs_def by (simp_all only: set_part)
    then obtain i j where ij: "p = points h' ! i" "lo \<le> i" "i < k" "q = points h' ! j" "k \<le> j" "j < hi"
      by blast
    have "point_order c dimension p \<le> point_order c dimension (points h' ! k)"
      using h'(4) ij(1-3) unfolding selected_def by blast
    also have "\<dots> \<le> point_order c dimension q"
      using h'(4) ij(4-6) unfolding selected_def by (cases "j = k") auto
    finally show ?thesis .
  qed
  ultimately show ?thesis
    using lr(2,3) by blast
qed


subsection \<open>Examples\<close>

definition ex_config :: Config where
  "ex_config = \<lparr>cf_numDims = 2, cf_numIndexDims = 1, cf_bytesPerDim = 1, cf_maxPointsInLeafNode = 512,
     cf_packedBytesLength = 2, cf_packedIndexBytesLength = 1, cf_bytesPerDoc = 6\<rparr>"

lemma ex_config: "NewConfig 2 1 1 512 = Inr ex_config"
  by (simp add: NewConfig_def verifyParams_def MAX_DIMS_def MAX_INDEX_DIMS_def ex_config_def)

definition ex_points :: HeapPointWriter where
  "ex_points = \<lparr>hp_block = [7, 3, 0, 0, 0, 9, 5, 1, 0, 0, 0, 8, 7, 2, 0, 0, 0, 4], hp_size = 3, hp_config = ex_config,
     hp_scratch = replicate 6 0, hp_nextWrite = 3, hp_closed = False\<rparr>"

lemma ex_points: "points ex_points = [[7, 3, 0, 0, 0, 9], [5, 1, 0, 0, 0, 8], [7, 2, 0, 0, 0, 4]]"
  by code_simp

lemma ex_writer: "writer_of ex_config ex_points"
  by (simp add: writer_of_def ex_points_def ex_config_def)

lemma ex_dims: "(0 :: nat) < cf_numDims ex_config" "(0 :: nat) \<le> cf_bytesPerDim ex_config" "(3 :: nat) \<le> length (points ex_points)"
  by (simp_all add: ex_config_def ex_points)

lemma ex_shared: "shared ex_config d 0 lo hi ps"
  by (simp add: shared_def)

definition ex_empty :: HeapPointWriter where
  "ex_empty = NewHeapPointWriter ex_config 3"

lemma ex_empty: "holds_points ex_config ex_empty []" "length (points ex_empty) = 3"
  using NewHeapPointWriter_holds [OF NewConfig_valid [OF ex_config], of 3] by (simp_all add: ex_empty_def)

lemma ex_range: "(0 :: nat) \<le> 1 \<and> (1 :: nat) < 3"
  by simp

theorem select_splits_witness:
  "\<exists>h'. Select (NewRadixSelector ex_config 10) ex_points 0 3 1 0 0 =
      Some (Inr (dim_bytes ex_config 0 (points h' ! 1), \<lparr>ps_start = 0, ps_count = 1 - 0\<rparr>, \<lparr>ps_start = 1, ps_count = 3 - 1\<rparr>), h') \<and>
    rearranged 0 3 [[7, 3, 0, 0, 0, 9], [5, 1, 0, 0, 0, 8], [7, 2, 0, 0, 0, 4]] (points h')"
  using mp [OF conjunct1 [OF select_splits [OF ex_config ex_writer ex_dims ex_shared, of 0 1 10]] ex_range]
  unfolding ex_points by (elim exE conjE) (intro exI conjI; assumption)

theorem heap_radix_sort_sorts_witness:
  "\<exists>h'. HeapRadixSort (NewRadixSelector ex_config 10) ex_points 0 3 0 0 = Some h' \<and>
    rearranged 0 3 [[7, 3, 0, 0, 0, 9], [5, 1, 0, 0, 0, 8], [7, 2, 0, 0, 0, 4]] (points h') \<and>
    (\<forall>i j. 0 \<le> i \<and> i < j \<and> j < 3 \<longrightarrow> point_order ex_config 0 (points h' ! i) \<le> point_order ex_config 0 (points h' ! j))"
  using heap_radix_sort_sorts [OF ex_config ex_writer ex_dims ex_shared, of 10 0]
  unfolding ex_points by (elim exE conjE) (intro exI conjI; assumption)

definition ex_values :: "(u8 list \<times> u64) list" where
  "ex_values = [([7, 3], 9), ([5, 1], 8)]"

lemma ex_values: "length ex_values \<le> 3" "\<forall>q \<in> set ex_values. length (fst q) = cf_packedBytesLength ex_config \<and> unat (snd q) < 2 ^ 32"
  "map (\<lambda>q. (fst q, unat (snd q))) ex_values = [([7, 3], 9), ([5, 1], 8)]"
  by (simp_all add: ex_values_def ex_config_def)

theorem heap_points_roundtrip_witness:
  "\<exists>h. write_points (NewHeapPointWriter ex_config 3) ex_values = Some h \<and>
    read_points (length ex_values + 1) (GetReader h 0 (Writer_Count h)) = Some [([7, 3], 9), ([5, 1], 8)]"
  using heap_points_roundtrip [OF ex_config ex_values(1,2)] unfolding ex_values(3) by blast

theorem cardinality_counts_runs_witness:
  "ComputeCardinality ex_points 0 3 [0, 0] = Some (1 + card {i. 0 < i \<and> i < 3 \<and>
    take 2 (points ex_points ! i) \<noteq> take 2 (points ex_points ! (i - 1))})"
  using cardinality_counts_runs [OF ex_config ex_writer ex_dims(3), of "[0, 0]" 0]
  by (simp add: ex_config_def shared_def nth_Cons split: nat.split)

text \<open>Points with the same value in all dimensions; they differ in the document only.\<close>

definition ex_ties :: HeapPointWriter where
  "ex_ties = ex_points\<lparr>hp_block := [7, 3, 0, 0, 0, 9, 7, 3, 0, 0, 0, 4, 7, 3, 0, 0, 0, 8]\<rparr>"

lemma ex_ties: "points ex_ties = [[7, 3, 0, 0, 0, 9], [7, 3, 0, 0, 0, 4], [7, 3, 0, 0, 0, 8]]"
  by code_simp

lemma ex_ties_ok: "writer_of ex_config ex_ties" "(0 :: nat) < cf_numDims ex_config" "2 < rs_bytesSorted (NewRadixSelector ex_config 10)"
  "(3 :: nat) \<le> length (points ex_ties)" "shared ex_config 0 2 0 3 (points ex_ties)"
proof -
  show "shared ex_config 0 2 0 3 (points ex_ties)"
    unfolding shared_def ex_ties
    by (auto simp: less_Suc_eq numeral_3_eq_3 point_order_def dim_bytes_def data_bytes_def ex_config_def)
  show "(3 :: nat) \<le> length (points ex_ties)"
    by (simp add: ex_ties)
qed (simp_all add: ex_config_def NewRadixSelector_def Let_def INTEGER_BYTES_def writer_of_def ex_ties_def ex_points_def)

theorem heap_partition_divides_witness:
  "cf_bytesPerDim ex_config = 1 \<and>
   (\<exists>pv h' l' r' ps qs. heapPartition (NewRadixSelector ex_config 10) ex_ties ex_empty ex_empty 0 0 3 2 2 = Some (pv, h', l', r') \<and>
    holds_points ex_config l' ([] @ ps) \<and> holds_points ex_config r' ([] @ qs) \<and> length ps = 2 - 0 \<and>
    mset (ps @ qs) = mset (part 0 3 (points ex_ties)))"
proof -
  have room: "length ([] :: u8 list list) + (2 - 0) \<le> length (points ex_empty)" "length ([] :: u8 list list) + (3 - 2) \<le> length (points ex_empty)"
    by (simp_all add: ex_empty)
  have k: "(0 :: nat) \<le> 2" "(2 :: nat) < 3"
    by simp_all
  have "cf_bytesPerDim ex_config = 1"
    by (simp add: ex_config_def)
  then show ?thesis
    using heap_partition_divides [OF ex_config ex_ties_ok k ex_empty(1) room(1) ex_empty(1) room(2)] by blast
qed

end
