(* ===== verification/Doc_Ids.thy ===== *)
theory Doc_Ids
  imports Data_IO
begin

text \<open>
  core/util/bkd/docidswriter.go: the documents of a leaf, written in one of three forms and read back into a
  slice or handed to a visitor. A document is an \<open>int\<close>, modelled as the 64-bit word of its two's
  complement.
\<close>

subsection \<open>Writing\<close>

primrec write_deltas :: "(u8 list \<Rightarrow> ('w, unit) io) \<Rightarrow> u64 \<Rightarrow> u64 list \<Rightarrow> ('w, unit) io" where
  "write_deltas wr previous [] = io_return ()"
| "write_deltas wr previous (doc # docs) = io_bind (WriteUvarint wr (doc - previous)) (\<lambda>_. write_deltas wr doc docs)"

primrec write_ints24 :: "(u8 list \<Rightarrow> ('w, unit) io) \<Rightarrow> u64 list \<Rightarrow> ('w, unit) io" where
  "write_ints24 wr [] = io_return ()"
| "write_ints24 wr (doc # docs) = io_bind (WriteUint16 wr (ucast (signed_drop_bit 8 doc)))
     (\<lambda>_. io_bind (WriteByte wr (ucast doc)) (\<lambda>_. write_ints24 wr docs))"

primrec write_ints32 :: "(u8 list \<Rightarrow> ('w, unit) io) \<Rightarrow> u64 list \<Rightarrow> ('w, unit) io" where
  "write_ints32 wr [] = io_return ()"
| "write_ints32 wr (doc # docs) = io_bind (WriteUint32 wr (ucast doc)) (\<lambda>_. write_ints32 wr docs)"

definition WriteDocIds :: "(u8 list \<Rightarrow> ('w, unit) io) \<Rightarrow> u64 list \<Rightarrow> ('w, unit) io" where
  "WriteDocIds wr docIds =
     (if sorted (map sint docIds) then io_bind (WriteByte wr 0) (\<lambda>_. write_deltas wr 0 docIds)
      else
        let maxID = foldl (OR) 0 docIds in
        if sint maxID \<le> 0xFFFFFF then io_bind (WriteByte wr 24) (\<lambda>_. write_ints24 wr docIds)
        else io_bind (WriteByte wr 32) (\<lambda>_. write_ints32 wr docIds))"

subsection \<open>Reading into a slice\<close>

definition io_lift :: "'a option \<Rightarrow> ('s, 'a) io" where
  "io_lift x = (case x of None \<Rightarrow> io_panic | Some y \<Rightarrow> io_return y)"

primrec readDeltaVInts :: "(nat \<Rightarrow> ('r, u8 list) io) \<Rightarrow> nat \<Rightarrow> nat \<Rightarrow> u64 \<Rightarrow> u64 list \<Rightarrow> ('r DataInput, u64 list) io" where
  "readDeltaVInts read 0 i doc docIDs = io_return docIDs"
| "readDeltaVInts read (Suc n) i doc docIDs = io_bind (ReadUvarint read) (\<lambda>val.
     io_bind (io_lift (slice_set docIDs i (doc + val))) (\<lambda>docIDs. readDeltaVInts read n (i + 1) (doc + val) docIDs))"

primrec readInts32 :: "(nat \<Rightarrow> ('r, u8 list) io) \<Rightarrow> nat \<Rightarrow> nat \<Rightarrow> u64 list \<Rightarrow> ('r DataInput, u64 list) io" where
  "readInts32 read 0 i docIDs = io_return docIDs"
| "readInts32 read (Suc n) i docIDs = io_bind (ReadUint32 read) (\<lambda>v.
     io_bind (io_lift (slice_set docIDs i (ucast v))) (\<lambda>docIDs. readInts32 read n (i + 1) docIDs))"

definition uint24 :: "u8 list \<Rightarrow> u64 option" where
  "uint24 bs = do {
     b0 \<leftarrow> slice_get bs 0;
     b1 \<leftarrow> slice_get bs 1;
     b2 \<leftarrow> slice_get bs 2;
     Some (push_bit 16 (ucast b0) OR push_bit 8 (ucast b1) OR ucast b2)
   }"

text \<open>The eight assignments to \<open>docIDs\<close>, one for each of the slices of \<open>bs\<close>\<close>

primrec store24 :: "u8 list \<Rightarrow> nat \<Rightarrow> (int \<times> int) list \<Rightarrow> u64 list \<Rightarrow> u64 list option" where
  "store24 bs i [] docIDs = Some docIDs"
| "store24 bs i (p # ps) docIDs = do {
     s \<leftarrow> sub_slice bs (fst p) (snd p);
     v \<leftarrow> uint24 s;
     docIDs \<leftarrow> slice_set docIDs i v;
     store24 bs (i + 1) ps docIDs
   }"

text \<open>Both loops of \<open>readInts24\<close>, and \<open>bs\<close>, of which a short read leaves what it held\<close>

function readInts24 :: "(nat \<Rightarrow> ('r, u8 list) io) \<Rightarrow> nat \<Rightarrow> nat \<Rightarrow> u8 list \<Rightarrow> u64 list \<Rightarrow> ('r DataInput, u64 list) io" where
  "readInts24 read cnt i bs docIDs =
     (if i + 7 < cnt then io_bind (read_slice read 24) (\<lambda>got.
        let bs = got @ drop (length got) bs in
        io_bind (io_lift (store24 bs i [(0, 3), (3, 6), (6, 9), (9, 12), (12, 15), (15, 18), (18, 21), (21, 24)] docIDs))
          (\<lambda>docIDs. readInts24 read cnt (i + 8) bs docIDs))
      else if i < cnt then io_bind (read_slice read 3) (\<lambda>got.
        let bs = got @ drop (length got) bs in
        io_bind (io_lift (store24 bs i [(0, 3)] docIDs)) (\<lambda>docIDs. readInts24 read cnt (i + 1) bs docIDs))
      else io_return docIDs)"
  by pat_completeness auto
termination
  by (relation "measure (\<lambda>(read, cnt, i, bs, docIDs). cnt - i)") auto

declare readInts24.simps [simp del]

definition ReadInts :: "(nat \<Rightarrow> ('r, u8 list) io) \<Rightarrow> nat \<Rightarrow> u64 list \<Rightarrow> ('r DataInput, u64 list) io" where
  "ReadInts read cnt docIDs = io_bind (ReadByte read) (\<lambda>bpv.
     if bpv = 0 then readDeltaVInts read cnt 0 0 docIDs
     else if bpv = 24 then readInts24 read cnt 0 (replicate 24 0) docIDs
     else if bpv = 32 then readInts32 read cnt 0 docIDs
     else io_fail (Err ''unsupported number of bits per value''))"

subsection \<open>Reading for a visitor\<close>

text \<open>The state is that of the input and that of the visitor; \<open>visit\<close> is its method.\<close>

definition on_input :: "('d, 'a) io \<Rightarrow> ('d \<times> 'v, 'a) io" where
  "on_input m s = (case m (fst s) of None \<Rightarrow> None | Some (x, d) \<Rightarrow> Some (x, (d, snd s)))"

definition on_visitor :: "('v, 'a) io \<Rightarrow> ('d \<times> 'v, 'a) io" where
  "on_visitor m s = (case m (snd s) of None \<Rightarrow> None | Some (x, v) \<Rightarrow> Some (x, (fst s, v)))"

primrec readDeltaVIntsVisitor ::
  "(nat \<Rightarrow> ('r, u8 list) io) \<Rightarrow> (u64 \<Rightarrow> ('v, unit) io) \<Rightarrow> nat \<Rightarrow> u64 \<Rightarrow> ('r DataInput \<times> 'v, unit) io" where
  "readDeltaVIntsVisitor read visit 0 doc = io_return ()"
| "readDeltaVIntsVisitor read visit (Suc n) doc = io_bind (on_input (ReadUvarint read)) (\<lambda>v.
     io_bind (on_visitor (visit (doc + v))) (\<lambda>_. readDeltaVIntsVisitor read visit n (doc + v)))"

primrec readInts32Visitor :: "(nat \<Rightarrow> ('r, u8 list) io) \<Rightarrow> (u64 \<Rightarrow> ('v, unit) io) \<Rightarrow> nat \<Rightarrow> ('r DataInput \<times> 'v, unit) io" where
  "readInts32Visitor read visit 0 = io_return ()"
| "readInts32Visitor read visit (Suc n) = io_bind (on_input (ReadUint32 read)) (\<lambda>v.
     io_bind (on_visitor (visit (ucast v))) (\<lambda>_. readInts32Visitor read visit n))"

primrec visit24 :: "(u64 \<Rightarrow> ('v, unit) io) \<Rightarrow> u8 list \<Rightarrow> (int \<times> int) list \<Rightarrow> ('d \<times> 'v, unit) io" where
  "visit24 visit bs [] = io_return ()"
| "visit24 visit bs (p # ps) =
     io_bind (io_lift (do { s \<leftarrow> sub_slice bs (fst p) (snd p); uint24 s })) (\<lambda>v.
     io_bind (on_visitor (visit v)) (\<lambda>_. visit24 visit bs ps))"

function readInts24Visitor ::
  "(nat \<Rightarrow> ('r, u8 list) io) \<Rightarrow> (u64 \<Rightarrow> ('v, unit) io) \<Rightarrow> nat \<Rightarrow> nat \<Rightarrow> u8 list \<Rightarrow> ('r DataInput \<times> 'v, unit) io" where
  "readInts24Visitor read visit cnt i bs =
     (if i + 7 < cnt then io_bind (on_input (read_slice read 24)) (\<lambda>got.
        let bs = got @ drop (length got) bs in
        io_bind (visit24 visit bs [(0, 3), (3, 6), (6, 6), (9, 12), (12, 15), (15, 18), (18, 21), (21, 24)])
          (\<lambda>_. readInts24Visitor read visit cnt (i + 8) bs))
      else if i < cnt then io_bind (on_input (read_slice read 3)) (\<lambda>got.
        let bs = got @ drop (length got) bs in
        io_bind (visit24 visit bs [(0, 3)]) (\<lambda>_. readInts24Visitor read visit cnt (i + 1) bs))
      else io_return ())"
  by pat_completeness auto
termination
  by (relation "measure (\<lambda>(read, visit, cnt, i, bs). cnt - i)") auto

declare readInts24Visitor.simps [simp del]

definition ReadIntsVisitor :: "(nat \<Rightarrow> ('r, u8 list) io) \<Rightarrow> (u64 \<Rightarrow> ('v, unit) io) \<Rightarrow> nat \<Rightarrow> ('r DataInput \<times> 'v, unit) io" where
  "ReadIntsVisitor read visit cnt = io_bind (on_input (ReadByte read)) (\<lambda>bpv.
     if bpv = 0 then readDeltaVIntsVisitor read visit cnt 0
     else if bpv = 32 then readInts32Visitor read visit cnt
     else if bpv = 24 then readInts24Visitor read visit cnt 0 (replicate 24 0)
     else io_fail (Err ''unsupported number of bits per value''))"

end
