(* ===== verification/Doc_Ids_Correct.thy ===== *)
theory Doc_Ids_Correct
  imports Doc_Ids Data_IO_Correct
begin

text \<open>
  The documents of a leaf: what is written, the round trip, and what a visitor is given.
\<close>

subsection \<open>The three forms\<close>

definition delta_bytes :: "u64 \<Rightarrow> u64 list \<Rightarrow> u8 list" where
  "delta_bytes previous docs = concat (map put_uvarint (map2 (-) docs (previous # docs)))"

lemma delta_bytes_Cons: "delta_bytes previous (doc # docs) = put_uvarint (doc - previous) @ delta_bytes doc docs"
  by (simp add: delta_bytes_def)

lemma delta_bytes_Nil [simp]: "delta_bytes previous [] = []"
  by (simp add: delta_bytes_def)

definition bytes24 :: "u64 \<Rightarrow> u8 list" where
  "bytes24 doc = put_uint 2 (ucast (signed_drop_bit 8 doc) :: u16) @ [ucast doc]"

definition bytes32 :: "u64 \<Rightarrow> u8 list" where
  "bytes32 doc = put_uint 4 (ucast doc :: u32)"

lemma length_bytes24 [simp]: "length (bytes24 doc) = 3"
  by (simp add: bytes24_def)

lemma uint24_bytes24:
  assumes "unat doc \<le> 0xFFFFFF"
  shows "uint24 (bytes24 doc) = Some doc"
proof -
  have small: "\<not> bit doc j" if "24 \<le> j" for j
    using bit_high_zero [of doc 24 j] assms that by simp
  have "bytes24 doc = [ucast (drop_bit 8 (ucast (signed_drop_bit 8 doc) :: u16)), ucast (ucast (signed_drop_bit 8 doc) :: u16), ucast doc]"
    by (simp add: bytes24_def put_uint_def upt_rec numeral_2_eq_2)
  moreover have "push_bit 16 (ucast (ucast (drop_bit 8 (ucast (signed_drop_bit 8 doc) :: u16)) :: u8)) OR
      push_bit 8 (ucast (ucast (ucast (signed_drop_bit 8 doc) :: u16) :: u8)) OR ucast (ucast doc :: u8) = doc"
    (is "?l = doc")
  proof (rule bit_word_eqI)
    fix j assume j: "j < LENGTH(64)"
    have "bit ?l j \<longleftrightarrow> j < 24 \<and> bit doc j"
    proof -
      consider "j < 8" | "8 \<le> j" "j < 16" | "16 \<le> j"
        by linarith
      then show ?thesis
      proof cases
        case 3
        then have "16 + (j - 16) = j"
          by simp
        then show ?thesis
          using j 3 by (auto simp: bit_simps)
      qed (use j in \<open>auto simp: bit_simps\<close>)
    qed
    then show "bit ?l j \<longleftrightarrow> bit doc j"
      using small [of j] by (cases "j < 24") auto
  qed
  ultimately show ?thesis
    by (simp add: uint24_def slice_get_def)
qed

lemma ucast_bytes32:
  assumes "unat doc < 2 ^ 32"
  shows "ucast (ucast doc :: u32) = (doc :: u64)"
proof (rule bit_word_eqI)
  fix j assume "j < LENGTH(64)"
  then show "bit (ucast (ucast doc :: u32) :: u64) j \<longleftrightarrow> bit doc j"
    using bit_high_zero [OF assms, of j] by (cases "j < 32") (auto simp: bit_simps)
qed

lemma foldl_or_le: "doc \<in> set docs \<Longrightarrow> doc \<le> foldl (OR) acc docs" for doc :: u64
proof (induction docs arbitrary: acc)
  case (Cons d docs)
  have mono: "acc \<le> foldl (OR) acc docs" for acc :: u64 and docs
  proof (induction docs arbitrary: acc)
    case (Cons a docs)
    show ?case
      using order_trans [OF le_word_or2 [of acc a] Cons.IH [of "acc OR a"]] by simp
  qed simp
  show ?case
  proof (cases "doc = d")
    case True
    then show ?thesis
      using mono [of "acc OR d" docs] le_word_or1 [of d acc] by simp
  qed (use Cons in auto)
qed simp

lemma foldl_or_less: "\<forall>doc \<in> set docs. unat doc < 2 ^ n \<Longrightarrow> unat acc < 2 ^ n \<Longrightarrow> n \<le> 64 \<Longrightarrow> unat (foldl (OR) (acc :: u64) docs) < 2 ^ n"
proof (induction docs arbitrary: acc)
  case (Cons d docs)
  have "take_bit n (acc OR d) = acc OR d"
    using Cons.prems by (simp add: unat_less_exp_iff_take_bit)
  then have "unat (acc OR d) < 2 ^ n"
    using Cons.prems(3) by (simp add: unat_less_exp_iff_take_bit)
  then show ?case
    using Cons by simp
qed simp

subsection \<open>Writing\<close>

context data_sink begin

lemma write_deltas_encodes: "encodes (write_deltas wr previous docs) (delta_bytes previous docs)"
proof (induction docs arbitrary: previous)
  case (Cons doc docs)
  then show ?case
    unfolding write_deltas.simps delta_bytes_Cons by (intro encodes_bind WriteUvarint_encodes)
qed (simp add: encodes_return)

lemma write_ints24_encodes: "encodes (write_ints24 wr docs) (concat (map bytes24 docs))"
proof (induction docs)
  case (Cons doc docs)
  have "concat (map bytes24 (doc # docs)) = put_uint 2 (ucast (signed_drop_bit 8 doc) :: u16) @ [ucast doc] @ concat (map bytes24 docs)"
    by (simp add: bytes24_def)
  then show ?case
    using Cons.IH by (simp only: write_ints24.simps) (intro encodes_bind WriteUint16_encodes WriteByte_encodes)
qed (simp add: encodes_return)

lemma write_ints32_encodes: "encodes (write_ints32 wr docs) (concat (map bytes32 docs))"
proof (induction docs)
  case (Cons doc docs)
  then show ?case
    unfolding write_ints32.simps bytes32_def list.map concat.simps by (intro encodes_bind WriteUint32_encodes)
qed (simp add: encodes_return)

end

text \<open>What \<open>WriteDocIds\<close> writes\<close>

definition is_24 :: "u64 list \<Rightarrow> bool" where
  "is_24 docs \<longleftrightarrow> \<not> sorted (map sint docs) \<and> sint (foldl (OR) 0 docs) \<le> 0xFFFFFF"

definition doc_bytes :: "u64 list \<Rightarrow> u8 list" where
  "doc_bytes docs =
     (if sorted (map sint docs) then 0 # delta_bytes 0 docs
      else if is_24 docs then 24 # concat (map bytes24 docs) else 32 # concat (map bytes32 docs))"

context data_sink begin

lemma WriteDocIds_encodes: "encodes (WriteDocIds wr docs) (doc_bytes docs)"
proof -
  have Cons: "encodes (io_bind (WriteByte wr b) (\<lambda>_. f)) (b # bs)" if "encodes f bs" for b f bs
    using encodes_bind [OF WriteByte_encodes that, of b] by simp
  show ?thesis
  proof (cases "sorted (map sint docs)")
    case True
    then show ?thesis
      using Cons [OF write_deltas_encodes] by (simp add: WriteDocIds_def doc_bytes_def)
  next
    case False
    then show ?thesis
      using Cons [OF write_ints24_encodes] Cons [OF write_ints32_encodes]
      by (cases "is_24 docs") (simp_all add: WriteDocIds_def doc_bytes_def is_24_def Let_def)
  qed
qed

end

subsection \<open>Reading\<close>

lemma io_bind_lift [simp]: "io_bind (io_lift (Some x)) f = f x" "io_bind (io_lift None) f = io_panic"
  by (rule ext, simp add: io_lift_def io_return_def io_panic_def io_bind_def)+

lemma bytes24_slice:
  assumes "j < length ds"
  shows "sub_slice (concat (map bytes24 ds) @ rest) (int (3 * j)) (int (3 * j + 3)) = Some (bytes24 (ds ! j))"
proof -
  have len: "length (concat (map bytes24 ds)) = 3 * length ds" for ds
    by (induction ds) simp_all
  have "concat (map bytes24 ds) = concat (map bytes24 (take j ds)) @ bytes24 (ds ! j) @ concat (map bytes24 (drop (Suc j) ds))"
    using assms by (subst id_take_nth_drop [of j ds]) simp_all
  moreover have "length (concat (map bytes24 (take j ds))) = 3 * j"
    using assms by (simp add: len)
  moreover have "3 * j + 3 \<le> length (concat (map bytes24 ds) @ rest)"
    using assms by (simp add: len)
  ultimately show ?thesis
    using sub_slice_nat [of "3 * j" 3 "concat (map bytes24 ds) @ rest"] by simp
qed

definition slices24 :: "nat \<Rightarrow> nat \<Rightarrow> (int \<times> int) list" where
  "slices24 k n = map (\<lambda>j. (int (3 * j), int (3 * j + 3))) [k..<n]"

lemma slices24_8: "slices24 0 8 = [(0, 3), (3, 6), (6, 9), (9, 12), (12, 15), (15, 18), (18, 21), (21, 24)]"
  and slices24_1: "slices24 0 1 = [(0, 3)]"
  by (simp_all add: slices24_def upt_rec)

lemma slices24_Cons: "k < n \<Longrightarrow> slices24 k n = (int (3 * k), int (3 * k + 3)) # slices24 (k + 1) n"
  by (simp add: slices24_def upt_conv_Cons)

lemma store24_ok:
  assumes "\<forall>doc \<in> set ds. unat doc \<le> 0xFFFFFF"
  shows "k \<le> length ds \<Longrightarrow> i + (length ds - k) \<le> length ids \<Longrightarrow>
    store24 (concat (map bytes24 ds) @ rest) i (slices24 k (length ds)) ids = Some (write_block ids i (drop k ds))"
proof (induction "length ds - k" arbitrary: k i ids)
  case 0
  then show ?case
    by (simp add: slices24_def)
next
  case (Suc n)
  have k: "k < length ds" "n = length ds - (k + 1)"
    using Suc.hyps(2) by simp_all
  have "uint24 (bytes24 (ds ! k)) = Some (ds ! k)"
    using assms k(1) by (intro uint24_bytes24) simp
  moreover have "store24 (concat (map bytes24 ds) @ rest) (i + 1) (slices24 (k + 1) (length ds)) (ids[i := ds ! k]) =
      Some (write_block (ids[i := ds ! k]) (i + 1) (drop (k + 1) ds))"
    using Suc.hyps(2) Suc.prems k by (intro Suc.hyps(1)) simp_all
  moreover have "slice_set ids i (ds ! k) = Some (ids[i := ds ! k])"
    using Suc.prems(2) k(1) by (simp add: slice_set_def)
  moreover have "write_block (ids[i := ds ! k]) (i + 1) (drop (k + 1) ds) = write_block ids i (drop k ds)"
    using write_block_Cons [of i ids "ds ! k" "drop (k + 1) ds"] Suc.prems(2) k(1) Cons_nth_drop_Suc [of k ds] by simp
  ultimately show ?case
    unfolding slices24_Cons [OF k(1)] store24.simps fst_conv snd_conv bytes24_slice [OF k(1)] Option.bind.simps by (simp only: Option.bind.simps)
qed

context data_source begin

lemma read_slice_decodes: "decodes (read_slice read (length bs)) bs bs"
  unfolding decodes_def using read_slice_holds by blast

lemma readDeltaVInts_decodes:
  "i + length docs \<le> length ids \<Longrightarrow> decodes (readDeltaVInts read (length docs) i previous ids) (delta_bytes previous docs) (write_block ids i docs)"
proof (induction docs arbitrary: i previous ids)
  case (Cons doc docs)
  have i: "slice_set ids i (previous + (doc - previous)) = Some (ids[i := doc])"
    using Cons.prems by (simp add: slice_set_def)
  have "decodes (readDeltaVInts read (length docs) (i + 1) doc (ids[i := doc])) (delta_bytes doc docs) (write_block (ids[i := doc]) (i + 1) docs)"
    using Cons.prems by (intro Cons.IH) simp
  moreover have "write_block (ids[i := doc]) (i + 1) docs = write_block ids i (doc # docs)"
    using write_block_Cons [of i ids doc docs] Cons.prems by simp
  ultimately show ?case
    unfolding length_Cons readDeltaVInts.simps delta_bytes_Cons
    by (intro decodes_bind [OF ReadUvarint_decodes]) (simp only: i io_bind_lift, simp)
qed simp

lemma readInts32_decodes:
  "\<forall>doc \<in> set docs. unat doc < 2 ^ 32 \<Longrightarrow> i + length docs \<le> length ids \<Longrightarrow>
   decodes (readInts32 read (length docs) i ids) (concat (map bytes32 docs)) (write_block ids i docs)"
proof (induction docs arbitrary: i ids)
  case (Cons doc docs)
  have i: "slice_set ids i (ucast (ucast doc :: u32)) = Some (ids[i := doc])"
    using Cons.prems ucast_bytes32 [of doc] by (simp add: slice_set_def)
  have "decodes (readInts32 read (length docs) (i + 1) (ids[i := doc])) (concat (map bytes32 docs)) (write_block (ids[i := doc]) (i + 1) docs)"
    using Cons.prems by (intro Cons.IH) simp_all
  moreover have "write_block (ids[i := doc]) (i + 1) docs = write_block ids i (doc # docs)"
    using write_block_Cons [of i ids doc docs] Cons.prems by simp
  ultimately show ?case
    unfolding length_Cons readInts32.simps list.map concat.simps bytes32_def
    by (intro decodes_bind [OF ReadUint32_decodes]) (simp only: i io_bind_lift)
qed simp

lemma readInts24_decodes:
  "\<forall>doc \<in> set docs. unat doc \<le> 0xFFFFFF \<Longrightarrow> i + length docs \<le> length ids \<Longrightarrow> length bs = 24 \<Longrightarrow> cnt = i + length docs \<Longrightarrow>
   decodes (readInts24 read cnt i bs ids) (concat (map bytes24 docs)) (write_block ids i docs)"
proof (induction "length docs" arbitrary: docs i bs ids rule: less_induct)
  case less
  have step: "decodes (io_bind (read_slice read (3 * n)) (\<lambda>got. let bs = got @ drop (length got) bs in
        io_bind (io_lift (store24 bs i (slices24 0 n) ids)) (\<lambda>ids. readInts24 read cnt (i + n) bs ids)))
      (concat (map bytes24 docs)) (write_block ids i docs)" if n: "0 < n" "n \<le> 8" "n \<le> length docs" for n
  proof -
    define ds where "ds = take n docs"
    have ds: "length ds = n" "docs = ds @ drop n docs" "\<forall>doc \<in> set ds. unat doc \<le> 0xFFFFFF" "\<forall>doc \<in> set (drop n docs). unat doc \<le> 0xFFFFFF"
      using n(3) less.prems(1) by (auto simp: ds_def dest: in_set_takeD in_set_dropD)
    define B where "B = concat (map bytes24 ds)"
    have len: "length B = 3 * n"
      unfolding B_def using ds(1) by (induction ds arbitrary: n) auto
    have store: "store24 (B @ drop (length B) bs) i (slices24 0 n) ids = Some (write_block ids i ds)"
      using store24_ok [OF ds(3), of 0 i ids "drop (length B) bs"] ds(1) n(3) less.prems(2) by (simp add: B_def)
    have "decodes (readInts24 read cnt (i + n) (B @ drop (length B) bs) (write_block ids i ds)) (concat (map bytes24 (drop n docs)))
        (write_block (write_block ids i ds) (i + n) (drop n docs))"
    proof (rule less.hyps [OF _ ds(4)])
      show "length (drop n docs) < length docs"
        using n by simp
      show "i + n + length (drop n docs) \<le> length (write_block ids i ds)"
        using n less.prems(2) ds(1) by simp
      show "length (B @ drop (length B) bs) = 24"
        using len n(2) less.prems(3) by simp
      show "cnt = i + n + length (drop n docs)"
        using less.prems(4) n(3) by simp
    qed
    moreover have "write_block (write_block ids i ds) (i + n) (drop n docs) = write_block ids i docs"
      using write_block_append [of i ds "drop n docs" ids] ds(1,2) less.prems(2) n(3) by (simp flip: ds(2))
    ultimately have rest: "decodes (io_bind (io_lift (store24 (B @ drop (length B) bs) i (slices24 0 n) ids))
        (\<lambda>ids. readInts24 read cnt (i + n) (B @ drop (length B) bs) ids)) (concat (map bytes24 (drop n docs))) (write_block ids i docs)"
      by (simp only: store io_bind_lift)
    have "concat (map bytes24 docs) = B @ concat (map bytes24 (drop n docs))"
      unfolding B_def by (subst ds(2)) simp
    then show ?thesis
      using decodes_bind [OF read_slice_decodes [of B], of "\<lambda>got. let bs = got @ drop (length got) bs in
        io_bind (io_lift (store24 bs i (slices24 0 n) ids)) (\<lambda>ids. readInts24 read cnt (i + n) bs ids)"] rest
      by (simp only: Let_def len)
  qed
  show ?case
  proof (cases "8 \<le> length docs")
    case True
    then have "i + 7 < cnt"
      using less.prems(4) by simp
    then show ?thesis
      using step [of 8] True unfolding slices24_8 by (subst readInts24.simps) (simp only: if_True, simp)
  next
    case False
    show ?thesis
    proof (cases "docs = []")
      case True
      then show ?thesis
        using less.prems(4) by (subst readInts24.simps) simp
    next
      case ne: False
      then have "\<not> i + 7 < cnt" "i < cnt" "1 \<le> length docs"
        using False less.prems(4) by (simp_all add: Suc_leI)
      then show ?thesis
        using step [of 1] unfolding slices24_1 by (subst readInts24.simps) (simp only: if_True if_False, simp)
    qed
  qed
qed

end

text \<open>The documents that come back: any when they are in order, otherwise those of at most 32 bits\<close>

definition docs_ok :: "u64 list \<Rightarrow> bool" where
  "docs_ok docs \<longleftrightarrow> sorted (map sint docs) \<or> (\<forall>doc \<in> set docs. unat doc < 2 ^ 32)"

lemma is_24_small:
  assumes "is_24 docs" and "docs_ok docs" and "doc \<in> set docs"
  shows "unat doc \<le> 0xFFFFFF"
proof -
  define m where "m = foldl (OR) 0 docs"
  have "unat m < 2 ^ 32"
    using assms(1,2) unfolding m_def by (intro foldl_or_less) (auto simp: docs_ok_def is_24_def)
  then have "sint m = int (unat m)"
    using sint_of_nat_u64 [of "unat m"] by simp
  then have "unat m \<le> 0xFFFFFF"
    using assms(1) unfolding is_24_def m_def [symmetric] by linarith
  moreover have "unat doc \<le> unat m"
    using foldl_or_le [OF assms(3)] by (simp add: m_def word_le_nat_alt)
  ultimately show ?thesis
    by simp
qed

context data_source begin

lemma ReadInts_decodes:
  assumes "docs_ok docs" and "length docs \<le> length ids"
  shows "decodes (ReadInts read (length docs) ids) (doc_bytes docs) (write_block ids 0 docs)"
proof -
  have Cons: "decodes (ReadInts read (length docs) ids) (b # bs) x"
    if "decodes (if b = 0 then readDeltaVInts read (length docs) 0 0 ids
     else if b = 24 then readInts24 read (length docs) 0 (replicate 24 0) ids
     else if b = 32 then readInts32 read (length docs) 0 ids
     else io_fail (Err ''unsupported number of bits per value'')) bs x" for b bs x
    using decodes_bind [OF ReadByte_decodes [of b], of "\<lambda>b. if b = 0 then readDeltaVInts read (length docs) 0 0 ids
     else if b = 24 then readInts24 read (length docs) 0 (replicate 24 0) ids
     else if b = 32 then readInts32 read (length docs) 0 ids
     else io_fail (Err ''unsupported number of bits per value'')", OF that]
    unfolding ReadInts_def by (simp only: append_Cons append_Nil)
  show ?thesis
  proof (cases "sorted (map sint docs)")
    case True
    have "decodes (readDeltaVInts read (length docs) 0 0 ids) (delta_bytes 0 docs) (write_block ids 0 docs)"
      using assms(2) by (intro readDeltaVInts_decodes) simp
    then show ?thesis
      unfolding doc_bytes_def if_P [OF True] by (intro Cons) simp
  next
    case False
    show ?thesis
    proof (cases "is_24 docs")
      case True
      have "decodes (readInts24 read (length docs) 0 (replicate 24 0) ids) (concat (map bytes24 docs)) (write_block ids 0 docs)"
        using is_24_small [OF True assms(1)] assms(2) by (intro readInts24_decodes) simp_all
      then show ?thesis
        unfolding doc_bytes_def if_P [OF True] if_not_P [OF False] by (intro Cons) simp
    next
      case no: False
      have "decodes (readInts32 read (length docs) 0 ids) (concat (map bytes32 docs)) (write_block ids 0 docs)"
        using False assms by (intro readInts32_decodes) (simp_all add: docs_ok_def)
      then show ?thesis
        unfolding doc_bytes_def if_not_P [OF no] if_not_P [OF False] by (intro Cons) simp
    qed
  qed
qed

end


subsection \<open>Visiting\<close>

context data_source begin

text \<open>\<open>decodes\<close> with a visitor beside the input, in state \<open>v\<close> before and \<open>v'\<close> after\<close>

definition visits :: "('r DataInput \<times> 'v, 'b) io \<Rightarrow> u8 list \<Rightarrow> 'b \<Rightarrow> 'v \<Rightarrow> 'v \<Rightarrow> bool" where
  "visits f bs x v v' \<longleftrightarrow> (\<forall>d rest. holds d (bs @ rest) \<longrightarrow> (\<exists>d'. f (d, v) = Some (Inr x, (d', v')) \<and> holds d' rest))"

lemma visitsD:
  assumes "visits f bs x v v'" and "holds d (bs @ rest)"
  obtains d' where "f (d, v) = Some (Inr x, (d', v'))" and "holds d' rest"
  using assms unfolding visits_def by blast

lemma visits_return [simp]: "visits (io_return x) [] x v v"
  by (simp add: visits_def io_return_def)

lemma visits_bind:
  assumes "visits f bs x v v1" and "visits (g x) cs y v1 v2"
  shows "visits (io_bind f g) (bs @ cs) y v v2"
  unfolding visits_def
proof (intro allI impI)
  fix d rest
  assume "holds d ((bs @ cs) @ rest)"
  then have "holds d (bs @ cs @ rest)"
    by simp
  from visitsD [OF assms(1) this] obtain d1 where d1: "f (d, v) = Some (Inr x, (d1, v1))" "holds d1 (cs @ rest)" .
  from visitsD [OF assms(2) d1(2)] obtain d2 where "g x (d1, v1) = Some (Inr y, (d2, v2))" "holds d2 rest" .
  then show "\<exists>d'. io_bind f g (d, v) = Some (Inr y, (d', v2)) \<and> holds d' rest"
    using d1 by (simp add: io_simps)
qed

lemma visits_input:
  assumes "decodes f bs x"
  shows "visits (on_input f) bs x v v"
  unfolding visits_def
proof (intro allI impI)
  fix d rest
  assume "holds d (bs @ rest)"
  from decodesD [OF assms this] obtain d' where "f d = Some (Inr x, d')" "holds d' rest" .
  then show "\<exists>d'. on_input f (d, v) = Some (Inr x, (d', v)) \<and> holds d' rest"
    by (simp add: on_input_def)
qed

lemma visits_visitor: "visits (io_bind (on_visitor (\<lambda>v. Some (Inr (), step x v))) f) bs y v v'" if "visits (f ()) bs y (step x v) v'"
  using visits_bind [of "on_visitor (\<lambda>v. Some (Inr (), step x v))" "[]" "()" v "step x v" f bs y v'] that
  by (simp add: visits_def on_visitor_def)

text \<open>A visitor that accepts every document: its state goes from \<open>v\<close> to \<open>step x v\<close>.\<close>

lemma readDeltaVIntsVisitor_visits:
  "visits (readDeltaVIntsVisitor read (\<lambda>x v. Some (Inr (), step x v)) (length docs) previous) (delta_bytes previous docs) () v (fold step docs v)"
proof (induction docs arbitrary: previous v)
  case (Cons doc docs)
  have doc: "previous + (doc - previous) = doc"
    by simp
  show ?case
    unfolding length_Cons readDeltaVIntsVisitor.simps delta_bytes_Cons
    by (intro visits_bind [OF visits_input [OF ReadUvarint_decodes]] visits_visitor) (use Cons.IH in \<open>simp add: doc\<close>)
qed simp

lemma readInts32Visitor_visits:
  "\<forall>doc \<in> set docs. unat doc < 2 ^ 32 \<Longrightarrow>
   visits (readInts32Visitor read (\<lambda>x v. Some (Inr (), step x v)) (length docs)) (concat (map bytes32 docs)) () v (fold step docs v)"
proof (induction docs arbitrary: v)
  case (Cons doc docs)
  then have doc: "ucast (ucast doc :: u32) = doc"
    by (simp add: ucast_bytes32)
  have "concat (map bytes32 (doc # docs)) = put_uint 4 (ucast doc :: u32) @ concat (map bytes32 docs)"
    by (simp add: bytes32_def)
  moreover have "visits (readInts32Visitor read (\<lambda>x v. Some (Inr (), step x v)) (length docs)) (concat (map bytes32 docs)) ()
      (step doc v) (fold step docs (step doc v))"
    using Cons by simp
  ultimately show ?case
    unfolding length_Cons readInts32Visitor.simps
    by (simp only: fold_simps) (intro visits_bind [OF visits_input [OF ReadUint32_decodes]] visits_visitor, simp only: doc)
qed simp

lemma readInts24Visitor_visits:
  "\<forall>doc \<in> set docs. unat doc \<le> 0xFFFFFF \<Longrightarrow> length docs < 8 \<Longrightarrow> cnt = i + length docs \<Longrightarrow>
   visits (readInts24Visitor read (\<lambda>x v. Some (Inr (), step x v)) cnt i bs) (concat (map bytes24 docs)) () v (fold step docs v)"
proof (induction docs arbitrary: i bs v)
  case Nil
  then show ?case
    by (subst readInts24Visitor.simps) simp
next
  case (Cons doc docs)
  have i: "\<not> i + 7 < cnt" "i < cnt"
    using Cons.prems(2,3) by simp_all
  have "sub_slice (bytes24 doc @ rest) 0 3 = Some (bytes24 doc)" for rest
    using sub_slice_nat [of 0 3 "bytes24 doc @ rest"] by simp
  then have doc: "visit24 visit (bytes24 doc @ rest) [(0, 3)] = io_bind (on_visitor (visit doc)) (\<lambda>_. io_return ())" for visit rest
    using Cons.prems(1) by (simp add: uint24_bytes24)
  have IH: "visits (readInts24Visitor read (\<lambda>x v. Some (Inr (), step x v)) cnt (i + 1) bs) (concat (map bytes24 docs)) () (step doc v) (fold step docs (step doc v))" for bs
    using Cons.prems by (intro Cons.IH) simp_all
  have assoc: "io_bind (io_bind f (\<lambda>_. io_return ())) g = io_bind f (\<lambda>_. g ())" for f :: "('r DataInput \<times> 'c, unit) io" and g :: "unit \<Rightarrow> ('r DataInput \<times> 'c, unit) io"
    by (rule ext) (simp add: io_bind_def io_return_def split: option.split sum.split prod.split)
  have "visits (io_bind (visit24 (\<lambda>x v. Some (Inr (), step x v)) (bytes24 doc @ drop 3 bs) [(0, 3)])
      (\<lambda>_. readInts24Visitor read (\<lambda>x v. Some (Inr (), step x v)) cnt (i + 1) (bytes24 doc @ drop 3 bs))) (concat (map bytes24 docs)) () v (fold step docs (step doc v))"
    unfolding doc assoc by (intro visits_visitor IH)
  moreover have "decodes (read_slice read 3) (bytes24 doc) (bytes24 doc)"
    using read_slice_decodes [of "bytes24 doc"] by simp
  ultimately have "visits (io_bind (on_input (read_slice read 3)) (\<lambda>got. let bs = got @ drop (length got) bs in
        io_bind (visit24 (\<lambda>x v. Some (Inr (), step x v)) bs [(0, 3)]) (\<lambda>_. readInts24Visitor read (\<lambda>x v. Some (Inr (), step x v)) cnt (i + 1) bs)))
      (bytes24 doc @ concat (map bytes24 docs)) () v (fold step docs (step doc v))"
    by (intro visits_bind [where x = "bytes24 doc" and ?v1.0 = v] visits_input) (simp_all add: Let_def)
  then show ?case
    using i by (subst readInts24Visitor.simps) simp
qed

lemma readInts24Visitor_panics:
  assumes "\<forall>doc \<in> set docs. unat doc \<le> 0xFFFFFF" and "8 \<le> length docs" and "length bs = 24" and "holds d (concat (map bytes24 docs) @ rest)"
  shows "readInts24Visitor read (\<lambda>x v. Some (Inr (), step x v)) (length docs) 0 bs (d, v) = None"
proof -
  define ds where "ds = take 8 docs"
  have ds: "length ds = 8" "docs = ds @ drop 8 docs" "\<forall>doc \<in> set ds. unat doc \<le> 0xFFFFFF"
    using assms(1,2) by (auto simp: ds_def dest: in_set_takeD)
  define B where "B = concat (map bytes24 ds)"
  have len: "length B = 24"
    using ds(1) unfolding B_def by (simp add: length_concat comp_def sum_list_triv)
  have "concat (map bytes24 docs) = B @ concat (map bytes24 (drop 8 docs))"
    unfolding B_def by (subst ds(2)) simp
  then have "holds d (B @ concat (map bytes24 (drop 8 docs)) @ rest)"
    using assms(4) by simp
  from decodesD [OF read_slice_decodes this] obtain d' where d': "read_slice read 24 d = Some (Inr B, d')"
    by (simp only: len) blast
  have 0: "sub_slice B 0 3 = Some (bytes24 (ds ! 0))" and 1: "sub_slice B 3 6 = Some (bytes24 (ds ! 1))"
    using bytes24_slice [of 0 ds "[]"] bytes24_slice [of 1 ds "[]"] ds(1) by (simp_all add: B_def)
  have 2: "sub_slice B 6 6 = Some []"
    using sub_slice_nat [of 6 0 B] len by simp
  have u: "uint24 (bytes24 (ds ! j)) = Some (ds ! j)" if "j < 8" for j
    using ds(1,3) that by (intro uint24_bytes24) simp
  have none: "uint24 [] = None"
    by (simp add: uint24_def slice_get_def)
  have "visit24 (\<lambda>x v. Some (Inr (), step x v)) B [(0, 3), (3, 6), (6, 6), (9, 12), (12, 15), (15, 18), (18, 21), (21, 24)] (d', v) = None"
    unfolding visit24.simps fst_conv snd_conv 0 1 2 Option.bind.simps none using u [of 0] u [of 1]
    by (simp add: io_bind_def [of "on_visitor _"] on_visitor_def io_panic_def)
  moreover have "0 + 7 < length docs"
    using assms(2) by simp
  ultimately show ?thesis
    using len assms(3) d' by (subst readInts24Visitor.simps) (simp add: io_bind_def on_input_def Let_def)
qed

lemma ReadIntsVisitor_visits:
  assumes "docs_ok docs" and "\<not> (is_24 docs \<and> 8 \<le> length docs)"
  shows "visits (ReadIntsVisitor read (\<lambda>x v. Some (Inr (), step x v)) (length docs)) (doc_bytes docs) () v (fold step docs v)"
proof -
  let ?visit = "\<lambda>x v. Some (Inr (), step x v)"
  have Cons: "visits (ReadIntsVisitor read ?visit (length docs)) (b # bs) () v v'"
    if "visits (if b = 0 then readDeltaVIntsVisitor read ?visit (length docs) 0
     else if b = 32 then readInts32Visitor read ?visit (length docs)
     else if b = 24 then readInts24Visitor read ?visit (length docs) 0 (replicate 24 0)
     else io_fail (Err ''unsupported number of bits per value'')) bs () v v'" for b bs v'
    using visits_bind [OF visits_input [OF ReadByte_decodes [of b]], where g = "\<lambda>b. if b = 0 then readDeltaVIntsVisitor read ?visit (length docs) 0
     else if b = 32 then readInts32Visitor read ?visit (length docs)
     else if b = 24 then readInts24Visitor read ?visit (length docs) 0 (replicate 24 0)
     else io_fail (Err ''unsupported number of bits per value'')", OF that]
    unfolding ReadIntsVisitor_def by (simp only: append_Cons append_Nil)
  show ?thesis
  proof (cases "sorted (map sint docs)")
    case True
    show ?thesis
      unfolding doc_bytes_def if_P [OF True] by (intro Cons) (simp only: if_True refl readDeltaVIntsVisitor_visits)
  next
    case False
    show ?thesis
    proof (cases "is_24 docs")
      case True
      have "visits (readInts24Visitor read ?visit (length docs) 0 (replicate 24 0)) (concat (map bytes24 docs)) () v (fold step docs v)"
        using is_24_small [OF True assms(1)] assms(2) True by (intro readInts24Visitor_visits) simp_all
      then show ?thesis
        unfolding doc_bytes_def if_P [OF True] if_not_P [OF False] by (intro Cons) simp
    next
      case no: False
      have "visits (readInts32Visitor read ?visit (length docs)) (concat (map bytes32 docs)) () v (fold step docs v)"
        using False assms(1) by (intro readInts32Visitor_visits) (simp add: docs_ok_def)
      then show ?thesis
        unfolding doc_bytes_def if_not_P [OF no] if_not_P [OF False] by (intro Cons) simp
    qed
  qed
qed

lemma ReadIntsVisitor_panics:
  assumes "docs_ok docs" and "is_24 docs" "8 \<le> length docs" and "holds d (doc_bytes docs @ rest)"
  shows "ReadIntsVisitor read (\<lambda>x v. Some (Inr (), step x v)) (length docs) (d, v) = None"
proof -
  have b: "doc_bytes docs = 24 # concat (map bytes24 docs)"
    using assms(2) by (simp add: doc_bytes_def is_24_def)
  have "holds d ([24] @ concat (map bytes24 docs) @ rest)"
    using assms(4) by (simp add: b)
  from decodesD [OF ReadByte_decodes this] obtain d1 where d1: "ReadByte read d = Some (Inr 24, d1)" "holds d1 (concat (map bytes24 docs) @ rest)" .
  have "readInts24Visitor read (\<lambda>x v. Some (Inr (), step x v)) (length docs) 0 (replicate 24 0) (d1, v) = None"
    using is_24_small [OF assms(2,1)] assms(3) by (intro readInts24Visitor_panics [OF _ _ _ d1(2)]) simp_all
  then show ?thesis
    using d1(1) by (simp add: ReadIntsVisitor_def io_bind_def on_input_def)
qed

end

subsection \<open>Properties\<close>

text \<open>
  C39. The documents of a leaf come back: what \<open>WriteDocIds\<close> writes for any documents of at most 32 bits,
  and for any at all when they are in order, \<open>ReadInts\<close> reads into a slice with room for them, and
  changes nothing behind them, whichever of the three forms was chosen.
\<close>

theorem doc_ids_roundtrip:
  assumes "docs_ok docs" and "length docs \<le> length ids"
  shows "\<exists>w d. WriteDocIds Buffer_Write docs [] = Some (Inr (), w) \<and>
    ReadInts BytesInput_Read (length docs) ids (NewBaseDataInput (NewBytesInput w)) =
      Some (Inr (docs @ drop (length docs) ids), d)"
proof -
  obtain w where w: "WriteDocIds Buffer_Write docs [] = Some (Inr (), w)" "w = doc_bytes docs"
    using buffer_output.WriteDocIds_encodes [of docs] unfolding buffer_output.encodes_def by fastforce
  have "bytes_input.holds (NewBaseDataInput (NewBytesInput w)) (doc_bytes docs @ [])"
    unfolding w(2) append_Nil2 by (rule NewBytesInput_holds)
  then obtain d where "ReadInts BytesInput_Read (length docs) ids (NewBaseDataInput (NewBytesInput w)) = Some (Inr (write_block ids 0 docs), d)"
    using bytes_input.ReadInts_decodes [OF assms] unfolding bytes_input.decodes_def by blast
  moreover have "write_block ids 0 docs = docs @ drop (length docs) ids"
    by (simp add: write_block_def)
  ultimately show ?thesis
    using w(1) by auto
qed

text \<open>
  C40. \<open>ReadIntsVisitor\<close> hands the documents \<open>WriteDocIds\<close> wrote to the visitor one after the other, with
  one exception: when they were written in 24 bits, which is done when they are not in order, and there are
  eight of them or more, it panics at the third. It reads a document out of the slice \<open>bs[6:6]\<close>.
\<close>

theorem doc_ids_visited:
  assumes "docs_ok docs"
  shows "\<exists>w. WriteDocIds Buffer_Write docs [] = Some (Inr (), w) \<and>
    (if is_24 docs \<and> 8 \<le> length docs
     then ReadIntsVisitor BytesInput_Read (\<lambda>x v. Some (Inr (), step x v)) (length docs) (NewBaseDataInput (NewBytesInput w), v) = None
     else \<exists>d. ReadIntsVisitor BytesInput_Read (\<lambda>x v. Some (Inr (), step x v)) (length docs) (NewBaseDataInput (NewBytesInput w), v) =
       Some (Inr (), d, fold step docs v))"
proof -
  obtain w where w: "WriteDocIds Buffer_Write docs [] = Some (Inr (), w)" "w = doc_bytes docs"
    using buffer_output.WriteDocIds_encodes [of docs] unfolding buffer_output.encodes_def by fastforce
  have h: "bytes_input.holds (NewBaseDataInput (NewBytesInput w)) (doc_bytes docs @ [])"
    unfolding w(2) append_Nil2 by (rule NewBytesInput_holds)
  show ?thesis
  proof (cases "is_24 docs \<and> 8 \<le> length docs")
    case True
    then show ?thesis
      using w(1) bytes_input.ReadIntsVisitor_panics [OF assms _ _ h] by simp
  next
    case False
    obtain d where "ReadIntsVisitor BytesInput_Read (\<lambda>x v. Some (Inr (), step x v)) (length docs) (NewBaseDataInput (NewBytesInput w), v) =
       Some (Inr (), d, fold step docs v)"
      using bytes_input.visitsD [OF bytes_input.ReadIntsVisitor_visits [OF assms False, of step v] h] .
    then show ?thesis
      unfolding if_not_P [OF False] using w(1) by blast
  qed
qed


definition ex_docs :: "u64 list" where
  "ex_docs = [9, 3, 7]"

lemma ex_docs: "docs_ok ex_docs"
  by (simp add: docs_ok_def ex_docs_def)

lemma ex_docs_length: "length ex_docs \<le> length [0, 0, 0, 5 :: u64]" "ex_docs @ drop (length ex_docs) [0, 0, 0, 5] = [9, 3, 7, 5]"
  by (simp_all add: ex_docs_def)

theorem doc_ids_roundtrip_witness:
  "\<exists>w d. WriteDocIds Buffer_Write ex_docs [] = Some (Inr (), w) \<and>
    ReadInts BytesInput_Read (length ex_docs) [0, 0, 0, 5] (NewBaseDataInput (NewBytesInput w)) = Some (Inr [9, 3, 7, 5], d)"
  using doc_ids_roundtrip [OF ex_docs ex_docs_length(1)] unfolding ex_docs_length(2) .

definition ex_docs8 :: "u64 list" where
  "ex_docs8 = [9, 3, 7, 1, 2, 4, 6, 8]"

lemma ex_docs8: "docs_ok ex_docs8" "is_24 ex_docs8 \<and> 8 \<le> length ex_docs8"
proof -
  show "docs_ok ex_docs8"
    by (simp add: docs_ok_def ex_docs8_def)
  show "is_24 ex_docs8 \<and> 8 \<le> length ex_docs8"
    by code_simp
qed

theorem doc_ids_visited_witness:
  "\<exists>w. WriteDocIds Buffer_Write ex_docs8 [] = Some (Inr (), w) \<and>
    ReadIntsVisitor BytesInput_Read (\<lambda>x v. Some (Inr (), v @ [x])) (length ex_docs8) (NewBaseDataInput (NewBytesInput w), []) = None"
  using doc_ids_visited [OF ex_docs8(1), of "\<lambda>x v. v @ [x]" "[]"] unfolding if_P [OF ex_docs8(2)] .

end
