(* ===== verification/Spec2Isabelle.thy ===== *)
theory Spec2Isabelle
  imports Mutables_Correct Automaton_Finish Int_Blocks_Correct Byte_Blocks_Correct Top_Docs Data_IO_Correct Direct_IO_Correct Heap_Points_Correct Doc_Ids_Correct
begin

text \<open>
  This library models parts of lucene-go, a port of the Lucene search engine to Go, and proves what makes
  them correct.

  \<^bold>\<open>The program.\<close> Documents are cut into terms; the terms of a field go into a hash table over byte blocks
  (core/util/bytesref), and the documents a term is in are written as streams of slices of shared blocks
  (core/util/ints, core/util/bytesref, core/index/termshashperfield.go). What is flushed goes through
  \<open>DataOutput\<close> (core/store) in numbers of variable length and in arrays of packed integers
  (core/util/packed), and is read back through \<open>DataInput\<close> and \<open>RandomAccessInput\<close>. Points are
  divided by value into leaves (core/util/bkd). A query is a
  tree of scorers and automata (core/search, core/util/automaton); a collector keeps the best hits in a
  priority queue (core/util/structure). The parts modelled are those that carry this data.

  \<^bold>\<open>Conventions.\<close> A definition has the name of the function it models, with the type as a prefix where
  names clash. A Go slice is a list, a machine word is a \<open>word\<close> of its width, an \<open>int\<close> that cannot
  be negative or overflow is a \<open>nat\<close>, one that can be negative an \<open>int\<close>. A panic is
  \<^const>\<open>None\<close>, a returned error \<open>Inl\<close> beside the state it leaves. A loop that may not end is a
  \<open>partial_function\<close>, where \<^const>\<open>None\<close> is also not returning; other loops are recursions on a
  measure. Code of other modules (the bit set, the hash function) is an argument, with its documented
  behaviour as a hypothesis. A file of definitions is followed by a file \<open>..._Correct\<close> where the proofs
  are long.

  \<^bold>\<open>Packed integers\<close> (core/util/packed).
  \<^item> \<open>Bit_Stream\<close>: the contract. Blocks of 64 or 8 bits are one stream of bits, and \<open>packed_value\<close> is the
    value at an index. Everything below is proved against it.
  \<^item> \<open>Bulk_Packed\<close>, \<open>Bulk_Unrolled\<close>, \<open>Bulk_Operations\<close>: the generic coder, the 24 unrolled
    decoders and the tables of bulkoperation.go; \<open>Bulk_Packed_Correct\<close>, \<open>Bulk_Unrolled_Long\<close> and
    \<open>Bulk_Unrolled_Bytes\<close> prove each against the contract, and \<open>Bulk_Codec\<close> states it as the locale
    \<open>bulk_codec\<close>, interpreted for 64-bit and for 8-bit blocks: decoding and round trips at every width.
  \<^item> \<open>Packed_Mutable\<close> (the operations of mutable.go over any array, as a locale), \<open>Packed64\<close> (get, set,
    fill and bulk operations of packed64.go).
  \<^item> \<open>Packed_Arrays\<close>, \<open>Mutables\<close>, \<open>Mutables_Correct\<close>: the arrays of other layouts, the choice
    between them, copying, the growable writer and the paged arrays.
  \<^item> \<open>Direct_IO\<close>, \<open>Direct_IO_Correct\<close>: writers through a buffer, the readers of fourteen widths, and
    their round trip.

  \<^bold>\<open>Bytes in and out\<close> (core/store, core/util/zigzag). \<open>Data_IO\<close>: every operation of \<open>DataInput\<close> and
  \<open>DataOutput\<close> over an arbitrary reader and writer, and the streams of bytes and buffers.
  \<open>Data_IO_Correct\<close>: the round trip of a sequence of values of all kinds, zigzag, lengths, copying.

  \<^bold>\<open>Indexing in memory.\<close> \<open>Int_Blocks\<close> and \<open>Int_Blocks_Correct\<close>: streams of integers as chains of
  slices of a shared pool, written in turns and read back. \<open>Byte_Blocks\<close> and
  \<open>Byte_Blocks_Correct\<close>: byte blocks, their allocators, the hash table of terms refined to a list of
  distinct terms, and the streams of bytes.

  \<^bold>\<open>Selecting and sorting\<close> (core/util/selector, core/util/sorter, core/util/bkd).
  \<^item> \<open>Rearranged\<close>: what a routine that only swaps elements of a range keeps. \<open>Selectors\<close>: the
    selectors over an arbitrary state, given by the operations \<open>Swap\<close>, \<open>Compare\<close> and \<open>ByteAt\<close>
    of the source's interfaces. \<open>Selectors_Intro\<close> and \<open>Selectors_Radix\<close>: under the laws of such a
    provider (the locales \<open>intro_slots\<close> and \<open>radix_slots\<close>), the element at \<open>k\<close> comes to its
    place and divides the range. \<open>Radix_Sort\<close> and \<open>Radix_Sort_Correct\<close>: the radix sorter with its
    fallback, with the locale \<open>msb_slots\<close>; \<open>sort.Sort\<close> of the library is modelled by an insertion
    sort, whose order is the one it documents.
    The radix routines go down one byte per call and have \<open>maxLength + 1\<close> as fuel; a median of a
    range has the number of its elements.
  \<^item> \<open>Heap_Points\<close>: points in memory, their selector and sorter, and the writer's configuration.
    \<open>Heap_Points_Order\<close> interprets the locales on them; \<open>Heap_Points_Correct\<close> states what
    selecting, sorting, dividing, counting and reading give.
  \<^item> \<open>Doc_Ids\<close> and \<open>Doc_Ids_Correct\<close>: the documents of a leaf, written in one of three forms,
    read back or handed to a visitor.

  \<^bold>\<open>Automata\<close> (core/util/automaton). \<open>Automaton\<close>: the automaton with its packed transitions, the
  builder, the operations and the run automata. \<open>Automaton_Correct\<close>: the binary search of \<open>Step\<close>,
  run automata against the language, the search for accept states. \<open>Automaton_Finish\<close>: finishing a
  state, and the claims.

  \<^bold>\<open>Search\<close> (core/search, core/util/structure). \<open>Priority_Queue\<close>: the heap, with any order that is a
  strict weak order. \<open>Top_Docs\<close>: the collector of the best hits and the cost of a disjunction, clients
  of the queue.

  \<^bold>\<open>Bounds.\<close> The hash table is proved for up to 131072 calls of \<open>Add\<close>, so that no address passes 32 bits, and
  for a table of at most \<open>2 ^ 32\<close> slots.
  Loops by measure need no bound; a loop that is a \<open>partial_function\<close> is proved to return
  where the property says so.

  \<^bold>\<open>Restrictions.\<close> Strings are read back when they are ASCII and shorter than the buffer of 48 bytes;
  \<open>Data_IO_Correct\<close> also proves that longer ones panic. The growable writer refines a list for the widths for
  which an array is built that is not a \<open>Packed64\<close>; \<open>Mutables_Correct\<close> lists the widths for which
  none is built, for any number of values. A selection and a division of points are given how many leading bytes
  the points share: up to \<open>bytesPerDim\<close> for selecting and sorting, any number below \<open>bytesSorted\<close> for
  dividing.

  \<^bold>\<open>Not modelled\<close>, with the reasons:
  \<^item> the finite state transducers (core/util/fst), a large structure of their own that rests on the bytes
    and packed integers above;
  \<^item> of the trees of points (core/util/bkd) the writer, the reader and the points in files: they pass the
    routines above over temporary files of the directory;
  \<^item> core/util/radixselector, a second copy of the selectors of which a step still panics;
  \<^item> the index layer (core/index): the writer, the segments, merging and the readers, whose logic is spread
    over files, locks and goroutines;
  \<^item> the text codec (codecs/simpletext) and the directories (core/store): formatting and parsing of files,
    and calls of the operating system;
  \<^item> the queries and scorers of core/search beside the collector, of which many methods still panic in the
    source; documents, analysis and attributes, which hold values or call each other.
\<close>

end
